(* ===== verification/Prelude.thy ===== *)
theory Prelude
  imports Main "HOL-Library.Word"
begin

text \<open>
  Shared vocabulary of the development: the machine types of the C++ code, the object
  representation of trivially copyable values (what \<open>std::memcpy\<close> copies on the
  little-endian hosts the program is built for), error codes, sequencing of handlers that
  emit effects, and the contracts that several components share (a first-in first-out queue
  and a copyable value).
\<close>

unbundle bit_operations_syntax

named_theorems wire_simps \<open>object representations: lengths and round trips\<close>
named_theorems queue_simps \<open>queue operations through their list view\<close>
named_theorems handler_defs \<open>definitions of completion handlers\<close>

type_synonym byte = "8 word"
type_synonym u16 = "16 word"
type_synonym u32 = "32 word"
type_synonym u64 = "64 word"

section \<open>Error codes\<close>

text \<open>
  \<open>std::error_code\<close> as the code tests it: the value of no error, the library's own errors
  the code compares with, and any other operating-system error by its number.
\<close>

datatype error_code =
    Success
  | Eof
  | Operation_aborted
  | Not_found
  | Would_block
  | Try_again
  | In_progress
  | Invalid_argument
  | Bad_descriptor
  | Already_open
  | Sys_error int

text \<open>The test \<open>!ec\<close> of the handlers is \<open>\<not> failed ec\<close>.\<close>

definition failed :: "error_code \<Rightarrow> bool" where
  "failed ec \<longleftrightarrow> ec \<noteq> Success"

lemma failed_Success [simp]: "\<not> failed Success"
  by (simp add: failed_def)

lemma failed_others [simp]:
  "failed Eof" "failed Operation_aborted" "failed Not_found" "failed Would_block"
  "failed Try_again" "failed In_progress" "failed Invalid_argument" "failed Bad_descriptor" "failed Already_open"
  "failed (Sys_error n)"
  by (simp_all add: failed_def)

lemma not_failed_iff: "\<not> failed ec \<longleftrightarrow> ec = Success"
  by (simp add: failed_def)

section \<open>Sequencing handlers that emit effects\<close>

text \<open>
  An operation of the code that starts asynchronous work, posts a function object or prints
  returns its new state and the effects in program order. \<open>andthen\<close> runs a second
  operation on the state the first one left.
\<close>

definition andthen :: "'s \<times> 'e list \<Rightarrow> ('s \<Rightarrow> 's \<times> 'e list) \<Rightarrow> 's \<times> 'e list" where
  "andthen r f = (let (s, es) = r; (s', es') = f s in (s', es @ es'))"

lemma andthen_pair [simp]: "andthen (s, es) f = (fst (f s), es @ snd (f s))"
  by (simp add: andthen_def split: prod.splits)

lemma andthen_conv: "andthen r f = (fst (f (fst r)), snd r @ snd (f (fst r)))"
  by (cases r) simp

section \<open>Object representation of integers\<close>

text \<open>Little-endian bytes of a natural number, at a fixed width, and back.\<close>

fun le_bytes :: "nat \<Rightarrow> nat \<Rightarrow> byte list" where
  "le_bytes 0 v = []"
| "le_bytes (Suc n) v = of_nat (v mod 256) # le_bytes n (v div 256)"

fun le_value :: "byte list \<Rightarrow> nat" where
  "le_value [] = 0"
| "le_value (b # bs) = unat b + 256 * le_value bs"

lemma length_le_bytes [simp]: "length (le_bytes n v) = n"
  by (induction n arbitrary: v) auto

lemma le_bytes_zero: "le_bytes n 0 = replicate n 0"
  by (induction n) simp_all

lemma le_value_bound: "le_value bs < 256 ^ length bs"
proof (induction bs)
  case Nil
  then show ?case by simp
next
  case (Cons b bs)
  have "unat b < 256"
    using unsigned_less [of b, where ?'a = nat] by simp
  with Cons show ?case by simp
qed

lemma le_value_le_bytes: "le_value (le_bytes n v) = v mod 256 ^ n"
proof (induction n arbitrary: v)
  case 0
  then show ?case by simp
next
  case (Suc n)
  have "unat (of_nat (v mod 256) :: byte) = v mod 256"
    by (simp add: unat_of_nat)
  then show ?case
    by (simp add: Suc mod_mult2_eq)
qed

lemma le_bytes_le_value: "length bs = n \<Longrightarrow> le_bytes n (le_value bs) = bs"
proof (induction bs arbitrary: n)
  case Nil
  then show ?case by simp
next
  case (Cons b bs)
  then obtain m where n: "n = Suc m" and len: "length bs = m"
    by auto
  have b: "unat b < 256"
    using unsigned_less [of b, where ?'a = nat] by simp
  have "(unat b + 256 * le_value bs) mod 256 = unat b"
    using b by simp
  moreover have "(unat b + 256 * le_value bs) div 256 = le_value bs"
    using b by simp
  ultimately show ?case
    using Cons.IH [OF len] by (simp add: n)
qed

definition u32_bytes :: "u32 \<Rightarrow> byte list" where
  "u32_bytes w = le_bytes 4 (unat w)"

definition bytes_u32 :: "byte list \<Rightarrow> u32" where
  "bytes_u32 bs = of_nat (le_value bs)"

definition u64_bytes :: "u64 \<Rightarrow> byte list" where
  "u64_bytes w = le_bytes 8 (unat w)"

definition bytes_u64 :: "byte list \<Rightarrow> u64" where
  "bytes_u64 bs = of_nat (le_value bs)"

lemma unat_u32_bound: "unat (w :: u32) < 4294967296"
  using unsigned_less [of w, where ?'a = nat] by simp

lemma unat_u64_bound: "unat (w :: u64) < 18446744073709551616"
  using unsigned_less [of w, where ?'a = nat] by simp

lemma length_u32_bytes [simp]: "length (u32_bytes w) = 4"
  by (simp add: u32_bytes_def)

lemma length_u64_bytes [simp]: "length (u64_bytes w) = 8"
  by (simp add: u64_bytes_def)

lemma bytes_u32_u32_bytes [simp]: "bytes_u32 (u32_bytes w) = w"
  using unat_u32_bound [of w] by (simp add: bytes_u32_def u32_bytes_def le_value_le_bytes)

lemma bytes_u64_u64_bytes [simp]: "bytes_u64 (u64_bytes w) = w"
  using unat_u64_bound [of w] by (simp add: bytes_u64_def u64_bytes_def le_value_le_bytes)

lemma u32_bytes_bytes_u32: "length bs = 4 \<Longrightarrow> u32_bytes (bytes_u32 bs) = bs"
  using le_value_bound [of bs]
  by (simp add: bytes_u32_def u32_bytes_def unat_of_nat le_bytes_le_value)

lemma u64_bytes_bytes_u64: "length bs = 8 \<Longrightarrow> u64_bytes (bytes_u64 bs) = bs"
  using le_value_bound [of bs]
  by (simp add: bytes_u64_def u64_bytes_def unat_of_nat le_bytes_le_value)

text \<open>
  \<open>memcpy\<close> of a received prefix over an object: the bytes that arrived replace the first
  bytes of the object, the rest keeps its old value.
\<close>

definition overwrite :: "byte list \<Rightarrow> byte list \<Rightarrow> byte list" where
  "overwrite bs old = take (length old) bs @ drop (length bs) old"

lemma length_overwrite [simp]: "length (overwrite bs old) = length old"
  by (simp add: overwrite_def)

lemma overwrite_full: "length bs = length old \<Longrightarrow> overwrite bs old = bs"
  by (simp add: overwrite_def)

lemma overwrite_Nil [simp]: "overwrite [] old = old"
  by (simp add: overwrite_def)

section \<open>Vectors and decimal text\<close>

text \<open>\<open>std::vector<uint8_t>::resize(n)\<close>: cut to \<open>n\<close> or extend with zero bytes.\<close>

definition vec_resize :: "nat \<Rightarrow> byte list \<Rightarrow> byte list" where
  "vec_resize n xs = take n xs @ replicate (n - length xs) 0"

lemma length_vec_resize [simp]: "length (vec_resize n xs) = n"
  by (simp add: vec_resize_def)

lemma vec_resize_shrink: "n \<le> length xs \<Longrightarrow> vec_resize n xs = take n xs"
  by (simp add: vec_resize_def)

text \<open>\<open>memcpy(xs.data() + i, src, n)\<close> within the vector.\<close>

definition copy_at :: "nat \<Rightarrow> byte list \<Rightarrow> byte list \<Rightarrow> byte list" where
  "copy_at i src xs = take i xs @ src @ drop (i + length src) xs"

lemma copy_at_resize:
  "copy_at (length xs) src (vec_resize (length xs + length src) xs) = xs @ src"
  by (simp add: copy_at_def vec_resize_def)

text \<open>Decimal digits, as \<open>std::to_string\<close> and \<open>operator<<\<close> print an unsigned integer.\<close>

fun show_nat :: "nat \<Rightarrow> string" where
  "show_nat n = (if n < 10 then [char_of (48 + n)] else show_nat (n div 10) @ [char_of (48 + n mod 10)])"

declare show_nat.simps [simp del]

definition show_int :: "int \<Rightarrow> string" where
  "show_int i = (if i < 0 then CHR ''-'' # show_nat (nat (- i)) else show_nat (nat i))"

section \<open>Contracts\<close>

text \<open>
  A trivially copyable value: a fixed size, its bytes, and the value the bytes denote. The
  message operators and the wire format use values only through this contract.
\<close>

locale pod =
  fixes sizeof :: nat
    and to_bytes :: "'a \<Rightarrow> byte list"
    and of_bytes :: "byte list \<Rightarrow> 'a"
  assumes length_to_bytes: "length (to_bytes x) = sizeof"
    and of_to_bytes: "of_bytes (to_bytes x) = x"
    and to_of_bytes: "length bs = sizeof \<Longrightarrow> to_bytes (of_bytes bs) = bs"
begin

lemma to_bytes_inject: "to_bytes x = to_bytes y \<longleftrightarrow> x = y"
  by (metis of_to_bytes)

lemma split_front:
  "take sizeof (to_bytes x @ rest) = to_bytes x" "drop sizeof (to_bytes x @ rest) = rest"
  by (simp_all add: length_to_bytes)

lemma split_back:
  "take (length (xs @ to_bytes x) - sizeof) (xs @ to_bytes x) = xs"
  "drop (length (xs @ to_bytes x) - sizeof) (xs @ to_bytes x) = to_bytes x"
  by (simp_all add: length_to_bytes)

end

interpretation u32_pod: pod 4 u32_bytes bytes_u32
  by unfold_locales (simp_all add: u32_bytes_bytes_u32)

interpretation u64_pod: pod 8 u64_bytes bytes_u64
  by unfold_locales (simp_all add: u64_bytes_bytes_u64)

text \<open>
  A first-in first-out queue seen through the list of its elements: what its clients rely
  on. \<open>inv\<close> is the representation invariant, \<open>ok\<close> the precondition of a push.
\<close>

locale fifo =
  fixes inv :: "'q \<Rightarrow> bool"
    and elems :: "'q \<Rightarrow> 'a list"
    and ok :: "'a \<Rightarrow> 'q \<Rightarrow> bool"
    and put :: "'a \<Rightarrow> 'q \<Rightarrow> 'q"
    and peek :: "'q \<Rightarrow> 'a option"
    and pop :: "'q \<Rightarrow> 'q"
    and is_empty :: "'q \<Rightarrow> bool"
  assumes inv_put: "inv q \<Longrightarrow> ok x q \<Longrightarrow> inv (put x q)"
    and inv_pop: "inv q \<Longrightarrow> inv (pop q)"
    and elems_put: "inv q \<Longrightarrow> ok x q \<Longrightarrow> elems (put x q) = elems q @ [x]"
    and elems_pop: "inv q \<Longrightarrow> elems (pop q) = tl (elems q)"
    and peek_elems: "inv q \<Longrightarrow> peek q = (case elems q of [] \<Rightarrow> None | x # _ \<Rightarrow> Some x)"
    and is_empty_elems: "inv q \<Longrightarrow> is_empty q \<longleftrightarrow> elems q = []"
begin

lemma peek_put:
  assumes "inv q" and "ok x q"
  shows "peek (put x q) = (if is_empty q then Some x else peek q)"
  using assms by (auto simp: peek_elems inv_put elems_put is_empty_elems split: list.splits)

lemma pop_put:
  assumes "inv q" and "ok x q" and "\<not> is_empty q"
  shows "elems (pop (put x q)) = elems (pop q) @ [x]"
  using assms by (auto simp: elems_pop inv_put elems_put is_empty_elems)

lemma put_not_empty: "inv q \<Longrightarrow> ok x q \<Longrightarrow> \<not> is_empty (put x q)"
  by (simp add: is_empty_elems inv_put elems_put)

lemma peek_pop: "inv q \<Longrightarrow> peek q = Some x \<Longrightarrow> elems q = x # elems (pop q)"
  by (auto simp: peek_elems elems_pop split: list.splits)

end

end
