(* ===== verification/Net_Message.thy ===== *)
theory Net_Message
  imports Prelude
begin

text \<open>
  \<open>net_message.h\<close>: the message of the protocol. The template parameter \<open>T\<close> is an
  \<open>enum class ... : uint32_t\<close> in both programs, so an identifier is any 32-bit value (a
  value read from the wire need not be one of the enumerators). Shown here: the stack
  discipline of \<open>operator<<\<close> and \<open>operator>>\<close>, that both keep the size in the header
  equal to the length of the body, and what happens on a body that is too short.
\<close>

section \<open>Data\<close>

record message_header =
  header_id :: u32
  header_size :: u32

record message =
  header :: message_header
  body :: "byte list"

text \<open>\<open>message_header<T>\{\}\<close> and \<open>message<T>\{\}\<close>: both fields value-initialised.\<close>

definition empty_header :: message_header where
  "empty_header = \<lparr>header_id = 0, header_size = 0\<rparr>"

definition empty_message :: message where
  "empty_message = \<lparr>header = empty_header, body = []\<rparr>"

text \<open>
  \<open>owned_message\<close>: the message with the connection it came from; \<open>remote\<close> is the
  \<open>shared_ptr\<close>, \<open>None\<close> for \<open>nullptr\<close>, otherwise the identity of the object.
\<close>

record owned_message =
  remote :: "nat option"
  msg :: message

text \<open>The header as it lies in memory and on the wire: \<open>sizeof(message_header<T>)\<close> is 8.\<close>

definition header_sizeof :: nat where
  "header_sizeof = 8"

definition header_bytes :: "message_header \<Rightarrow> byte list" where
  "header_bytes h = u32_bytes (header_id h) @ u32_bytes (header_size h)"

definition bytes_header :: "byte list \<Rightarrow> message_header" where
  "bytes_header bs =
     \<lparr>header_id = bytes_u32 (take 4 bs), header_size = bytes_u32 (take 4 (drop 4 bs))\<rparr>"

lemma length_header_bytes [simp]: "length (header_bytes h) = header_sizeof"
  by (simp add: header_bytes_def header_sizeof_def)

lemma bytes_header_header_bytes [simp]: "bytes_header (header_bytes h) = h"
  by (simp add: bytes_header_def header_bytes_def)

lemma header_bytes_bytes_header:
  assumes "length bs = header_sizeof"
  shows "header_bytes (bytes_header bs) = bs"
proof -
  have "take 4 (drop 4 bs) = drop 4 bs"
    using assms by (simp add: header_sizeof_def)
  then show ?thesis
    using assms
    by (simp add: header_bytes_def bytes_header_def header_sizeof_def u32_bytes_bytes_u32)
qed

interpretation header_pod: pod header_sizeof header_bytes bytes_header
  by unfold_locales (simp_all add: header_bytes_bytes_header)

section \<open>Operations\<close>

definition message_size :: "message \<Rightarrow> nat" where
  "message_size m = length (body m)"

text \<open>The debugging output of \<open>operator<<(std::ostream&, ...)\<close>; byte F1 is the n with tilde.\<close>

definition show_message :: "message \<Rightarrow> string" where
  "show_message m = ''ID:'' @ show_int (sint (header_id (header m)))
     @ '' Tama'' @ [CHR 0xF1] @ ''o:'' @ show_nat (unat (header_size (header m)))"

definition show_owned_message :: "owned_message \<Rightarrow> string" where
  "show_owned_message om = show_message (msg om)"

text \<open>
  \<open>operator<<\<close>: the vector grows by \<open>sizeof(DataType)\<close>, the object's bytes are copied
  into the new space and the size in the header is recomputed (the conversion of
  \<open>size_t\<close> to \<open>uint32_t\<close> keeps the low 32 bits).
\<close>

definition push_data :: "('a \<Rightarrow> byte list) \<Rightarrow> message \<Rightarrow> 'a \<Rightarrow> message" where
  "push_data to_bytes m data =
     (let i = length (body m);
          resized = vec_resize (length (body m) + length (to_bytes data)) (body m);
          m1 = m\<lparr>body := copy_at i (to_bytes data) resized\<rparr>
      in m1\<lparr>header := (header m1)\<lparr>header_size := of_nat (message_size m1)\<rparr>\<rparr>)"

text \<open>
  \<open>operator>>\<close>: the last \<open>sizeof(DataType)\<close> bytes become the object and are cut off.
  The code computes \<open>body.size() - sizeof(DataType)\<close> unchecked: on a shorter body the
  unsigned subtraction wraps and the \<open>memcpy\<close> reads outside the vector. That undefined
  behaviour is \<open>None\<close>.
\<close>

definition pop_data :: "nat \<Rightarrow> (byte list \<Rightarrow> 'a) \<Rightarrow> message \<Rightarrow> (message \<times> 'a) option" where
  "pop_data sizeof of_bytes m =
     (if sizeof \<le> length (body m) then
        (let i = length (body m) - sizeof;
             data = of_bytes (take sizeof (drop i (body m)));
             m1 = m\<lparr>body := vec_resize i (body m)\<rparr>
         in Some (m1\<lparr>header := (header m1)\<lparr>header_size := of_nat (message_size m1)\<rparr>\<rparr>, data))
      else None)"

section \<open>The size in the header\<close>

definition wf_message :: "message \<Rightarrow> bool" where
  "wf_message m \<longleftrightarrow> header_size (header m) = of_nat (length (body m))"

lemma wf_empty_message [simp]: "wf_message empty_message"
  by (simp add: wf_message_def empty_message_def empty_header_def)

lemma body_push_data [simp]: "body (push_data to_bytes m x) = body m @ to_bytes x"
  by (simp add: push_data_def Let_def copy_at_resize)

lemma id_push_data [simp]: "header_id (header (push_data to_bytes m x)) = header_id (header m)"
  by (simp add: push_data_def Let_def)

lemma wf_push_data [simp]: "wf_message (push_data to_bytes m x)"
  by (simp add: wf_message_def push_data_def Let_def message_size_def)

lemma wf_pop_data: "pop_data n of_bytes m = Some (m', x) \<Longrightarrow> wf_message m'"
  by (auto simp: wf_message_def pop_data_def Let_def message_size_def split: if_splits)

lemma length_pop_data:
  "pop_data n of_bytes m = Some (m', x) \<Longrightarrow> length (body m) = length (body m') + n"
  by (auto simp: pop_data_def Let_def split: if_splits)

lemma message_eqI:
  "header_id (header a) = header_id (header b) \<Longrightarrow> header_size (header a) = header_size (header b) \<Longrightarrow>
   body a = body b \<Longrightarrow> a = (b :: message)"
  by (cases a; cases b; cases "header a"; cases "header b") simp

context pod
begin

lemma pop_push:
  assumes "wf_message m"
  shows "pop_data sizeof of_bytes (push_data to_bytes m x) = Some (m, x)"
proof -
  have "take sizeof (drop (length (body m)) (body m @ to_bytes x)) = to_bytes x"
    by (simp add: length_to_bytes)
  moreover have "vec_resize (length (body m)) (body m @ to_bytes x) = body m"
    by (simp add: vec_resize_shrink)
  ultimately show ?thesis
    using assms
    by (auto simp: pop_data_def Let_def message_size_def length_to_bytes of_to_bytes
        wf_message_def intro!: message_eqI)
qed

lemma push_pop:
  assumes "wf_message m" and "pop_data sizeof of_bytes m = Some (m', x)"
  shows "push_data to_bytes m' x = m"
proof -
  have len: "sizeof \<le> length (body m)" and x: "x = of_bytes (drop (length (body m) - sizeof) (body m))"
    and b: "body m' = take (length (body m) - sizeof) (body m)"
    and i: "header_id (header m') = header_id (header m)"
    using assms(2) by (auto simp: pop_data_def Let_def vec_resize_shrink split: if_splits)
  have "body (push_data to_bytes m' x) = body m"
    using len by (simp add: b x to_of_bytes)
  moreover have "wf_message (push_data to_bytes m' x)"
    by simp
  ultimately show ?thesis
    using assms(1) i by (intro message_eqI) (simp_all add: wf_message_def)
qed

lemma pop_short: "length (body m) < sizeof \<Longrightarrow> pop_data sizeof of_bytes m = None"
  by (simp add: pop_data_def)

end

section \<open>The values the programs send\<close>

text \<open>
  The two programs push a \<open>uint32_t\<close> (a connection identifier) and a 64-bit
  \<open>std::chrono::system_clock::time_point\<close>.
\<close>

datatype field = U32 u32 | U64 u64

datatype field_type = T32 | T64

fun type_of_field :: "field \<Rightarrow> field_type" where
  "type_of_field (U32 w) = T32"
| "type_of_field (U64 w) = T64"

fun push_field :: "message \<Rightarrow> field \<Rightarrow> message" where
  "push_field m (U32 w) = push_data u32_bytes m w"
| "push_field m (U64 w) = push_data u64_bytes m w"

fun pop_field :: "field_type \<Rightarrow> message \<Rightarrow> (message \<times> field) option" where
  "pop_field T32 m = map_option (map_prod id U32) (pop_data 4 bytes_u32 m)"
| "pop_field T64 m = map_option (map_prod id U64) (pop_data 8 bytes_u64 m)"

fun push_fields :: "message \<Rightarrow> field list \<Rightarrow> message" where
  "push_fields m [] = m"
| "push_fields m (f # fs) = push_fields (push_field m f) fs"

fun pop_fields :: "field_type list \<Rightarrow> message \<Rightarrow> (message \<times> field list) option" where
  "pop_fields [] m = Some (m, [])"
| "pop_fields (t # ts) m =
     (case pop_field t m of None \<Rightarrow> None
      | Some (m', f) \<Rightarrow> map_option (map_prod id (Cons f)) (pop_fields ts m'))"

lemma pop_push_field: "wf_message m \<Longrightarrow> pop_field (type_of_field f) (push_field m f) = Some (m, f)"
  by (cases f) (simp_all add: u32_pod.pop_push u64_pod.pop_push)

lemma wf_push_field: "wf_message (push_field m f)"
  by (cases f) simp_all

lemma push_fields_snoc: "push_fields m (fs @ [f]) = push_field (push_fields m fs) f"
  by (induction fs arbitrary: m) auto

lemma wf_push_fields: "wf_message m \<Longrightarrow> wf_message (push_fields m fs)"
  by (induction fs arbitrary: m) (auto simp: wf_push_field)

text \<open>
  C7. Whatever values are pushed with \<open>operator<<\<close>, popping with \<open>operator>>\<close> in the
  opposite order of types succeeds, gives the same values last-in first-out, and leaves the
  message (header and body) as it was before the first push.
\<close>

theorem pop_fields_push_fields:
  assumes "wf_message m"
  shows "pop_fields (map type_of_field (rev fs)) (push_fields m fs) = Some (m, rev fs)"
proof (induction fs rule: rev_induct)
  case Nil
  then show ?case by simp
next
  case (snoc f fs)
  have "pop_field (type_of_field f) (push_field (push_fields m fs) f) = Some (push_fields m fs, f)"
    using assms by (simp add: pop_push_field wf_push_fields)
  with snoc show ?case
    by (simp add: push_fields_snoc)
qed

theorem pop_fields_push_fields_witness:
  "wf_message empty_message \<and>
   pop_fields [T32, T64] (push_fields empty_message [U64 1600000000, U32 10003])
     = Some (empty_message, [U32 10003, U64 1600000000])"
  using pop_fields_push_fields [of empty_message "[U64 1600000000, U32 10003]"] by simp

end
