(* ===== verification/Net_Tsqueue.thy ===== *)
theory Net_Tsqueue
  imports Prelude
begin

text \<open>
  \<open>net_tsqueue.h\<close>: the queue shared between the thread of the io_context and the program's
  own thread. First the operations as they act on the deque under \<open>muxQueue\<close>; then the
  threads themselves, step by step, with the two mutexes and the condition variable. Shown
  here: the queue contract, that interleaved pushes and pops lose and reorder nothing and
  never pop an empty deque, that the nested locks cannot deadlock, and that \<open>wait\<close> can miss
  the only notification.
\<close>

section \<open>The operations on the deque\<close>

record 'a tsqueue =
  deqQueue :: "'a list"

definition tsq_new :: "'a tsqueue" where
  "tsq_new = \<lparr>deqQueue = []\<rparr>"

text \<open>\<open>front\<close>, \<open>back\<close> and the pops of an empty deque are undefined: \<open>None\<close>.\<close>

definition tsq_front :: "'a tsqueue \<Rightarrow> 'a option" where
  "tsq_front q = (case deqQueue q of [] \<Rightarrow> None | x # _ \<Rightarrow> Some x)"

definition tsq_back :: "'a tsqueue \<Rightarrow> 'a option" where
  "tsq_back q = (if deqQueue q = [] then None else Some (last (deqQueue q)))"

definition tsq_push_back :: "'a tsqueue \<Rightarrow> 'a \<Rightarrow> 'a tsqueue" where
  "tsq_push_back q item = q\<lparr>deqQueue := deqQueue q @ [item]\<rparr>"

definition tsq_push_front :: "'a tsqueue \<Rightarrow> 'a \<Rightarrow> 'a tsqueue" where
  "tsq_push_front q item = q\<lparr>deqQueue := item # deqQueue q\<rparr>"

definition tsq_empty :: "'a tsqueue \<Rightarrow> bool" where
  "tsq_empty q \<longleftrightarrow> deqQueue q = []"

definition tsq_count :: "'a tsqueue \<Rightarrow> nat" where
  "tsq_count q = length (deqQueue q)"

definition tsq_clear :: "'a tsqueue \<Rightarrow> 'a tsqueue" where
  "tsq_clear q = q\<lparr>deqQueue := []\<rparr>"

definition tsq_pop_front :: "'a tsqueue \<Rightarrow> ('a \<times> 'a tsqueue) option" where
  "tsq_pop_front q =
     (case deqQueue q of [] \<Rightarrow> None | t # rest \<Rightarrow> Some (t, q\<lparr>deqQueue := rest\<rparr>))"

definition tsq_pop_back :: "'a tsqueue \<Rightarrow> ('a \<times> 'a tsqueue) option" where
  "tsq_pop_back q =
     (if deqQueue q = [] then None
      else Some (last (deqQueue q), q\<lparr>deqQueue := butlast (deqQueue q)\<rparr>))"

definition tsq_drop_front :: "'a tsqueue \<Rightarrow> 'a tsqueue" where
  "tsq_drop_front q = (case tsq_pop_front q of None \<Rightarrow> q | Some (_, q') \<Rightarrow> q')"

lemmas tsq_defs = tsq_new_def tsq_front_def tsq_back_def tsq_push_back_def tsq_push_front_def
  tsq_empty_def tsq_count_def tsq_clear_def tsq_pop_front_def tsq_pop_back_def tsq_drop_front_def

interpretation tsq: fifo "\<lambda>_. True" deqQueue "\<lambda>_ _. True" "\<lambda>x q. tsq_push_back q x" tsq_front
  tsq_drop_front tsq_empty
  by unfold_locales (auto simp: tsq_defs split: list.splits)

lemma deq_simps [queue_simps, simp]:
  "deqQueue tsq_new = []"
  "deqQueue (tsq_push_back q x) = deqQueue q @ [x]"
  "deqQueue (tsq_push_front q x) = x # deqQueue q"
  "deqQueue (tsq_clear q) = []"
  "tsq_empty q \<longleftrightarrow> deqQueue q = []"
  by (simp_all add: tsq_defs)

lemma tsq_pop_front_Some:
  "tsq_pop_front q = Some (x, q') \<longleftrightarrow> deqQueue q = x # deqQueue q'"
  by (cases q; cases q') (auto simp: tsq_defs split: list.splits)

lemma tsq_pop_front_None: "tsq_pop_front q = None \<longleftrightarrow> tsq_empty q"
  by (auto simp: tsq_defs split: list.splits)

lemma tsq_pop_back_Some:
  "tsq_pop_back q = Some (x, q') \<longleftrightarrow> deqQueue q = deqQueue q' @ [x]"
  by (cases q; cases q') (auto simp: tsq_defs)

section \<open>The threads\<close>

text \<open>
  Where a thread stands in an operation. \<open>push_back\<close> takes \<open>muxQueue\<close>, appends, takes
  \<open>muxBlocking\<close>, notifies and releases both in reverse order. \<open>wait\<close> is the loop: call
  \<open>empty\<close>, and while it says yes take \<open>muxBlocking\<close> and sleep on \<open>cvBlocking\<close>, which
  releases the mutex and takes it again on waking. \<open>Drain\<close> is the consumer's loop head
  \<open>!empty()\<close> followed by \<open>pop_front\<close>.
\<close>

datatype 'a tsq_pc =
    Idle
  | Push_lock 'a
  | Push_emplace 'a
  | Push_lock_blocking
  | Push_notify
  | Push_unlock_blocking
  | Push_unlock
  | Wait_lock
  | Wait_test
  | Wait_lock_blocking
  | Wait_sleep
  | Sleeping
  | Woken
  | Wait_unlock_blocking
  | Drain_lock
  | Drain_test
  | Pop_lock
  | Pop_take

record 'a tsq_sys =
  tsq :: "'a tsqueue"
  muxQueue :: "nat option"
  muxBlocking :: "nat option"
  pcs :: "nat \<Rightarrow> 'a tsq_pc"
  pushed :: "'a list"
  popped :: "'a list"
  undefined_pop :: bool

definition tsq_init :: "'a tsq_sys" where
  "tsq_init = \<lparr>tsq = tsq_new, muxQueue = None, muxBlocking = None, pcs = (\<lambda>_. Idle),
     pushed = [], popped = [], undefined_pop = False\<rparr>"

definition goto :: "nat \<Rightarrow> 'a tsq_pc \<Rightarrow> 'a tsq_sys \<Rightarrow> 'a tsq_sys" where
  "goto i p s = s\<lparr>pcs := (pcs s)(i := p)\<rparr>"

text \<open>
  Thread 0 is the consumer (the program's thread, which alone calls \<open>wait\<close> and
  \<open>pop_front\<close>); any thread may push. \<open>pushed\<close> and \<open>popped\<close> record the history.
\<close>

inductive tsq_step :: "nat \<Rightarrow> 'a tsq_sys \<Rightarrow> 'a tsq_sys \<Rightarrow> bool" where
  push_call: "pcs s i = Idle \<Longrightarrow> tsq_step i s (goto i (Push_lock x) s)"
| push_lock: "pcs s i = Push_lock x \<Longrightarrow> muxQueue s = None \<Longrightarrow>
    tsq_step i s (goto i (Push_emplace x) (s\<lparr>muxQueue := Some i\<rparr>))"
| push_emplace: "pcs s i = Push_emplace x \<Longrightarrow>
    tsq_step i s (goto i Push_lock_blocking
      (s\<lparr>tsq := tsq_push_back (tsq s) x, pushed := pushed s @ [x]\<rparr>))"
| push_lock_blocking: "pcs s i = Push_lock_blocking \<Longrightarrow> muxBlocking s = None \<Longrightarrow>
    tsq_step i s (goto i Push_notify (s\<lparr>muxBlocking := Some i\<rparr>))"
| notify_sleeper: "pcs s i = Push_notify \<Longrightarrow> pcs s j = Sleeping \<Longrightarrow>
    tsq_step i s (goto i Push_unlock_blocking (goto j Woken s))"
| notify_nobody: "pcs s i = Push_notify \<Longrightarrow> \<forall>j. pcs s j \<noteq> Sleeping \<Longrightarrow>
    tsq_step i s (goto i Push_unlock_blocking s)"
| push_unlock_blocking: "pcs s i = Push_unlock_blocking \<Longrightarrow>
    tsq_step i s (goto i Push_unlock (s\<lparr>muxBlocking := None\<rparr>))"
| push_unlock: "pcs s i = Push_unlock \<Longrightarrow> tsq_step i s (goto i Idle (s\<lparr>muxQueue := None\<rparr>))"
| wait_call: "pcs s 0 = Idle \<Longrightarrow> tsq_step 0 s (goto 0 Wait_lock s)"
| wait_lock: "pcs s i = Wait_lock \<Longrightarrow> muxQueue s = None \<Longrightarrow>
    tsq_step i s (goto i Wait_test (s\<lparr>muxQueue := Some i\<rparr>))"
| wait_empty: "pcs s i = Wait_test \<Longrightarrow> tsq_empty (tsq s) \<Longrightarrow>
    tsq_step i s (goto i Wait_lock_blocking (s\<lparr>muxQueue := None\<rparr>))"
| wait_done: "pcs s i = Wait_test \<Longrightarrow> \<not> tsq_empty (tsq s) \<Longrightarrow>
    tsq_step i s (goto i Idle (s\<lparr>muxQueue := None\<rparr>))"
| wait_lock_blocking: "pcs s i = Wait_lock_blocking \<Longrightarrow> muxBlocking s = None \<Longrightarrow>
    tsq_step i s (goto i Wait_sleep (s\<lparr>muxBlocking := Some i\<rparr>))"
| wait_sleep: "pcs s i = Wait_sleep \<Longrightarrow> tsq_step i s (goto i Sleeping (s\<lparr>muxBlocking := None\<rparr>))"
| spurious_wakeup: "pcs s i = Sleeping \<Longrightarrow> tsq_step i s (goto i Woken s)"
| wait_relock: "pcs s i = Woken \<Longrightarrow> muxBlocking s = None \<Longrightarrow>
    tsq_step i s (goto i Wait_unlock_blocking (s\<lparr>muxBlocking := Some i\<rparr>))"
| wait_unlock_blocking: "pcs s i = Wait_unlock_blocking \<Longrightarrow>
    tsq_step i s (goto i Wait_lock (s\<lparr>muxBlocking := None\<rparr>))"
| drain_call: "pcs s 0 = Idle \<Longrightarrow> tsq_step 0 s (goto 0 Drain_lock s)"
| drain_lock: "pcs s i = Drain_lock \<Longrightarrow> muxQueue s = None \<Longrightarrow>
    tsq_step i s (goto i Drain_test (s\<lparr>muxQueue := Some i\<rparr>))"
| drain_empty: "pcs s i = Drain_test \<Longrightarrow> tsq_empty (tsq s) \<Longrightarrow>
    tsq_step i s (goto i Idle (s\<lparr>muxQueue := None\<rparr>))"
| drain_more: "pcs s i = Drain_test \<Longrightarrow> \<not> tsq_empty (tsq s) \<Longrightarrow>
    tsq_step i s (goto i Pop_lock (s\<lparr>muxQueue := None\<rparr>))"
| pop_lock: "pcs s i = Pop_lock \<Longrightarrow> muxQueue s = None \<Longrightarrow>
    tsq_step i s (goto i Pop_take (s\<lparr>muxQueue := Some i\<rparr>))"
| pop_take: "pcs s i = Pop_take \<Longrightarrow> tsq_pop_front (tsq s) = Some (x, q') \<Longrightarrow>
    tsq_step i s (goto i Idle (s\<lparr>tsq := q', popped := popped s @ [x], muxQueue := None\<rparr>))"
| pop_undefined: "pcs s i = Pop_take \<Longrightarrow> tsq_pop_front (tsq s) = None \<Longrightarrow>
    tsq_step i s (goto i Idle (s\<lparr>undefined_pop := True, muxQueue := None\<rparr>))"

inductive tsq_reachable :: "'a tsq_sys \<Rightarrow> bool" where
  tsq_start: "tsq_reachable tsq_init"
| tsq_next: "tsq_reachable s \<Longrightarrow> tsq_step i s t \<Longrightarrow> tsq_reachable t"

section \<open>The invariant\<close>

fun holds_queue :: "'a tsq_pc \<Rightarrow> bool" where
  "holds_queue (Push_emplace x) = True"
| "holds_queue Push_lock_blocking = True"
| "holds_queue Push_notify = True"
| "holds_queue Push_unlock_blocking = True"
| "holds_queue Push_unlock = True"
| "holds_queue Wait_test = True"
| "holds_queue Drain_test = True"
| "holds_queue Pop_take = True"
| "holds_queue _ = False"

fun holds_blocking :: "'a tsq_pc \<Rightarrow> bool" where
  "holds_blocking Push_notify = True"
| "holds_blocking Push_unlock_blocking = True"
| "holds_blocking Wait_sleep = True"
| "holds_blocking Wait_unlock_blocking = True"
| "holds_blocking _ = False"

fun at_consumer :: "'a tsq_pc \<Rightarrow> bool" where
  "at_consumer Drain_lock = True"
| "at_consumer Drain_test = True"
| "at_consumer Pop_lock = True"
| "at_consumer Pop_take = True"
| "at_consumer _ = False"

fun popping :: "'a tsq_pc \<Rightarrow> bool" where
  "popping Pop_lock = True"
| "popping Pop_take = True"
| "popping _ = False"

text \<open>
  \<open>owns H ps m\<close>: the threads whose position satisfies \<open>H\<close> are exactly the holder of
  the mutex \<open>m\<close>. A step of one thread keeps, takes or releases the mutex.
\<close>

definition owns :: "('p \<Rightarrow> bool) \<Rightarrow> (nat \<Rightarrow> 'p) \<Rightarrow> nat option \<Rightarrow> bool" where
  "owns H ps m \<longleftrightarrow> (\<forall>j. H (ps j) \<longleftrightarrow> m = Some j)"

lemma owns_keep: "owns H ps m \<Longrightarrow> H p = H (ps i) \<Longrightarrow> owns H (ps(i := p)) m"
  by (simp add: owns_def)

lemma owns_take: "owns H ps None \<Longrightarrow> H p \<Longrightarrow> owns H (ps(i := p)) (Some i)"
  by (auto simp: owns_def)

lemma owns_drop: "owns H ps m \<Longrightarrow> H (ps i) \<Longrightarrow> \<not> H p \<Longrightarrow> owns H (ps(i := p)) None"
  by (auto simp: owns_def)

lemma ownsD: "owns H ps m \<Longrightarrow> H (ps i) \<longleftrightarrow> m = Some i"
  by (simp add: owns_def)

definition tsq_inv :: "'a tsq_sys \<Rightarrow> bool" where
  "tsq_inv s \<longleftrightarrow>
     owns holds_queue (pcs s) (muxQueue s)
   \<and> owns holds_blocking (pcs s) (muxBlocking s)
   \<and> (\<forall>i. at_consumer (pcs s i) \<longrightarrow> i = 0)
   \<and> (popping (pcs s 0) \<longrightarrow> deqQueue (tsq s) \<noteq> [])
   \<and> pushed s = popped s @ deqQueue (tsq s)
   \<and> \<not> undefined_pop s"

lemma tsq_inv_init: "tsq_inv tsq_init"
  by (simp add: tsq_inv_def tsq_init_def owns_def)

lemma goto_simps [simp]:
  "pcs (goto i p s) = (pcs s)(i := p)"
  "tsq (goto i p s) = tsq s"
  "muxQueue (goto i p s) = muxQueue s"
  "muxBlocking (goto i p s) = muxBlocking s"
  "pushed (goto i p s) = pushed s"
  "popped (goto i p s) = popped s"
  "undefined_pop (goto i p s) = undefined_pop s"
  by (simp_all add: goto_def)

lemma tsq_invD:
  assumes "tsq_inv s"
  shows "owns holds_queue (pcs s) (muxQueue s)"
    and "owns holds_blocking (pcs s) (muxBlocking s)"
    and "at_consumer (pcs s i) \<Longrightarrow> i = 0"
    and "popping (pcs s 0) \<Longrightarrow> deqQueue (tsq s) \<noteq> []"
    and "pushed s = popped s @ deqQueue (tsq s)"
    and "\<not> undefined_pop s"
  using assms by (auto simp: tsq_inv_def)

lemmas owns_step = owns_keep owns_take owns_drop

lemma tsq_step_inv:
  assumes "tsq_step i s t" and "tsq_inv s"
  shows "tsq_inv t"
  using assms
proof (cases rule: tsq_step.cases)
  case (notify_sleeper j)
  note inv = tsq_invD [OF \<open>tsq_inv s\<close>]
  have "owns holds_queue ((pcs s)(j := Woken)) (muxQueue s)"
    and "owns holds_blocking ((pcs s)(j := Woken)) (muxBlocking s)"
    using inv(1,2) notify_sleeper by (auto intro!: owns_keep)
  with notify_sleeper inv show ?thesis
    by (auto simp: tsq_inv_def intro!: owns_keep split: if_splits)
next
  case (pop_take x q')
  note inv = tsq_invD [OF \<open>tsq_inv s\<close>]
  have i: "i = 0" using inv(3) [of i] pop_take by simp
  have "deqQueue (tsq s) = x # deqQueue q'"
    using pop_take by (simp add: tsq_pop_front_Some)
  with pop_take inv show ?thesis unfolding i
    by (auto simp: tsq_inv_def intro: owns_keep owns_drop split: if_splits)
next
  case pop_lock
  note inv = tsq_invD [OF \<open>tsq_inv s\<close>]
  have "i = 0" using inv(3) [of i] pop_lock by simp
  with pop_lock inv show ?thesis
    by (auto simp: tsq_inv_def intro: owns_step split: if_splits)
next
  case pop_undefined
  note inv = tsq_invD [OF \<open>tsq_inv s\<close>]
  have "i = 0" using inv(3) [of i] pop_undefined by simp
  then have "deqQueue (tsq s) \<noteq> []" using inv(4) pop_undefined by simp
  with pop_undefined show ?thesis by (simp add: tsq_pop_front_None)
qed (auto simp: tsq_inv_def intro: owns_step split: if_splits)

lemma tsq_reachable_inv: "tsq_reachable s \<Longrightarrow> tsq_inv s"
  by (induction rule: tsq_reachable.induct) (auto intro: tsq_inv_init tsq_step_inv)

section \<open>Properties\<close>

text \<open>
  C3. In every state the threads can reach, whatever their interleaving: what was pushed, in
  the order of the appends, is what was popped followed by what is still queued; no pop ever
  ran on an empty deque; and each mutex is held by at most one thread.
\<close>

theorem tsqueue_linearizable:
  assumes "tsq_reachable s"
  shows "pushed s = popped s @ deqQueue (tsq s) \<and> \<not> undefined_pop s
     \<and> (holds_queue (pcs s i) \<and> holds_queue (pcs s j) \<longrightarrow> i = j)
     \<and> (holds_blocking (pcs s i) \<and> holds_blocking (pcs s j) \<longrightarrow> i = j)"
proof -
  note inv = tsq_invD [OF tsq_reachable_inv [OF assms]]
  show ?thesis
    using inv(5,6) ownsD [OF inv(1)] ownsD [OF inv(2)] by auto
qed

text \<open>A run of one push and one guarded pop, the witness of the invariant's hypothesis.\<close>

lemma tsq_run_push_pop: "\<exists>s. tsq_reachable s \<and> popped s = [x] \<and> pcs s 0 = Idle"
  apply (rule exI, rule conjI)
   apply (rule tsq_next [OF _ pop_take [where i = 0 and x = x and q' = tsq_new]])
     apply (rule tsq_next [OF _ pop_lock [where i = 0]])
       apply (rule tsq_next [OF _ drain_more [where i = 0]])
         apply (rule tsq_next [OF _ drain_lock [where i = 0]])
           apply (rule tsq_next [OF _ drain_call])
            apply (rule tsq_next [OF _ push_unlock [where i = 1]])
             apply (rule tsq_next [OF _ push_unlock_blocking [where i = 1]])
              apply (rule tsq_next [OF _ notify_nobody [where i = 1]])
                apply (rule tsq_next [OF _ push_lock_blocking [where i = 1]])
                  apply (rule tsq_next [OF _ push_emplace [where i = 1 and x = x]])
                   apply (rule tsq_next [OF _ push_lock [where i = 1 and x = x]])
                     apply (rule tsq_next [OF tsq_start push_call [where i = 1 and x = x]])
                     apply (simp_all add: tsq_init_def tsq_pop_front_Some)
  done

theorem tsqueue_linearizable_witness:
  "\<exists>s. tsq_reachable s \<and> popped s = [7 :: nat] \<and> pushed s = popped s @ deqQueue (tsq s)"
proof -
  obtain s :: "nat tsq_sys" where "tsq_reachable s" and "popped s = [7]"
    using tsq_run_push_pop [of 7] by auto
  with tsqueue_linearizable [of s 0 0] show ?thesis by auto
qed

lemma blocking_holder_moves:
  assumes "tsq_inv s" and "holds_blocking (pcs s i)"
  shows "\<exists>t. tsq_step i s t"
proof (cases "pcs s i")
  case Push_notify
  then show ?thesis
    by (cases "\<exists>j. pcs s j = Sleeping") (blast intro: notify_sleeper notify_nobody)+
qed (use assms in \<open>auto intro: tsq_step.intros\<close>)

lemma queue_holder_moves:
  assumes "tsq_inv s" and "holds_queue (pcs s i)"
  shows "\<exists>j t. tsq_step j s t \<and> pcs s j \<noteq> Idle \<and> pcs s j \<noteq> Sleeping"
proof (cases "pcs s i")
  case Push_lock_blocking
  note inv = tsq_invD [OF assms(1)]
  show ?thesis
  proof (cases "muxBlocking s")
    case None
    with Push_lock_blocking show ?thesis by (fastforce intro: push_lock_blocking)
  next
    case (Some j)
    then have "holds_blocking (pcs s j)" using ownsD [OF inv(2)] by simp
    then show ?thesis using blocking_holder_moves [OF assms(1)] by fastforce
  qed
next
  case Push_notify
  then show ?thesis
    using blocking_holder_moves [OF assms(1), of i] by (fastforce)
next
  case Wait_test
  then show ?thesis
    by (cases "tsq_empty (tsq s)") (fastforce intro: wait_empty wait_done)+
next
  case Drain_test
  then show ?thesis
    by (cases "tsq_empty (tsq s)") (fastforce intro: drain_empty drain_more)+
next
  case Pop_take
  then show ?thesis
    by (cases "tsq_pop_front (tsq s)") (fastforce intro: pop_take pop_undefined)+
qed (use assms in \<open>fastforce intro: tsq_step.intros\<close>)+

text \<open>
  C14. The nested locking cannot deadlock: whenever some thread is inside an operation and not
  asleep on the condition variable, some such thread can take a step.
\<close>

theorem tsqueue_no_deadlock:
  assumes "tsq_reachable s" and "pcs s i \<noteq> Idle" and "pcs s i \<noteq> Sleeping"
  shows "\<exists>j t. tsq_step j s t \<and> pcs s j \<noteq> Idle \<and> pcs s j \<noteq> Sleeping"
proof -
  note invs = tsq_reachable_inv [OF assms(1)]
  note inv = tsq_invD [OF invs]
  have queue: ?thesis if "muxQueue s = Some j" for j
    using queue_holder_moves [OF invs, of j] ownsD [OF inv(1)] that by simp
  have blocking: ?thesis if "muxBlocking s = Some j" for j
    using blocking_holder_moves [OF invs, of j] ownsD [OF inv(2), of j] that by fastforce
  show ?thesis
  proof (cases "muxQueue s")
    case None
    show ?thesis
    proof (cases "muxBlocking s")
      case None
      with \<open>muxQueue s = None\<close> assms(2,3) show ?thesis
        using ownsD [OF inv(1), of i] ownsD [OF inv(2), of i]
        by (cases "pcs s i") (fastforce intro: tsq_step.intros)+
    qed (rule blocking)
  qed (rule queue)
qed

theorem tsqueue_no_deadlock_witness:
  "\<exists>t. tsq_reachable (goto 0 Wait_lock tsq_init :: nat tsq_sys)
      \<and> (\<exists>j. tsq_step j (goto 0 Wait_lock tsq_init :: nat tsq_sys) t)"
proof -
  have "tsq_reachable (goto 0 Wait_lock tsq_init :: nat tsq_sys)"
    by (rule tsq_next [OF tsq_start wait_call]) (simp add: tsq_init_def)
  with tsqueue_no_deadlock [of "goto 0 Wait_lock tsq_init :: nat tsq_sys" 0] show ?thesis
    by auto
qed

text \<open>
  \<open>wait\<close> can miss a notification: there is a run after which one item is queued, the
  consumer sleeps on the condition variable, both mutexes are free and every other thread has
  finished, so nothing but a spurious wakeup or another push will wake the consumer. (The test
  \<open>empty()\<close> and the sleep are not done under one mutex.)
\<close>

theorem tsqueue_lost_wakeup:
  "\<exists>s. tsq_reachable s \<and> pcs s = (\<lambda>_. Idle)(0 := Sleeping) \<and> deqQueue (tsq s) = [x]
     \<and> muxQueue s = None \<and> muxBlocking s = None"
  apply (rule exI, rule conjI)
   apply (rule tsq_next [OF _ wait_sleep [where i = 0]])
    apply (rule tsq_next [OF _ wait_lock_blocking [where i = 0]])
      apply (rule tsq_next [OF _ push_unlock [where i = 1]])
       apply (rule tsq_next [OF _ push_unlock_blocking [where i = 1]])
        apply (rule tsq_next [OF _ notify_nobody [where i = 1]])
          apply (rule tsq_next [OF _ push_lock_blocking [where i = 1]])
            apply (rule tsq_next [OF _ push_emplace [where i = 1 and x = x]])
             apply (rule tsq_next [OF _ push_lock [where i = 1 and x = x]])
               apply (rule tsq_next [OF _ push_call [where i = 1 and x = x]])
                apply (rule tsq_next [OF _ wait_empty [where i = 0]])
                  apply (rule tsq_next [OF _ wait_lock [where i = 0]])
                    apply (rule tsq_next [OF tsq_start wait_call])
                    apply (simp_all add: tsq_init_def fun_eq_iff)
  done

end
