(* ===== verification/Net_Connection.thy ===== *)
theory Net_Connection
  imports Net_Message Net_Tsqueue
begin

text \<open>
  \<open>net_connection.h\<close>: one end of a connection. Each operation of the class that starts
  asynchronous work is a definition that returns the new object and the effects in program
  order (reads and writes started on the socket, functions posted to the io_context, messages
  pushed to the owner's queue, lines printed); the lambda it passes to asio is a second
  definition \<open>on_...\<close>, applied to the error code and to the bytes that arrived. Shown
  here: the validation handshake and what the scrambling can and cannot tell apart. The framing
  of messages between two connections is in \<open>Net_Link\<close>.
\<close>

section \<open>The object\<close>

datatype owner = Owner_server | Owner_client

record connection =
  conn_self :: nat
  m_socket :: bool
  m_qMessagesOut :: "message tsqueue"
  m_msgTemporaryIn :: message
  m_nOwnerType :: owner
  conn_id :: u32
  m_nADVOut :: u64
  m_nADVIn :: u64
  m_nADVCheck :: u64

text \<open>
  \<open>conn_self\<close> is the identity that \<open>shared_from_this()\<close> gives, \<open>m_socket\<close> whether the
  socket is open. \<open>endpoint\<close> is an address (4 or 16 bytes) with a port.
\<close>

type_synonym endpoint = "byte list \<times> u16"

datatype read_op = Read_header | Read_body | Read_validation "nat option"

datatype write_op = Write_header | Write_body | Write_validation

datatype conn_log =
    Log_read_header_failed u32
  | Log_write_header_failed u32
  | Log_read_body_failed u32
  | Log_write_body_failed u32
  | Log_client_validated
  | Log_validation_failed
  | Log_validation_read_failed

datatype conn_effect =
    Start_read read_op nat
  | Start_write write_op "byte list"
  | Start_connect "endpoint list"
  | Post_send message
  | Post_close
  | Push_in owned_message
  | Client_validated nat nat
  | Printf conn_log
  | Undefined

definition close_socket :: "connection \<Rightarrow> connection" where
  "close_socket c = c\<lparr>m_socket := False\<rparr>"

section \<open>Scrambling and construction\<close>

definition swap_nibbles :: "u64 \<Rightarrow> u64" where
  "swap_nibbles w =
     drop_bit 4 (w AND 0xF0F0F0F0F0F0F0) OR push_bit 4 (w AND 0x0F0F0F0F0F0F0F)"

definition scramble :: "u64 \<Rightarrow> u64" where
  "scramble nInput = swap_nibbles (nInput XOR 0xDEADBEEFC0DECAFE) XOR 0xC0DEFACE12345678"

text \<open>
  The constructor: \<open>now\<close> is the tick count of the system clock, \<open>rnd\<close> what \<open>rand()\<close>
  returns (both come from outside), \<open>open\<close> whether the socket handed over is open.
\<close>

definition new_connection :: "nat \<Rightarrow> owner \<Rightarrow> bool \<Rightarrow> u64 \<Rightarrow> u64 \<Rightarrow> connection" where
  "new_connection this parent open now rnd =
     (let c = \<lparr>conn_self = this, m_socket = open, m_qMessagesOut = tsq_new,
               m_msgTemporaryIn = empty_message, m_nOwnerType = parent, conn_id = 0,
               m_nADVOut = 0, m_nADVIn = 0, m_nADVCheck = 0\<rparr>
      in if parent = Owner_server then
           (let c1 = c\<lparr>m_nADVOut := (now + rnd mod 8) mod 8\<rparr>
            in c1\<lparr>m_nADVCheck := scramble (m_nADVOut c1)\<rparr>)
         else c\<lparr>m_nADVIn := 0, m_nADVOut := 0\<rparr>)"

definition GetID :: "connection \<Rightarrow> u32" where
  "GetID c = conn_id c"

definition IsConnected :: "connection \<Rightarrow> bool" where
  "IsConnected c = m_socket c"

section \<open>Reading messages\<close>

definition ReadHeader :: "connection \<Rightarrow> connection \<times> conn_effect list" where
  "ReadHeader c = (c, [Start_read Read_header header_sizeof])"

definition ReadBody :: "connection \<Rightarrow> connection \<times> conn_effect list" where
  "ReadBody c = (c, [Start_read Read_body (length (body (m_msgTemporaryIn c)))])"

definition AddToIncomingMessageQueue :: "connection \<Rightarrow> connection \<times> conn_effect list" where
  "AddToIncomingMessageQueue c =
     (let om = (if m_nOwnerType c = Owner_server
                then \<lparr>remote = Some (conn_self c), msg = m_msgTemporaryIn c\<rparr>
                else \<lparr>remote = None, msg = m_msgTemporaryIn c\<rparr>)
      in andthen (c, [Push_in om]) ReadHeader)"

definition store_header :: "byte list \<Rightarrow> connection \<Rightarrow> connection" where
  "store_header bs c =
     (let m = m_msgTemporaryIn c
      in c\<lparr>m_msgTemporaryIn := m\<lparr>header := bytes_header (overwrite bs (header_bytes (header m)))\<rparr>\<rparr>)"

definition store_body :: "byte list \<Rightarrow> connection \<Rightarrow> connection" where
  "store_body bs c =
     (let m = m_msgTemporaryIn c
      in c\<lparr>m_msgTemporaryIn := m\<lparr>body := overwrite bs (body m)\<rparr>\<rparr>)"

text \<open>The bytes that arrived are in the buffer before the handler runs, on errors too.\<close>

definition on_ReadHeader ::
  "connection \<Rightarrow> error_code \<Rightarrow> byte list \<Rightarrow> connection \<times> conn_effect list" where
  "on_ReadHeader c0 ec bytes =
     (let c = store_header bytes c0; m = m_msgTemporaryIn c
      in if \<not> failed ec then
           if header_size (header m) > 0 then
             ReadBody (c\<lparr>m_msgTemporaryIn :=
               m\<lparr>body := vec_resize (unat (header_size (header m))) (body m)\<rparr>\<rparr>)
           else AddToIncomingMessageQueue c
         else (close_socket c, [Printf (Log_read_header_failed (conn_id c))]))"

definition on_ReadBody ::
  "connection \<Rightarrow> error_code \<Rightarrow> byte list \<Rightarrow> connection \<times> conn_effect list" where
  "on_ReadBody c0 ec bytes =
     (let c = store_body bytes c0
      in if \<not> failed ec then AddToIncomingMessageQueue c
         else (close_socket c, [Printf (Log_read_body_failed (conn_id c))]))"

section \<open>Writing messages\<close>

text \<open>
  \<open>m_qMessagesOut.front()\<close> of an empty queue is undefined; \<open>Net_Link\<close> shows that the
  code never gets there.
\<close>

definition WriteHeader :: "connection \<Rightarrow> connection \<times> conn_effect list" where
  "WriteHeader c =
     (case tsq_front (m_qMessagesOut c) of
        None \<Rightarrow> (c, [Undefined])
      | Some m \<Rightarrow> (c, [Start_write Write_header (header_bytes (header m))]))"

definition WriteBody :: "connection \<Rightarrow> connection \<times> conn_effect list" where
  "WriteBody c =
     (case tsq_front (m_qMessagesOut c) of
        None \<Rightarrow> (c, [Undefined])
      | Some m \<Rightarrow> (c, [Start_write Write_body (body m)]))"

text \<open>After a message is out: \<open>pop_front\<close>, and the next header if more are queued.\<close>

definition next_message :: "connection \<Rightarrow> connection \<times> conn_effect list" where
  "next_message c =
     (case tsq_pop_front (m_qMessagesOut c) of
        None \<Rightarrow> (c, [Undefined])
      | Some (_, q) \<Rightarrow>
          (let c1 = c\<lparr>m_qMessagesOut := q\<rparr>
           in if \<not> tsq_empty q then WriteHeader c1 else (c1, [])))"

definition on_WriteHeader :: "connection \<Rightarrow> error_code \<Rightarrow> connection \<times> conn_effect list" where
  "on_WriteHeader c ec =
     (if \<not> failed ec then
        (case tsq_front (m_qMessagesOut c) of
           None \<Rightarrow> (c, [Undefined])
         | Some m \<Rightarrow> if length (body m) > 0 then WriteBody c else next_message c)
      else (close_socket c, [Printf (Log_write_header_failed (conn_id c))]))"

definition on_WriteBody :: "connection \<Rightarrow> error_code \<Rightarrow> connection \<times> conn_effect list" where
  "on_WriteBody c ec =
     (if \<not> failed ec then next_message c
      else (close_socket c, [Printf (Log_write_body_failed (conn_id c))]))"

definition Send :: "connection \<Rightarrow> message \<Rightarrow> connection \<times> conn_effect list" where
  "Send c m = (c, [Post_send m])"

definition on_Send :: "connection \<Rightarrow> message \<Rightarrow> connection \<times> conn_effect list" where
  "on_Send c m =
     (let bWritingMessage = \<not> tsq_empty (m_qMessagesOut c);
          c1 = c\<lparr>m_qMessagesOut := tsq_push_back (m_qMessagesOut c) m\<rparr>
      in if \<not> bWritingMessage then WriteHeader c1 else (c1, []))"

section \<open>Validation, connecting and closing\<close>

definition WriteValidation :: "connection \<Rightarrow> connection \<times> conn_effect list" where
  "WriteValidation c = (c, [Start_write Write_validation (u64_bytes (m_nADVOut c))])"

definition on_WriteValidation :: "connection \<Rightarrow> error_code \<Rightarrow> connection \<times> conn_effect list" where
  "on_WriteValidation c ec =
     (if \<not> failed ec then
        if m_nOwnerType c = Owner_client then ReadHeader c else (c, [])
      else (close_socket c, []))"

definition ReadValidation :: "nat option \<Rightarrow> connection \<Rightarrow> connection \<times> conn_effect list" where
  "ReadValidation server c = (c, [Start_read (Read_validation server) 8])"

definition on_ReadValidation ::
  "nat option \<Rightarrow> connection \<Rightarrow> error_code \<Rightarrow> byte list \<Rightarrow> connection \<times> conn_effect list" where
  "on_ReadValidation server c0 ec bytes =
     (let c = c0\<lparr>m_nADVIn := bytes_u64 (overwrite bytes (u64_bytes (m_nADVIn c0)))\<rparr>
      in if \<not> failed ec then
           if m_nOwnerType c = Owner_server then
             if m_nADVIn c = m_nADVCheck c then
               andthen (c, [Printf Log_client_validated,
                            (case server of None \<Rightarrow> Undefined
                             | Some s \<Rightarrow> Client_validated s (conn_self c))]) ReadHeader
             else (close_socket c, [Printf Log_validation_failed])
           else WriteValidation (c\<lparr>m_nADVOut := scramble (m_nADVIn c)\<rparr>)
         else (close_socket c, [Printf Log_validation_read_failed]))"

definition ConnectToClient ::
  "nat option \<Rightarrow> u32 \<Rightarrow> connection \<Rightarrow> connection \<times> conn_effect list" where
  "ConnectToClient server uid c =
     (if m_nOwnerType c = Owner_server then
        if m_socket c then
          andthen (WriteValidation (c\<lparr>conn_id := uid\<rparr>)) (ReadValidation server)
        else (c, [])
      else (c, []))"

text \<open>
  \<open>asio::async_connect\<close> closes the socket and opens it anew for the first endpoint before
  it returns: \<open>opened\<close> says whether the socket is open afterwards (not so when there is no
  endpoint, or no descriptor left). When the last endpoint fails it stays open.
\<close>

definition ConnectToServer ::
  "bool \<Rightarrow> endpoint list \<Rightarrow> connection \<Rightarrow> connection \<times> conn_effect list" where
  "ConnectToServer opened endpoints c =
     (if m_nOwnerType c = Owner_client then (c\<lparr>m_socket := opened\<rparr>, [Start_connect endpoints])
      else (c, []))"

definition on_ConnectToServer :: "connection \<Rightarrow> error_code \<Rightarrow> connection \<times> conn_effect list" where
  "on_ConnectToServer c ec = (if \<not> failed ec then ReadValidation None c else (c, []))"

definition Disconnect :: "connection \<Rightarrow> connection \<times> conn_effect list" where
  "Disconnect c = (if IsConnected c then (c, [Post_close]) else (c, []))"

definition on_Disconnect :: "connection \<Rightarrow> connection" where
  "on_Disconnect c = close_socket c"

text \<open>The handler an outstanding operation completes with.\<close>

fun on_read :: "read_op \<Rightarrow> connection \<Rightarrow> error_code \<Rightarrow> byte list \<Rightarrow> connection \<times> conn_effect list" where
  "on_read Read_header c ec bytes = on_ReadHeader c ec bytes"
| "on_read Read_body c ec bytes = on_ReadBody c ec bytes"
| "on_read (Read_validation server) c ec bytes = on_ReadValidation server c ec bytes"

fun on_write :: "write_op \<Rightarrow> connection \<Rightarrow> error_code \<Rightarrow> connection \<times> conn_effect list" where
  "on_write Write_header c ec = on_WriteHeader c ec"
| "on_write Write_body c ec = on_WriteBody c ec"
| "on_write Write_validation c ec = on_WriteValidation c ec"

declare ReadHeader_def [handler_defs] ReadBody_def [handler_defs]
  AddToIncomingMessageQueue_def [handler_defs] on_ReadHeader_def [handler_defs]
  on_ReadBody_def [handler_defs] WriteHeader_def [handler_defs] WriteBody_def [handler_defs]
  next_message_def [handler_defs] on_WriteHeader_def [handler_defs]
  on_WriteBody_def [handler_defs] on_Send_def [handler_defs] Let_def [handler_defs]

section \<open>What scrambling keeps\<close>

lemma bit_high_nibbles:
  "bit (0xF0F0F0F0F0F0F0 :: u64) n \<longleftrightarrow> n < 56 \<and> 4 \<le> n mod 8"
proof (cases "n < 64")
  case True
  have "list_all (\<lambda>n. bit (0xF0F0F0F0F0F0F0 :: u64) n = (n < 56 \<and> 4 \<le> n mod 8)) [0..<64]"
    by code_simp
  with True show ?thesis by (simp only: list_all_iff set_upt) auto
next
  case False
  then show ?thesis by (auto dest: bit_imp_le_length)
qed

lemma bit_low_nibbles:
  "bit (0x0F0F0F0F0F0F0F :: u64) n \<longleftrightarrow> n < 56 \<and> n mod 8 < 4"
proof (cases "n < 64")
  case True
  have "list_all (\<lambda>n. bit (0x0F0F0F0F0F0F0F :: u64) n = (n < 56 \<and> n mod 8 < 4)) [0..<64]"
    by code_simp
  with True show ?thesis by (simp only: list_all_iff set_upt) auto
next
  case False
  then show ?thesis by (auto dest: bit_imp_le_length)
qed

lemma mod8_high: "4 \<le> (k + 4) mod 8 \<longleftrightarrow> k mod 8 < 4" for k :: nat
  by presburger

lemma mod8_below: "n mod 8 < 4 \<Longrightarrow> n + 4 < 56 \<longleftrightarrow> n < 56" for n :: nat
  by presburger

lemma bit_swap_nibbles:
  "bit (swap_nibbles w) n \<longleftrightarrow>
     n < 56 \<and> (if n mod 8 < 4 then bit w (n + 4) else bit w (n - 4))"
proof -
  have split: "bit (swap_nibbles w) n \<longleftrightarrow>
      bit (w AND 0xF0F0F0F0F0F0F0) (4 + n)
    \<or> 4 \<le> n \<and> n < 64 \<and> bit (w AND 0x0F0F0F0F0F0F0F) (n - 4)"
    by (simp only: swap_nibbles_def bit_or_iff bit_drop_bit_eq o_def bit_push_bit_iff possible_bit_word)
      simp
  show ?thesis
  proof (cases "n mod 8 < 4")
    case True
    have "(n - 4) mod 8 \<ge> 4" if "4 \<le> n"
      using True that mod8_high [of "n - 4"] by (cases "(n - 4) mod 8 < 4") auto
    with True show ?thesis
      unfolding split bit_and_iff bit_high_nibbles bit_low_nibbles
      using mod8_high [of n] mod8_below [of n] by (auto simp: add.commute)
  next
    case False
    then have n: "4 \<le> n" by (metis mod_less_eq_dividend not_less order_trans)
    then have "(n - 4) mod 8 < 4" using False mod8_high [of "n - 4"] by simp
    with False n show ?thesis
      unfolding split bit_and_iff bit_high_nibbles bit_low_nibbles
      using mod8_high [of n] mod8_below [of "n - 4"] by (auto simp: add.commute)
  qed
qed

lemma swap_swap_nibbles: "swap_nibbles (swap_nibbles w) = take_bit 56 w"
proof (rule bit_word_eqI)
  fix n
  assume "n < LENGTH(64)"
  show "bit (swap_nibbles (swap_nibbles w)) n \<longleftrightarrow> bit (take_bit 56 w) n"
  proof (cases "n mod 8 < 4")
    case True
    then have "4 \<le> (n + 4) mod 8" and "n < 56 \<Longrightarrow> n + 4 < 56" by presburger+
    with True show ?thesis by (auto simp: bit_swap_nibbles bit_take_bit_iff)
  next
    case False
    then have "4 \<le> n" by presburger
    then obtain k where k: "n = k + 4" by (metis add.commute le_Suc_ex)
    with False have "n < 56 \<Longrightarrow> k mod 8 < 4" by presburger
    with False k show ?thesis by (auto simp: bit_swap_nibbles bit_take_bit_iff)
  qed
qed

lemma swap_nibbles_eq_iff: "swap_nibbles a = swap_nibbles b \<longleftrightarrow> take_bit 56 a = take_bit 56 b"
proof
  assume "swap_nibbles a = swap_nibbles b"
  then have "swap_nibbles (swap_nibbles a) = swap_nibbles (swap_nibbles b)" by simp
  then show "take_bit 56 a = take_bit 56 b" by (simp only: swap_swap_nibbles)
next
  assume eq: "take_bit 56 a = take_bit 56 b"
  have low: "bit a k \<longleftrightarrow> bit b k" if "k < 56" for k
    using arg_cong [OF eq, of "\<lambda>w. bit w k"] that by (simp add: bit_take_bit_iff)
  show "swap_nibbles a = swap_nibbles b"
  proof (rule bit_word_eqI)
    fix n :: nat
    have "n < 56 \<and> n mod 8 < 4 \<Longrightarrow> n + 4 < 56" by presburger
    then show "bit (swap_nibbles a) n \<longleftrightarrow> bit (swap_nibbles b) n"
      by (auto simp: bit_swap_nibbles low)
  qed
qed

text \<open>
  Two challenges have the same scrambled answer exactly when they agree on the low 56
  bits: the masks of the code drop the top byte, so scrambling is injective on 56-bit values
  and blind to the rest.
\<close>

theorem scramble_eq_iff: "scramble a = scramble b \<longleftrightarrow> take_bit 56 a = take_bit 56 b"
proof -
  have cancel: "x XOR c = y XOR c \<longleftrightarrow> x = y" for x y c :: u64
  proof
    assume "x XOR c = y XOR c"
    then have "(x XOR c) XOR c = (y XOR c) XOR c" by simp
    then show "x = y" by (simp add: xor.assoc)
  qed simp
  have "take_bit 56 (a XOR 0xDEADBEEFC0DECAFE) = take_bit 56 (b XOR 0xDEADBEEFC0DECAFE)
      \<longleftrightarrow> take_bit 56 a = take_bit 56 b"
    by (simp only: take_bit_xor cancel)
  then show ?thesis
    by (simp only: scramble_def cancel swap_nibbles_eq_iff)
qed

section \<open>The handshake\<close>

text \<open>
  The constructor's "random" challenge takes one of eight values whatever the clock and
  \<open>rand()\<close> give (the sum is reduced modulo \<open>sizeof(uint64_t)\<close>), so there are only eight
  answers that any server connection ever accepts.
\<close>

theorem challenge_range:
  "let c = new_connection this Owner_server open now rnd
   in \<exists>k. k < (8 :: nat) \<and> m_nADVOut c = of_nat k \<and> m_nADVCheck c = scramble (of_nat k)"
proof -
  let ?w = "(now + rnd mod 8) mod 8"
  have "?w = of_nat (unat ?w)"
    by (simp only: of_nat_unat ucast_id)
  moreover have "unat ?w < 8"
    by (simp add: unat_mod)
  ultimately have "\<exists>k. k < 8 \<and> ?w = of_nat k"
    by blast
  then show ?thesis
    by (auto simp: new_connection_def Let_def)
qed

text \<open>
  C6. A server connection built on an open socket sends its challenge and waits for 8 bytes;
  of all 8-byte answers it accepts exactly the scrambled challenge (it reports the client
  validated and starts to read messages), and on any other it closes the socket.
\<close>

theorem server_accepts_exactly:
  assumes "length reply = 8"
  shows "let (s, es) = ConnectToClient (Some srv) uid
                         (new_connection this Owner_server True now rnd);
             (s', es') = on_ReadValidation (Some srv) s Success reply
         in es = [Start_write Write_validation (u64_bytes (m_nADVOut s)),
                  Start_read (Read_validation (Some srv)) 8]
          \<and> conn_id s' = uid
          \<and> (if reply = u64_bytes (scramble (m_nADVOut s))
             then es' = [Printf Log_client_validated, Client_validated srv this,
                         Start_read Read_header header_sizeof] \<and> m_socket s'
             else es' = [Printf Log_validation_failed] \<and> \<not> m_socket s')"
proof -
  have "overwrite reply (u64_bytes w) = reply" for w
    using assms by (simp add: overwrite_full)
  moreover have "bytes_u64 reply = w \<longleftrightarrow> reply = u64_bytes w" for w
    using assms by (metis bytes_u64_u64_bytes u64_bytes_bytes_u64)
  ultimately show ?thesis
    by (simp add: ConnectToClient_def new_connection_def WriteValidation_def ReadValidation_def
        on_ReadValidation_def ReadHeader_def close_socket_def Let_def)
qed

theorem server_accepts_exactly_witness:
  "length (replicate 8 0 :: byte list) = 8 \<and>
   snd (on_ReadValidation (Some 1)
     (fst (ConnectToClient (Some 1) 10000 (new_connection 5 Owner_server True 7 12))) Success
     (replicate 8 0)) = [Printf Log_validation_failed]"
proof -
  let ?s = "fst (ConnectToClient (Some 1) 10000 (new_connection 5 Owner_server True 7 12))"
  have out: "m_nADVOut ?s = 3"
    by (simp add: ConnectToClient_def new_connection_def WriteValidation_def ReadValidation_def Let_def)
  have "scramble 3 \<noteq> 0"
    by (simp add: scramble_def swap_nibbles_def)
  then have "u64_bytes (scramble 3) \<noteq> u64_bytes 0"
    by (simp only: u64_pod.to_bytes_inject not_False_eq_True)
  then have "replicate 8 0 \<noteq> u64_bytes (scramble 3)"
    by (auto simp: u64_bytes_def le_bytes_zero)
  with server_accepts_exactly [of "replicate 8 0" 1 10000 5 7 12] out show ?thesis
    by (auto simp: Let_def split: prod.splits)
qed

text \<open>
  The two sides agree: a client connection that reads the server's challenge answers with
  bytes that the server accepts, whatever the clock and \<open>rand()\<close> were; when the answer is
  written the client starts to read messages.
\<close>

theorem handshake_completes:
  "let (s, es) = ConnectToClient (Some srv) uid (new_connection this Owner_server True now rnd);
       (c, ec) = on_ReadValidation None (new_connection that Owner_client True now' rnd') Success
                   (u64_bytes (m_nADVOut s));
       (s', es') = on_ReadValidation (Some srv) s Success (u64_bytes (m_nADVOut c));
       (c', ec') = on_WriteValidation c Success
   in es = [Start_write Write_validation (u64_bytes (m_nADVOut s)),
            Start_read (Read_validation (Some srv)) 8]
    \<and> ec = [Start_write Write_validation (u64_bytes (m_nADVOut c))]
    \<and> Client_validated srv this \<in> set es' \<and> Start_read Read_header header_sizeof \<in> set es'
    \<and> ec' = [Start_read Read_header header_sizeof]
    \<and> m_socket s' \<and> m_socket c'"
  by (simp add: ConnectToClient_def new_connection_def WriteValidation_def ReadValidation_def
      on_ReadValidation_def on_WriteValidation_def ReadHeader_def close_socket_def Let_def
      overwrite_full)

end
