(* ===== verification/Net_Link.thy ===== *)
theory Net_Link
  imports Net_Connection
begin

text \<open>
  Two validated connections joined by a socket: the sending half of one and the receiving half
  of the other, with the operations of asio that are outstanding. A composed
  \<open>async_write\<close> hands its bytes to the wire one at a time and completes when none is left;
  a composed \<open>async_read\<close> collects bytes until it has as many as it asked for; either may
  fail at any time, with whatever part was transferred. Every interleaving of posted sends,
  transfers, completions and failures is a run. Shown here: the receiver's queue is what the
  sender was given, in order, up to the body that a message of size zero inherits.
\<close>

section \<open>State and effects\<close>

record link =
  tx :: connection
  tx_writes :: "(write_op \<times> byte list) list"
  wire :: "byte list"
  rx :: connection
  rx_read :: "(read_op \<times> nat \<times> byte list) option"
  sent :: "message list"
  delivered :: "owned_message list"
  undefined_access :: bool

fun tx_effect :: "conn_effect \<Rightarrow> link \<Rightarrow> link" where
  "tx_effect (Start_write op bs) l = l\<lparr>tx_writes := tx_writes l @ [(op, bs)]\<rparr>"
| "tx_effect Undefined l = l\<lparr>undefined_access := True\<rparr>"
| "tx_effect _ l = l"

fun rx_effect :: "conn_effect \<Rightarrow> link \<Rightarrow> link" where
  "rx_effect (Start_read op n) l = l\<lparr>rx_read := Some (op, n, [])\<rparr>"
| "rx_effect (Push_in om) l = l\<lparr>delivered := delivered l @ [om]\<rparr>"
| "rx_effect Undefined l = l\<lparr>undefined_access := True\<rparr>"
| "rx_effect _ l = l"

text \<open>The object a handler leaves, then its effects in order.\<close>

definition run_tx :: "connection \<times> conn_effect list \<Rightarrow> link \<Rightarrow> link" where
  "run_tx r l = fold tx_effect (snd r) (l\<lparr>tx := fst r\<rparr>)"

definition run_rx :: "connection \<times> conn_effect list \<Rightarrow> link \<Rightarrow> link" where
  "run_rx r l = fold rx_effect (snd r) (l\<lparr>rx := fst r\<rparr>)"

section \<open>Steps\<close>

inductive link_step :: "link \<Rightarrow> link \<Rightarrow> bool" where
  link_send: "link_step l (run_tx (on_Send (tx l) m) (l\<lparr>sent := sent l @ [m]\<rparr>))"
| link_write_byte: "tx_writes l = (op, b # bs) # ws \<Longrightarrow>
    link_step l (l\<lparr>tx_writes := (op, bs) # ws, wire := wire l @ [b]\<rparr>)"
| link_write_done: "tx_writes l = (op, []) # ws \<Longrightarrow>
    link_step l (run_tx (on_write op (tx l) Success) (l\<lparr>tx_writes := ws\<rparr>))"
| link_write_failed: "tx_writes l = (op, bs) # ws \<Longrightarrow> failed ec \<Longrightarrow>
    link_step l (run_tx (on_write op (tx l) ec) (l\<lparr>tx_writes := ws\<rparr>))"
| link_read_byte: "rx_read l = Some (op, n, got) \<Longrightarrow> length got < n \<Longrightarrow> wire l = b # w \<Longrightarrow>
    link_step l (l\<lparr>rx_read := Some (op, n, got @ [b]), wire := w\<rparr>)"
| link_read_done: "rx_read l = Some (op, n, got) \<Longrightarrow> length got = n \<Longrightarrow>
    link_step l (run_rx (on_read op (rx l) Success got) (l\<lparr>rx_read := None\<rparr>))"
| link_read_failed: "rx_read l = Some (op, n, got) \<Longrightarrow> failed ec \<Longrightarrow>
    link_step l (run_rx (on_read op (rx l) ec got) (l\<lparr>rx_read := None\<rparr>))"

text \<open>After the handshake the sender has nothing queued and the receiver waits for a header.\<close>

definition link_init :: "connection \<Rightarrow> connection \<Rightarrow> link" where
  "link_init a b = run_rx (ReadHeader b)
     \<lparr>tx = a, tx_writes = [], wire = [], rx = b, rx_read = None, sent = [], delivered = [],
      undefined_access = False\<rparr>"

definition link_ready :: "connection \<Rightarrow> connection \<Rightarrow> bool" where
  "link_ready a b \<longleftrightarrow> m_socket a \<and> m_socket b \<and> tsq_empty (m_qMessagesOut a)
     \<and> body (m_msgTemporaryIn b) = []"

inductive link_reachable :: "connection \<Rightarrow> connection \<Rightarrow> link \<Rightarrow> bool" for a b where
  link_start: "link_reachable a b (link_init a b)"
| link_next: "link_reachable a b l \<Longrightarrow> link_step l l' \<Longrightarrow> link_reachable a b l'"

section \<open>What should arrive\<close>

definition encode :: "message \<Rightarrow> byte list" where
  "encode m = header_bytes (header m) @ body m"

definition stream_of :: "message list \<Rightarrow> byte list" where
  "stream_of ms = concat (map encode ms)"

text \<open>
  \<open>m_msgTemporaryIn\<close> is one object reused for all messages, and a header of size zero does
  not touch its body: such a message is delivered with the body of the one before.
\<close>

fun stale :: "byte list \<Rightarrow> message list \<Rightarrow> message list" where
  "stale b [] = []"
| "stale b (m # ms) =
     (let b' = (if body m = [] then b else body m) in m\<lparr>body := b'\<rparr> # stale b' ms)"

fun last_body :: "byte list \<Rightarrow> message list \<Rightarrow> byte list" where
  "last_body b [] = b"
| "last_body b (m # ms) = last_body (if body m = [] then b else body m) ms"

definition deliverable :: "message \<Rightarrow> bool" where
  "deliverable m \<longleftrightarrow> wf_message m \<and> length (body m) < 2 ^ 32"

lemma stream_of_simps [simp]:
  "stream_of [] = []" "stream_of (m # ms) = encode m @ stream_of ms"
  "stream_of (ms @ ns) = stream_of ms @ stream_of ns"
  by (simp_all add: stream_of_def)

lemma stale_snoc:
  "stale b (ms @ [m]) =
     stale b ms @ [m\<lparr>body := if body m = [] then last_body b ms else body m\<rparr>]"
  by (induction ms arbitrary: b) (auto simp: Let_def)

lemma last_body_snoc:
  "last_body b (ms @ [m]) = (if body m = [] then last_body b ms else body m)"
  by (induction ms arbitrary: b) auto

lemma length_stale [simp]: "length (stale b ms) = length ms"
  by (induction ms arbitrary: b) (auto simp: Let_def)

lemma stale_id: "(\<forall>m \<in> set ms. body m \<noteq> []) \<Longrightarrow> stale b ms = ms"
  by (induction ms arbitrary: b) auto

lemma stale_all_empty: "(\<forall>m \<in> set ms. body m = []) \<Longrightarrow> stale [] ms = ms"
  by (induction ms) auto

lemma deliverable_size:
  assumes "deliverable m"
  shows "unat (header_size (header m)) = length (body m)"
    and "header_size (header m) > 0 \<longleftrightarrow> body m \<noteq> []"
proof -
  show *: "unat (header_size (header m)) = length (body m)"
    using assms by (simp add: deliverable_def wf_message_def unat_of_nat)
  show "header_size (header m) > 0 \<longleftrightarrow> body m \<noteq> []"
    unfolding word_less_nat_alt using * by simp
qed

section \<open>The invariant\<close>

text \<open>
  The sender after writing \<open>w\<close> in all: nothing outstanding, the header or the body of the
  front message outstanding, or the socket closed by a failure with messages still queued.
\<close>

definition tx_state :: "link \<Rightarrow> byte list \<Rightarrow> bool" where
  "tx_state l w \<longleftrightarrow>
     (tx_writes l = [] \<and> deqQueue (m_qMessagesOut (tx l)) = [] \<and> w = stream_of (sent l))
   \<or> (\<exists>bs m ms. tx_writes l = [(Write_header, bs)] \<and> deqQueue (m_qMessagesOut (tx l)) = m # ms
        \<and> w @ bs @ body m @ stream_of ms = stream_of (sent l))
   \<or> (\<exists>bs m ms. tx_writes l = [(Write_body, bs)] \<and> deqQueue (m_qMessagesOut (tx l)) = m # ms
        \<and> w @ bs @ stream_of ms = stream_of (sent l))
   \<or> (tx_writes l = [] \<and> deqQueue (m_qMessagesOut (tx l)) \<noteq> [] \<and> \<not> m_socket (tx l)
        \<and> (\<exists>rest. w @ rest = stream_of (sent l)))"

definition got_of :: "link \<Rightarrow> byte list" where
  "got_of l = (case rx_read l of None \<Rightarrow> [] | Some (_, _, got) \<Rightarrow> got)"

definition rx_state :: "link \<Rightarrow> byte list \<Rightarrow> nat \<Rightarrow> bool" where
  "rx_state l consumed k \<longleftrightarrow>
     (\<exists>got. rx_read l = Some (Read_header, header_sizeof, got) \<and> length got \<le> header_sizeof
        \<and> consumed = stream_of (take k (sent l))
        \<and> body (m_msgTemporaryIn (rx l)) = last_body [] (take k (sent l)))
   \<or> (\<exists>got m. rx_read l = Some (Read_body, length (body m), got) \<and> length got \<le> length (body m)
        \<and> k < length (sent l) \<and> m = sent l ! k \<and> body m \<noteq> []
        \<and> consumed = stream_of (take k (sent l)) @ header_bytes (header m)
        \<and> header (m_msgTemporaryIn (rx l)) = header m
        \<and> length (body (m_msgTemporaryIn (rx l))) = length (body m))
   \<or> (rx_read l = None \<and> \<not> m_socket (rx l))"

definition link_inv :: "link \<Rightarrow> bool" where
  "link_inv l \<longleftrightarrow> \<not> undefined_access l
     \<and> (\<exists>consumed k. tx_state l (consumed @ got_of l @ wire l) \<and> rx_state l consumed k
          \<and> k \<le> length (sent l) \<and> map msg (delivered l) = stale [] (take k (sent l)))"

lemma link_invI:
  assumes "\<not> undefined_access l" and "tx_state l (consumed @ got_of l @ wire l)"
    and "rx_state l consumed k" and "k \<le> length (sent l)"
    and "map msg (delivered l) = stale [] (take k (sent l))"
  shows "link_inv l"
  using assms by (auto simp: link_inv_def)

lemma tx_state_prefix: "tx_state l w \<Longrightarrow> \<exists>rest. w @ rest = stream_of (sent l)"
  by (auto simp: tx_state_def)

text \<open>Where the received bytes stand in the stream, by their number.\<close>

lemma stream_at_header:
  assumes "stream_of (take k ms) @ got @ rest = stream_of ms" and "length got = header_sizeof"
    and "k \<le> length ms"
  shows "k < length ms" and "got = header_bytes (header (ms ! k))"
proof -
  show k: "k < length ms"
    using assms by (cases "k = length ms") (auto simp: header_sizeof_def)
  have "ms = take k ms @ ms ! k # drop (Suc k) ms"
    using k by (simp add: id_take_nth_drop)
  then have "stream_of ms = stream_of (take k ms) @ encode (ms ! k) @ stream_of (drop (Suc k) ms)"
    by (metis stream_of_simps(2,3))
  with assms(1) have "got @ rest = header_bytes (header (ms ! k)) @ body (ms ! k) @ stream_of (drop (Suc k) ms)"
    by (simp add: encode_def)
  then show "got = header_bytes (header (ms ! k))"
    using assms(2) by (simp add: append_eq_append_conv)
qed

lemma stream_at_body:
  assumes "stream_of (take k ms) @ header_bytes (header (ms ! k)) @ got @ rest = stream_of ms"
    and "length got = length (body (ms ! k))" and "k < length ms"
  shows "got = body (ms ! k)"
proof -
  have "ms = take k ms @ ms ! k # drop (Suc k) ms"
    using assms(3) by (simp add: id_take_nth_drop)
  then have "stream_of ms = stream_of (take k ms) @ encode (ms ! k) @ stream_of (drop (Suc k) ms)"
    by (metis stream_of_simps(2,3))
  with assms(1) have "got @ rest = body (ms ! k) @ stream_of (drop (Suc k) ms)"
    by (simp add: encode_def)
  then show ?thesis
    using assms(2) by (simp add: append_eq_append_conv)
qed

lemma stream_take_all:
  assumes "k \<le> length ms" and "stream_of (take k ms) = stream_of ms"
  shows "take k ms = ms"
proof (rule ccontr)
  assume "take k ms \<noteq> ms"
  then have k: "k < length ms" using assms(1) by (cases "k = length ms") auto
  then have "stream_of ms = stream_of (take k ms @ ms ! k # drop (Suc k) ms)"
    by (simp only: id_take_nth_drop [symmetric])
  with assms(2) have "length (encode (ms ! k)) = 0" by simp
  then show False by (simp add: encode_def header_sizeof_def)
qed

section \<open>The sender's handlers\<close>

fun writes_started :: "conn_effect list \<Rightarrow> (write_op \<times> byte list) list" where
  "writes_started [] = []"
| "writes_started (Start_write op bs # es) = (op, bs) # writes_started es"
| "writes_started (_ # es) = writes_started es"

lemma fold_tx_effect:
  "tx (fold tx_effect es l) = tx l" "rx (fold tx_effect es l) = rx l"
  "rx_read (fold tx_effect es l) = rx_read l" "wire (fold tx_effect es l) = wire l"
  "sent (fold tx_effect es l) = sent l" "delivered (fold tx_effect es l) = delivered l"
  "tx_writes (fold tx_effect es l) = tx_writes l @ writes_started es"
  "undefined_access (fold tx_effect es l) \<longleftrightarrow> undefined_access l \<or> Undefined \<in> set es"
proof (induction es arbitrary: l)
  case (Cons e es)
  { case 1 show ?case by (cases e) (simp_all add: Cons.IH) }
  { case 2 show ?case by (cases e) (simp_all add: Cons.IH) }
  { case 3 show ?case by (cases e) (simp_all add: Cons.IH) }
  { case 4 show ?case by (cases e) (simp_all add: Cons.IH) }
  { case 5 show ?case by (cases e) (simp_all add: Cons.IH) }
  { case 6 show ?case by (cases e) (simp_all add: Cons.IH) }
  { case 7 show ?case by (cases e) (simp_all add: Cons.IH) }
  { case 8 show ?case by (cases e) (simp_all add: Cons.IH) }
qed simp_all

lemma run_tx_frame [simp]:
  "tx (run_tx r l) = fst r" "rx (run_tx r l) = rx l" "rx_read (run_tx r l) = rx_read l"
  "wire (run_tx r l) = wire l" "sent (run_tx r l) = sent l" "delivered (run_tx r l) = delivered l"
  "tx_writes (run_tx r l) = tx_writes l @ writes_started (snd r)"
  "undefined_access (run_tx r l) \<longleftrightarrow> undefined_access l \<or> Undefined \<in> set (snd r)"
  by (simp_all add: run_tx_def fold_tx_effect)

lemma front_Cons: "deqQueue q = m # ms \<Longrightarrow> tsq_front q = Some m"
  by (simp add: tsq_front_def)

lemma pop_Cons: "deqQueue q = m # ms \<Longrightarrow> tsq_pop_front q = Some (m, q\<lparr>deqQueue := ms\<rparr>)"
  by (simp add: tsq_pop_front_def)

text \<open>A posted \<open>Send\<close> starts a write exactly when nothing was queued.\<close>

lemma on_Send_idle:
  assumes "deqQueue (m_qMessagesOut c) = []"
  shows "snd (on_Send c m) = [Start_write Write_header (header_bytes (header m))]"
    and "deqQueue (m_qMessagesOut (fst (on_Send c m))) = [m]"
    and "m_socket (fst (on_Send c m)) = m_socket c"
  using assms by (simp_all add: on_Send_def WriteHeader_def Let_def tsq_front_def)

lemma on_Send_busy:
  assumes "deqQueue (m_qMessagesOut c) \<noteq> []"
  shows "snd (on_Send c m) = []"
    and "deqQueue (m_qMessagesOut (fst (on_Send c m))) = deqQueue (m_qMessagesOut c) @ [m]"
    and "m_socket (fst (on_Send c m)) = m_socket c"
  using assms by (simp_all add: on_Send_def Let_def)

lemma tx_state_send:
  assumes "tx_state l w"
  shows "tx_state (run_tx (on_Send (tx l) m) (l\<lparr>sent := sent l @ [m]\<rparr>)) w
    \<and> Undefined \<notin> set (snd (on_Send (tx l) m))"
proof (cases "deqQueue (m_qMessagesOut (tx l)) = []")
  case True
  note send = on_Send_idle [OF True, of m]
  from assms True have "tx_writes l = [] \<and> w = stream_of (sent l)"
    by (auto simp: tx_state_def)
  with send show ?thesis by (simp add: tx_state_def encode_def)
next
  case False
  note send = on_Send_busy [OF False, of m]
  have ext: "w @ xs @ stream_of (ms @ [m]) = stream_of (sent l) @ encode m"
    if "w @ xs @ stream_of ms = stream_of (sent l)" for xs ms
    using that by (metis append.assoc append_Nil2 stream_of_simps)
  from assms False consider
      (head) bs m' ms where "tx_writes l = [(Write_header, bs)]"
        "deqQueue (m_qMessagesOut (tx l)) = m' # ms" "w @ bs @ body m' @ stream_of ms = stream_of (sent l)"
    | (bdy) bs m' ms where "tx_writes l = [(Write_body, bs)]"
        "deqQueue (m_qMessagesOut (tx l)) = m' # ms" "w @ bs @ stream_of ms = stream_of (sent l)"
    | (failed) rest where "tx_writes l = []" "\<not> m_socket (tx l)" "w @ rest = stream_of (sent l)"
    by (auto simp: tx_state_def)
  then show ?thesis
  proof cases
    case head
    with send ext [of "bs @ body m'" ms] show ?thesis by (simp add: tx_state_def)
  next
    case bdy
    with send ext [of bs ms] show ?thesis by (simp add: tx_state_def)
  next
    case failed
    with send False ext [of rest "[]"] show ?thesis
      by (auto simp: tx_state_def intro!: exI [of _ "rest @ encode m"])
  qed
qed

lemma tx_state_byte:
  assumes "tx_state l w" and "tx_writes l = (op, b # bs) # ws"
  shows "tx_state (l\<lparr>tx_writes := (op, bs) # ws, wire := wire l @ [b]\<rparr>) (w @ [b])"
  using assms by (auto simp: tx_state_def)

text \<open>A completed write goes on to the body, the next message, or rest.\<close>

lemma next_message_Cons:
  assumes "deqQueue (m_qMessagesOut c) = m # ms"
  shows "writes_started (snd (next_message c)) =
           (case ms of [] \<Rightarrow> [] | m' # _ \<Rightarrow> [(Write_header, header_bytes (header m'))])"
    and "deqQueue (m_qMessagesOut (fst (next_message c))) = ms"
    and "Undefined \<notin> set (snd (next_message c))"
  using assms
  by (auto simp: next_message_def pop_Cons WriteHeader_def tsq_front_def Let_def split: list.splits)

lemma tx_state_next:
  assumes "deqQueue (m_qMessagesOut (tx l)) = m # ms" and "w @ stream_of ms = stream_of (sent l)"
  shows "tx_state (run_tx (next_message (tx l)) (l\<lparr>tx_writes := []\<rparr>)) w"
proof (cases ms)
  case Nil
  with assms next_message_Cons [OF assms(1)] show ?thesis by (simp add: tx_state_def)
next
  case (Cons m' ms')
  with assms next_message_Cons [OF assms(1)] show ?thesis by (simp add: tx_state_def encode_def)
qed

lemma tx_state_done:
  assumes "tx_state l w" and "tx_writes l = (op, []) # ws"
  shows "tx_state (run_tx (on_write op (tx l) Success) (l\<lparr>tx_writes := ws\<rparr>)) w
    \<and> Undefined \<notin> set (snd (on_write op (tx l) Success))"
proof -
  from assms consider
      (head) m ms where "op = Write_header" "ws = []"
        "deqQueue (m_qMessagesOut (tx l)) = m # ms" "w @ body m @ stream_of ms = stream_of (sent l)"
    | (bdy) m ms where "op = Write_body" "ws = []"
        "deqQueue (m_qMessagesOut (tx l)) = m # ms" "w @ stream_of ms = stream_of (sent l)"
    by (auto simp: tx_state_def)
  then show ?thesis
  proof cases
    case head
    then have front: "tsq_front (m_qMessagesOut (tx l)) = Some m" by (simp add: front_Cons)
    show ?thesis
    proof (cases "body m = []")
      case True
      with head front tx_state_next [of l m ms w] next_message_Cons [of "tx l" m ms] show ?thesis
        by (simp add: on_WriteHeader_def)
    next
      case False
      with head front show ?thesis
        by (simp add: on_WriteHeader_def WriteBody_def tx_state_def)
    qed
  next
    case bdy
    with tx_state_next [of l m ms w] next_message_Cons [of "tx l" m ms] show ?thesis
      by (simp add: on_WriteBody_def)
  qed
qed

lemma tx_state_failed:
  assumes "tx_state l w" and "tx_writes l = (op, bs) # ws" and "failed ec"
  shows "tx_state (run_tx (on_write op (tx l) ec) (l\<lparr>tx_writes := ws\<rparr>)) w
    \<and> Undefined \<notin> set (snd (on_write op (tx l) ec))"
  using assms
  by (auto simp: tx_state_def on_WriteHeader_def on_WriteBody_def close_socket_def)

section \<open>The receiver's handlers\<close>

lemma run_rx_Cons [simp]: "run_rx (c, e # es) l = fold rx_effect es (rx_effect e (l\<lparr>rx := c\<rparr>))"
  by (simp add: run_rx_def)

lemma run_rx_Nil [simp]: "run_rx (c, []) l = l\<lparr>rx := c\<rparr>"
  by (simp add: run_rx_def)

lemma take_snoc: "k < length ms \<Longrightarrow> take (Suc k) ms = take k ms @ [ms ! k]"
  by (rule take_Suc_conv_app_nth)

text \<open>A header of size zero: the message is delivered with the body that is there.\<close>

lemma rx_header_empty:
  assumes "length got = header_sizeof" and "bytes_header got = header m" and "deliverable m"
    and "body m = []"
  shows "\<exists>om c. on_ReadHeader c0 Success got = (c, [Push_in om, Start_read Read_header header_sizeof])
     \<and> msg om = m\<lparr>body := body (m_msgTemporaryIn c0)\<rparr>
     \<and> body (m_msgTemporaryIn c) = body (m_msgTemporaryIn c0) \<and> m_socket c = m_socket c0"
proof -
  have "\<not> header_size (header m) > 0"
    using deliverable_size(2) [OF assms(3)] assms(4) by simp
  with assms(1,2) show ?thesis
    by (auto simp: on_ReadHeader_def store_header_def AddToIncomingMessageQueue_def ReadHeader_def
        Let_def overwrite_full intro: message_eqI)
qed

lemma rx_header_body:
  assumes "length got = header_sizeof" and "bytes_header got = header m" and "deliverable m"
    and "body m \<noteq> []"
  shows "\<exists>c. on_ReadHeader c0 Success got = (c, [Start_read Read_body (length (body m))])
     \<and> header (m_msgTemporaryIn c) = header m
     \<and> length (body (m_msgTemporaryIn c)) = length (body m) \<and> m_socket c = m_socket c0"
  using deliverable_size [OF assms(3)] assms(1,2,4)
  by (simp add: on_ReadHeader_def store_header_def ReadBody_def Let_def overwrite_full)

lemma rx_body:
  assumes "length got = length (body m)" and "length (body (m_msgTemporaryIn c0)) = length (body m)"
    and "header (m_msgTemporaryIn c0) = header m" and "got = body m"
  shows "\<exists>om c. on_ReadBody c0 Success got = (c, [Push_in om, Start_read Read_header header_sizeof])
     \<and> msg om = m \<and> body (m_msgTemporaryIn c) = body m \<and> m_socket c = m_socket c0"
  using assms
  by (auto simp: on_ReadBody_def store_body_def AddToIncomingMessageQueue_def ReadHeader_def Let_def
      overwrite_full intro: message_eqI)

lemma tx_state_cong:
  assumes "tx_state l w" and "tx l' = tx l" and "tx_writes l' = tx_writes l" and "sent l' = sent l"
  shows "tx_state l' w"
  using assms by (simp add: tx_state_def)

lemma link_inv_read_header:
  assumes inv: "tx_state l (consumed @ got @ wire l)" "\<not> undefined_access l" "k \<le> length (sent l)"
      "map msg (delivered l) = stale [] (take k (sent l))"
    and rd: "rx_read l = Some (Read_header, header_sizeof, got)" and len: "length got = header_sizeof"
    and cons: "consumed = stream_of (take k (sent l))"
    and temp: "body (m_msgTemporaryIn (rx l)) = last_body [] (take k (sent l))"
    and ok: "\<forall>m \<in> set (sent l). deliverable m"
  shows "link_inv (run_rx (on_ReadHeader (rx l) Success got) (l\<lparr>rx_read := None\<rparr>))"
proof -
  let ?m = "sent l ! k"
  from tx_state_prefix [OF inv(1)] obtain rest
    where "stream_of (take k (sent l)) @ got @ wire l @ rest = stream_of (sent l)"
    by (auto simp: cons)
  from stream_at_header [OF this len inv(3)]
  have k: "k < length (sent l)" and got: "got = header_bytes (header ?m)" by auto
  then have m: "deliverable ?m" and hd: "bytes_header got = header ?m"
    using ok by auto
  show ?thesis
  proof (cases "body ?m = []")
    case True
    from rx_header_empty [OF len hd m True, of "rx l"] obtain om c where
        eq: "on_ReadHeader (rx l) Success got = (c, [Push_in om, Start_read Read_header header_sizeof])"
      and om: "msg om = ?m\<lparr>body := body (m_msgTemporaryIn (rx l))\<rparr>"
      and c: "body (m_msgTemporaryIn c) = body (m_msgTemporaryIn (rx l))" by blast
    have enc: "stream_of (take (Suc k) (sent l)) = consumed @ got"
      using True k got by (simp add: take_snoc cons encode_def)
    show ?thesis
      unfolding eq
    proof (rule link_invI [where consumed = "consumed @ got" and k = "Suc k"])
      show "tx_state (run_rx (c, [Push_in om, Start_read Read_header header_sizeof]) (l\<lparr>rx_read := None\<rparr>))
          ((consumed @ got) @ got_of (run_rx (c, [Push_in om, Start_read Read_header header_sizeof])
            (l\<lparr>rx_read := None\<rparr>)) @ wire (run_rx (c, [Push_in om, Start_read Read_header header_sizeof])
            (l\<lparr>rx_read := None\<rparr>)))"
        using inv(1) by (auto simp: got_of_def elim: tx_state_cong)
    qed (use inv k True om c temp enc in
        \<open>auto simp: rx_state_def take_snoc stale_snoc last_body_snoc\<close>)
  next
    case False
    from rx_header_body [OF len hd m False, of "rx l"] obtain c where
        eq: "on_ReadHeader (rx l) Success got = (c, [Start_read Read_body (length (body ?m))])"
      and c: "header (m_msgTemporaryIn c) = header ?m"
        "length (body (m_msgTemporaryIn c)) = length (body ?m)" by blast
    show ?thesis
      unfolding eq
    proof (rule link_invI [where consumed = "consumed @ got" and k = k])
      show "tx_state (run_rx (c, [Start_read Read_body (length (body ?m))]) (l\<lparr>rx_read := None\<rparr>))
          ((consumed @ got) @ got_of (run_rx (c, [Start_read Read_body (length (body ?m))])
            (l\<lparr>rx_read := None\<rparr>)) @ wire (run_rx (c, [Start_read Read_body (length (body ?m))])
            (l\<lparr>rx_read := None\<rparr>)))"
        using inv(1) by (auto simp: got_of_def elim: tx_state_cong)
    qed (use inv k False c got cons in \<open>auto simp: rx_state_def\<close>)
  qed
qed

lemma link_inv_read_body:
  assumes inv: "tx_state l (consumed @ got @ wire l)" "\<not> undefined_access l"
      "map msg (delivered l) = stale [] (take k (sent l))"
    and k: "k < length (sent l)" and m: "m = sent l ! k" "body m \<noteq> []"
    and len: "length got = length (body m)"
    and cons: "consumed = stream_of (take k (sent l)) @ header_bytes (header m)"
    and temp: "header (m_msgTemporaryIn (rx l)) = header m"
      "length (body (m_msgTemporaryIn (rx l))) = length (body m)"
  shows "link_inv (run_rx (on_ReadBody (rx l) Success got) (l\<lparr>rx_read := None\<rparr>))"
proof -
  from tx_state_prefix [OF inv(1)] obtain rest
    where "stream_of (take k (sent l)) @ header_bytes (header (sent l ! k)) @ got @ wire l @ rest
      = stream_of (sent l)"
    by (auto simp: cons m)
  from stream_at_body [OF this] len k have got: "got = body m" by (simp add: m)
  from rx_body [OF len temp(2,1) got] obtain om c where
      eq: "on_ReadBody (rx l) Success got = (c, [Push_in om, Start_read Read_header header_sizeof])"
    and om: "msg om = m" and c: "body (m_msgTemporaryIn c) = body m" by blast
  have enc: "stream_of (take (Suc k) (sent l)) = consumed @ got"
    using k by (simp add: take_snoc cons encode_def got m)
  show ?thesis
    unfolding eq
  proof (rule link_invI [where consumed = "consumed @ got" and k = "Suc k"])
    show "tx_state (run_rx (c, [Push_in om, Start_read Read_header header_sizeof]) (l\<lparr>rx_read := None\<rparr>))
        ((consumed @ got) @ got_of (run_rx (c, [Push_in om, Start_read Read_header header_sizeof])
          (l\<lparr>rx_read := None\<rparr>)) @ wire (run_rx (c, [Push_in om, Start_read Read_header header_sizeof])
          (l\<lparr>rx_read := None\<rparr>)))"
      using inv(1) by (auto simp: got_of_def elim: tx_state_cong)
  qed (use inv k m om c enc in \<open>auto simp: rx_state_def take_snoc stale_snoc last_body_snoc\<close>)
qed

lemma link_inv_read_failed:
  assumes inv: "tx_state l (consumed @ got @ wire l)" "\<not> undefined_access l" "k \<le> length (sent l)"
      "map msg (delivered l) = stale [] (take k (sent l))"
    and rd: "op = Read_header \<or> op = Read_body" and ec: "failed ec"
  shows "link_inv (run_rx (on_read op (rx l) ec got) (l\<lparr>rx_read := None\<rparr>))"
proof -
  obtain c lg where eq: "on_read op (rx l) ec got = (close_socket c, [Printf lg])"
    using rd ec by (auto simp: on_ReadHeader_def on_ReadBody_def Let_def)
  show ?thesis
    unfolding eq
  proof (rule link_invI [where consumed = "consumed @ got" and k = k])
    show "tx_state (run_rx (close_socket c, [Printf lg]) (l\<lparr>rx_read := None\<rparr>))
        ((consumed @ got) @ got_of (run_rx (close_socket c, [Printf lg]) (l\<lparr>rx_read := None\<rparr>))
          @ wire (run_rx (close_socket c, [Printf lg]) (l\<lparr>rx_read := None\<rparr>)))"
      using inv(1) by (auto simp: got_of_def elim: tx_state_cong)
  qed (use inv in \<open>auto simp: rx_state_def close_socket_def\<close>)
qed

section \<open>Every step keeps the invariant\<close>

lemma link_invE:
  assumes "link_inv l"
  obtains consumed k where "\<not> undefined_access l" "tx_state l (consumed @ got_of l @ wire l)"
    "rx_state l consumed k" "k \<le> length (sent l)"
    "map msg (delivered l) = stale [] (take k (sent l))"
  using assms by (auto simp: link_inv_def)

lemma rx_state_cong:
  assumes "rx_state l consumed k" and "rx l' = rx l" and "rx_read l' = rx_read l"
    and "sent l' = sent l"
  shows "rx_state l' consumed k"
  using assms by (simp add: rx_state_def)

lemma rx_state_sent:
  assumes "rx_state l consumed k" and "k \<le> length (sent l)" and "rx l' = rx l"
    and "rx_read l' = rx_read l" and "sent l' = sent l @ [m]"
  shows "rx_state l' consumed k"
  using assms by (fastforce simp: rx_state_def nth_append)

lemma got_of_frame [simp]: "got_of (run_tx r l) = got_of l" "got_of (l\<lparr>tx_writes := ws\<rparr>) = got_of l"
  "got_of (l\<lparr>wire := w\<rparr>) = got_of l" "got_of (l\<lparr>sent := ms\<rparr>) = got_of l"
  by (simp_all add: got_of_def)

lemma link_step_inv:
  assumes "link_step l l'" and "link_inv l" and "\<forall>m \<in> set (sent l). deliverable m"
  shows "link_inv l'"
proof -
  from assms(2) obtain consumed k where inv: "\<not> undefined_access l"
      "tx_state l (consumed @ got_of l @ wire l)" "rx_state l consumed k" "k \<le> length (sent l)"
      "map msg (delivered l) = stale [] (take k (sent l))"
    by (rule link_invE)
  from assms(1) show ?thesis
  proof (cases rule: link_step.cases)
    case (link_send m)
    from tx_state_send [OF inv(2), of m] inv show ?thesis unfolding link_send
      by (intro link_invI [where consumed = consumed and k = k]) (auto intro: rx_state_sent)
  next
    case (link_write_byte op b bs ws)
    from tx_state_byte [OF inv(2) link_write_byte(2)] inv show ?thesis unfolding link_write_byte
      by (intro link_invI [where consumed = consumed and k = k]) (auto intro: rx_state_cong)
  next
    case (link_write_done op ws)
    from tx_state_done [OF inv(2) link_write_done(2)] inv show ?thesis unfolding link_write_done
      by (intro link_invI [where consumed = consumed and k = k]) (auto intro: rx_state_cong)
  next
    case (link_write_failed op bs ws ec)
    from tx_state_failed [OF inv(2) link_write_failed(2,3)] inv show ?thesis
      unfolding link_write_failed
      by (intro link_invI [where consumed = consumed and k = k]) (auto intro: rx_state_cong)
  next
    case (link_read_byte op n got b w)
    have "tx_state l (consumed @ got_of l' @ wire l')"
      using inv(2) link_read_byte by (simp add: got_of_def)
    then have "tx_state l' (consumed @ got_of l' @ wire l')"
      by (rule tx_state_cong) (simp_all add: link_read_byte)
    moreover have "rx_state l' consumed k"
      using inv(3) link_read_byte by (auto simp: rx_state_def)
    ultimately show ?thesis
      using inv link_read_byte by (intro link_invI [where consumed = consumed and k = k]) auto
  next
    case (link_read_done op n got)
    have w: "tx_state l (consumed @ got @ wire l)"
      using inv(2) link_read_done by (simp add: got_of_def)
    show ?thesis
      using inv(3) unfolding rx_state_def
    proof (elim disjE exE conjE)
      fix got'
      assume hd: "rx_read l = Some (Read_header, header_sizeof, got')"
        "consumed = stream_of (take k (sent l))"
        "body (m_msgTemporaryIn (rx l)) = last_body [] (take k (sent l))"
      with link_read_done link_inv_read_header [OF w inv(1,4,5) _ _ hd(2,3) assms(3)]
      show ?thesis by simp
    next
      fix got' m
      assume "rx_read l = Some (Read_body, length (body m), got')" "k < length (sent l)"
        "m = sent l ! k" "body m \<noteq> []"
        "consumed = stream_of (take k (sent l)) @ header_bytes (header m)"
        "header (m_msgTemporaryIn (rx l)) = header m"
        "length (body (m_msgTemporaryIn (rx l))) = length (body m)"
      with link_read_done link_inv_read_body [OF w inv(1,5), of m] show ?thesis by simp
    qed (simp add: link_read_done)
  next
    case (link_read_failed op n got ec)
    have w: "tx_state l (consumed @ got @ wire l)"
      using inv(2) link_read_failed by (simp add: got_of_def)
    have "op = Read_header \<or> op = Read_body"
      using inv(3) link_read_failed by (auto simp: rx_state_def)
    from link_inv_read_failed [OF w inv(1,4,5) this link_read_failed(3)]
    show ?thesis by (simp add: link_read_failed)
  qed
qed

lemma fold_rx_sent: "sent (fold rx_effect es l) = sent l"
proof (induction es arbitrary: l)
  case (Cons e es)
  show ?case by (cases e) (simp_all add: Cons.IH)
qed simp

lemma link_step_sent: "link_step l l' \<Longrightarrow> set (sent l) \<subseteq> set (sent l')"
  by (cases rule: link_step.cases) (auto simp: run_rx_def fold_rx_sent)

lemma link_init_inv: "link_ready a b \<Longrightarrow> link_inv (link_init a b)"
  by (rule link_invI [where consumed = "[]" and k = 0])
    (auto simp: link_init_def ReadHeader_def link_ready_def tx_state_def rx_state_def got_of_def)

lemma link_reachable_inv:
  assumes "link_reachable a b l" and "link_ready a b"
  shows "(\<forall>m \<in> set (sent l). deliverable m) \<longrightarrow> link_inv l"
  using assms(1)
proof (induction rule: link_reachable.induct)
  case link_start
  show ?case using link_init_inv [OF assms(2)] by simp
next
  case (link_next l l')
  then show ?case using link_step_sent [OF link_next.hyps(2)] link_step_inv by blast
qed

section \<open>Runs without failures\<close>

lemma reach_write_all:
  assumes "link_reachable a b l" and "tx_writes l = (op, bs) # ws"
  shows "link_reachable a b (l\<lparr>tx_writes := (op, []) # ws, wire := wire l @ bs\<rparr>)"
  using assms
proof (induction bs arbitrary: l)
  case Nil
  then have "l\<lparr>tx_writes := (op, []) # ws, wire := wire l @ []\<rparr> = l" by (cases l) simp
  with Nil.prems(1) show ?case by (simp only:)
next
  case (Cons x bs)
  from Cons.IH [OF link_next [OF Cons.prems(1) link_write_byte [OF Cons.prems(2)]]]
  show ?case by simp
qed

lemma reach_read_all:
  assumes "link_reachable a b l" and "rx_read l = Some (op, n, got)" and "wire l = bs @ w"
    and "length got + length bs = n"
  shows "link_reachable a b (l\<lparr>rx_read := Some (op, n, got @ bs), wire := w\<rparr>)"
  using assms
proof (induction bs arbitrary: l got)
  case Nil
  then have "l\<lparr>rx_read := Some (op, n, got @ []), wire := w\<rparr> = l" by (cases l) simp
  with Nil.prems(1) show ?case by (simp only:)
next
  case (Cons x bs)
  have "length got < n" and "wire l = x # (bs @ w)" using Cons.prems by auto
  from Cons.IH [OF link_next [OF Cons.prems(1) link_read_byte [OF Cons.prems(2) this]]] Cons.prems
  show ?case by simp
qed

text \<open>A link at rest: all queues empty, both ends open, the receiver waiting for a header.\<close>

definition at_rest :: "link \<Rightarrow> bool" where
  "at_rest l \<longleftrightarrow> tx_writes l = [] \<and> deqQueue (m_qMessagesOut (tx l)) = [] \<and> wire l = []
     \<and> rx_read l = Some (Read_header, header_sizeof, []) \<and> m_socket (tx l) \<and> m_socket (rx l)"

lemma at_rest_init: "link_ready a b \<Longrightarrow> at_rest (link_init a b)"
  by (simp add: at_rest_def link_init_def ReadHeader_def link_ready_def)

text \<open>The header of one message crosses the link.\<close>

lemma reach_header_sent:
  assumes "link_reachable a b l" and "at_rest l"
  shows "\<exists>l'. link_reachable a b l' \<and> sent l' = sent l @ [m] \<and> wire l' = header_bytes (header m) @ body m
    \<and> tx_writes l' = [] \<and> deqQueue (m_qMessagesOut (tx l')) = [] \<and> m_socket (tx l')
    \<and> rx l' = rx l \<and> rx_read l' = rx_read l"
proof -
  let ?l1 = "run_tx (on_Send (tx l) m) (l\<lparr>sent := sent l @ [m]\<rparr>)"
  let ?l2 = "?l1\<lparr>tx_writes := [(Write_header, [])], wire := wire l @ header_bytes (header m)\<rparr>"
  let ?l3 = "run_tx (on_WriteHeader (tx ?l2) Success) (?l2\<lparr>tx_writes := []\<rparr>)"
  have q: "deqQueue (m_qMessagesOut (tx l)) = []" using assms(2) by (simp add: at_rest_def)
  note send = on_Send_idle [OF q, of m]
  have r1: "link_reachable a b ?l1" by (rule link_next [OF assms(1) link_send])
  have w1: "tx_writes ?l1 = [(Write_header, header_bytes (header m))]"
    using assms(2) send by (simp add: at_rest_def)
  have r2: "link_reachable a b ?l2" using reach_write_all [OF r1 w1] by simp
  have r3: "link_reachable a b ?l3"
    using link_next [OF r2 link_write_done [of ?l2 Write_header "[]"]] by simp
  have front: "tsq_front (m_qMessagesOut (fst (on_Send (tx l) m))) = Some m"
    using send(2) by (rule front_Cons)
  have sock: "m_socket (tx l)" using assms(2) by (simp add: at_rest_def)
  show ?thesis
  proof (cases "body m = []")
    case True
    have "fst (next_message c) = c\<lparr>m_qMessagesOut := q\<lparr>deqQueue := []\<rparr>\<rparr>" and "snd (next_message c) = []"
      if "m_qMessagesOut c = q" "deqQueue q = [m]" for c q
      using that by (simp_all add: next_message_def pop_Cons Let_def)
    from this [OF refl send(2)] True front r3 assms(2) send(3) sock show ?thesis
      by (intro exI [of _ ?l3]) (simp add: at_rest_def on_WriteHeader_def)
  next
    case False
    let ?l4 = "?l3\<lparr>tx_writes := [(Write_body, [])], wire := wire ?l3 @ body m\<rparr>"
    let ?l5 = "run_tx (on_WriteBody (tx ?l4) Success) (?l4\<lparr>tx_writes := []\<rparr>)"
    have w3: "tx_writes ?l3 = [(Write_body, body m)]"
      using False front by (simp add: on_WriteHeader_def WriteBody_def)
    have r4: "link_reachable a b ?l4" by (rule reach_write_all [OF r3 w3])
    have r5: "link_reachable a b ?l5"
      using link_next [OF r4 link_write_done [of ?l4 Write_body "[]"]] by simp
    have t3: "tx ?l3 = fst (on_Send (tx l) m)"
      using False front by (simp add: on_WriteHeader_def WriteBody_def)
    have "fst (next_message c) = c\<lparr>m_qMessagesOut := q\<lparr>deqQueue := []\<rparr>\<rparr>" and "snd (next_message c) = []"
      if "m_qMessagesOut c = q" "deqQueue q = [m]" for c q
      using that by (simp_all add: next_message_def pop_Cons Let_def)
    from this [OF refl send(2)] False front r5 t3 assms(2) send(3) sock show ?thesis
      by (intro exI [of _ ?l5]) (simp add: at_rest_def on_WriteHeader_def on_WriteBody_def WriteBody_def)
  qed
qed

lemma reach_one_more:
  assumes "link_reachable a b l" and "at_rest l" and "deliverable m"
  shows "\<exists>l'. link_reachable a b l' \<and> at_rest l' \<and> sent l' = sent l @ [m]"
proof -
  from reach_header_sent [OF assms(1,2), of m] obtain l1 where
    l1: "link_reachable a b l1" "sent l1 = sent l @ [m]" "wire l1 = header_bytes (header m) @ body m"
      "tx_writes l1 = []" "deqQueue (m_qMessagesOut (tx l1)) = []" "m_socket (tx l1)"
      "rx l1 = rx l" "rx_read l1 = Some (Read_header, header_sizeof, [])"
    using assms(2) by (auto simp: at_rest_def)
  let ?g = "header_bytes (header m)"
  let ?l2 = "l1\<lparr>rx_read := Some (Read_header, header_sizeof, ?g), wire := body m\<rparr>"
  let ?l3 = "run_rx (on_ReadHeader (rx l1) Success ?g) (?l2\<lparr>rx_read := None\<rparr>)"
  have r2: "link_reachable a b ?l2" using reach_read_all [OF l1(1,8,3)] by simp
  have r3: "link_reachable a b ?l3"
    using link_next [OF r2 link_read_done [of ?l2 Read_header header_sizeof ?g]] by simp
  have hd: "bytes_header ?g = header m" by simp
  have sock: "m_socket (rx l1)" using assms(2) l1(7) by (simp add: at_rest_def)
  show ?thesis
  proof (cases "body m = []")
    case True
    from rx_header_empty [OF length_header_bytes hd assms(3) True, of "rx l1"]
    obtain om c where "on_ReadHeader (rx l1) Success ?g = (c, [Push_in om, Start_read Read_header header_sizeof])"
      and "m_socket c = m_socket (rx l1)" by blast
    with True r3 l1 sock show ?thesis
      by (intro exI [of _ ?l3]) (simp add: at_rest_def)
  next
    case False
    from rx_header_body [OF length_header_bytes hd assms(3) False, of "rx l1"]
    obtain c where c: "on_ReadHeader (rx l1) Success ?g = (c, [Start_read Read_body (length (body m))])"
      and t: "header (m_msgTemporaryIn c) = header m" "length (body (m_msgTemporaryIn c)) = length (body m)"
      and sc: "m_socket c = m_socket (rx l1)" by blast
    let ?l4 = "?l3\<lparr>rx_read := Some (Read_body, length (body m), body m), wire := []\<rparr>"
    let ?l5 = "run_rx (on_ReadBody (rx ?l3) Success (body m)) (?l4\<lparr>rx_read := None\<rparr>)"
    have "rx_read ?l3 = Some (Read_body, length (body m), [])" and "wire ?l3 = body m @ []"
      using c by simp_all
    from reach_read_all [OF r3 this] have r4: "link_reachable a b ?l4" by simp
    have rx4: "rx ?l4 = c" using c by simp
    have r5: "link_reachable a b ?l5"
      using link_next [OF r4 link_read_done [of ?l4 Read_body "length (body m)" "body m"]] by simp
    from rx_body [OF refl t(2,1) refl] obtain om c' where
        "on_ReadBody c Success (body m) = (c', [Push_in om, Start_read Read_header header_sizeof])"
      and "m_socket c' = m_socket c" by blast
    with r5 rx4 sc sock l1 c show ?thesis
      by (intro exI [of _ ?l5]) (simp add: at_rest_def)
  qed
qed

lemma reach_all:
  assumes "link_ready a b" and "\<forall>m \<in> set ms. deliverable m"
  shows "\<exists>l. link_reachable a b l \<and> at_rest l \<and> sent l = ms"
  using assms(2)
proof (induction ms rule: rev_induct)
  case Nil
  have "sent (link_init a b) = []" by (simp add: link_init_def ReadHeader_def)
  with at_rest_init [OF assms(1)] show ?case by (blast intro: link_start)
next
  case (snoc m ms)
  then obtain l where "link_reachable a b l" "at_rest l" "sent l = ms" by auto
  with reach_one_more [of a b l m] snoc.prems show ?case by auto
qed

section \<open>Properties\<close>

text \<open>
  C1. Between two validated connections, whatever the interleaving of sends, partial transfers,
  completions and failures, if every message sent is deliverable (its header states the size of
  its body, which is below \<open>2 ^ 32\<close>): the receiver's queue holds one message for each of the
  first \<open>k\<close> messages sent, in order, each with its own header; its body is the one that was
  sent, except that a message sent with an empty body arrives with the body of the last
  non-empty message before it. When none of them has an empty body they are exactly the messages
  sent. No empty queue is ever read from.
\<close>

theorem link_delivers_prefix:
  assumes "link_reachable a b l" and "link_ready a b" and "\<forall>m \<in> set (sent l). deliverable m"
  shows "\<exists>k. k \<le> length (sent l) \<and> map msg (delivered l) = stale [] (take k (sent l))
    \<and> ((\<forall>m \<in> set (take k (sent l)). body m \<noteq> []) \<longrightarrow> map msg (delivered l) = take k (sent l))
    \<and> \<not> undefined_access l"
proof -
  have "link_inv l" using link_reachable_inv [OF assms(1,2)] assms(3) by blast
  then obtain k where "k \<le> length (sent l)" "map msg (delivered l) = stale [] (take k (sent l))"
      "\<not> undefined_access l"
    using assms(3) by (auto simp: link_inv_def)
  then show ?thesis by (metis stale_id)
qed


text \<open>The hypotheses hold together: a run that sends a ping and then a request to all.\<close>

definition client_end :: connection where
  "client_end = new_connection 1 Owner_client True 0 0"

definition server_end :: connection where
  "server_end = new_connection 2 Owner_server True 0 0"

definition ping_example :: message where
  "ping_example = \<lparr>header = \<lparr>header_id = 2, header_size = 8\<rparr>, body = [1, 2, 3, 4, 5, 6, 7, 8]\<rparr>"

definition all_example :: message where
  "all_example = \<lparr>header = \<lparr>header_id = 3, header_size = 0\<rparr>, body = []\<rparr>"

lemma ends_ready [simp]: "link_ready client_end server_end" "link_ready server_end client_end"
  by (simp_all add: link_ready_def client_end_def server_end_def new_connection_def Let_def
      empty_message_def)

lemma deliverable_examples [simp]: "deliverable ping_example" "deliverable all_example"
  by (simp_all add: deliverable_def wf_message_def ping_example_def all_example_def)

lemma example_run:
  "\<exists>l. link_reachable client_end server_end l \<and> at_rest l \<and> sent l = [ping_example, all_example]"
  by (rule reach_all) auto

theorem link_delivers_prefix_witness:
  "\<exists>l k. link_reachable client_end server_end l \<and> sent l = [ping_example, all_example] \<and> map msg (delivered l) = stale [] (take k (sent l))"
proof -
  obtain l where "link_reachable client_end server_end l" "sent l = [ping_example, all_example]"
    using example_run by blast
  with link_delivers_prefix [of client_end server_end l] show ?thesis
    by (intro exI [of _ l]) auto
qed


lemma can_deliver:
  assumes "link_ready a b" and "\<forall>m \<in> set ms. deliverable m"
  obtains l where "link_reachable a b l" "at_rest l" "sent l = ms"
    "map msg (delivered l) = stale [] ms"
proof -
  obtain l where l: "link_reachable a b l" "at_rest l" "sent l = ms"
    using reach_all [OF assms] by blast
  have "link_inv l" using link_reachable_inv [OF l(1) assms(1)] assms(2) l(3) by blast
  then obtain consumed k where inv: "tx_state l (consumed @ got_of l @ wire l)"
      "rx_state l consumed k" "k \<le> length (sent l)"
      "map msg (delivered l) = stale [] (take k (sent l))"
    by (rule link_invE)
  have "stream_of (take k (sent l)) = stream_of (sent l)"
    using inv(1,2) l(2) by (auto simp: tx_state_def rx_state_def got_of_def at_rest_def)
  then have "map msg (delivered l) = stale [] (sent l)"
    using inv(3,4) stream_take_all by simp
  with l that show thesis by blast
qed

text \<open>
  C13. Nothing blocks the link for good: from two validated ends, any list of deliverable
  messages has a run without failures that sends them, comes to rest, and delivers one message
  for each, in order and with its header; those sent with an empty body arrive with the body of
  the last non-empty one before them, and if there are none, the messages arrive as they were
  sent.
\<close>

theorem link_can_deliver:
  assumes "link_ready a b" and "\<forall>m \<in> set ms. deliverable m"
  shows "\<exists>l. link_reachable a b l \<and> at_rest l \<and> sent l = ms
    \<and> map msg (delivered l) = stale [] ms
    \<and> ((\<forall>m \<in> set ms. body m \<noteq> []) \<longrightarrow> map msg (delivered l) = ms)"
  using can_deliver [OF assms] by (metis stale_id)

theorem link_can_deliver_witness:
  "\<exists>l. link_reachable server_end client_end l \<and> sent l = [all_example, ping_example]
     \<and> map msg (delivered l) = [all_example, ping_example]"
proof -
  have "stale [] [all_example, ping_example] = [all_example, ping_example]"
    by (simp add: all_example_def ping_example_def)
  then show ?thesis
    using link_can_deliver [of server_end client_end "[all_example, ping_example]"] by auto
qed

text \<open>
  The reused \<open>m_msgTemporaryIn\<close> changes what arrives: there is a run without failures in
  which the receiver's second message was sent with an empty body and is delivered with the
  8 bytes of the message before it, under a header that says size 0 (so it is no longer a
  message that \<open>Send\<close> can forward faithfully).
\<close>

theorem link_stale_body:
  "\<exists>l. link_reachable client_end server_end l \<and> at_rest l \<and> sent l = [ping_example, all_example]
     \<and> map msg (delivered l) \<noteq> sent l
     \<and> (\<exists>m. msg (last (delivered l)) = m \<and> header_size (header m) = 0
          \<and> body m = body ping_example \<and> \<not> wf_message m)"
proof -
  obtain l where l: "link_reachable client_end server_end l" "at_rest l"
      "sent l = [ping_example, all_example]"
      "map msg (delivered l) = stale [] [ping_example, all_example]"
    by (rule can_deliver [of client_end server_end "[ping_example, all_example]"]) auto
  then have d: "map msg (delivered l) = [ping_example, all_example\<lparr>body := body ping_example\<rparr>]"
    by (auto simp: ping_example_def Let_def all_example_def)
  then obtain x y where "delivered l = [x, y]" "msg y = all_example\<lparr>body := body ping_example\<rparr>"
    by auto
  with l d show ?thesis
    by (auto simp: all_example_def ping_example_def wf_message_def)
qed

end
