(* ===== verification/Net_Client.thy ===== *)
theory Net_Client
  imports Net_Connection
begin

text \<open>
  \<open>net_client.h\<close>: the client base class, with its io_context and the thread that runs it. The
  name resolver and the operating system's answers are arguments. A stopped io_context stays
  stopped, as nothing in the program calls \<open>restart()\<close>. Shown here: what \<open>Connect\<close> leaves
  behind on each of its paths, that sending needs an open socket, and that after
  \<open>Disconnect\<close> no handler runs again, whatever is called afterwards.
\<close>

section \<open>State and operations\<close>

record client =
  cl_qMessagesIn :: "owned_message tsqueue"
  context_stopped :: bool
  thrContext :: bool
  m_connection :: "connection option"
  released :: "connection list"

text \<open>\<open>thrContext\<close>: the thread is joinable. \<open>released\<close>: objects \<open>release()\<close> let go of.\<close>

datatype client_effect =
    Conn_action conn_effect
  | Conn_destroyed
  | Run_context_thread
  | Stop_context
  | Join_context_thread
  | Client_exception string
  | Terminate_program
  | Handler_ran

type_synonym client_result = "client \<times> client_effect list"

definition new_client :: client where
  "new_client = \<lparr>cl_qMessagesIn = tsq_new, context_stopped = False, thrContext = False,
     m_connection = None, released = []\<rparr>"

definition client_IsConnected :: "client \<Rightarrow> bool" where
  "client_IsConnected cl = (case m_connection cl of None \<Rightarrow> False | Some c \<Rightarrow> IsConnected c)"

text \<open>
  \<open>resolve\<close> is the resolver (\<open>Inl\<close> the text of its exception), \<open>this\<close> the identity of the
  object \<open>make_unique\<close> creates, \<open>thread_error\<close> what creating the thread throws, if it does.
  Assigning to a joinable \<open>std::thread\<close> ends the program: the result is then \<open>None\<close>.
\<close>

definition client_Connect ::
  "(string \<Rightarrow> string \<Rightarrow> string + endpoint list) \<Rightarrow> bool \<Rightarrow> string option \<Rightarrow> nat \<Rightarrow>
   string \<Rightarrow> u16 \<Rightarrow> client \<Rightarrow> client_result \<times> bool option" where
  "client_Connect resolve opened thread_error this host port cl =
     (case resolve host (show_nat (unat port)) of
        Inl e \<Rightarrow> ((cl, [Client_exception e]), Some False)
      | Inr m_endpoints \<Rightarrow>
          let destroyed = (if m_connection cl = None then [] else [Conn_destroyed]);
              (c, es) = ConnectToServer opened m_endpoints (new_connection this Owner_client False 0 0);
              cl1 = cl\<lparr>m_connection := Some c\<rparr>;
              started = destroyed @ map Conn_action es
          in (case thread_error of
                Some e \<Rightarrow> ((cl1, started @ [Client_exception e]), Some False)
              | None \<Rightarrow>
                  if thrContext cl1 then ((cl1, started @ [Run_context_thread, Terminate_program]), None)
                  else ((cl1\<lparr>thrContext := True\<rparr>, started @ [Run_context_thread]), Some True)))"

definition client_Disconnect :: "client \<Rightarrow> client_result" where
  "client_Disconnect cl =
     andthen
       (if client_IsConnected cl then
          (case m_connection cl of None \<Rightarrow> (cl, [])
           | Some c \<Rightarrow> (let (c', es) = Disconnect c
                        in (cl\<lparr>m_connection := Some c'\<rparr>, map Conn_action es)))
        else (cl, []))
       (\<lambda>cl1. andthen (cl1\<lparr>context_stopped := True\<rparr>, [Stop_context])
         (\<lambda>cl2. andthen
           (if thrContext cl2 then (cl2\<lparr>thrContext := False\<rparr>, [Join_context_thread]) else (cl2, []))
           (\<lambda>cl3. (cl3\<lparr>m_connection := None,
                       released := (case m_connection cl3 of None \<Rightarrow> [] | Some c \<Rightarrow> [c]) @ released cl3\<rparr>,
                   []))))"

text \<open>The destructor.\<close>

definition destroy_client :: "client \<Rightarrow> client_result" where
  "destroy_client cl = client_Disconnect cl"

definition client_Send :: "message \<Rightarrow> client \<Rightarrow> client_result" where
  "client_Send m cl =
     (if client_IsConnected cl then
        (case m_connection cl of None \<Rightarrow> (cl, [])
         | Some c \<Rightarrow> (let (c', es) = Send c m in (cl\<lparr>m_connection := Some c'\<rparr>, map Conn_action es)))
      else (cl, []))"

definition client_Incoming :: "client \<Rightarrow> owned_message tsqueue" where
  "client_Incoming cl = cl_qMessagesIn cl"

section \<open>Running\<close>

text \<open>
  A handler of the connection, run by the thread of the context. Messages it pushes go to the
  queue of the client.
\<close>

fun receive :: "conn_effect list \<Rightarrow> client \<Rightarrow> client" where
  "receive [] cl = cl"
| "receive (Push_in om # es) cl =
     receive es (cl\<lparr>cl_qMessagesIn := tsq_push_back (cl_qMessagesIn cl) om\<rparr>)"
| "receive (_ # es) cl = receive es cl"

datatype client_event =
    Connect_done error_code
  | Read_done read_op error_code "byte list"
  | Write_done write_op error_code
  | Run_send message
  | Run_close

fun client_handler :: "client_event \<Rightarrow> connection \<Rightarrow> connection \<times> conn_effect list" where
  "client_handler (Connect_done ec) c = on_ConnectToServer c ec"
| "client_handler (Read_done op ec bytes) c = on_read op c ec bytes"
| "client_handler (Write_done op ec) c = on_write op c ec"
| "client_handler (Run_send m) c = on_Send c m"
| "client_handler Run_close c = (on_Disconnect c, [])"

inductive client_step :: "client \<Rightarrow> client_effect list \<Rightarrow> client \<Rightarrow> bool" where
  step_connect: "client_Connect resolve opened thread_error this host port cl = ((cl', es), Some b) \<Longrightarrow>
    client_step cl es cl'"
| step_disconnect: "client_Disconnect cl = (cl', es) \<Longrightarrow> client_step cl es cl'"
| step_send: "client_Send m cl = (cl', es) \<Longrightarrow> client_step cl es cl'"
| step_take: "tsq_pop_front (client_Incoming cl) = Some (om, q) \<Longrightarrow>
    client_step cl [] (cl\<lparr>cl_qMessagesIn := q\<rparr>)"
| step_handler: "thrContext cl \<Longrightarrow> \<not> context_stopped cl \<Longrightarrow> m_connection cl = Some c \<Longrightarrow>
    client_handler ev c = (c', es) \<Longrightarrow>
    client_step cl (Handler_ran # map Conn_action es) (receive es (cl\<lparr>m_connection := Some c'\<rparr>))"

inductive client_steps :: "client \<Rightarrow> client_effect list \<Rightarrow> client \<Rightarrow> bool" where
  steps_refl: "client_steps cl [] cl"
| steps_step: "client_steps cl es cl' \<Longrightarrow> client_step cl' es' cl'' \<Longrightarrow> client_steps cl (es @ es') cl''"

section \<open>Connecting and sending\<close>

text \<open>
  \<open>Connect\<close> on a client that has no thread yet: if the name does not resolve, nothing
  changes and the answer is false. If it resolves, the answer only says whether the thread
  started; the attempt to connect has begun, and \<open>IsConnected\<close> already holds when the socket
  could be opened, before any server has answered (and also when the answer is false because the
  thread did not start).
\<close>

theorem connect_outcomes:
  assumes "\<not> thrContext cl" and "m_connection cl = None"
  shows "client_Connect resolve opened thread_error this host port cl =
    (case resolve host (show_nat (unat port)) of
       Inl e \<Rightarrow> ((cl, [Client_exception e]), Some False)
     | Inr eps \<Rightarrow>
         ((cl\<lparr>thrContext := (thread_error = None),
              m_connection := Some (new_connection this Owner_client opened 0 0)\<rparr>,
           Conn_action (Start_connect eps)
           # (case thread_error of None \<Rightarrow> [Run_context_thread] | Some e \<Rightarrow> [Client_exception e])),
          Some (thread_error = None)))
   \<and> (\<forall>eps. resolve host (show_nat (unat port)) = Inr eps \<longrightarrow>
        client_IsConnected (fst (fst (client_Connect resolve opened thread_error this host port cl)))
          = opened)"
  using assms
  by (auto simp: client_Connect_def ConnectToServer_def new_connection_def Let_def
      client_IsConnected_def IsConnected_def split: sum.splits option.splits)

theorem connect_outcomes_witness:
  "client_IsConnected (fst (fst (client_Connect (\<lambda>h p. Inr [([127, 0, 0, 1], 60000)]) True None 5
     ''127.0.0.1'' 60000 new_client)))"
proof -
  have h: "\<not> thrContext new_client" "m_connection new_client = None" by (simp_all add: new_client_def)
  show ?thesis
    using conjunct2 [OF connect_outcomes [OF h, of "\<lambda>h p. Inr [([127, 0, 0, 1], 60000)]" True None 5
        "''127.0.0.1''" 60000]]
    by simp
qed

section \<open>After Disconnect\<close>

lemma Disconnect_stops:
  "context_stopped (fst (client_Disconnect cl))" "\<not> thrContext (fst (client_Disconnect cl))"
  "m_connection (fst (client_Disconnect cl)) = None"
  "cl_qMessagesIn (fst (client_Disconnect cl)) = cl_qMessagesIn cl"
  "Handler_ran \<notin> set (snd (client_Disconnect cl))"
  by (auto simp: client_Disconnect_def Disconnect_def split: option.splits)

lemma step_stopped:
  assumes "client_step cl es cl'" and "context_stopped cl"
  shows "context_stopped cl' \<and> Handler_ran \<notin> set es
    \<and> (\<exists>taken. deqQueue (cl_qMessagesIn cl) = taken @ deqQueue (cl_qMessagesIn cl'))"
  using assms(1)
proof (cases rule: client_step.cases)
  case (step_connect resolve opened thread_error this host port b)
  then show ?thesis using assms(2)
    by (auto simp: client_Connect_def ConnectToServer_def Let_def
        split: sum.splits option.splits if_splits)
next
  case step_disconnect
  then show ?thesis using Disconnect_stops [of cl] by simp
next
  case (step_send m)
  then show ?thesis using assms(2)
    by (auto simp: client_Send_def Send_def split: if_splits option.splits)
next
  case (step_take om q)
  then show ?thesis using assms(2)
    by (auto simp: client_Incoming_def tsq_pop_front_Some)
next
  case step_handler
  then show ?thesis using assms(2) by simp
qed

text \<open>
  C12. After \<open>Disconnect\<close> the context stays stopped: in every sequence of later calls, calls
  of \<open>Connect\<close> included, no handler runs, not even the one that would close the old socket,
  and \<open>Incoming()\<close> never gets a new message; what was in it can only be taken out. Such a
  later \<open>Connect\<close> still answers true.
\<close>

theorem no_handler_after_disconnect:
  assumes "client_steps (fst (client_Disconnect cl)) es cl'"
  shows "Handler_ran \<notin> set es \<and> context_stopped cl'
    \<and> (\<exists>taken. deqQueue (cl_qMessagesIn cl) = taken @ deqQueue (cl_qMessagesIn cl'))"
  using assms
proof (induction "fst (client_Disconnect cl)" es cl' rule: client_steps.induct)
  case steps_refl
  then show ?case by (simp add: Disconnect_stops)
next
  case (steps_step es cl1 es' cl2)
  with step_stopped [OF steps_step(3)] show ?case by fastforce
qed

text \<open>A client that was disconnected and connects again, and is told that it worked.\<close>

definition reconnected :: "client_result \<times> bool option" where
  "reconnected = client_Connect (\<lambda>h p. Inr [([127, 0, 0, 1], 60000)]) True None 6 ''127.0.0.1'' 60000
     (fst (client_Disconnect new_client))"

theorem no_handler_after_disconnect_witness:
  "snd reconnected = Some True \<and> context_stopped (fst (fst reconnected))"
proof -
  have r: "snd reconnected = Some True"
    by (simp add: reconnected_def client_Connect_def ConnectToServer_def new_connection_def Let_def
        Disconnect_stops)
  then have "client_step (fst (client_Disconnect new_client)) (snd (fst reconnected)) (fst (fst reconnected))"
    unfolding reconnected_def by (intro step_connect) (auto intro: prod_eqI)
  from steps_step [OF steps_refl this] no_handler_after_disconnect r show ?thesis by blast
qed

end
