(* ===== verification/Net_Server.thy ===== *)
theory Net_Server
  imports Net_Connection
begin

text \<open>
  \<open>net_server.h\<close>: the server base class. The connection objects live in \<open>conns\<close>, indexed by
  their identity; a \<open>shared_ptr\<close> is \<open>None\<close> or the identity. The virtual functions a
  derived class overrides are arguments of the operations that call them, and what those
  operations need of them is a locale. Objects are never reclaimed in the model: dropping the
  last \<open>shared_ptr\<close> leaves the entry in \<open>conns\<close>; \<open>Server_Threads\<close> destroys them. Shown here: whom a broadcast reaches and
  which entries it removes, that \<open>MessageClient\<close> does not remove the dead connection,
  in which order \<open>Update\<close> hands messages over, and the identifiers given to clients.
\<close>

section \<open>State and effects\<close>

datatype server_log =
    Log_started
  | Log_stopped
  | Log_exception string
  | Log_new_connection endpoint
  | Log_approved u32
  | Log_denied
  | Log_accept_error error_code
  | Log_removing u32
  | Log_pinging u32
  | Log_message_all u32

datatype server_effect =
    Conn_effect nat conn_effect
  | Accept_started
  | Server_printf server_log
  | Context_run_thread
  | Context_stop
  | Thread_join
  | Throws
  | Server_undefined

record server =
  srv_self :: nat
  m_qMessagesIn :: "owned_message tsqueue"
  m_deqConnections :: "nat option list"
  nIDCounter :: u32
  m_threadContext :: bool
  conns :: "nat \<Rightarrow> connection option"

type_synonym server_result = "server \<times> server_effect list"

definition new_server :: "nat \<Rightarrow> server" where
  "new_server this = \<lparr>srv_self = this, m_qMessagesIn = tsq_new, m_deqConnections = [],
     nIDCounter = 10000, m_threadContext = False, conns = (\<lambda>_. None)\<rparr>"

text \<open>\<open>client && client->IsConnected()\<close>\<close>

definition is_connected :: "server \<Rightarrow> nat option \<Rightarrow> bool" where
  "is_connected s client =
     (case client of None \<Rightarrow> False
      | Some p \<Rightarrow> (case conns s p of None \<Rightarrow> False | Some c \<Rightarrow> IsConnected c))"

text \<open>An operation on the object a \<open>shared_ptr\<close> points to; through \<open>nullptr\<close> it is undefined.\<close>

definition on_conn ::
  "nat option \<Rightarrow> (connection \<Rightarrow> connection \<times> conn_effect list) \<Rightarrow> server \<Rightarrow> server_result" where
  "on_conn client f s =
     (case client of None \<Rightarrow> (s, [Server_undefined])
      | Some p \<Rightarrow>
          (case conns s p of None \<Rightarrow> (s, [Server_undefined])
           | Some c \<Rightarrow> (let (c', es) = f c
                        in (s\<lparr>conns := (conns s)(p := Some c')\<rparr>, map (Conn_effect p) es))))"

section \<open>Accepting\<close>

definition WaitForClientConnection :: "server \<Rightarrow> server_result" where
  "WaitForClientConnection s = (s, [Accept_started])"

text \<open>
  The accept handler. \<open>p\<close> is the identity of the object \<open>make_shared\<close> creates, \<open>now\<close> and
  \<open>rnd\<close> the clock and \<open>rand()\<close> its constructor reads; \<open>remote_ep\<close> is the peer's address,
  \<open>None\<close> when the peer is already gone: \<open>remote_endpoint()\<close> then throws out of the
  handler, and no further accept is started.
\<close>

definition on_accept ::
  "(nat \<Rightarrow> server \<Rightarrow> server_result \<times> bool) \<Rightarrow> nat \<Rightarrow> u64 \<Rightarrow> u64 \<Rightarrow> error_code \<Rightarrow> endpoint option
     \<Rightarrow> server \<Rightarrow> server_result" where
  "on_accept OnClientConnect p now rnd ec remote_ep s =
     (if \<not> failed ec then
        (case remote_ep of
           None \<Rightarrow> (s, [Throws])
         | Some ep \<Rightarrow>
             let s1 = s\<lparr>conns := (conns s)(p := Some (new_connection p Owner_server True now rnd))\<rparr>;
                 (r, accepted) = OnClientConnect p s1
             in andthen (andthen (s1, [Server_printf (Log_new_connection ep)]) (\<lambda>_. r))
                  (\<lambda>s2. andthen
                    (if accepted then
                       andthen
                         (on_conn (Some p) (ConnectToClient (Some (srv_self s2)) (nIDCounter s2))
                            (s2\<lparr>m_deqConnections := m_deqConnections s2 @ [Some p],
                                nIDCounter := nIDCounter s2 + 1\<rparr>))
                         (\<lambda>s3. (s3, [Server_printf (Log_approved
                            (case conns s3 p of None \<Rightarrow> 0 | Some c \<Rightarrow> GetID c))]))
                     else (s2, [Server_printf Log_denied]))
                    WaitForClientConnection))
      else andthen (s, [Server_printf (Log_accept_error ec)]) WaitForClientConnection)"

section \<open>Starting and stopping\<close>

text \<open>\<open>failure\<close> is what the thread's constructor throws, if it does.\<close>

definition Start :: "string option \<Rightarrow> server \<Rightarrow> server_result \<times> bool" where
  "Start failure s =
     (case failure of
        Some e \<Rightarrow> (andthen (WaitForClientConnection s)
                     (\<lambda>s. (s, [Server_printf (Log_exception e)])), False)
      | None \<Rightarrow> (andthen (WaitForClientConnection s)
                   (\<lambda>s. (s\<lparr>m_threadContext := True\<rparr>,
                         [Context_run_thread, Server_printf Log_started])), True))"

definition Stop :: "server \<Rightarrow> server_result" where
  "Stop s =
     andthen (s, [Context_stop])
       (\<lambda>s. andthen (if m_threadContext s then (s\<lparr>m_threadContext := False\<rparr>, [Thread_join]) else (s, []))
          (\<lambda>s. (s, [Server_printf Log_stopped])))"

section \<open>Sending\<close>

text \<open>
  \<open>client.reset()\<close> comes before \<open>std::remove(..., client)\<close>, so the value removed from the
  deque is \<open>nullptr\<close>.
\<close>

definition MessageClient ::
  "(nat option \<Rightarrow> server \<Rightarrow> server_result) \<Rightarrow> nat option \<Rightarrow> message \<Rightarrow> server \<Rightarrow> server_result" where
  "MessageClient OnClientDisconnect client m s =
     (if is_connected s client then on_conn client (\<lambda>c. Send c m) s
      else andthen (OnClientDisconnect client s)
             (\<lambda>s1. let client = None
                   in (s1\<lparr>m_deqConnections := removeAll client (m_deqConnections s1)\<rparr>, [])))"

text \<open>
  The range-based loop of \<open>MessageAllClients\<close>: \<open>todo\<close> iterations from position \<open>i\<close> (the
  end of the range is fixed when the loop starts).
\<close>

fun message_all_loop ::
  "(nat option \<Rightarrow> server \<Rightarrow> server_result) \<Rightarrow> message \<Rightarrow> nat option \<Rightarrow> nat \<Rightarrow> nat \<Rightarrow> bool \<Rightarrow> server
     \<Rightarrow> server_result \<times> bool" where
  "message_all_loop dis m ignore 0 i bInvalid s = ((s, []), bInvalid)"
| "message_all_loop dis m ignore (Suc todo) i bInvalid s =
     (if i < length (m_deqConnections s) then
        let client = m_deqConnections s ! i;
            ((s1, es), inv1) =
              (if is_connected s client then
                 (if client \<noteq> ignore then on_conn client (\<lambda>c. Send c m) s else (s, []), bInvalid)
               else
                 (andthen (dis client s)
                    (\<lambda>s'. (s'\<lparr>m_deqConnections := (m_deqConnections s')[i := None]\<rparr>, [])), True));
            ((s2, es'), inv2) = message_all_loop dis m ignore todo (Suc i) inv1 s1
        in ((s2, es @ es'), inv2)
      else ((s, [Server_undefined]), bInvalid))"

definition MessageAllClients ::
  "(nat option \<Rightarrow> server \<Rightarrow> server_result) \<Rightarrow> message \<Rightarrow> nat option \<Rightarrow> server \<Rightarrow> server_result" where
  "MessageAllClients OnClientDisconnect m pIgnoreClient s =
     (let ((s1, es), bInvalidClientExists) =
            message_all_loop OnClientDisconnect m pIgnoreClient (length (m_deqConnections s)) 0 False s
      in if bInvalidClientExists
         then (s1\<lparr>m_deqConnections := removeAll None (m_deqConnections s1)\<rparr>, es)
         else (s1, es))"

section \<open>Handling the messages that arrived\<close>

function update_loop ::
  "(nat option \<Rightarrow> message \<Rightarrow> server \<Rightarrow> server_result) \<Rightarrow> nat \<Rightarrow> nat \<Rightarrow> server \<Rightarrow> server_result" where
  "update_loop OnMessage nMaxMessages nMessagesCount s =
     (if nMessagesCount < nMaxMessages \<and> \<not> tsq_empty (m_qMessagesIn s) then
        (case tsq_pop_front (m_qMessagesIn s) of
           None \<Rightarrow> (s, [Server_undefined])
         | Some (om, q) \<Rightarrow>
             andthen (OnMessage (remote om) (msg om) (s\<lparr>m_qMessagesIn := q\<rparr>))
               (update_loop OnMessage nMaxMessages (Suc nMessagesCount)))
      else (s, []))"
  by pat_completeness auto
termination
  by (relation "measure (\<lambda>(_, nMax, n, _). nMax - n)") auto

declare update_loop.simps [simp del]

text \<open>\<open>None\<close>: \<open>wait\<close> has not returned, because nothing has arrived.\<close>

definition Update ::
  "(nat option \<Rightarrow> message \<Rightarrow> server \<Rightarrow> server_result) \<Rightarrow> nat \<Rightarrow> bool \<Rightarrow> server \<Rightarrow> server_result option" where
  "Update OnMessage nMaxMessages bWait s =
     (if bWait \<and> tsq_empty (m_qMessagesIn s) then None
      else Some (update_loop OnMessage nMaxMessages 0 s))"

text \<open>The default of the parameter: \<open>size_t nMaxMessages = -1\<close>.\<close>

definition update_unlimited :: nat where
  "update_unlimited = unat (- 1 :: u64)"

text \<open>The virtual functions as the base class defines them.\<close>

definition base_OnClientConnect :: "nat \<Rightarrow> server \<Rightarrow> server_result \<times> bool" where
  "base_OnClientConnect client s = ((s, []), False)"

definition base_OnClientDisconnect :: "nat option \<Rightarrow> server \<Rightarrow> server_result" where
  "base_OnClientDisconnect client s = (s, [])"

definition base_OnMessage :: "nat option \<Rightarrow> message \<Rightarrow> server \<Rightarrow> server_result" where
  "base_OnMessage client m s = (s, [])"

definition base_OnClientValidated :: "nat \<Rightarrow> server \<Rightarrow> server_result" where
  "base_OnClientValidated client s = (s, [])"

section \<open>Sending, in terms of the live connections\<close>

lemma is_connected_Some: "is_connected s q \<Longrightarrow> \<exists>p c. q = Some p \<and> conns s p = Some c"
  by (auto simp: is_connected_def split: option.splits)

lemma is_connected_cong: "conns s' = conns s \<Longrightarrow> is_connected s' q = is_connected s q"
  by (simp only: is_connected_def)

lemma on_conn_Send:
  assumes "is_connected s q"
  shows "on_conn q (\<lambda>c. Send c m) s = (s, [Conn_effect (the q) (Post_send m)])"
  using is_connected_Some [OF assms]
  by (auto simp: on_conn_def Send_def fun_upd_idem_iff [THEN iffD2])

text \<open>
  What \<open>MessageAllClients\<close> and \<open>MessageClient\<close> need of \<open>OnClientDisconnect\<close>: it leaves the
  list of connections and the objects alone, and what it reports depends on the objects only.
\<close>

locale disconnect_handler =
  fixes dis :: "nat option \<Rightarrow> server \<Rightarrow> server_result"
  assumes keeps_deq: "m_deqConnections (fst (dis q s)) = m_deqConnections s"
    and keeps_conns: "conns (fst (dis q s)) = conns s"
    and effects_by_conns: "conns s = conns s' \<Longrightarrow> snd (dis q s) = snd (dis q s')"
begin

definition broadcast_one :: "server \<Rightarrow> message \<Rightarrow> nat option \<Rightarrow> nat option \<Rightarrow> server_effect list" where
  "broadcast_one s m ignore q =
     (if is_connected s q then
        (if q \<noteq> ignore then [Conn_effect (the q) (Post_send m)] else [])
      else snd (dis q s))"

lemma loop_result:
  assumes "i + todo = length (m_deqConnections s)"
  shows "\<exists>s' . message_all_loop dis m ignore todo i b s =
           ((s', concat (map (broadcast_one s m ignore) (drop i (m_deqConnections s)))),
            b \<or> (\<exists>q \<in> set (drop i (m_deqConnections s)). \<not> is_connected s q))
       \<and> conns s' = conns s
       \<and> m_deqConnections s' = take i (m_deqConnections s)
           @ map (\<lambda>q. if is_connected s q then q else None) (drop i (m_deqConnections s))"
  using assms
proof (induction todo arbitrary: i b s)
  case 0
  then show ?case by simp
next
  case (Suc todo)
  let ?xs = "m_deqConnections s"
  let ?q = "?xs ! i"
  have i: "i < length ?xs" using Suc.prems by simp
  then have split: "drop i ?xs = ?q # drop (Suc i) ?xs" by (simp add: Cons_nth_drop_Suc)
  show ?case
  proof (cases "is_connected s ?q")
    case True
    obtain s' where s': "message_all_loop dis m ignore todo (Suc i) b s =
          ((s', concat (map (broadcast_one s m ignore) (drop (Suc i) ?xs))),
           b \<or> (\<exists>q \<in> set (drop (Suc i) ?xs). \<not> is_connected s q))"
        "conns s' = conns s"
        "m_deqConnections s' = take (Suc i) ?xs
           @ map (\<lambda>q. if is_connected s q then q else None) (drop (Suc i) ?xs)"
      using Suc.IH [of "Suc i" s b] Suc.prems by auto
    moreover have "broadcast_one s m ignore ?q =
        (if ?q \<noteq> ignore then [Conn_effect (the ?q) (Post_send m)] else [])"
      using True by (simp add: broadcast_one_def)
    ultimately show ?thesis
      using True i by (simp add: split on_conn_Send take_Suc_conv_app_nth Let_def)
  next
    case False
    let ?s1 = "(fst (dis ?q s))\<lparr>m_deqConnections := (m_deqConnections (fst (dis ?q s)))[i := None]\<rparr>"
    have c1: "conns ?s1 = conns s" and d1: "m_deqConnections ?s1 = ?xs[i := None]"
      by (simp_all add: keeps_conns keeps_deq)
    have drop1: "drop (Suc i) (?xs[i := None]) = drop (Suc i) ?xs" by simp
    have conn1: "is_connected ?s1 = is_connected s" using is_connected_cong [OF c1] by blast
    have eff1: "broadcast_one ?s1 m ignore = broadcast_one s m ignore"
      by (rule ext) (simp only: broadcast_one_def conn1 effects_by_conns [OF c1])
    obtain s' where s': "message_all_loop dis m ignore todo (Suc i) True ?s1 =
          ((s', concat (map (broadcast_one s m ignore) (drop (Suc i) ?xs))), True)"
        "conns s' = conns s"
        "m_deqConnections s' = take (Suc i) (?xs[i := None])
           @ map (\<lambda>q. if is_connected s q then q else None) (drop (Suc i) ?xs)"
      using Suc.IH [of "Suc i" ?s1 True] Suc.prems
      unfolding c1 conn1 eff1 by (auto simp: keeps_deq)
    have "take (Suc i) (?xs[i := None]) = take i ?xs @ [None]"
      using i by (simp add: take_Suc_conv_app_nth)
    moreover have "broadcast_one s m ignore ?q = snd (dis ?q s)"
      using False by (simp add: broadcast_one_def)
    moreover have "andthen (dis ?q s) (\<lambda>s'. (s'\<lparr>m_deqConnections := (m_deqConnections s')[i := None]\<rparr>, []))
        = (?s1, snd (dis ?q s))"
      by (simp add: andthen_def split: prod.splits)
    ultimately show ?thesis
      using False i s' by (simp add: split Let_def)
  qed
qed

lemma removeAll_dead:
  "removeAll None (map (\<lambda>q. if is_connected s q then q else None) xs) = filter (is_connected s) xs"
  by (induction xs) (auto dest: is_connected_Some)

lemma MessageAllClients_result:
  "\<exists>s'. MessageAllClients dis m ignore s =
          (s', concat (map (broadcast_one s m ignore) (m_deqConnections s)))
      \<and> conns s' = conns s \<and> m_deqConnections s' = filter (is_connected s) (m_deqConnections s)"
proof -
  let ?xs = "m_deqConnections s"
  obtain s' where s': "message_all_loop dis m ignore (length ?xs) 0 False s =
        ((s', concat (map (broadcast_one s m ignore) ?xs)), \<exists>q \<in> set ?xs. \<not> is_connected s q)"
      "conns s' = conns s"
      "m_deqConnections s' = map (\<lambda>q. if is_connected s q then q else None) ?xs"
    using loop_result [of 0 "length ?xs" s m ignore False] by auto
  show ?thesis
  proof (cases "\<exists>q \<in> set ?xs. \<not> is_connected s q")
    case True
    with s' show ?thesis by (simp add: MessageAllClients_def removeAll_dead)
  next
    case False
    then have "map (\<lambda>q. if is_connected s q then q else None) ?xs = ?xs"
      and "filter (is_connected s) ?xs = ?xs"
      by (auto simp: map_idI filter_id_conv)
    with False s' show ?thesis by (auto simp: MessageAllClients_def)
  qed
qed

lemma MessageClient_live:
  "is_connected s q \<Longrightarrow> MessageClient dis q m s = (s, [Conn_effect (the q) (Post_send m)])"
  by (simp add: MessageClient_def on_conn_Send)

lemma MessageClient_dead:
  assumes "\<not> is_connected s q"
  shows "m_deqConnections (fst (MessageClient dis q m s)) = removeAll None (m_deqConnections s)"
    and "conns (fst (MessageClient dis q m s)) = conns s"
    and "snd (MessageClient dis q m s) = snd (dis q s)"
  using assms keeps_deq [of q s] keeps_conns [of q s]
  by (cases "dis q s", simp add: MessageClient_def)+

end

interpretation base_disconnect: disconnect_handler base_OnClientDisconnect
  by unfold_locales (simp_all add: base_OnClientDisconnect_def)

text \<open>A handler that only reports leaves the whole server alone, up to the removed entries.\<close>

locale reporting_handler = disconnect_handler +
  assumes keeps_state: "fst (dis q s) = s"
begin

lemma loop_state:
  "i + todo = length (m_deqConnections s) \<Longrightarrow>
   fst (fst (message_all_loop dis m ignore todo i b s)) =
     s\<lparr>m_deqConnections := take i (m_deqConnections s)
        @ map (\<lambda>q. if is_connected s q then q else None) (drop i (m_deqConnections s))\<rparr>"
proof (induction todo arbitrary: i b s)
  case 0
  then show ?case by simp
next
  case (Suc todo)
  let ?xs = "m_deqConnections s"
  let ?q = "?xs ! i"
  let ?s1 = "if is_connected s ?q then s else s\<lparr>m_deqConnections := ?xs[i := None]\<rparr>"
  have i: "i < length ?xs" using Suc.prems by simp
  have split: "drop i ?xs = ?q # drop (Suc i) ?xs" using i by (simp add: Cons_nth_drop_Suc)
  have dead: "andthen (dis ?q s) (\<lambda>s'. (s'\<lparr>m_deqConnections := (m_deqConnections s')[i := None]\<rparr>, []))
      = (s\<lparr>m_deqConnections := ?xs[i := None]\<rparr>, snd (dis ?q s))"
    by (simp add: andthen_conv keeps_state)
  have conn1: "is_connected ?s1 = is_connected s"
    by (rule ext, rule is_connected_cong) simp
  have prems1: "Suc i + todo = length (m_deqConnections ?s1)" using Suc.prems by simp
  have drop1: "drop (Suc i) (m_deqConnections ?s1) = drop (Suc i) ?xs" by simp
  have "fst (fst (message_all_loop dis m ignore (Suc todo) i b s)) =
      fst (fst (message_all_loop dis m ignore todo (Suc i) (b \<or> \<not> is_connected s ?q) ?s1))"
  proof (cases "is_connected s ?q")
    case True
    obtain s2 es2 b2 where "message_all_loop dis m ignore todo (Suc i) b s = ((s2, es2), b2)"
      by (metis surj_pair)
    with True i show ?thesis by (simp add: on_conn_Send Let_def)
  next
    case False
    obtain s2 es2 b2 where "message_all_loop dis m ignore todo (Suc i) True
        (s\<lparr>m_deqConnections := ?xs[i := None]\<rparr>) = ((s2, es2), b2)"
      by (metis surj_pair)
    with False i dead show ?thesis by (simp add: Let_def)
  qed
  also have "\<dots> = ?s1\<lparr>m_deqConnections := take (Suc i) (m_deqConnections ?s1)
        @ map (\<lambda>q. if is_connected s q then q else None) (drop (Suc i) ?xs)\<rparr>"
    using Suc.IH [OF prems1, of "b \<or> \<not> is_connected s ?q"] unfolding conn1 drop1 .
  finally show ?case using i split by (auto simp: take_Suc_conv_app_nth)
qed

lemma MessageAllClients_exact:
  "MessageAllClients dis m ignore s =
     (s\<lparr>m_deqConnections := filter (is_connected s) (m_deqConnections s)\<rparr>,
      concat (map (broadcast_one s m ignore) (m_deqConnections s)))"
proof -
  let ?all = "message_all_loop dis m ignore (length (m_deqConnections s)) 0 False s"
  obtain s' where r: "MessageAllClients dis m ignore s =
        (s', concat (map (broadcast_one s m ignore) (m_deqConnections s)))"
      "m_deqConnections s' = filter (is_connected s) (m_deqConnections s)"
    using MessageAllClients_result by blast
  have "\<exists>ds. fst (fst ?all) = s\<lparr>m_deqConnections := ds\<rparr>"
    using loop_state [of 0 "length (m_deqConnections s)" s] by auto
  then have "\<exists>ds. s' = s\<lparr>m_deqConnections := ds\<rparr>"
    using r(1) by (auto simp: MessageAllClients_def Let_def split: prod.splits if_splits)
  with r show ?thesis by auto
qed

lemma MessageClient_dead_exact:
  "\<not> is_connected s q \<Longrightarrow> MessageClient dis q m s =
     (s\<lparr>m_deqConnections := removeAll None (m_deqConnections s)\<rparr>, snd (dis q s))"
  by (simp add: MessageClient_def andthen_conv keeps_state)

end

interpretation base_report: reporting_handler base_OnClientDisconnect
  by unfold_locales (simp add: base_OnClientDisconnect_def)

section \<open>Handing over messages\<close>

text \<open>What \<open>Update\<close> needs of \<open>OnMessage\<close>: it neither reads nor writes the queue.\<close>

fun handle_all ::
  "(nat option \<Rightarrow> message \<Rightarrow> server \<Rightarrow> server_result) \<Rightarrow> owned_message list \<Rightarrow> server \<Rightarrow> server_result" where
  "handle_all f [] s = (s, [])"
| "handle_all f (om # oms) s = andthen (f (remote om) (msg om) s) (handle_all f oms)"

locale message_handler =
  fixes on_msg :: "nat option \<Rightarrow> message \<Rightarrow> server \<Rightarrow> server_result"
  assumes ignores_queue:
    "on_msg r m (s\<lparr>m_qMessagesIn := q\<rparr>) =
       ((fst (on_msg r m s))\<lparr>m_qMessagesIn := q\<rparr>, snd (on_msg r m s))"
begin

lemma handle_all_queue:
  "handle_all on_msg oms (s\<lparr>m_qMessagesIn := q\<rparr>) =
     ((fst (handle_all on_msg oms s))\<lparr>m_qMessagesIn := q\<rparr>, snd (handle_all on_msg oms s))"
  by (induction oms arbitrary: s) (simp_all add: andthen_def ignores_queue split: prod.splits)

lemma update_loop_result:
  "update_loop on_msg nMax n s =
     (let k = min (nMax - n) (length (deqQueue (m_qMessagesIn s)));
          (s', es) = handle_all on_msg (take k (deqQueue (m_qMessagesIn s))) s
      in (s'\<lparr>m_qMessagesIn := \<lparr>deqQueue = drop k (deqQueue (m_qMessagesIn s))\<rparr>\<rparr>, es))"
  if "m_qMessagesIn s = \<lparr>deqQueue = xs\<rparr>"
  using that
proof (induction xs arbitrary: n s)
  case Nil
  then have "update_loop on_msg nMax n s = (s, [])"
    by (simp add: update_loop.simps)
  moreover have "s\<lparr>m_qMessagesIn := \<lparr>deqQueue = []\<rparr>\<rparr> = s" using Nil by (cases s) simp
  ultimately show ?case using Nil by simp
next
  case (Cons om xs)
  show ?case
  proof (cases "n < nMax")
    case False
    then have "update_loop on_msg nMax n s = (s, [])" by (simp add: update_loop.simps)
    moreover have "s\<lparr>m_qMessagesIn := \<lparr>deqQueue = om # xs\<rparr>\<rparr> = s" using Cons by (cases s) simp
    ultimately show ?thesis using False Cons.prems by simp
  next
    case True
    let ?r = "on_msg (remote om) (msg om) s"
    let ?s1 = "(fst ?r)\<lparr>m_qMessagesIn := \<lparr>deqQueue = xs\<rparr>\<rparr>"
    have step: "update_loop on_msg nMax n s =
        andthen (?s1, snd ?r) (update_loop on_msg nMax (Suc n))"
      using True Cons.prems
      by (subst update_loop.simps) (simp add: tsq_pop_front_def ignores_queue)
    have "min (nMax - n) (Suc (length xs)) = Suc (min (nMax - Suc n) (length xs))"
      using True by simp
    then show ?thesis
      unfolding step using Cons.IH [of ?s1 "Suc n"] Cons.prems
      by (simp add: Let_def handle_all_queue andthen_def split: prod.splits)
  qed
qed

lemma Update_result:
  assumes "\<not> (bWait \<and> tsq_empty (m_qMessagesIn s))"
  shows "Update on_msg nMax bWait s =
    (let k = min nMax (length (deqQueue (m_qMessagesIn s)));
         (s', es) = handle_all on_msg (take k (deqQueue (m_qMessagesIn s))) s
     in Some (s'\<lparr>m_qMessagesIn := \<lparr>deqQueue = drop k (deqQueue (m_qMessagesIn s))\<rparr>\<rparr>, es))"
proof -
  have "m_qMessagesIn s = \<lparr>deqQueue = deqQueue (m_qMessagesIn s)\<rparr>" by (cases "m_qMessagesIn s") simp
  from update_loop_result [OF this, of nMax 0] assms show ?thesis
    by (auto simp: Update_def Let_def split: prod.splits)
qed

end

interpretation base_message: message_handler base_OnMessage
  by unfold_locales (simp add: base_OnMessage_def)

end
