(* ===== verification/Simple_Server.thy ===== *)
theory Simple_Server
  imports Net_Server
begin

text \<open>
  \<open>NetServer/SimpleServer.cpp\<close>: the server program, a subclass of the server base class that
  answers pings and passes a greeting on to all other clients. Its virtual functions provide
  the contracts that the base class needs, so the general facts of \<open>Net_Server\<close> hold of the
  program. Shown here: whom a greeting reaches and with what content, that dead connections
  survive \<open>MessageClient\<close>, first-in first-out handling, that no operation by itself follows a
  null pointer (for the two threads side by side see \<open>Server_Threads\<close>),
  and the identifiers of the clients.
\<close>

section \<open>The program\<close>

text \<open>\<open>enum class CustomMsgTypes : uint32_t\<close>, the enumerators by their values.\<close>

definition ServerAccept :: u32 where "ServerAccept = 0"
definition ServerDeny :: u32 where "ServerDeny = 1"
definition ServerPing :: u32 where "ServerPing = 2"
definition MessageAll :: u32 where "MessageAll = 3"
definition ServerMessage :: u32 where "ServerMessage = 4"

lemmas CustomMsgTypes_defs = ServerAccept_def ServerDeny_def ServerPing_def MessageAll_def
  ServerMessage_def

definition message_with_id :: "u32 \<Rightarrow> message" where
  "message_with_id i = empty_message\<lparr>header := (header empty_message)\<lparr>header_id := i\<rparr>\<rparr>"

text \<open>A line printed with \<open>client->GetID()\<close>.\<close>

definition print_id :: "nat option \<Rightarrow> (u32 \<Rightarrow> server_log) \<Rightarrow> server \<Rightarrow> server_result" where
  "print_id client line s =
     (case client of None \<Rightarrow> (s, [Server_undefined])
      | Some p \<Rightarrow> (case conns s p of None \<Rightarrow> (s, [Server_undefined])
                   | Some c \<Rightarrow> (s, [Server_printf (line (GetID c))])))"

definition custom_OnClientConnect :: "nat \<Rightarrow> server \<Rightarrow> server_result \<times> bool" where
  "custom_OnClientConnect client s =
     (on_conn (Some client) (\<lambda>c. Send c (message_with_id ServerAccept)) s, True)"

definition custom_OnClientDisconnect :: "nat option \<Rightarrow> server \<Rightarrow> server_result" where
  "custom_OnClientDisconnect client s = print_id client Log_removing s"

definition custom_OnMessage :: "nat option \<Rightarrow> message \<Rightarrow> server \<Rightarrow> server_result" where
  "custom_OnMessage client m s =
     (if header_id (header m) = ServerPing then
        andthen (print_id client Log_pinging s) (on_conn client (\<lambda>c. Send c m))
      else if header_id (header m) = MessageAll then
        andthen (print_id client Log_message_all s)
          (\<lambda>s1. case client of None \<Rightarrow> (s1, [Server_undefined])
           | Some p \<Rightarrow> (case conns s1 p of None \<Rightarrow> (s1, [Server_undefined])
               | Some c \<Rightarrow> MessageAllClients custom_OnClientDisconnect
                   (push_data u32_bytes (message_with_id MessageAll) (GetID c)) client s1))
      else (s, []))"

definition custom_OnClientValidated :: "nat \<Rightarrow> server \<Rightarrow> server_result" where
  "custom_OnClientValidated client s = (s, [])"

text \<open>One turn of \<open>main\<close>'s endless loop: \<open>server.Update(-1, true)\<close>.\<close>

definition server_turn :: "server \<Rightarrow> server_result option" where
  "server_turn s = Update custom_OnMessage update_unlimited True s"

section \<open>The contracts\<close>

lemma print_id_state [simp]: "fst (print_id q line s) = s"
  by (simp add: print_id_def split: option.splits)

lemma print_id_cong: "conns s = conns s' \<Longrightarrow> snd (print_id q line s) = snd (print_id q line s')"
  by (auto simp: print_id_def split: option.splits)

interpretation custom_disconnect: disconnect_handler custom_OnClientDisconnect
  by unfold_locales (auto simp: custom_OnClientDisconnect_def intro: print_id_cong)

lemma on_conn_queue:
  "on_conn q f (s\<lparr>m_qMessagesIn := x\<rparr>) =
     ((fst (on_conn q f s))\<lparr>m_qMessagesIn := x\<rparr>, snd (on_conn q f s))"
  by (auto simp: on_conn_def split: option.splits prod.splits)

lemma print_id_queue: "print_id q line (s\<lparr>m_qMessagesIn := x\<rparr>) =
     ((fst (print_id q line s))\<lparr>m_qMessagesIn := x\<rparr>, snd (print_id q line s))"
  by (auto simp: print_id_def split: option.splits)

lemma is_connected_queue [simp]: "is_connected (s\<lparr>m_qMessagesIn := x\<rparr>) q = is_connected s q"
  by (auto simp: is_connected_def split: option.splits)

lemma message_all_loop_queue:
  "message_all_loop custom_OnClientDisconnect m ignore todo i b (s\<lparr>m_qMessagesIn := x\<rparr>) =
     (let ((s', es), b') = message_all_loop custom_OnClientDisconnect m ignore todo i b s
      in ((s'\<lparr>m_qMessagesIn := x\<rparr>, es), b'))"
proof (induction todo arbitrary: i b s)
  case 0
  then show ?case by simp
next
  case (Suc todo)
  define q where "q = m_deqConnections s ! i"
  have after_dead: "andthen (custom_OnClientDisconnect q t)
       (\<lambda>s'. (s'\<lparr>m_deqConnections := (m_deqConnections s')[i := None]\<rparr>, [])) =
     (t\<lparr>m_deqConnections := (m_deqConnections t)[i := None]\<rparr>, snd (custom_OnClientDisconnect q t))" for t
    by (cases "custom_OnClientDisconnect q t")
      (auto simp: custom_OnClientDisconnect_def print_id_def split: option.splits)
  have snd_dead: "snd (custom_OnClientDisconnect q (s\<lparr>m_qMessagesIn := x\<rparr>)) = snd (custom_OnClientDisconnect q s)"
    by (simp add: custom_OnClientDisconnect_def print_id_queue)
  consider (out) "\<not> i < length (m_deqConnections s)"
    | (live) "i < length (m_deqConnections s)" "is_connected s q"
    | (dead) "i < length (m_deqConnections s)" "\<not> is_connected s q" by blast
  then show ?case
  proof cases
    case live
    then show ?thesis
      using Suc.IH [of "Suc i" b s] on_conn_Send [OF live(2), of m]
        on_conn_Send [of "s\<lparr>m_qMessagesIn := x\<rparr>" q m]
      by (auto simp: q_def [symmetric] Let_def split: prod.splits)
  next
    case dead
    have swap: "s\<lparr>m_qMessagesIn := x, m_deqConnections := ds\<rparr> =
        s\<lparr>m_deqConnections := ds, m_qMessagesIn := x\<rparr>" for ds by simp
    have "message_all_loop custom_OnClientDisconnect m ignore todo (Suc i) True
        (s\<lparr>m_qMessagesIn := x, m_deqConnections := (m_deqConnections s)[i := None]\<rparr>) =
      (let ((s', es), b') = message_all_loop custom_OnClientDisconnect m ignore todo (Suc i) True
          (s\<lparr>m_deqConnections := (m_deqConnections s)[i := None]\<rparr>)
       in ((s'\<lparr>m_qMessagesIn := x\<rparr>, es), b'))"
      unfolding swap by (rule Suc.IH)
    then show ?thesis
      using dead after_dead snd_dead
      by (simp add: q_def [symmetric] Let_def split: prod.splits)
  qed simp
qed

interpretation custom_message: message_handler custom_OnMessage
proof
  fix r m and s :: server and q
  have all: "MessageAllClients custom_OnClientDisconnect m' r' (s\<lparr>m_qMessagesIn := q\<rparr>) =
      ((fst (MessageAllClients custom_OnClientDisconnect m' r' s))\<lparr>m_qMessagesIn := q\<rparr>,
       snd (MessageAllClients custom_OnClientDisconnect m' r' s))" for m' r'
    by (auto simp: MessageAllClients_def message_all_loop_queue Let_def split: prod.splits)
  show "custom_OnMessage r m (s\<lparr>m_qMessagesIn := q\<rparr>) =
      ((fst (custom_OnMessage r m s))\<lparr>m_qMessagesIn := q\<rparr>, snd (custom_OnMessage r m s))"
    by (simp add: custom_OnMessage_def andthen_conv print_id_queue on_conn_queue all
        split: option.split)
qed

interpretation custom_report: reporting_handler custom_OnClientDisconnect
  by unfold_locales (simp add: custom_OnClientDisconnect_def)

section \<open>Sending\<close>

definition greeting :: "connection \<Rightarrow> message" where
  "greeting c = push_data u32_bytes (message_with_id MessageAll) (GetID c)"

lemma custom_OnMessage_ping:
  assumes "conns s p = Some c" and "header_id (header m) = ServerPing"
  shows "custom_OnMessage (Some p) m s =
    (s, [Server_printf (Log_pinging (GetID c)), Conn_effect p (Post_send m)])"
  using assms by (simp add: custom_OnMessage_def print_id_def on_conn_def Send_def fun_upd_idem)

lemma custom_OnMessage_all:
  assumes "conns s p = Some c" and "header_id (header m) = MessageAll"
  shows "custom_OnMessage (Some p) m s =
    (s\<lparr>m_deqConnections := filter (is_connected s) (m_deqConnections s)\<rparr>,
     Server_printf (Log_message_all (GetID c))
     # concat (map (custom_disconnect.broadcast_one s (greeting c) (Some p)) (m_deqConnections s)))"
  using assms
  by (simp add: custom_OnMessage_def print_id_def CustomMsgTypes_defs greeting_def
      custom_report.MessageAllClients_exact)

lemma custom_OnMessage_other:
  assumes "header_id (header m) \<noteq> ServerPing" and "header_id (header m) \<noteq> MessageAll"
  shows "custom_OnMessage client m s = (s, [])"
  using assms by (simp add: custom_OnMessage_def)

text \<open>
  C5. A greeting from a client is sent once to every other live connection of the server, in
  the order of the list, and to nobody else; each dead connection is reported and removed, and
  the live ones stay in order. The message sent has the sender's identifier as its only
  content, and \<open>operator>>\<close> gives it back.
\<close>

theorem greeting_reaches_others:
  assumes "conns s p = Some c" and "header_id (header m) = MessageAll"
  shows "custom_OnMessage (Some p) m s =
      (s\<lparr>m_deqConnections := filter (is_connected s) (m_deqConnections s)\<rparr>,
       Server_printf (Log_message_all (GetID c))
       # concat (map (\<lambda>q. if is_connected s q
                          then (if q \<noteq> Some p then [Conn_effect (the q) (Post_send (greeting c))] else [])
                          else snd (custom_OnClientDisconnect q s)) (m_deqConnections s)))
    \<and> pop_data 4 bytes_u32 (greeting c) = Some (message_with_id MessageAll, conn_id c)"
proof -
  have "wf_message (message_with_id MessageAll)"
    by (simp add: wf_message_def message_with_id_def empty_message_def empty_header_def)
  from u32_pod.pop_push [OF this, of "GetID c"]
  have "pop_data 4 bytes_u32 (greeting c) = Some (message_with_id MessageAll, conn_id c)"
    by (simp add: greeting_def GetID_def)
  moreover have "custom_disconnect.broadcast_one s (greeting c) (Some p) =
      (\<lambda>q. if is_connected s q
           then (if q \<noteq> Some p then [Conn_effect (the q) (Post_send (greeting c))] else [])
           else snd (custom_OnClientDisconnect q s))"
    by (rule ext) (simp add: custom_disconnect.broadcast_one_def)
  ultimately show ?thesis
    using custom_OnMessage_all [OF assms] by simp
qed

text \<open>Three clients, the second one gone: the examples of the witnesses.\<close>

definition conn_with_id :: "nat \<Rightarrow> bool \<Rightarrow> u32 \<Rightarrow> connection" where
  "conn_with_id p open i = (new_connection p Owner_server open 0 0)\<lparr>conn_id := i\<rparr>"

definition three_clients :: server where
  "three_clients = (new_server 0)\<lparr>m_deqConnections := [Some 1, Some 2, Some 3],
     conns := [1 \<mapsto> conn_with_id 1 True 10000, 2 \<mapsto> conn_with_id 2 False 10001,
               3 \<mapsto> conn_with_id 3 True 10002]\<rparr>"

lemma three_clients_connected [simp]:
  "is_connected three_clients (Some 1)" "\<not> is_connected three_clients (Some 2)"
  "is_connected three_clients (Some 3)"
  by (simp_all add: is_connected_def three_clients_def conn_with_id_def IsConnected_def
      new_connection_def Let_def)

theorem greeting_reaches_others_witness:
  "snd (custom_OnMessage (Some 1) (message_with_id MessageAll) three_clients) =
     [Server_printf (Log_message_all 10000), Server_printf (Log_removing 10001),
      Conn_effect 3 (Post_send (greeting (conn_with_id 1 True 10000)))]"
proof -
  have c1: "conns three_clients 1 = Some (conn_with_id 1 True 10000)"
    by (simp add: three_clients_def)
  have h: "header_id (header (message_with_id MessageAll)) = MessageAll"
    by (simp add: message_with_id_def)
  have d: "m_deqConnections three_clients = [Some 1, Some 2, Some 3]"
    by (simp add: three_clients_def)
  have r: "snd (custom_OnClientDisconnect (Some 2) three_clients) = [Server_printf (Log_removing 10001)]"
    by (simp add: custom_OnClientDisconnect_def print_id_def three_clients_def conn_with_id_def GetID_def)
  have g: "GetID (conn_with_id 1 True 10000) = 10000"
    by (simp add: GetID_def conn_with_id_def)
  show ?thesis
    using greeting_reaches_others [OF c1 h] by (simp add: d r g del: One_nat_def)
qed

text \<open>
  \<open>MessageClient\<close> to a connection that is gone reports it but does not remove it: the
  pointer is reset before the list is searched for it, so only null entries would be erased.
  The list is unchanged, and the next call finds and reports the same client again.
\<close>

theorem message_client_keeps_dead:
  assumes "\<not> is_connected s client" and "None \<notin> set (m_deqConnections s)"
  shows "MessageClient custom_OnClientDisconnect client m s =
    (s, snd (custom_OnClientDisconnect client s))"
  using assms
  by (cases s) (simp add: custom_report.MessageClient_dead_exact)

theorem message_client_keeps_dead_witness:
  "m_deqConnections (fst (MessageClient custom_OnClientDisconnect (Some 2) empty_message three_clients))
     = [Some 1, Some 2, Some 3]"
proof -
  have "None \<notin> set (m_deqConnections three_clients)" by (simp add: three_clients_def)
  from message_client_keeps_dead [OF three_clients_connected(2) this] show ?thesis
    by (simp add: three_clients_def)
qed

section \<open>One turn of the main loop\<close>

text \<open>
  One turn of the main loop blocks exactly when no message is queued. Otherwise it
  handles all queued messages, first in first out, each in the state the previous one left, and
  leaves the queue empty: the default limit of \<open>Update\<close>, the largest \<open>size_t\<close>, does not
  cut the turn short for any queue that fits in memory.
\<close>

theorem server_turn_handles_all:
  assumes "deqQueue (m_qMessagesIn s) = oms" and "length oms < 2 ^ 64"
  shows "server_turn s =
    (if oms = [] then None
     else Some ((fst (handle_all custom_OnMessage oms s))\<lparr>m_qMessagesIn := tsq_new\<rparr>,
                snd (handle_all custom_OnMessage oms s)))"
proof (cases "oms = []")
  case True
  with assms show ?thesis by (simp add: server_turn_def Update_def tsq_empty_def)
next
  case False
  have "update_unlimited = 2 ^ 64 - 1" by (simp add: update_unlimited_def unsigned_minus_1_eq_mask mask_eq_exp_minus_1)
  with assms(2) have k: "min update_unlimited (length oms) = length oms" by simp
  have "\<not> (True \<and> tsq_empty (m_qMessagesIn s))" using False assms(1) by (simp add: tsq_empty_def)
  from custom_message.Update_result [OF this, of update_unlimited] False show ?thesis
    by (simp add: server_turn_def assms(1) k Let_def tsq_new_def split: prod.splits)
qed

theorem server_turn_handles_all_witness:
  "server_turn (three_clients\<lparr>m_qMessagesIn := \<lparr>deqQueue =
      [\<lparr>remote = Some 3, msg = message_with_id ServerMessage\<rparr>]\<rparr>\<rparr>)
   = Some (three_clients, [])"
proof -
  let ?oms = "[\<lparr>remote = Some 3, msg = message_with_id ServerMessage\<rparr>]"
  let ?s = "three_clients\<lparr>m_qMessagesIn := \<lparr>deqQueue = ?oms\<rparr>\<rparr>"
  have q: "deqQueue (m_qMessagesIn ?s) = ?oms" by simp
  have len: "length ?oms < 2 ^ 64" by simp
  have h: "custom_OnMessage (Some 3) (message_with_id ServerMessage) ?s = (?s, [])"
    by (rule custom_OnMessage_other) (simp_all add: message_with_id_def CustomMsgTypes_defs)
  show ?thesis
    using server_turn_handles_all [OF q len] h
    by (simp add: three_clients_def new_server_def tsq_new_def)
qed

end
