(* ===== verification/Server_Run.thy ===== *)
theory Server_Run
  imports Simple_Server "HOL-Library.Sublist"
begin

text \<open>
  The server program as a whole: the runs of \<open>SimpleServer.cpp\<close>, in which the io_context
  completes accepts, reads and writes and runs posted functions, and the main loop calls
  \<open>Update\<close>, in any order. A call of \<open>Update\<close> is one step here, and objects are never
  destroyed: what the two threads do to each other in the middle of a call is in
  \<open>Server_Threads\<close>. Shown here: the identifiers given to clients, which only the io_context
  thread assigns, are consecutive and distinct until the counter wraps.
\<close>

section \<open>Runs\<close>

text \<open>The owner's part of a connection handler: \<open>Push_in\<close> appends to \<open>m_qMessagesIn\<close>.\<close>

fun deliver :: "conn_effect list \<Rightarrow> server \<Rightarrow> server" where
  "deliver [] s = s"
| "deliver (Push_in om # es) s =
     deliver es (s\<lparr>m_qMessagesIn := tsq_push_back (m_qMessagesIn s) om\<rparr>)"
| "deliver (_ # es) s = deliver es s"

definition conn_turn ::
  "nat \<Rightarrow> (connection \<Rightarrow> connection \<times> conn_effect list) \<Rightarrow> server \<Rightarrow> server_result" where
  "conn_turn p f s =
     (case conns s p of None \<Rightarrow> (s, [])
      | Some c \<Rightarrow> (let (c', es) = f c
                   in (deliver es (s\<lparr>conns := (conns s)(p := Some c')\<rparr>), map (Conn_effect p) es)))"

text \<open>What the io_context runs on the object of one client.\<close>

datatype conn_event =
    Completed_read read_op error_code "byte list"
  | Completed_write write_op error_code
  | Posted_send message
  | Posted_close

fun handle_event :: "conn_event \<Rightarrow> connection \<Rightarrow> connection \<times> conn_effect list" where
  "handle_event (Completed_read op ec bytes) c = on_read op c ec bytes"
| "handle_event (Completed_write op ec) c = on_write op c ec"
| "handle_event (Posted_send m) c = on_Send c m"
| "handle_event Posted_close c = (on_Disconnect c, [])"

inductive server_run :: "server \<Rightarrow> server_effect list \<Rightarrow> bool" where
  run_start: "server_run (new_server this) []"
| run_accept: "server_run s es \<Longrightarrow> conns s p = None \<Longrightarrow>
    on_accept custom_OnClientConnect p now rnd ec ep s = (s', es') \<Longrightarrow> server_run s' (es @ es')"
| run_conn: "server_run s es \<Longrightarrow> conn_turn p (handle_event ev) s = (s', es') \<Longrightarrow>
    server_run s' (es @ es')"
| run_turn: "server_run s es \<Longrightarrow> server_turn s = Some (s', es') \<Longrightarrow> server_run s' (es @ es')"

section \<open>The invariant\<close>

fun approved_id :: "server_effect \<Rightarrow> u32 list" where
  "approved_id (Server_printf (Log_approved i)) = [i]"
| "approved_id _ = []"

definition approved :: "server_effect list \<Rightarrow> u32 list" where
  "approved es = concat (map approved_id es)"

definition entry_id :: "server \<Rightarrow> nat option \<Rightarrow> u32" where
  "entry_id s q = conn_id (the (conns s (the q)))"

text \<open>A pointer to an object of the server.\<close>

definition known :: "server \<Rightarrow> nat option \<Rightarrow> bool" where
  "known s q \<longleftrightarrow> (\<exists>p c. q = Some p \<and> conns s p = Some c)"

definition server_ok :: "server \<Rightarrow> server_effect list \<Rightarrow> bool" where
  "server_ok s es \<longleftrightarrow>
     (\<forall>q \<in> set (m_deqConnections s). known s q) \<and>
     (\<forall>om \<in> set (deqQueue (m_qMessagesIn s)). known s (remote om)) \<and>
     (\<forall>p c. conns s p = Some c \<longrightarrow> conn_self c = p \<and> m_nOwnerType c = Owner_server) \<and>
     Server_undefined \<notin> set es \<and>
     nIDCounter s = 10000 + of_nat (length (approved es)) \<and>
     approved es = map (\<lambda>k. 10000 + of_nat k) [0..<length (approved es)] \<and>
     subseq (map (entry_id s) (m_deqConnections s)) (approved es)"

lemma approved_simps [simp]:
  "approved [] = []" "approved (es @ es') = approved es @ approved es'"
  "approved (e # es) = approved_id e @ approved es"
  by (simp_all add: approved_def)

lemma approved_conn [simp]: "approved (map (Conn_effect p) es) = []"
  by (induction es) simp_all

lemma known_cong: "conns s' = conns s \<Longrightarrow> known s' = known s"
  by (simp add: known_def fun_eq_iff)

lemma entry_id_cong: "conns s' = conns s \<Longrightarrow> entry_id s' = entry_id s"
  by (simp add: entry_id_def fun_eq_iff)

lemma server_ok_quiet:
  assumes "server_ok s es" and "conns s' = conns s" and "nIDCounter s' = nIDCounter s"
    and "subseq (m_deqConnections s') (m_deqConnections s)"
    and "set (deqQueue (m_qMessagesIn s')) \<subseteq> set (deqQueue (m_qMessagesIn s))"
    and "Server_undefined \<notin> set es'" and "approved es' = []"
  shows "server_ok s' (es @ es')"
proof -
  have "subseq (map (entry_id s) (m_deqConnections s')) (approved es)"
    using assms(1,4) subseq_map subseq_order.order_trans by (metis server_ok_def)
  moreover have "set (m_deqConnections s') \<subseteq> set (m_deqConnections s)"
    using assms(4) by (auto simp: subseq_conv_nths dest: in_set_nthsD)
  ultimately show ?thesis
    using assms unfolding server_ok_def known_cong [OF assms(2)] entry_id_cong [OF assms(2)]
    by (auto 0 3)
qed

section \<open>Connection handlers keep it\<close>

definition same_client :: "connection \<Rightarrow> connection \<Rightarrow> bool" where
  "same_client c c' \<longleftrightarrow>
     conn_self c' = conn_self c \<and> m_nOwnerType c' = m_nOwnerType c \<and> conn_id c' = conn_id c"

text \<open>A handler that keeps the identity of the object and pushes only messages with its pointer.\<close>

definition owned_result :: "connection \<Rightarrow> connection \<times> conn_effect list \<Rightarrow> bool" where
  "owned_result c r \<longleftrightarrow> same_client c (fst r) \<and>
     (\<forall>om. Push_in om \<in> set (snd r) \<longrightarrow> m_nOwnerType c = Owner_server \<longrightarrow>
        remote om = Some (conn_self c))"

lemmas owned_simps = owned_result_def same_client_def close_socket_def store_header_def
  store_body_def Let_def

lemma owned_read: "owned_result c (on_read op c ec bytes)"
  by (cases op)
    (auto simp: owned_simps on_ReadHeader_def on_ReadBody_def on_ReadValidation_def ReadBody_def
      ReadHeader_def AddToIncomingMessageQueue_def WriteValidation_def split: option.splits)

lemma owned_WriteHeader: "owned_result c (WriteHeader c)"
  by (simp add: WriteHeader_def owned_simps split: option.splits)

lemma owned_next: "owned_result c (next_message c)"
  by (auto simp: next_message_def WriteHeader_def owned_simps split: option.splits)

lemma owned_write: "owned_result c (on_write op c ec)"
proof (cases op)
  case Write_header
  have "owned_result c (WriteBody c)"
    by (simp add: WriteBody_def owned_simps split: option.splits)
  with Write_header owned_next show ?thesis
    by (auto simp: on_WriteHeader_def owned_simps split: option.splits)
next
  case Write_body
  with owned_next show ?thesis by (auto simp: on_WriteBody_def owned_simps)
next
  case Write_validation
  then show ?thesis by (simp add: on_WriteValidation_def ReadHeader_def owned_simps)
qed

lemma owned_event: "owned_result c (handle_event ev c)"
proof (cases ev)
  case (Posted_send m)
  then show ?thesis by (auto simp: on_Send_def WriteHeader_def owned_simps split: option.splits)
next
  case Posted_close
  then show ?thesis by (simp add: on_Disconnect_def owned_simps)
qed (simp_all add: owned_read owned_write)

lemma deliver_fields [simp]:
  "conns (deliver es s) = conns s" "m_deqConnections (deliver es s) = m_deqConnections s"
  "nIDCounter (deliver es s) = nIDCounter s"
  by (induction es s rule: deliver.induct) simp_all

lemma deliver_queue:
  "om \<in> set (deqQueue (m_qMessagesIn (deliver es s))) \<longleftrightarrow>
     om \<in> set (deqQueue (m_qMessagesIn s)) \<or> Push_in om \<in> set es"
  by (induction es s rule: deliver.induct) auto

lemma server_ok_update_conn:
  assumes ok: "server_ok s es" and c: "conns s p = Some c" and own: "owned_result c (c', ces)"
  shows "server_ok (deliver ces (s\<lparr>conns := (conns s)(p := Some c')\<rparr>)) (es @ map (Conn_effect p) ces)"
proof -
  let ?s' = "deliver ces (s\<lparr>conns := (conns s)(p := Some c')\<rparr>)"
  have self: "conn_self c = p" "m_nOwnerType c = Owner_server" using ok c by (simp_all add: server_ok_def)
  have k: "known ?s' = known s" using c by (auto simp: known_def fun_eq_iff)
  have e: "entry_id ?s' = entry_id s"
    using c own by (auto simp: entry_id_def fun_eq_iff owned_result_def same_client_def)
  have "known s (remote om)" if "om \<in> set (deqQueue (m_qMessagesIn ?s'))" for om
  proof -
    from that consider "om \<in> set (deqQueue (m_qMessagesIn s))" | "Push_in om \<in> set ces"
      by (auto simp: deliver_queue)
    then show ?thesis
    proof cases
      case 1
      then show ?thesis using ok by (simp add: server_ok_def)
    next
      case 2
      then have "remote om = Some p" using own self by (simp add: owned_result_def)
      then show ?thesis using c by (simp add: known_def)
    qed
  qed
  note queue = this
  have objects: "conn_self d = r \<and> m_nOwnerType d = Owner_server" if "conns ?s' r = Some d" for r d
    using that ok own self by (auto simp: server_ok_def owned_result_def same_client_def split: if_splits)
  have "approved (es @ map (Conn_effect p) ces) = approved es" by simp
  moreover have "Server_undefined \<notin> set (es @ map (Conn_effect p) ces)"
    using ok by (auto simp: server_ok_def)
  moreover have "m_deqConnections ?s' = m_deqConnections s" "nIDCounter ?s' = nIDCounter s" by simp_all
  ultimately show ?thesis
    using ok queue objects unfolding server_ok_def k e by metis
qed

lemma server_ok_conn_turn:
  assumes "server_ok s es"
  shows "server_ok (fst (conn_turn p (handle_event ev) s)) (es @ snd (conn_turn p (handle_event ev) s))"
proof (cases "conns s p")
  case None
  with assms show ?thesis by (simp add: conn_turn_def)
next
  case (Some c)
  obtain c' ces where r: "handle_event ev c = (c', ces)" by fastforce
  with owned_event [of c ev] have "owned_result c (c', ces)" by simp
  from server_ok_update_conn [OF assms Some this] Some r show ?thesis
    by (simp add: conn_turn_def)
qed

section \<open>The main loop keeps it\<close>

lemma disconnect_quiet:
  assumes "known s q"
  shows "Server_undefined \<notin> set (snd (custom_OnClientDisconnect q s))"
    and "approved (snd (custom_OnClientDisconnect q s)) = []"
  using assms by (auto simp: known_def custom_OnClientDisconnect_def print_id_def)

lemma broadcast_quiet:
  assumes "\<forall>q \<in> set qs. known s q"
  shows "Server_undefined \<notin> set (concat (map (custom_disconnect.broadcast_one s m ig) qs))"
    and "approved (concat (map (custom_disconnect.broadcast_one s m ig) qs)) = []"
  using assms
  by (induction qs) (auto simp: custom_disconnect.broadcast_one_def disconnect_quiet)

lemma server_ok_message:
  assumes ok: "server_ok s es" and q: "known s q"
  shows "server_ok (fst (custom_OnMessage q m s)) (es @ snd (custom_OnMessage q m s))"
    and "conns (fst (custom_OnMessage q m s)) = conns s"
proof -
  obtain p c where c: "q = Some p" "conns s p = Some c" using q by (auto simp: known_def)
  have known: "\<forall>q \<in> set (m_deqConnections s). known s q" using ok by (simp add: server_ok_def)
  let ?r = "custom_OnMessage q m s"
  have "conns (fst ?r) = conns s \<and> nIDCounter (fst ?r) = nIDCounter s \<and>
      m_qMessagesIn (fst ?r) = m_qMessagesIn s \<and>
      subseq (m_deqConnections (fst ?r)) (m_deqConnections s) \<and>
      Server_undefined \<notin> set (snd ?r) \<and> approved (snd ?r) = []"
  proof -
    consider (ping) "header_id (header m) = ServerPing" | (all) "header_id (header m) = MessageAll"
      | (other) "header_id (header m) \<noteq> ServerPing" "header_id (header m) \<noteq> MessageAll" by blast
    then show ?thesis
    proof cases
      case ping
      then show ?thesis using c by (simp add: custom_OnMessage_ping)
    next
      case all
      then show ?thesis
        using c broadcast_quiet [OF known] by (simp add: custom_OnMessage_all)
    next
      case other
      then show ?thesis by (simp add: custom_OnMessage_other)
    qed
  qed
  with ok show "server_ok (fst ?r) (es @ snd ?r)" and "conns (fst ?r) = conns s"
    by (auto intro: server_ok_quiet)
qed

lemma server_ok_handle_all:
  assumes "server_ok s es" and "\<forall>om \<in> set oms. known s (remote om)"
  shows "server_ok (fst (handle_all custom_OnMessage oms s))
           (es @ snd (handle_all custom_OnMessage oms s))"
  using assms
proof (induction oms arbitrary: s es)
  case Nil
  then show ?case by simp
next
  case (Cons om oms)
  let ?r = "custom_OnMessage (remote om) (msg om) s"
  have k: "known s (remote om)" using Cons.prems by simp
  have "server_ok (fst ?r) (es @ snd ?r)" by (rule server_ok_message(1) [OF Cons.prems(1) k])
  moreover have "\<forall>om \<in> set oms. known (fst ?r) (remote om)"
    using Cons.prems known_cong [OF server_ok_message(2) [OF Cons.prems(1) k]] by simp
  ultimately show ?case
    using Cons.IH [of "fst ?r" "es @ snd ?r"] by (simp add: andthen_conv)
qed

lemma server_ok_turn:
  assumes ok: "server_ok s es" and turn: "server_turn s = Some (s', es')"
  shows "server_ok s' (es @ es')"
proof -
  let ?oms = "deqQueue (m_qMessagesIn s)"
  define k where "k = min update_unlimited (length ?oms)"
  let ?r = "handle_all custom_OnMessage (take k ?oms) s"
  have "\<not> (True \<and> tsq_empty (m_qMessagesIn s))"
    using turn by (auto simp: server_turn_def Update_def split: if_splits)
  from custom_message.Update_result [OF this, of update_unlimited] turn
  have r: "s' = (fst ?r)\<lparr>m_qMessagesIn := \<lparr>deqQueue = drop k ?oms\<rparr>\<rparr>" "es' = snd ?r"
    by (simp_all add: server_turn_def k_def Let_def split: prod.splits)
  have "\<forall>om \<in> set (take k ?oms). known s (remote om)"
    using ok by (auto simp: server_ok_def dest: in_set_takeD)
  from server_ok_handle_all [OF ok this] have ok': "server_ok (fst ?r) (es @ snd ?r)" .
  have "s\<lparr>m_qMessagesIn := m_qMessagesIn s\<rparr> = s" by simp
  then have "m_qMessagesIn (fst ?r) = m_qMessagesIn s"
    using arg_cong [OF custom_message.handle_all_queue [where oms = "take k ?oms" and s = s
        and q = "m_qMessagesIn s"], of "\<lambda>r. m_qMessagesIn (fst r)"] by simp
  then have "server_ok s' ((es @ snd ?r) @ [])"
    unfolding r(1) using ok' by (intro server_ok_quiet [OF ok']) (auto dest: in_set_dropD)
  then show ?thesis using r(2) by simp
qed

section \<open>Accepting keeps it\<close>

lemma server_ok_accept:
  assumes ok: "server_ok s es" and fresh: "conns s p = None"
  shows "server_ok (fst (on_accept custom_OnClientConnect p now rnd ec ep s))
           (es @ snd (on_accept custom_OnClientConnect p now rnd ec ep s))"
proof (cases "failed ec \<or> ep = None")
  case True
  then show ?thesis
    using ok by (auto simp: on_accept_def WaitForClientConnection_def split: option.splits
        intro!: server_ok_quiet)
next
  case False
  then obtain e where e: "\<not> failed ec" "ep = Some e" by auto
  define c where "c = new_connection p Owner_server True now rnd"
  define c' where "c' = c\<lparr>conn_id := nIDCounter s\<rparr>"
  define s1 where "s1 = s\<lparr>conns := (conns s)(p := Some c')\<rparr>"
  have cf: "conn_self c = p" "m_nOwnerType c = Owner_server" "m_socket c"
    by (simp_all add: c_def new_connection_def Let_def)
  let ?r = "on_accept custom_OnClientConnect p now rnd ec ep s"
  let ?n = "length (approved es)"
  have st: "fst ?r = s1\<lparr>m_deqConnections := m_deqConnections s @ [Some p], nIDCounter := nIDCounter s + 1\<rparr>"
    and ef: "Server_undefined \<notin> set (snd ?r)" and ap: "approved (snd ?r) = [nIDCounter s]"
    using e cf by (simp_all add: on_accept_def custom_OnClientConnect_def c_def [symmetric] on_conn_def
        Send_def ConnectToClient_def WriteValidation_def ReadValidation_def GetID_def s1_def c'_def
        WaitForClientConnection_def Let_def)
  have known: "known s q \<Longrightarrow> known (fst ?r) q" "known (fst ?r) (Some p)" for q
    by (auto simp: known_def st s1_def)
  have id: "known s q \<Longrightarrow> entry_id (fst ?r) q = entry_id s q" for q
    using fresh by (auto simp: known_def entry_id_def st s1_def)
  have deq: "\<forall>q \<in> set (m_deqConnections s). known s q" using ok by (simp add: server_ok_def)
  have "map (entry_id (fst ?r)) (m_deqConnections (fst ?r)) =
      map (entry_id s) (m_deqConnections s) @ [nIDCounter s]"
    using deq id by (simp add: st) (simp add: entry_id_def s1_def c'_def)
  then have sub: "subseq (map (entry_id (fst ?r)) (m_deqConnections (fst ?r))) (approved (es @ snd ?r))"
    using ok ap by (simp add: server_ok_def)
  have nid: "nIDCounter s = 10000 + of_nat ?n" using ok by (simp add: server_ok_def)
  have app: "approved (es @ snd ?r) = map (\<lambda>k. 10000 + of_nat k) [0..<Suc ?n]"
    using ok ap nid by (simp add: server_ok_def)
  show ?thesis
    unfolding server_ok_def
  proof (intro conjI)
    show "\<forall>q \<in> set (m_deqConnections (fst ?r)). known (fst ?r) q"
      using deq known by (auto simp: st)
    show "\<forall>om \<in> set (deqQueue (m_qMessagesIn (fst ?r))). known (fst ?r) (remote om)"
      using ok known by (auto simp: st s1_def server_ok_def)
    show "\<forall>q d. conns (fst ?r) q = Some d \<longrightarrow> conn_self d = q \<and> m_nOwnerType d = Owner_server"
      using ok cf by (auto simp: st s1_def c'_def server_ok_def)
    show "Server_undefined \<notin> set (es @ snd ?r)" using ok ef by (simp add: server_ok_def)
    show "nIDCounter (fst ?r) = 10000 + of_nat (length (approved (es @ snd ?r)))"
      using nid ap by (simp add: st)
    show "approved (es @ snd ?r) = map (\<lambda>k. 10000 + of_nat k) [0..<length (approved (es @ snd ?r))]"
      using app by simp
  qed (rule sub)
qed

lemma server_run_ok: "server_run s es \<Longrightarrow> server_ok s es"
proof (induction rule: server_run.induct)
  case (run_start this)
  then show ?case by (simp add: server_ok_def new_server_def)
next
  case (run_accept s es p now rnd ec ep s' es')
  then show ?case using server_ok_accept [OF run_accept.IH, of p now rnd ec ep] by simp
next
  case (run_conn s es p ev s' es')
  then show ?case using server_ok_conn_turn [OF run_conn.IH, of p ev] by simp
next
  case (run_turn s es s' es')
  then show ?case by (rule_tac server_ok_turn)
qed

section \<open>Distinct clients\<close>

abbreviation first_accept :: server_result where
  "first_accept \<equiv> on_accept custom_OnClientConnect 7 0 0 Success (Some ([127, 0, 0, 1], 60000))
     (new_server 0)"

lemma first_accept_run: "server_run (fst first_accept) (snd first_accept)"
proof -
  have fresh: "conns (new_server 0) 7 = None" by (simp add: new_server_def)
  have pair: "first_accept = (fst first_accept, snd first_accept)" by simp
  show ?thesis using server_run.run_accept [OF server_run.run_start fresh pair] by simp
qed

lemma ids_distinct: "n \<le> 2 ^ 32 \<Longrightarrow> distinct (map (\<lambda>k. 10000 + of_nat k :: u32) [0..<n])"
proof -
  assume n: "n \<le> 2 ^ 32"
  have "k = l" if "k < n" "l < n" "(of_nat k :: u32) = of_nat l" for k l
  proof -
    have "unat (of_nat k :: u32) = k" "unat (of_nat l :: u32) = l"
      using that(1,2) n by (simp_all add: unat_of_nat)
    with that(3) show ?thesis by metis
  qed
  then show ?thesis by (auto simp: distinct_map inj_on_def)
qed

text \<open>
  C8. The identifiers given to accepted clients are 10000, 10001, and so on, wrapping at
  \<open>2 ^ 32\<close>. Up to \<open>2 ^ 32\<close> accepted clients, no two connections of the list have the same
  one, however many came and went in between.
\<close>

theorem client_ids_consecutive:
  assumes "server_run s es"
  shows "approved es = map (\<lambda>k. 10000 + of_nat k) [0..<length (approved es)]
    \<and> (length (approved es) \<le> 2 ^ 32 \<longrightarrow> distinct (map (entry_id s) (m_deqConnections s)))"
proof -
  have ok: "approved es = map (\<lambda>k. 10000 + of_nat k) [0..<length (approved es)]"
    "subseq (map (entry_id s) (m_deqConnections s)) (approved es)"
    using server_run_ok [OF assms] by (simp_all add: server_ok_def)
  have "distinct (approved es)" if "length (approved es) \<le> 2 ^ 32"
    by (subst ok(1)) (rule ids_distinct [OF that])
  with ok show ?thesis by (auto simp: subseq_conv_nths intro: distinct_nthsI)
qed

theorem client_ids_consecutive_witness: "approved (snd first_accept) = [10000]"
proof -
  have "length (approved (snd first_accept)) = 1"
    by (simp add: on_accept_def custom_OnClientConnect_def on_conn_def Send_def new_server_def
        new_connection_def ConnectToClient_def WriteValidation_def ReadValidation_def
        WaitForClientConnection_def Let_def)
  with client_ids_consecutive [OF first_accept_run] show ?thesis by simp
qed

end
