(* ===== verification/Simple_Client.thy ===== *)
theory Simple_Client
  imports Net_Client Server_Run
begin

text \<open>
  \<open>NetClient/SimpleClient.cpp\<close>: the client program, which polls three keys, sends a ping or
  a greeting, and prints the answers. The keyboard, the window and the clock are inputs of a
  turn of the loop; handlers of the connection run between its statements. Shown here: which
  messages the presses of the keys send, and when the program ends, a ping's round trip through the
  server prints the elapsed time, and which messages make \<open>operator>>\<close> read outside the body
  (none that a server of this program composes itself).
\<close>

section \<open>The program\<close>

datatype app_log =
    Server_accepted
  | Ping_time int
  | Greetings_from u32
  | Server_closed

datatype app_effect =
    Client_act client_effect
  | App_print app_log
  | App_undefined

definition ping_message :: "u64 \<Rightarrow> message" where
  "ping_message timeNow = push_data u64_bytes (message_with_id ServerPing) timeNow"

definition PingServer :: "u64 \<Rightarrow> client \<Rightarrow> client_result" where
  "PingServer timeNow cl = client_Send (ping_message timeNow) cl"

definition client_MessageAll :: "client \<Rightarrow> client_result" where
  "client_MessageAll cl = client_Send (message_with_id MessageAll) cl"

text \<open>The switch over the message; times are tick counts, their difference a signed one.\<close>

definition handle_incoming :: "u64 \<Rightarrow> message \<Rightarrow> app_effect list" where
  "handle_incoming timeNow m =
     (if header_id (header m) = ServerAccept then [App_print Server_accepted]
      else if header_id (header m) = ServerPing then
        (case pop_data 8 bytes_u64 m of None \<Rightarrow> [App_undefined]
         | Some (_, timeThen) \<Rightarrow> [App_print (Ping_time (sint (timeNow - timeThen)))])
      else if header_id (header m) = MessageAll then
        (case pop_data 4 bytes_u32 m of None \<Rightarrow> [App_undefined]
         | Some (_, clientID) \<Rightarrow> [App_print (Greetings_from clientID)])
      else [])"

record turn_input =
  foreground :: bool
  pressed :: "bool \<times> bool \<times> bool"
  ping_clock :: u64
  recv_clock :: u64

record app =
  app_client :: client
  key :: "bool \<times> bool \<times> bool"
  old_key :: "bool \<times> bool \<times> bool"
  bQuit :: bool

definition app_of_client :: "client \<Rightarrow> app" where
  "app_of_client cl = \<lparr>app_client = cl, key = (False, False, False), old_key = (False, False, False),
     bQuit = False\<rparr>"

definition sample_keys :: "turn_input \<Rightarrow> app \<Rightarrow> app" where
  "sample_keys i a = (if foreground i then a\<lparr>key := pressed i\<rparr> else a)"

definition act :: "(client \<Rightarrow> client_result) \<Rightarrow> app \<Rightarrow> app \<times> app_effect list" where
  "act f a = (let (cl, es) = f (app_client a) in (a\<lparr>app_client := cl\<rparr>, map Client_act es))"

text \<open>The three statements that act on the keys, and the loop that remembers them.\<close>

definition press_1 :: "u64 \<Rightarrow> app \<Rightarrow> app \<times> app_effect list" where
  "press_1 t a = (let (k, _, _) = key a; (old, _, _) = old_key a
                  in if k \<and> \<not> old then act (PingServer t) a else (a, []))"

definition press_2 :: "app \<Rightarrow> app \<times> app_effect list" where
  "press_2 a = (let (_, k, _) = key a; (_, old, _) = old_key a
                in if k \<and> \<not> old then act client_MessageAll a else (a, []))"

definition press_3 :: "app \<Rightarrow> app" where
  "press_3 a = (let (_, _, k) = key a; (_, _, old) = old_key a
                in if k \<and> \<not> old then a\<lparr>bQuit := True\<rparr> else a)"

definition remember_keys :: "app \<Rightarrow> app" where
  "remember_keys a = a\<lparr>old_key := key a\<rparr>"

definition poll_incoming :: "u64 \<Rightarrow> app \<Rightarrow> app \<times> app_effect list" where
  "poll_incoming t a =
     (if client_IsConnected (app_client a) then
        (if \<not> tsq_empty (client_Incoming (app_client a)) then
           (case tsq_pop_front (client_Incoming (app_client a)) of
              None \<Rightarrow> (a, [App_undefined])
            | Some (om, q) \<Rightarrow>
                (a\<lparr>app_client := (app_client a)\<lparr>cl_qMessagesIn := q\<rparr>\<rparr>, handle_incoming t (msg om)))
         else (a, []))
      else (a\<lparr>bQuit := True\<rparr>, [App_print Server_closed]))"

text \<open>
  \<open>main\<close>: turns while \<open>\<not> bQuit\<close>, with handlers of the connection before and between the
  statements of a turn (\<open>app_io\<close>). A run records for each turn its input and whether the client
  was connected when the first and the second statement tested it.
\<close>

inductive app_io :: "app \<Rightarrow> app_effect list \<Rightarrow> app \<Rightarrow> bool" where
  io_none: "app_io a [] a"
| io_more: "app_io a es a' \<Longrightarrow> client_step (app_client a') (Handler_ran # es') cl' \<Longrightarrow>
    app_io a (es @ map Client_act (Handler_ran # es')) (a'\<lparr>app_client := cl'\<rparr>)"

record turn =
  turn_in :: turn_input
  up_1 :: bool
  up_2 :: bool

inductive app_run :: "turn list \<Rightarrow> app_effect list \<Rightarrow> app \<Rightarrow> bool" where
  app_start: "client_Connect resolve opened thread_error this ''127.0.0.1'' 60000 new_client = ((cl, es), b) \<Longrightarrow>
    app_run [] (map Client_act es) (app_of_client cl)"
| app_turn: "app_run ts es a \<Longrightarrow> \<not> bQuit a \<Longrightarrow> app_io a f0 a0 \<Longrightarrow>
    press_1 (ping_clock i) (sample_keys i a0) = (b1, e1) \<Longrightarrow> app_io b1 f1 a1 \<Longrightarrow>
    press_2 a1 = (b2, e2) \<Longrightarrow> app_io b2 f2 a2 \<Longrightarrow>
    poll_incoming (recv_clock i) (remember_keys (press_3 a2)) = (a', e3) \<Longrightarrow>
    app_run (ts @ [\<lparr>turn_in = i, up_1 = client_IsConnected (app_client a0),
                    up_2 = client_IsConnected (app_client a1)\<rparr>])
      (es @ f0 @ e1 @ f1 @ e2 @ f2 @ e3) a'"

section \<open>Keys\<close>

text \<open>The keys as the last turn in the foreground saw them, and what the presses among them ask for.\<close>

type_synonym keys = "bool \<times> bool \<times> bool"

definition keys_after :: "turn \<Rightarrow> keys \<Rightarrow> keys" where
  "keys_after t old = (if foreground (turn_in t) then pressed (turn_in t) else old)"

definition turn_requests :: "turn \<Rightarrow> keys \<Rightarrow> message list" where
  "turn_requests t old = (let (o0, o1, _) = old; (k0, k1, _) = keys_after t old
     in (if k0 \<and> \<not> o0 \<and> up_1 t then [ping_message (ping_clock (turn_in t))] else [])
        @ (if k1 \<and> \<not> o1 \<and> up_2 t then [message_with_id MessageAll] else []))"

fun requests :: "turn list \<Rightarrow> keys \<Rightarrow> message list" where
  "requests [] old = []"
| "requests (t # ts) old = turn_requests t old @ requests ts (keys_after t old)"

definition turn_quits :: "turn \<Rightarrow> keys \<Rightarrow> bool" where
  "turn_quits t old = (let (_, _, o2) = old; (_, _, k2) = keys_after t old in k2 \<and> \<not> o2)"

fun quit_pressed :: "turn list \<Rightarrow> keys \<Rightarrow> bool" where
  "quit_pressed [] old = False"
| "quit_pressed (t # ts) old = (turn_quits t old \<or> quit_pressed ts (keys_after t old))"

definition all_up :: keys where
  "all_up = (False, False, False)"

lemma requests_snoc: "requests (ts @ [t]) old = requests ts old @ turn_requests t (fold keys_after ts old)"
  by (induction ts arbitrary: old) simp_all

lemma quit_pressed_snoc:
  "quit_pressed (ts @ [t]) old \<longleftrightarrow> quit_pressed ts old \<or> turn_quits t (fold keys_after ts old)"
  by (induction ts arbitrary: old) simp_all

text \<open>The messages a run has sent, and whether it printed that the server is closed.\<close>

fun posted :: "app_effect list \<Rightarrow> message list" where
  "posted [] = []"
| "posted (Client_act (Conn_action (Post_send m)) # es) = m # posted es"
| "posted (_ # es) = posted es"

definition saw_closed :: "app_effect list \<Rightarrow> bool" where
  "saw_closed es \<longleftrightarrow> App_print Server_closed \<in> set es"

lemma posted_append [simp]: "posted (es @ es') = posted es @ posted es'"
  by (induction es rule: posted.induct) simp_all

lemma posted_none: "\<forall>m. Client_act (Conn_action (Post_send m)) \<notin> set es \<Longrightarrow> posted es = []"
  by (induction es rule: posted.induct) auto

lemma saw_closed_append [simp]: "saw_closed (es @ es') \<longleftrightarrow> saw_closed es \<or> saw_closed es'"
  by (auto simp: saw_closed_def)

lemma saw_closed_act [simp]: "\<not> saw_closed (map Client_act es)" "\<not> saw_closed []"
  by (auto simp: saw_closed_def)

text \<open>Handlers of a connection, of either program, post no message.\<close>

lemma event_posts_nothing: "Post_send m \<notin> set (snd (handle_event ev c))"
proof (cases ev)
  case (Completed_read op ec bytes)
  then show ?thesis
    by (cases op) (auto simp: on_ReadHeader_def on_ReadBody_def on_ReadValidation_def ReadBody_def
      ReadHeader_def AddToIncomingMessageQueue_def WriteValidation_def Let_def split: option.splits)
next
  case (Completed_write op ec)
  then show ?thesis
    by (cases op) (auto simp: on_WriteHeader_def on_WriteBody_def on_WriteValidation_def
      WriteBody_def next_message_def WriteHeader_def ReadHeader_def Let_def split: option.splits)
qed (auto simp: on_Send_def WriteHeader_def Let_def split: option.splits)

lemma client_handler_posts_nothing: "Post_send m \<notin> set (snd (client_handler ev c))"
proof (cases ev)
  case (Connect_done ec)
  then show ?thesis by (simp add: on_ConnectToServer_def ReadValidation_def)
next
  case (Read_done op ec bytes)
  then show ?thesis using event_posts_nothing [of m "Completed_read op ec bytes" c] by simp
next
  case (Write_done op ec)
  then show ?thesis using event_posts_nothing [of m "Completed_write op ec" c] by simp
next
  case (Run_send m')
  then show ?thesis using event_posts_nothing [of m "Posted_send m'" c] by simp
qed simp

lemma handler_step_posts_nothing:
  assumes "client_step cl (Handler_ran # es) cl'"
  shows "posted (map Client_act (Handler_ran # es)) = []"
  using assms
proof (cases rule: client_step.cases)
  case (step_handler c ev c' ces)
  then show ?thesis using client_handler_posts_nothing [of _ ev c] by (intro posted_none) auto
next
  case step_disconnect
  then show ?thesis using Disconnect_stops(5) [of cl] by simp
qed (auto simp: client_Connect_def ConnectToServer_def client_Send_def Send_def Let_def
    split: sum.splits option.splits if_splits)

lemma app_io_keys:
  "app_io a es a' \<Longrightarrow> posted es = [] \<and> \<not> saw_closed es \<and> key a' = key a \<and> old_key a' = old_key a
     \<and> bQuit a' = bQuit a"
proof (induction rule: app_io.induct)
  case (io_more a es a' es' cl')
  have "posted (map Client_act (Handler_ran # es')) = []"
    by (rule handler_step_posts_nothing [OF io_more.hyps(2)])
  with io_more.IH show ?case by (simp del: list.map)
qed simp

lemma connect_posts_nothing:
  "posted (map Client_act (snd (fst (client_Connect resolve opened te this host port cl)))) = []"
  by (intro posted_none) (auto simp: client_Connect_def ConnectToServer_def Let_def
      split: sum.splits option.splits)

text \<open>What the statements of a turn do.\<close>

lemma send_posts:
  "posted (map Client_act (snd (client_Send m cl))) = (if client_IsConnected cl then [m] else [])"
  by (auto simp: client_Send_def client_IsConnected_def Send_def split: option.splits)

lemma act_effects:
  "posted (snd (act (client_Send m) a)) = (if client_IsConnected (app_client a) then [m] else [])"
  "\<not> saw_closed (snd (act f a))" "key (fst (act f a)) = key a"
  "old_key (fst (act f a)) = old_key a" "bQuit (fst (act f a)) = bQuit a"
  using send_posts [of m "app_client a"] by (auto simp: act_def split: prod.splits)

lemmas request_defs = PingServer_def [abs_def] client_MessageAll_def [abs_def]

lemma press_1_effects:
  assumes "press_1 t a = (b, es)" and "key a = (k0, k1, k2)" and "old_key a = (o0, o1, o2)"
  shows "posted es = (if k0 \<and> \<not> o0 \<and> client_IsConnected (app_client a) then [ping_message t] else [])
    \<and> \<not> saw_closed es \<and> key b = key a \<and> old_key b = old_key a \<and> bQuit b = bQuit a"
  using assms act_effects(1) [where m = "ping_message t" and a = a] act_effects(2-) [where f = "PingServer t" and a = a]
  by (auto simp: press_1_def request_defs split: if_splits)

lemma press_2_effects:
  assumes "press_2 a = (b, es)" and "key a = (k0, k1, k2)" and "old_key a = (o0, o1, o2)"
  shows "posted es = (if k1 \<and> \<not> o1 \<and> client_IsConnected (app_client a)
       then [message_with_id MessageAll] else [])
    \<and> \<not> saw_closed es \<and> key b = key a \<and> old_key b = old_key a \<and> bQuit b = bQuit a"
  using assms act_effects(1) [where m = "message_with_id MessageAll" and a = a] act_effects(2-) [where f = client_MessageAll and a = a]
  by (auto simp: press_2_def request_defs split: if_splits)

lemma press_3_effects:
  assumes "key a = (k0, k1, k2)" and "old_key a = (o0, o1, o2)"
  shows "bQuit (press_3 a) \<longleftrightarrow> bQuit a \<or> k2 \<and> \<not> o2" "key (press_3 a) = key a"
  using assms by (auto simp: press_3_def)

lemma handle_incoming_quiet: "posted (handle_incoming t m) = []" "\<not> saw_closed (handle_incoming t m)"
  by (auto simp: handle_incoming_def saw_closed_def split: option.splits)

lemma poll_incoming_effects:
  assumes "poll_incoming t a = (b, es)"
  shows "posted es = [] \<and> key b = key a \<and> old_key b = old_key a
    \<and> (bQuit b \<longleftrightarrow> bQuit a \<or> saw_closed es)"
  using assms
  by (auto simp: poll_incoming_def handle_incoming_quiet saw_closed_def split: if_splits option.splits)
    (use handle_incoming_quiet(2) in \<open>auto simp: saw_closed_def\<close>)

text \<open>A run so far.\<close>

lemma app_run_keys:
  "app_run ts es a \<Longrightarrow> posted es = requests ts all_up
     \<and> key a = fold keys_after ts all_up \<and> old_key a = fold keys_after ts all_up
     \<and> (bQuit a \<longleftrightarrow> quit_pressed ts all_up \<or> saw_closed es)"
proof (induction rule: app_run.induct)
  case (app_start resolve opened thread_error this cl es b)
  then show ?case
    using connect_posts_nothing [of resolve opened thread_error this "''127.0.0.1''" 60000 new_client]
    by (simp add: app_of_client_def all_up_def)
next
  case (app_turn ts es a f0 a0 i b1 e1 f1 a1 b2 e2 f2 a2 a' e3)
  let ?t = "\<lparr>turn_in = i, up_1 = client_IsConnected (app_client a0),
    up_2 = client_IsConnected (app_client a1)\<rparr>"
  obtain o0 o1 o2 where old: "fold keys_after ts all_up = (o0, o1, o2)" by (metis prod_cases3)
  obtain k0 k1 k2 where k: "keys_after ?t (o0, o1, o2) = (k0, k1, k2)" by (metis prod_cases3)
  have s: "key (sample_keys i a0) = (k0, k1, k2)" "old_key (sample_keys i a0) = (o0, o1, o2)"
      "app_client (sample_keys i a0) = app_client a0" "bQuit (sample_keys i a0) = bQuit a0"
    using app_turn.IH app_io_keys [OF app_turn.hyps(3)] old k [unfolded keys_after_def]
    by (auto simp: sample_keys_def split: if_splits)
  note 1 = press_1_effects [OF app_turn.hyps(4) s(1,2)]
  note io1 = app_io_keys [OF app_turn.hyps(5)]
  have a1: "key a1 = (k0, k1, k2)" "old_key a1 = (o0, o1, o2)" using 1 io1 s by simp_all
  note 2 = press_2_effects [OF app_turn.hyps(6) a1]
  note io2 = app_io_keys [OF app_turn.hyps(7)]
  have a2: "key a2 = (k0, k1, k2)" "old_key a2 = (o0, o1, o2)" using 2 io2 a1 by simp_all
  note 3 = press_3_effects [OF a2]
  note poll = poll_incoming_effects [OF app_turn.hyps(8)]
  show ?case
    using app_turn.IH app_io_keys [OF app_turn.hyps(3)] 1 io1 2 io2 3 poll s a2 old k
    by (simp add: requests_snoc quit_pressed_snoc turn_requests_def turn_quits_def remember_keys_def)
      argo
qed

text \<open>
  C10. Over any run of the client, with handlers of the connection between any two statements of
  the loop, the messages it sends are those that the presses of the keys ask for, in order: a
  ping with the time of the turn in which key 1 goes down, a greeting for key 2, each only if
  the client is connected when the key is tested, once however long the key is held, and not
  again after a change of focus. The program ends when key 3 goes down or the server has closed.
\<close>

theorem keys_act_once_per_press:
  assumes "app_run ts es a"
  shows "posted es = requests ts all_up \<and> (bQuit a \<longleftrightarrow> quit_pressed ts all_up \<or> saw_closed es)"
  using app_run_keys [OF assms] by blast

definition key_1_down :: turn_input where
  "key_1_down = \<lparr>foreground = True, pressed = (True, False, False), ping_clock = 7, recv_clock = 9\<rparr>"

definition two_turns :: "turn list" where
  "two_turns = replicate 2 \<lparr>turn_in = key_1_down, up_1 = True, up_2 = True\<rparr>"

lemmas turn_simps = press_1_def press_2_def press_3_def remember_keys_def sample_keys_def
  poll_incoming_def act_def request_defs client_Send_def client_IsConnected_def IsConnected_def
  client_Incoming_def Send_def Let_def

lemma two_turns_run: "\<exists>es a. app_run two_turns es a \<and> \<not> bQuit a"
proof -
  define cl where "cl = new_client\<lparr>thrContext := True,
      m_connection := Some (new_connection 5 Owner_client True 0 0)\<rparr>"
  have c: "client_Connect (\<lambda>h p. Inr [([127, 0, 0, 1], 60000)]) True None 5
      ''127.0.0.1'' 60000 new_client =
      ((cl, [Conn_action (Start_connect [([127, 0, 0, 1], 60000)]), Run_context_thread]), Some True)"
    by (simp add: cl_def client_Connect_def ConnectToServer_def new_connection_def new_client_def Let_def)
  define a where "a = app_of_client cl"
  define b where "b = a\<lparr>key := (True, False, False), old_key := (True, False, False)\<rparr>"
  have up: "client_IsConnected cl"
    by (simp add: cl_def client_IsConnected_def IsConnected_def new_connection_def Let_def)
  have p1: "press_1 (ping_clock key_1_down) (sample_keys key_1_down a) =
      (a\<lparr>key := (True, False, False)\<rparr>, [Client_act (Conn_action (Post_send (ping_message 7)))])"
    by (simp add: a_def cl_def turn_simps key_1_down_def app_of_client_def new_connection_def)
  have p2: "press_2 (a\<lparr>key := (True, False, False)\<rparr>) = (a\<lparr>key := (True, False, False)\<rparr>, [])"
    by (simp add: a_def turn_simps app_of_client_def)
  have p3: "poll_incoming (recv_clock key_1_down)
      (remember_keys (press_3 (a\<lparr>key := (True, False, False)\<rparr>))) = (b, [])"
    by (simp add: a_def b_def cl_def turn_simps app_of_client_def new_connection_def new_client_def
        tsq_empty_def tsq_new_def)
  have q1: "press_1 (ping_clock key_1_down) (sample_keys key_1_down b) = (b, [])"
    by (simp add: b_def turn_simps key_1_down_def)
  have q2: "press_2 b = (b, [])" by (simp add: b_def turn_simps)
  have q3: "poll_incoming (recv_clock key_1_down) (remember_keys (press_3 b)) = (b, [])"
    by (simp add: a_def b_def cl_def turn_simps app_of_client_def new_connection_def new_client_def
        tsq_empty_def tsq_new_def)
  have on: "\<not> bQuit a" "\<not> bQuit b" "client_IsConnected (app_client a)" "client_IsConnected (app_client b)"
    using up by (simp_all add: a_def b_def app_of_client_def)
  note one = app_turn [OF app_start [OF c, folded a_def] on(1) io_none p1 io_none p2 io_none p3]
  from app_turn [OF one on(2) io_none q1 io_none q2 io_none q3] on show ?thesis
    by (auto simp: two_turns_def numeral_2_eq_2)
qed

theorem keys_act_once_per_press_witness:
  "\<exists>es a. app_run two_turns es a \<and> posted es = [ping_message 7]"
proof -
  obtain es a where r: "app_run two_turns es a" using two_turns_run by blast
  have "requests two_turns all_up = [ping_message 7]"
    by (simp add: two_turns_def numeral_2_eq_2 turn_requests_def keys_after_def all_up_def key_1_down_def)
  with r keys_act_once_per_press [OF r] show ?thesis by auto
qed

section \<open>Through the server and back\<close>

lemma wf_message_with_id [simp]: "wf_message (message_with_id i)"
  by (simp add: wf_message_def message_with_id_def empty_message_def empty_header_def)

lemma header_id_message_with_id [simp]: "header_id (header (message_with_id i)) = i"
  by (simp add: message_with_id_def)

lemma sint_diff:
  assumes "\<bar>uint (b :: u64) - uint a\<bar> < 2 ^ 63"
  shows "sint (b - a) = uint b - uint a"
proof -
  have "b - a = word_of_int (uint b - uint a)" by simp
  then have "sint (b - a) = signed_take_bit 63 (uint b - uint a)"
    by (simp only: sint_sbintrunc') simp
  also have "\<dots> = uint b - uint a"
    using assms by (intro signed_take_bit_int_eq_self) auto
  finally show ?thesis .
qed

text \<open>
  C9. A ping: the message the client sends at time \<open>t\<close> is sent back unchanged by the server
  to the connection it came from and to nobody else, and the client, receiving it at time
  \<open>now\<close>, prints \<open>now - t\<close>, as long as the two times are less than \<open>2 ^ 63\<close> ticks apart.
\<close>

theorem ping_round_trip:
  assumes "client_IsConnected cl" and "conns s p = Some c"
    and "\<bar>uint now - uint t\<bar> < 2 ^ 63"
  shows "PingServer t cl = (cl, [Conn_action (Post_send (ping_message t))])
    \<and> custom_OnMessage (Some p) (ping_message t) s =
        (s, [Server_printf (Log_pinging (GetID c)), Conn_effect p (Post_send (ping_message t))])
    \<and> handle_incoming now (ping_message t) = [App_print (Ping_time (uint now - uint t))]"
proof (intro conjI)
  obtain d where d: "m_connection cl = Some d"
    using assms(1) by (auto simp: client_IsConnected_def split: option.splits)
  then show "PingServer t cl = (cl, [Conn_action (Post_send (ping_message t))])"
    using assms(1) by (cases cl) (simp add: PingServer_def client_Send_def Send_def)
  have "header_id (header (ping_message t)) = ServerPing" by (simp add: ping_message_def)
  then show "custom_OnMessage (Some p) (ping_message t) s =
        (s, [Server_printf (Log_pinging (GetID c)), Conn_effect p (Post_send (ping_message t))])"
    using custom_OnMessage_ping [OF assms(2)] by blast
  have "pop_data 8 bytes_u64 (ping_message t) = Some (message_with_id ServerPing, t)"
    unfolding ping_message_def by (rule u64_pod.pop_push) simp
  then show "handle_incoming now (ping_message t) = [App_print (Ping_time (uint now - uint t))]"
    using sint_diff [OF assms(3)]
    by (simp add: handle_incoming_def ping_message_def CustomMsgTypes_defs)
qed

theorem ping_round_trip_witness:
  "handle_incoming 1500 (ping_message 1200) = [App_print (Ping_time 300)]"
proof -
  let ?cl = "new_client\<lparr>m_connection := Some (new_connection 5 Owner_client True 0 0)\<rparr>"
  have c: "client_IsConnected ?cl"
    by (simp add: client_IsConnected_def IsConnected_def new_connection_def Let_def)
  have s: "conns three_clients 3 = Some (conn_with_id 3 True 10002)" by (simp add: three_clients_def)
  have t: "\<bar>uint (1500 :: u64) - uint (1200 :: u64)\<bar> < 2 ^ 63" by simp
  from ping_round_trip [OF c s t] show ?thesis by simp
qed

section \<open>Bodies that are too short\<close>

lemma handle_incoming_safe:
  "App_undefined \<notin> set (handle_incoming t m) \<longleftrightarrow>
     (header_id (header m) = ServerPing \<longrightarrow> 8 \<le> length (body m)) \<and>
     (header_id (header m) = MessageAll \<longrightarrow> 4 \<le> length (body m))"
  by (auto simp: handle_incoming_def CustomMsgTypes_defs pop_data_def Let_def)

fun sent_messages :: "server_effect list \<Rightarrow> message list" where
  "sent_messages [] = []"
| "sent_messages (Conn_effect p (Post_send m) # es) = m # sent_messages es"
| "sent_messages (_ # es) = sent_messages es"

lemma sent_messages_append [simp]: "sent_messages (es @ es') = sent_messages es @ sent_messages es'"
  by (induction es rule: sent_messages.induct) simp_all

text \<open>A message the server composed itself, or the echo of a ping.\<close>

definition composed :: "message \<Rightarrow> bool" where
  "composed m \<longleftrightarrow> m = message_with_id ServerAccept \<or> header_id (header m) = ServerPing \<or>
     (\<exists>c. m = greeting c)"

lemma sent_by_events: "sent_messages (map (Conn_effect p) (snd (handle_event ev c))) = []"
proof -
  have "\<forall>m. Post_send m \<notin> set ces \<Longrightarrow> sent_messages (map (Conn_effect p) ces) = []" for ces
  proof (induction ces)
    case (Cons e ces)
    then show ?case by (cases e) auto
  qed simp
  then show ?thesis using event_posts_nothing by blast
qed

lemma sent_by_OnMessage:
  "list_all composed (sent_messages (snd (custom_OnMessage q m s)))"
proof -
  have dis: "sent_messages (snd (custom_OnClientDisconnect r s')) = []" for r s'
    by (simp add: custom_OnClientDisconnect_def print_id_def split: option.splits)
  have bc: "list_all composed (sent_messages (concat (map
      (custom_disconnect.broadcast_one s (greeting c) ig) qs)))" for c ig qs
    by (induction qs) (auto simp: custom_disconnect.broadcast_one_def dis composed_def)
  consider "q = None" | p where "q = Some p" "conns s p = None" | p c where "q = Some p" "conns s p = Some c"
    by (cases q) auto
  then show ?thesis
  proof cases
    case (3 p c)
    consider "header_id (header m) = ServerPing" | "header_id (header m) = MessageAll"
      | "header_id (header m) \<noteq> ServerPing" "header_id (header m) \<noteq> MessageAll" by blast
    then show ?thesis
      by cases (use 3 bc in \<open>simp_all add: custom_OnMessage_ping custom_OnMessage_all
          custom_OnMessage_other composed_def\<close>)
  qed (auto simp: custom_OnMessage_def print_id_def on_conn_def)
qed

lemma sent_by_handle_all:
  "list_all composed (sent_messages (snd (handle_all custom_OnMessage oms s)))"
  by (induction oms arbitrary: s) (simp_all add: andthen_conv sent_by_OnMessage)

lemma sent_by_turn: "server_turn s = Some (s', es') \<Longrightarrow> list_all composed (sent_messages es')"
proof -
  assume t: "server_turn s = Some (s', es')"
  then have "\<not> (True \<and> tsq_empty (m_qMessagesIn s))"
    by (auto simp: server_turn_def Update_def split: if_splits)
  from custom_message.Update_result [OF this, of update_unlimited] t show ?thesis
    using sent_by_handle_all
    by (auto simp: server_turn_def Let_def split: prod.splits) (metis snd_conv)
qed

lemma sent_by_accept:
  "list_all composed (sent_messages (snd (on_accept custom_OnClientConnect p now rnd ec ep s)))"
  by (cases "failed ec"; cases ep)
    (simp_all add: on_accept_def custom_OnClientConnect_def on_conn_def Send_def ConnectToClient_def
      WriteValidation_def ReadValidation_def WaitForClientConnection_def new_connection_def
      composed_def Let_def)

lemma sent_messages_composed: "server_run s es \<Longrightarrow> list_all composed (sent_messages es)"
proof (induction rule: server_run.induct)
  case (run_accept s es p now rnd ec ep s' es')
  then show ?case using sent_by_accept [of p now rnd ec ep s] by simp
next
  case (run_conn s es p ev s' es')
  then have "sent_messages es' = []"
    using sent_by_events [of p ev] by (auto simp: conn_turn_def Let_def split: option.splits prod.splits)
      (metis snd_conv)
  with run_conn show ?case by simp
next
  case (run_turn s es s' es')
  then show ?case using sent_by_turn by simp
qed simp

text \<open>
  C11. Whatever the clients do, every message the server sends makes a client's \<open>operator>>\<close>
  read inside the body, except a ping, which is echoed with the body it came with; and a ping
  is safe if and only if its body has at least 8 bytes.
\<close>

theorem client_reads_inside_body:
  assumes "server_run s es" and "m \<in> set (sent_messages es)"
  shows "App_undefined \<in> set (handle_incoming t m) \<longleftrightarrow>
    header_id (header m) = ServerPing \<and> length (body m) < 8"
proof -
  have "composed m"
    using sent_messages_composed [OF assms(1)] assms(2) by (simp add: list_all_iff)
  then consider "m = message_with_id ServerAccept" | "header_id (header m) = ServerPing"
    | c where "m = greeting c"
    by (auto simp: composed_def)
  then show ?thesis
  proof cases
    case 1
    then show ?thesis by (simp add: handle_incoming_def CustomMsgTypes_defs)
  next
    case 2
    then show ?thesis using handle_incoming_safe [of t m] by (auto simp: CustomMsgTypes_defs)
  next
    case (3 c)
    then show ?thesis
      using handle_incoming_safe [of t m] by (auto simp: greeting_def CustomMsgTypes_defs u32_pod.length_to_bytes)
  qed
qed

theorem client_reads_inside_body_witness:
  "App_undefined \<notin> set (handle_incoming 0 (message_with_id ServerAccept))"
proof -
  have m: "message_with_id ServerAccept \<in> set (sent_messages (snd first_accept))"
    by (simp add: on_accept_def custom_OnClientConnect_def on_conn_def Send_def Let_def)
  have "header_id (header (message_with_id ServerAccept)) \<noteq> ServerPing"
    by (simp add: CustomMsgTypes_defs)
  with client_reads_inside_body [OF first_accept_run m, of 0] show ?thesis by blast
qed

end
