(* ===== verification/Server_Threads.thy ===== *)
theory Server_Threads
  imports Server_Run
begin

text \<open>
  The two threads of the server program, step by step. \<open>main\<close> (\<open>SimpleServer.cpp:91-96\<close>)
  handles messages and walks \<open>m_deqConnections\<close> (\<open>net_server.h:153-228\<close>), the io_context
  thread accepts clients and appends to the same list (\<open>net_server.h:106-147\<close>) and runs the
  handlers of the connections; no lock protects the list. Here each access of the list is a
  step of its own, the steps of the two threads alternate freely, and a connection object is
  destroyed as soon as no \<open>shared_ptr\<close> refers to it. The handlers of a connection are one
  step each, as is the reading of its socket's state; accesses of the list are not torn.
  Shown here: if no client is appended during a broadcast, then no null pointer, no destroyed
  object and no invalid iterator is used, except that an outstanding operation may complete
  after its connection was destroyed; and both exceptions occur.
\<close>

section \<open>The state\<close>

text \<open>
  \<open>Checking\<close>: the loop compares its iterator with the end and looks at the next client;
  \<open>Sending\<close> and \<open>Dropping\<close>: the two branches of its body.
\<close>

datatype loop_phase = Checking | Sending | Dropping

record broadcast =
  b_client :: "nat option"
  b_msg :: message
  b_pos :: nat
  b_end :: nat
  b_invalid :: bool
  b_generation :: nat
  b_phase :: loop_phase

datatype main_pc = Main_waiting | Handling owned_message | Broadcasting broadcast

datatype io_pc = Io_waiting | Accepted nat | Pushed | Connected | Io_ended

datatype conn_op = Op_read read_op | Op_write write_op | Op_send message | Op_close

datatype fault = Bad_pointer | Bad_iterator | Late_handler nat

text \<open>
  \<open>outstanding\<close>: the operations started and functions posted whose handler has not run; the
  lambdas hold the bare \<open>this\<close>. \<open>generation\<close> counts the calls of \<open>push_back\<close> and
  \<open>erase\<close>, which invalidate the iterators of a \<open>std::deque\<close> (not its references, in the
  case of \<open>push_back\<close>). \<open>made\<close>: the objects created so far.
\<close>

record threads =
  srv :: server
  main_at :: main_pc
  io_at :: io_pc
  outstanding :: "(nat \<times> conn_op) list"
  made :: "nat list"
  generation :: nat
  effects :: "server_effect list"
  fault :: "fault option"

text \<open>After \<open>server.Start()\<close>.\<close>

definition threads_started :: "nat \<Rightarrow> threads" where
  "threads_started this =
     (let ((s, es), _) = Start None (new_server this)
      in \<lparr>srv = s, main_at = Main_waiting, io_at = Io_waiting, outstanding = [], made = [],
          generation = 0, effects = es, fault = None\<rparr>)"

section \<open>Who holds an object\<close>

fun main_holds :: "main_pc \<Rightarrow> nat \<Rightarrow> bool" where
  "main_holds Main_waiting p = False"
| "main_holds (Handling om) p = (remote om = Some p)"
| "main_holds (Broadcasting b) p = (b_client b = Some p)"

fun io_holds :: "io_pc \<Rightarrow> nat \<Rightarrow> bool" where
  "io_holds (Accepted q) p = (q = p)"
| "io_holds _ p = False"

definition held :: "threads \<Rightarrow> nat \<Rightarrow> bool" where
  "held t p \<longleftrightarrow> Some p \<in> set (m_deqConnections (srv t))
     \<or> Some p \<in> set (map remote (deqQueue (m_qMessagesIn (srv t))))
     \<or> main_holds (main_at t) p \<or> io_holds (io_at t) p"

text \<open>The last \<open>shared_ptr\<close> to an object destroys it.\<close>

definition release :: "threads \<Rightarrow> threads" where
  "release t = t\<lparr>srv := (srv t)\<lparr>conns := (\<lambda>p. if held t p then conns (srv t) p else None)\<rparr>\<rparr>"

fun op_of_effect :: "conn_effect \<Rightarrow> conn_op list" where
  "op_of_effect (Start_read op n) = [Op_read op]"
| "op_of_effect (Start_write op bs) = [Op_write op]"
| "op_of_effect (Post_send m) = [Op_send m]"
| "op_of_effect Post_close = [Op_close]"
| "op_of_effect _ = []"

fun started_by :: "server_effect \<Rightarrow> (nat \<times> conn_op) list" where
  "started_by (Conn_effect p e) = map (Pair p) (op_of_effect e)"
| "started_by _ = []"

definition settle :: "server_result \<Rightarrow> threads \<Rightarrow> threads" where
  "settle r t = t\<lparr>srv := fst r, outstanding := outstanding t @ concat (map started_by (snd r)),
     effects := effects t @ snd r,
     fault := (if Server_undefined \<in> set (snd r) then Some Bad_pointer else fault t)\<rparr>"

section \<open>The main thread\<close>

text \<open>\<open>wait\<close>, \<open>empty\<close> and \<open>pop_front\<close>: only this thread takes messages out.\<close>

definition main_pop :: "threads \<Rightarrow> threads option" where
  "main_pop t =
     (case main_at t of
        Main_waiting \<Rightarrow>
          (case tsq_pop_front (m_qMessagesIn (srv t)) of
             None \<Rightarrow> None
           | Some (om, q) \<Rightarrow>
               Some (t\<lparr>srv := (srv t)\<lparr>m_qMessagesIn := q\<rparr>, main_at := Handling om\<rparr>))
      | _ \<Rightarrow> None)"

text \<open>\<open>OnMessage\<close>, up to the head of the loop of \<open>MessageAllClients\<close>.\<close>

definition main_handle :: "threads \<Rightarrow> threads option" where
  "main_handle t =
     (case main_at t of
        Handling om \<Rightarrow>
          if header_id (header (msg om)) = MessageAll then
            (let t1 = settle (print_id (remote om) Log_message_all (srv t)) t
             in case Option.bind (remote om) (conns (srv t)) of
                  None \<Rightarrow> Some t1
                | Some c \<Rightarrow> Some (t1\<lparr>main_at := Broadcasting
                    \<lparr>b_client = remote om,
                     b_msg = push_data u32_bytes (message_with_id MessageAll) (GetID c),
                     b_pos = 0, b_end = length (m_deqConnections (srv t)), b_invalid = False,
                     b_generation = generation t, b_phase = Checking\<rparr>\<rparr>))
          else Some (release ((settle (custom_OnMessage (remote om) (msg om) (srv t)) t)
                 \<lparr>main_at := Main_waiting\<rparr>))
      | _ \<Rightarrow> None)"

definition main_check :: "threads \<Rightarrow> threads option" where
  "main_check t =
     (case main_at t of
        Broadcasting b \<Rightarrow>
          if b_phase b \<noteq> Checking then None
          else if b_generation b \<noteq> generation t then Some (t\<lparr>fault := Some Bad_iterator\<rparr>)
          else if b_pos b < b_end b then
            Some (t\<lparr>main_at := Broadcasting (b\<lparr>b_phase :=
              (if is_connected (srv t) (m_deqConnections (srv t) ! b_pos b)
               then Sending else Dropping)\<rparr>)\<rparr>)
          else if b_invalid b then
            Some (release (t\<lparr>srv := (srv t)\<lparr>m_deqConnections :=
              removeAll None (m_deqConnections (srv t))\<rparr>, generation := Suc (generation t),
              main_at := Main_waiting\<rparr>))
          else Some (release (t\<lparr>main_at := Main_waiting\<rparr>))
      | _ \<Rightarrow> None)"

text \<open>The body of the loop: \<open>client\<close> is a reference to the entry.\<close>

definition main_act :: "threads \<Rightarrow> threads option" where
  "main_act t =
     (case main_at t of
        Broadcasting b \<Rightarrow>
          (let client = m_deqConnections (srv t) ! b_pos b
           in case b_phase b of
                Checking \<Rightarrow> None
              | Sending \<Rightarrow>
                  Some ((if client \<noteq> b_client b
                         then settle (on_conn client (\<lambda>c. Send c (b_msg b)) (srv t)) t else t)
                    \<lparr>main_at := Broadcasting (b\<lparr>b_pos := Suc (b_pos b), b_phase := Checking\<rparr>)\<rparr>)
              | Dropping \<Rightarrow>
                  (let t1 = settle (custom_OnClientDisconnect client (srv t)) t
                   in Some (release (t1\<lparr>srv := (srv t1)\<lparr>m_deqConnections :=
                        (m_deqConnections (srv t1))[b_pos b := None]\<rparr>,
                        main_at := Broadcasting (b\<lparr>b_pos := Suc (b_pos b), b_invalid := True,
                          b_phase := Checking\<rparr>)\<rparr>))))
      | _ \<Rightarrow> None)"

section \<open>The io_context thread\<close>

text \<open>The accept handler up to \<open>push_back\<close>; a throw of \<open>remote_endpoint()\<close> ends the program.\<close>

definition io_accept :: "nat \<Rightarrow> u64 \<Rightarrow> u64 \<Rightarrow> error_code \<Rightarrow> endpoint option \<Rightarrow> threads \<Rightarrow> threads option" where
  "io_accept p now rnd ec remote_ep t =
     (if io_at t \<noteq> Io_waiting \<or> p \<in> set (made t) then None
      else if failed ec then
        Some (settle (srv t, [Server_printf (Log_accept_error ec), Accept_started]) t)
      else case remote_ep of
        None \<Rightarrow> Some ((settle (srv t, [Throws]) t)\<lparr>io_at := Io_ended\<rparr>)
      | Some ep \<Rightarrow>
          (let s = (srv t)\<lparr>conns := (conns (srv t))(p := Some (new_connection p Owner_server True now rnd))\<rparr>;
               t1 = settle (s, [Server_printf (Log_new_connection ep)]) (t\<lparr>made := p # made t\<rparr>);
               (r, accepted) = custom_OnClientConnect p (srv t1);
               t2 = settle r t1
           in if accepted then Some (t2\<lparr>io_at := Accepted p\<rparr>)
              else Some (release (settle (srv t2, [Server_printf Log_denied, Accept_started]) t2))))"

definition io_push :: "threads \<Rightarrow> threads option" where
  "io_push t =
     (case io_at t of
        Accepted p \<Rightarrow> Some (t\<lparr>srv := (srv t)\<lparr>m_deqConnections := m_deqConnections (srv t) @ [Some p]\<rparr>,
          generation := Suc (generation t), io_at := Pushed\<rparr>)
      | _ \<Rightarrow> None)"

text \<open>\<open>m_deqConnections.back()->ConnectToClient(this, nIDCounter++)\<close>\<close>

definition io_connect :: "threads \<Rightarrow> threads option" where
  "io_connect t =
     (if io_at t \<noteq> Pushed then None
      else if m_deqConnections (srv t) = [] then Some (t\<lparr>fault := Some Bad_pointer\<rparr>)
      else Some ((settle (on_conn (last (m_deqConnections (srv t)))
               (ConnectToClient (Some (srv_self (srv t))) (nIDCounter (srv t)))
               ((srv t)\<lparr>nIDCounter := nIDCounter (srv t) + 1\<rparr>)) t)\<lparr>io_at := Connected\<rparr>))"

definition io_log :: "threads \<Rightarrow> threads option" where
  "io_log t =
     (if io_at t \<noteq> Connected then None
      else if m_deqConnections (srv t) = [] then Some (t\<lparr>fault := Some Bad_pointer\<rparr>)
      else Some ((settle (andthen (print_id (last (m_deqConnections (srv t))) Log_approved (srv t))
             WaitForClientConnection) t)\<lparr>io_at := Io_waiting\<rparr>))"

fun op_of_event :: "conn_event \<Rightarrow> conn_op" where
  "op_of_event (Completed_read op ec bytes) = Op_read op"
| "op_of_event (Completed_write op ec) = Op_write op"
| "op_of_event (Posted_send m) = Op_send m"
| "op_of_event Posted_close = Op_close"

definition io_handler :: "nat \<Rightarrow> conn_event \<Rightarrow> threads \<Rightarrow> threads option" where
  "io_handler p ev t =
     (if io_at t \<noteq> Io_waiting \<or> (p, op_of_event ev) \<notin> set (outstanding t) then None
      else
        (let t1 = t\<lparr>outstanding := remove1 (p, op_of_event ev) (outstanding t)\<rparr>
         in if conns (srv t) p = None then Some (t1\<lparr>fault := Some (Late_handler p)\<rparr>)
            else Some (settle (conn_turn p (handle_event ev) (srv t)) t1)))"

section \<open>Runs\<close>

datatype thread_event =
    Main_pop | Main_handle | Main_check | Main_act
  | Io_accept nat u64 u64 error_code "endpoint option" | Io_push | Io_connect | Io_log
  | Io_handler nat conn_event

fun thread_move :: "thread_event \<Rightarrow> threads \<Rightarrow> threads option" where
  "thread_move Main_pop t = main_pop t"
| "thread_move Main_handle t = main_handle t"
| "thread_move Main_check t = main_check t"
| "thread_move Main_act t = main_act t"
| "thread_move (Io_accept p now rnd ec ep) t = io_accept p now rnd ec ep t"
| "thread_move Io_push t = io_push t"
| "thread_move Io_connect t = io_connect t"
| "thread_move Io_log t = io_log t"
| "thread_move (Io_handler p ev) t = io_handler p ev t"

text \<open>Undefined behaviour and an exception that leaves the io_context thread end the run.\<close>

definition thread_step :: "thread_event \<Rightarrow> threads \<Rightarrow> threads option" where
  "thread_step e t = (if fault t \<noteq> None \<or> io_at t = Io_ended then None else thread_move e t)"

fun run_threads :: "thread_event list \<Rightarrow> threads \<Rightarrow> threads option" where
  "run_threads [] t = Some t"
| "run_threads (e # es) t =
     (case thread_step e t of None \<Rightarrow> None | Some t' \<Rightarrow> run_threads es t')"

text \<open>The accept handler works on the list while the main thread walks it.\<close>

definition overlapping :: "threads \<Rightarrow> bool" where
  "overlapping t \<longleftrightarrow> (case main_at t of Broadcasting _ \<Rightarrow> True | _ \<Rightarrow> False)
     \<and> (io_at t = Pushed \<or> io_at t = Connected)"

fun never_overlapping :: "thread_event list \<Rightarrow> threads \<Rightarrow> bool" where
  "never_overlapping [] t = (\<not> overlapping t)"
| "never_overlapping (e # es) t = (\<not> overlapping t \<and>
     (case thread_step e t of None \<Rightarrow> True | Some t' \<Rightarrow> never_overlapping es t'))"

section \<open>The invariant\<close>

definition main_ok :: "threads \<Rightarrow> bool" where
  "main_ok t \<longleftrightarrow>
     (case main_at t of
        Main_waiting \<Rightarrow> None \<notin> set (m_deqConnections (srv t))
      | Handling om \<Rightarrow> remote om \<noteq> None \<and> None \<notin> set (m_deqConnections (srv t))
      | Broadcasting b \<Rightarrow> b_client b \<noteq> None \<and> b_generation b = generation t
          \<and> b_end b = length (m_deqConnections (srv t)) \<and> b_pos b \<le> b_end b
          \<and> (b_phase b \<noteq> Checking \<longrightarrow> b_pos b < b_end b)
          \<and> (\<forall>i < length (m_deqConnections (srv t)).
               m_deqConnections (srv t) ! i = None \<longrightarrow> i < b_pos b \<and> b_invalid b))"

definition io_ok :: "threads \<Rightarrow> bool" where
  "io_ok t \<longleftrightarrow> (io_at t = Pushed \<or> io_at t = Connected \<longrightarrow> m_deqConnections (srv t) \<noteq> [])"

definition objects_ok :: "threads \<Rightarrow> bool" where
  "objects_ok t \<longleftrightarrow> (\<forall>p. held t p \<longrightarrow> conns (srv t) p \<noteq> None)
     \<and> (\<forall>p c. conns (srv t) p = Some c \<longrightarrow> conn_self c = p \<and> m_nOwnerType c = Owner_server)
     \<and> (\<forall>om \<in> set (deqQueue (m_qMessagesIn (srv t))). remote om \<noteq> None)"

definition fault_ok :: "threads \<Rightarrow> bool" where
  "fault_ok t \<longleftrightarrow> (case fault t of None \<Rightarrow> True | Some (Late_handler p) \<Rightarrow> True | _ \<Rightarrow> False)"

definition threads_ok :: "threads \<Rightarrow> bool" where
  "threads_ok t \<longleftrightarrow> objects_ok t \<and> main_ok t \<and> io_ok t \<and> fault_ok t"

lemma settle_fields [simp]:
  "srv (settle r t) = fst r" "main_at (settle r t) = main_at t" "io_at (settle r t) = io_at t"
  "generation (settle r t) = generation t" "made (settle r t) = made t"
  by (simp_all add: settle_def)

lemma settle_fault:
  "fault (settle r t) = (if Server_undefined \<in> set (snd r) then Some Bad_pointer else fault t)"
  by (simp add: settle_def)

lemma release_fields [simp]:
  "main_at (release t) = main_at t" "io_at (release t) = io_at t"
  "generation (release t) = generation t" "fault (release t) = fault t"
  "m_deqConnections (srv (release t)) = m_deqConnections (srv t)"
  "m_qMessagesIn (srv (release t)) = m_qMessagesIn (srv t)"
  "conns (srv (release t)) p = (if held t p then conns (srv t) p else None)"
  by (simp_all add: release_def)

lemma held_release [simp]: "held (release t) p = held t p"
  by (simp add: held_def)

lemma release_ok [simp]: "threads_ok t \<Longrightarrow> threads_ok (release t)"
  unfolding threads_ok_def objects_ok_def main_ok_def io_ok_def fault_ok_def
  by (auto split: if_splits main_pc.splits)

lemma objects_ok_mono:
  assumes "objects_ok t" and "conns (srv t') = conns (srv t)" and "\<And>p. held t' p \<Longrightarrow> held t p"
    and "set (deqQueue (m_qMessagesIn (srv t'))) \<subseteq> set (deqQueue (m_qMessagesIn (srv t)))"
  shows "objects_ok t'"
  using assms unfolding objects_ok_def by auto

lemma held_deq: "Some p \<in> set (m_deqConnections (srv t)) \<Longrightarrow> held t p"
  by (simp add: held_def)

lemma entry_alive:
  assumes "objects_ok t" and "i < length (m_deqConnections (srv t))"
    and "m_deqConnections (srv t) ! i = Some p"
  obtains c where "conns (srv t) p = Some c"
  using assms held_deq [of p t] unfolding objects_ok_def by (metis nth_mem not_None_eq)

lemma last_alive:
  assumes "objects_ok t" and "None \<notin> set (m_deqConnections (srv t))"
    and "m_deqConnections (srv t) \<noteq> []"
  obtains p c where "last (m_deqConnections (srv t)) = Some p" "conns (srv t) p = Some c"
  using assms held_deq [of _ t] unfolding objects_ok_def by (metis last_in_set not_None_eq)

lemma print_id_quiet: "conns s p = Some c \<Longrightarrow> print_id (Some p) line s = (s, [Server_printf (line (GetID c))])"
  by (simp add: print_id_def)

lemma on_conn_Send_alive:
  "conns s p = Some c \<Longrightarrow> on_conn (Some p) (\<lambda>c. Send c m) s = (s, [Conn_effect p (Post_send m)])"
  by (auto simp: on_conn_def Send_def fun_upd_idem_iff [THEN iffD2])

section \<open>The steps of the main thread keep it\<close>

lemma main_pop_ok:
  assumes ok: "threads_ok t" and step: "main_pop t = Some t'"
  shows "threads_ok t'"
proof -
  obtain om oms where at: "main_at t = Main_waiting" and q: "deqQueue (m_qMessagesIn (srv t)) = om # oms"
    and t': "t' = t\<lparr>srv := (srv t)\<lparr>m_qMessagesIn := \<lparr>deqQueue = oms\<rparr>\<rparr>, main_at := Handling om\<rparr>"
    using step by (auto simp: main_pop_def tsq_pop_front_def split: main_pc.splits list.splits option.splits)
  have "objects_ok t" "main_ok t" "io_ok t" "fault_ok t" using ok by (simp_all add: threads_ok_def)
  moreover from \<open>objects_ok t\<close> have "objects_ok t'"
    by (rule objects_ok_mono) (auto simp: t' held_def q)
  moreover have "remote om \<noteq> None" using \<open>objects_ok t\<close> by (simp add: objects_ok_def q)
  ultimately show ?thesis
    using at by (simp add: threads_ok_def t' main_ok_def io_ok_def fault_ok_def)
qed

lemma main_other_ok:
  assumes ok: "threads_ok t" and at: "main_at t = Handling om"
    and s: "fst r = srv t" and e: "Server_undefined \<notin> set (snd r)"
  shows "threads_ok ((settle r t)\<lparr>main_at := Main_waiting\<rparr>)"
proof -
  have *: "objects_ok t" "main_ok t" "io_ok t" "fault_ok t" using ok by (simp_all add: threads_ok_def)
  from *(1) have "objects_ok ((settle r t)\<lparr>main_at := Main_waiting\<rparr>)"
    by (rule objects_ok_mono) (auto simp: s held_def)
  with * show ?thesis
    using at s e by (simp add: threads_ok_def main_ok_def io_ok_def fault_ok_def settle_fault)
qed

lemma main_handle_ok:
  assumes ok: "threads_ok t" and step: "main_handle t = Some t'"
  shows "threads_ok t'"
proof -
  obtain om where at: "main_at t = Handling om"
    using step by (auto simp: main_handle_def split: main_pc.splits)
  obtain p where p: "remote om = Some p" and nn: "None \<notin> set (m_deqConnections (srv t))"
    using ok at by (auto simp: threads_ok_def main_ok_def)
  have "held t p" using at p by (simp add: held_def)
  then obtain c where c: "conns (srv t) p = Some c"
    using ok by (auto simp: threads_ok_def objects_ok_def)
  show ?thesis
  proof (cases "header_id (header (msg om)) = MessageAll")
    case True
    let ?m = "push_data u32_bytes (message_with_id MessageAll) (GetID c)"
    have "t' = (settle (print_id (Some p) Log_message_all (srv t)) t)\<lparr>main_at := Broadcasting
       \<lparr>b_client = Some p, b_msg = ?m, b_pos = 0, b_end = length (m_deqConnections (srv t)),
        b_invalid = False, b_generation = generation t, b_phase = Checking\<rparr>\<rparr>"
      using step at p c True by (simp add: main_handle_def Let_def)
    then show ?thesis
      using ok at p nn c unfolding threads_ok_def
      by (auto simp: objects_ok_def main_ok_def io_ok_def fault_ok_def held_def settle_fault
          print_id_quiet in_set_conv_nth)
  next
    case False
    have r: "fst (custom_OnMessage (remote om) (msg om) (srv t)) = srv t
        \<and> Server_undefined \<notin> set (snd (custom_OnMessage (remote om) (msg om) (srv t)))"
      using False c by (simp add: custom_OnMessage_def p print_id_quiet on_conn_Send_alive andthen_conv)
    have "t' = release ((settle (custom_OnMessage (remote om) (msg om) (srv t)) t)\<lparr>main_at := Main_waiting\<rparr>)"
      using step at False by (simp add: main_handle_def)
    moreover have "threads_ok ((settle (custom_OnMessage (remote om) (msg om) (srv t)) t)\<lparr>main_at := Main_waiting\<rparr>)"
      using main_other_ok [OF ok at] r by blast
    ultimately show ?thesis by simp
  qed
qed

lemma main_check_ok:
  assumes ok: "threads_ok t" and step: "main_check t = Some t'" and apart: "\<not> overlapping t"
  shows "threads_ok t'"
proof -
  obtain b where at: "main_at t = Broadcasting b" and ph: "b_phase b = Checking"
    using step by (auto simp: main_check_def split: main_pc.splits if_splits)
  have main: "b_generation b = generation t" "b_end b = length (m_deqConnections (srv t))"
      "b_pos b \<le> b_end b" "b_client b \<noteq> None"
      "\<forall>i < length (m_deqConnections (srv t)).
         m_deqConnections (srv t) ! i = None \<longrightarrow> i < b_pos b \<and> b_invalid b"
    using ok at by (auto simp: threads_ok_def main_ok_def)
  have io: "io_at t \<noteq> Pushed" "io_at t \<noteq> Connected" using apart at by (auto simp: overlapping_def)
  have obj: "objects_ok t" and fl: "fault_ok t" using ok by (simp_all add: threads_ok_def)
  consider (more) "b_pos b < b_end b" | (erase) "\<not> b_pos b < b_end b" "b_invalid b"
    | (finish) "\<not> b_pos b < b_end b" "\<not> b_invalid b" by blast
  then show ?thesis
  proof cases
    case more
    then show ?thesis
      using step at ph main obj io fl unfolding threads_ok_def
      by (auto simp: main_check_def objects_ok_def main_ok_def io_ok_def fault_ok_def held_def)
  next
    case erase
    let ?u = "t\<lparr>srv := (srv t)\<lparr>m_deqConnections := removeAll None (m_deqConnections (srv t))\<rparr>,
      generation := Suc (generation t), main_at := Main_waiting\<rparr>"
    have "threads_ok ?u"
      using at main obj io fl unfolding threads_ok_def
      by (auto simp: objects_ok_def main_ok_def io_ok_def fault_ok_def held_def)
    moreover have "t' = release ?u" using step at ph main erase by (simp add: main_check_def)
    ultimately show ?thesis by simp
  next
    case finish
    have "None \<notin> set (m_deqConnections (srv t))" using main(5) finish(2) by (auto simp: in_set_conv_nth)
    then have "threads_ok (t\<lparr>main_at := Main_waiting\<rparr>)"
      using at obj io fl unfolding threads_ok_def
      by (auto simp: objects_ok_def main_ok_def io_ok_def fault_ok_def held_def)
    moreover have "t' = release (t\<lparr>main_at := Main_waiting\<rparr>)"
      using step at ph main finish by (simp add: main_check_def)
    ultimately show ?thesis by simp
  qed
qed

lemma main_act_ok:
  assumes ok: "threads_ok t" and step: "main_act t = Some t'"
  shows "threads_ok t'"
proof -
  obtain b where at: "main_at t = Broadcasting b" and ph: "b_phase b \<noteq> Checking"
    using step by (auto simp: main_act_def Let_def split: main_pc.splits loop_phase.splits)
  let ?q = "m_deqConnections (srv t) ! b_pos b"
  have main: "b_generation b = generation t" "b_end b = length (m_deqConnections (srv t))"
      "b_pos b < b_end b" "b_client b \<noteq> None"
      "\<forall>i < length (m_deqConnections (srv t)).
         m_deqConnections (srv t) ! i = None \<longrightarrow> i < b_pos b \<and> b_invalid b"
    using ok at ph by (auto simp: threads_ok_def main_ok_def)
  obtain p where p: "?q = Some p" using main(2,3,5) by (metis less_irrefl option.exhaust)
  have obj: "objects_ok t" and fl: "fault_ok t" and io: "io_ok t" using ok by (simp_all add: threads_ok_def)
  obtain c where c: "conns (srv t) p = Some c"
    using entry_alive [OF obj _ p] main(2,3) by auto
  show ?thesis
  proof (cases "b_phase b")
    case Sending
    define u where "u = (if ?q \<noteq> b_client b
      then settle (on_conn ?q (\<lambda>c. Send c (b_msg b)) (srv t)) t else t)"
    have u: "srv u = srv t" "generation u = generation t" "io_at u = io_at t" "fault u = fault t"
      using c p by (simp_all add: u_def on_conn_Send_alive settle_fault)
    have t': "t' = u\<lparr>main_at := Broadcasting (b\<lparr>b_pos := Suc (b_pos b), b_phase := Checking\<rparr>)\<rparr>"
      using step at Sending by (simp add: main_act_def u_def Let_def)
    have "objects_ok t'"
      using obj by (rule objects_ok_mono) (auto simp: t' u held_def at)
    then show ?thesis
      using main fl io by (auto simp: threads_ok_def main_ok_def io_ok_def fault_ok_def t' u less_Suc_eq)
  next
    case Dropping
    let ?t1 = "settle (custom_OnClientDisconnect ?q (srv t)) t"
    let ?u = "?t1\<lparr>srv := (srv ?t1)\<lparr>m_deqConnections := (m_deqConnections (srv ?t1))[b_pos b := None]\<rparr>,
      main_at := Broadcasting (b\<lparr>b_pos := Suc (b_pos b), b_invalid := True, b_phase := Checking\<rparr>)\<rparr>"
    have d: "custom_OnClientDisconnect ?q (srv t) = (srv t, [Server_printf (Log_removing (GetID c))])"
      using c by (simp add: p custom_OnClientDisconnect_def print_id_quiet)
    have "objects_ok ?u"
      using obj set_update_subset_insert [of "m_deqConnections (srv t)" "b_pos b" None]
      by (rule_tac objects_ok_mono [of t]) (auto simp: d held_def at)
    then have "threads_ok ?u"
      using main fl io
      by (auto simp: threads_ok_def main_ok_def io_ok_def fault_ok_def settle_fault d nth_list_update less_Suc_eq)
    moreover have "t' = release ?u" using step at Dropping by (simp add: main_act_def Let_def)
    ultimately show ?thesis by simp
  qed (use ph in simp)
qed

section \<open>The steps of the io_context thread keep it\<close>

lemma same_place_ok:
  assumes "threads_ok t" and "objects_ok t'" and "fault_ok t'" and "main_at t' = main_at t"
    and "generation t' = generation t" and "io_at t' \<in> {io_at t, Io_waiting, Io_ended}"
    and "m_deqConnections (srv t') = m_deqConnections (srv t)"
  shows "threads_ok t'"
  using assms unfolding threads_ok_def by (auto simp: main_ok_def io_ok_def split: main_pc.splits)

lemma settle_quiet_ok:
  assumes ok: "threads_ok t" and s: "fst r = srv t" and e: "Server_undefined \<notin> set (snd r)"
    and io: "u = Io_waiting \<or> u = Io_ended"
  shows "threads_ok ((settle r t)\<lparr>io_at := u\<rparr>)"
proof -
  have *: "objects_ok t" "fault_ok t" using ok by (simp_all add: threads_ok_def)
  have "objects_ok ((settle r t)\<lparr>io_at := u\<rparr>)"
    using *(1) by (rule objects_ok_mono) (use io in \<open>auto simp: s held_def\<close>)
  with * ok s e io show ?thesis
    by (intro same_place_ok [OF ok]) (auto simp: fault_ok_def settle_fault)
qed

lemma io_accept_ok:
  assumes ok: "threads_ok t" and step: "io_accept p now rnd ec ep t = Some t'"
  shows "threads_ok t'"
proof -
  have w: "io_at t = Io_waiting" using step by (simp add: io_accept_def split: if_splits)
  consider (fails) "failed ec" | (gone) "\<not> failed ec" "ep = None"
    | (accepted) e where "\<not> failed ec" "ep = Some e" by (cases ep) auto
  then show ?thesis
  proof cases
    case fails
    then have "t' = settle (srv t, [Server_printf (Log_accept_error ec), Accept_started]) t"
      using step w by (simp add: io_accept_def split: if_splits)
    with w have "t' = (settle (srv t, [Server_printf (Log_accept_error ec), Accept_started]) t)
        \<lparr>io_at := Io_waiting\<rparr>"
      by (cases t) (simp add: settle_def)
    then show ?thesis using settle_quiet_ok [OF ok] by simp
  next
    case gone
    then have "t' = (settle (srv t, [Throws]) t)\<lparr>io_at := Io_ended\<rparr>"
      using step w by (simp add: io_accept_def split: if_splits)
    then show ?thesis using settle_quiet_ok [OF ok] by simp
  next
    case accepted
    let ?c = "new_connection p Owner_server True now rnd"
    let ?s = "(srv t)\<lparr>conns := (conns (srv t))(p := Some ?c)\<rparr>"
    have c: "conn_self ?c = p" "m_nOwnerType ?c = Owner_server" by (simp_all add: new_connection_def Let_def)
    have t': "srv t' = ?s" "main_at t' = main_at t" "generation t' = generation t"
        "io_at t' = Accepted p" "fault t' = fault t"
      using step w accepted
      by (auto simp: io_accept_def custom_OnClientConnect_def on_conn_Send_alive settle_fault Let_def
          split: if_splits)
    have "conns (srv t') r \<noteq> None" if "held t' r" for r
      using that ok w by (cases "r = p") (auto simp: t' held_def threads_ok_def objects_ok_def)
    then have "objects_ok t'"
      using ok c by (auto simp: threads_ok_def objects_ok_def t' split: if_splits)
    then show ?thesis
      using ok unfolding threads_ok_def
      by (auto simp: main_ok_def io_ok_def fault_ok_def t' split: main_pc.splits)
  qed
qed

lemma io_push_ok:
  assumes ok: "threads_ok t" and step: "io_push t = Some t'" and apart: "\<not> overlapping t'"
  shows "threads_ok t'"
proof -
  obtain p where at: "io_at t = Accepted p"
    and t': "t' = t\<lparr>srv := (srv t)\<lparr>m_deqConnections := m_deqConnections (srv t) @ [Some p]\<rparr>,
      generation := Suc (generation t), io_at := Pushed\<rparr>"
    using step by (auto simp: io_push_def split: io_pc.splits)
  have *: "objects_ok t" "main_ok t" "fault_ok t" using ok by (simp_all add: threads_ok_def)
  from *(1) have "objects_ok t'" by (rule objects_ok_mono) (auto simp: t' held_def at)
  moreover have "main_ok t'" using *(2) apart
    by (auto simp: t' main_ok_def overlapping_def split: main_pc.splits)
  ultimately show ?thesis using *(3) by (simp add: threads_ok_def t' io_ok_def fault_ok_def)
qed

lemma list_free:
  assumes "threads_ok t" and "\<not> overlapping t" and "io_at t = Pushed \<or> io_at t = Connected"
  obtains p c where "m_deqConnections (srv t) \<noteq> []" "last (m_deqConnections (srv t)) = Some p"
    "conns (srv t) p = Some c" "conn_self c = p" "m_nOwnerType c = Owner_server"
proof -
  have "None \<notin> set (m_deqConnections (srv t))" "m_deqConnections (srv t) \<noteq> []" "objects_ok t"
    using assms by (auto simp: threads_ok_def main_ok_def io_ok_def overlapping_def split: main_pc.splits)
  then show thesis using that by (metis last_alive objects_ok_def)
qed

lemma io_connect_ok:
  assumes ok: "threads_ok t" and step: "io_connect t = Some t'" and apart: "\<not> overlapping t"
  shows "threads_ok t'"
proof -
  have at: "io_at t = Pushed" using step by (simp add: io_connect_def split: if_splits)
  then obtain p c where p: "m_deqConnections (srv t) \<noteq> []" "last (m_deqConnections (srv t)) = Some p"
      "conns (srv t) p = Some c" "conn_self c = p" "m_nOwnerType c = Owner_server"
    using list_free [OF ok apart] by blast
  let ?r = "ConnectToClient (Some (srv_self (srv t))) (nIDCounter (srv t)) c"
  have c': "conn_self (fst ?r) = p" "m_nOwnerType (fst ?r) = Owner_server"
    using p by (auto simp: ConnectToClient_def WriteValidation_def ReadValidation_def)
  have t': "srv t' = (srv t)\<lparr>nIDCounter := nIDCounter (srv t) + 1, conns := (conns (srv t))(p := Some (fst ?r))\<rparr>"
      "main_at t' = main_at t" "generation t' = generation t" "io_at t' = Connected" "fault t' = fault t"
    using step at p by (auto simp: io_connect_def on_conn_def settle_fault split: prod.splits)
  have "conns (srv t') r \<noteq> None" if "held t' r" for r
    using that ok at by (cases "r = p") (auto simp: t' held_def threads_ok_def objects_ok_def)
  then have "objects_ok t'"
    using ok c' by (auto simp: threads_ok_def objects_ok_def t' split: if_splits)
  then show ?thesis
    using ok p unfolding threads_ok_def
    by (auto simp: main_ok_def io_ok_def fault_ok_def t' split: main_pc.splits)
qed

lemma io_log_ok:
  assumes ok: "threads_ok t" and step: "io_log t = Some t'" and apart: "\<not> overlapping t"
  shows "threads_ok t'"
proof -
  have at: "io_at t = Connected" using step by (simp add: io_log_def split: if_splits)
  then obtain p c where p: "m_deqConnections (srv t) \<noteq> []" "last (m_deqConnections (srv t)) = Some p"
      "conns (srv t) p = Some c"
    using list_free [OF ok apart] by blast
  have "t' = (settle (srv t, [Server_printf (Log_approved (GetID c)), Accept_started]) t)\<lparr>io_at := Io_waiting\<rparr>"
    using step at p by (simp add: io_log_def print_id_quiet WaitForClientConnection_def)
  then show ?thesis using settle_quiet_ok [OF ok] by simp
qed

lemma io_handler_ok:
  assumes ok: "threads_ok t" and step: "io_handler p ev t = Some t'"
  shows "threads_ok t'"
proof -
  let ?t1 = "t\<lparr>outstanding := remove1 (p, op_of_event ev) (outstanding t)\<rparr>"
  have *: "objects_ok t" "fault_ok t" using ok by (simp_all add: threads_ok_def)
  have w: "io_at t = Io_waiting" using step by (simp add: io_handler_def split: if_splits)
  show ?thesis
  proof (cases "conns (srv t) p")
    case None
    then have t': "t' = ?t1\<lparr>fault := Some (Late_handler p)\<rparr>"
      using step by (simp add: io_handler_def Let_def split: if_splits)
    from *(1) have "objects_ok t'" by (rule objects_ok_mono) (auto simp: t' held_def)
    then show ?thesis by (intro same_place_ok [OF ok]) (simp_all add: t' fault_ok_def)
  next
    case (Some c)
    obtain c' es where r: "handle_event ev c = (c', es)" by fastforce
    with owned_event [of c ev] have own: "owned_result c (c', es)" by simp
    have cp: "conn_self c = p" "m_nOwnerType c = Owner_server" using *(1) Some by (auto simp: objects_ok_def)
    have s: "srv t' = deliver es ((srv t)\<lparr>conns := (conns (srv t))(p := Some c')\<rparr>)"
        and t': "main_at t' = main_at t" "generation t' = generation t" "io_at t' = io_at t"
        "fault t' = fault t"
      using step Some r by (auto simp: io_handler_def conn_turn_def settle_fault Let_def split: if_splits)
    have push: "remote om = Some p" if "Push_in om \<in> set es" for om
      using own that cp by (simp add: owned_result_def)
    have "held t r \<or> r = p" if "held t' r" for r
    proof -
      from that consider "held t r" | om where "Push_in om \<in> set es" "remote om = Some r"
        by (auto simp: held_def s t' deliver_queue)
      then show ?thesis using push by cases auto
    qed
    then have "objects_ok t'"
      using *(1) own cp push
      by (auto simp: objects_ok_def s deliver_queue owned_result_def same_client_def split: if_splits)
    then show ?thesis
      using *(2) by (intro same_place_ok [OF ok]) (simp_all add: t' s fault_ok_def)
  qed
qed

lemma thread_step_ok:
  assumes "threads_ok t" and "thread_step e t = Some t'" and "\<not> overlapping t" and "\<not> overlapping t'"
  shows "threads_ok t'"
  using assms
  by (cases e) (auto simp: thread_step_def split: if_splits intro: main_pop_ok main_handle_ok
      main_check_ok main_act_ok io_accept_ok io_push_ok io_connect_ok io_log_ok io_handler_ok)

lemma threads_started_ok: "threads_ok (threads_started this)"
  by (simp add: threads_ok_def threads_started_def Start_def WaitForClientConnection_def
      new_server_def objects_ok_def main_ok_def io_ok_def fault_ok_def held_def tsq_new_def Let_def)

lemma never_overlapping_here: "never_overlapping es t \<Longrightarrow> \<not> overlapping t"
  by (cases es) simp_all

lemma run_threads_ok:
  "threads_ok t \<Longrightarrow> run_threads es t = Some t' \<Longrightarrow> never_overlapping es t \<Longrightarrow> threads_ok t'"
proof (induction es arbitrary: t)
  case (Cons e es)
  then obtain u where u: "thread_step e t = Some u" "run_threads es u = Some t'"
      "\<not> overlapping t" "never_overlapping es u"
    by (auto split: option.splits)
  with Cons show ?case by (metis never_overlapping_here thread_step_ok)
qed simp

section \<open>Runs that end badly\<close>

definition some_endpoint :: endpoint where
  "some_endpoint = ([127, 0, 0, 1], 60000)"

text \<open>One client is accepted and answers the validation.\<close>

definition client_comes :: "nat \<Rightarrow> thread_event list" where
  "client_comes p =
     [Io_accept p 5 0 Success (Some some_endpoint), Io_push, Io_connect, Io_log,
      Io_handler p (Completed_write Write_validation Success),
      Io_handler p (Completed_read (Read_validation (Some 0)) Success (u64_bytes (scramble 5)))]"

text \<open>It asks for a greeting to all; the main thread starts the broadcast.\<close>

definition greeting_header :: "byte list" where
  "greeting_header = header_bytes (header (message_with_id MessageAll))"

definition client_greets :: "nat \<Rightarrow> thread_event list" where
  "client_greets p = [Io_handler p (Completed_read Read_header Success greeting_header)]"

definition broadcast_meets_accept :: "thread_event list" where
  "broadcast_meets_accept = client_comes 7 @ client_greets 7 @
     [Main_pop, Main_handle, Main_check,
      Io_accept 8 5 0 Success (Some some_endpoint), Io_push, Main_act, Main_check]"

text \<open>
  Client 7's welcome cannot be sent, so its socket is closed and its read is aborted; the main
  thread drops it before the handler of that read has run.
\<close>

definition client_leaves :: "thread_event list" where
  "client_leaves = client_comes 7 @ client_comes 8 @
     [Io_handler 7 (Posted_send (message_with_id ServerAccept))] @ client_greets 8 @
     [Io_handler 7 (Completed_write Write_header (Sys_error 32)),
      Main_pop, Main_handle, Main_check, Main_act, Main_check, Main_act, Main_check,
      Io_handler 7 (Completed_read Read_header Operation_aborted [])]"

definition end_of :: "thread_event list \<Rightarrow> (fault option \<times> nat option list) option" where
  "end_of es = map_option (\<lambda>t. (fault t, m_deqConnections (srv t))) (run_threads es (threads_started 0))"

lemmas thread_step_defs = thread_step_def io_accept_def io_push_def io_connect_def io_log_def
  io_handler_def main_pop_def main_handle_def main_check_def main_act_def settle_def release_def
  held_def threads_started_def Start_def new_server_def Let_def

lemmas handler_step_defs = custom_OnClientConnect_def custom_OnClientDisconnect_def on_conn_def
  Send_def ConnectToClient_def WriteValidation_def ReadValidation_def WaitForClientConnection_def
  print_id_def conn_turn_def on_WriteValidation_def on_ReadValidation_def ReadHeader_def
  on_ReadHeader_def store_header_def AddToIncomingMessageQueue_def overwrite_full on_Send_def
  WriteHeader_def on_WriteHeader_def tsq_new_def tsq_empty_def tsq_push_back_def tsq_front_def
  tsq_pop_front_def is_connected_def IsConnected_def close_socket_def GetID_def new_connection_def
  empty_message_def empty_header_def message_with_id_def CustomMsgTypes_defs

lemmas example_defs = client_comes_def client_greets_def greeting_header_def

text \<open>
  \<open>push_back\<close> during the broadcast: the loop goes on with an iterator that is no longer valid.
\<close>

lemma accept_during_broadcast:
  "end_of broadcast_meets_accept = Some (Some Bad_iterator, [Some 7, Some 8])"
  by (simp add: end_of_def broadcast_meets_accept_def example_defs thread_step_defs handler_step_defs)

text \<open>A handler that captured \<open>this\<close> runs after the main thread dropped the last pointer.\<close>

lemma handler_after_destruction: "end_of client_leaves = Some (Some (Late_handler 7), [Some 8])"
  by (simp add: end_of_def client_leaves_def example_defs thread_step_defs handler_step_defs)

section \<open>Alone, the accept handler is one step\<close>

lemma accept_alone:
  assumes "io_at t = Io_waiting" and "fault t = None" and "p \<notin> set (made t)"
    and "\<not> failed ec" and "ep = Some e"
  shows "\<exists>t'. run_threads [Io_accept p now rnd ec ep, Io_push, Io_connect, Io_log] t = Some t'
    \<and> (srv t', effects t') =
        (let (s, es) = on_accept custom_OnClientConnect p now rnd ec ep (srv t) in (s, effects t @ es))
    \<and> io_at t' = Io_waiting \<and> fault t' = None \<and> main_at t' = main_at t"
  using assms
  by (simp add: thread_step_defs on_accept_def custom_OnClientConnect_def on_conn_def Send_def
      ConnectToClient_def WriteValidation_def ReadValidation_def WaitForClientConnection_def
      print_id_def new_connection_def GetID_def)

section \<open>What the two threads may do to each other\<close>


text \<open>The same client leaves, but its read is aborted before the broadcast drops it.\<close>

definition client_leaves_in_time :: "thread_event list" where
  "client_leaves_in_time = client_comes 7 @ client_comes 8 @
     [Io_handler 7 (Posted_send (message_with_id ServerAccept))] @ client_greets 8 @
     [Io_handler 7 (Completed_write Write_header (Sys_error 32)),
      Io_handler 7 (Completed_read Read_header Operation_aborted []),
      Main_pop, Main_handle, Main_check, Main_act, Main_check, Main_act, Main_check]"

lemma in_time_result: "end_of client_leaves_in_time = Some (None, [Some 8])"
  by (simp add: end_of_def client_leaves_in_time_def example_defs thread_step_defs handler_step_defs)

lemma in_time_apart: "never_overlapping client_leaves_in_time (threads_started 0)"
  by (simp add: client_leaves_in_time_def overlapping_def example_defs thread_step_defs handler_step_defs)


end
