(* ===== verification/Asio_Connect.thy ===== *)
theory Asio_Connect
  imports Prelude
begin

text \<open>
  asio's connect operations: \<open>basic_socket.hpp\<close> (connect on one endpoint) and
  \<open>impl/connect.hpp\<close> (the composed operations that try a sequence of endpoints, synchronous
  and asynchronous). The answers of the operating system for the endpoint at each position are
  arguments. Iterators are positions, the past-the-end iterator is the length. Shown here: the
  asynchronous operation ends with the result of the synchronous one, the endpoint chosen is the
  first acceptable one that works, and a failed operation leaves the socket open.
\<close>

section \<open>One endpoint\<close>

text \<open>A socket is represented by whether it is open; the result is the new state and the error.\<close>

definition basic_socket_close :: "bool \<Rightarrow> bool" where
  "basic_socket_close is_open = False"

definition basic_socket_connect :: "error_code \<Rightarrow> error_code \<Rightarrow> bool \<Rightarrow> bool \<times> error_code" where
  "basic_socket_connect open_ec connect_ec is_open =
     (if \<not> is_open then
        if failed open_ec then (False, open_ec) else (True, connect_ec)
      else (True, connect_ec))"

datatype connect_start = Posted error_code | Pending

definition basic_socket_async_connect :: "error_code \<Rightarrow> bool \<Rightarrow> bool \<times> connect_start" where
  "basic_socket_async_connect open_ec is_open =
     (let (is_open', ec) = (if \<not> is_open then (\<not> failed open_ec, open_ec) else (True, Success))
      in (is_open', if failed ec then Posted ec else Pending))"

section \<open>A sequence of endpoints, synchronously\<close>

text \<open>
  What the operating system answers for the endpoint at each position: to opening a socket of
  its protocol and to connecting.
\<close>

record net_answers =
  open_answer :: "nat \<Rightarrow> error_code"
  connect_answer :: "nat \<Rightarrow> error_code"

function call_connect_condition ::
  "(error_code \<Rightarrow> 'e \<Rightarrow> bool) \<Rightarrow> error_code \<Rightarrow> 'e list \<Rightarrow> nat \<Rightarrow> nat" where
  "call_connect_condition cond ec eps next =
     (if next < length eps then
        if cond ec (eps ! next) then next else call_connect_condition cond ec eps (Suc next)
      else length eps)"
  by pat_completeness auto
termination by (relation "measure (\<lambda>(_, _, eps, next). length eps - next)") auto

declare call_connect_condition.simps [simp del]

definition default_connect_condition :: "error_code \<Rightarrow> 'e \<Rightarrow> bool" where
  "default_connect_condition ec ep = True"

lemma call_condition_bounds:
  "next \<le> length eps \<Longrightarrow> next \<le> call_connect_condition cond ec eps next
     \<and> call_connect_condition cond ec eps next \<le> length eps"
proof (induction cond ec eps "next" rule: call_connect_condition.induct)
  case (1 cond ec eps "next")
  then show ?case by (subst (1 2) call_connect_condition.simps) auto
qed

lemma call_condition_default:
  "next \<le> length eps \<Longrightarrow> call_connect_condition default_connect_condition ec eps next = next"
  by (subst call_connect_condition.simps) (simp add: default_connect_condition_def)

function connect_loop ::
  "net_answers \<Rightarrow> (error_code \<Rightarrow> 'e \<Rightarrow> bool) \<Rightarrow> 'e list \<Rightarrow> nat \<Rightarrow> bool \<Rightarrow> error_code
     \<Rightarrow> bool \<times> error_code \<times> nat" where
  "connect_loop net cond eps iter s ec =
     (if iter < length eps then
        let iter = call_connect_condition cond ec eps iter
        in if iter < length eps then
             let (s, ec) = basic_socket_connect (open_answer net iter) (connect_answer net iter)
                             (basic_socket_close s)
             in if \<not> failed ec then (s, ec, iter) else connect_loop net cond eps (Suc iter) s ec
           else (s, if \<not> failed ec then Not_found else ec, length eps)
      else (s, if \<not> failed ec then Not_found else ec, length eps))"
  by pat_completeness auto
termination
proof (relation "measure (\<lambda>(_, _, eps, iter, _, _). length eps - iter)", goal_cases)
  case (2 net cond eps iter s ec x xa xb y)
  then show ?case using call_condition_bounds [of iter eps cond ec] by auto
qed simp

declare connect_loop.simps [simp del]

definition connect_range ::
  "net_answers \<Rightarrow> (error_code \<Rightarrow> 'e \<Rightarrow> bool) \<Rightarrow> 'e list \<Rightarrow> bool \<Rightarrow> bool \<times> error_code \<times> nat" where
  "connect_range net cond eps s = connect_loop net cond eps 0 s Success"

text \<open>\<open>None\<close> is the default-constructed endpoint.\<close>

definition deref_connect_result :: "'e list \<Rightarrow> nat \<Rightarrow> error_code \<Rightarrow> 'e option" where
  "deref_connect_result eps iter ec = (if failed ec then None else Some (eps ! iter))"

definition connect_sequence ::
  "net_answers \<Rightarrow> (error_code \<Rightarrow> 'e \<Rightarrow> bool) \<Rightarrow> 'e list \<Rightarrow> bool \<Rightarrow> bool \<times> error_code \<times> 'e option" where
  "connect_sequence net cond eps s =
     (let (s', ec, iter) = connect_range net cond eps s in (s', ec, deref_connect_result eps iter ec))"

section \<open>A sequence of endpoints, asynchronously\<close>

text \<open>
  One call of the operation object: \<open>start\<close> is true for the call that initiates it, later
  calls come with the error of the attempt at \<open>index\<close> and the state of the socket. The result
  is the new \<open>index_\<close> and what happens next: an asynchronous connect to the endpoint at that
  position, a posted call with an error, or the handler's call.
\<close>

datatype 'e connect_action =
    Connect_to nat
  | Post_self error_code
  | Call_handler error_code "'e option"

definition range_connect_process ::
  "(error_code \<Rightarrow> 'e \<Rightarrow> bool) \<Rightarrow> 'e list \<Rightarrow> bool \<Rightarrow> nat \<Rightarrow> bool \<Rightarrow> error_code
     \<Rightarrow> nat \<times> 'e connect_action" where
  "range_connect_process cond eps start index is_open ec =
     (let finish = (\<lambda>ec iter. Call_handler ec
                      (if failed ec \<or> iter = length eps then None else Some (eps ! iter)))
      in if start then
           (let iter = call_connect_condition cond ec eps index
            in (iter, if iter < length eps then Connect_to iter else Post_self Not_found))
         else if index = length eps then (index, finish ec index)
         else if \<not> is_open then (index, finish Operation_aborted index)
         else if \<not> failed ec then (index, finish ec index)
         else (let iter = call_connect_condition cond ec eps (Suc index)
               in (iter, if iter < length eps then Connect_to iter else finish ec iter)))"

lemma range_process_bounds:
  assumes "range_connect_process cond eps start index s ec = (index', action)"
    and "index \<le> length eps"
  shows "(\<exists>ec' ep. action = Call_handler ec' ep) \<or>
    index \<le> index' \<and> index' \<le> length eps \<and> (start \<or> index < index')"
  using assms call_condition_bounds [of index eps cond ec] call_condition_bounds [of "Suc index" eps cond ec]
  by (auto simp: range_connect_process_def Let_def not_less_eq_eq split: if_splits)

text \<open>
  The same with iterators (the deprecated overloads): the handler receives the position.
\<close>

datatype iterator_action =
    Iter_connect nat
  | Iter_post error_code
  | Iter_handler error_code nat

definition iterator_connect_process ::
  "(error_code \<Rightarrow> 'e \<Rightarrow> bool) \<Rightarrow> 'e list \<Rightarrow> bool \<Rightarrow> nat \<Rightarrow> bool \<Rightarrow> error_code
     \<Rightarrow> nat \<times> iterator_action" where
  "iterator_connect_process cond eps start iter is_open ec =
     (if start then
        (let iter = call_connect_condition cond ec eps iter
         in (iter, if iter < length eps then Iter_connect iter else Iter_post Not_found))
      else if iter = length eps then (iter, Iter_handler ec iter)
      else if \<not> is_open then (iter, Iter_handler Operation_aborted iter)
      else if \<not> failed ec then (iter, Iter_handler ec iter)
      else (let iter = call_connect_condition cond ec eps (Suc iter)
            in (iter, if iter < length eps then Iter_connect iter else Iter_handler ec iter)))"

text \<open>
  The operation run to its end: every action is followed by the call it leads to. \<open>Connect_to\<close>
  closes the socket and calls \<open>async_connect\<close>, which completes with the operating system's
  answer or, if the socket could not be opened, with that error.
\<close>

function async_connect_run ::
  "net_answers \<Rightarrow> (error_code \<Rightarrow> 'e \<Rightarrow> bool) \<Rightarrow> 'e list \<Rightarrow> bool \<Rightarrow> nat \<Rightarrow> bool \<Rightarrow> error_code
     \<Rightarrow> bool \<times> error_code \<times> 'e option" where
  "async_connect_run net cond eps start index s ec =
     (if length eps < index then (s, ec, None)
      else case range_connect_process cond eps start index s ec of
        (index', Call_handler ec' ep) \<Rightarrow> (s, ec', ep)
      | (index', Post_self ec') \<Rightarrow> async_connect_run net cond eps False index' s ec'
      | (index', Connect_to i) \<Rightarrow>
          (case basic_socket_async_connect (open_answer net i) (basic_socket_close s) of
             (s', Posted ec') \<Rightarrow> async_connect_run net cond eps False index' s' ec'
           | (s', Pending) \<Rightarrow> async_connect_run net cond eps False index' s' (connect_answer net i)))"
  by pat_completeness auto
termination
proof (relation "measure (\<lambda>(_, _, eps, start, index, _, _). 2 * (length eps - index) + (if start then 1 else 0))",
    goal_cases)
  case (2 net cond eps start index s ec)
  then show ?case
    using range_process_bounds [OF 2(2) [symmetric]] by (cases start) auto
next
  case (3 net cond eps start index s ec)
  then show ?case
    using range_process_bounds [OF 3(2) [symmetric]] by (cases start) auto
next
  case (4 net cond eps start index s ec)
  moreover have "start"
    using 4(2,3) by (auto simp: range_connect_process_def Let_def split: if_splits)
  ultimately show ?case
    using range_process_bounds [OF 4(2) [symmetric]] by auto
qed simp

declare async_connect_run.simps [simp del]

section \<open>Both ways end alike\<close>

definition deref_result :: "'e list \<Rightarrow> bool \<times> error_code \<times> nat \<Rightarrow> bool \<times> error_code \<times> 'e option" where
  "deref_result eps r = (case r of (s, ec, iter) \<Rightarrow> (s, ec, deref_connect_result eps iter ec))"

lemma call_condition_end: "length eps \<le> next \<Longrightarrow> call_connect_condition cond ec eps next = length eps"
  by (subst call_connect_condition.simps) simp

lemma connect_loop_unfold:
  "connect_loop net cond eps iter s ec =
     (let j = call_connect_condition cond ec eps iter
      in if j < length eps then
           (let (s', ec') = basic_socket_connect (open_answer net j) (connect_answer net j) False
            in if \<not> failed ec' then (s', ec', j) else connect_loop net cond eps (Suc j) s' ec')
         else (s, if \<not> failed ec then Not_found else ec, length eps))"
  by (subst connect_loop.simps)
    (auto simp: Let_def basic_socket_close_def call_condition_end split: prod.splits)

lemma connect_opens:
  assumes "\<not> failed (open_answer net j)"
  shows "basic_socket_connect (open_answer net j) (connect_answer net j) False = (True, connect_answer net j)"
    and "basic_socket_async_connect (open_answer net j) (basic_socket_close s) = (True, Pending)"
  using assms by (simp_all add: basic_socket_connect_def basic_socket_async_connect_def
      basic_socket_close_def not_failed_iff)

lemma async_after_success:
  "i < length eps \<Longrightarrow> async_connect_run net cond eps False i True Success = (True, Success, Some (eps ! i))"
  by (subst async_connect_run.simps) (simp add: range_connect_process_def Let_def)

lemma async_after_failure:
  assumes opens: "\<forall>j < length eps. \<not> failed (open_answer net j)"
    and "i < length eps" and "failed ec"
  shows "async_connect_run net cond eps False i True ec =
           deref_result eps (connect_loop net cond eps (Suc i) True ec)"
  using assms(2,3)
proof (induction "length eps - i" arbitrary: i ec rule: less_induct)
  case less
  define j where "j = call_connect_condition cond ec eps (Suc i)"
  have j: "Suc i \<le> j" "j \<le> length eps"
    using call_condition_bounds [of "Suc i" eps cond ec] less.prems by (auto simp: j_def)
  have p: "range_connect_process cond eps False i True ec =
      (j, if j < length eps then Connect_to j else Call_handler ec None)"
    using less.prems j by (simp add: range_connect_process_def j_def [symmetric] Let_def)
  show ?case
  proof (cases "j < length eps")
    case False
    then show ?thesis
      using p less.prems
      by (subst async_connect_run.simps, subst connect_loop_unfold)
        (simp add: j_def [symmetric] deref_result_def deref_connect_result_def)
  next
    case True
    let ?ec = "connect_answer net j"
    have o: "\<not> failed (open_answer net j)" using opens True by blast
    have a: "async_connect_run net cond eps False i True ec = async_connect_run net cond eps False j True ?ec"
      using p True less.prems by (subst async_connect_run.simps) (simp add: connect_opens [OF o])
    have b: "connect_loop net cond eps (Suc i) True ec =
        (if \<not> failed ?ec then (True, ?ec, j) else connect_loop net cond eps (Suc j) True ?ec)"
      using True by (subst connect_loop_unfold) (simp add: j_def [symmetric] connect_opens [OF o])
    show ?thesis
    proof (cases "failed ?ec")
      case True
      then show ?thesis
        unfolding a b using less.hyps [of j ?ec] \<open>j < length eps\<close> j(1) by simp
    next
      case False
      then have "?ec = Success" by (simp add: failed_def)
      then show ?thesis
        unfolding a b using async_after_success [OF True, of net cond]
        by (simp add: deref_result_def deref_connect_result_def)
    qed
  qed
qed

text \<open>
  C28. When a socket can be opened for every endpoint of the sequence, \<open>async_connect\<close> over
  it, with any connect condition, ends with the error, the endpoint and the state of the socket
  that the synchronous \<open>connect\<close> returns. In particular it calls its handler, once. When an
  open fails the two differ (\<open>async_connect_gives_up\<close>).
\<close>

theorem async_connect_matches_connect:
  assumes "\<forall>j < length eps. \<not> failed (open_answer net j)"
  shows "async_connect_run net cond eps True 0 s Success = connect_sequence net cond eps s"
proof -
  define j where "j = call_connect_condition cond Success eps 0"
  have j: "j \<le> length eps" using call_condition_bounds [of 0 eps cond Success] by (simp add: j_def)
  have p: "range_connect_process cond eps True 0 s Success =
      (j, if j < length eps then Connect_to j else Post_self Not_found)"
    by (simp add: range_connect_process_def j_def [symmetric])
  have sync: "connect_sequence net cond eps s = deref_result eps (connect_loop net cond eps 0 s Success)"
    by (simp add: connect_sequence_def connect_range_def deref_result_def)
  show ?thesis
  proof (cases "j < length eps")
    case False
    with j have jn: "j = length eps" by simp
    have "async_connect_run net cond eps True 0 s Success = async_connect_run net cond eps False j s Not_found"
      using p False by (subst async_connect_run.simps) simp
    also have "\<dots> = (s, Not_found, None)"
      using jn by (subst async_connect_run.simps) (simp add: range_connect_process_def Let_def)
    finally show ?thesis
      using False unfolding sync
      by (subst connect_loop_unfold) (simp add: j_def [symmetric] deref_result_def deref_connect_result_def)
  next
    case True
    let ?ec = "connect_answer net j"
    have o: "\<not> failed (open_answer net j)" using assms True by blast
    have a: "async_connect_run net cond eps True 0 s Success = async_connect_run net cond eps False j True ?ec"
      using p True by (subst async_connect_run.simps) (simp add: connect_opens [OF o])
    have b: "connect_loop net cond eps 0 s Success =
        (if \<not> failed ?ec then (True, ?ec, j) else connect_loop net cond eps (Suc j) True ?ec)"
      using True by (subst connect_loop_unfold) (simp add: j_def [symmetric] connect_opens [OF o])
    show ?thesis
    proof (cases "failed ?ec")
      case True
      then show ?thesis unfolding a b sync using async_after_failure [OF assms \<open>j < length eps\<close>] by simp
    next
      case False
      then have "?ec = Success" by (simp add: failed_def)
      then show ?thesis
        unfolding a b sync using async_after_success [OF True, of net cond]
        by (simp add: deref_result_def deref_connect_result_def)
    qed
  qed
qed

definition second_works :: net_answers where
  "second_works = \<lparr>open_answer = (\<lambda>_. Success),
     connect_answer = (\<lambda>i. if i = 1 then Success else Sys_error 111)\<rparr>"

theorem async_connect_matches_connect_witness:
  "async_connect_run second_works default_connect_condition [10, 20, 30 :: nat] True 0 False Success
     = connect_sequence second_works default_connect_condition [10, 20, 30] False"
  by (rule async_connect_matches_connect) (simp add: second_works_def)

text \<open>
  An endpoint for which no socket can be opened: the asynchronous operation takes the closed
  socket for a cancellation and ends with \<open>operation_aborted\<close>, whatever the rest of the
  sequence; the error of the open is lost. The synchronous call goes on to the next endpoint.
\<close>

lemma async_after_bad_open:
  assumes "i < j" and "j < length eps" and "failed (open_answer net j)" and "failed ec"
    and "\<forall>k < j. \<not> failed (open_answer net k) \<and> failed (connect_answer net k)"
  shows "async_connect_run net default_connect_condition eps False i True ec = (False, Operation_aborted, None)"
  using assms(1,4)
proof (induction "j - i" arbitrary: i ec rule: less_induct)
  case less
  have p: "range_connect_process default_connect_condition eps False i True ec = (Suc i, Connect_to (Suc i))"
    using less.prems assms(2) by (simp add: range_connect_process_def call_condition_default)
  show ?case
  proof (cases "Suc i = j")
    case True
    then have "async_connect_run net default_connect_condition eps False i True ec =
        async_connect_run net default_connect_condition eps False j False (open_answer net j)"
      using p less.prems assms(2,3)
      by (subst async_connect_run.simps) (simp add: basic_socket_async_connect_def basic_socket_close_def)
    then show ?thesis
      using assms(2) by (subst (asm) (2) async_connect_run.simps) (simp add: range_connect_process_def failed_def)
  next
    case False
    then have lt: "Suc i < j" using less.prems by simp
    with assms(5) have o: "\<not> failed (open_answer net (Suc i))" "failed (connect_answer net (Suc i))" by simp_all
    have "async_connect_run net default_connect_condition eps False i True ec =
        async_connect_run net default_connect_condition eps False (Suc i) True (connect_answer net (Suc i))"
      using p less.prems assms(2) by (subst async_connect_run.simps) (simp add: connect_opens [OF o(1)])
    then show ?thesis using less.hyps [of "Suc i"] lt o(2) by simp
  qed
qed

theorem async_connect_gives_up:
  assumes "j < length eps" and "failed (open_answer net j)"
    and "\<forall>k < j. \<not> failed (open_answer net k) \<and> failed (connect_answer net k)"
  shows "async_connect_run net default_connect_condition eps True 0 s Success = (False, Operation_aborted, None)"
proof -
  have p: "range_connect_process default_connect_condition eps True 0 s Success = (0, Connect_to 0)"
    using assms(1) by (cases eps) (simp_all add: range_connect_process_def call_condition_default)
  show ?thesis
  proof (cases "j = 0")
    case True
    then have "async_connect_run net default_connect_condition eps True 0 s Success =
        async_connect_run net default_connect_condition eps False 0 False (open_answer net 0)"
      using p assms(2)
      by (subst async_connect_run.simps) (simp add: basic_socket_async_connect_def basic_socket_close_def)
    then show ?thesis
      using assms(1) True by (subst (asm) (2) async_connect_run.simps) (simp add: range_connect_process_def failed_def)
  next
    case False
    with assms(3) have o: "\<not> failed (open_answer net 0)" "failed (connect_answer net 0)" by simp_all
    have "async_connect_run net default_connect_condition eps True 0 s Success =
        async_connect_run net default_connect_condition eps False 0 True (connect_answer net 0)"
      using p by (subst async_connect_run.simps) (simp add: connect_opens [OF o(1)])
    then show ?thesis using async_after_bad_open [OF _ assms(1,2) o(2) assms(3)] False by simp
  qed
qed

definition first_unopenable :: net_answers where
  "first_unopenable = \<lparr>open_answer = (\<lambda>i. if i = 0 then Sys_error 97 else Success),
     connect_answer = (\<lambda>_. Success)\<rparr>"

theorem async_connect_gives_up_witness:
  "async_connect_run first_unopenable default_connect_condition [10, 20 :: nat] True 0 False Success
     = (False, Operation_aborted, None)
   \<and> connect_sequence first_unopenable default_connect_condition [10, 20 :: nat] False = (True, Success, Some 20)"
proof
  show "async_connect_run first_unopenable default_connect_condition [10, 20 :: nat] True 0 False Success
     = (False, Operation_aborted, None)"
    by (rule async_connect_gives_up [where j = 0]) (simp_all add: first_unopenable_def failed_def)
  show "connect_sequence first_unopenable default_connect_condition [10, 20 :: nat] False = (True, Success, Some 20)"
    by (simp add: connect_sequence_def connect_range_def connect_loop_unfold call_condition_default
        basic_socket_connect_def first_unopenable_def deref_connect_result_def failed_def)
qed

section \<open>Which endpoint\<close>

lemma connect_loop_default:
  assumes "\<forall>j < length eps. \<not> failed (open_answer net j)" and "iter < length eps"
  shows "connect_loop net default_connect_condition eps iter s ec =
    (case List.find (\<lambda>j. \<not> failed (connect_answer net j)) [iter..<length eps] of
       Some j \<Rightarrow> (True, Success, j)
     | None \<Rightarrow> (True, connect_answer net (length eps - 1), length eps))"
  using assms(2)
proof (induction "length eps - iter" arbitrary: iter s ec rule: less_induct)
  case less
  have o: "\<not> failed (open_answer net iter)" using assms(1) less.prems by blast
  have l: "connect_loop net default_connect_condition eps iter s ec =
      (if \<not> failed (connect_answer net iter) then (True, connect_answer net iter, iter)
       else connect_loop net default_connect_condition eps (Suc iter) True (connect_answer net iter))"
    using less.prems
    by (subst connect_loop_unfold) (simp add: call_condition_default connect_opens [OF o])
  have u: "[iter..<length eps] = iter # [Suc iter..<length eps]"
    using less.prems by (simp add: upt_conv_Cons)
  show ?case
  proof (cases "failed (connect_answer net iter)")
    case False
    then show ?thesis unfolding l u by (simp add: failed_def)
  next
    case True
    show ?thesis
    proof (cases "Suc iter < length eps")
      case True
      with less.hyps [of "Suc iter"] \<open>failed (connect_answer net iter)\<close> show ?thesis
        unfolding l u by simp
    next
      case False
      then have n: "Suc iter = length eps" using less.prems by simp
      then have "connect_loop net default_connect_condition eps (Suc iter) True (connect_answer net iter) =
          (True, connect_answer net iter, length eps)"
        using True by (subst connect_loop.simps) simp
      moreover have "iter = length eps - 1" using n by simp
      ultimately show ?thesis unfolding l u using True n by simp
    qed
  qed
qed

text \<open>
  Without a connect condition, the operation chooses the first endpoint that accepts. If
  none does, the error is that of the last attempt and the socket is left open, so that
  \<open>is_open\<close> does not tell a failed connect from a successful one; only for an empty sequence
  the socket is untouched and the error \<open>not_found\<close>.
\<close>

theorem connect_outcome:
  assumes "\<forall>j < length eps. \<not> failed (open_answer net j)"
  shows "connect_sequence net default_connect_condition eps s =
    (if eps = [] then (s, Not_found, None)
     else case List.find (\<lambda>j. \<not> failed (connect_answer net j)) [0..<length eps] of
       Some j \<Rightarrow> (True, Success, Some (eps ! j))
     | None \<Rightarrow> (True, connect_answer net (length eps - 1), None))"
proof (cases "eps = []")
  case True
  then show ?thesis
    by (simp add: connect_sequence_def connect_range_def connect_loop.simps deref_connect_result_def)
next
  case False
  let ?f = "List.find (\<lambda>j. \<not> failed (connect_answer net j)) [0..<length eps]"
  have "failed (connect_answer net (length eps - 1))" if "?f = None"
    using that False by (auto simp: find_None_iff)
  with False connect_loop_default [OF assms, of 0 s Success] show ?thesis
    by (auto simp: connect_sequence_def connect_range_def deref_connect_result_def split: option.splits)
qed

theorem connect_outcome_witness:
  "connect_sequence second_works default_connect_condition [10, 20, 30 :: nat] False = (True, Success, Some 20)"
proof -
  have o: "\<forall>j < length [10, 20, 30 :: nat]. \<not> failed (open_answer second_works j)"
    by (simp add: second_works_def)
  show ?thesis using connect_outcome [OF o, of False] by (simp add: second_works_def upt_rec)
qed

end
