(* ===== verification/Asio_App.thy ===== *)
theory Asio_App
  imports Asio_Connect Net_Connection
begin

text \<open>
  \<open>CentOS_Proyect-Asio-App/main.cpp\<close>: the first experiment of the project, which connects to
  an address, sends an HTTP request and prints what comes back. Output is a list of effects; the
  operating system's answers are arguments. Shown here: the bytes printed are the stream, up to
  the first error, and the request is sent even after a failed connect.
\<close>

section \<open>Printing what arrives\<close>

datatype asio_app_effect =
    Start_read_some nat
  | Print_reading nat
  | Print_char byte
  | Print_connected
  | Print_connect_failed error_code
  | Write_some "byte list"
  | Sleep_ms nat
  | Wait_for_key

definition initial_vBuffer :: "byte list" where
  "initial_vBuffer = replicate (1 * 1024) 0"

definition vdGrabSomeData :: "byte list \<Rightarrow> byte list \<times> asio_app_effect list" where
  "vdGrabSomeData vBuffer = (vBuffer, [Start_read_some (length vBuffer)])"

text \<open>The loop \<open>for (int i = 0; i < length; i++) printf("%c", vBuffer[i])\<close>, from \<open>i\<close>.\<close>

fun print_loop :: "byte list \<Rightarrow> nat \<Rightarrow> nat \<Rightarrow> asio_app_effect list" where
  "print_loop vBuffer i 0 = []"
| "print_loop vBuffer i (Suc todo) = Print_char (vBuffer ! i) # print_loop vBuffer (Suc i) todo"

text \<open>The read has put the bytes that arrived into the buffer; then the lambda runs.\<close>

definition on_grab :: "error_code \<Rightarrow> byte list \<Rightarrow> byte list \<Rightarrow> byte list \<times> asio_app_effect list" where
  "on_grab ec bytes vBuffer0 =
     (let vBuffer = overwrite bytes vBuffer0
      in if \<not> failed ec then
           andthen (vBuffer, Print_reading (length bytes) # print_loop vBuffer 0 (length bytes))
             vdGrabSomeData
         else (vBuffer, []))"

text \<open>The completions of the reads, for as long as each handler starts the next one.\<close>

fun grab_run :: "(error_code \<times> byte list) list \<Rightarrow> byte list \<Rightarrow> byte list \<times> asio_app_effect list" where
  "grab_run [] vBuffer = (vBuffer, [])"
| "grab_run ((ec, bytes) # reads) vBuffer =
     andthen (on_grab ec bytes vBuffer)
       (if failed ec then (\<lambda>b. (b, [])) else grab_run reads)"

section \<open>The program\<close>

definition sRequest :: string where
  "sRequest = ''GET /index.html HTTP/1.1'' @ [CHR 0x0D, CHR 0x0A] @ ''Host: example.com''
     @ [CHR 0x0D, CHR 0x0A] @ ''Connection: close'' @ [CHR 0x0D, CHR 0x0A, CHR 0x0D, CHR 0x0A]"

definition asio_main :: "error_code \<Rightarrow> error_code \<Rightarrow> asio_app_effect list" where
  "asio_main open_ec connect_ec =
     (let (is_open, ec) = basic_socket_connect open_ec connect_ec False
      in [if \<not> failed ec then Print_connected else Print_connect_failed ec]
         @ (if is_open then
              snd (vdGrabSomeData initial_vBuffer)
              @ [Write_some (map of_char sRequest), Sleep_ms 2000]
            else [])
         @ [Wait_for_key])"

section \<open>What is printed\<close>

fun printed :: "asio_app_effect list \<Rightarrow> byte list" where
  "printed [] = []"
| "printed (Print_char c # es) = c # printed es"
| "printed (_ # es) = printed es"

lemma printed_append [simp]: "printed (es @ es') = printed es @ printed es'"
  by (induction es rule: printed.induct) simp_all

lemma printed_loop:
  "i + todo \<le> length vBuffer \<Longrightarrow> printed (print_loop vBuffer i todo) = take todo (drop i vBuffer)"
proof (induction todo arbitrary: i)
  case 0
  then show ?case by simp
next
  case (Suc todo)
  then have "drop i vBuffer = vBuffer ! i # drop (Suc i) vBuffer"
    by (intro Cons_nth_drop_Suc [symmetric]) simp
  with Suc show ?case by simp
qed

lemma on_grab_printed:
  assumes "length bytes \<le> length vBuffer"
  shows "printed (snd (on_grab ec bytes vBuffer)) = (if failed ec then [] else bytes)"
    and "length (fst (on_grab ec bytes vBuffer)) = length vBuffer"
  using assms
  by (simp_all add: on_grab_def vdGrabSomeData_def printed_loop overwrite_def Let_def)

text \<open>
  What the program prints of the answer is the stream of bytes as it arrived, in order and
  complete, up to the first read that reports an error (the end of the stream included), for
  every way in which the stream is cut into reads of at most the size of the buffer.
\<close>

theorem grab_prints_stream:
  assumes "\<forall>(ec, bytes) \<in> set reads. length bytes \<le> length vBuffer"
  shows "printed (snd (grab_run reads vBuffer)) =
    concat (map snd (takeWhile (\<lambda>(ec, bytes). \<not> failed ec) reads))"
  using assms
proof (induction reads arbitrary: vBuffer)
  case Nil
  then show ?case by simp
next
  case (Cons r reads)
  obtain ec bytes where r: "r = (ec, bytes)" by fastforce
  have len: "length bytes \<le> length vBuffer" using Cons.prems r by simp
  show ?case
    using Cons.IH [of "fst (on_grab ec bytes vBuffer)"] Cons.prems on_grab_printed [OF len, of ec]
    by (simp add: r andthen_conv)
qed

theorem grab_prints_stream_witness:
  "printed (snd (grab_run [(Success, [72, 84]), (Success, [84, 80]), (Eof, [])] initial_vBuffer))
     = [72, 84, 84, 80]"
proof -
  have "\<forall>(ec, bytes) \<in> set [(Success, [72, 84]), (Success, [84, 80]), (Eof, [])].
      length bytes \<le> length initial_vBuffer"
    by (simp add: initial_vBuffer_def)
  from grab_prints_stream [OF this] show ?thesis by simp
qed

text \<open>
  The test \<open>socket.is_open()\<close> does not protect the request: it is sent, and reading is
  started, whenever the socket could be opened, also after the connect has failed and the failure
  has been printed.
\<close>

theorem request_after_failed_connect:
  "Write_some (map of_char sRequest) \<in> set (asio_main open_ec connect_ec) \<longleftrightarrow> \<not> failed open_ec"
  by (auto simp: asio_main_def basic_socket_connect_def vdGrabSomeData_def Let_def)

end
