(* ===== verification/Asio_Buffer.thy ===== *)
theory Asio_Buffer
  imports Prelude
begin

text \<open>
  \<open>buffer.hpp\<close>, first part: buffers as regions of memory, and \<open>buffer_copy\<close> in its five
  variants. Memory maps addresses to bytes; a \<open>mutable_buffer\<close> or \<open>const_buffer\<close> is an
  address and a size; a sequence of buffers is one buffer or a list. Shown here: every variant
  copies exactly the bytes, in the order of the sequences, that both sides and the given limit
  allow, and touches nothing else.
\<close>

section \<open>Buffers\<close>

type_synonym memory = "nat \<Rightarrow> byte"

record buffer =
  buf_data :: nat
  buf_size :: nat

definition empty_buffer :: buffer where
  "empty_buffer = \<lparr>buf_data = 0, buf_size = 0\<rparr>"

text \<open>\<open>operator+=\<close> and \<open>operator+\<close>: skip \<open>n\<close> bytes, at most all.\<close>

definition buffer_advance :: "buffer \<Rightarrow> nat \<Rightarrow> buffer" where
  "buffer_advance b n =
     (let offset = (if n < buf_size b then n else buf_size b)
      in \<lparr>buf_data = buf_data b + offset, buf_size = buf_size b - offset\<rparr>)"

text \<open>\<open>asio::buffer(b, max_size_in_bytes)\<close>\<close>

definition buffer_limit :: "buffer \<Rightarrow> nat \<Rightarrow> buffer" where
  "buffer_limit b max_size =
     \<lparr>buf_data = buf_data b, buf_size = (if buf_size b < max_size then buf_size b else max_size)\<rparr>"

fun buffer_size :: "buffer list \<Rightarrow> nat" where
  "buffer_size [] = 0"
| "buffer_size (b # bs) = buf_size b + buffer_size bs"

definition memcpy :: "memory \<Rightarrow> nat \<Rightarrow> nat \<Rightarrow> nat \<Rightarrow> memory" where
  "memcpy m dst src n = (\<lambda>a. if dst \<le> a \<and> a < dst + n then m (src + (a - dst)) else m a)"

section \<open>Copying\<close>

definition buffer_copy_1 :: "memory \<Rightarrow> buffer \<Rightarrow> buffer \<Rightarrow> memory \<times> nat" where
  "buffer_copy_1 m target source =
     (let target_size = buf_size target;
          source_size = buf_size source;
          n = (if target_size < source_size then target_size else source_size)
      in (if n > 0 then memcpy m (buf_data target) (buf_data source) n else m, n))"

text \<open>One target, one source; with a limit.\<close>

definition copy_one_one :: "memory \<Rightarrow> buffer \<Rightarrow> buffer \<Rightarrow> memory \<times> nat" where
  "copy_one_one m target source = buffer_copy_1 m target source"

definition copy_one_one_max :: "memory \<Rightarrow> buffer \<Rightarrow> buffer \<Rightarrow> nat \<Rightarrow> memory \<times> nat" where
  "copy_one_one_max m target source max_bytes = buffer_copy_1 m target (buffer_limit source max_bytes)"

text \<open>One target and many sources: the loop over the sources.\<close>

fun copy_one_many_loop :: "memory \<Rightarrow> buffer \<Rightarrow> buffer list \<Rightarrow> nat \<Rightarrow> memory \<times> nat" where
  "copy_one_many_loop m target [] copied = (m, copied)"
| "copy_one_many_loop m target (source # sources) copied =
     (if buf_size target \<noteq> 0 then
        let (m', bytes_copied) = buffer_copy_1 m target source
        in copy_one_many_loop m' (buffer_advance target bytes_copied) sources (copied + bytes_copied)
      else (m, copied))"

definition copy_one_many :: "memory \<Rightarrow> buffer \<Rightarrow> buffer list \<Rightarrow> nat \<Rightarrow> memory \<times> nat" where
  "copy_one_many m target sources max_bytes =
     copy_one_many_loop m (buffer_limit target max_bytes) sources 0"

fun copy_many_one_loop :: "memory \<Rightarrow> buffer list \<Rightarrow> buffer \<Rightarrow> nat \<Rightarrow> memory \<times> nat" where
  "copy_many_one_loop m [] source copied = (m, copied)"
| "copy_many_one_loop m (target # targets) source copied =
     (if buf_size source \<noteq> 0 then
        let (m', bytes_copied) = buffer_copy_1 m target source
        in copy_many_one_loop m' targets (buffer_advance source bytes_copied) (copied + bytes_copied)
      else (m, copied))"

definition copy_many_one :: "memory \<Rightarrow> buffer list \<Rightarrow> buffer \<Rightarrow> nat \<Rightarrow> memory \<times> nat" where
  "copy_many_one m targets source max_bytes =
     copy_many_one_loop m targets (buffer_limit source max_bytes) 0"

text \<open>
  Many targets and many sources: the iterators are the remaining lists, with an offset into the
  first buffer of each. Each round finishes a target or a source.
\<close>

function copy_many_many_loop ::
  "memory \<Rightarrow> buffer list \<Rightarrow> nat \<Rightarrow> buffer list \<Rightarrow> nat \<Rightarrow> nat \<Rightarrow> memory \<times> nat" where
  "copy_many_many_loop m [] t_off sources s_off copied = (m, copied)"
| "copy_many_many_loop m (t # ts) t_off [] s_off copied = (m, copied)"
| "copy_many_many_loop m (t # ts) t_off (s # ss) s_off copied =
     (let target = buffer_advance t t_off;
          source = buffer_advance s s_off;
          (m', bytes_copied) = buffer_copy_1 m target source;
          (targets', t_off') = (if bytes_copied = buf_size target then (ts, 0) else (t # ts, t_off + bytes_copied));
          (sources', s_off') = (if bytes_copied = buf_size source then (ss, 0) else (s # ss, s_off + bytes_copied))
      in copy_many_many_loop m' targets' t_off' sources' s_off' (copied + bytes_copied))"
  by pat_completeness auto
termination
  by (relation "measure (\<lambda>(_, ts, _, ss, _, _). length ts + length ss)")
    (auto simp: buffer_copy_1_def Let_def split: if_splits)

text \<open>
  With a limit: \<open>left\<close> is \<open>max_bytes_to_copy - total_bytes_copied\<close>, so that the loop runs
  while it is not 0.
\<close>

function copy_many_many_max_loop ::
  "memory \<Rightarrow> buffer list \<Rightarrow> nat \<Rightarrow> buffer list \<Rightarrow> nat \<Rightarrow> nat \<Rightarrow> nat \<Rightarrow> memory \<times> nat" where
  "copy_many_many_max_loop m [] t_off sources s_off left copied = (m, copied)"
| "copy_many_many_max_loop m (t # ts) t_off [] s_off left copied = (m, copied)"
| "copy_many_many_max_loop m (t # ts) t_off (s # ss) s_off left copied =
     (if left \<noteq> 0 then
        let target = buffer_advance t t_off;
            source = buffer_advance s s_off;
            (m', bytes_copied) = buffer_copy_1 m target (buffer_limit source left);
            (targets', t_off') = (if bytes_copied = buf_size target then (ts, 0) else (t # ts, t_off + bytes_copied));
            (sources', s_off') = (if bytes_copied = buf_size source then (ss, 0) else (s # ss, s_off + bytes_copied))
        in copy_many_many_max_loop m' targets' t_off' sources' s_off' (left - bytes_copied) (copied + bytes_copied)
      else (m, copied))"
  by pat_completeness auto
termination
  by (relation "measure (\<lambda>(_, ts, _, ss, _, left, _). length ts + length ss + left)")
    (auto simp: buffer_copy_1_def buffer_limit_def Let_def split: if_splits)

definition copy_many_many :: "memory \<Rightarrow> buffer list \<Rightarrow> buffer list \<Rightarrow> memory \<times> nat" where
  "copy_many_many m targets sources = copy_many_many_loop m targets 0 sources 0 0"

definition copy_many_many_max :: "memory \<Rightarrow> buffer list \<Rightarrow> buffer list \<Rightarrow> nat \<Rightarrow> memory \<times> nat" where
  "copy_many_many_max m targets sources max_bytes =
     copy_many_many_max_loop m targets 0 sources 0 max_bytes 0"

text \<open>
  A sequence of buffers as the type of the argument tells it: one buffer, or several. The
  default limit is the largest \<open>size_t\<close>.
\<close>

datatype buffers = One_buffer buffer | Multiple_buffers "buffer list"

definition size_max :: nat where
  "size_max = 2 ^ 64 - 1"

fun buffer_copy :: "memory \<Rightarrow> buffers \<Rightarrow> buffers \<Rightarrow> memory \<times> nat" where
  "buffer_copy m (One_buffer t) (One_buffer s) = copy_one_one m t s"
| "buffer_copy m (One_buffer t) (Multiple_buffers ss) = copy_one_many m t ss size_max"
| "buffer_copy m (Multiple_buffers ts) (One_buffer s) = copy_many_one m ts s size_max"
| "buffer_copy m (Multiple_buffers ts) (Multiple_buffers ss) = copy_many_many m ts ss"

fun buffer_copy_max :: "memory \<Rightarrow> buffers \<Rightarrow> buffers \<Rightarrow> nat \<Rightarrow> memory \<times> nat" where
  "buffer_copy_max m (One_buffer t) (One_buffer s) max_bytes = copy_one_one_max m t s max_bytes"
| "buffer_copy_max m (One_buffer t) (Multiple_buffers ss) max_bytes = copy_one_many m t ss max_bytes"
| "buffer_copy_max m (Multiple_buffers ts) (One_buffer s) max_bytes = copy_many_one m ts s max_bytes"
| "buffer_copy_max m (Multiple_buffers ts) (Multiple_buffers ss) max_bytes = copy_many_many_max m ts ss max_bytes"

section \<open>The bytes of a sequence\<close>

definition addresses :: "buffer \<Rightarrow> nat list" where
  "addresses b = [buf_data b..<buf_data b + buf_size b]"

fun sequence :: "buffers \<Rightarrow> buffer list" where
  "sequence (One_buffer b) = [b]"
| "sequence (Multiple_buffers bs) = bs"

definition all_addresses :: "buffer list \<Rightarrow> nat list" where
  "all_addresses bs = concat (map addresses bs)"

lemma all_addresses_simps [simp]:
  "all_addresses [] = []" "all_addresses (b # bs) = addresses b @ all_addresses bs"
  by (simp_all add: all_addresses_def)

lemma length_addresses [simp]: "length (addresses b) = buf_size b"
  by (simp add: addresses_def)

lemma length_all_addresses: "length (all_addresses bs) = buffer_size bs"
  by (induction bs) simp_all

lemma addresses_advance: "addresses (buffer_advance b n) = drop n (addresses b)"
  by (simp add: addresses_def buffer_advance_def Let_def)

lemma addresses_limit: "addresses (buffer_limit b n) = take n (addresses b)"
  by (simp add: addresses_def buffer_limit_def min_def)

lemma size_advance [simp]: "buf_size (buffer_advance b n) = buf_size b - n"
  by (simp add: buffer_advance_def Let_def)

section \<open>Storing at a list of addresses\<close>

definition store :: "memory \<Rightarrow> nat list \<Rightarrow> byte list \<Rightarrow> memory" where
  "store m as vs = (\<lambda>a. case map_of (rev (zip as vs)) a of None \<Rightarrow> m a | Some v \<Rightarrow> v)"

lemma store_Nil [simp]: "store m [] vs = m" "store m as [] = m"
  by (simp_all add: store_def)

lemma store_append:
  assumes "length as = length vs"
  shows "store m (as @ as') (vs @ vs') = store (store m as vs) as' vs'"
  using assms by (auto simp: store_def map_add_def fun_eq_iff split: option.splits)

lemma store_outside: "a \<notin> set as \<Longrightarrow> store m as vs a = m a"
  by (auto simp: store_def split: option.splits dest!: map_of_SomeD set_zip_leftD)

lemma store_inside:
  assumes "distinct as" and "length as = length vs"
  shows "map (store m as vs) as = vs"
proof (rule nth_equalityI)
  fix i assume i: "i < length (map (store m as vs) as)"
  have "distinct (map fst (rev (zip as vs)))"
    using assms by (simp add: rev_map [symmetric])
  moreover have "(as ! i, vs ! i) \<in> set (rev (zip as vs))"
    using i assms by (auto simp: set_zip)
  ultimately have "map_of (rev (zip as vs)) (as ! i) = Some (vs ! i)"
    by (simp add: map_of_is_SomeI)
  then show "map (store m as vs) as ! i = vs ! i" using i by (simp add: store_def)
qed (simp add: assms)

lemma memcpy_store: "memcpy m d s n = store m [d..<d + n] (map m [s..<s + n])"
proof (induction n)
  case 0
  then show ?case by (auto simp: memcpy_def fun_eq_iff)
next
  case (Suc n)
  have "memcpy m d s (Suc n) = (memcpy m d s n)(d + n := m (s + n))"
    by (auto simp: memcpy_def fun_eq_iff)
  also have "\<dots> = store (store m [d..<d + n] (map m [s..<s + n])) [d + n] [m (s + n)]"
    unfolding Suc by (simp add: store_def fun_eq_iff)
  also have "\<dots> = store m [d..<d + Suc n] (map m [s..<s + Suc n])"
    by (simp add: store_append [symmetric])
  finally show ?case .
qed

section \<open>What a copy is\<close>

definition copy_spec :: "memory \<Rightarrow> nat list \<Rightarrow> nat list \<Rightarrow> memory \<times> nat" where
  "copy_spec m ta sa =
     (let n = min (length ta) (length sa) in (store m (take n ta) (map m (take n sa)), n))"

lemma copy_spec_Nil [simp]: "copy_spec m [] sa = (m, 0)" "copy_spec m ta [] = (m, 0)"
  by (simp_all add: copy_spec_def)

lemma copy_spec_step:
  assumes "k \<le> length ta" and "k \<le> length sa" and "set ta \<inter> set sa = {}"
    and "copy_spec m ta' sa' = (m', k)"
    and "take k ta' = take k ta" and "take k sa' = take k sa" and "k = min (length ta') (length sa')"
  shows "copy_spec m ta sa =
    (fst (copy_spec m' (drop k ta) (drop k sa)), k + snd (copy_spec m' (drop k ta) (drop k sa)))"
proof -
  define j where "j = min (length ta - k) (length sa - k)"
  have n: "min (length ta) (length sa) = k + j" using assms(1,2) by (simp add: j_def)
  have m': "m' = store m (take k ta) (map m (take k sa))"
    using assms(4-7) by (auto simp: copy_spec_def Let_def)
  have unchanged: "map m' (take j (drop k sa)) = map m (take j (drop k sa))"
  proof (rule map_cong [OF refl])
    fix a assume "a \<in> set (take j (drop k sa))"
    then have "a \<in> set sa" by (meson in_set_dropD in_set_takeD)
    then have "a \<notin> set (take k ta)" using assms(3) by (auto dest: in_set_takeD)
    then show "m' a = m a" unfolding m' by (rule store_outside)
  qed
  have "store m (take (k + j) ta) (map m (take (k + j) sa)) =
      store m' (take j (drop k ta)) (map m (take j (drop k sa)))"
    unfolding m' using assms(1,2) by (simp add: take_add store_append)
  moreover have "copy_spec m ta sa = (store m (take (k + j) ta) (map m (take (k + j) sa)), k + j)"
    by (simp only: copy_spec_def n Let_def)
  moreover have "copy_spec m' (drop k ta) (drop k sa) =
      (store m' (take j (drop k ta)) (map m' (take j (drop k sa))), j)"
    by (simp add: copy_spec_def j_def Let_def)
  ultimately show ?thesis using unchanged by simp
qed

lemma buffer_copy_1_spec: "buffer_copy_1 m t s = copy_spec m (addresses t) (addresses s)"
  by (auto simp: buffer_copy_1_def copy_spec_def Let_def memcpy_store addresses_def min_def)

lemma buffer_copy_1_count: "snd (buffer_copy_1 m t s) = min (buf_size t) (buf_size s)"
  by (simp add: buffer_copy_1_def Let_def)

section \<open>The loops\<close>

lemma copy_one_many_loop_spec:
  assumes "set (addresses t) \<inter> set (all_addresses ss) = {}"
  shows "copy_one_many_loop m t ss copied =
    (fst (copy_spec m (addresses t) (all_addresses ss)),
     copied + snd (copy_spec m (addresses t) (all_addresses ss)))"
  using assms
proof (induction ss arbitrary: m t copied)
  case Nil
  then show ?case by simp
next
  case (Cons s ss)
  let ?ta = "addresses t" and ?sa = "addresses s"
  show ?case
  proof (cases "buf_size t = 0")
    case True
    then have "?ta = []" by (simp add: addresses_def)
    with True show ?thesis by simp
  next
    case False
    obtain m' k where r: "buffer_copy_1 m t s = (m', k)" by fastforce
    have k: "k = min (buf_size t) (buf_size s)" using buffer_copy_1_count [of m t s] r by simp
    have "set (addresses (buffer_advance t k)) \<inter> set (all_addresses ss) = {}"
      using Cons.prems by (auto simp: addresses_advance dest: in_set_dropD)
    note IH = Cons.IH [OF this, of m' "copied + k"]
    have "copy_spec m ?ta (?sa @ all_addresses ss) =
        (fst (copy_spec m' (drop k ?ta) (drop k (?sa @ all_addresses ss))),
         k + snd (copy_spec m' (drop k ?ta) (drop k (?sa @ all_addresses ss))))"
      by (rule copy_spec_step [where ta' = ?ta and sa' = ?sa])
        (use Cons.prems r k in \<open>auto simp: buffer_copy_1_spec [symmetric]\<close>)
    moreover have "copy_spec m' (drop k ?ta) (drop k (?sa @ all_addresses ss)) =
        copy_spec m' (drop k ?ta) (all_addresses ss)"
      using k by (cases "buf_size t < buf_size s") simp_all
    ultimately show ?thesis using False r IH by (simp add: addresses_advance)
  qed
qed

lemma copy_many_one_loop_spec:
  assumes "set (all_addresses ts) \<inter> set (addresses s) = {}"
  shows "copy_many_one_loop m ts s copied =
    (fst (copy_spec m (all_addresses ts) (addresses s)),
     copied + snd (copy_spec m (all_addresses ts) (addresses s)))"
  using assms
proof (induction ts arbitrary: m s copied)
  case Nil
  then show ?case by simp
next
  case (Cons t ts)
  let ?ta = "addresses t" and ?sa = "addresses s"
  show ?case
  proof (cases "buf_size s = 0")
    case True
    then have "?sa = []" by (simp add: addresses_def)
    with True show ?thesis by simp
  next
    case False
    obtain m' k where r: "buffer_copy_1 m t s = (m', k)" by fastforce
    have k: "k = min (buf_size t) (buf_size s)" using buffer_copy_1_count [of m t s] r by simp
    have "set (all_addresses ts) \<inter> set (addresses (buffer_advance s k)) = {}"
      using Cons.prems by (auto simp: addresses_advance dest: in_set_dropD)
    note IH = Cons.IH [OF this, of m' "copied + k"]
    have "copy_spec m (?ta @ all_addresses ts) ?sa =
        (fst (copy_spec m' (drop k (?ta @ all_addresses ts)) (drop k ?sa)),
         k + snd (copy_spec m' (drop k (?ta @ all_addresses ts)) (drop k ?sa)))"
      by (rule copy_spec_step [where ta' = ?ta and sa' = ?sa])
        (use Cons.prems r k in \<open>auto simp: buffer_copy_1_spec [symmetric]\<close>)
    moreover have "copy_spec m' (drop k (?ta @ all_addresses ts)) (drop k ?sa) =
        copy_spec m' (all_addresses ts) (drop k ?sa)"
      using k by (cases "buf_size s < buf_size t") simp_all
    ultimately show ?thesis using False r IH by (simp add: addresses_advance)
  qed
qed

text \<open>The iterator and offset after \<open>k\<close> more bytes of the current buffer.\<close>

lemma next_position:
  assumes "off \<le> buf_size t" and "k \<le> buf_size t - off"
    and "(if k = buf_size t - off then (ts, 0) else (t # ts, off + k)) = (ts', off')"
  shows "drop off' (all_addresses ts') = drop k (drop off (addresses t) @ all_addresses ts)"
    and "off' \<le> buffer_size (take 1 ts')"
    and "set (all_addresses ts') \<subseteq> set (all_addresses (t # ts))"
  using assms by (cases "k = buf_size t - off"; auto simp: add.commute)+

lemma copy_many_many_loop_spec:
  assumes "t_off \<le> buffer_size (take 1 ts)" and "s_off \<le> buffer_size (take 1 ss)"
    and "set (all_addresses ts) \<inter> set (all_addresses ss) = {}"
  shows "copy_many_many_loop m ts t_off ss s_off copied =
    (fst (copy_spec m (drop t_off (all_addresses ts)) (drop s_off (all_addresses ss))),
     copied + snd (copy_spec m (drop t_off (all_addresses ts)) (drop s_off (all_addresses ss))))"
  using assms
proof (induction m ts t_off ss s_off copied rule: copy_many_many_loop.induct)
  case (3 m t ts t_off s ss s_off copied)
  let ?ta = "drop t_off (addresses t)" and ?sa = "drop s_off (addresses s)"
  let ?T = "?ta @ all_addresses ts" and ?S = "?sa @ all_addresses ss"
  have off: "t_off \<le> buf_size t" "s_off \<le> buf_size s" using 3 by simp_all
  have T: "drop t_off (all_addresses (t # ts)) = ?T" and S: "drop s_off (all_addresses (s # ss)) = ?S"
    using off by simp_all
  obtain m' k where r: "buffer_copy_1 m (buffer_advance t t_off) (buffer_advance s s_off) = (m', k)"
    by fastforce
  have k: "k = min (buf_size t - t_off) (buf_size s - s_off)"
    using buffer_copy_1_count [of m "buffer_advance t t_off" "buffer_advance s s_off"] r by simp
  obtain ts' t_off' where t': "(if k = buf_size t - t_off then (ts, 0) else (t # ts, t_off + k)) = (ts', t_off')"
    by fastforce
  obtain ss' s_off' where s': "(if k = buf_size s - s_off then (ss, 0) else (s # ss, s_off + k)) = (ss', s_off')"
    by fastforce
  have "k \<le> buf_size t - t_off" "k \<le> buf_size s - s_off" using k by simp_all
  note dT = next_position [OF off(1) this(1) t'] and dS = next_position [OF off(2) this(2) s']
  have disj': "set (all_addresses ts') \<inter> set (all_addresses ss') = {}"
    using dT(3) dS(3) "3.prems"(3) by blast
  have step: "copy_many_many_loop m (t # ts) t_off (s # ss) s_off copied =
      copy_many_many_loop m' ts' t_off' ss' s_off' (copied + k)"
    using r t' s' by simp
  have IH: "copy_many_many_loop m' ts' t_off' ss' s_off' (copied + k) =
      (fst (copy_spec m' (drop k ?T) (drop k ?S)), copied + k + snd (copy_spec m' (drop k ?T) (drop k ?S)))"
    using "3.IH" [OF refl refl r [symmetric] refl _ refl _ refl, of ts' t_off' ss' s_off']
      t' s' dT dS disj' by simp
  have "set ?T \<inter> set ?S = {}" using "3.prems"(3) by (auto dest: in_set_dropD)
  then have "copy_spec m ?T ?S =
      (fst (copy_spec m' (drop k ?T) (drop k ?S)), k + snd (copy_spec m' (drop k ?T) (drop k ?S)))"
    by (intro copy_spec_step [where ta' = ?ta and sa' = ?sa])
      (use r k in \<open>auto simp: buffer_copy_1_spec addresses_advance\<close>)
  with step IH T S show ?case by simp
qed simp_all

lemma copy_many_many_max_loop_spec:
  assumes "t_off \<le> buffer_size (take 1 ts)" and "s_off \<le> buffer_size (take 1 ss)"
    and "set (all_addresses ts) \<inter> set (all_addresses ss) = {}"
  shows "copy_many_many_max_loop m ts t_off ss s_off left copied =
    (fst (copy_spec m (drop t_off (all_addresses ts)) (take left (drop s_off (all_addresses ss)))),
     copied + snd (copy_spec m (drop t_off (all_addresses ts)) (take left (drop s_off (all_addresses ss)))))"
  using assms
proof (induction m ts t_off ss s_off left copied rule: copy_many_many_max_loop.induct)
  case (3 m t ts t_off s ss s_off left copied)
  let ?ta = "drop t_off (addresses t)" and ?sa = "drop s_off (addresses s)"
  let ?T = "?ta @ all_addresses ts" and ?S = "?sa @ all_addresses ss"
  show ?case
  proof (cases "left = 0")
    case True
    then show ?thesis by simp
  next
    case False
    have off: "t_off \<le> buf_size t" "s_off \<le> buf_size s" using 3 by simp_all
    have T: "drop t_off (all_addresses (t # ts)) = ?T" and S: "drop s_off (all_addresses (s # ss)) = ?S"
      using off by simp_all
    obtain m' k where r: "buffer_copy_1 m (buffer_advance t t_off)
        (buffer_limit (buffer_advance s s_off) left) = (m', k)" by fastforce
    have k: "k = min (buf_size t - t_off) (min (buf_size s - s_off) left)"
      using buffer_copy_1_count [of m "buffer_advance t t_off" "buffer_limit (buffer_advance s s_off) left"] r
      by (auto simp: buffer_limit_def)
    obtain ts' t_off' where t': "(if k = buf_size t - t_off then (ts, 0) else (t # ts, t_off + k)) = (ts', t_off')"
      by fastforce
    obtain ss' s_off' where s': "(if k = buf_size s - s_off then (ss, 0) else (s # ss, s_off + k)) = (ss', s_off')"
      by fastforce
    have "k \<le> buf_size t - t_off" "k \<le> buf_size s - s_off" using k by simp_all
    note dT = next_position [OF off(1) this(1) t'] and dS = next_position [OF off(2) this(2) s']
    have disj': "set (all_addresses ts') \<inter> set (all_addresses ss') = {}"
      using dT(3) dS(3) "3.prems"(3) by blast
    have step: "copy_many_many_max_loop m (t # ts) t_off (s # ss) s_off left copied =
        copy_many_many_max_loop m' ts' t_off' ss' s_off' (left - k) (copied + k)"
      using r t' s' False by simp
    let ?R = "copy_spec m' (drop k ?T) (take (left - k) (drop k ?S))"
    have IH: "copy_many_many_max_loop m' ts' t_off' ss' s_off' (left - k) (copied + k) =
        (fst ?R, copied + k + snd ?R)"
      using "3.IH" [OF False refl refl r [symmetric] refl _ refl _ refl, of ts' t_off' ss' s_off']
        t' s' dT dS disj' by simp
    have "set ?T \<inter> set (take left ?S) = {}"
      using "3.prems"(3) by (auto dest: in_set_dropD in_set_takeD)
    moreover have "copy_spec m ?ta (take left ?sa) = (m', k)"
      using r by (simp add: buffer_copy_1_spec addresses_advance addresses_limit)
    moreover have "k \<le> length ?T" "k \<le> length (take left ?S)" "take k ?ta = take k ?T"
        "take k (take left ?sa) = take k (take left ?S)"
        "k = min (length ?ta) (length (take left ?sa))"
      using k by (simp_all add: min.coboundedI1 min.coboundedI2 min.commute min.assoc)
    ultimately have "copy_spec m ?T (take left ?S) =
        (fst (copy_spec m' (drop k ?T) (drop k (take left ?S))),
         k + snd (copy_spec m' (drop k ?T) (drop k (take left ?S))))"
      by (intro copy_spec_step)
    then show ?thesis unfolding step IH T S by (simp only: drop_take fst_conv snd_conv add.assoc)
  qed
qed simp_all

section \<open>Every variant\<close>

lemma copy_spec_limit_target:
  "copy_spec m (take n ta) sa = copy_spec m ta (take n sa)"
  by (simp add: copy_spec_def Let_def min.commute min.left_commute min.assoc)

lemma buffer_copy_max_spec:
  assumes "set (all_addresses (sequence T)) \<inter> set (all_addresses (sequence S)) = {}"
  shows "buffer_copy_max m T S n =
    copy_spec m (all_addresses (sequence T)) (take n (all_addresses (sequence S)))"
proof (cases T; cases S)
  fix t s assume "T = One_buffer t" "S = One_buffer s"
  then show ?thesis by (simp add: copy_one_one_max_def buffer_copy_1_spec addresses_limit)
next
  fix t ss assume T: "T = One_buffer t" and S: "S = Multiple_buffers ss"
  have "set (addresses (buffer_limit t n)) \<inter> set (all_addresses ss) = {}"
    using assms T S by (auto simp: addresses_limit dest: in_set_takeD)
  from copy_one_many_loop_spec [OF this, of m 0] T S show ?thesis
    by (simp add: copy_one_many_def addresses_limit copy_spec_limit_target)
next
  fix ts s assume T: "T = Multiple_buffers ts" and S: "S = One_buffer s"
  have "set (all_addresses ts) \<inter> set (addresses (buffer_limit s n)) = {}"
    using assms T S by (auto simp: addresses_limit dest: in_set_takeD)
  from copy_many_one_loop_spec [OF this, of m 0] T S show ?thesis
    by (simp add: copy_many_one_def addresses_limit)
next
  fix ts ss assume T: "T = Multiple_buffers ts" and S: "S = Multiple_buffers ss"
  then show ?thesis
    using copy_many_many_max_loop_spec [of 0 ts 0 ss m n 0] assms by (simp add: copy_many_many_max_def)
qed

lemma buffer_copy_spec:
  assumes "set (all_addresses (sequence T)) \<inter> set (all_addresses (sequence S)) = {}"
    and "buffer_size (sequence T) \<le> size_max" and "buffer_size (sequence S) \<le> size_max"
  shows "buffer_copy m T S = copy_spec m (all_addresses (sequence T)) (all_addresses (sequence S))"
proof -
  have "take size_max (all_addresses (sequence S)) = all_addresses (sequence S)"
    using assms(3) by (simp add: length_all_addresses)
  note max = buffer_copy_max_spec [OF assms(1), of m size_max, unfolded this]
  show ?thesis
  proof (cases T; cases S)
    fix t s assume "T = One_buffer t" "S = One_buffer s"
    then show ?thesis by (simp add: copy_one_one_def buffer_copy_1_spec)
  next
    fix ts ss assume T: "T = Multiple_buffers ts" and S: "S = Multiple_buffers ss"
    then show ?thesis
      using copy_many_many_loop_spec [of 0 ts 0 ss m 0] assms by (simp add: copy_many_many_def)
  qed (use max in simp_all)
qed

lemma copy_spec_meaning:
  assumes "distinct ta" and "set ta \<inter> set sa = {}" and "copy_spec m ta sa = (m', n)"
  shows "n = min (length ta) (length sa) \<and> map m' (take n ta) = map m (take n sa)
    \<and> (\<forall>a. a \<notin> set (take n ta) \<longrightarrow> m' a = m a)"
  using assms(1,3) by (auto simp: copy_spec_def Let_def store_inside store_outside)

text \<open>
  \<open>buffer_copy\<close>, in each of its variants (one or several buffers on each side, with or
  without a limit): it copies as many bytes as the target sequence, the source sequence and the
  limit allow, in the order of the sequences whatever their division into buffers, returns that
  number, and changes nothing else. The targets must not overlap each other or the sources.
\<close>

theorem buffer_copy_correct:
  assumes "distinct (all_addresses (sequence T))"
    and "set (all_addresses (sequence T)) \<inter> set (all_addresses (sequence S)) = {}"
    and "buffer_size (sequence T) \<le> size_max" and "buffer_size (sequence S) \<le> size_max"
    and "limit = None \<and> buffer_copy m T S = (m', n) \<or> limit = Some l \<and> buffer_copy_max m T S l = (m', n)"
  shows "n = min (buffer_size (sequence T))
               (case limit of None \<Rightarrow> buffer_size (sequence S) | Some l \<Rightarrow> min l (buffer_size (sequence S)))
    \<and> map m' (take n (all_addresses (sequence T))) = map m (take n (all_addresses (sequence S)))
    \<and> (\<forall>a. a \<notin> set (take n (all_addresses (sequence T))) \<longrightarrow> m' a = m a)"
  using assms(5)
proof (elim disjE conjE)
  assume l: "limit = None" and c: "buffer_copy m T S = (m', n)"
  from copy_spec_meaning [OF assms(1,2)] c l show ?thesis
    unfolding buffer_copy_spec [OF assms(2-4)] by (auto simp: length_all_addresses)
next
  assume l: "limit = Some l" and c: "buffer_copy_max m T S l = (m', n)"
  have "set (all_addresses (sequence T)) \<inter> set (take l (all_addresses (sequence S))) = {}"
    using assms(2) by (auto dest: in_set_takeD)
  note m = copy_spec_meaning [OF assms(1) this c [unfolded buffer_copy_max_spec [OF assms(2)]]]
  then have "min n l = n" by (simp add: min_def)
  with m l show ?thesis by (simp add: length_all_addresses min.commute) metis
qed

theorem buffer_copy_correct_witness:
  "snd (buffer_copy_max (\<lambda>a. of_nat a)
      (Multiple_buffers [\<lparr>buf_data = 100, buf_size = 2\<rparr>, \<lparr>buf_data = 200, buf_size = 3\<rparr>])
      (Multiple_buffers [\<lparr>buf_data = 10, buf_size = 1\<rparr>, \<lparr>buf_data = 20, buf_size = 7\<rparr>]) 4) = 4"
proof -
  let ?T = "Multiple_buffers [\<lparr>buf_data = 100, buf_size = 2\<rparr>, \<lparr>buf_data = 200, buf_size = 3\<rparr>]"
  let ?S = "Multiple_buffers [\<lparr>buf_data = 10, buf_size = 1\<rparr>, \<lparr>buf_data = 20, buf_size = 7\<rparr>]"
  obtain m' n where c: "buffer_copy_max (\<lambda>a. of_nat a) ?T ?S 4 = (m', n)" by fastforce
  have "n = min (buffer_size (sequence ?T))
      (case Some 4 of None \<Rightarrow> buffer_size (sequence ?S) | Some l \<Rightarrow> min l (buffer_size (sequence ?S)))"
    using buffer_copy_correct [of ?T ?S "Some 4" "\<lambda>a. of_nat a" m' n 4] c
    by (auto simp: addresses_def size_max_def)
  with c show ?thesis by simp
qed

end
