(* ===== verification/Asio_Dynamic_Buffer.thy ===== *)
theory Asio_Dynamic_Buffer
  imports Asio_Buffer
begin

text \<open>
  \<open>buffer.hpp\<close>, second part: the adapters that make a string or a vector of bytes a dynamic
  buffer, in both versions of that interface. The storage is the list of its bytes, a region of
  it a buffer relative to its start. What the read operations need of a dynamic buffer is a
  locale, here provided by strings and vectors and in \<open>Asio_Streambuf\<close> by stream buffers.
  Shown here: the input sequence is a first-in first-out queue of bytes, and where the two
  adapters differ.
\<close>

section \<open>The contract\<close>

text \<open>
  Version 1: \<open>prepare\<close> gives a region of storage behind the input sequence (or throws
  \<open>length_error\<close>: \<open>None\<close>), bytes are put there, \<open>commit\<close> appends them to the input
  sequence, and \<open>consume\<close> removes bytes at its front. \<open>limit\<close> bounds the input sequence.
\<close>

locale dynamic_buffer_v1 =
  fixes inv :: "'b \<Rightarrow> bool"
    and contents :: "'b \<Rightarrow> byte list"
    and limit :: "'b \<Rightarrow> nat"
    and prepare :: "nat \<Rightarrow> 'b \<Rightarrow> ('b \<times> buffer) option"
    and fill :: "buffer \<Rightarrow> byte list \<Rightarrow> 'b \<Rightarrow> 'b"
    and commit :: "nat \<Rightarrow> 'b \<Rightarrow> 'b"
    and consume :: "nat \<Rightarrow> 'b \<Rightarrow> 'b"
  assumes prepare_iff: "inv b \<Longrightarrow> prepare n b \<noteq> None \<longleftrightarrow> length (contents b) + n \<le> limit b"
    and prepare_region: "inv b \<Longrightarrow> prepare n b = Some (b', r) \<Longrightarrow> buf_size r = n"
    and commit_inv: "inv b \<Longrightarrow> prepare n b = Some (b', r) \<Longrightarrow> length bs \<le> n \<Longrightarrow>
      inv (commit (length bs) (fill r bs b'))"
    and commit_contents: "inv b \<Longrightarrow> prepare n b = Some (b', r) \<Longrightarrow> length bs \<le> n \<Longrightarrow>
      contents (commit (length bs) (fill r bs b')) = contents b @ bs"
    and commit_limit: "inv b \<Longrightarrow> prepare n b = Some (b', r) \<Longrightarrow> length bs \<le> n \<Longrightarrow>
      limit (commit (length bs) (fill r bs b')) = limit b"
    and consume_inv: "inv b \<Longrightarrow> inv (consume n b)"
    and consume_contents: "inv b \<Longrightarrow> contents (consume n b) = drop n (contents b)"
    and consume_limit: "inv b \<Longrightarrow> limit (consume n b) = limit b"
    and contents_limit: "inv b \<Longrightarrow> length (contents b) \<le> limit b"
begin

text \<open>Putting bytes in, the way a read operation does.\<close>

definition put :: "nat \<Rightarrow> byte list \<Rightarrow> 'b \<Rightarrow> 'b option" where
  "put n bs b = (case prepare n b of None \<Rightarrow> None
     | Some (b', r) \<Rightarrow> Some (commit (length bs) (fill r bs b')))"

lemma put_Some:
  assumes "inv b" and "length bs \<le> n" and "length (contents b) + n \<le> limit b"
  shows "\<exists>b'. put n bs b = Some b' \<and> inv b' \<and> contents b' = contents b @ bs \<and> limit b' = limit b"
proof -
  obtain b' r where "prepare n b = Some (b', r)"
    using prepare_iff [OF assms(1), of n] assms(3) by (cases "prepare n b") auto
  with assms show ?thesis
    by (simp add: put_def commit_inv commit_contents commit_limit)
qed

lemma put_None: "inv b \<Longrightarrow> limit b < length (contents b) + n \<Longrightarrow> put n bs b = None"
  using prepare_iff [of b n] by (auto simp: put_def split: option.splits)

text \<open>A sequence of puts and takes, as the reader of a stream makes them.\<close>

primrec run :: "(byte list + nat) list \<Rightarrow> 'b \<Rightarrow> 'b option" where
  "run [] b = Some b"
| "run (step # steps) b =
     (case (case step of Inl bs \<Rightarrow> put (length bs) bs b | Inr n \<Rightarrow> Some (consume n b)) of
        None \<Rightarrow> None | Some b' \<Rightarrow> run steps b')"

lemma run_contents:
  "inv b \<Longrightarrow> run steps b = Some b' \<Longrightarrow> inv b' \<and> limit b' = limit b \<and>
     contents b' = fold (\<lambda>step xs. case step of Inl bs \<Rightarrow> xs @ bs | Inr n \<Rightarrow> drop n xs) steps (contents b)"
proof (induction steps arbitrary: b)
  case Nil
  then show ?case by simp
next
  case (Cons step steps)
  show ?case
  proof (cases step)
    case (Inl bs)
    then obtain b1 where b1: "put (length bs) bs b = Some b1" "run steps b1 = Some b'"
      using Cons.prems(2) by (auto split: option.splits)
    then have "length (contents b) + length bs \<le> limit b"
      using put_None [OF Cons.prems(1), of "length bs" bs] by fastforce
    from put_Some [OF Cons.prems(1) order_refl this] b1 Inl Cons.IH [of b1] show ?thesis
      by auto
  next
    case (Inr n)
    with Cons.prems Cons.IH [of "consume n b"] show ?thesis
      by (simp add: consume_inv consume_contents consume_limit)
  qed
qed

end

section \<open>Strings and vectors\<close>

text \<open>
  \<open>dyn_size\<close> is \<open>size_\<close>, where the largest \<open>size_t\<close> marks a buffer not yet used through
  version 1. A container cannot grow beyond \<open>container_max\<close> elements: \<open>resize\<close> throws
  \<open>length_error\<close>, too.
\<close>

record dyn_buffer =
  storage :: "byte list"
  dyn_size :: nat
  dyn_max :: nat

definition container_max :: nat where
  "container_max = 2 ^ 63 - 1"

definition resized :: "nat \<Rightarrow> dyn_buffer \<Rightarrow> dyn_buffer option" where
  "resized n d = (if n \<le> container_max then Some (d\<lparr>storage := vec_resize n (storage d)\<rparr>) else None)"

text \<open>The region of the whole storage.\<close>

definition whole :: "dyn_buffer \<Rightarrow> buffer" where
  "whole d = \<lparr>buf_data = 0, buf_size = length (storage d)\<rparr>"

definition string_buffer :: "byte list \<Rightarrow> nat \<Rightarrow> dyn_buffer" where
  "string_buffer s maximum_size = \<lparr>storage = s, dyn_size = size_max, dyn_max = maximum_size\<rparr>"

definition string_max_size :: "dyn_buffer \<Rightarrow> nat" where
  "string_max_size d = dyn_max d"

definition string_size :: "dyn_buffer \<Rightarrow> nat" where
  "string_size d =
     (if dyn_size d \<noteq> size_max then dyn_size d else min (length (storage d)) (string_max_size d))"

definition string_capacity :: "nat \<Rightarrow> dyn_buffer \<Rightarrow> nat" where
  "string_capacity cap d = min cap (string_max_size d)"

definition string_data :: "dyn_buffer \<Rightarrow> buffer" where
  "string_data d = buffer_limit (whole d) (dyn_size d)"

definition string_data_at :: "nat \<Rightarrow> nat \<Rightarrow> dyn_buffer \<Rightarrow> buffer" where
  "string_data_at pos n d =
     buffer_limit (buffer_advance (buffer_limit (whole d) (dyn_max d)) pos) n"

definition string_prepare :: "nat \<Rightarrow> dyn_buffer \<Rightarrow> (dyn_buffer \<times> buffer) option" where
  "string_prepare n d =
     (if string_size d > string_max_size d \<or> string_max_size d - string_size d < n then None
      else
        let d1 = (if dyn_size d = size_max then d\<lparr>dyn_size := length (storage d)\<rparr> else d)
        in case resized (dyn_size d1 + n) d1 of
             None \<Rightarrow> None
           | Some d2 \<Rightarrow> Some (d2, buffer_limit (buffer_advance (whole d2) (dyn_size d2)) n))"

definition string_commit :: "nat \<Rightarrow> dyn_buffer \<Rightarrow> dyn_buffer" where
  "string_commit n d =
     (let size = dyn_size d + min n (length (storage d) - dyn_size d)
      in d\<lparr>dyn_size := size, storage := vec_resize size (storage d)\<rparr>)"

definition string_grow :: "nat \<Rightarrow> dyn_buffer \<Rightarrow> dyn_buffer option" where
  "string_grow n d =
     (if string_size d > string_max_size d \<or> string_max_size d - string_size d < n then None
      else resized (string_size d + n) d)"

definition string_shrink :: "nat \<Rightarrow> dyn_buffer \<Rightarrow> dyn_buffer" where
  "string_shrink n d =
     d\<lparr>storage := vec_resize (if n > string_size d then 0 else string_size d - n) (storage d)\<rparr>"

definition string_consume :: "nat \<Rightarrow> dyn_buffer \<Rightarrow> dyn_buffer" where
  "string_consume n d =
     (if dyn_size d \<noteq> size_max then
        let consume_length = min n (dyn_size d)
        in d\<lparr>storage := drop consume_length (storage d), dyn_size := dyn_size d - consume_length\<rparr>
      else d\<lparr>storage := drop n (storage d)\<rparr>)"

text \<open>The adapter for vectors.\<close>

definition vector_buffer :: "byte list \<Rightarrow> nat \<Rightarrow> dyn_buffer" where
  "vector_buffer v maximum_size = \<lparr>storage = v, dyn_size = size_max, dyn_max = maximum_size\<rparr>"

definition vector_max_size :: "dyn_buffer \<Rightarrow> nat" where
  "vector_max_size d = dyn_max d"

definition vector_size :: "dyn_buffer \<Rightarrow> nat" where
  "vector_size d =
     (if dyn_size d \<noteq> size_max then dyn_size d else min (length (storage d)) (vector_max_size d))"

definition vector_capacity :: "nat \<Rightarrow> dyn_buffer \<Rightarrow> nat" where
  "vector_capacity cap d = min cap (vector_max_size d)"

definition vector_data :: "dyn_buffer \<Rightarrow> buffer" where
  "vector_data d = buffer_limit (whole d) (dyn_size d)"

definition vector_data_at :: "nat \<Rightarrow> nat \<Rightarrow> dyn_buffer \<Rightarrow> buffer" where
  "vector_data_at pos n d =
     buffer_limit (buffer_advance (buffer_limit (whole d) (dyn_max d)) pos) n"

definition vector_prepare :: "nat \<Rightarrow> dyn_buffer \<Rightarrow> (dyn_buffer \<times> buffer) option" where
  "vector_prepare n d =
     (if vector_size d > vector_max_size d \<or> vector_max_size d - vector_size d < n then None
      else
        let d1 = (if dyn_size d = size_max then d\<lparr>dyn_size := length (storage d)\<rparr> else d)
        in case resized (dyn_size d1 + n) d1 of
             None \<Rightarrow> None
           | Some d2 \<Rightarrow> Some (d2, buffer_limit (buffer_advance (whole d2) (dyn_size d2)) n))"

definition vector_commit :: "nat \<Rightarrow> dyn_buffer \<Rightarrow> dyn_buffer" where
  "vector_commit n d =
     (let size = dyn_size d + min n (length (storage d) - dyn_size d)
      in d\<lparr>dyn_size := size, storage := vec_resize size (storage d)\<rparr>)"

definition vector_grow :: "nat \<Rightarrow> dyn_buffer \<Rightarrow> dyn_buffer option" where
  "vector_grow n d =
     (if vector_size d > vector_max_size d \<or> vector_max_size d - vector_size d < n then None
      else resized (vector_size d + n) d)"

definition vector_shrink :: "nat \<Rightarrow> dyn_buffer \<Rightarrow> dyn_buffer" where
  "vector_shrink n d =
     d\<lparr>storage := vec_resize (if n > vector_size d then 0 else vector_size d - n) (storage d)\<rparr>"

definition vector_consume :: "nat \<Rightarrow> dyn_buffer \<Rightarrow> dyn_buffer" where
  "vector_consume n d =
     (if dyn_size d \<noteq> size_max then
        let consume_length = min n (dyn_size d)
        in d\<lparr>storage := drop consume_length (storage d), dyn_size := dyn_size d - consume_length\<rparr>
      else d\<lparr>storage := drop (min (vector_size d) n) (storage d)\<rparr>)"

lemmas vector_string = vector_buffer_def string_buffer_def vector_max_size_def string_max_size_def
  vector_size_def string_size_def vector_capacity_def string_capacity_def vector_data_def
  string_data_def vector_data_at_def string_data_at_def vector_prepare_def string_prepare_def
  vector_commit_def string_commit_def vector_grow_def string_grow_def vector_shrink_def
  string_shrink_def vector_consume_def string_consume_def

section \<open>They provide the contract\<close>

definition dyn_contents :: "dyn_buffer \<Rightarrow> byte list" where
  "dyn_contents d = (if dyn_size d = size_max then storage d else take (dyn_size d) (storage d))"

definition dyn_limit :: "dyn_buffer \<Rightarrow> nat" where
  "dyn_limit d = min (dyn_max d) container_max"

definition dyn_inv :: "dyn_buffer \<Rightarrow> bool" where
  "dyn_inv d \<longleftrightarrow> (if dyn_size d = size_max then length (storage d) \<le> dyn_limit d
     else dyn_size d \<le> length (storage d) \<and> dyn_size d \<le> dyn_limit d)"

text \<open>Bytes put into a region of the storage.\<close>

definition dyn_fill :: "buffer \<Rightarrow> byte list \<Rightarrow> dyn_buffer \<Rightarrow> dyn_buffer" where
  "dyn_fill r bs d = d\<lparr>storage := copy_at (buf_data r) bs (storage d)\<rparr>"

lemma maxima: "container_max < size_max"
  by (simp add: container_max_def size_max_def)

lemma string_size_contents: "dyn_inv d \<Longrightarrow> string_size d = length (dyn_contents d)"
  by (auto simp: dyn_inv_def string_size_def dyn_contents_def dyn_limit_def string_max_size_def split: if_splits)

lemma string_prepare_cases:
  assumes "dyn_inv d"
  shows "string_prepare n d =
    (if length (dyn_contents d) + n \<le> dyn_limit d then
       Some (\<lparr>storage = vec_resize (length (dyn_contents d) + n) (storage d),
              dyn_size = length (dyn_contents d), dyn_max = dyn_max d\<rparr>,
             \<lparr>buf_data = length (dyn_contents d), buf_size = n\<rparr>)
     else None)"
  using assms string_size_contents [OF assms] maxima
  by (cases d)
    (auto simp: string_prepare_def resized_def dyn_contents_def dyn_inv_def dyn_limit_def Let_def
      string_max_size_def whole_def buffer_advance_def buffer_limit_def)

lemma string_commit_result:
  assumes inv: "dyn_inv d" and p: "string_prepare n d = Some (d', r)" and len: "length bs \<le> n"
  shows "string_commit (length bs) (dyn_fill r bs d') =
    \<lparr>storage = dyn_contents d @ bs, dyn_size = length (dyn_contents d @ bs), dyn_max = dyn_max d\<rparr>"
proof -
  let ?L = "length (dyn_contents d)"
  have d': "d' = \<lparr>storage = vec_resize (?L + n) (storage d), dyn_size = ?L, dyn_max = dyn_max d\<rparr>"
    and r: "buf_data r = ?L"
    using p unfolding string_prepare_cases [OF inv] by (auto split: if_splits)
  have front: "take ?L (vec_resize (?L + n) (storage d)) = dyn_contents d" "?L \<le> length (storage d)"
    using inv by (auto simp: vec_resize_def dyn_contents_def dyn_inv_def split: if_splits)
  have "copy_at ?L bs (vec_resize (?L + n) (storage d)) =
      (dyn_contents d @ bs) @ drop (?L + length bs) (vec_resize (?L + n) (storage d))"
    by (simp add: copy_at_def front(1))
  then show ?thesis
    unfolding d' using len r
    by (simp add: string_commit_def dyn_fill_def Let_def vec_resize_shrink)
qed

lemma string_consume_contents:
  assumes "dyn_inv d"
  shows "dyn_contents (string_consume n d) = drop n (dyn_contents d)"
    and "dyn_inv (string_consume n d)" and "dyn_limit (string_consume n d) = dyn_limit d"
  using assms maxima
  by (auto simp: string_consume_def dyn_contents_def dyn_inv_def dyn_limit_def Let_def drop_take min_def
      split: if_splits)

lemma dyn_committed:
  assumes "length xs \<le> dyn_limit d"
  shows "dyn_inv \<lparr>storage = xs, dyn_size = length xs, dyn_max = dyn_max d\<rparr>"
    and "dyn_contents \<lparr>storage = xs, dyn_size = length xs, dyn_max = dyn_max d\<rparr> = xs"
    and "dyn_limit \<lparr>storage = xs, dyn_size = length xs, dyn_max = dyn_max d\<rparr> = dyn_limit d"
  using assms by (auto simp: dyn_inv_def dyn_contents_def dyn_limit_def)

interpretation dyn_string: dynamic_buffer_v1 dyn_inv dyn_contents dyn_limit string_prepare dyn_fill
  string_commit string_consume
proof
  fix d n
  assume inv: "dyn_inv d"
  show "string_prepare n d \<noteq> None \<longleftrightarrow> length (dyn_contents d) + n \<le> dyn_limit d"
    by (simp add: string_prepare_cases [OF inv])
  show "dyn_inv (string_consume n d)" "dyn_contents (string_consume n d) = drop n (dyn_contents d)"
    "dyn_limit (string_consume n d) = dyn_limit d"
    by (rule string_consume_contents [OF inv])+
  show "length (dyn_contents d) \<le> dyn_limit d"
    using inv by (auto simp: dyn_inv_def dyn_contents_def split: if_splits)
next
  fix d n d' r and bs :: "byte list"
  assume inv: "dyn_inv d" and p: "string_prepare n d = Some (d', r)"
  then show "buf_size r = n"
    unfolding string_prepare_cases [OF inv] by (auto split: if_splits)
  assume len: "length bs \<le> n"
  have "length (dyn_contents d @ bs) \<le> dyn_limit d"
    using p len unfolding string_prepare_cases [OF inv] by (auto split: if_splits)
  from dyn_committed [OF this]
  show "dyn_inv (string_commit (length bs) (dyn_fill r bs d'))"
    "dyn_contents (string_commit (length bs) (dyn_fill r bs d')) = dyn_contents d @ bs"
    "dyn_limit (string_commit (length bs) (dyn_fill r bs d')) = dyn_limit d"
    unfolding string_commit_result [OF inv p len] by simp_all
qed

lemma vector_string_same: "vector_prepare = string_prepare" "vector_commit = string_commit"
  by (simp_all add: fun_eq_iff vector_string)

lemma vector_consume_inv: "dyn_inv d \<Longrightarrow> vector_consume n d = string_consume n d"
  by (auto simp: vector_consume_def string_consume_def dyn_inv_def dyn_limit_def vector_size_def
      vector_max_size_def min_def split: if_splits)

interpretation dyn_vector: dynamic_buffer_v1 dyn_inv dyn_contents dyn_limit vector_prepare dyn_fill
  vector_commit vector_consume
  unfolding vector_string_same
  using dyn_string.prepare_iff dyn_string.prepare_region dyn_string.commit_inv
    dyn_string.commit_contents dyn_string.commit_limit dyn_string.consume_inv
    dyn_string.consume_contents dyn_string.consume_limit dyn_string.contents_limit
  by unfold_locales (simp_all add: vector_consume_inv)

section \<open>Version 2, and the difference\<close>

text \<open>
  A string adapted as a dynamic buffer is a first-in first-out queue of bytes, whatever was
  in the string before: after any sequence of puts (prepare, store, commit) and consumes that
  does not throw, the input sequence is what was appended less what was consumed, it never
  exceeds the maximum size, and \<open>size()\<close> is its length.
\<close>

theorem string_buffer_fifo:
  assumes "length s \<le> maximum_size" and "length s \<le> container_max"
    and "dyn_string.run steps (string_buffer s maximum_size) = Some d"
  shows "dyn_contents d =
      fold (\<lambda>step xs. case step of Inl bs \<Rightarrow> xs @ bs | Inr n \<Rightarrow> drop n xs) steps s
    \<and> string_size d = length (dyn_contents d) \<and> string_size d \<le> maximum_size"
proof -
  let ?d = "string_buffer s maximum_size"
  have inv: "dyn_inv ?d" and c: "dyn_contents ?d = s" and m: "dyn_limit ?d \<le> maximum_size"
    using assms(1,2) by (simp_all add: dyn_inv_def dyn_contents_def dyn_limit_def string_buffer_def)
  from dyn_string.run_contents [OF inv assms(3)] c m show ?thesis
    using string_size_contents [of d] dyn_string.contents_limit [of d] by auto
qed

theorem string_buffer_fifo_witness:
  "\<exists>d. dyn_string.run [Inl [3, 4], Inr 1] (string_buffer [1, 2] 100) = Some d \<and> dyn_contents d = [2, 3, 4]"
proof -
  have l: "length [1, 2 :: byte] \<le> 100" "length [1, 2 :: byte] \<le> container_max"
    by (simp_all add: container_max_def)
  have inv: "dyn_inv (string_buffer [1, 2] 100)" and c: "dyn_contents (string_buffer [1, 2] 100) = [1, 2]"
    and lim: "dyn_limit (string_buffer [1, 2] 100) = 100"
    by (simp_all add: dyn_inv_def dyn_contents_def dyn_limit_def string_buffer_def container_max_def)
  obtain d1 where "dyn_string.put (length [3, 4 :: byte]) [3, 4] (string_buffer [1, 2] 100) = Some d1"
    using dyn_string.put_Some [OF inv, of "[3, 4]" "length [3, 4 :: byte]"] c lim by auto
  then obtain d where d: "dyn_string.run [Inl [3, 4], Inr 1] (string_buffer [1, 2] 100) = Some d"
    by simp
  with string_buffer_fifo [OF l d] show ?thesis by simp
qed

lemma string_grow_shrink:
  assumes "dyn_size d = size_max" and "length (storage d) + n \<le> dyn_limit d"
  shows "string_grow n d = Some (d\<lparr>storage := storage d @ replicate n 0\<rparr>)"
    and "string_shrink n (d\<lparr>storage := storage d @ replicate n 0\<rparr>) = d"
proof -
  have s: "string_size d = length (storage d)" and m: "length (storage d) + n \<le> dyn_max d"
      "length (storage d) + n \<le> container_max"
    using assms by (simp_all add: string_size_def string_max_size_def dyn_limit_def)
  show "string_grow n d = Some (d\<lparr>storage := storage d @ replicate n 0\<rparr>)"
    using m by (simp add: string_grow_def s string_max_size_def resized_def vec_resize_def)
  have "string_size (d\<lparr>storage := storage d @ replicate n 0\<rparr>) = length (storage d) + n"
    using assms(1) m by (simp add: string_size_def string_max_size_def)
  then show "string_shrink n (d\<lparr>storage := storage d @ replicate n 0\<rparr>) = d"
    by (simp add: string_shrink_def vec_resize_shrink)
qed

text \<open>
  The adapters for strings and vectors behave alike in every operation, with one
  exception: a \<open>consume\<close> in version 2 on a storage longer than the maximum size. There the
  string loses as many bytes as asked for, the vector at most the maximum size.
\<close>

theorem string_vector_consume:
  "string_consume n d = vector_consume n d \<longleftrightarrow>
     dyn_size d \<noteq> size_max \<or> length (storage d) \<le> dyn_max d \<or> n \<le> dyn_max d"
proof (cases "dyn_size d = size_max")
  case False
  then show ?thesis by (simp add: string_consume_def vector_consume_def)
next
  case True
  let ?k = "min (min (length (storage d)) (dyn_max d)) n"
  have "string_consume n d = vector_consume n d \<longleftrightarrow> drop n (storage d) = drop ?k (storage d)"
    using True by (cases d) (simp add: string_consume_def vector_consume_def vector_size_def vector_max_size_def)
  also have "\<dots> \<longleftrightarrow> length (storage d) \<le> dyn_max d \<or> n \<le> dyn_max d"
  proof
    assume "drop n (storage d) = drop ?k (storage d)"
    then have "length (storage d) - n = length (storage d) - ?k" by (metis length_drop)
    then show "length (storage d) \<le> dyn_max d \<or> n \<le> dyn_max d" by (auto simp: min_def split: if_splits)
  next
    assume "length (storage d) \<le> dyn_max d \<or> n \<le> dyn_max d"
    then show "drop n (storage d) = drop ?k (storage d)" by (auto simp: min_def)
  qed
  finally show ?thesis using True by simp
qed

end
