(* ===== verification/Asio_Streambuf.thy ===== *)
theory Asio_Streambuf
  imports Asio_Dynamic_Buffer
begin

text \<open>
  \<open>basic_streambuf.hpp\<close>: a \<open>std::streambuf\<close> over a vector. The pointers of the stream
  buffer are positions in the vector (\<open>eback\<close> is always 0). Shown here: it provides the contract
  of a dynamic buffer, for buffers below 2 GiB (the code passes sizes to \<open>pbump\<close> and
  \<open>gbump\<close> as \<open>int\<close>), and the character operations act on the same queue.
\<close>

section \<open>The operations\<close>

record streambuf =
  sb_buffer :: "byte list"
  sb_max_size :: nat
  gptr :: nat
  egptr :: nat
  pptr :: nat
  epptr :: nat

definition buffer_delta :: nat where
  "buffer_delta = 128"

definition new_streambuf :: "nat \<Rightarrow> streambuf" where
  "new_streambuf maximum_size =
     (let pend = min maximum_size buffer_delta
      in \<lparr>sb_buffer = replicate (max pend 1) 0, sb_max_size = maximum_size,
          gptr = 0, egptr = 0, pptr = 0, epptr = pend\<rparr>)"

definition streambuf_size :: "streambuf \<Rightarrow> nat" where
  "streambuf_size b = pptr b - gptr b"

definition streambuf_max_size :: "streambuf \<Rightarrow> nat" where
  "streambuf_max_size b = sb_max_size b"

definition streambuf_data :: "streambuf \<Rightarrow> buffer" where
  "streambuf_data b = \<lparr>buf_data = gptr b, buf_size = pptr b - gptr b\<rparr>"

text \<open>\<open>pbump(static_cast<int>(n))\<close> and \<open>gbump\<close>: the count as a signed 32-bit number.\<close>

definition bump :: "nat \<Rightarrow> nat \<Rightarrow> nat" where
  "bump p n = nat (int p + sint (of_nat n :: u32))"

definition streambuf_reserve :: "nat \<Rightarrow> streambuf \<Rightarrow> streambuf option" where
  "streambuf_reserve n b =
     (let gnext = gptr b; pnext = pptr b; pend = epptr b
      in if n \<le> pend - pnext then Some b
         else
           let (pnext, buf) =
                 (if gnext > 0 then
                    let pnext = pnext - gnext
                    in (pnext, take pnext (drop gnext (sb_buffer b)) @ drop pnext (sb_buffer b))
                  else (pnext, sb_buffer b))
           in (case
                 (if n > pend - pnext then
                    if n \<le> sb_max_size b \<and> pnext \<le> sb_max_size b - n then
                      let pend = pnext + n in Some (pend, vec_resize (max pend 1) buf)
                    else None
                  else Some (pend, buf)) of
                 None \<Rightarrow> None
               | Some (pend, buf) \<Rightarrow>
                   Some (b\<lparr>sb_buffer := buf, gptr := 0, egptr := pnext, pptr := pnext, epptr := pend\<rparr>)))"

definition streambuf_prepare :: "nat \<Rightarrow> streambuf \<Rightarrow> (streambuf \<times> buffer) option" where
  "streambuf_prepare n b =
     (case streambuf_reserve n b of None \<Rightarrow> None
      | Some b' \<Rightarrow> Some (b', \<lparr>buf_data = pptr b', buf_size = n\<rparr>))"

definition streambuf_commit :: "nat \<Rightarrow> streambuf \<Rightarrow> streambuf" where
  "streambuf_commit n b =
     (let n = min n (epptr b - pptr b);
          b1 = b\<lparr>pptr := bump (pptr b) n\<rparr>
      in b1\<lparr>egptr := pptr b1\<rparr>)"

definition streambuf_consume :: "nat \<Rightarrow> streambuf \<Rightarrow> streambuf" where
  "streambuf_consume n b =
     (let b1 = (if egptr b < pptr b then b\<lparr>egptr := pptr b\<rparr> else b);
          n = (if gptr b1 + n > pptr b1 then pptr b1 - gptr b1 else n)
      in b1\<lparr>gptr := bump (gptr b1) n\<rparr>)"

text \<open>\<open>None\<close> is \<open>eof\<close>; \<open>overflow\<close> of \<open>eof\<close> changes nothing.\<close>

definition streambuf_underflow :: "streambuf \<Rightarrow> streambuf \<times> byte option" where
  "streambuf_underflow b =
     (if gptr b < pptr b then (b\<lparr>egptr := pptr b\<rparr>, Some (sb_buffer b ! gptr b)) else (b, None))"

definition streambuf_overflow :: "byte option \<Rightarrow> streambuf \<Rightarrow> streambuf option" where
  "streambuf_overflow c b =
     (case c of None \<Rightarrow> Some b
      | Some ch \<Rightarrow>
          (case
             (if pptr b = epptr b then
                let buffer_size = pptr b - gptr b
                in if buffer_size < sb_max_size b \<and> sb_max_size b - buffer_size < buffer_delta
                   then streambuf_reserve (sb_max_size b - buffer_size) b
                   else streambuf_reserve buffer_delta b
              else Some b) of
             None \<Rightarrow> None
           | Some b1 \<Rightarrow> Some (b1\<lparr>sb_buffer := (sb_buffer b1)[pptr b1 := ch], pptr := bump (pptr b1) 1\<rparr>)))"

text \<open>\<open>cap\<close> is the capacity of the vector.\<close>

definition streambuf_read_size :: "nat \<Rightarrow> nat \<Rightarrow> streambuf \<Rightarrow> nat" where
  "streambuf_read_size cap max_size b =
     min (max 512 (cap - streambuf_size b)) (min max_size (streambuf_max_size b - streambuf_size b))"

section \<open>The contract\<close>

definition streambuf_inv :: "streambuf \<Rightarrow> bool" where
  "streambuf_inv b \<longleftrightarrow> gptr b \<le> pptr b \<and> pptr b \<le> epptr b \<and> length (sb_buffer b) = max (epptr b) 1
     \<and> epptr b \<le> sb_max_size b \<and> sb_max_size b < 2 ^ 31"

definition streambuf_contents :: "streambuf \<Rightarrow> byte list" where
  "streambuf_contents b = take (pptr b - gptr b) (drop (gptr b) (sb_buffer b))"

definition streambuf_fill :: "buffer \<Rightarrow> byte list \<Rightarrow> streambuf \<Rightarrow> streambuf" where
  "streambuf_fill r bs b = b\<lparr>sb_buffer := copy_at (buf_data r) bs (sb_buffer b)\<rparr>"

lemma bump_small: "n < 2 ^ 31 \<Longrightarrow> bump p n = p + n"
proof -
  assume "n < 2 ^ 31"
  then have "sint (of_nat n :: u32) = int n"
    by (simp add: sint_uint uint_nat unat_of_nat signed_take_bit_int_eq_self)
  then show ?thesis by (simp add: bump_def)
qed

lemma length_contents: "streambuf_inv b \<Longrightarrow> length (streambuf_contents b) = pptr b - gptr b"
  by (auto simp: streambuf_inv_def streambuf_contents_def)

lemma reserve_None:
  "streambuf_inv b \<Longrightarrow> streambuf_reserve n b = None \<longleftrightarrow> sb_max_size b < length (streambuf_contents b) + n"
  by (auto simp: length_contents streambuf_reserve_def streambuf_inv_def Let_def)

lemma reserve_Some:
  assumes inv: "streambuf_inv b" and r: "streambuf_reserve n b = Some b'"
  shows "streambuf_inv b'" and "streambuf_contents b' = streambuf_contents b"
    and "sb_max_size b' = sb_max_size b" and "n \<le> epptr b' - pptr b'"
proof -
  let ?k = "pptr b - gptr b"
  consider (enough) "n \<le> epptr b - pptr b" "b' = b"
    | (same) "\<not> n \<le> epptr b - pptr b" "n \<le> epptr b - ?k"
        "b' = b\<lparr>sb_buffer := take ?k (drop (gptr b) (sb_buffer b)) @ drop ?k (sb_buffer b), gptr := 0,
          egptr := ?k, pptr := ?k\<rparr>"
    | (grown) "\<not> n \<le> epptr b - ?k" "?k + n \<le> sb_max_size b"
        "b' = b\<lparr>sb_buffer := vec_resize (max (?k + n) 1)
            (take ?k (drop (gptr b) (sb_buffer b)) @ drop ?k (sb_buffer b)), gptr := 0,
          egptr := ?k, pptr := ?k, epptr := ?k + n\<rparr>"
  proof (cases "gptr b = 0")
    case True
    with r that inv show ?thesis
      by (cases b) (auto simp: streambuf_reserve_def Let_def streambuf_inv_def split: if_splits)
  next
    case False
    with r that inv show ?thesis
      by (cases b) (auto simp: streambuf_reserve_def Let_def streambuf_inv_def split: if_splits)
  qed
  note cases = this
  have len: "length (sb_buffer b) = max (epptr b) 1" "gptr b \<le> pptr b" "pptr b \<le> epptr b"
    using inv by (simp_all add: streambuf_inv_def)
  have k: "?k \<le> length (drop (gptr b) (sb_buffer b))" using len by auto
  show "streambuf_inv b'"
    using cases by cases (use inv len k in \<open>auto simp: streambuf_inv_def\<close>)
  show "streambuf_contents b' = streambuf_contents b"
    using cases by cases (use k in \<open>auto simp: streambuf_contents_def vec_resize_def\<close>)
  show "sb_max_size b' = sb_max_size b" using cases by cases auto
  show "n \<le> epptr b' - pptr b'" using cases by cases auto
qed

lemma append_bytes:
  fixes e :: nat
  assumes inv: "streambuf_inv b" and len: "length bs \<le> epptr b - pptr b"
    and b'_def: "b' = b\<lparr>sb_buffer := copy_at (pptr b) bs (sb_buffer b), egptr := e,
      pptr := pptr b + length bs\<rparr>"
  shows "streambuf_inv b'" and "streambuf_contents b' = streambuf_contents b @ bs"
proof -
  have l: "length (sb_buffer b) = max (epptr b) 1" "gptr b \<le> pptr b" "pptr b \<le> epptr b"
    using inv by (simp_all add: streambuf_inv_def)
  then have "length (copy_at (pptr b) bs (sb_buffer b)) = length (sb_buffer b)"
    using len by (simp add: copy_at_def)
  then show "streambuf_inv b'" using inv len by (auto simp: b'_def streambuf_inv_def)
  have "drop (gptr b) (copy_at (pptr b) bs (sb_buffer b)) =
      take (pptr b - gptr b) (drop (gptr b) (sb_buffer b)) @ bs @ drop (pptr b + length bs) (sb_buffer b)"
    using l by (simp add: copy_at_def drop_take)
  moreover have "length (take (pptr b - gptr b) (drop (gptr b) (sb_buffer b))) = pptr b - gptr b"
    using l by auto
  ultimately show "streambuf_contents b' = streambuf_contents b @ bs"
    using l by (simp add: b'_def streambuf_contents_def)
qed

lemma prepare_Some:
  "streambuf_prepare n b = Some (b', r) \<longleftrightarrow>
     streambuf_reserve n b = Some b' \<and> r = \<lparr>buf_data = pptr b', buf_size = n\<rparr>"
  by (auto simp: streambuf_prepare_def split: option.splits)

lemma streambuf_committed:
  assumes inv: "streambuf_inv b" and p: "streambuf_prepare n b = Some (b', r)" and len: "length bs \<le> n"
  shows "streambuf_commit (length bs) (streambuf_fill r bs b') =
    b'\<lparr>sb_buffer := copy_at (pptr b') bs (sb_buffer b'), egptr := pptr b' + length bs,
       pptr := pptr b' + length bs\<rparr>"
proof -
  note r = p [unfolded prepare_Some]
  note b' = reserve_Some [OF inv conjunct1 [OF r]]
  have "length bs \<le> epptr b' - pptr b'" using b'(4) len by simp
  moreover from this b'(1) have "length bs < 2 ^ 31" by (auto simp: streambuf_inv_def)
  ultimately show ?thesis
    using r by (simp add: streambuf_commit_def streambuf_fill_def Let_def bump_small)
qed

lemma streambuf_consumed:
  assumes inv: "streambuf_inv b"
  shows "streambuf_inv (streambuf_consume n b)"
    and "streambuf_contents (streambuf_consume n b) = drop n (streambuf_contents b)"
    and "sb_max_size (streambuf_consume n b) = sb_max_size b"
proof -
  let ?n = "min n (pptr b - gptr b)"
  have "?n < 2 ^ 31" using inv by (auto simp: streambuf_inv_def)
  then have c: "\<exists>e. streambuf_consume n b = b\<lparr>egptr := e, gptr := gptr b + ?n\<rparr>"
    using inv by (cases b) (auto simp: streambuf_consume_def Let_def bump_small streambuf_inv_def min_def)
  then show "streambuf_inv (streambuf_consume n b)" and "sb_max_size (streambuf_consume n b) = sb_max_size b"
    using inv by (auto simp: streambuf_inv_def)
  show "streambuf_contents (streambuf_consume n b) = drop n (streambuf_contents b)"
    using c inv by (auto simp: streambuf_contents_def streambuf_inv_def drop_take min_def add.commute)
qed

interpretation sbuf: dynamic_buffer_v1 streambuf_inv streambuf_contents sb_max_size streambuf_prepare
  streambuf_fill streambuf_commit streambuf_consume
proof
  fix b n
  assume inv: "streambuf_inv b"
  show "streambuf_prepare n b \<noteq> None \<longleftrightarrow> length (streambuf_contents b) + n \<le> sb_max_size b"
    using reserve_None [OF inv, of n] by (auto simp: streambuf_prepare_def split: option.splits)
  show "streambuf_inv (streambuf_consume n b)"
    "streambuf_contents (streambuf_consume n b) = drop n (streambuf_contents b)"
    "sb_max_size (streambuf_consume n b) = sb_max_size b"
    by (rule streambuf_consumed [OF inv])+
  show "length (streambuf_contents b) \<le> sb_max_size b"
    using inv by (simp add: length_contents) (auto simp: streambuf_inv_def)
next
  fix b n b' r and bs :: "byte list"
  assume inv: "streambuf_inv b" and p: "streambuf_prepare n b = Some (b', r)"
  then show "buf_size r = n" by (simp add: prepare_Some)
  assume len: "length bs \<le> n"
  note b' = reserve_Some [OF inv conjunct1 [OF p [unfolded prepare_Some]]]
  have "length bs \<le> epptr b' - pptr b'" using b'(4) len by simp
  note ap = append_bytes [OF b'(1) this refl]
  show "streambuf_inv (streambuf_commit (length bs) (streambuf_fill r bs b'))"
    "streambuf_contents (streambuf_commit (length bs) (streambuf_fill r bs b')) = streambuf_contents b @ bs"
    "sb_max_size (streambuf_commit (length bs) (streambuf_fill r bs b')) = sb_max_size b"
    unfolding streambuf_committed [OF inv p len] using ap b'(2,3) by simp_all
qed

section \<open>Characters\<close>

lemma new_streambuf_inv:
  "maximum_size < 2 ^ 31 \<Longrightarrow> streambuf_inv (new_streambuf maximum_size)"
  "streambuf_contents (new_streambuf maximum_size) = []"
  "sb_max_size (new_streambuf maximum_size) = maximum_size"
  by (simp_all add: streambuf_inv_def new_streambuf_def streambuf_contents_def Let_def buffer_delta_def)

lemma streambuf_underflow_result:
  assumes "streambuf_inv b"
  shows "snd (streambuf_underflow b) = (case streambuf_contents b of [] \<Rightarrow> None | x # _ \<Rightarrow> Some x)"
proof (cases "gptr b < pptr b")
  case True
  then have "gptr b < length (sb_buffer b)" using assms by (auto simp: streambuf_inv_def)
  then have "drop (gptr b) (sb_buffer b) = sb_buffer b ! gptr b # drop (Suc (gptr b)) (sb_buffer b)"
    by (simp add: Cons_nth_drop_Suc)
  with True show ?thesis
    by (simp add: streambuf_underflow_def streambuf_contents_def take_Cons')
next
  case False
  then show ?thesis by (simp add: streambuf_underflow_def streambuf_contents_def)
qed

lemma overflow_append:
  assumes inv: "streambuf_inv b" and room: "pptr b < epptr b"
  shows "\<exists>b'. Some (b\<lparr>sb_buffer := (sb_buffer b)[pptr b := ch], pptr := bump (pptr b) 1\<rparr>) = Some b'
    \<and> streambuf_inv b' \<and> streambuf_contents b' = streambuf_contents b @ [ch] \<and> sb_max_size b' = sb_max_size b"
proof -
  have "pptr b < length (sb_buffer b)" using inv room by (auto simp: streambuf_inv_def)
  then have "(sb_buffer b)[pptr b := ch] = copy_at (pptr b) [ch] (sb_buffer b)"
    by (simp add: copy_at_def upd_conv_take_nth_drop)
  with append_bytes [OF inv _ refl, of "[ch]" "egptr b"] room show ?thesis
    by (simp add: bump_small)
qed

text \<open>
  A stream buffer with a maximum size below \<open>2 ^ 31\<close>: \<open>overflow\<close> of a character appends
  it to the input sequence exactly when the maximum size leaves room (and throws otherwise),
  \<open>underflow\<close> gives the first byte of the sequence or \<open>eof\<close>, and neither disturbs the rest,
  however the pointers and the vector had to move.
\<close>

theorem streambuf_characters:
  assumes "streambuf_inv b"
  shows "(case streambuf_overflow (Some ch) b of
       None \<Rightarrow> length (streambuf_contents b) = sb_max_size b
     | Some b' \<Rightarrow> streambuf_inv b' \<and> streambuf_contents b' = streambuf_contents b @ [ch]
         \<and> sb_max_size b' = sb_max_size b)
    \<and> snd (streambuf_underflow b) = (case streambuf_contents b of [] \<Rightarrow> None | x # _ \<Rightarrow> Some x)
    \<and> streambuf_contents (fst (streambuf_underflow b)) = streambuf_contents b"
proof (intro conjI)
  have size: "length (streambuf_contents b) = pptr b - gptr b" "pptr b - gptr b \<le> sb_max_size b"
    using assms by (simp_all add: length_contents) (auto simp: streambuf_inv_def)
  let ?goal = "case streambuf_overflow (Some ch) b of
       None \<Rightarrow> length (streambuf_contents b) = sb_max_size b
     | Some b' \<Rightarrow> streambuf_inv b' \<and> streambuf_contents b' = streambuf_contents b @ [ch]
         \<and> sb_max_size b' = sb_max_size b"
  show ?goal
  proof (cases "pptr b = epptr b")
    case False
    then have "pptr b < epptr b" using assms by (simp add: streambuf_inv_def)
    with overflow_append [OF assms this, of ch] False show ?thesis by (simp add: streambuf_overflow_def)
  next
    case True
    define n where "n = (if pptr b - gptr b < sb_max_size b \<and> sb_max_size b - (pptr b - gptr b) < buffer_delta
      then sb_max_size b - (pptr b - gptr b) else buffer_delta)"
    have ov: "streambuf_overflow (Some ch) b = (case streambuf_reserve n b of None \<Rightarrow> None
        | Some b1 \<Rightarrow> Some (b1\<lparr>sb_buffer := (sb_buffer b1)[pptr b1 := ch], pptr := bump (pptr b1) 1\<rparr>))"
      using True by (simp add: streambuf_overflow_def n_def Let_def)
    have n: "0 < n" by (auto simp: n_def buffer_delta_def)
    show ?thesis
    proof (cases "streambuf_reserve n b")
      case None
      then have "sb_max_size b < pptr b - gptr b + n" using reserve_None [OF assms] size by simp
      then have "pptr b - gptr b = sb_max_size b"
        using size(2) by (auto simp: n_def split: if_splits)
      with None ov size show ?thesis by simp
    next
      case (Some b1)
      note b1 = reserve_Some [OF assms Some]
      have "pptr b1 < epptr b1" using b1(4) n by simp
      from overflow_append [OF b1(1) this, of ch] b1(2,3) ov Some show ?thesis by simp
    qed
  qed
  show "snd (streambuf_underflow b) = (case streambuf_contents b of [] \<Rightarrow> None | x # _ \<Rightarrow> Some x)"
    by (rule streambuf_underflow_result [OF assms])
  show "streambuf_contents (fst (streambuf_underflow b)) = streambuf_contents b"
    by (simp add: streambuf_underflow_def streambuf_contents_def)
qed

theorem streambuf_characters_witness:
  "snd (streambuf_underflow (new_streambuf 1000)) = None"
proof -
  have "streambuf_inv (new_streambuf 1000)" by (rule new_streambuf_inv) simp
  from streambuf_characters [OF this] show ?thesis by (simp add: new_streambuf_inv)
qed

end
