(* ===== verification/Asio_Consuming.thy ===== *)
theory Asio_Consuming
  imports Asio_Buffer
begin

text \<open>
  \<open>detail/consuming_buffers.hpp\<close> and \<open>completion_condition.hpp\<close>: the part of a buffer
  sequence that a composed read or write has still to transfer, in the versions for any sequence,
  for one buffer and for an array of two, and the conditions under which such an operation
  stops. The composed operations rely on a contract, stated as a locale, which all three versions
  provide.
\<close>

section \<open>Any sequence\<close>

record consuming =
  cb_buffers :: "buffer list"
  cb_total_size :: nat
  cb_total_consumed :: nat
  next_elem :: nat
  next_elem_offset :: nat

definition consuming_buffers :: "buffer list \<Rightarrow> consuming" where
  "consuming_buffers bs = \<lparr>cb_buffers = bs, cb_total_size = buffer_size bs, cb_total_consumed = 0,
     next_elem = 0, next_elem_offset = 0\<rparr>"

definition consuming_empty :: "consuming \<Rightarrow> bool" where
  "consuming_empty c \<longleftrightarrow> cb_total_consumed c \<ge> cb_total_size c"

definition consuming_total :: "consuming \<Rightarrow> nat" where
  "consuming_total c = cb_total_consumed c"

text \<open>
  The loop of \<open>prepare\<close> over the buffers from \<open>next\<close> on; \<open>left\<close> is the number of buffers the
  result can still take (the code counts up to \<open>max_buffers\<close>).
\<close>

fun prepare_loop :: "buffer list \<Rightarrow> nat \<Rightarrow> nat \<Rightarrow> nat \<Rightarrow> buffer list" where
  "prepare_loop [] elem_offset max_size left = []"
| "prepare_loop (b # bs) elem_offset max_size left =
     (if max_size > 0 \<and> left > 0 then
        let next_buf = buffer_advance b elem_offset;
            elem = buffer_limit next_buf max_size
        in if buf_size elem > 0
           then elem # prepare_loop bs 0 (max_size - buf_size elem) (left - 1)
           else prepare_loop bs 0 (max_size - buf_size elem) left
      else [])"

definition consuming_prepare :: "nat \<Rightarrow> nat \<Rightarrow> consuming \<Rightarrow> buffer list" where
  "consuming_prepare max_buffers max_size c =
     prepare_loop (drop (next_elem c) (cb_buffers c)) (next_elem_offset c) max_size max_buffers"

text \<open>The loop of \<open>consume\<close>: the new element and offset.\<close>

fun consume_loop :: "buffer list \<Rightarrow> nat \<Rightarrow> nat \<Rightarrow> nat \<Rightarrow> nat \<times> nat" where
  "consume_loop [] elem offset amount = (elem, offset)"
| "consume_loop (b # bs) elem offset amount =
     (if amount > 0 then
        let next_buf = buffer_advance b offset
        in if amount < buf_size next_buf then (elem, offset + amount)
           else consume_loop bs (Suc elem) 0 (amount - buf_size next_buf)
      else (elem, offset))"

definition consuming_consume :: "nat \<Rightarrow> consuming \<Rightarrow> consuming" where
  "consuming_consume amount c =
     (let (elem, offset) = consume_loop (drop (next_elem c) (cb_buffers c)) (next_elem c)
                             (next_elem_offset c) amount
      in c\<lparr>cb_total_consumed := cb_total_consumed c + amount, next_elem := elem,
           next_elem_offset := offset\<rparr>)"

section \<open>One buffer\<close>

record consuming_single =
  cs_buffer :: buffer
  cs_total_consumed :: nat

definition consuming_single_buffer :: "buffer \<Rightarrow> consuming_single" where
  "consuming_single_buffer b = \<lparr>cs_buffer = b, cs_total_consumed = 0\<rparr>"

definition single_empty :: "consuming_single \<Rightarrow> bool" where
  "single_empty c \<longleftrightarrow> cs_total_consumed c \<ge> buf_size (cs_buffer c)"

definition single_prepare :: "nat \<Rightarrow> consuming_single \<Rightarrow> buffer list" where
  "single_prepare max_size c = [buffer_limit (buffer_advance (cs_buffer c) (cs_total_consumed c)) max_size]"

definition single_consume :: "nat \<Rightarrow> consuming_single \<Rightarrow> consuming_single" where
  "single_consume amount c = c\<lparr>cs_total_consumed := cs_total_consumed c + amount\<rparr>"

section \<open>An array of two buffers\<close>

record consuming_pair =
  cp_buffers :: "buffer \<times> buffer"
  cp_total_consumed :: nat

definition consuming_two_buffers :: "buffer \<times> buffer \<Rightarrow> consuming_pair" where
  "consuming_two_buffers bs = \<lparr>cp_buffers = bs, cp_total_consumed = 0\<rparr>"

definition pair_empty :: "consuming_pair \<Rightarrow> bool" where
  "pair_empty c \<longleftrightarrow>
     cp_total_consumed c \<ge> buf_size (fst (cp_buffers c)) + buf_size (snd (cp_buffers c))"

definition pair_prepare :: "nat \<Rightarrow> consuming_pair \<Rightarrow> buffer list" where
  "pair_prepare max_size c =
     (let (b0, b1) = cp_buffers c;
          buffer0_size = buf_size b0;
          r0 = buffer_limit (buffer_advance b0 (cp_total_consumed c)) max_size;
          r1 = buffer_limit
                 (buffer_advance b1
                   (if cp_total_consumed c < buffer0_size then 0 else cp_total_consumed c - buffer0_size))
                 (max_size - buf_size r0)
      in [r0, r1])"

definition pair_consume :: "nat \<Rightarrow> consuming_pair \<Rightarrow> consuming_pair" where
  "pair_consume amount c = c\<lparr>cp_total_consumed := cp_total_consumed c + amount\<rparr>"

section \<open>The contract\<close>

text \<open>The template argument of the composed operations, as the operations they call.\<close>

record 'c buffer_ops =
  ops_empty :: "'c \<Rightarrow> bool"
  ops_prepare :: "nat \<Rightarrow> 'c \<Rightarrow> buffer list"
  ops_consume :: "nat \<Rightarrow> 'c \<Rightarrow> 'c"
  ops_total :: "'c \<Rightarrow> nat"

definition sequence_ops :: "nat \<Rightarrow> consuming buffer_ops" where
  "sequence_ops max_buffers = \<lparr>ops_empty = consuming_empty, ops_prepare = consuming_prepare max_buffers,
     ops_consume = consuming_consume, ops_total = consuming_total\<rparr>"

definition single_ops :: "consuming_single buffer_ops" where
  "single_ops = \<lparr>ops_empty = single_empty, ops_prepare = single_prepare,
     ops_consume = single_consume, ops_total = cs_total_consumed\<rparr>"

definition pair_ops :: "consuming_pair buffer_ops" where
  "pair_ops = \<lparr>ops_empty = pair_empty, ops_prepare = pair_prepare,
     ops_consume = pair_consume, ops_total = cp_total_consumed\<rparr>"

locale consumer =
  fixes ops :: "'c buffer_ops"
    and ok :: "'c \<Rightarrow> bool"
    and remaining :: "'c \<Rightarrow> nat list"
  assumes empty_iff: "ok c \<Longrightarrow> ops_empty ops c \<longleftrightarrow> remaining c = []"
    and prepare_prefix: "ok c \<Longrightarrow>
      \<exists>k. k \<le> n \<and> k \<le> length (remaining c) \<and> all_addresses (ops_prepare ops n c) = take k (remaining c)"
    and prepare_progress: "ok c \<Longrightarrow> 0 < n \<Longrightarrow> remaining c \<noteq> [] \<Longrightarrow> all_addresses (ops_prepare ops n c) \<noteq> []"
    and consume_ok: "ok c \<Longrightarrow> n \<le> length (remaining c) \<Longrightarrow> ok (ops_consume ops n c)"
    and consume_remaining: "ok c \<Longrightarrow> n \<le> length (remaining c) \<Longrightarrow>
      remaining (ops_consume ops n c) = drop n (remaining c)"
    and consume_total: "ops_total ops (ops_consume ops n c) = ops_total ops c + n"

section \<open>They provide it\<close>

definition consuming_remaining :: "consuming \<Rightarrow> nat list" where
  "consuming_remaining c = drop (next_elem_offset c) (all_addresses (drop (next_elem c) (cb_buffers c)))"

definition consuming_ok :: "consuming \<Rightarrow> bool" where
  "consuming_ok c \<longleftrightarrow> cb_total_size c = buffer_size (cb_buffers c)
     \<and> next_elem_offset c \<le> buffer_size (take 1 (drop (next_elem c) (cb_buffers c)))
     \<and> consuming_remaining c = drop (cb_total_consumed c) (all_addresses (cb_buffers c))"

lemma prepare_loop_prefix:
  "off \<le> buffer_size (take 1 bs) \<Longrightarrow>
   \<exists>k. k \<le> n \<and> k \<le> length (drop off (all_addresses bs))
     \<and> all_addresses (prepare_loop bs off n left) = take k (drop off (all_addresses bs))"
proof (induction bs off n left rule: prepare_loop.induct)
  case (1 off n left)
  then show ?case by simp
next
  case (2 b bs off n left)
  let ?a = "drop off (addresses b)"
  have off: "off \<le> buf_size b" using "2.prems" by simp
  have D: "drop off (all_addresses (b # bs)) = ?a @ all_addresses bs" using off by simp
  show ?case
  proof (cases "n > 0 \<and> left > 0")
    case False
    then show ?thesis by auto
  next
    case True
    define e where "e = buffer_limit (buffer_advance b off) n"
    have ea: "addresses e = take n ?a" by (simp add: e_def addresses_limit addresses_advance)
    have es: "buf_size e = min n (buf_size b - off)" by (auto simp: e_def buffer_limit_def)
    show ?thesis
    proof (cases "buf_size e > 0")
      case False
      have step: "prepare_loop (b # bs) off n left = prepare_loop bs 0 (n - buf_size e) left"
        using True False by (simp add: e_def Let_def)
      from False have "off = buf_size b" using es off True by auto
      moreover obtain k where "k \<le> n - buf_size e" "k \<le> length (drop 0 (all_addresses bs))"
          "all_addresses (prepare_loop bs 0 (n - buf_size e) left) = take k (drop 0 (all_addresses bs))"
        using "2.IH"(2) [OF True refl e_def False] by auto
      ultimately show ?thesis
        unfolding step D using False by (intro exI [of _ k]) simp
    next
      case pos: True
      obtain k where k: "k \<le> n - buf_size e" "k \<le> length (all_addresses bs)"
          "all_addresses (prepare_loop bs 0 (n - buf_size e) (left - 1)) = take k (all_addresses bs)"
        using "2.IH"(1) [OF True refl e_def pos] by auto
      have r: "all_addresses (prepare_loop (b # bs) off n left) = take n ?a @ take k (all_addresses bs)"
        using True pos k(3) ea by (simp add: e_def [symmetric] Let_def)
      show ?thesis
      proof (cases "n \<le> buf_size b - off")
        case True
        then have "k = 0" using k(1) es by simp
        with True r D show ?thesis by (intro exI [of _ n]) simp
      next
        case False
        with r D k es show ?thesis by (intro exI [of _ "(buf_size b - off) + k"]) simp
      qed
    qed
  qed
qed

lemma prepare_loop_progress:
  "off \<le> buffer_size (take 1 bs) \<Longrightarrow> 0 < n \<Longrightarrow> 0 < left \<Longrightarrow> drop off (all_addresses bs) \<noteq> [] \<Longrightarrow>
   all_addresses (prepare_loop bs off n left) \<noteq> []"
proof (induction bs off n left rule: prepare_loop.induct)
  case (2 b bs off n left)
  define e where "e = buffer_limit (buffer_advance b off) n"
  have es: "buf_size e = min n (buf_size b - off)" by (auto simp: e_def buffer_limit_def)
  have c: "n > 0 \<and> left > 0" using 2 by simp
  show ?case
  proof (cases "buf_size e > 0")
    case True
    then have "addresses e \<noteq> []" by (simp add: addresses_def)
    with True c show ?thesis by (simp add: e_def [symmetric] Let_def)
  next
    case False
    have step: "prepare_loop (b # bs) off n left = prepare_loop bs 0 (n - buf_size e) left"
      using c False by (simp add: e_def Let_def)
    from False have "off = buf_size b" "buf_size e = 0" using es "2.prems" by auto
    with "2.IH"(2) [OF c refl e_def False] "2.prems" show ?thesis
      unfolding step by simp
  qed
qed simp

lemma consume_loop_result:
  "off \<le> buffer_size (take 1 bs) \<Longrightarrow> n \<le> length (drop off (all_addresses bs)) \<Longrightarrow>
   consume_loop bs i off n = (j, off') \<Longrightarrow>
   i \<le> j \<and> off' \<le> buffer_size (take 1 (drop (j - i) bs))
     \<and> drop off' (all_addresses (drop (j - i) bs)) = drop n (drop off (all_addresses bs))"
proof (induction bs i off n rule: consume_loop.induct)
  case (1 i off n)
  then show ?case by simp
next
  case (2 b bs i off n)
  have off: "off \<le> buf_size b" using "2.prems"(1) by simp
  consider "n = 0" | "0 < n" "n < buf_size b - off" | "0 < n" "buf_size b - off \<le> n" by linarith
  then show ?case
  proof cases
    case 1
    with "2.prems" show ?thesis by simp
  next
    case 2
    with "2.prems"(3) have "j = i" "off' = off + n" by (simp_all add: Let_def)
    with 2 off show ?thesis by (simp add: add.commute)
  next
    case 3
    then have c: "\<not> n < buf_size (buffer_advance b off)" by simp
    have r: "consume_loop bs (Suc i) 0 (n - (buf_size b - off)) = (j, off')"
      using "2.prems"(3) 3 by (simp add: Let_def)
    have "Suc i \<le> j \<and> off' \<le> buffer_size (take 1 (drop (j - Suc i) bs))
        \<and> drop off' (all_addresses (drop (j - Suc i) bs)) =
            drop (n - (buf_size b - off)) (drop 0 (all_addresses bs))"
      using "2.IH" [OF 3(1) refl c] r "2.prems"(2) off by simp
    moreover have "drop (j - i) (b # bs) = drop (j - Suc i) bs" if "Suc i \<le> j"
      using that by (simp add: drop_Cons' Suc_diff_le)
    ultimately show ?thesis using off 3 by auto
  qed
qed

lemma consuming_ok_new: "consuming_ok (consuming_buffers bs)"
  "consuming_remaining (consuming_buffers bs) = all_addresses bs"
  by (simp_all add: consuming_ok_def consuming_buffers_def consuming_remaining_def)

lemma consuming_consume_result:
  assumes ok: "consuming_ok c" and n: "n \<le> length (consuming_remaining c)"
  shows "consuming_ok (consuming_consume n c)"
    and "consuming_remaining (consuming_consume n c) = drop n (consuming_remaining c)"
proof -
  let ?bs = "drop (next_elem c) (cb_buffers c)"
  have off: "next_elem_offset c \<le> buffer_size (take 1 ?bs)" using ok by (simp add: consuming_ok_def)
  obtain j off' where r: "consume_loop ?bs (next_elem c) (next_elem_offset c) n = (j, off')" by fastforce
  have j: "next_elem c \<le> j" "off' \<le> buffer_size (take 1 (drop (j - next_elem c) ?bs))"
      "drop off' (all_addresses (drop (j - next_elem c) ?bs)) = drop n (consuming_remaining c)"
    using consume_loop_result [OF off n [unfolded consuming_remaining_def] r]
    by (auto simp only: consuming_remaining_def)
  have d: "drop (j - next_elem c) ?bs = drop j (cb_buffers c)" using j(1) by (simp add: add.commute)
  show rem: "consuming_remaining (consuming_consume n c) = drop n (consuming_remaining c)"
    using j(3) r unfolding d by (simp add: consuming_consume_def consuming_remaining_def)
  show "consuming_ok (consuming_consume n c)"
    using j(2) ok r unfolding d consuming_ok_def rem by (simp add: consuming_consume_def add.commute)
qed

interpretation any_sequence: consumer "sequence_ops (Suc max_buffers)" consuming_ok consuming_remaining
  for max_buffers
proof
  fix c n
  assume ok: "consuming_ok c"
  then show "ops_empty (sequence_ops (Suc max_buffers)) c \<longleftrightarrow> consuming_remaining c = []"
    by (simp add: sequence_ops_def consuming_empty_def consuming_ok_def length_all_addresses [symmetric])
  have off: "next_elem_offset c \<le> buffer_size (take 1 (drop (next_elem c) (cb_buffers c)))"
    using ok by (simp add: consuming_ok_def)
  show "\<exists>k. k \<le> n \<and> k \<le> length (consuming_remaining c) \<and>
      all_addresses (ops_prepare (sequence_ops (Suc max_buffers)) n c) = take k (consuming_remaining c)"
    using prepare_loop_prefix [OF off]
    by (simp add: sequence_ops_def consuming_prepare_def consuming_remaining_def)
  show "0 < n \<Longrightarrow> consuming_remaining c \<noteq> [] \<Longrightarrow>
      all_addresses (ops_prepare (sequence_ops (Suc max_buffers)) n c) \<noteq> []"
    using prepare_loop_progress [OF off, of n "Suc max_buffers"]
    by (simp add: sequence_ops_def consuming_prepare_def consuming_remaining_def)
  assume n: "n \<le> length (consuming_remaining c)"
  show "consuming_ok (ops_consume (sequence_ops (Suc max_buffers)) n c)"
    "consuming_remaining (ops_consume (sequence_ops (Suc max_buffers)) n c) = drop n (consuming_remaining c)"
    using consuming_consume_result [OF ok n] by (simp_all add: sequence_ops_def)
next
  fix c n
  show "ops_total (sequence_ops (Suc max_buffers)) (ops_consume (sequence_ops (Suc max_buffers)) n c) =
      ops_total (sequence_ops (Suc max_buffers)) c + n"
    by (simp add: sequence_ops_def consuming_total_def consuming_consume_def split: prod.splits)
qed

definition single_remaining :: "consuming_single \<Rightarrow> nat list" where
  "single_remaining c = drop (cs_total_consumed c) (addresses (cs_buffer c))"

interpretation one_buffer: consumer single_ops "\<lambda>_. True" single_remaining
proof
  fix c n
  show "ops_empty single_ops c \<longleftrightarrow> single_remaining c = []"
    by (simp add: single_ops_def single_empty_def single_remaining_def)
  have p: "all_addresses (ops_prepare single_ops n c) = take n (single_remaining c)"
    by (simp add: single_ops_def single_prepare_def single_remaining_def addresses_limit addresses_advance)
  show "\<exists>k. k \<le> n \<and> k \<le> length (single_remaining c) \<and>
      all_addresses (ops_prepare single_ops n c) = take k (single_remaining c)"
    by (rule exI [of _ "min n (length (single_remaining c))"]) (simp add: p min_def)
  show "0 < n \<Longrightarrow> single_remaining c \<noteq> [] \<Longrightarrow> all_addresses (ops_prepare single_ops n c) \<noteq> []"
    by (simp add: p)
  show "single_remaining (ops_consume single_ops n c) = drop n (single_remaining c)"
    by (simp add: single_ops_def single_consume_def single_remaining_def add.commute)
  show "ops_total single_ops (ops_consume single_ops n c) = ops_total single_ops c + n"
    by (simp add: single_ops_def single_consume_def)
qed simp

definition pair_remaining :: "consuming_pair \<Rightarrow> nat list" where
  "pair_remaining c =
     drop (cp_total_consumed c) (addresses (fst (cp_buffers c)) @ addresses (snd (cp_buffers c)))"

interpretation two_buffers: consumer pair_ops "\<lambda>_. True" pair_remaining
proof
  fix c :: consuming_pair and n
  obtain b0 b1 where b: "cp_buffers c = (b0, b1)" by fastforce
  show "ops_empty pair_ops c \<longleftrightarrow> pair_remaining c = []"
    by (auto simp: pair_ops_def pair_empty_def pair_remaining_def)
  have p: "all_addresses (ops_prepare pair_ops n c) = take n (pair_remaining c)"
  proof -
    let ?k = "cp_total_consumed c"
    have "(if ?k < buf_size b0 then 0 else ?k - buf_size b0) = ?k - buf_size b0" by simp
    moreover have "buf_size (buffer_limit (buffer_advance b0 ?k) n) = min (buf_size b0 - ?k) n"
      by (auto simp: buffer_limit_def)
    moreover have "n - min (buf_size b0 - ?k) n = n - (buf_size b0 - ?k)" by (simp add: min_def)
    ultimately show ?thesis
      by (simp add: pair_ops_def pair_prepare_def pair_remaining_def b addresses_limit addresses_advance Let_def)
  qed
  show "\<exists>k. k \<le> n \<and> k \<le> length (pair_remaining c) \<and>
      all_addresses (ops_prepare pair_ops n c) = take k (pair_remaining c)"
    by (rule exI [of _ "min n (length (pair_remaining c))"]) (simp add: p min_def)
  show "0 < n \<Longrightarrow> pair_remaining c \<noteq> [] \<Longrightarrow> all_addresses (ops_prepare pair_ops n c) \<noteq> []"
    by (simp add: p)
  show "pair_remaining (ops_consume pair_ops n c) = drop n (pair_remaining c)"
    by (simp add: pair_ops_def pair_consume_def pair_remaining_def add.commute del: drop_append)
  show "ops_total pair_ops (ops_consume pair_ops n c) = ops_total pair_ops c + n"
    by (simp add: pair_ops_def pair_consume_def)
qed simp

section \<open>Completion conditions\<close>

definition default_max_transfer_size :: nat where
  "default_max_transfer_size = 65536"

text \<open>
  The result of a condition is a number (0 to stop) or, in the old style, a truth value
  (true to stop).
\<close>

datatype condition_result = Old_style bool | Max_transfer nat

fun adapt_completion_condition_result :: "condition_result \<Rightarrow> nat" where
  "adapt_completion_condition_result (Old_style result) = (if result then 0 else default_max_transfer_size)"
| "adapt_completion_condition_result (Max_transfer result) = result"

type_synonym condition = "error_code \<Rightarrow> nat \<Rightarrow> condition_result"

definition transfer_all :: condition where
  "transfer_all err bytes_transferred = Max_transfer (if failed err then 0 else default_max_transfer_size)"

definition transfer_at_least :: "nat \<Rightarrow> condition" where
  "transfer_at_least minimum err bytes_transferred =
     Max_transfer (if failed err \<or> bytes_transferred \<ge> minimum then 0 else default_max_transfer_size)"

definition transfer_exactly :: "nat \<Rightarrow> condition" where
  "transfer_exactly n err bytes_transferred =
     Max_transfer
       (if failed err \<or> bytes_transferred \<ge> n then 0
        else if n - bytes_transferred < default_max_transfer_size then n - bytes_transferred
        else default_max_transfer_size)"

text \<open>The condition as the operations use it.\<close>

definition check_condition :: "condition \<Rightarrow> error_code \<Rightarrow> nat \<Rightarrow> nat" where
  "check_condition cond ec n = adapt_completion_condition_result (cond ec n)"

lemma check_transfer_all [simp]: "check_condition transfer_all ec n = 0 \<longleftrightarrow> failed ec"
  by (simp add: check_condition_def transfer_all_def default_max_transfer_size_def)

lemma check_transfer_at_least [simp]:
  "check_condition (transfer_at_least k) ec n = 0 \<longleftrightarrow> failed ec \<or> k \<le> n"
  by (simp add: check_condition_def transfer_at_least_def default_max_transfer_size_def)

lemma check_transfer_exactly [simp]:
  "check_condition (transfer_exactly k) ec n = 0 \<longleftrightarrow> failed ec \<or> k \<le> n"
  "n \<le> k \<Longrightarrow> check_condition (transfer_exactly k) ec n \<le> k - n"
  by (auto simp: check_condition_def transfer_exactly_def default_max_transfer_size_def)

end
