(* ===== verification/Asio_Read_Write.thy ===== *)
theory Asio_Read_Write
  imports Asio_Consuming
begin

text \<open>
  \<open>impl/read.hpp\<close> and \<open>impl/write.hpp\<close>: the composed operations on buffer sequences,
  synchronous and asynchronous, on which the framing of messages in \<open>net_connection.h\<close> rests.
  The stream is outside: each \<open>read_some\<close> or \<open>write_some\<close> is answered by how many bytes
  it moves at most and with which error; the bytes read come from the input that is waiting.
  Shown here: a read fills the buffers with the input in order and stops only when they are full
  or the condition says so, a write sends their bytes in order, both return, and the
  asynchronous operations end as the synchronous ones do.
\<close>

section \<open>The stream\<close>

type_synonym answer = "nat \<times> error_code"

definition read_some ::
  "memory \<Rightarrow> buffer list \<Rightarrow> answer \<Rightarrow> byte list \<Rightarrow> memory \<times> byte list \<times> nat \<times> error_code" where
  "read_some m bufs a inp =
     (let n = min (fst a) (min (buffer_size bufs) (length inp))
      in (store m (take n (all_addresses bufs)) (take n inp), drop n inp, n, snd a))"

definition write_some ::
  "memory \<Rightarrow> buffer list \<Rightarrow> answer \<Rightarrow> byte list \<Rightarrow> byte list \<times> nat \<times> error_code" where
  "write_some m bufs a outp =
     (let n = min (fst a) (buffer_size bufs)
      in (outp @ map m (take n (all_addresses bufs)), n, snd a))"

section \<open>Synchronous operations\<close>

text \<open>
  The loops of \<open>read_buffer_sequence\<close> and \<open>write_buffer_sequence\<close>; \<open>None\<close>: the answers
  ran out while the call is still waiting.
\<close>

fun read_loop ::
  "'c buffer_ops \<Rightarrow> condition \<Rightarrow> answer list \<Rightarrow> 'c \<Rightarrow> error_code \<Rightarrow> memory \<Rightarrow> byte list
     \<Rightarrow> ('c \<times> error_code \<times> memory \<times> byte list) option" where
  "read_loop ops cond [] tmp ec m inp =
     (if \<not> ops_empty ops tmp \<and> check_condition cond ec (ops_total ops tmp) \<noteq> 0 then None
      else Some (tmp, ec, m, inp))"
| "read_loop ops cond (a # as) tmp ec m inp =
     (if \<not> ops_empty ops tmp then
        let max_size = check_condition cond ec (ops_total ops tmp)
        in if max_size \<noteq> 0 then
             let (m', inp', n, ec') = read_some m (ops_prepare ops max_size tmp) a inp
             in read_loop ops cond as (ops_consume ops n tmp) ec' m' inp'
           else Some (tmp, ec, m, inp)
      else Some (tmp, ec, m, inp))"

definition read_buffer_sequence ::
  "'c buffer_ops \<Rightarrow> condition \<Rightarrow> answer list \<Rightarrow> 'c \<Rightarrow> memory \<Rightarrow> byte list
     \<Rightarrow> (nat \<times> error_code \<times> memory \<times> byte list) option" where
  "read_buffer_sequence ops cond as tmp m inp =
     map_option (\<lambda>(tmp', ec, m', inp'). (ops_total ops tmp', ec, m', inp'))
       (read_loop ops cond as tmp Success m inp)"

fun write_loop ::
  "'c buffer_ops \<Rightarrow> condition \<Rightarrow> answer list \<Rightarrow> 'c \<Rightarrow> error_code \<Rightarrow> memory \<Rightarrow> byte list
     \<Rightarrow> ('c \<times> error_code \<times> byte list) option" where
  "write_loop ops cond [] tmp ec m outp =
     (if \<not> ops_empty ops tmp \<and> check_condition cond ec (ops_total ops tmp) \<noteq> 0 then None
      else Some (tmp, ec, outp))"
| "write_loop ops cond (a # as) tmp ec m outp =
     (if \<not> ops_empty ops tmp then
        let max_size = check_condition cond ec (ops_total ops tmp)
        in if max_size \<noteq> 0 then
             let (outp', n, ec') = write_some m (ops_prepare ops max_size tmp) a outp
             in write_loop ops cond as (ops_consume ops n tmp) ec' m outp'
           else Some (tmp, ec, outp)
      else Some (tmp, ec, outp))"

definition write_buffer_sequence ::
  "'c buffer_ops \<Rightarrow> condition \<Rightarrow> answer list \<Rightarrow> 'c \<Rightarrow> memory \<Rightarrow> byte list
     \<Rightarrow> (nat \<times> error_code \<times> byte list) option" where
  "write_buffer_sequence ops cond as tmp m outp =
     map_option (\<lambda>(tmp', ec, outp'). (ops_total ops tmp', ec, outp'))
       (write_loop ops cond as tmp Success m outp)"

text \<open>
  The calls, for one buffer, an array of two, and any other sequence, of which
  \<open>prepared_buffers\<close> takes at most 16 at a time.
\<close>

datatype sequence_kind = Single buffer | Pair "buffer \<times> buffer" | Sequence "buffer list"

fun asio_read ::
  "condition \<Rightarrow> answer list \<Rightarrow> sequence_kind \<Rightarrow> memory \<Rightarrow> byte list
     \<Rightarrow> (nat \<times> error_code \<times> memory \<times> byte list) option" where
  "asio_read cond as (Single b) m inp =
     read_buffer_sequence single_ops cond as (consuming_single_buffer b) m inp"
| "asio_read cond as (Pair bs) m inp =
     read_buffer_sequence pair_ops cond as (consuming_two_buffers bs) m inp"
| "asio_read cond as (Sequence bs) m inp =
     read_buffer_sequence (sequence_ops 16) cond as (consuming_buffers bs) m inp"

fun asio_write ::
  "condition \<Rightarrow> answer list \<Rightarrow> sequence_kind \<Rightarrow> memory \<Rightarrow> byte list
     \<Rightarrow> (nat \<times> error_code \<times> byte list) option" where
  "asio_write cond as (Single b) m outp =
     write_buffer_sequence single_ops cond as (consuming_single_buffer b) m outp"
| "asio_write cond as (Pair bs) m outp =
     write_buffer_sequence pair_ops cond as (consuming_two_buffers bs) m outp"
| "asio_write cond as (Sequence bs) m outp =
     write_buffer_sequence (sequence_ops 16) cond as (consuming_buffers bs) m outp"

section \<open>Asynchronous operations\<close>

text \<open>
  One call of the operation object: \<open>start\<close> for the initiating one, later with the error and
  the number of bytes of the last transfer. It starts another transfer or calls the handler.
\<close>

datatype op_action = Start_some "buffer list" | Handler error_code nat

definition read_op_step ::
  "'c buffer_ops \<Rightarrow> condition \<Rightarrow> bool \<Rightarrow> 'c \<Rightarrow> error_code \<Rightarrow> nat \<Rightarrow> 'c \<times> op_action" where
  "read_op_step ops cond start c ec bytes_transferred =
     (if start then
        (let max_size = check_condition cond ec (ops_total ops c)
         in (c, Start_some (ops_prepare ops max_size c)))
      else
        (let c' = ops_consume ops bytes_transferred c
         in if \<not> failed ec \<and> bytes_transferred = 0 \<or> ops_empty ops c'
            then (c', Handler ec (ops_total ops c'))
            else (let max_size = check_condition cond ec (ops_total ops c')
                  in if max_size > 0 then (c', Start_some (ops_prepare ops max_size c'))
                     else (c', Handler ec (ops_total ops c')))))"

definition write_op_step ::
  "'c buffer_ops \<Rightarrow> condition \<Rightarrow> bool \<Rightarrow> 'c \<Rightarrow> error_code \<Rightarrow> nat \<Rightarrow> 'c \<times> op_action" where
  "write_op_step ops cond start c ec bytes_transferred =
     (if start then
        (let max_size = check_condition cond ec (ops_total ops c)
         in (c, Start_some (ops_prepare ops max_size c)))
      else
        (let c' = ops_consume ops bytes_transferred c
         in if \<not> failed ec \<and> bytes_transferred = 0 \<or> ops_empty ops c'
            then (c', Handler ec (ops_total ops c'))
            else (let max_size = check_condition cond ec (ops_total ops c')
                  in if max_size > 0 then (c', Start_some (ops_prepare ops max_size c'))
                     else (c', Handler ec (ops_total ops c')))))"

text \<open>The operation until its handler is called.\<close>

fun async_read_run ::
  "'c buffer_ops \<Rightarrow> condition \<Rightarrow> answer list \<Rightarrow> 'c \<times> op_action \<Rightarrow> memory \<Rightarrow> byte list
     \<Rightarrow> (nat \<times> error_code \<times> memory \<times> byte list) option" where
  "async_read_run ops cond as (c, Handler ec n) m inp = Some (n, ec, m, inp)"
| "async_read_run ops cond [] (c, Start_some bufs) m inp = None"
| "async_read_run ops cond (a # as) (c, Start_some bufs) m inp =
     (let (m', inp', n, ec) = read_some m bufs a inp
      in async_read_run ops cond as (read_op_step ops cond False c ec n) m' inp')"

fun async_write_run ::
  "'c buffer_ops \<Rightarrow> condition \<Rightarrow> answer list \<Rightarrow> 'c \<times> op_action \<Rightarrow> memory \<Rightarrow> byte list
     \<Rightarrow> (nat \<times> error_code \<times> byte list) option" where
  "async_write_run ops cond as (c, Handler ec n) m outp = Some (n, ec, outp)"
| "async_write_run ops cond [] (c, Start_some bufs) m outp = None"
| "async_write_run ops cond (a # as) (c, Start_some bufs) m outp =
     (let (outp', n, ec) = write_some m bufs a outp
      in async_write_run ops cond as (write_op_step ops cond False c ec n) m outp')"

fun asio_async_read ::
  "condition \<Rightarrow> answer list \<Rightarrow> sequence_kind \<Rightarrow> memory \<Rightarrow> byte list
     \<Rightarrow> (nat \<times> error_code \<times> memory \<times> byte list) option" where
  "asio_async_read cond as (Single b) m inp =
     async_read_run single_ops cond as
       (read_op_step single_ops cond True (consuming_single_buffer b) Success 0) m inp"
| "asio_async_read cond as (Pair bs) m inp =
     async_read_run pair_ops cond as
       (read_op_step pair_ops cond True (consuming_two_buffers bs) Success 0) m inp"
| "asio_async_read cond as (Sequence bs) m inp =
     async_read_run (sequence_ops 16) cond as
       (read_op_step (sequence_ops 16) cond True (consuming_buffers bs) Success 0) m inp"

fun asio_async_write ::
  "condition \<Rightarrow> answer list \<Rightarrow> sequence_kind \<Rightarrow> memory \<Rightarrow> byte list
     \<Rightarrow> (nat \<times> error_code \<times> byte list) option" where
  "asio_async_write cond as (Single b) m outp =
     async_write_run single_ops cond as
       (write_op_step single_ops cond True (consuming_single_buffer b) Success 0) m outp"
| "asio_async_write cond as (Pair bs) m outp =
     async_write_run pair_ops cond as
       (write_op_step pair_ops cond True (consuming_two_buffers bs) Success 0) m outp"
| "asio_async_write cond as (Sequence bs) m outp =
     async_write_run (sequence_ops 16) cond as
       (write_op_step (sequence_ops 16) cond True (consuming_buffers bs) Success 0) m outp"

section \<open>What every provider gives\<close>

text \<open>The answers of a stream that is not at its end: some bytes, or an error.\<close>

definition moving :: "answer list \<Rightarrow> bool" where
  "moving as \<longleftrightarrow> (\<forall>(k, ec) \<in> set as. 0 < k \<or> failed ec)"

lemma store_split:
  assumes "n \<le> length as" and "n \<le> length vs"
  shows "store (store m (take n as) (take n vs)) (take k (drop n as)) (take k (drop n vs)) =
    store m (take (n + k) as) (take (n + k) vs)"
  using assms by (simp add: take_add store_append)

context consumer
begin

lemma read_some_prepared:
  assumes ok: "ok c" and r: "read_some m (ops_prepare ops s c) a inp = (m', inp', n, ec')"
  shows "n \<le> length (remaining c)" and "n \<le> length inp" and "n \<le> s"
    and "m' = store m (take n (remaining c)) (take n inp)" and "inp' = drop n inp" and "ec' = snd a"
    and "0 < fst a \<Longrightarrow> 0 < s \<Longrightarrow> remaining c \<noteq> [] \<Longrightarrow> inp \<noteq> [] \<Longrightarrow> 0 < n"
proof -
  obtain k where k: "k \<le> s" "k \<le> length (remaining c)"
      "all_addresses (ops_prepare ops s c) = take k (remaining c)"
    using prepare_prefix [OF ok] by blast
  have size: "buffer_size (ops_prepare ops s c) = k"
    using k(2) arg_cong [OF k(3), of length] by (simp add: length_all_addresses)
  have n: "n = min (fst a) (min k (length inp))"
    and m: "m' = store m (take n (take k (remaining c))) (take n inp)"
    using r size k(3) by (auto simp: read_some_def Let_def)
  show "n \<le> length (remaining c)" "n \<le> length inp" "n \<le> s" using n k by simp_all
  show "m' = store m (take n (remaining c)) (take n inp)" using m n by (simp add: min.absorb1)
  show "inp' = drop n inp" "ec' = snd a" using r by (auto simp: read_some_def Let_def)
  show "0 < fst a \<Longrightarrow> 0 < s \<Longrightarrow> remaining c \<noteq> [] \<Longrightarrow> inp \<noteq> [] \<Longrightarrow> 0 < n"
    using prepare_progress [OF ok, of s] n k by (cases k) auto
qed

lemma write_some_prepared:
  assumes ok: "ok c" and r: "write_some m (ops_prepare ops s c) a outp = (outp', n, ec')"
  shows "n \<le> length (remaining c)" and "n \<le> s" and "outp' = outp @ map m (take n (remaining c))"
    and "ec' = snd a" and "0 < fst a \<Longrightarrow> 0 < s \<Longrightarrow> remaining c \<noteq> [] \<Longrightarrow> 0 < n"
proof -
  obtain k where k: "k \<le> s" "k \<le> length (remaining c)"
      "all_addresses (ops_prepare ops s c) = take k (remaining c)"
    using prepare_prefix [OF ok] by blast
  have size: "buffer_size (ops_prepare ops s c) = k"
    using k(2) arg_cong [OF k(3), of length] by (simp add: length_all_addresses)
  have n: "n = min (fst a) k" and m: "outp' = outp @ map m (take n (take k (remaining c)))"
    using r size k(3) by (auto simp: write_some_def Let_def)
  show "n \<le> length (remaining c)" "n \<le> s" using n k by simp_all
  show "outp' = outp @ map m (take n (remaining c))" using m n by (simp add: min.absorb1)
  show "ec' = snd a" using r by (auto simp: write_some_def Let_def)
  show "0 < fst a \<Longrightarrow> 0 < s \<Longrightarrow> remaining c \<noteq> [] \<Longrightarrow> 0 < n"
    using prepare_progress [OF ok, of s] n k by (cases k) auto
qed

lemma read_loop_result:
  assumes "ok c" and "read_loop ops cond as c ec m inp = Some (c', ec', m', inp')"
  shows "ok c' \<and> (\<exists>n. n \<le> length (remaining c) \<and> n \<le> length inp \<and> ops_total ops c' = ops_total ops c + n
     \<and> remaining c' = drop n (remaining c) \<and> m' = store m (take n (remaining c)) (take n inp)
     \<and> inp' = drop n inp)
     \<and> (remaining c' = [] \<or> check_condition cond ec' (ops_total ops c') = 0)"
  using assms
proof (induction as arbitrary: c ec m inp)
  case Nil
  then show ?case by (auto simp: empty_iff split: if_splits intro!: exI [of _ 0])
next
  case (Cons a as)
  let ?s = "check_condition cond ec (ops_total ops c)"
  show ?case
  proof (cases "remaining c = [] \<or> ?s = 0")
    case True
    with Cons.prems have "c' = c" "ec' = ec" "m' = m" "inp' = inp"
      by (auto simp: empty_iff Let_def split: if_splits)
    with True Cons.prems show ?thesis by (auto intro!: exI [of _ 0])
  next
    case False
    obtain m1 inp1 n1 ec1 where r: "read_some m (ops_prepare ops ?s c) a inp = (m1, inp1, n1, ec1)"
      by (metis surj_pair)
    note p = read_some_prepared [OF Cons.prems(1) r]
    have l: "read_loop ops cond as (ops_consume ops n1 c) ec1 m1 inp1 = Some (c', ec', m', inp')"
      using Cons.prems False r by (simp add: empty_iff Let_def)
    note IH = Cons.IH [OF consume_ok [OF Cons.prems(1) p(1)] l, unfolded consume_remaining [OF Cons.prems(1) p(1)] consume_total]
    then obtain n2 where n2: "n2 \<le> length (drop n1 (remaining c))" "n2 \<le> length inp1"
        "ops_total ops c' = ops_total ops c + n1 + n2" "remaining c' = drop n2 (drop n1 (remaining c))"
        "m' = store m1 (take n2 (drop n1 (remaining c))) (take n2 inp1)" "inp' = drop n2 inp1"
      by blast
    have "m' = store m (take (n1 + n2) (remaining c)) (take (n1 + n2) inp)"
      unfolding n2(5) p(4,5) by (rule store_split [OF p(1,2)])
    then show ?thesis
      using IH n2 p(1,2,5) by (intro conjI exI [of _ "n1 + n2"]) (auto simp: add.commute)
  qed
qed

lemma read_loop_returns:
  assumes "ok c" and "length (remaining c) \<le> length inp" and "moving as"
    and "length (remaining c) + (if failed ec then 0 else 1) \<le> length as"
    and "\<And>ec n. failed ec \<Longrightarrow> check_condition cond ec n = 0"
  shows "read_loop ops cond as c ec m inp \<noteq> None"
  using assms(1-4)
proof (induction as arbitrary: c ec m inp)
  case Nil
  then show ?case using assms(5) by (auto simp: empty_iff split: if_splits)
next
  case (Cons a as)
  let ?s = "check_condition cond ec (ops_total ops c)"
  show ?case
  proof (cases "remaining c = [] \<or> ?s = 0")
    case True
    then show ?thesis using Cons.prems(1) by (auto simp: empty_iff Let_def)
  next
    case False
    obtain m1 inp1 n1 ec1 where r: "read_some m (ops_prepare ops ?s c) a inp = (m1, inp1, n1, ec1)"
      by (metis surj_pair)
    note p = read_some_prepared [OF Cons.prems(1) r]
    have ec: "\<not> failed ec" using False assms(5) [of ec] by auto
    have "0 < n1 \<or> failed ec1"
      using p(6,7) Cons.prems(2,3) False by (cases a; cases inp) (auto simp: moving_def)
    then have "read_loop ops cond as (ops_consume ops n1 c) ec1 m1 inp1 \<noteq> None"
      using Cons.prems ec p(1,5)
      by (intro Cons.IH) (auto simp: consume_ok consume_remaining moving_def)
    then show ?thesis using False r Cons.prems(1) by (simp add: empty_iff Let_def)
  qed
qed

lemma write_loop_result:
  assumes "ok c" and "write_loop ops cond as c ec m outp = Some (c', ec', outp')"
  shows "ok c' \<and> (\<exists>n. n \<le> length (remaining c) \<and> ops_total ops c' = ops_total ops c + n
     \<and> remaining c' = drop n (remaining c) \<and> outp' = outp @ map m (take n (remaining c)))
     \<and> (remaining c' = [] \<or> check_condition cond ec' (ops_total ops c') = 0)"
  using assms
proof (induction as arbitrary: c ec outp)
  case Nil
  then show ?case by (auto simp: empty_iff split: if_splits intro!: exI [of _ 0])
next
  case (Cons a as)
  let ?s = "check_condition cond ec (ops_total ops c)"
  show ?case
  proof (cases "remaining c = [] \<or> ?s = 0")
    case True
    with Cons.prems have "c' = c" "ec' = ec" "outp' = outp"
      by (auto simp: empty_iff Let_def split: if_splits)
    with True Cons.prems show ?thesis by (auto intro!: exI [of _ 0])
  next
    case False
    obtain outp1 n1 ec1 where r: "write_some m (ops_prepare ops ?s c) a outp = (outp1, n1, ec1)"
      by (metis surj_pair)
    note p = write_some_prepared [OF Cons.prems(1) r]
    have l: "write_loop ops cond as (ops_consume ops n1 c) ec1 m outp1 = Some (c', ec', outp')"
      using Cons.prems False r by (simp add: empty_iff Let_def)
    note IH = Cons.IH [OF consume_ok [OF Cons.prems(1) p(1)] l, unfolded consume_remaining [OF Cons.prems(1) p(1)] consume_total]
    then obtain n2 where n2: "n2 \<le> length (drop n1 (remaining c))"
        "ops_total ops c' = ops_total ops c + n1 + n2" "remaining c' = drop n2 (drop n1 (remaining c))"
        "outp' = outp1 @ map m (take n2 (drop n1 (remaining c)))"
      by blast
    have "outp' = outp @ map m (take (n1 + n2) (remaining c))"
      unfolding n2(4) p(3) by (simp add: take_add)
    then show ?thesis
      using IH n2 p(1) by (intro conjI exI [of _ "n1 + n2"]) (auto simp: add.commute)
  qed
qed

lemma write_loop_returns:
  assumes "ok c" and "moving as"
    and "length (remaining c) + (if failed ec then 0 else 1) \<le> length as"
    and "\<And>ec n. failed ec \<Longrightarrow> check_condition cond ec n = 0"
  shows "write_loop ops cond as c ec m outp \<noteq> None"
  using assms(1-3)
proof (induction as arbitrary: c ec outp)
  case Nil
  then show ?case using assms(4) by (auto simp: empty_iff split: if_splits)
next
  case (Cons a as)
  let ?s = "check_condition cond ec (ops_total ops c)"
  show ?case
  proof (cases "remaining c = [] \<or> ?s = 0")
    case True
    then show ?thesis using Cons.prems(1) by (auto simp: empty_iff Let_def)
  next
    case False
    obtain outp1 n1 ec1 where r: "write_some m (ops_prepare ops ?s c) a outp = (outp1, n1, ec1)"
      by (metis surj_pair)
    note p = write_some_prepared [OF Cons.prems(1) r]
    have ec: "\<not> failed ec" using False assms(4) [of ec] by auto
    have "0 < n1 \<or> failed ec1"
      using p(4,5) Cons.prems(2) False by (cases a) (auto simp: moving_def)
    then have "write_loop ops cond as (ops_consume ops n1 c) ec1 m outp1 \<noteq> None"
      using Cons.prems ec p(1)
      by (intro Cons.IH) (auto simp: consume_ok consume_remaining moving_def)
    then show ?thesis using False r Cons.prems(1) by (simp add: empty_iff Let_def)
  qed
qed

lemma async_read_matches:
  assumes "ok c" and "remaining c \<noteq> []" and "length (remaining c) \<le> length inp" and "moving as"
    and "check_condition cond ec (ops_total ops c) \<noteq> 0"
  shows "async_read_run ops cond as
      (c, Start_some (ops_prepare ops (check_condition cond ec (ops_total ops c)) c)) m inp =
    map_option (\<lambda>(c', ec', m', inp'). (ops_total ops c', ec', m', inp'))
      (read_loop ops cond as c ec m inp)"
  using assms
proof (induction as arbitrary: c ec m inp)
  case Nil
  then show ?case by (simp add: empty_iff)
next
  case (Cons a as)
  let ?s = "check_condition cond ec (ops_total ops c)"
  obtain m1 inp1 n1 ec1 where r: "read_some m (ops_prepare ops ?s c) a inp = (m1, inp1, n1, ec1)"
    by (metis surj_pair)
  note p = read_some_prepared [OF Cons.prems(1) r]
  let ?c1 = "ops_consume ops n1 c"
  have c1: "ok ?c1" "remaining ?c1 = drop n1 (remaining c)"
    using consume_ok [OF Cons.prems(1) p(1)] consume_remaining [OF Cons.prems(1) p(1)] by simp_all
  have progress: "\<not> (\<not> failed ec1 \<and> n1 = 0)"
    using p(6,7) Cons.prems by (cases a; cases inp) (auto simp: moving_def)
  have sync: "read_loop ops cond (a # as) c ec m inp = read_loop ops cond as ?c1 ec1 m1 inp1"
    using Cons.prems r by (simp add: empty_iff Let_def)
  have step: "async_read_run ops cond (a # as) (c, Start_some (ops_prepare ops ?s c)) m inp =
      async_read_run ops cond as (read_op_step ops cond False c ec1 n1) m1 inp1"
    using r by simp
  let ?s1 = "check_condition cond ec1 (ops_total ops ?c1)"
  consider (stop) "remaining ?c1 = [] \<or> ?s1 = 0" | (more) "remaining ?c1 \<noteq> []" "?s1 \<noteq> 0" by blast
  then show ?case
  proof cases
    case stop
    then have "read_op_step ops cond False c ec1 n1 = (?c1, Handler ec1 (ops_total ops ?c1))"
      using c1(1) progress by (auto simp: read_op_step_def Let_def empty_iff)
    moreover have "read_loop ops cond as ?c1 ec1 m1 inp1 = Some (?c1, ec1, m1, inp1)"
      using stop c1(1) by (cases as) (auto simp: empty_iff Let_def)
    ultimately show ?thesis unfolding step sync by simp
  next
    case more
    then have "read_op_step ops cond False c ec1 n1 = (?c1, Start_some (ops_prepare ops ?s1 ?c1))"
      using c1(1) progress by (auto simp: read_op_step_def Let_def empty_iff)
    moreover have "length (remaining ?c1) \<le> length inp1" using c1(2) p(5) Cons.prems(3) by simp
    moreover have "moving as" using Cons.prems(4) by (simp add: moving_def)
    ultimately show ?thesis unfolding step sync using Cons.IH [OF c1(1) more(1) _ _ more(2)] by simp
  qed
qed

lemma async_write_matches:
  assumes "ok c" and "remaining c \<noteq> []" and "moving as"
    and "check_condition cond ec (ops_total ops c) \<noteq> 0"
  shows "async_write_run ops cond as
      (c, Start_some (ops_prepare ops (check_condition cond ec (ops_total ops c)) c)) m outp =
    map_option (\<lambda>(c', ec', outp'). (ops_total ops c', ec', outp'))
      (write_loop ops cond as c ec m outp)"
  using assms
proof (induction as arbitrary: c ec outp)
  case Nil
  then show ?case by (simp add: empty_iff)
next
  case (Cons a as)
  let ?s = "check_condition cond ec (ops_total ops c)"
  obtain outp1 n1 ec1 where r: "write_some m (ops_prepare ops ?s c) a outp = (outp1, n1, ec1)"
    by (metis surj_pair)
  note p = write_some_prepared [OF Cons.prems(1) r]
  let ?c1 = "ops_consume ops n1 c"
  have c1: "ok ?c1" using consume_ok [OF Cons.prems(1) p(1)] .
  have progress: "\<not> (\<not> failed ec1 \<and> n1 = 0)"
    using p(4,5) Cons.prems by (cases a) (auto simp: moving_def)
  have sync: "write_loop ops cond (a # as) c ec m outp = write_loop ops cond as ?c1 ec1 m outp1"
    using Cons.prems r by (simp add: empty_iff Let_def)
  have step: "async_write_run ops cond (a # as) (c, Start_some (ops_prepare ops ?s c)) m outp =
      async_write_run ops cond as (write_op_step ops cond False c ec1 n1) m outp1"
    using r by simp
  let ?s1 = "check_condition cond ec1 (ops_total ops ?c1)"
  consider (stop) "remaining ?c1 = [] \<or> ?s1 = 0" | (more) "remaining ?c1 \<noteq> []" "?s1 \<noteq> 0" by blast
  then show ?case
  proof cases
    case stop
    then have "write_op_step ops cond False c ec1 n1 = (?c1, Handler ec1 (ops_total ops ?c1))"
      using c1 progress by (auto simp: write_op_step_def Let_def empty_iff)
    moreover have "write_loop ops cond as ?c1 ec1 m outp1 = Some (?c1, ec1, outp1)"
      using stop c1 by (cases as) (auto simp: empty_iff Let_def)
    ultimately show ?thesis unfolding step sync by simp
  next
    case more
    then have "write_op_step ops cond False c ec1 n1 = (?c1, Start_some (ops_prepare ops ?s1 ?c1))"
      using c1 progress by (auto simp: write_op_step_def Let_def empty_iff)
    moreover have "moving as" using Cons.prems(3) by (simp add: moving_def)
    ultimately show ?thesis unfolding step sync using Cons.IH [OF c1 more(1) _ more(2)] by simp
  qed
qed

lemma read_sequence_result:
  assumes "ok c" and "ops_total ops c = 0"
    and "read_buffer_sequence ops cond as c m inp = Some (n, ec, m', inp')"
  shows "n \<le> length (remaining c) \<and> n \<le> length inp \<and> m' = store m (take n (remaining c)) (take n inp)
     \<and> inp' = drop n inp \<and> (n = length (remaining c) \<or> check_condition cond ec n = 0)"
proof -
  obtain c' where l: "read_loop ops cond as c Success m inp = Some (c', ec, m', inp')"
    and n: "n = ops_total ops c'"
    using assms(3) by (auto simp: read_buffer_sequence_def)
  from read_loop_result [OF assms(1) l] assms(2) n show ?thesis by auto
qed

lemma write_sequence_result:
  assumes "ok c" and "ops_total ops c = 0"
    and "write_buffer_sequence ops cond as c m outp = Some (n, ec, outp')"
  shows "n \<le> length (remaining c) \<and> outp' = outp @ map m (take n (remaining c))
     \<and> (n = length (remaining c) \<or> check_condition cond ec n = 0)"
proof -
  obtain c' where l: "write_loop ops cond as c Success m outp = Some (c', ec, outp')"
    and n: "n = ops_total ops c'"
    using assms(3) by (auto simp: write_buffer_sequence_def)
  from write_loop_result [OF assms(1) l] assms(2) n show ?thesis by auto
qed

lemma async_read_sequence:
  assumes "ok c" and "remaining c \<noteq> []" and "length (remaining c) \<le> length inp" and "moving as"
    and "check_condition cond Success (ops_total ops c) \<noteq> 0"
  shows "async_read_run ops cond as (read_op_step ops cond True c Success 0) m inp =
    read_buffer_sequence ops cond as c m inp"
  using async_read_matches [OF assms] by (simp add: read_op_step_def read_buffer_sequence_def Let_def)

lemma async_write_sequence:
  assumes "ok c" and "remaining c \<noteq> []" and "moving as"
    and "check_condition cond Success (ops_total ops c) \<noteq> 0"
  shows "async_write_run ops cond as (write_op_step ops cond True c Success 0) m outp =
    write_buffer_sequence ops cond as c m outp"
  using async_write_matches [OF assms] by (simp add: write_op_step_def write_buffer_sequence_def Let_def)

end

section \<open>The three kinds of sequence\<close>

fun kind_addresses :: "sequence_kind \<Rightarrow> nat list" where
  "kind_addresses (Single b) = addresses b"
| "kind_addresses (Pair bs) = addresses (fst bs) @ addresses (snd bs)"
| "kind_addresses (Sequence bs) = all_addresses bs"

lemma sixteen: "sequence_ops 16 = sequence_ops (Suc 15)"
  by (simp add: numeral_eq_Suc)

lemma fresh_totals:
  "ops_total single_ops (consuming_single_buffer b) = 0"
  "ops_total pair_ops (consuming_two_buffers bs) = 0"
  "ops_total (sequence_ops k) (consuming_buffers bs') = 0"
  by (simp_all add: single_ops_def consuming_single_buffer_def pair_ops_def consuming_two_buffers_def
      sequence_ops_def consuming_buffers_def consuming_total_def)

lemma fresh_remaining:
  "single_remaining (consuming_single_buffer b) = addresses b"
  "pair_remaining (consuming_two_buffers bs) = addresses (fst bs) @ addresses (snd bs)"
  "consuming_remaining (consuming_buffers bs') = all_addresses bs'"
  by (simp_all add: single_remaining_def consuming_single_buffer_def pair_remaining_def
      consuming_two_buffers_def consuming_ok_new)

lemma asio_read_result:
  assumes "asio_read cond as k m inp = Some (n, ec, m', inp')"
  shows "n \<le> length (kind_addresses k) \<and> n \<le> length inp
    \<and> m' = store m (take n (kind_addresses k)) (take n inp) \<and> inp' = drop n inp
    \<and> (n = length (kind_addresses k) \<or> check_condition cond ec n = 0)"
proof (cases k)
  case (Single b)
  with one_buffer.read_sequence_result [OF TrueI fresh_totals(1)] assms show ?thesis
    by (simp only: asio_read.simps kind_addresses.simps fresh_remaining)
next
  case (Pair bs)
  with two_buffers.read_sequence_result [OF TrueI fresh_totals(2)] assms show ?thesis
    by (simp only: asio_read.simps kind_addresses.simps fresh_remaining)
next
  case (Sequence bs)
  with any_sequence.read_sequence_result [OF consuming_ok_new(1) fresh_totals(3)] assms show ?thesis
    by (simp only: asio_read.simps kind_addresses.simps fresh_remaining sixteen)
qed

lemma asio_write_result:
  assumes "asio_write cond as k m outp = Some (n, ec, outp')"
  shows "n \<le> length (kind_addresses k) \<and> outp' = outp @ map m (take n (kind_addresses k))
    \<and> (n = length (kind_addresses k) \<or> check_condition cond ec n = 0)"
proof (cases k)
  case (Single b)
  with one_buffer.write_sequence_result [OF TrueI fresh_totals(1)] assms show ?thesis
    by (simp only: asio_write.simps kind_addresses.simps fresh_remaining)
next
  case (Pair bs)
  with two_buffers.write_sequence_result [OF TrueI fresh_totals(2)] assms show ?thesis
    by (simp only: asio_write.simps kind_addresses.simps fresh_remaining)
next
  case (Sequence bs)
  with any_sequence.write_sequence_result [OF consuming_ok_new(1) fresh_totals(3)] assms show ?thesis
    by (simp only: asio_write.simps kind_addresses.simps fresh_remaining sixteen)
qed

lemma asio_read_returns:
  assumes "length (kind_addresses k) \<le> length inp" and "moving as"
    and "length (kind_addresses k) < length as" and "\<And>ec n. failed ec \<Longrightarrow> check_condition cond ec n = 0"
  shows "asio_read cond as k m inp \<noteq> None"
proof (cases k)
  case (Single b)
  then show ?thesis
    using one_buffer.read_loop_returns [OF TrueI, of "consuming_single_buffer b" inp as Success cond m] assms
    by (simp add: read_buffer_sequence_def fresh_remaining)
next
  case (Pair bs)
  then show ?thesis
    using two_buffers.read_loop_returns [OF TrueI, of "consuming_two_buffers bs" inp as Success cond m] assms
    by (simp add: read_buffer_sequence_def fresh_remaining)
next
  case (Sequence bs)
  then show ?thesis
    using any_sequence.read_loop_returns [OF consuming_ok_new(1), of bs inp as Success cond 15 m, folded sixteen] assms
    by (simp add: read_buffer_sequence_def fresh_remaining)
qed

lemma asio_write_returns:
  assumes "moving as" and "length (kind_addresses k) < length as"
    and "\<And>ec n. failed ec \<Longrightarrow> check_condition cond ec n = 0"
  shows "asio_write cond as k m outp \<noteq> None"
proof (cases k)
  case (Single b)
  then show ?thesis
    using one_buffer.write_loop_returns [OF TrueI, of as "consuming_single_buffer b" Success cond m outp] assms
    by (simp add: write_buffer_sequence_def fresh_remaining)
next
  case (Pair bs)
  then show ?thesis
    using two_buffers.write_loop_returns [OF TrueI, of as "consuming_two_buffers bs" Success cond m outp] assms
    by (simp add: write_buffer_sequence_def fresh_remaining)
next
  case (Sequence bs)
  then show ?thesis
    using any_sequence.write_loop_returns [OF consuming_ok_new(1), of as bs Success cond 15 m outp, folded sixteen] assms
    by (simp add: write_buffer_sequence_def fresh_remaining)
qed

text \<open>
  C29. \<open>read\<close> with \<open>transfer_all\<close> on a stream with enough input: it returns; the bytes it
  counts are the first ones of the input, placed in the buffers in order with nothing else of
  memory changed, and the rest of the input is still there; and unless it reports an error, every
  buffer is full. This holds for one buffer, an array of two and any sequence, however the stream
  cuts the transfers.
\<close>

theorem read_fills_buffers:
  assumes "distinct (kind_addresses k)" and "length (kind_addresses k) \<le> length inp"
    and "moving as" and "length (kind_addresses k) < length as"
  shows "\<exists>n ec m' inp'. asio_read transfer_all as k m inp = Some (n, ec, m', inp')
    \<and> map m' (take n (kind_addresses k)) = take n inp \<and> inp' = drop n inp
    \<and> (\<forall>a. a \<notin> set (take n (kind_addresses k)) \<longrightarrow> m' a = m a)
    \<and> (\<not> failed ec \<longrightarrow> n = length (kind_addresses k))"
proof -
  have "asio_read transfer_all as k m inp \<noteq> None"
    by (rule asio_read_returns [OF assms(2-4)]) simp
  then obtain n ec m' inp' where r: "asio_read transfer_all as k m inp = Some (n, ec, m', inp')"
    by auto
  note res = asio_read_result [OF r]
  have "map m' (take n (kind_addresses k)) = take n inp"
    using res assms(1) by (simp add: store_inside)
  with r res show ?thesis by (auto simp: store_outside)
qed

definition three_answers :: "answer list" where
  "three_answers = replicate 9 (3, Success)"

theorem read_fills_buffers_witness:
  "\<exists>n ec m' inp'. asio_read transfer_all three_answers (Single \<lparr>buf_data = 50, buf_size = 8\<rparr>) (\<lambda>_. 0)
      [1, 2, 3, 4, 5, 6, 7, 8, 9] = Some (n, ec, m', inp') \<and> inp' = drop n [1, 2, 3, 4, 5, 6, 7, 8, 9]"
  using read_fills_buffers [of "Single \<lparr>buf_data = 50, buf_size = 8\<rparr>" "[1, 2, 3, 4, 5, 6, 7, 8, 9]"
      three_answers "\<lambda>_. 0"]
  by (auto simp: addresses_def moving_def three_answers_def)

text \<open>
  C30. \<open>write\<close> with \<open>transfer_all\<close>: it returns; what it adds to the output is the number of
  bytes it counts, from the buffers in order, and without an error that is all of them.
\<close>

theorem write_sends_buffers:
  assumes "moving as" and "length (kind_addresses k) < length as"
  shows "\<exists>n ec outp'. asio_write transfer_all as k m outp = Some (n, ec, outp')
    \<and> outp' = outp @ map m (take n (kind_addresses k)) \<and> n \<le> length (kind_addresses k)
    \<and> (\<not> failed ec \<longrightarrow> outp' = outp @ map m (kind_addresses k))"
proof -
  have "asio_write transfer_all as k m outp \<noteq> None"
    by (rule asio_write_returns [OF assms]) simp
  then obtain n ec outp' where r: "asio_write transfer_all as k m outp = Some (n, ec, outp')"
    by auto
  from asio_write_result [OF r] r show ?thesis by auto
qed

theorem write_sends_buffers_witness:
  "\<exists>n ec outp'. asio_write transfer_all three_answers
      (Sequence [\<lparr>buf_data = 50, buf_size = 2\<rparr>, \<lparr>buf_data = 70, buf_size = 4\<rparr>]) (\<lambda>a. of_nat a) []
      = Some (n, ec, outp') \<and> (\<not> failed ec \<longrightarrow> outp' = [50, 51, 70, 71, 72, 73])"
proof -
  let ?k = "Sequence [\<lparr>buf_data = 50, buf_size = 2\<rparr>, \<lparr>buf_data = 70, buf_size = 4\<rparr>]"
  have a: "kind_addresses ?k = [50, 51, 70, 71, 72, 73]"
    by (simp add: addresses_def upt_rec)
  then have "length (kind_addresses ?k) < length three_answers" by (simp add: three_answers_def)
  from write_sends_buffers [OF _ this, of "\<lambda>a. of_nat a" "[]"] show ?thesis
    unfolding a by (auto simp: moving_def three_answers_def)
qed

text \<open>
  C31. On a buffer sequence that is not empty, \<open>async_read\<close> and \<open>async_write\<close>, with any
  completion condition that wants a first transfer, call their handlers with the count and the
  error that the synchronous operations return, and leave memory and stream in the same state, on
  a stream whose answers move bytes or report errors, with at least as much input as the buffers
  hold. (On an empty sequence they differ: the asynchronous ones start a transfer of no bytes.)
\<close>

theorem async_matches_sync:
  assumes "kind_addresses k \<noteq> []" and "moving as" and "check_condition cond Success 0 \<noteq> 0"
    and "length (kind_addresses k) \<le> length inp"
  shows "asio_async_read cond as k m inp = asio_read cond as k m inp
    \<and> asio_async_write cond as k m outp = asio_write cond as k m outp"
proof (cases k)
  case (Single b)
  then show ?thesis
    using one_buffer.async_read_sequence [OF TrueI, of "consuming_single_buffer b" inp as cond m]
      one_buffer.async_write_sequence [OF TrueI, of "consuming_single_buffer b" as cond m outp] assms
    by (simp add: fresh_remaining fresh_totals)
next
  case (Pair bs)
  then show ?thesis
    using two_buffers.async_read_sequence [OF TrueI, of "consuming_two_buffers bs" inp as cond m]
      two_buffers.async_write_sequence [OF TrueI, of "consuming_two_buffers bs" as cond m outp] assms
    by (simp add: fresh_remaining fresh_totals)
next
  case (Sequence bs)
  then show ?thesis
    using any_sequence.async_read_sequence [OF consuming_ok_new(1), of bs inp as cond 15 m, folded sixteen]
      any_sequence.async_write_sequence [OF consuming_ok_new(1), of bs as cond 15 m outp, folded sixteen] assms
    by (simp add: fresh_remaining fresh_totals)
qed

theorem async_matches_sync_witness:
  "asio_async_read (transfer_at_least 5) three_answers (Single \<lparr>buf_data = 50, buf_size = 8\<rparr>) (\<lambda>_. 0)
      (replicate 8 1)
   = asio_read (transfer_at_least 5) three_answers (Single \<lparr>buf_data = 50, buf_size = 8\<rparr>) (\<lambda>_. 0)
      (replicate 8 1)"
  using async_matches_sync [of "Single \<lparr>buf_data = 50, buf_size = 8\<rparr>" three_answers "transfer_at_least 5"
      "replicate 8 1" "\<lambda>_. 0" "[]"]
  by (auto simp: addresses_def moving_def three_answers_def)

end
