(* ===== verification/Asio_Dynamic_Read.thy ===== *)
theory Asio_Dynamic_Read
  imports Asio_Streambuf Asio_Read_Write
begin

text \<open>
  \<open>impl/read.hpp\<close> and \<open>impl/write.hpp\<close>, second part: the operations that read into and
  write from a dynamic buffer, for both versions of that interface, synchronous and
  asynchronous. The buffer type is a template argument: a record of its operations.
  Shown here: over every dynamic buffer the reads implement one function on the bytes of the
  input sequence, whatever storage is behind it; from that follow what they append, when they
  stop and that they stop.
\<close>

section \<open>Version 1\<close>

text \<open>
  The operations of a dynamic buffer; the storage is what \<open>data()\<close> and \<open>prepare()\<close> point
  into. What the container allocates is outside: \<open>capacity()\<close> takes its capacity.
\<close>

record 'b dynamic_ops =
  d_size :: "'b \<Rightarrow> nat"
  d_max_size :: "'b \<Rightarrow> nat"
  d_capacity :: "nat \<Rightarrow> 'b \<Rightarrow> nat"
  d_data :: "'b \<Rightarrow> buffer"
  d_storage :: "'b \<Rightarrow> byte list"
  d_prepare :: "nat \<Rightarrow> 'b \<Rightarrow> ('b \<times> buffer) option"
  d_fill :: "buffer \<Rightarrow> byte list \<Rightarrow> 'b \<Rightarrow> 'b"
  d_commit :: "nat \<Rightarrow> 'b \<Rightarrow> 'b"
  d_consume :: "nat \<Rightarrow> 'b \<Rightarrow> 'b"

text \<open>
  A round of a read: the capacity of the container when the bytes are requested, and the
  stream's answer. A call blocks when the rounds run out, throws, or returns.
\<close>

type_synonym round = "nat \<times> answer"

datatype 'r outcome = Blocked | Length_error | Done 'r

definition bytes_available :: "'b dynamic_ops \<Rightarrow> nat \<Rightarrow> nat \<Rightarrow> 'b \<Rightarrow> nat" where
  "bytes_available ops cap max_size b =
     min (max 512 (d_capacity ops cap b - d_size ops b)) (min max_size (d_max_size ops b - d_size ops b))"

definition read_into ::
  "'b dynamic_ops \<Rightarrow> buffer \<Rightarrow> answer \<Rightarrow> byte list \<Rightarrow> 'b \<Rightarrow> 'b \<times> byte list \<times> nat \<times> error_code" where
  "read_into ops r a inp b =
     (let n = min (fst a) (min (buf_size r) (length inp))
      in (d_fill ops r (take n inp) b, drop n inp, n, snd a))"

fun read_dynamic_loop ::
  "'b dynamic_ops \<Rightarrow> condition \<Rightarrow> round list \<Rightarrow> 'b \<Rightarrow> error_code \<Rightarrow> nat \<Rightarrow> byte list
     \<Rightarrow> ('b \<times> error_code \<times> nat \<times> byte list) outcome" where
  "read_dynamic_loop ops cond [] b ec total_transferred inp =
     (let available = bytes_available ops 0 (check_condition cond ec total_transferred) b
      in if available > 0 then (if d_prepare ops available b = None then Length_error else Blocked)
         else Done (b, ec, total_transferred, inp))"
| "read_dynamic_loop ops cond ((cap, a) # rounds) b ec total_transferred inp =
     (let available = bytes_available ops cap (check_condition cond ec total_transferred) b
      in if available > 0 then
           (case d_prepare ops available b of
              None \<Rightarrow> Length_error
            | Some (b1, r) \<Rightarrow>
                let (b2, inp', bytes_transferred, ec') = read_into ops r a inp b1
                in read_dynamic_loop ops cond rounds (d_commit ops bytes_transferred b2) ec'
                     (total_transferred + bytes_transferred) inp')
         else Done (b, ec, total_transferred, inp))"

definition asio_read_dynamic ::
  "'b dynamic_ops \<Rightarrow> condition \<Rightarrow> round list \<Rightarrow> 'b \<Rightarrow> byte list
     \<Rightarrow> ('b \<times> error_code \<times> nat \<times> byte list) outcome" where
  "asio_read_dynamic ops cond rounds b inp = read_dynamic_loop ops cond rounds b Success 0 inp"

text \<open>The asynchronous operation: one call of its object, \<open>None\<close> if \<open>prepare\<close> throws.\<close>

datatype dynamic_action = Read_region buffer | Complete error_code nat

definition read_dynbuf_v1_step ::
  "'b dynamic_ops \<Rightarrow> condition \<Rightarrow> nat \<Rightarrow> bool \<Rightarrow> 'b \<Rightarrow> nat \<Rightarrow> error_code \<Rightarrow> nat
     \<Rightarrow> ('b \<times> nat \<times> dynamic_action) option" where
  "read_dynbuf_v1_step ops cond cap start b total_transferred ec bytes_transferred =
     (if start then
        (let available = bytes_available ops cap (check_condition cond ec total_transferred) b
         in map_option (\<lambda>(b1, r). (b1, total_transferred, Read_region r)) (d_prepare ops available b))
      else
        (let total = total_transferred + bytes_transferred;
             b1 = d_commit ops bytes_transferred b;
             available = bytes_available ops cap (check_condition cond ec total) b1
         in if \<not> failed ec \<and> bytes_transferred = 0 \<or> available = 0
            then Some (b1, total, Complete ec total)
            else map_option (\<lambda>(b2, r). (b2, total, Read_region r)) (d_prepare ops available b1)))"

fun async_dynamic_run ::
  "'b dynamic_ops \<Rightarrow> condition \<Rightarrow> round list \<Rightarrow> bool \<Rightarrow> 'b \<Rightarrow> nat \<Rightarrow> error_code \<Rightarrow> nat \<Rightarrow> byte list
     \<Rightarrow> ('b \<times> error_code \<times> nat \<times> byte list) outcome" where
  "async_dynamic_run ops cond [] start b moved ec n inp =
     (case read_dynbuf_v1_step ops cond 0 start b moved ec n of
        None \<Rightarrow> Length_error
      | Some (b1, moved1, Complete ec1 n1) \<Rightarrow> Done (b1, ec1, n1, inp)
      | Some (b1, moved1, Read_region r) \<Rightarrow> Blocked)"
| "async_dynamic_run ops cond ((cap, a) # rounds) start b moved ec n inp =
     (case read_dynbuf_v1_step ops cond cap start b moved ec n of
        None \<Rightarrow> Length_error
      | Some (b1, moved1, Complete ec1 n1) \<Rightarrow> Done (b1, ec1, n1, inp)
      | Some (b1, moved1, Read_region r) \<Rightarrow>
          let (b2, inp', n2, ec2) = read_into ops r a inp b1
          in async_dynamic_run ops cond rounds False b2 moved1 ec2 n2 inp')"

definition asio_async_read_dynamic ::
  "'b dynamic_ops \<Rightarrow> condition \<Rightarrow> round list \<Rightarrow> 'b \<Rightarrow> byte list
     \<Rightarrow> ('b \<times> error_code \<times> nat \<times> byte list) outcome" where
  "asio_async_read_dynamic ops cond rounds b inp = async_dynamic_run ops cond rounds True b 0 Success 0 inp"

text \<open>Writing the input sequence of a dynamic buffer, and taking away what was written.\<close>

definition asio_write_dynamic ::
  "'b dynamic_ops \<Rightarrow> condition \<Rightarrow> answer list \<Rightarrow> 'b \<Rightarrow> byte list
     \<Rightarrow> ('b \<times> nat \<times> error_code \<times> byte list) option" where
  "asio_write_dynamic ops cond as b outp =
     map_option (\<lambda>(bytes_transferred, ec, outp'). (d_consume ops bytes_transferred b, bytes_transferred, ec, outp'))
       (asio_write cond as (Single (d_data ops b)) (\<lambda>i. d_storage ops b ! i) outp)"

definition string_ops :: "dyn_buffer dynamic_ops" where
  "string_ops = \<lparr>d_size = string_size, d_max_size = string_max_size, d_capacity = string_capacity,
     d_data = string_data, d_storage = storage, d_prepare = string_prepare, d_fill = dyn_fill,
     d_commit = string_commit, d_consume = string_consume\<rparr>"

definition vector_ops :: "dyn_buffer dynamic_ops" where
  "vector_ops = \<lparr>d_size = vector_size, d_max_size = vector_max_size, d_capacity = vector_capacity,
     d_data = vector_data, d_storage = storage, d_prepare = vector_prepare, d_fill = dyn_fill,
     d_commit = vector_commit, d_consume = vector_consume\<rparr>"

definition streambuf_capacity :: "nat \<Rightarrow> streambuf \<Rightarrow> nat" where
  "streambuf_capacity cap b = cap"

definition streambuf_ops :: "streambuf dynamic_ops" where
  "streambuf_ops = \<lparr>d_size = streambuf_size, d_max_size = streambuf_max_size,
     d_capacity = streambuf_capacity, d_data = streambuf_data, d_storage = sb_buffer,
     d_prepare = streambuf_prepare, d_fill = streambuf_fill, d_commit = streambuf_commit,
     d_consume = streambuf_consume\<rparr>"

section \<open>Version 2\<close>

record 'b dynamic_ops_v2 =
  v_size :: "'b \<Rightarrow> nat"
  v_max_size :: "'b \<Rightarrow> nat"
  v_capacity :: "nat \<Rightarrow> 'b \<Rightarrow> nat"
  v_grow :: "nat \<Rightarrow> 'b \<Rightarrow> 'b option"
  v_data :: "nat \<Rightarrow> nat \<Rightarrow> 'b \<Rightarrow> buffer"
  v_storage :: "'b \<Rightarrow> byte list"
  v_fill :: "buffer \<Rightarrow> byte list \<Rightarrow> 'b \<Rightarrow> 'b"
  v_shrink :: "nat \<Rightarrow> 'b \<Rightarrow> 'b"
  v_consume :: "nat \<Rightarrow> 'b \<Rightarrow> 'b"

definition bytes_available_v2 :: "'b dynamic_ops_v2 \<Rightarrow> nat \<Rightarrow> nat \<Rightarrow> 'b \<Rightarrow> nat" where
  "bytes_available_v2 ops cap max_size b =
     min (max 512 (v_capacity ops cap b - v_size ops b)) (min max_size (v_max_size ops b - v_size ops b))"

definition read_into_v2 ::
  "'b dynamic_ops_v2 \<Rightarrow> buffer \<Rightarrow> answer \<Rightarrow> byte list \<Rightarrow> 'b \<Rightarrow> 'b \<times> byte list \<times> nat \<times> error_code" where
  "read_into_v2 ops r a inp b =
     (let n = min (fst a) (min (buf_size r) (length inp))
      in (v_fill ops r (take n inp) b, drop n inp, n, snd a))"

fun read_dynamic_v2_loop ::
  "'b dynamic_ops_v2 \<Rightarrow> condition \<Rightarrow> round list \<Rightarrow> 'b \<Rightarrow> error_code \<Rightarrow> nat \<Rightarrow> byte list
     \<Rightarrow> ('b \<times> error_code \<times> nat \<times> byte list) outcome" where
  "read_dynamic_v2_loop ops cond [] b ec total_transferred inp =
     (let available = bytes_available_v2 ops 0 (check_condition cond ec total_transferred) b
      in if available > 0 then (if v_grow ops available b = None then Length_error else Blocked)
         else Done (b, ec, total_transferred, inp))"
| "read_dynamic_v2_loop ops cond ((cap, a) # rounds) b ec total_transferred inp =
     (let available = bytes_available_v2 ops cap (check_condition cond ec total_transferred) b
      in if available > 0 then
           let pos = v_size ops b
           in (case v_grow ops available b of
                 None \<Rightarrow> Length_error
               | Some b1 \<Rightarrow>
                   let (b2, inp', bytes_transferred, ec') = read_into_v2 ops (v_data ops pos available b1) a inp b1
                   in read_dynamic_v2_loop ops cond rounds (v_shrink ops (available - bytes_transferred) b2) ec'
                        (total_transferred + bytes_transferred) inp')
         else Done (b, ec, total_transferred, inp))"

definition asio_read_dynamic_v2 ::
  "'b dynamic_ops_v2 \<Rightarrow> condition \<Rightarrow> round list \<Rightarrow> 'b \<Rightarrow> byte list
     \<Rightarrow> ('b \<times> error_code \<times> nat \<times> byte list) outcome" where
  "asio_read_dynamic_v2 ops cond rounds b inp = read_dynamic_v2_loop ops cond rounds b Success 0 inp"

text \<open>The operation object keeps \<open>bytes_available_\<close> from the request to the answer.\<close>

definition read_dynbuf_v2_step ::
  "'b dynamic_ops_v2 \<Rightarrow> condition \<Rightarrow> nat \<Rightarrow> bool \<Rightarrow> 'b \<Rightarrow> nat \<times> nat \<Rightarrow> error_code \<Rightarrow> nat
     \<Rightarrow> ('b \<times> (nat \<times> nat) \<times> dynamic_action) option" where
  "read_dynbuf_v2_step ops cond cap start b st ec bytes_transferred =
     (if start then
        (let available = bytes_available_v2 ops cap (check_condition cond ec (fst st)) b;
             pos = v_size ops b
         in map_option (\<lambda>b1. (b1, (fst st, available), Read_region (v_data ops pos available b1)))
              (v_grow ops available b))
      else
        (let total = fst st + bytes_transferred;
             b1 = v_shrink ops (snd st - bytes_transferred) b;
             available = bytes_available_v2 ops cap (check_condition cond ec total) b1
         in if \<not> failed ec \<and> bytes_transferred = 0 \<or> available = 0
            then Some (b1, (total, available), Complete ec total)
            else
              (let pos = v_size ops b1
               in map_option (\<lambda>b2. (b2, (total, available), Read_region (v_data ops pos available b2)))
                    (v_grow ops available b1))))"

fun async_dynamic_v2_run ::
  "'b dynamic_ops_v2 \<Rightarrow> condition \<Rightarrow> round list \<Rightarrow> bool \<Rightarrow> 'b \<Rightarrow> nat \<times> nat \<Rightarrow> error_code \<Rightarrow> nat \<Rightarrow> byte list
     \<Rightarrow> ('b \<times> error_code \<times> nat \<times> byte list) outcome" where
  "async_dynamic_v2_run ops cond [] start b st ec n inp =
     (case read_dynbuf_v2_step ops cond 0 start b st ec n of
        None \<Rightarrow> Length_error
      | Some (b1, st1, Complete ec1 n1) \<Rightarrow> Done (b1, ec1, n1, inp)
      | Some (b1, st1, Read_region r) \<Rightarrow> Blocked)"
| "async_dynamic_v2_run ops cond ((cap, a) # rounds) start b st ec n inp =
     (case read_dynbuf_v2_step ops cond cap start b st ec n of
        None \<Rightarrow> Length_error
      | Some (b1, st1, Complete ec1 n1) \<Rightarrow> Done (b1, ec1, n1, inp)
      | Some (b1, st1, Read_region r) \<Rightarrow>
          let (b2, inp', n2, ec2) = read_into_v2 ops r a inp b1
          in async_dynamic_v2_run ops cond rounds False b2 st1 ec2 n2 inp')"

definition asio_async_read_dynamic_v2 ::
  "'b dynamic_ops_v2 \<Rightarrow> condition \<Rightarrow> round list \<Rightarrow> 'b \<Rightarrow> byte list
     \<Rightarrow> ('b \<times> error_code \<times> nat \<times> byte list) outcome" where
  "asio_async_read_dynamic_v2 ops cond rounds b inp =
     async_dynamic_v2_run ops cond rounds True b (0, 0) Success 0 inp"

definition asio_write_dynamic_v2 ::
  "'b dynamic_ops_v2 \<Rightarrow> condition \<Rightarrow> answer list \<Rightarrow> 'b \<Rightarrow> byte list
     \<Rightarrow> ('b \<times> nat \<times> error_code \<times> byte list) option" where
  "asio_write_dynamic_v2 ops cond as b outp =
     map_option (\<lambda>(bytes_transferred, ec, outp'). (v_consume ops bytes_transferred b, bytes_transferred, ec, outp'))
       (asio_write cond as (Single (v_data ops 0 (v_size ops b) b)) (\<lambda>i. v_storage ops b ! i) outp)"

definition string_ops_v2 :: "dyn_buffer dynamic_ops_v2" where
  "string_ops_v2 = \<lparr>v_size = string_size, v_max_size = string_max_size, v_capacity = string_capacity,
     v_grow = string_grow, v_data = string_data_at, v_storage = storage, v_fill = dyn_fill,
     v_shrink = string_shrink, v_consume = string_consume\<rparr>"

definition vector_ops_v2 :: "dyn_buffer dynamic_ops_v2" where
  "vector_ops_v2 = \<lparr>v_size = vector_size, v_max_size = vector_max_size, v_capacity = vector_capacity,
     v_grow = vector_grow, v_data = vector_data_at, v_storage = storage, v_fill = dyn_fill,
     v_shrink = vector_shrink, v_consume = vector_consume\<rparr>"

section \<open>What they implement\<close>

text \<open>
  The specification, on the bytes of the input sequence: \<open>m\<close> is the maximum size and \<open>l\<close> the
  number of bytes beyond which the container throws.
\<close>

definition room :: "nat \<Rightarrow> nat \<Rightarrow> nat \<Rightarrow> byte list \<Rightarrow> nat" where
  "room m cap max_size xs = min (max 512 (cap - length xs)) (min max_size (m - length xs))"

fun stream_read ::
  "nat \<Rightarrow> nat \<Rightarrow> condition \<Rightarrow> round list \<Rightarrow> byte list \<Rightarrow> error_code \<Rightarrow> nat \<Rightarrow> byte list
     \<Rightarrow> (byte list \<times> error_code \<times> nat \<times> byte list) outcome" where
  "stream_read m l cond [] xs ec n inp =
     (let r = room m 0 (check_condition cond ec n) xs
      in if r = 0 then Done (xs, ec, n, inp) else if l < length xs + r then Length_error else Blocked)"
| "stream_read m l cond ((cap, a) # rounds) xs ec n inp =
     (let r = room m cap (check_condition cond ec n) xs
      in if r = 0 then Done (xs, ec, n, inp)
         else if l < length xs + r then Length_error
         else (let k = min (fst a) (min r (length inp))
               in stream_read m l cond rounds (xs @ take k inp) (snd a) (n + k) (drop k inp)))"

text \<open>An outcome seen through the contents of the buffer.\<close>

definition seen ::
  "('b \<Rightarrow> byte list) \<Rightarrow> ('b \<times> 'r) outcome \<Rightarrow> (byte list \<times> 'r) outcome" where
  "seen f = map_outcome (map_prod f id)"

lemma seen_simps [simp]:
  "seen f Blocked = Blocked" "seen f Length_error = Length_error" "seen f (Done (b, x)) = Done (f b, x)"
  by (simp_all add: seen_def)

lemma capacity_bound:
  "min (max a (min c m - x)) (min n (m - x)) = min (max a (c - x)) (min n (m - x))" for a c m n x :: nat
  by (cases "c \<le> m") auto

locale dynamic_reader = dynamic_buffer_v1 inv contents limit "d_prepare ops" "d_fill ops" "d_commit ops" "d_consume ops"
  for inv :: "'b \<Rightarrow> bool" and contents :: "'b \<Rightarrow> byte list" and limit :: "'b \<Rightarrow> nat"
    and ops :: "'b dynamic_ops" +
  assumes size: "inv b \<Longrightarrow> d_size ops b = length (contents b)"
    and commit_max: "inv b \<Longrightarrow> d_prepare ops n b = Some (b', r) \<Longrightarrow> length bs \<le> n \<Longrightarrow>
      d_max_size ops (d_commit ops (length bs) (d_fill ops r bs b')) = d_max_size ops b"
    and capacity: "inv b \<Longrightarrow> d_capacity ops cap b = cap \<or> d_capacity ops cap b = min cap (d_max_size ops b)"
    and data: "inv b \<Longrightarrow> map ((!) (d_storage ops b)) (addresses (d_data ops b)) = contents b"
begin

lemma available_room:
  "inv b \<Longrightarrow> bytes_available ops cap n b = room (d_max_size ops b) cap n (contents b)"
  using capacity [of b cap] size [of b] by (auto simp: bytes_available_def room_def capacity_bound)

lemma read_into_round:
  assumes inv: "inv b" and p: "d_prepare ops r b = Some (b1, reg)"
    and i: "read_into ops reg a inp b1 = (b2, inp', k, ec)"
  shows "k = min (fst a) (min r (length inp))" and "inp' = drop k inp" and "ec = snd a"
    and "inv (d_commit ops k b2)" and "contents (d_commit ops k b2) = contents b @ take k inp"
    and "limit (d_commit ops k b2) = limit b" and "d_max_size ops (d_commit ops k b2) = d_max_size ops b"
proof -
  show k: "k = min (fst a) (min r (length inp))" and "inp' = drop k inp" "ec = snd a"
    using i prepare_region [OF inv p] by (auto simp: read_into_def Let_def)
  have b2: "b2 = d_fill ops reg (take k inp) b1"
    using i by (auto simp: read_into_def Let_def)
  have l: "length (take k inp) = k" "length (take k inp) \<le> r" using k by simp_all
  note facts = commit_inv [OF inv p l(2)] commit_contents [OF inv p l(2)] commit_limit [OF inv p l(2)]
    commit_max [OF inv p l(2)]
  from facts show "inv (d_commit ops k b2)" "contents (d_commit ops k b2) = contents b @ take k inp"
    "limit (d_commit ops k b2) = limit b" "d_max_size ops (d_commit ops k b2) = d_max_size ops b"
    unfolding b2 by (simp_all add: l(1) [simplified])
qed

lemma prepare_cases:
  assumes "inv b"
  obtains (fits) b1 r where "d_prepare ops n b = Some (b1, r)" "length (contents b) + n \<le> limit b"
    | (throws) "d_prepare ops n b = None" "limit b < length (contents b) + n"
  using prepare_iff [OF assms, of n] by (cases "d_prepare ops n b") force+

lemma loop_refines:
  "inv b \<Longrightarrow> seen contents (read_dynamic_loop ops cond rounds b ec n inp) =
     stream_read (d_max_size ops b) (limit b) cond rounds (contents b) ec n inp"
proof (induction rounds arbitrary: b ec n inp)
  case Nil
  let ?r = "room (d_max_size ops b) 0 (check_condition cond ec n) (contents b)"
  from Nil show ?case
    by (cases rule: prepare_cases [where n = ?r]) (auto simp: available_room Let_def Nil)
next
  case (Cons round rounds)
  obtain cap a where round: "round = (cap, a)" by (cases round)
  let ?r = "room (d_max_size ops b) cap (check_condition cond ec n) (contents b)"
  from Cons.prems show ?case
  proof (cases rule: prepare_cases [where n = ?r])
    case (fits b1 reg)
    obtain b2 inp' k ec' where i: "read_into ops reg a inp b1 = (b2, inp', k, ec')" by (metis surj_pair)
    note facts = read_into_round [OF Cons.prems fits(1) i]
    from Cons.IH [OF facts(4)] facts(1-3,5-7) fits i show ?thesis
      by (simp add: round available_room [OF Cons.prems] Let_def)
  next
    case throws
    then show ?thesis by (simp add: round available_room [OF Cons.prems] Let_def)
  qed
qed

lemma read_refines:
  "inv b \<Longrightarrow> seen contents (asio_read_dynamic ops cond rounds b inp) =
     stream_read (d_max_size ops b) (limit b) cond rounds (contents b) Success 0 inp"
  by (simp add: asio_read_dynamic_def loop_refines)

lemma async_after_read:
  assumes "inv (d_commit ops k b)" and "failed ec \<or> 0 < k" and "moving (map snd rounds)"
    and "d_max_size ops (d_commit ops k b) \<le> length (contents (d_commit ops k b)) + length inp"
  shows "async_dynamic_run ops cond rounds False b n ec k inp =
    read_dynamic_loop ops cond rounds (d_commit ops k b) ec (n + k) inp"
  using assms
proof (induction rounds arbitrary: b ec n k inp)
  case Nil
  then show ?case
    by (auto simp: read_dynbuf_v1_step_def Let_def split: option.splits)
next
  case (Cons round rounds)
  obtain cap a where round: "round = (cap, a)" by (cases round)
  let ?b = "d_commit ops k b" and ?ec = "check_condition cond ec (n + k)"
  define r where "r = bytes_available ops cap ?ec ?b"
  show ?case
  proof (cases "r > 0 \<and> d_prepare ops r ?b \<noteq> None")
    case False
    then consider "r = 0" | "0 < r" "d_prepare ops r ?b = None" by blast
    then show ?thesis
      by cases (use Cons.prems(2) in \<open>auto simp: round r_def read_dynbuf_v1_step_def Let_def\<close>)
  next
    case True
    then obtain b1 reg where p: "d_prepare ops r ?b = Some (b1, reg)" by auto
    obtain b2 inp' k' ec' where i: "read_into ops reg a inp b1 = (b2, inp', k', ec')" by (metis surj_pair)
    note facts = read_into_round [OF Cons.prems(1) p i]
    have "length (contents ?b) < d_max_size ops ?b"
      using True unfolding r_def available_room [OF Cons.prems(1)] by (simp add: room_def)
    with Cons.prems(4) have "0 < length inp" by linarith
    then have "failed ec' \<or> 0 < k'"
      using facts(1,3) True Cons.prems(3) by (cases a) (auto simp: round moving_def)
    moreover have "moving (map snd rounds)" using Cons.prems(3) by (auto simp: moving_def)
    moreover have "d_max_size ops (d_commit ops k' b2) \<le> length (contents (d_commit ops k' b2)) + length inp'"
      using facts Cons.prems(4) by auto
    ultimately have "async_dynamic_run ops cond rounds False b2 (n + k) ec' k' inp' =
        read_dynamic_loop ops cond rounds (d_commit ops k' b2) ec' (n + k + k') inp'"
      by (rule Cons.IH [OF facts(4)])
    then show ?thesis
      using Cons.prems(2) True p i unfolding round r_def
      by (auto simp: read_dynbuf_v1_step_def Let_def)
  qed
qed

lemma async_matches:
  assumes inv: "inv b" and "length (contents b) < d_max_size ops b" and "check_condition cond Success 0 \<noteq> 0"
    and moving: "moving (map snd rounds)" and "d_max_size ops b \<le> length (contents b) + length inp"
  shows "asio_async_read_dynamic ops cond rounds b inp = asio_read_dynamic ops cond rounds b inp"
proof (cases rounds)
  case Nil
  with assms show ?thesis
    by (auto simp: asio_async_read_dynamic_def asio_read_dynamic_def read_dynbuf_v1_step_def Let_def
        available_room room_def split: option.splits)
next
  case (Cons round rest)
  obtain cap a where round: "round = (cap, a)" by (cases round)
  let ?r = "bytes_available ops cap (check_condition cond Success 0) b"
  have pos: "0 < ?r" using assms by (simp add: available_room room_def)
  show ?thesis
  proof (cases "d_prepare ops ?r b")
    case None
    with pos Cons round show ?thesis
      by (simp add: asio_async_read_dynamic_def asio_read_dynamic_def read_dynbuf_v1_step_def Let_def)
  next
    case (Some br)
    then obtain b1 reg where p: "d_prepare ops ?r b = Some (b1, reg)" by (cases br) auto
    obtain b2 inp' k ec where i: "read_into ops reg a inp b1 = (b2, inp', k, ec)" by (metis surj_pair)
    note facts = read_into_round [OF inv p i]
    have "0 < length inp" using assms(2,5) by linarith
    then have "failed ec \<or> 0 < k"
      using facts(1,3) pos moving by (cases a) (auto simp: Cons round moving_def)
    moreover have "moving (map snd rest)" using moving by (auto simp: Cons moving_def)
    moreover have "d_max_size ops (d_commit ops k b2) \<le> length (contents (d_commit ops k b2)) + length inp'"
      using facts assms(5) by auto
    ultimately have "async_dynamic_run ops cond rest False b2 0 ec k inp' =
        read_dynamic_loop ops cond rest (d_commit ops k b2) ec (0 + k) inp'"
      by (rule async_after_read [OF facts(4)])
    with pos p i Cons round show ?thesis
      by (simp add: asio_async_read_dynamic_def asio_read_dynamic_def read_dynbuf_v1_step_def Let_def)
  qed
qed

lemma write_result:
  assumes inv: "inv b" and w: "asio_write_dynamic ops cond as b outp = Some (b', n, ec, outp')"
  shows "n \<le> length (contents b) \<and> inv b' \<and> contents b' = drop n (contents b)
    \<and> outp' = outp @ take n (contents b) \<and> (n = length (contents b) \<or> check_condition cond ec n = 0)"
proof -
  have r: "asio_write cond as (Single (d_data ops b)) (\<lambda>i. d_storage ops b ! i) outp = Some (n, ec, outp')"
    and b': "b' = d_consume ops n b"
    using w by (auto simp: asio_write_dynamic_def)
  have len: "length (contents b) = buf_size (d_data ops b)"
    using arg_cong [OF data [OF inv], of length] by simp
  from asio_write_result [OF r] show ?thesis
    by (simp add: b' consume_inv [OF inv] consume_contents [OF inv] len take_map [symmetric] data [OF inv])
qed

lemma write_returns:
  assumes "inv b" and "moving as" and "length (contents b) < length as"
    and "\<And>ec n. failed ec \<Longrightarrow> check_condition cond ec n = 0"
  shows "asio_write_dynamic ops cond as b outp \<noteq> None"
  using asio_write_returns [OF assms(2) _ assms(4), of "Single (d_data ops b)" "\<lambda>i. d_storage ops b ! i" outp]
    arg_cong [OF data [OF assms(1)], of length] assms(3)
  by (simp add: asio_write_dynamic_def)

end

locale dynamic_buffer_v2 =
  fixes inv :: "'b \<Rightarrow> bool" and contents :: "'b \<Rightarrow> byte list" and limit :: "'b \<Rightarrow> nat"
    and ops :: "'b dynamic_ops_v2"
  assumes size: "inv b \<Longrightarrow> v_size ops b = length (contents b)"
    and capacity: "inv b \<Longrightarrow> v_capacity ops cap b = cap \<or> v_capacity ops cap b = min cap (v_max_size ops b)"
    and grow_iff: "inv b \<Longrightarrow> v_grow ops n b \<noteq> None \<longleftrightarrow> length (contents b) + n \<le> limit b"
    and grow_region: "inv b \<Longrightarrow> v_grow ops n b = Some b' \<Longrightarrow>
      buf_size (v_data ops (length (contents b)) n b') = n"
    and shrink: "inv b \<Longrightarrow> v_grow ops n b = Some b' \<Longrightarrow> length bs \<le> n \<Longrightarrow>
      b'' = v_shrink ops (n - length bs) (v_fill ops (v_data ops (length (contents b)) n b') bs b') \<Longrightarrow>
      inv b'' \<and> contents b'' = contents b @ bs \<and> limit b'' = limit b \<and> v_max_size ops b'' = v_max_size ops b"
    and data: "inv b \<Longrightarrow> map ((!) (v_storage ops b)) (addresses (v_data ops 0 (v_size ops b) b)) = contents b"
    and consume: "inv b \<Longrightarrow> inv (v_consume ops n b) \<and> contents (v_consume ops n b) = drop n (contents b)
      \<and> limit (v_consume ops n b) = limit b"
    and contents_limit: "inv b \<Longrightarrow> length (contents b) \<le> limit b"
begin

lemma available_room:
  "inv b \<Longrightarrow> bytes_available_v2 ops cap n b = room (v_max_size ops b) cap n (contents b)"
  using capacity [of b cap] size [of b] by (auto simp: bytes_available_v2_def room_def capacity_bound)

lemma read_into_round:
  assumes inv: "inv b" and g: "v_grow ops r b = Some b1"
    and i: "read_into_v2 ops (v_data ops (v_size ops b) r b1) a inp b1 = (b2, inp', k, ec)"
    and b3: "b3 = v_shrink ops (r - k) b2"
  shows "k = min (fst a) (min r (length inp))" and "inp' = drop k inp" and "ec = snd a"
    and "inv b3" and "contents b3 = contents b @ take k inp"
    and "limit b3 = limit b" and "v_max_size ops b3 = v_max_size ops b"
proof -
  show k: "k = min (fst a) (min r (length inp))" and "inp' = drop k inp" "ec = snd a"
    using i grow_region [OF inv g] size [OF inv] by (auto simp: read_into_v2_def Let_def)
  have b2: "b2 = v_fill ops (v_data ops (length (contents b)) r b1) (take k inp) b1"
    using i size [OF inv] by (auto simp: read_into_v2_def Let_def)
  have l: "length (take k inp) = k" "length (take k inp) \<le> r" using k by simp_all
  have "b3 = v_shrink ops (r - length (take k inp)) (v_fill ops (v_data ops (length (contents b)) r b1) (take k inp) b1)"
    unfolding b3 b2 l(1) ..
  from shrink [OF inv g l(2) this]
  show "inv b3" "contents b3 = contents b @ take k inp" "limit b3 = limit b" "v_max_size ops b3 = v_max_size ops b"
    by simp_all
qed

lemma grow_cases:
  assumes "inv b"
  obtains (fits) b1 where "v_grow ops n b = Some b1" "length (contents b) + n \<le> limit b"
    | (throws) "v_grow ops n b = None" "limit b < length (contents b) + n"
  using grow_iff [OF assms, of n] by (cases "v_grow ops n b") force+

lemma loop_refines:
  "inv b \<Longrightarrow> seen contents (read_dynamic_v2_loop ops cond rounds b ec n inp) =
     stream_read (v_max_size ops b) (limit b) cond rounds (contents b) ec n inp"
proof (induction rounds arbitrary: b ec n inp)
  case Nil
  let ?r = "room (v_max_size ops b) 0 (check_condition cond ec n) (contents b)"
  from Nil show ?case
    by (cases rule: grow_cases [where n = ?r]) (auto simp: available_room Let_def Nil)
next
  case (Cons round rounds)
  obtain cap a where round: "round = (cap, a)" by (cases round)
  let ?r = "room (v_max_size ops b) cap (check_condition cond ec n) (contents b)"
  from Cons.prems show ?case
  proof (cases rule: grow_cases [where n = ?r])
    case (fits b1)
    obtain b2 inp' k ec' where i: "read_into_v2 ops (v_data ops (v_size ops b) ?r b1) a inp b1 = (b2, inp', k, ec')"
      by (metis surj_pair)
    note facts = read_into_round [OF Cons.prems fits(1) i refl]
    from Cons.IH [OF facts(4)] facts(1-3,5-7) fits i show ?thesis
      by (simp add: round available_room [OF Cons.prems] Let_def)
  next
    case throws
    then show ?thesis by (simp add: round available_room [OF Cons.prems] Let_def)
  qed
qed

lemma read_refines:
  "inv b \<Longrightarrow> seen contents (asio_read_dynamic_v2 ops cond rounds b inp) =
     stream_read (v_max_size ops b) (limit b) cond rounds (contents b) Success 0 inp"
  by (simp add: asio_read_dynamic_v2_def loop_refines)

lemma async_after_read:
  assumes "b3 = v_shrink ops (snd st - k) b" and "inv b3" and "failed ec \<or> 0 < k" and "moving (map snd rounds)"
    and "v_max_size ops b3 \<le> length (contents b3) + length inp"
  shows "async_dynamic_v2_run ops cond rounds False b st ec k inp =
    read_dynamic_v2_loop ops cond rounds b3 ec (fst st + k) inp"
  using assms
proof (induction rounds arbitrary: b b3 ec st k inp)
  case Nil
  then show ?case
    by (auto simp: read_dynbuf_v2_step_def Let_def split: option.splits)
next
  case (Cons round rounds)
  obtain cap a where round: "round = (cap, a)" by (cases round)
  note b3 = Cons.prems(1)
  let ?ec = "check_condition cond ec (fst st + k)"
  define r where "r = bytes_available_v2 ops cap ?ec b3"
  show ?case
  proof (cases "r > 0 \<and> v_grow ops r b3 \<noteq> None")
    case False
    then consider "r = 0" | "0 < r" "v_grow ops r b3 = None" by blast
    then show ?thesis
      by cases (use Cons.prems(3) in \<open>auto simp: round r_def b3 read_dynbuf_v2_step_def Let_def\<close>)
  next
    case True
    then obtain b1 where g: "v_grow ops r b3 = Some b1" by auto
    obtain b2 inp' k' ec' where i: "read_into_v2 ops (v_data ops (v_size ops b3) r b1) a inp b1 = (b2, inp', k', ec')"
      by (metis surj_pair)
    define b4 where "b4 = v_shrink ops (r - k') b2"
    note facts = read_into_round [OF Cons.prems(2) g i b4_def]
    have "length (contents b3) < v_max_size ops b3"
      using True unfolding r_def available_room [OF Cons.prems(2)] by (simp add: room_def)
    with Cons.prems(5) have "0 < length inp" by linarith
    then have "failed ec' \<or> 0 < k'"
      using facts(1,3) True Cons.prems(4) by (cases a) (auto simp: round moving_def)
    moreover have "moving (map snd rounds)" using Cons.prems(4) by (auto simp: moving_def)
    moreover have "v_max_size ops b4 \<le> length (contents b4) + length inp'"
      using facts Cons.prems(5) by auto
    moreover have "b4 = v_shrink ops (snd (fst st + k, r) - k') b2" by (simp add: b4_def)
    ultimately have "async_dynamic_v2_run ops cond rounds False b2 (fst st + k, r) ec' k' inp' =
        read_dynamic_v2_loop ops cond rounds b4 ec' (fst (fst st + k, r) + k') inp'"
      using Cons.IH facts(4) by blast
    then show ?thesis
      using Cons.prems(3) True g i b4_def unfolding round r_def b3
      by (auto simp: read_dynbuf_v2_step_def Let_def)
  qed
qed

lemma async_matches:
  assumes inv: "inv b" and "length (contents b) < v_max_size ops b" and "check_condition cond Success 0 \<noteq> 0"
    and moving: "moving (map snd rounds)" and "v_max_size ops b \<le> length (contents b) + length inp"
  shows "asio_async_read_dynamic_v2 ops cond rounds b inp = asio_read_dynamic_v2 ops cond rounds b inp"
proof (cases rounds)
  case Nil
  with assms show ?thesis
    by (auto simp: asio_async_read_dynamic_v2_def asio_read_dynamic_v2_def read_dynbuf_v2_step_def Let_def
        available_room room_def split: option.splits)
next
  case (Cons round rest)
  obtain cap a where round: "round = (cap, a)" by (cases round)
  let ?r = "bytes_available_v2 ops cap (check_condition cond Success 0) b"
  have pos: "0 < ?r" using assms by (simp add: available_room room_def)
  show ?thesis
  proof (cases "v_grow ops ?r b")
    case None
    with pos Cons round show ?thesis
      by (simp add: asio_async_read_dynamic_v2_def asio_read_dynamic_v2_def read_dynbuf_v2_step_def Let_def)
  next
    case g: (Some b1)
    obtain b2 inp' k ec where i: "read_into_v2 ops (v_data ops (v_size ops b) ?r b1) a inp b1 = (b2, inp', k, ec)"
      by (metis surj_pair)
    define b4 where "b4 = v_shrink ops (snd (0 :: nat, ?r) - k) b2"
    note facts = read_into_round [OF inv g i b4_def [simplified]]
    have "0 < length inp" using assms(2,5) by linarith
    then have "failed ec \<or> 0 < k"
      using facts(1,3) pos moving by (cases a) (auto simp: Cons round moving_def)
    moreover have "moving (map snd rest)" using moving by (auto simp: Cons moving_def)
    moreover have "v_max_size ops b4 \<le> length (contents b4) + length inp'"
      using facts assms(5) by auto
    ultimately have "async_dynamic_v2_run ops cond rest False b2 (0, ?r) ec k inp' =
        read_dynamic_v2_loop ops cond rest b4 ec (fst (0 :: nat, ?r) + k) inp'"
      by (rule async_after_read [OF b4_def facts(4)])
    with pos g i Cons round show ?thesis
      by (simp add: asio_async_read_dynamic_v2_def asio_read_dynamic_v2_def read_dynbuf_v2_step_def Let_def b4_def)
  qed
qed

lemma write_result:
  assumes inv: "inv b" and w: "asio_write_dynamic_v2 ops cond as b outp = Some (b', n, ec, outp')"
  shows "n \<le> length (contents b) \<and> inv b' \<and> contents b' = drop n (contents b)
    \<and> outp' = outp @ take n (contents b) \<and> (n = length (contents b) \<or> check_condition cond ec n = 0)"
proof -
  have r: "asio_write cond as (Single (v_data ops 0 (v_size ops b) b)) (\<lambda>i. v_storage ops b ! i) outp = Some (n, ec, outp')"
    and b': "b' = v_consume ops n b"
    using w by (auto simp: asio_write_dynamic_v2_def)
  have len: "length (contents b) = buf_size (v_data ops 0 (v_size ops b) b)"
    using arg_cong [OF data [OF inv], of length] by simp
  from asio_write_result [OF r] show ?thesis
    by (simp add: b' consume [OF inv] len take_map [symmetric] data [OF inv])
qed

lemma write_returns:
  assumes "inv b" and "moving as" and "length (contents b) < length as"
    and "\<And>ec n. failed ec \<Longrightarrow> check_condition cond ec n = 0"
  shows "asio_write_dynamic_v2 ops cond as b outp \<noteq> None"
  using asio_write_returns [OF assms(2) _ assms(4), of "Single (v_data ops 0 (v_size ops b) b)" "\<lambda>i. v_storage ops b ! i" outp]
    arg_cong [OF data [OF assms(1)], of length] assms(3)
  by (simp add: asio_write_dynamic_v2_def)

end

section \<open>Strings, vectors and stream buffers\<close>

lemma region_bytes:
  "p + n \<le> length xs \<Longrightarrow> map ((!) xs) (addresses \<lparr>buf_data = p, buf_size = n\<rparr>) = take n (drop p xs)"
  by (rule nth_equalityI) (simp_all add: addresses_def)

lemmas ops_defs = string_ops_def vector_ops_def streambuf_ops_def string_ops_v2_def vector_ops_v2_def

lemma dyn_region:
  "dyn_inv d \<Longrightarrow> map ((!) (storage d)) (addresses (string_data d)) = dyn_contents d"
  using maxima by (auto simp: string_data_def whole_def buffer_limit_def dyn_contents_def dyn_inv_def dyn_limit_def
      region_bytes split: if_splits)

lemma string_commit_max:
  assumes "dyn_inv d" and "string_prepare n d = Some (d', r)" and "length bs \<le> n"
  shows "dyn_max (string_commit (length bs) (dyn_fill r bs d')) = dyn_max d"
  unfolding string_commit_result [OF assms] by simp

interpretation string_reader: dynamic_reader dyn_inv dyn_contents dyn_limit string_ops
proof (intro dynamic_reader.intro dynamic_reader_axioms.intro)
  show "dynamic_buffer_v1 dyn_inv dyn_contents dyn_limit (d_prepare string_ops) (d_fill string_ops)
      (d_commit string_ops) (d_consume string_ops)"
    using dyn_string.dynamic_buffer_v1_axioms by (simp add: string_ops_def)
qed (use string_commit_max in \<open>simp_all add: string_ops_def string_size_contents string_max_size_def
    string_capacity_def dyn_region\<close>)

interpretation vector_reader: dynamic_reader dyn_inv dyn_contents dyn_limit vector_ops
proof (intro dynamic_reader.intro dynamic_reader_axioms.intro)
  show "dynamic_buffer_v1 dyn_inv dyn_contents dyn_limit (d_prepare vector_ops) (d_fill vector_ops)
      (d_commit vector_ops) (d_consume vector_ops)"
    using dyn_vector.dynamic_buffer_v1_axioms by (simp add: vector_ops_def)
  have same: "vector_size = string_size" "vector_data = string_data"
    by (simp_all add: fun_eq_iff vector_string)
  show "d_size vector_ops d = length (dyn_contents d)"
    "map ((!) (d_storage vector_ops d)) (addresses (d_data vector_ops d)) = dyn_contents d" if "dyn_inv d" for d
    using that by (simp_all add: vector_ops_def same string_size_contents dyn_region)
qed (use string_commit_max in \<open>simp_all add: vector_ops_def vector_max_size_def vector_capacity_def
    vector_string_same\<close>)

lemma streambuf_region:
  "streambuf_inv b \<Longrightarrow> map ((!) (sb_buffer b)) (addresses (streambuf_data b)) = streambuf_contents b"
proof -
  assume "streambuf_inv b"
  then have "gptr b + (pptr b - gptr b) \<le> length (sb_buffer b)" by (auto simp: streambuf_inv_def)
  then show ?thesis by (simp add: streambuf_data_def streambuf_contents_def region_bytes)
qed

interpretation streambuf_reader: dynamic_reader streambuf_inv streambuf_contents sb_max_size streambuf_ops
proof (intro dynamic_reader.intro dynamic_reader_axioms.intro)
  show "dynamic_buffer_v1 streambuf_inv streambuf_contents sb_max_size (d_prepare streambuf_ops)
      (d_fill streambuf_ops) (d_commit streambuf_ops) (d_consume streambuf_ops)"
    using sbuf.dynamic_buffer_v1_axioms by (simp add: streambuf_ops_def)
qed (use sbuf.commit_limit in \<open>simp_all add: streambuf_ops_def length_contents streambuf_size_def
    streambuf_max_size_def streambuf_capacity_def streambuf_region\<close>)

text \<open>A string or vector not yet used through version 1.\<close>

definition unused :: "dyn_buffer \<Rightarrow> bool" where
  "unused d \<longleftrightarrow> dyn_size d = size_max \<and> length (storage d) \<le> dyn_limit d"

lemma unused_facts:
  assumes "unused d"
  shows "dyn_inv d" "dyn_contents d = storage d" "string_size d = length (storage d)"
    "length (storage d) \<le> dyn_max d" "length (storage d) \<le> container_max"
  using assms by (auto simp: unused_def dyn_inv_def dyn_contents_def string_size_def string_max_size_def dyn_limit_def)

lemma string_grow_cases:
  assumes "unused d"
  shows "string_grow n d = (if length (storage d) + n \<le> dyn_limit d
    then Some (d\<lparr>storage := storage d @ replicate n 0\<rparr>) else None)"
  using unused_facts [OF assms]
  by (auto simp: string_grow_def resized_def vec_resize_def string_max_size_def dyn_limit_def)

lemma string_region_v2:
  assumes "unused d" and "string_grow n d = Some d'"
  shows "string_data_at (length (storage d)) n d' = \<lparr>buf_data = length (storage d), buf_size = n\<rparr>"
  using assms by (auto simp: string_grow_cases string_data_at_def whole_def buffer_limit_def buffer_advance_def
      dyn_limit_def Let_def split: if_splits)

lemma string_shrink_v2:
  assumes "unused d" and g: "string_grow n d = Some d'" and len: "length bs \<le> n"
  shows "string_shrink (n - length bs) (dyn_fill (string_data_at (length (storage d)) n d') bs d') =
    d\<lparr>storage := storage d @ bs\<rparr>"
proof -
  have d': "d' = d\<lparr>storage := storage d @ replicate n 0\<rparr>" and fits: "length (storage d) + n \<le> dyn_limit d"
    using g by (simp_all add: string_grow_cases [OF assms(1)] split: if_splits)
  define e where "e = dyn_fill (string_data_at (length (storage d)) n d') bs d'"
  have e: "e = d\<lparr>storage := storage d @ bs @ replicate (n - length bs) 0\<rparr>"
    unfolding e_def string_region_v2 [OF assms(1) g] using len
    by (simp add: d' dyn_fill_def copy_at_def)
  have "string_size e = length (storage d) + n"
    using assms(1) fits len by (simp add: e string_size_def string_max_size_def dyn_limit_def unused_def)
  then have "string_shrink (n - length bs) e = e\<lparr>storage := vec_resize (length (storage d) + length bs) (storage e)\<rparr>"
    using len by (simp add: string_shrink_def)
  also have "vec_resize (length (storage d) + length bs) (storage e) = storage d @ bs"
    by (simp add: e vec_resize_def)
  finally show ?thesis by (simp add: e_def [symmetric]) (simp add: e)
qed

interpretation string_reader_v2: dynamic_buffer_v2 unused storage dyn_limit string_ops_v2
proof
  fix b n
  assume u: "unused b"
  note facts = unused_facts [OF u]
  show "v_size string_ops_v2 b = length (storage b)"
    using facts by (simp add: string_ops_v2_def)
  show "v_capacity string_ops_v2 cap b = cap \<or> v_capacity string_ops_v2 cap b = min cap (v_max_size string_ops_v2 b)" for cap
    by (simp add: string_ops_v2_def string_capacity_def string_max_size_def)
  show "v_grow string_ops_v2 n b \<noteq> None \<longleftrightarrow> length (storage b) + n \<le> dyn_limit b"
    by (simp add: string_ops_v2_def string_grow_cases [OF u])
  show "map ((!) (v_storage string_ops_v2 b)) (addresses (v_data string_ops_v2 0 (v_size string_ops_v2 b) b)) = storage b"
    using facts by (simp add: string_ops_v2_def string_data_at_def whole_def buffer_limit_def buffer_advance_def region_bytes)
  show "length (storage b) \<le> dyn_limit b" using u by (simp add: unused_def)
  show "unused (v_consume string_ops_v2 n b) \<and> storage (v_consume string_ops_v2 n b) = drop n (storage b)
      \<and> dyn_limit (v_consume string_ops_v2 n b) = dyn_limit b"
    using u by (auto simp: string_ops_v2_def string_consume_def unused_def dyn_limit_def)
next
  fix b n b'
  assume u: "unused b" and "v_grow string_ops_v2 n b = Some b'"
  then have g: "string_grow n b = Some b'" by (simp add: string_ops_v2_def)
  show "buf_size (v_data string_ops_v2 (length (storage b)) n b') = n"
    by (simp add: string_ops_v2_def string_region_v2 [OF u g])
  fix bs :: "byte list" and b''
  assume len: "length bs \<le> n" and
    "b'' = v_shrink string_ops_v2 (n - length bs) (v_fill string_ops_v2 (v_data string_ops_v2 (length (storage b)) n b') bs b')"
  then have "b'' = b\<lparr>storage := storage b @ bs\<rparr>"
    by (simp add: string_ops_v2_def string_shrink_v2 [OF u g len])
  then show "unused b'' \<and> storage b'' = storage b @ bs \<and> dyn_limit b'' = dyn_limit b \<and>
      v_max_size string_ops_v2 b'' = v_max_size string_ops_v2 b"
    using u g len by (simp add: string_ops_v2_def string_grow_cases unused_def dyn_limit_def string_max_size_def
        split: if_splits)
qed

lemma vector_grow_same: "vector_grow = string_grow" "vector_data_at = string_data_at" "vector_size = string_size"
  "vector_shrink = string_shrink" "vector_max_size = string_max_size" "vector_capacity = string_capacity"
  by (simp_all add: fun_eq_iff vector_string)

interpretation vector_reader_v2: dynamic_buffer_v2 unused storage dyn_limit vector_ops_v2
  using string_reader_v2.size string_reader_v2.capacity string_reader_v2.grow_iff string_reader_v2.grow_region
    string_reader_v2.shrink string_reader_v2.data string_reader_v2.consume string_reader_v2.contents_limit
  unfolding vector_ops_v2_def vector_grow_same string_ops_v2_def dynamic_ops_v2.simps
  by unfold_locales (simp_all add: vector_consume_inv unused_facts)

section \<open>What a read does to the bytes\<close>

lemma take_then_take: "(xs @ take k ys) @ take k' (drop k ys) = xs @ take (k + k') ys"
  by (simp add: take_add)

lemma drop_then_drop: "drop k' (drop k ys) = drop (k + k') ys"
  by (simp add: add.commute)

lemma room_zero: "room m cap n xs = 0 \<longleftrightarrow> n = 0 \<or> m \<le> length xs"
  by (auto simp: room_def min_def max_def)

lemma room_le: "length xs \<le> m \<Longrightarrow> length xs + room m cap n xs \<le> m"
  by (simp add: room_def)

lemma stream_read_stops:
  assumes "room m cap (check_condition cond ec n) xs = 0" and "length xs \<le> m" and "length xs \<le> l"
    and "Done (xs, ec, n, inp) = Done (xs', ec', n', inp')"
  shows "\<exists>k \<le> length inp. xs' = xs @ take k inp \<and> inp' = drop k inp \<and> n' = n + k
    \<and> length xs' \<le> m \<and> length xs' \<le> l \<and> (check_condition cond ec' n' = 0 \<or> length xs' = m)"
  using assms(2-) assms(1) [unfolded room_zero] by (intro exI [of _ 0]) auto

lemma stream_read_result:
  assumes "stream_read m l cond rounds xs ec n inp = Done (xs', ec', n', inp')"
    and "length xs \<le> m" and "length xs \<le> l"
  shows "\<exists>k \<le> length inp. xs' = xs @ take k inp \<and> inp' = drop k inp \<and> n' = n + k
    \<and> length xs' \<le> m \<and> length xs' \<le> l \<and> (check_condition cond ec' n' = 0 \<or> length xs' = m)"
  using assms
proof (induction rounds arbitrary: xs ec n inp)
  case Nil
  then have zero: "room m 0 (check_condition cond ec n) xs = 0"
      and eq: "Done (xs, ec, n, inp) = Done (xs', ec', n', inp')"
    by (simp_all add: Let_def split: if_splits)
  show ?case by (rule stream_read_stops [OF zero Nil(2,3) eq])
next
  case (Cons round rounds)
  obtain cap a where round: "round = (cap, a)" by (cases round)
  define r where "r = room m cap (check_condition cond ec n) xs"
  show ?case
  proof (cases "r = 0")
    case True
    with Cons.prems(1) have eq: "Done (xs, ec, n, inp) = Done (xs', ec', n', inp')"
      by (simp add: round r_def)
    show ?thesis by (rule stream_read_stops [OF True [unfolded r_def] Cons.prems(2,3) eq])
  next
    case False
    define k where "k = min (fst a) (min r (length inp))"
    have step: "stream_read m l cond rounds (xs @ take k inp) (snd a) (n + k) (drop k inp) = Done (xs', ec', n', inp')"
      and fits: "length xs + r \<le> l"
      using False Cons.prems(1) by (simp_all add: round r_def [symmetric] k_def [symmetric] Let_def split: if_splits)
    have k: "k \<le> length inp" "k \<le> r" by (simp_all add: k_def)
    have "r \<le> m - length xs" by (simp add: r_def room_def)
    then have "length (xs @ take k inp) \<le> m" "length (xs @ take k inp) \<le> l"
      using k fits Cons.prems(2) by auto
    from Cons.IH [OF step this] obtain k' where k': "k' \<le> length (drop k inp)"
        "xs' = (xs @ take k inp) @ take k' (drop k inp)" "inp' = drop k' (drop k inp)" "n' = n + k + k'"
        "length xs' \<le> m \<and> length xs' \<le> l \<and> (check_condition cond ec' n' = 0 \<or> length xs' = m)"
      by blast
    note k'(2) [unfolded take_then_take] k'(3) [unfolded drop_then_drop]
    with k k'(1,4,5) show ?thesis by (intro exI [of _ "k + k'"]) simp
  qed
qed

lemma stream_read_throws:
  "stream_read m l cond rounds xs ec n inp = Length_error \<Longrightarrow> length xs \<le> m \<Longrightarrow> l < m"
proof (induction rounds arbitrary: xs ec n inp)
  case Nil
  then have "l < length xs + room m 0 (check_condition cond ec n) xs"
    by (simp add: Let_def split: if_splits)
  with room_le [OF Nil(2), of 0 "check_condition cond ec n"] show ?case by linarith
next
  case (Cons round rounds)
  obtain cap a where round: "round = (cap, a)" by (cases round)
  define r where "r = room m cap (check_condition cond ec n) xs"
  have r: "length xs + r \<le> m" unfolding r_def by (rule room_le [OF Cons.prems(2)])
  show ?case
  proof (cases "l < length xs + r")
    case True
    with r show ?thesis by linarith
  next
    case False
    with Cons.prems(1) Cons.IH r show ?thesis
      by (fastforce simp: round r_def [symmetric] Let_def split: if_splits)
  qed
qed

lemma stream_read_blocks:
  assumes stop: "\<And>ec n. failed ec \<Longrightarrow> check_condition cond ec n = 0"
    and "stream_read m l cond rounds xs ec n inp = Blocked"
  shows "\<not> failed ec \<and> \<not> (\<exists>r \<in> set rounds. failed (snd (snd r)))"
  using assms(2)
proof (induction rounds arbitrary: xs ec n inp)
  case Nil
  then have "room m 0 (check_condition cond ec n) xs \<noteq> 0" by (simp add: Let_def split: if_splits)
  then show ?case using stop [of ec n] by (auto simp: room_zero)
next
  case (Cons round rounds)
  obtain cap a where round: "round = (cap, a)" by (cases round)
  define r where "r = room m cap (check_condition cond ec n) xs"
  define k where "k = min (fst a) (min r (length inp))"
  have "r \<noteq> 0" and rest: "stream_read m l cond rounds (xs @ take k inp) (snd a) (n + k) (drop k inp) = Blocked"
    using Cons.prems by (simp_all add: round r_def [symmetric] k_def [symmetric] Let_def split: if_splits)
  then have "\<not> failed ec" using stop [of ec n] by (auto simp: r_def room_zero)
  with Cons.IH [OF rest] show ?case by (simp add: round)
qed



text \<open>
  It makes no difference what a dynamic buffer is: with the same bytes in it and the same
  maximum size, a string, a vector, through either version of the interface, and a stream buffer
  end up with the same bytes, the same error and the same count, and leave the stream the same.
\<close>

theorem dynamic_read_same:
  assumes "unused d" and "streambuf_inv b" and "streambuf_contents b = storage d" and "sb_max_size b = dyn_max d"
  shows "seen dyn_contents (asio_read_dynamic string_ops cond rounds d inp) =
      seen streambuf_contents (asio_read_dynamic streambuf_ops cond rounds b inp)
    \<and> seen dyn_contents (asio_read_dynamic vector_ops cond rounds d inp) =
      seen streambuf_contents (asio_read_dynamic streambuf_ops cond rounds b inp)
    \<and> seen storage (asio_read_dynamic_v2 string_ops_v2 cond rounds d inp) =
      seen streambuf_contents (asio_read_dynamic streambuf_ops cond rounds b inp)
    \<and> seen storage (asio_read_dynamic_v2 vector_ops_v2 cond rounds d inp) =
      seen streambuf_contents (asio_read_dynamic streambuf_ops cond rounds b inp)"
proof -
  note facts = unused_facts [OF assms(1)]
  have "dyn_limit d = dyn_max d"
    using assms(2,4) by (simp add: dyn_limit_def streambuf_inv_def container_max_def)
  then show ?thesis
    using string_reader.read_refines [OF facts(1), of cond rounds inp]
      vector_reader.read_refines [OF facts(1), of cond rounds inp]
      string_reader_v2.read_refines [OF assms(1), of cond rounds inp]
      vector_reader_v2.read_refines [OF assms(1), of cond rounds inp]
      streambuf_reader.read_refines [OF assms(2), of cond rounds inp] assms(3,4) facts(2)
    by (simp add: ops_defs string_max_size_def vector_max_size_def streambuf_max_size_def)
qed

theorem dynamic_read_same_witness:
  "seen storage (asio_read_dynamic_v2 vector_ops_v2 transfer_all [(0, 2, Success), (9, 1, Eof)] (vector_buffer [] 300) [1, 2, 3, 4]) =
     seen streambuf_contents (asio_read_dynamic streambuf_ops transfer_all [(0, 2, Success), (9, 1, Eof)] (new_streambuf 300) [1, 2, 3, 4])"
proof -
  have "unused (vector_buffer [] 300)" by (simp add: unused_def vector_buffer_def)
  from dynamic_read_same [OF this, of "new_streambuf 300" transfer_all "[(0, 2, Success), (9, 1, Eof)]" "[1, 2, 3, 4]"] show ?thesis
    by (simp add: new_streambuf_inv vector_buffer_def)
qed

text \<open>
  Reading into a string asynchronously calls the handler with the error and the count that
  the synchronous read returns, and leaves the same string and stream, in both versions: given
  room in the string, a condition that wants a first transfer, a stream that moves bytes or
  reports an error, and enough input.
\<close>

theorem dynamic_async_matches_sync:
  assumes "unused d" and "length (storage d) < dyn_max d" and "check_condition cond Success 0 \<noteq> 0"
    and "moving (map snd rounds)" and "dyn_max d \<le> length (storage d) + length inp"
  shows "asio_async_read_dynamic string_ops cond rounds d inp = asio_read_dynamic string_ops cond rounds d inp
    \<and> asio_async_read_dynamic_v2 string_ops_v2 cond rounds d inp = asio_read_dynamic_v2 string_ops_v2 cond rounds d inp"
proof
  note facts = unused_facts [OF assms(1)]
  show "asio_async_read_dynamic string_ops cond rounds d inp = asio_read_dynamic string_ops cond rounds d inp"
    by (rule string_reader.async_matches)
      (use facts assms in \<open>simp_all add: string_ops_def string_max_size_def\<close>)
  show "asio_async_read_dynamic_v2 string_ops_v2 cond rounds d inp = asio_read_dynamic_v2 string_ops_v2 cond rounds d inp"
    by (rule string_reader_v2.async_matches)
      (use facts assms in \<open>simp_all add: string_ops_v2_def string_max_size_def\<close>)
qed

theorem dynamic_async_matches_sync_witness:
  "asio_async_read_dynamic string_ops transfer_all [(15, 2, Success), (15, 5, Eof)] (string_buffer [9] 4) [1, 2, 3, 4]
   = asio_read_dynamic string_ops transfer_all [(15, 2, Success), (15, 5, Eof)] (string_buffer [9] 4) [1, 2, 3, 4]"
proof -
  have "unused (string_buffer [9] 4)"
    by (simp add: unused_def string_buffer_def dyn_limit_def container_max_def)
  then show ?thesis
    using dynamic_async_matches_sync [of "string_buffer [9] 4" transfer_all "[(15, 2, Success), (15, 5, Eof)]" "[1, 2, 3, 4]"]
    by (simp add: string_buffer_def moving_def)
qed

text \<open>
  Writing a dynamic buffer, here a string and a stream buffer: the write returns, the bytes
  it counts are the first ones of the input sequence, they go out in order, exactly they are
  taken out of the buffer, and without an error nothing is left.
\<close>

theorem dynamic_write_drains:
  assumes "dyn_inv d" and "streambuf_inv b" and "moving as"
    and "length (dyn_contents d) < length as" and "length (streambuf_contents b) < length as"
  shows "(\<exists>d' n ec. asio_write_dynamic string_ops transfer_all as d outp =
        Some (d', n, ec, outp @ take n (dyn_contents d))
      \<and> dyn_contents d' = drop n (dyn_contents d) \<and> (\<not> failed ec \<longrightarrow> dyn_contents d' = []))
    \<and> (\<exists>b' n ec. asio_write_dynamic streambuf_ops transfer_all as b outp =
        Some (b', n, ec, outp @ take n (streambuf_contents b))
      \<and> streambuf_contents b' = drop n (streambuf_contents b) \<and> (\<not> failed ec \<longrightarrow> streambuf_contents b' = []))"
proof
  have "asio_write_dynamic string_ops transfer_all as d outp \<noteq> None"
    by (rule string_reader.write_returns [OF assms(1,3,4)]) simp
  then obtain d' n ec outp' where w: "asio_write_dynamic string_ops transfer_all as d outp = Some (d', n, ec, outp')"
    by auto
  from string_reader.write_result [OF assms(1) w] w
  show "\<exists>d' n ec. asio_write_dynamic string_ops transfer_all as d outp =
        Some (d', n, ec, outp @ take n (dyn_contents d))
      \<and> dyn_contents d' = drop n (dyn_contents d) \<and> (\<not> failed ec \<longrightarrow> dyn_contents d' = [])"
    by auto
  have "asio_write_dynamic streambuf_ops transfer_all as b outp \<noteq> None"
    by (rule streambuf_reader.write_returns [OF assms(2,3,5)]) simp
  then obtain b' n ec outp' where v: "asio_write_dynamic streambuf_ops transfer_all as b outp = Some (b', n, ec, outp')"
    by auto
  from streambuf_reader.write_result [OF assms(2) v] v
  show "\<exists>b' n ec. asio_write_dynamic streambuf_ops transfer_all as b outp =
        Some (b', n, ec, outp @ take n (streambuf_contents b))
      \<and> streambuf_contents b' = drop n (streambuf_contents b) \<and> (\<not> failed ec \<longrightarrow> streambuf_contents b' = [])"
    by auto
qed

theorem dynamic_write_drains_witness:
  "\<exists>d' n ec. asio_write_dynamic string_ops transfer_all [(2, Success), (2, Success), (2, Success), (2, Success)]
      (string_buffer [7, 8, 9] 10) [] = Some (d', n, ec, take n [7, 8, 9])"
proof -
  have d: "dyn_inv (string_buffer [7, 8, 9] 10)" "dyn_contents (string_buffer [7, 8, 9] 10) = [7, 8, 9]"
    by (simp_all add: dyn_inv_def dyn_contents_def string_buffer_def dyn_limit_def container_max_def)
  show ?thesis
    using dynamic_write_drains [OF d(1), of "new_streambuf 10" "[(2, Success), (2, Success), (2, Success), (2, Success)]" "[]"]
    by (auto simp: d(2) new_streambuf_inv moving_def)
qed

end
