(* ===== verification/Asio_Read_Until.thy ===== *)
theory Asio_Read_Until
  imports Asio_Dynamic_Read "HOL-Library.Sublist"
begin

text \<open>
  \<open>impl/read_until.hpp\<close>: reading into a dynamic buffer until its input sequence contains a
  delimiter, a character, a string or what a match condition says, synchronously and asynchronously. What the operations need
  of a delimiter is a locale; the searches for characters and strings provide it.
  Shown here: the search for a string, which resumes where a match may still complete, finds the
  first occurrence however the input is cut; the reads return the end of the first delimiter.
\<close>

section \<open>Searching\<close>

text \<open>
  The inner loop of \<open>partial_search\<close>, from one position of the data on; the flag says whether
  \<open>test_iter2 != first2\<close>.
\<close>

datatype match = Full | Partial | No_match

fun test_match :: "byte list \<Rightarrow> byte list \<Rightarrow> bool \<Rightarrow> match" where
  "test_match xs [] moved = Full"
| "test_match [] (y # ys) moved = (if moved then Partial else No_match)"
| "test_match (x # xs) (y # ys) moved = (if x \<noteq> y then No_match else test_match xs ys True)"

text \<open>The outer loop: the position and whether the match is full.\<close>

fun partial_search :: "nat \<Rightarrow> byte list \<Rightarrow> byte list \<Rightarrow> nat \<times> bool" where
  "partial_search pos [] pat = (pos, False)"
| "partial_search pos (x # xs) pat =
     (case test_match (x # xs) pat False of
        Full \<Rightarrow> (pos, True)
      | Partial \<Rightarrow> (pos, False)
      | No_match \<Rightarrow> partial_search (Suc pos) xs pat)"

text \<open>
  The searches of a read: the end of the match, or the position where the next search starts.
\<close>

definition find_char :: "byte \<Rightarrow> byte list \<Rightarrow> nat \<Rightarrow> nat + nat" where
  "find_char delim data search_position =
     (let iter = search_position + length (takeWhile (\<lambda>x. x \<noteq> delim) (drop search_position data))
      in if iter \<noteq> length data then Inl (iter + 1) else Inr (length data))"

definition find_string :: "byte list \<Rightarrow> byte list \<Rightarrow> nat \<Rightarrow> nat + nat" where
  "find_string delim data search_position =
     (let (iter, full) = partial_search search_position (drop search_position data) delim
      in if iter \<noteq> length data then (if full then Inl (iter + length delim) else Inr iter)
         else Inr (length data))"

text \<open>
  A match condition of the caller, a function of the data from the search position on: the
  position where it stops, relative to there, and whether it has found a match.
\<close>

type_synonym match_condition = "byte list \<Rightarrow> nat \<times> bool"

definition find_match :: "match_condition \<Rightarrow> byte list \<Rightarrow> nat \<Rightarrow> nat + nat" where
  "find_match mc data search_position =
     (let (stop, full) = mc (drop search_position data);
          iter = search_position + stop
      in if full then Inl iter
         else if iter \<noteq> length data then Inr iter
         else Inr (length data))"

section \<open>Synchronous operations\<close>

definition data_bytes :: "'b dynamic_ops \<Rightarrow> 'b \<Rightarrow> byte list" where
  "data_bytes ops b = map ((!) (d_storage ops b)) (addresses (d_data ops b))"

text \<open>The loop, over the search; the functions for a character, a string and a match condition differ in nothing else.\<close>

fun until_loop ::
  "'b dynamic_ops \<Rightarrow> (byte list \<Rightarrow> nat \<Rightarrow> nat + nat) \<Rightarrow> round list \<Rightarrow> nat \<Rightarrow> 'b \<Rightarrow> byte list
     \<Rightarrow> ('b \<times> error_code \<times> nat \<times> byte list) outcome" where
  "until_loop ops search [] search_position b inp =
     (case search (data_bytes ops b) search_position of
        Inl e \<Rightarrow> Done (b, Success, e, inp)
      | Inr pos \<Rightarrow>
          if d_size ops b = d_max_size ops b then Done (b, Not_found, 0, inp)
          else if d_prepare ops (bytes_available ops 0 65536 b) b = None then Length_error
          else Blocked)"
| "until_loop ops search ((cap, a) # rounds) search_position b inp =
     (case search (data_bytes ops b) search_position of
        Inl e \<Rightarrow> Done (b, Success, e, inp)
      | Inr pos \<Rightarrow>
          if d_size ops b = d_max_size ops b then Done (b, Not_found, 0, inp)
          else
            (case d_prepare ops (bytes_available ops cap 65536 b) b of
               None \<Rightarrow> Length_error
             | Some (b1, r) \<Rightarrow>
                 let (b2, inp', n, ec) = read_into ops r a inp b1;
                     b3 = d_commit ops n b2
                 in if failed ec then Done (b3, ec, 0, inp')
                    else until_loop ops search rounds pos b3 inp'))"

definition read_until_char ::
  "'b dynamic_ops \<Rightarrow> byte \<Rightarrow> round list \<Rightarrow> 'b \<Rightarrow> byte list \<Rightarrow> ('b \<times> error_code \<times> nat \<times> byte list) outcome" where
  "read_until_char ops delim rounds b inp = until_loop ops (find_char delim) rounds 0 b inp"

definition read_until_string ::
  "'b dynamic_ops \<Rightarrow> byte list \<Rightarrow> round list \<Rightarrow> 'b \<Rightarrow> byte list \<Rightarrow> ('b \<times> error_code \<times> nat \<times> byte list) outcome" where
  "read_until_string ops delim rounds b inp = until_loop ops (find_string delim) rounds 0 b inp"

definition read_until_match ::
  "'b dynamic_ops \<Rightarrow> match_condition \<Rightarrow> round list \<Rightarrow> 'b \<Rightarrow> byte list \<Rightarrow> ('b \<times> error_code \<times> nat \<times> byte list) outcome" where
  "read_until_match ops mc rounds b inp = until_loop ops (find_match mc) rounds 0 b inp"

section \<open>Asynchronous operations\<close>

text \<open>
  One call of the operation object. The largest \<open>size_t\<close> as the search position is
  \<open>not_found\<close>. First the part of the loop that searches: the new search position and
  \<open>bytes_to_read\<close>.
\<close>

definition until_phase ::
  "'b dynamic_ops \<Rightarrow> (byte list \<Rightarrow> nat \<Rightarrow> nat + nat) \<Rightarrow> nat \<Rightarrow> 'b \<Rightarrow> nat \<Rightarrow> nat \<times> nat" where
  "until_phase ops search cap b search_position =
     (case search (data_bytes ops b) search_position of
        Inl e \<Rightarrow> (e, 0)
      | Inr pos \<Rightarrow> if d_size ops b = d_max_size ops b then (size_max, 0)
                  else (pos, bytes_available ops cap 65536 b))"

definition until_complete :: "error_code \<Rightarrow> nat \<Rightarrow> dynamic_action" where
  "until_complete ec search_position =
     Complete (if search_position = size_max then Not_found else ec)
       (if failed ec \<or> search_position = size_max then 0 else search_position)"

definition until_step ::
  "'b dynamic_ops \<Rightarrow> (byte list \<Rightarrow> nat \<Rightarrow> nat + nat) \<Rightarrow> nat \<Rightarrow> bool \<Rightarrow> 'b \<Rightarrow> nat \<Rightarrow> error_code \<Rightarrow> nat
     \<Rightarrow> ('b \<times> nat \<times> dynamic_action) option" where
  "until_step ops search cap start b search_position ec bytes_transferred =
     (if start then
        (let (pos, bytes_to_read) = until_phase ops search cap b search_position
         in map_option (\<lambda>(b1, r). (b1, pos, Read_region r)) (d_prepare ops bytes_to_read b))
      else
        (let b1 = d_commit ops bytes_transferred b
         in if failed ec \<or> bytes_transferred = 0
            then Some (b1, search_position, until_complete ec search_position)
            else
              (let (pos, bytes_to_read) = until_phase ops search cap b1 search_position
               in if bytes_to_read = 0 then Some (b1, pos, until_complete ec pos)
                  else map_option (\<lambda>(b2, r). (b2, pos, Read_region r)) (d_prepare ops bytes_to_read b1))))"

definition read_until_delim_step ::
  "'b dynamic_ops \<Rightarrow> byte \<Rightarrow> nat \<Rightarrow> bool \<Rightarrow> 'b \<Rightarrow> nat \<Rightarrow> error_code \<Rightarrow> nat \<Rightarrow> ('b \<times> nat \<times> dynamic_action) option" where
  "read_until_delim_step ops delim = until_step ops (find_char delim)"

definition read_until_delim_string_step ::
  "'b dynamic_ops \<Rightarrow> byte list \<Rightarrow> nat \<Rightarrow> bool \<Rightarrow> 'b \<Rightarrow> nat \<Rightarrow> error_code \<Rightarrow> nat \<Rightarrow> ('b \<times> nat \<times> dynamic_action) option" where
  "read_until_delim_string_step ops delim = until_step ops (find_string delim)"

definition read_until_match_step ::
  "'b dynamic_ops \<Rightarrow> match_condition \<Rightarrow> nat \<Rightarrow> bool \<Rightarrow> 'b \<Rightarrow> nat \<Rightarrow> error_code \<Rightarrow> nat
     \<Rightarrow> ('b \<times> nat \<times> dynamic_action) option" where
  "read_until_match_step ops mc = until_step ops (find_match mc)"

text \<open>The operation until its handler is called.\<close>

fun async_until_run ::
  "'b dynamic_ops \<Rightarrow> (nat \<Rightarrow> bool \<Rightarrow> 'b \<Rightarrow> nat \<Rightarrow> error_code \<Rightarrow> nat \<Rightarrow> ('b \<times> nat \<times> dynamic_action) option)
     \<Rightarrow> round list \<Rightarrow> bool \<Rightarrow> 'b \<Rightarrow> nat \<Rightarrow> error_code \<Rightarrow> nat \<Rightarrow> byte list
     \<Rightarrow> ('b \<times> error_code \<times> nat \<times> byte list) outcome" where
  "async_until_run ops step [] start b pos ec n inp =
     (case step 0 start b pos ec n of
        None \<Rightarrow> Length_error
      | Some (b1, pos1, Complete ec1 n1) \<Rightarrow> Done (b1, ec1, n1, inp)
      | Some (b1, pos1, Read_region r) \<Rightarrow> Blocked)"
| "async_until_run ops step ((cap, a) # rounds) start b pos ec n inp =
     (case step cap start b pos ec n of
        None \<Rightarrow> Length_error
      | Some (b1, pos1, Complete ec1 n1) \<Rightarrow> Done (b1, ec1, n1, inp)
      | Some (b1, pos1, Read_region r) \<Rightarrow>
          let (b2, inp', n2, ec2) = read_into ops r a inp b1
          in async_until_run ops step rounds False b2 pos1 ec2 n2 inp')"

definition async_read_until_char ::
  "'b dynamic_ops \<Rightarrow> byte \<Rightarrow> round list \<Rightarrow> 'b \<Rightarrow> byte list \<Rightarrow> ('b \<times> error_code \<times> nat \<times> byte list) outcome" where
  "async_read_until_char ops delim rounds b inp =
     async_until_run ops (read_until_delim_step ops delim) rounds True b 0 Success 0 inp"

definition async_read_until_string ::
  "'b dynamic_ops \<Rightarrow> byte list \<Rightarrow> round list \<Rightarrow> 'b \<Rightarrow> byte list \<Rightarrow> ('b \<times> error_code \<times> nat \<times> byte list) outcome" where
  "async_read_until_string ops delim rounds b inp =
     async_until_run ops (read_until_delim_string_step ops delim) rounds True b 0 Success 0 inp"

definition async_read_until_match ::
  "'b dynamic_ops \<Rightarrow> match_condition \<Rightarrow> round list \<Rightarrow> 'b \<Rightarrow> byte list \<Rightarrow> ('b \<times> error_code \<times> nat \<times> byte list) outcome" where
  "async_read_until_match ops mc rounds b inp =
     async_until_run ops (read_until_match_step ops mc) rounds True b 0 Success 0 inp"

lemmas async_until_defs = async_read_until_char_def async_read_until_string_def async_read_until_match_def
  read_until_delim_step_def read_until_delim_string_step_def read_until_match_step_def

section \<open>What the operations need of a delimiter\<close>

text \<open>
  \<open>first xs\<close>: where the first delimiter in the data ends. \<open>fresh p xs\<close>: no delimiter can
  begin before \<open>p\<close>, whatever data follows.
\<close>

locale delimiter =
  fixes search :: "byte list \<Rightarrow> nat \<Rightarrow> nat + nat"
    and first :: "byte list \<Rightarrow> nat option"
    and fresh :: "nat \<Rightarrow> byte list \<Rightarrow> bool"
  assumes fresh_start: "fresh 0 xs"
    and found: "fresh p xs \<Longrightarrow> search xs p = Inl e \<Longrightarrow> first xs = Some e \<and> e \<le> length xs"
    and missed: "fresh p xs \<Longrightarrow> search xs p = Inr p' \<Longrightarrow> first xs = None \<and> p' \<le> length xs"
    and missed_fresh: "fresh p xs \<Longrightarrow> search xs p = Inr p' \<Longrightarrow> fresh p' (xs @ ys)"

text \<open>
  What a read that returns has done to the bytes \<open>xs\<close> of a buffer with maximum size \<open>m\<close>: it has
  appended a part of the input, and then there is a delimiter, whose end it returns, or the
  buffer is full without one, or the stream reported an error.
\<close>

definition until_post ::
  "(byte list \<Rightarrow> nat option) \<Rightarrow> nat \<Rightarrow> round list \<Rightarrow> byte list \<Rightarrow> byte list
     \<Rightarrow> byte list \<Rightarrow> error_code \<Rightarrow> nat \<Rightarrow> byte list \<Rightarrow> bool" where
  "until_post first m rounds xs inp xs' ec n inp' \<longleftrightarrow>
     (\<exists>k \<le> length inp. xs' = xs @ take k inp \<and> inp' = drop k inp)
     \<and> (ec = Success \<and> first xs' = Some n
       \<or> ec = Not_found \<and> n = 0 \<and> first xs' = None \<and> length xs' = m
       \<or> failed ec \<and> n = 0 \<and> ec \<in> snd ` snd ` set rounds)"

lemma until_post_later:
  assumes "until_post first m rounds (xs @ take k inp) (drop k inp) xs' ec n inp'" and "k \<le> length inp"
  shows "until_post first m (round # rounds) xs inp xs' ec n inp'"
proof -
  obtain k' where k': "k' \<le> length inp - k" "xs' = (xs @ take k inp) @ take k' (drop k inp)"
      "inp' = drop k' (drop k inp)"
    using assms(1) by (auto simp: until_post_def)
  have "k + k' \<le> length inp" "xs' = xs @ take (k + k') inp" "inp' = drop (k + k') inp"
    using k'(1) assms(2) k'(2) [unfolded take_then_take] k'(3) [unfolded drop_then_drop] by simp_all
  with assms(1) show ?thesis by (auto simp: until_post_def)
qed

locale until_reader = dynamic_reader inv contents limit ops + delimiter search first fresh
  for inv :: "'b \<Rightarrow> bool" and contents :: "'b \<Rightarrow> byte list" and limit :: "'b \<Rightarrow> nat"
    and ops :: "'b dynamic_ops" and search first fresh +
  assumes limit_max: "inv b \<Longrightarrow> limit b \<le> d_max_size ops b \<and> limit b < size_max"
begin

lemma bytes: "inv b \<Longrightarrow> data_bytes ops b = contents b"
  by (simp add: data_bytes_def data)

lemma until_available: "inv b \<Longrightarrow> length (contents b) < d_max_size ops b \<Longrightarrow> 0 < bytes_available ops cap 65536 b"
  by (simp add: available_room room_def)

lemma contents_max: "inv b \<Longrightarrow> length (contents b) \<le> d_max_size ops b \<and> length (contents b) < size_max"
  using contents_limit [of b] limit_max [of b] by linarith

definition returned :: "'b \<Rightarrow> round list \<Rightarrow> byte list \<Rightarrow> 'b \<Rightarrow> error_code \<Rightarrow> nat \<Rightarrow> byte list \<Rightarrow> bool" where
  "returned b rounds inp b' ec n inp' \<longleftrightarrow> inv b'
     \<and> until_post first (d_max_size ops b) rounds (contents b) inp (contents b') ec n inp'"

lemma returned_here:
  assumes "inv b" and "fresh p (contents b)"
  shows "search (contents b) p = Inl e \<Longrightarrow> returned b rounds inp b Success e inp"
    and "search (contents b) p = Inr p' \<Longrightarrow> length (contents b) = d_max_size ops b \<Longrightarrow>
      returned b rounds inp b Not_found 0 inp"
  using assms found [OF assms(2)] missed [OF assms(2)]
  by (auto simp: returned_def until_post_def intro!: exI [of _ 0])

lemma until_result:
  assumes "inv b" and "fresh p (contents b)"
  shows "(until_loop ops search rounds p b inp = Done (b', ec, n, inp') \<longrightarrow> returned b rounds inp b' ec n inp')
    \<and> (until_loop ops search rounds p b inp = Length_error \<longrightarrow> limit b < d_max_size ops b)
    \<and> (until_loop ops search rounds p b inp = Blocked \<longrightarrow> \<not> (\<exists>r \<in> set rounds. failed (snd (snd r))))"
  using assms
proof (induction rounds arbitrary: p b inp)
  case Nil
  show ?case
  proof (cases "search (contents b) p")
    case (Inl e)
    with returned_here(1) [OF Nil Inl, of "[]" inp] show ?thesis by (auto simp: bytes [OF Nil(1)])
  next
    case (Inr p')
    show ?thesis
    proof (cases "length (contents b) = d_max_size ops b")
      case True
      with Inr returned_here(2) [OF Nil Inr, of "[]" inp] show ?thesis by (auto simp: bytes [OF Nil(1)] size [OF Nil(1)])
    next
      case False
      with Inr prepare_iff [OF Nil(1), of "bytes_available ops 0 65536 b"] room_le [of "contents b" "d_max_size ops b" 0 65536]
        contents_max [OF Nil(1)] show ?thesis
        by (auto simp: bytes [OF Nil(1)] size [OF Nil(1)] available_room [OF Nil(1)])
    qed
  qed
next
  case (Cons round rounds)
  obtain cap a where round: "round = (cap, a)" by (cases round)
  note inv = Cons.prems(1)
  note [simp] = bytes [OF inv] size [OF inv]
  show ?case
  proof (cases "search (contents b) p")
    case (Inl e)
    with returned_here(1) [OF Cons.prems Inl, of "round # rounds" inp] show ?thesis by (auto simp: round)
  next
    case (Inr p')
    define r where "r = bytes_available ops cap 65536 b"
    show ?thesis
    proof (cases "length (contents b) = d_max_size ops b")
      case True
      with Inr returned_here(2) [OF Cons.prems Inr, of "round # rounds" inp] show ?thesis by (auto simp: round)
    next
      case False
      from inv show ?thesis
      proof (cases rule: prepare_cases [where n = r])
        case throws
        have "length (contents b) + r \<le> d_max_size ops b"
          unfolding r_def available_room [OF inv] using contents_max [OF inv] by (simp add: room_le)
        with throws Inr False show ?thesis by (simp add: round r_def [symmetric])
      next
        case (fits b1 reg)
        obtain b2 inp1 k ec1 where i: "read_into ops reg a inp b1 = (b2, inp1, k, ec1)" by (metis surj_pair)
        note facts = read_into_round [OF inv fits(1) i]
        let ?b = "d_commit ops k b2"
        have loop: "until_loop ops search (round # rounds) p b inp =
            (if failed ec1 then Done (?b, ec1, 0, inp1) else until_loop ops search rounds p' ?b inp1)"
          using Inr False fits(1) i by (simp add: round r_def [symmetric])
        have k: "k \<le> length inp" using facts(1) by simp
        show ?thesis
        proof (cases "failed ec1")
          case True
          with facts k have "returned b (round # rounds) inp ?b ec1 0 inp1"
            by (auto simp: returned_def until_post_def round)
          with loop True show ?thesis by auto
        next
          case ok: False
          have "fresh p' (contents ?b)" unfolding facts(5) by (rule missed_fresh [OF Cons.prems(2) Inr])
          note IH = Cons.IH [OF facts(4) this, of inp1]
          have "returned b (round # rounds) inp b' ec n inp'" if "returned ?b rounds inp1 b' ec n inp'"
            using that until_post_later [OF _ k] by (simp add: returned_def facts(2,5,7))
          moreover have "\<not> failed (snd a)" using ok facts(3) by simp
          ultimately show ?thesis
            using IH facts(6,7) ok unfolding loop by (simp add: round)
        qed
      qed
    qed
  qed
qed

text \<open>The asynchronous operation after a transfer goes on as the loop does.\<close>

lemma complete_position:
  "inv b \<Longrightarrow> p \<le> length (contents b) \<Longrightarrow> until_complete ec p = Complete ec (if failed ec then 0 else p)"
  using contents_max [of b] by (auto simp: until_complete_def)

lemma step_continues:
  assumes b': "d_commit ops k b = b'" and inv: "inv b'" and "fresh p (contents b')" and "0 < k"
  shows "until_step ops search cap False b p Success k =
    (case search (contents b') p of
       Inl e \<Rightarrow> Some (b', e, Complete Success e)
     | Inr p' \<Rightarrow>
         if length (contents b') = d_max_size ops b' then Some (b', size_max, Complete Not_found 0)
         else map_option (\<lambda>(b2, r). (b2, p', Read_region r)) (d_prepare ops (bytes_available ops cap 65536 b') b'))"
proof (cases "search (contents b') p")
  case (Inl e)
  with found [OF assms(3) Inl] complete_position [OF inv, of e Success] assms(4) show ?thesis
    by (simp add: until_step_def b' until_phase_def bytes [OF inv])
next
  case (Inr p')
  have "length (contents b') \<noteq> d_max_size ops b' \<Longrightarrow> 0 < bytes_available ops cap 65536 b'"
    using contents_max [OF inv] by (intro until_available [OF inv]) simp
  with Inr assms(4) show ?thesis
    by (auto simp: until_step_def b' until_phase_def bytes [OF inv] size [OF inv] until_complete_def)
qed

lemma step_fails:
  assumes "d_commit ops k b = b'" and "inv b'" and "p \<le> length (contents b')" and "failed ec"
  shows "until_step ops search cap False b p ec k = Some (b', p, Complete ec 0)"
  using assms complete_position [OF assms(2,3), of ec] by (simp add: until_step_def)

lemma async_until_after:
  assumes "d_commit ops k b = b'" and "inv b'" and "fresh p (contents b')" and "p \<le> length (contents b')"
    and "failed ec \<or> 0 < k" and "moving (map snd rounds)"
    and "d_max_size ops b' \<le> length (contents b') + length inp"
  shows "async_until_run ops (until_step ops search) rounds False b p ec k inp =
    (if failed ec then Done (b', ec, 0, inp) else until_loop ops search rounds p b' inp)"
  using assms
proof (induction rounds arbitrary: b b' p ec k inp)
  case Nil
  then show ?case
    by (cases "failed ec")
      (auto simp: step_fails [OF Nil(1,2,4)] step_continues [OF Nil(1-3)] bytes [OF Nil(2)] size [OF Nil(2)]
        not_failed_iff split: sum.splits option.splits)
next
  case (Cons round rounds)
  obtain cap a where round: "round = (cap, a)" by (cases round)
  note inv = Cons.prems(2) and b' = Cons.prems(1)
  note [simp] = bytes [OF inv] size [OF inv]
  show ?case
  proof (cases "failed ec")
    case True
    then show ?thesis by (simp add: round step_fails [OF b' inv Cons.prems(4)])
  next
    case False
    then have ec: "ec = Success" and k: "0 < k" using Cons.prems(5) by (auto simp: not_failed_iff)
    note step = step_continues [OF b' inv Cons.prems(3) k, of cap]
    show ?thesis
    proof (cases "search (contents b') p")
      case (Inl e)
      then show ?thesis by (simp add: round ec step)
    next
      case (Inr p')
      show ?thesis
      proof (cases "length (contents b') = d_max_size ops b'")
        case True
        with Inr show ?thesis by (simp add: round ec step)
      next
        case more: False
        define r where "r = bytes_available ops cap 65536 b'"
        have less: "length (contents b') < d_max_size ops b'" using more contents_max [OF inv] by simp
        then have r: "0 < r" unfolding r_def by (rule until_available [OF inv])
        show ?thesis
        proof (cases "d_prepare ops r b'")
          case None
          with Inr more show ?thesis by (simp add: round ec step r_def [symmetric])
        next
          case (Some br)
          then obtain b1 reg where p: "d_prepare ops r b' = Some (b1, reg)" by (cases br) auto
          obtain b2 inp1 k1 ec1 where i: "read_into ops reg a inp b1 = (b2, inp1, k1, ec1)" by (metis surj_pair)
          note facts = read_into_round [OF inv p i]
          have "0 < length inp" using less Cons.prems(7) by linarith
          then have "failed ec1 \<or> 0 < k1"
            using facts(1,3) r Cons.prems(6) by (cases a) (auto simp: round moving_def)
          moreover have "fresh p' (contents (d_commit ops k1 b2))"
            unfolding facts(5) by (rule missed_fresh [OF Cons.prems(3) Inr])
          moreover have "p' \<le> length (contents (d_commit ops k1 b2))"
            using missed [OF Cons.prems(3) Inr] facts(5) by simp
          moreover have "moving (map snd rounds)" using Cons.prems(6) by (auto simp: moving_def)
          moreover have "d_max_size ops (d_commit ops k1 b2) \<le> length (contents (d_commit ops k1 b2)) + length inp1"
            using facts Cons.prems(7) by auto
          ultimately have "async_until_run ops (until_step ops search) rounds False b2 p' ec1 k1 inp1 =
              (if failed ec1 then Done (d_commit ops k1 b2, ec1, 0, inp1)
               else until_loop ops search rounds p' (d_commit ops k1 b2) inp1)"
            using Cons.IH [OF refl facts(4)] by blast
          with Inr more p i show ?thesis by (simp add: round ec step r_def [symmetric])
        qed
      qed
    qed
  qed
qed

lemma async_until_matches:
  assumes inv: "inv b" and "first (contents b) = None" and "length (contents b) < d_max_size ops b"
    and moving: "moving (map snd rounds)" and "d_max_size ops b \<le> length (contents b) + length inp"
  shows "async_until_run ops (until_step ops search) rounds True b 0 Success 0 inp = until_loop ops search rounds 0 b inp"
proof -
  note [simp] = bytes [OF inv] size [OF inv]
  obtain p' where s: "search (contents b) 0 = Inr p'"
    using found [OF fresh_start] assms(2) by (cases "search (contents b) 0") auto
  show ?thesis
  proof (cases rounds)
    case Nil
    with assms(3) s show ?thesis
      by (auto simp: until_step_def until_phase_def split: option.splits)
  next
    case (Cons round rest)
    obtain cap a where round: "round = (cap, a)" by (cases round)
    define r where "r = bytes_available ops cap 65536 b"
    have r: "0 < r" unfolding r_def by (rule until_available [OF inv assms(3)])
    show ?thesis
    proof (cases "d_prepare ops r b")
      case None
      with s assms(3) Cons show ?thesis
        by (simp add: round until_step_def until_phase_def r_def [symmetric])
    next
      case (Some br)
      then obtain b1 reg where p: "d_prepare ops r b = Some (b1, reg)" by (cases br) auto
      obtain b2 inp1 k1 ec1 where i: "read_into ops reg a inp b1 = (b2, inp1, k1, ec1)" by (metis surj_pair)
      note facts = read_into_round [OF inv p i]
      have "0 < length inp" using assms(3,5) by linarith
      then have "failed ec1 \<or> 0 < k1"
        using facts(1,3) r moving by (cases a) (auto simp: round Cons moving_def)
      moreover have "fresh p' (contents (d_commit ops k1 b2))"
        unfolding facts(5) by (rule missed_fresh [OF fresh_start s])
      moreover have "p' \<le> length (contents (d_commit ops k1 b2))"
        using missed [OF fresh_start s] facts(5) by simp
      moreover have "moving (map snd rest)" using moving by (auto simp: Cons moving_def)
      moreover have "d_max_size ops (d_commit ops k1 b2) \<le> length (contents (d_commit ops k1 b2)) + length inp1"
        using facts assms(5) by auto
      ultimately have "async_until_run ops (until_step ops search) rest False b2 p' ec1 k1 inp1 =
          (if failed ec1 then Done (d_commit ops k1 b2, ec1, 0, inp1)
           else until_loop ops search rest p' (d_commit ops k1 b2) inp1)"
        using async_until_after [OF refl facts(4)] by blast
      with s assms(3) p i show ?thesis
        by (simp add: Cons round until_step_def until_phase_def r_def [symmetric])
    qed
  qed
qed

end

section \<open>Characters and strings provide it\<close>

definition first_char :: "byte \<Rightarrow> byte list \<Rightarrow> nat option" where
  "first_char d xs = (if d \<in> set xs then Some (Suc (length (takeWhile (\<lambda>x. x \<noteq> d) xs))) else None)"

definition fresh_char :: "byte \<Rightarrow> nat \<Rightarrow> byte list \<Rightarrow> bool" where
  "fresh_char d p xs \<longleftrightarrow> p \<le> length xs \<and> d \<notin> set (take p xs)"

interpretation char_delimiter: delimiter "find_char d" "first_char d" "fresh_char d" for d
proof
  fix xs ys p e p'
  show "fresh_char d 0 xs" by (simp add: fresh_char_def)
  assume fresh: "fresh_char d p xs"
  define w where "w = takeWhile (\<lambda>x. x \<noteq> d) (drop p xs)"
  have split: "xs = take p xs @ drop p xs" by simp
  have all: "takeWhile (\<lambda>x. x \<noteq> d) xs = take p xs @ w"
    using fresh by (subst split, subst takeWhile_append2) (auto simp: fresh_char_def w_def)
  then have len: "length (takeWhile (\<lambda>x. x \<noteq> d) xs) = p + length w"
    using fresh by (simp add: fresh_char_def)
  have le: "length (takeWhile (\<lambda>x. x \<noteq> d) xs) \<le> length xs" by (rule length_takeWhile_le)
  have iff: "d \<in> set xs \<longleftrightarrow> p + length w \<noteq> length xs"
  proof -
    have "d \<notin> set xs \<longleftrightarrow> takeWhile (\<lambda>x. x \<noteq> d) xs = xs" by (auto simp: takeWhile_eq_all_conv)
    also have "\<dots> \<longleftrightarrow> length (takeWhile (\<lambda>x. x \<noteq> d) xs) = length xs"
      by (metis order_refl take_all takeWhile_eq_take)
    finally show ?thesis unfolding len by blast
  qed
  show "first_char d xs = Some e \<and> e \<le> length xs" if "find_char d xs p = Inl e"
    using that iff le by (auto simp: find_char_def first_char_def Let_def w_def [symmetric] len split: if_splits)
  assume miss: "find_char d xs p = Inr p'"
  then have p': "p' = length xs" and none: "d \<notin> set xs"
    using iff by (auto simp: find_char_def Let_def w_def [symmetric] split: if_splits)
  then show "first_char d xs = None \<and> p' \<le> length xs" by (simp add: first_char_def)
  show "fresh_char d p' (xs @ ys)" using p' none by (simp add: fresh_char_def)
qed

text \<open>Positions where neither the string nor a beginning of it stands.\<close>

definition occurs_at :: "byte list \<Rightarrow> byte list \<Rightarrow> nat \<Rightarrow> bool" where
  "occurs_at pat xs i \<longleftrightarrow> i < length xs \<and> prefix pat (drop i xs)"

definition first_string :: "byte list \<Rightarrow> byte list \<Rightarrow> nat option" where
  "first_string pat xs = map_option (\<lambda>i. i + length pat) (List.find (occurs_at pat xs) [0..<length xs])"

definition fresh_string :: "byte list \<Rightarrow> nat \<Rightarrow> byte list \<Rightarrow> bool" where
  "fresh_string pat p xs \<longleftrightarrow> p \<le> length xs \<and> (\<forall>i<p. parallel pat (drop i xs))"

lemma test_match_result:
  "test_match xs pat moved =
    (if prefix pat xs then Full
     else if prefix xs pat \<and> (moved \<or> xs \<noteq> []) then Partial else No_match)"
  by (induction xs pat moved rule: test_match.induct) auto

lemma partial_search_result:
  "partial_search pos xs pat = (i, full) \<Longrightarrow>
   \<exists>k \<le> length xs. i = pos + k \<and> (\<forall>j<k. parallel pat (drop j xs))
     \<and> (if full then k < length xs \<and> prefix pat (drop k xs)
        else k < length xs \<longrightarrow> prefix (drop k xs) pat \<and> \<not> prefix pat (drop k xs))"
proof (induction pos xs pat rule: partial_search.induct)
  case (1 pos pat)
  then show ?case by simp
next
  case (2 pos x xs pat)
  show ?case
  proof (cases "test_match (x # xs) pat False")
    case No_match
    with 2 obtain k where k: "k \<le> length xs" "i = Suc pos + k" "\<forall>j<k. parallel pat (drop j xs)"
        "if full then k < length xs \<and> prefix pat (drop k xs)
         else k < length xs \<longrightarrow> prefix (drop k xs) pat \<and> \<not> prefix pat (drop k xs)"
      by auto
    have "parallel pat (x # xs)"
      using No_match by (auto simp: test_match_result split: if_splits)
    then have "\<forall>j<Suc k. parallel pat (drop j (x # xs))"
      using k(3) by (auto simp: less_Suc_eq_0_disj)
    with k show ?thesis by (intro exI [of _ "Suc k"]) auto
  qed (use 2(2) in \<open>auto simp: test_match_result split: if_splits intro!: exI [of _ 0]\<close>)
qed

lemma find_first:
  assumes "k < n" and "P k" and "\<forall>j<k. \<not> P j"
  shows "List.find P [0..<n] = Some k"
  using assms by (auto simp: find_Some_iff intro!: exI [of _ k])

interpretation string_delimiter: delimiter "find_string pat" "first_string pat" "fresh_string pat" for pat
proof
  fix xs ys p e p'
  show "fresh_string pat 0 xs" by (simp add: fresh_string_def)
  assume fresh: "fresh_string pat p xs"
  obtain i full where s: "partial_search p (drop p xs) pat = (i, full)" by (cases "partial_search p (drop p xs) pat")
  from partial_search_result [OF s, unfolded length_drop drop_drop] obtain k where k: "k \<le> length xs - p" "i = p + k"
      "\<forall>j<k. parallel pat (drop (j + p) xs)"
      "if full then k < length xs - p \<and> prefix pat (drop (k + p) xs)
       else k < length xs - p \<longrightarrow> prefix (drop (k + p) xs) pat \<and> \<not> prefix pat (drop (k + p) xs)"
    by blast
  have i: "i \<le> length xs" using k(1,2) fresh by (auto simp: fresh_string_def)
  have before: "parallel pat (drop j xs)" if "j < i" for j
  proof (cases "j < p")
    case True
    with fresh show ?thesis by (simp add: fresh_string_def)
  next
    case False
    with k(2,3) that show ?thesis by (metis add.commute add_less_cancel_left le_add_diff_inverse not_less)
  qed
  have not_before: "\<forall>j<i. \<not> occurs_at pat xs j" using before by (auto simp: occurs_at_def)
  show "first_string pat xs = Some e \<and> e \<le> length xs" if "find_string pat xs p = Inl e"
  proof -
    have "i < length xs" "full" and e: "e = i + length pat"
      using that i by (auto simp: find_string_def s split: if_splits)
    then have "occurs_at pat xs i" using k(2,4) by (simp add: occurs_at_def add.commute)
    then have "List.find (occurs_at pat xs) [0..<length xs] = Some i"
      using find_first \<open>i < length xs\<close> not_before by blast
    moreover have "length pat \<le> length (drop i xs)"
      using \<open>occurs_at pat xs i\<close> unfolding occurs_at_def by (blast dest: prefix_length_le)
    ultimately show ?thesis using e i by (simp add: first_string_def)
  qed
  assume miss: "find_string pat xs p = Inr p'"
  then have p': "p' = i" and "i < length xs \<longrightarrow> \<not> full"
    using i by (auto simp: find_string_def s split: if_splits)
  have "\<not> occurs_at pat xs j" if j: "j < length xs" for j
  proof
    assume o: "occurs_at pat xs j"
    then have "i \<le> j" using not_before by (meson not_less)
    with j have "i < length xs" by simp
    with \<open>i < length xs \<longrightarrow> \<not> full\<close> k(2,4) have part: "prefix (drop i xs) pat" "\<not> prefix pat (drop i xs)"
      by (auto simp: add.commute)
    then have "length (drop i xs) < length pat"
      by (metis le_neq_implies_less prefix_length_le prefix_order.eq_iff prefix_length_prefix)
    moreover have "length pat \<le> length (drop j xs)"
      using o unfolding occurs_at_def by (blast dest: prefix_length_le)
    ultimately show False using \<open>i \<le> j\<close> by simp
  qed
  then show "first_string pat xs = None \<and> p' \<le> length xs"
    using i by (auto simp: first_string_def find_None_iff p')
  show "fresh_string pat p' (xs @ ys)"
    using before i by (auto simp: fresh_string_def p' parallel_append [of pat _ "[]", simplified])
qed

lemma dyn_limit_max: "dyn_limit d \<le> dyn_max d \<and> dyn_limit d < size_max"
  using maxima by (auto simp: dyn_limit_def)

interpretation string_until_char: until_reader dyn_inv dyn_contents dyn_limit string_ops
  "find_char c" "first_char c" "fresh_char c" for c
  by unfold_locales (use dyn_limit_max in \<open>simp add: string_ops_def string_max_size_def\<close>)

interpretation string_until_string: until_reader dyn_inv dyn_contents dyn_limit string_ops
  "find_string pat" "first_string pat" "fresh_string pat" for pat
  by unfold_locales (use dyn_limit_max in \<open>simp add: string_ops_def string_max_size_def\<close>)

lemma streambuf_limit_max: "streambuf_inv b \<Longrightarrow> sb_max_size b < size_max"
  by (simp add: streambuf_inv_def size_max_def)

interpretation streambuf_until_char: until_reader streambuf_inv streambuf_contents sb_max_size streambuf_ops
  "find_char c" "first_char c" "fresh_char c" for c
  by unfold_locales (simp add: streambuf_ops_def streambuf_max_size_def streambuf_limit_max)

interpretation streambuf_until_string: until_reader streambuf_inv streambuf_contents sb_max_size streambuf_ops
  "find_string pat" "first_string pat" "fresh_string pat" for pat
  by unfold_locales (simp add: streambuf_ops_def streambuf_max_size_def streambuf_limit_max)

section \<open>Properties\<close>

text \<open>
  \<open>partial_search\<close> does what its comment says: with \<open>true\<close> it gives the first place
  where the whole string stands; with \<open>false\<close> the string stands nowhere, and it gives the first
  place from which the data could still be completed to it (the end if there is none).
\<close>

theorem partial_search_correct:
  "case partial_search 0 xs pat of
     (i, True) \<Rightarrow> occurs_at pat xs i \<and> (\<forall>j<i. \<not> occurs_at pat xs j)
   | (i, False) \<Rightarrow> (\<forall>j. \<not> occurs_at pat xs j)
       \<and> i \<le> length xs \<and> prefix (drop i xs) pat \<and> (\<forall>j<i. \<not> prefix (drop j xs) pat)"
proof -
  obtain i full where s: "partial_search 0 xs pat = (i, full)" by (cases "partial_search 0 xs pat")
  from partial_search_result [OF s] have i: "i \<le> length xs" and before: "\<forall>j<i. parallel pat (drop j xs)"
      and at: "if full then i < length xs \<and> prefix pat (drop i xs)
        else i < length xs \<longrightarrow> prefix (drop i xs) pat \<and> \<not> prefix pat (drop i xs)"
    by auto
  show ?thesis
  proof (cases full)
    case True
    with s at before show ?thesis by (auto simp: occurs_at_def)
  next
    case False
    have "fresh_string pat 0 xs" by (simp add: fresh_string_def)
    moreover have "find_string pat xs 0 = Inr (if i \<noteq> length xs then i else length xs)"
      using s False by (simp add: find_string_def)
    ultimately have "first_string pat xs = None" using string_delimiter.missed by blast
    then have none: "\<not> occurs_at pat xs j" for j
      by (cases "j < length xs") (auto simp: first_string_def find_None_iff occurs_at_def)
    have "prefix (drop i xs) pat" using at False i by (cases "i = length xs") auto
    moreover have "\<not> prefix (drop j xs) pat" if "j < i" for j using before that by auto
    ultimately show ?thesis using s False i none by simp
  qed
qed

theorem partial_search_correct_witness:
  "partial_search 0 [1, 2, 1, 2] [1, 2, 3] = (2, False) \<and> (\<forall>j. \<not> occurs_at [1, 2, 3] [1, 2, 1, 2] j)"
proof -
  have s: "partial_search 0 [1, 2, 1, 2] [1, 2, 3] = (2, False)" by simp
  from partial_search_correct [of "[1, 2, 3]" "[1, 2, 1, 2]"] show ?thesis by (simp add: s)
qed

text \<open>
  C33. Reading until a string or a character: a call that returns has appended a part of the
  input, in order, and returns the end of the first delimiter, also one that arrived in pieces;
  or the buffer is full without a delimiter and it says \<open>not_found\<close>; or it returns the stream's
  error. It waits only while the stream has reported no error.
\<close>

theorem read_until_first_delimiter:
  assumes "dyn_inv d" and "streambuf_inv b"
  shows "(case read_until_string string_ops pat rounds d inp of
        Blocked \<Rightarrow> \<not> (\<exists>r \<in> set rounds. failed (snd (snd r)))
      | Length_error \<Rightarrow> container_max < dyn_max d
      | Done (d', ec, n, inp') \<Rightarrow>
          until_post (first_string pat) (dyn_max d) rounds (dyn_contents d) inp (dyn_contents d') ec n inp')
    \<and> (case read_until_char streambuf_ops c rounds b inp of
        Blocked \<Rightarrow> \<not> (\<exists>r \<in> set rounds. failed (snd (snd r)))
      | Length_error \<Rightarrow> False
      | Done (b', ec, n, inp') \<Rightarrow>
          until_post (first_char c) (sb_max_size b) rounds (streambuf_contents b) inp
            (streambuf_contents b') ec n inp')"
proof
  have m: "d_max_size string_ops d = dyn_max d" "d_max_size streambuf_ops b = sb_max_size b"
    by (simp_all add: ops_defs string_max_size_def streambuf_max_size_def)
  note res = string_until_string.until_result [OF assms(1) string_delimiter.fresh_start,
      of pat rounds inp, unfolded m string_until_string.returned_def]
  show "case read_until_string string_ops pat rounds d inp of
        Blocked \<Rightarrow> \<not> (\<exists>r \<in> set rounds. failed (snd (snd r)))
      | Length_error \<Rightarrow> container_max < dyn_max d
      | Done (d', ec, n, inp') \<Rightarrow>
          until_post (first_string pat) (dyn_max d) rounds (dyn_contents d) inp (dyn_contents d') ec n inp'"
    using res by (auto simp: read_until_string_def dyn_limit_def split: outcome.splits)
  note res' = streambuf_until_char.until_result [OF assms(2) char_delimiter.fresh_start,
      of c rounds inp, unfolded m streambuf_until_char.returned_def]
  show "case read_until_char streambuf_ops c rounds b inp of
        Blocked \<Rightarrow> \<not> (\<exists>r \<in> set rounds. failed (snd (snd r)))
      | Length_error \<Rightarrow> False
      | Done (b', ec, n, inp') \<Rightarrow>
          until_post (first_char c) (sb_max_size b) rounds (streambuf_contents b) inp
            (streambuf_contents b') ec n inp'"
    using res' by (auto simp: read_until_char_def split: outcome.splits)
qed

lemma example_buffers:
  "dyn_inv (string_buffer [7, 13] 100)" "dyn_contents (string_buffer [7, 13] 100) = [7, 13]"
  "dyn_max (string_buffer [7, 13] 100) = 100" "streambuf_inv (new_streambuf 100)"
  by (simp_all add: dyn_inv_def dyn_contents_def string_buffer_def dyn_limit_def container_max_def new_streambuf_inv)

theorem read_until_first_delimiter_witness:
  "case read_until_string string_ops [13, 10] [(15, 1, Success), (15, 5, Eof)] (string_buffer [7, 13] 100) [10, 8] of
      Blocked \<Rightarrow> False
    | Length_error \<Rightarrow> False
    | Done (d', ec, n, inp') \<Rightarrow>
        until_post (first_string [13, 10]) 100 [(15, 1, Success), (15, 5, Eof)] [7, 13] [10, 8]
          (dyn_contents d') ec n inp'"
  using read_until_first_delimiter [OF example_buffers(1,4), where pat = "[13, 10]"
      and rounds = "[(15, 1, Success), (15, 5, Eof)]" and inp = "[10, 8]"]
  by (auto simp: example_buffers(2,3) container_max_def split: outcome.splits)

text \<open>
  The asynchronous operations call their handlers with the result of the synchronous ones
  and leave the same buffer and stream, when the buffer has room and no delimiter to begin with
  and the stream, with enough input, moves bytes or reports an error.
\<close>

theorem async_read_until_matches:
  assumes "dyn_inv d" and "length (dyn_contents d) < dyn_max d" and "moving (map snd rounds)"
    and "dyn_max d \<le> length (dyn_contents d) + length inp"
  shows "(first_char c (dyn_contents d) = None \<longrightarrow>
      async_read_until_char string_ops c rounds d inp = read_until_char string_ops c rounds d inp)
    \<and> (first_string pat (dyn_contents d) = None \<longrightarrow>
      async_read_until_string string_ops pat rounds d inp = read_until_string string_ops pat rounds d inp)"
proof -
  have m: "d_max_size string_ops d = dyn_max d"
    by (simp add: string_ops_def string_max_size_def)
  show ?thesis
    using string_until_char.async_until_matches [OF assms(1), of c rounds inp]
      string_until_string.async_until_matches [OF assms(1), of pat rounds inp] assms(2-4)
    by (simp add: m async_until_defs read_until_char_def read_until_string_def)
qed

theorem async_read_until_matches_witness:
  "async_read_until_string string_ops [9] [(15, 1, Success), (15, 2, Eof)] (string_buffer [] 2) [8, 9]
    = read_until_string string_ops [9] [(15, 1, Success), (15, 2, Eof)] (string_buffer [] 2) [8, 9]"
proof -
  have d: "dyn_inv (string_buffer [] 2)" "dyn_contents (string_buffer [] 2) = []" "dyn_max (string_buffer [] 2) = 2"
    by (simp_all add: dyn_inv_def dyn_contents_def string_buffer_def dyn_limit_def)
  show ?thesis
    using async_read_until_matches [OF d(1), where rounds = "[(15, 1, Success), (15, 2, Eof)]"
      and inp = "[8, 9]" and pat = "[9]"]
    by (simp add: d moving_def first_string_def)
qed

end
