(* ===== verification/Asio_Read_Until_V2.thy ===== *)
theory Asio_Read_Until_V2
  imports Asio_Read_Until
begin

text \<open>
  \<open>impl/read_until.hpp\<close>, the operations on dynamic buffers of version 2. Shown here: a buffer of
  version 2 with the number of bytes it has grown by is a buffer of version 1, and over it the
  operations of this file are those of \<open>Asio_Read_Until\<close>; so all that holds there holds here.
\<close>

section \<open>Synchronous operations\<close>

definition data_bytes_v2 :: "'b dynamic_ops_v2 \<Rightarrow> 'b \<Rightarrow> byte list" where
  "data_bytes_v2 ops b = map ((!) (v_storage ops b)) (addresses (v_data ops 0 (v_size ops b) b))"

fun until_v2_loop ::
  "'b dynamic_ops_v2 \<Rightarrow> (byte list \<Rightarrow> nat \<Rightarrow> nat + nat) \<Rightarrow> round list \<Rightarrow> nat \<Rightarrow> 'b \<Rightarrow> byte list
     \<Rightarrow> ('b \<times> error_code \<times> nat \<times> byte list) outcome" where
  "until_v2_loop ops search [] search_position b inp =
     (case search (data_bytes_v2 ops b) search_position of
        Inl e \<Rightarrow> Done (b, Success, e, inp)
      | Inr p \<Rightarrow>
          if v_size ops b = v_max_size ops b then Done (b, Not_found, 0, inp)
          else if v_grow ops (bytes_available_v2 ops 0 65536 b) b = None then Length_error
          else Blocked)"
| "until_v2_loop ops search ((cap, a) # rounds) search_position b inp =
     (case search (data_bytes_v2 ops b) search_position of
        Inl e \<Rightarrow> Done (b, Success, e, inp)
      | Inr p \<Rightarrow>
          if v_size ops b = v_max_size ops b then Done (b, Not_found, 0, inp)
          else
            let bytes_to_read = bytes_available_v2 ops cap 65536 b;
                pos = v_size ops b
            in (case v_grow ops bytes_to_read b of
                  None \<Rightarrow> Length_error
                | Some b1 \<Rightarrow>
                    let (b2, inp', bytes_transferred, ec) = read_into_v2 ops (v_data ops pos bytes_to_read b1) a inp b1;
                        b3 = v_shrink ops (bytes_to_read - bytes_transferred) b2
                    in if failed ec then Done (b3, ec, 0, inp')
                       else until_v2_loop ops search rounds p b3 inp'))"

definition read_until_char_v2 ::
  "'b dynamic_ops_v2 \<Rightarrow> byte \<Rightarrow> round list \<Rightarrow> 'b \<Rightarrow> byte list \<Rightarrow> ('b \<times> error_code \<times> nat \<times> byte list) outcome" where
  "read_until_char_v2 ops delim rounds b inp = until_v2_loop ops (find_char delim) rounds 0 b inp"

definition read_until_string_v2 ::
  "'b dynamic_ops_v2 \<Rightarrow> byte list \<Rightarrow> round list \<Rightarrow> 'b \<Rightarrow> byte list \<Rightarrow> ('b \<times> error_code \<times> nat \<times> byte list) outcome" where
  "read_until_string_v2 ops delim rounds b inp = until_v2_loop ops (find_string delim) rounds 0 b inp"

definition read_until_match_v2 ::
  "'b dynamic_ops_v2 \<Rightarrow> match_condition \<Rightarrow> round list \<Rightarrow> 'b \<Rightarrow> byte list \<Rightarrow> ('b \<times> error_code \<times> nat \<times> byte list) outcome" where
  "read_until_match_v2 ops mc rounds b inp = until_v2_loop ops (find_match mc) rounds 0 b inp"

section \<open>Asynchronous operations\<close>

text \<open>The operation object keeps the search position and \<open>bytes_to_read_\<close>.\<close>

definition until_v2_phase ::
  "'b dynamic_ops_v2 \<Rightarrow> (byte list \<Rightarrow> nat \<Rightarrow> nat + nat) \<Rightarrow> nat \<Rightarrow> 'b \<Rightarrow> nat \<Rightarrow> nat \<times> nat" where
  "until_v2_phase ops search cap b search_position =
     (case search (data_bytes_v2 ops b) search_position of
        Inl e \<Rightarrow> (e, 0)
      | Inr p \<Rightarrow> if v_size ops b = v_max_size ops b then (size_max, 0)
                else (p, bytes_available_v2 ops cap 65536 b))"

definition until_v2_step ::
  "'b dynamic_ops_v2 \<Rightarrow> (byte list \<Rightarrow> nat \<Rightarrow> nat + nat) \<Rightarrow> nat \<Rightarrow> bool \<Rightarrow> 'b \<Rightarrow> nat \<times> nat \<Rightarrow> error_code \<Rightarrow> nat
     \<Rightarrow> ('b \<times> (nat \<times> nat) \<times> dynamic_action) option" where
  "until_v2_step ops search cap start b st ec bytes_transferred =
     (if start then
        (let (p, bytes_to_read) = until_v2_phase ops search cap b (fst st);
             pos = v_size ops b
         in map_option (\<lambda>b1. (b1, (p, bytes_to_read), Read_region (v_data ops pos bytes_to_read b1)))
              (v_grow ops bytes_to_read b))
      else
        (let b1 = v_shrink ops (snd st - bytes_transferred) b
         in if failed ec \<or> bytes_transferred = 0
            then Some (b1, st, until_complete ec (fst st))
            else
              (let (p, bytes_to_read) = until_v2_phase ops search cap b1 (fst st)
               in if bytes_to_read = 0 then Some (b1, (p, 0), until_complete ec p)
                  else
                    (let pos = v_size ops b1
                     in map_option (\<lambda>b2. (b2, (p, bytes_to_read), Read_region (v_data ops pos bytes_to_read b2)))
                          (v_grow ops bytes_to_read b1)))))"

definition read_until_delim_v2_step ::
  "'b dynamic_ops_v2 \<Rightarrow> byte \<Rightarrow> nat \<Rightarrow> bool \<Rightarrow> 'b \<Rightarrow> nat \<times> nat \<Rightarrow> error_code \<Rightarrow> nat
     \<Rightarrow> ('b \<times> (nat \<times> nat) \<times> dynamic_action) option" where
  "read_until_delim_v2_step ops delim = until_v2_step ops (find_char delim)"

definition read_until_delim_string_v2_step ::
  "'b dynamic_ops_v2 \<Rightarrow> byte list \<Rightarrow> nat \<Rightarrow> bool \<Rightarrow> 'b \<Rightarrow> nat \<times> nat \<Rightarrow> error_code \<Rightarrow> nat
     \<Rightarrow> ('b \<times> (nat \<times> nat) \<times> dynamic_action) option" where
  "read_until_delim_string_v2_step ops delim = until_v2_step ops (find_string delim)"

definition read_until_match_v2_step ::
  "'b dynamic_ops_v2 \<Rightarrow> match_condition \<Rightarrow> nat \<Rightarrow> bool \<Rightarrow> 'b \<Rightarrow> nat \<times> nat \<Rightarrow> error_code \<Rightarrow> nat
     \<Rightarrow> ('b \<times> (nat \<times> nat) \<times> dynamic_action) option" where
  "read_until_match_v2_step ops mc = until_v2_step ops (find_match mc)"

fun async_until_v2_run ::
  "'b dynamic_ops_v2
     \<Rightarrow> (nat \<Rightarrow> bool \<Rightarrow> 'b \<Rightarrow> nat \<times> nat \<Rightarrow> error_code \<Rightarrow> nat \<Rightarrow> ('b \<times> (nat \<times> nat) \<times> dynamic_action) option)
     \<Rightarrow> round list \<Rightarrow> bool \<Rightarrow> 'b \<Rightarrow> nat \<times> nat \<Rightarrow> error_code \<Rightarrow> nat \<Rightarrow> byte list
     \<Rightarrow> ('b \<times> error_code \<times> nat \<times> byte list) outcome" where
  "async_until_v2_run ops step [] start b st ec n inp =
     (case step 0 start b st ec n of
        None \<Rightarrow> Length_error
      | Some (b1, st1, Complete ec1 n1) \<Rightarrow> Done (b1, ec1, n1, inp)
      | Some (b1, st1, Read_region r) \<Rightarrow> Blocked)"
| "async_until_v2_run ops step ((cap, a) # rounds) start b st ec n inp =
     (case step cap start b st ec n of
        None \<Rightarrow> Length_error
      | Some (b1, st1, Complete ec1 n1) \<Rightarrow> Done (b1, ec1, n1, inp)
      | Some (b1, st1, Read_region r) \<Rightarrow>
          let (b2, inp', n2, ec2) = read_into_v2 ops r a inp b1
          in async_until_v2_run ops step rounds False b2 st1 ec2 n2 inp')"

definition async_read_until_char_v2 ::
  "'b dynamic_ops_v2 \<Rightarrow> byte \<Rightarrow> round list \<Rightarrow> 'b \<Rightarrow> byte list \<Rightarrow> ('b \<times> error_code \<times> nat \<times> byte list) outcome" where
  "async_read_until_char_v2 ops delim rounds b inp =
     async_until_v2_run ops (read_until_delim_v2_step ops delim) rounds True b (0, 0) Success 0 inp"

definition async_read_until_string_v2 ::
  "'b dynamic_ops_v2 \<Rightarrow> byte list \<Rightarrow> round list \<Rightarrow> 'b \<Rightarrow> byte list \<Rightarrow> ('b \<times> error_code \<times> nat \<times> byte list) outcome" where
  "async_read_until_string_v2 ops delim rounds b inp =
     async_until_v2_run ops (read_until_delim_string_v2_step ops delim) rounds True b (0, 0) Success 0 inp"

definition async_read_until_match_v2 ::
  "'b dynamic_ops_v2 \<Rightarrow> match_condition \<Rightarrow> round list \<Rightarrow> 'b \<Rightarrow> byte list \<Rightarrow> ('b \<times> error_code \<times> nat \<times> byte list) outcome" where
  "async_read_until_match_v2 ops mc rounds b inp =
     async_until_v2_run ops (read_until_match_v2_step ops mc) rounds True b (0, 0) Success 0 inp"

lemmas until_v2_defs = async_read_until_char_v2_def async_read_until_string_v2_def async_read_until_match_v2_def
  read_until_delim_v2_step_def read_until_delim_string_v2_step_def read_until_match_v2_step_def
  read_until_char_v2_def read_until_string_v2_def read_until_match_v2_def

section \<open>Version 2 as version 1\<close>

text \<open>The buffer and by how much it has grown.\<close>

definition as_v1 :: "'b dynamic_ops_v2 \<Rightarrow> ('b \<times> nat) dynamic_ops" where
  "as_v1 ops = \<lparr>d_size = v_size ops \<circ> fst, d_max_size = v_max_size ops \<circ> fst,
     d_capacity = (\<lambda>cap. v_capacity ops cap \<circ> fst),
     d_data = (\<lambda>(b, _). v_data ops 0 (v_size ops b) b), d_storage = v_storage ops \<circ> fst,
     d_prepare = (\<lambda>n (b, _). map_option (\<lambda>b1. ((b1, n), v_data ops (v_size ops b) n b1)) (v_grow ops n b)),
     d_fill = (\<lambda>r bs (b, n). (v_fill ops r bs b, n)),
     d_commit = (\<lambda>k (b, n). (v_shrink ops (n - k) b, 0)),
     d_consume = (\<lambda>k (b, n). (v_consume ops k b, 0))\<rparr>"

lemma as_v1_simps [simp]:
  "d_size (as_v1 ops) (b, n) = v_size ops b" "d_max_size (as_v1 ops) (b, n) = v_max_size ops b"
  "d_prepare (as_v1 ops) k (b, n) = map_option (\<lambda>b1. ((b1, k), v_data ops (v_size ops b) k b1)) (v_grow ops k b)"
  "d_fill (as_v1 ops) r bs (b, n) = (v_fill ops r bs b, n)"
  "d_commit (as_v1 ops) k (b, n) = (v_shrink ops (n - k) b, 0)"
  "d_consume (as_v1 ops) k (b, n) = (v_consume ops k b, 0)"
  "bytes_available (as_v1 ops) cap m (b, n) = bytes_available_v2 ops cap m b"
  "data_bytes (as_v1 ops) (b, n) = data_bytes_v2 ops b"
  by (simp_all add: as_v1_def bytes_available_def bytes_available_v2_def data_bytes_def data_bytes_v2_def)

lemma read_into_v1:
  "read_into (as_v1 ops) r a inp (b, n) = (case read_into_v2 ops r a inp b of (b', rest) \<Rightarrow> ((b', n), rest))"
  by (simp add: read_into_def read_into_v2_def Let_def)

abbreviation on_buffer :: "('a \<Rightarrow> 'b) \<Rightarrow> ('a \<times> 'r) outcome \<Rightarrow> ('b \<times> 'r) outcome" where
  "on_buffer f \<equiv> map_outcome (map_prod f id)"

lemma until_v2_loop_v1:
  "until_v2_loop ops search rounds p b inp = on_buffer fst (until_loop (as_v1 ops) search rounds p (b, n) inp)"
proof (induction rounds arbitrary: p b n inp)
  case Nil
  then show ?case by (simp split: sum.split)
next
  case (Cons round rounds)
  obtain cap a where round: "round = (cap, a)" by (cases round)
  define r where "r = bytes_available_v2 ops cap 65536 b"
  show ?case
  proof (cases "v_grow ops r b")
    case None
    then show ?thesis by (simp add: round r_def Let_def split: sum.split)
  next
    case (Some b1)
    obtain b2 inp' k ec where i: "read_into_v2 ops (v_data ops (v_size ops b) r b1) a inp b1 = (b2, inp', k, ec)"
      by (metis surj_pair)
    show ?thesis
      using Some i Cons.IH [of _ "v_shrink ops (r - k) b2" inp' 0]
      by (simp add: round r_def [symmetric] read_into_v1 Let_def split: sum.split)
  qed
qed

lemma until_v2_step_v1:
  "until_step (as_v1 ops) search cap start (b, snd st) (fst st) ec n =
     map_option (\<lambda>(b1, st1, act). ((b1, case act of Read_region r \<Rightarrow> snd st1 | Complete _ _ \<Rightarrow> 0), fst st1, act))
       (until_v2_step ops search cap start b st ec n)"
  by (cases st)
    (simp add: until_step_def until_v2_step_def until_phase_def until_v2_phase_def until_complete_def Let_def
      option.map_comp comp_def split: prod.splits sum.splits)

lemma async_until_v2_run_v1:
  "async_until_v2_run ops (until_v2_step ops search) rounds start b st ec n inp =
     on_buffer fst (async_until_run (as_v1 ops) (until_step (as_v1 ops) search) rounds start (b, snd st) (fst st) ec n inp)"
proof (induction rounds arbitrary: start b st ec n inp)
  case Nil
  then show ?case
    by (auto simp: until_v2_step_v1 split: option.split prod.split dynamic_action.split)
next
  case (Cons round rounds)
  obtain cap a where round: "round = (cap, a)" by (cases round)
  show ?case
  proof (cases "until_v2_step ops search cap start b st ec n")
    case None
    then show ?thesis by (simp add: round until_v2_step_v1)
  next
    case (Some res)
    obtain b1 st1 act where res: "res = (b1, st1, act)" by (cases res)
    show ?thesis
    proof (cases act)
      case (Read_region r)
      obtain b2 inp' n2 ec2 where i: "read_into_v2 ops r a inp b1 = (b2, inp', n2, ec2)" by (metis surj_pair)
      show ?thesis
        using Some Cons.IH [of False b2 st1 ec2 n2 inp'] i
        by (simp add: round until_v2_step_v1 res Read_region read_into_v1)
    next
      case (Complete ec1 n1)
      with Some show ?thesis by (simp add: round until_v2_step_v1 res)
    qed
  qed
qed

sublocale dynamic_buffer_v2 \<subseteq> v1: dynamic_reader "inv \<circ> fst" "contents \<circ> fst" "limit \<circ> fst" "as_v1 ops"
proof
  fix b :: "'b \<times> nat" and n b' r
  assume inv: "(inv \<circ> fst) b"
  obtain b0 k0 where b: "b = (b0, k0)" by (cases b)
  note inv0 = inv [unfolded b, simplified]
  show "d_prepare (as_v1 ops) n b \<noteq> None \<longleftrightarrow> length ((contents \<circ> fst) b) + n \<le> (limit \<circ> fst) b"
    using grow_iff [OF inv0, of n] by (simp add: b)
  show "(inv \<circ> fst) (d_consume (as_v1 ops) n b)"
    "(contents \<circ> fst) (d_consume (as_v1 ops) n b) = drop n ((contents \<circ> fst) b)"
    "(limit \<circ> fst) (d_consume (as_v1 ops) n b) = (limit \<circ> fst) b"
    using consume [OF inv0, of n] by (simp_all add: b)
  show "length ((contents \<circ> fst) b) \<le> (limit \<circ> fst) b"
    using contents_limit [OF inv0] by (simp add: b)
  show "d_size (as_v1 ops) b = length ((contents \<circ> fst) b)"
    using size [OF inv0] by (simp add: b)
  show "d_capacity (as_v1 ops) cap b = cap \<or> d_capacity (as_v1 ops) cap b = min cap (d_max_size (as_v1 ops) b)" for cap
    using capacity [OF inv0, of cap] by (simp add: b as_v1_def)
  show "map ((!) (d_storage (as_v1 ops) b)) (addresses (d_data (as_v1 ops) b)) = (contents \<circ> fst) b"
    using data [OF inv0] by (simp add: b as_v1_def)
  assume p: "d_prepare (as_v1 ops) n b = Some (b', r)"
  then obtain b1 where g: "v_grow ops n b0 = Some b1" and b': "b' = (b1, n)"
      and r: "r = v_data ops (length (contents b0)) n b1"
    by (auto simp: b size [OF inv0])
  show "buf_size r = n" unfolding r by (rule grow_region [OF inv0 g])
  fix bs :: "byte list"
  assume len: "length bs \<le> n"
  note facts = shrink [OF inv0 g len refl]
  show "(inv \<circ> fst) (d_commit (as_v1 ops) (length bs) (d_fill (as_v1 ops) r bs b'))"
    "(contents \<circ> fst) (d_commit (as_v1 ops) (length bs) (d_fill (as_v1 ops) r bs b')) = (contents \<circ> fst) b @ bs"
    "(limit \<circ> fst) (d_commit (as_v1 ops) (length bs) (d_fill (as_v1 ops) r bs b')) = (limit \<circ> fst) b"
    "d_max_size (as_v1 ops) (d_commit (as_v1 ops) (length bs) (d_fill (as_v1 ops) r bs b')) = d_max_size (as_v1 ops) b"
    using facts by (simp_all add: b b' r)
qed

section \<open>One function on the bytes\<close>

fun stream_until ::
  "nat \<Rightarrow> nat \<Rightarrow> (byte list \<Rightarrow> nat \<Rightarrow> nat + nat) \<Rightarrow> round list \<Rightarrow> nat \<Rightarrow> byte list \<Rightarrow> byte list
     \<Rightarrow> (byte list \<times> error_code \<times> nat \<times> byte list) outcome" where
  "stream_until m l search [] p xs inp =
     (case search xs p of
        Inl e \<Rightarrow> Done (xs, Success, e, inp)
      | Inr p' \<Rightarrow> if length xs = m then Done (xs, Not_found, 0, inp)
                else if l < length xs + room m 0 65536 xs then Length_error else Blocked)"
| "stream_until m l search ((cap, a) # rounds) p xs inp =
     (case search xs p of
        Inl e \<Rightarrow> Done (xs, Success, e, inp)
      | Inr p' \<Rightarrow>
          if length xs = m then Done (xs, Not_found, 0, inp)
          else if l < length xs + room m cap 65536 xs then Length_error
          else (let k = min (fst a) (min (room m cap 65536 xs) (length inp));
                    xs' = xs @ take k inp
                in if failed (snd a) then Done (xs', snd a, 0, drop k inp)
                   else stream_until m l search rounds p' xs' (drop k inp)))"

context dynamic_reader
begin

lemma until_refines:
  "inv b \<Longrightarrow> seen contents (until_loop ops search rounds p b inp) =
     stream_until (d_max_size ops b) (limit b) search rounds p (contents b) inp"
proof (induction rounds arbitrary: p b inp)
  case Nil
  note [simp] = size [OF Nil] data [OF Nil]
  from Nil show ?case
    by (cases rule: prepare_cases [where n = "room (d_max_size ops b) 0 65536 (contents b)"])
      (auto simp: data_bytes_def available_room [OF Nil] split: sum.split)
next
  case (Cons round rounds)
  obtain cap a where round: "round = (cap, a)" by (cases round)
  note inv = Cons.prems
  note [simp] = size [OF inv] data [OF inv]
  define r where "r = room (d_max_size ops b) cap 65536 (contents b)"
  from inv show ?case
  proof (cases rule: prepare_cases [where n = r])
    case throws
    then show ?thesis
      by (simp add: round data_bytes_def available_room [OF inv] r_def [symmetric] split: sum.split)
  next
    case (fits b1 reg)
    obtain b2 inp' k ec where i: "read_into ops reg a inp b1 = (b2, inp', k, ec)" by (metis surj_pair)
    note facts = read_into_round [OF inv fits(1) i]
    show ?thesis
      using fits i Cons.IH [OF facts(4)] facts(1-3,5-7)
      by (simp add: round data_bytes_def available_room [OF inv] r_def [symmetric] Let_def split: sum.split)
  qed
qed

end

lemma seen_fst: "seen (f \<circ> fst) x = seen f (on_buffer fst x)"
  by (cases x) (auto simp: seen_def map_prod_def split: prod.split)

context dynamic_buffer_v2
begin

lemma until_v2_refines:
  assumes "inv b"
  shows "seen contents (until_v2_loop ops search rounds p b inp) =
    stream_until (v_max_size ops b) (limit b) search rounds p (contents b) inp"
  using v1.until_refines [of "(b, 0)" search rounds p inp] assms
  unfolding until_v2_loop_v1 [of ops search rounds p b inp 0] seen_fst by simp

end

text \<open>
  Reading until a character, a string or a match condition holds gives the same bytes, error
  and position through both versions of the interface, with a string and with a vector, and
  leaves the same input: the searches and the storage do not matter.
\<close>

theorem read_until_versions_agree:
  assumes "unused d"
  shows "seen dyn_contents (read_until_char string_ops c rounds d inp) =
      seen storage (read_until_char_v2 string_ops_v2 c rounds d inp)
    \<and> seen dyn_contents (read_until_string vector_ops pat rounds d inp) =
      seen storage (read_until_string_v2 string_ops_v2 pat rounds d inp)
    \<and> seen dyn_contents (read_until_match string_ops mc rounds d inp) =
      seen storage (read_until_match_v2 vector_ops_v2 mc rounds d inp)"
proof -
  note facts = unused_facts [OF assms]
  have m: "d_max_size string_ops d = dyn_max d" "d_max_size vector_ops d = dyn_max d"
      "v_max_size string_ops_v2 d = dyn_max d" "v_max_size vector_ops_v2 d = dyn_max d"
    by (simp_all add: ops_defs string_max_size_def vector_max_size_def)
  show ?thesis
    unfolding read_until_char_def read_until_string_def read_until_match_def until_v2_defs
      string_reader.until_refines [OF facts(1)] vector_reader.until_refines [OF facts(1)]
      string_reader_v2.until_v2_refines [OF assms] vector_reader_v2.until_v2_refines [OF assms] m facts(2)
    by simp
qed

theorem read_until_versions_agree_witness:
  "seen dyn_contents (read_until_string vector_ops [13, 10] [(0, 2, Success), (9, 1, Eof)] (vector_buffer [] 300) [7, 13, 10, 8]) =
     seen storage (read_until_string_v2 string_ops_v2 [13, 10] [(0, 2, Success), (9, 1, Eof)] (vector_buffer [] 300) [7, 13, 10, 8])"
proof -
  have "unused (vector_buffer [] 300)" by (simp add: unused_def vector_buffer_def)
  from read_until_versions_agree [OF this] show ?thesis by blast
qed

text \<open>The searches again, over strings and vectors of version 2.\<close>

lemma unused_limit: "unused d \<Longrightarrow> dyn_limit d \<le> dyn_max d \<and> dyn_limit d < size_max"
  using dyn_limit_max by blast

interpretation string_v2_until_char: until_reader "unused \<circ> fst" "storage \<circ> fst" "dyn_limit \<circ> fst"
  "as_v1 string_ops_v2" "find_char c" "first_char c" "fresh_char c" for c
  by unfold_locales (simp add: as_v1_def string_ops_v2_def string_max_size_def unused_limit)

interpretation string_v2_until_string: until_reader "unused \<circ> fst" "storage \<circ> fst" "dyn_limit \<circ> fst"
  "as_v1 string_ops_v2" "find_string pat" "first_string pat" "fresh_string pat" for pat
  by unfold_locales (simp add: as_v1_def string_ops_v2_def string_max_size_def unused_limit)

lemma async_until_v2_matches:
  assumes "async_until_run (as_v1 ops) (until_step (as_v1 ops) search) rounds True (d, 0) 0 Success 0 inp =
    until_loop (as_v1 ops) search rounds 0 (d, 0) inp"
  shows "async_until_v2_run ops (until_v2_step ops search) rounds True d (0, 0) Success 0 inp =
    until_v2_loop ops search rounds 0 d inp"
  using assms async_until_v2_run_v1 [of ops search rounds True d "(0, 0)" Success 0 inp]
    until_v2_loop_v1 [of ops search rounds 0 d inp 0] by simp

lemma async_read_until_v2:
  assumes "unused d" and "length (storage d) < dyn_max d" and "moving (map snd rounds)"
    and "dyn_max d \<le> length (storage d) + length inp"
  shows "first_char c (storage d) = None \<Longrightarrow>
      async_read_until_char_v2 string_ops_v2 c rounds d inp = read_until_char_v2 string_ops_v2 c rounds d inp"
    and "first_string pat (storage d) = None \<Longrightarrow>
      async_read_until_string_v2 string_ops_v2 pat rounds d inp = read_until_string_v2 string_ops_v2 pat rounds d inp"
proof -
  have m: "v_max_size string_ops_v2 d = dyn_max d"
    by (simp add: string_ops_v2_def string_max_size_def)
  show "async_read_until_char_v2 string_ops_v2 c rounds d inp = read_until_char_v2 string_ops_v2 c rounds d inp"
    if "first_char c (storage d) = None"
    unfolding until_v2_defs
    by (rule async_until_v2_matches, rule string_v2_until_char.async_until_matches) (use assms that in \<open>simp_all add: m\<close>)
  show "async_read_until_string_v2 string_ops_v2 pat rounds d inp = read_until_string_v2 string_ops_v2 pat rounds d inp"
    if "first_string pat (storage d) = None"
    unfolding until_v2_defs
    by (rule async_until_v2_matches, rule string_v2_until_string.async_until_matches) (use assms that in \<open>simp_all add: m\<close>)
qed

end
