(* ===== verification/Linked_List.thy ===== *)
theory Linked_List
  imports Prelude
begin

text \<open>
  Linked lists in memory, given by functions from the addresses of their nodes: singly linked ones,
  of which a pointer is the beginning, and doubly linked ones. Shared by the queues of operations,
  the timers and the registrations of signals.
\<close>

section \<open>The ends of a list\<close>

definition head_or :: "'a list \<Rightarrow> 'a option \<Rightarrow> 'a option" where
  "head_or xs e = (case xs of [] \<Rightarrow> e | x # _ \<Rightarrow> Some x)"

definition last_or :: "'a list \<Rightarrow> 'a option \<Rightarrow> 'a option" where
  "last_or xs p = (if xs = [] then p else Some (last xs))"

lemma head_or_simps [simp]:
  "head_or [] e = e" "head_or (x # xs) e = Some x" "head_or (us @ vs) e = head_or us (head_or vs e)"
  by (simp_all add: head_or_def split: list.split)

lemma last_or_simps [simp]: "last_or [] p = p" "last_or (us @ [u]) p = Some u" "last_or (u # us) p = last_or us (Some u)"
  by (simp_all add: last_or_def)

lemma head_or_Some: "head_or xs None = Some x \<Longrightarrow> x \<in> set xs"
  by (cases xs) simp_all

lemma last_or_Some: "last_or xs None = Some x \<Longrightarrow> x \<in> set xs"
  by (auto simp: last_or_def split: if_splits)

section \<open>Singly linked lists\<close>

text \<open>The nodes linked from a position on.\<close>

primrec chain :: "('a \<Rightarrow> 'a option) \<Rightarrow> 'a option \<Rightarrow> 'a list \<Rightarrow> bool" where
  "chain nx p [] \<longleftrightarrow> p = None"
| "chain nx p (x # xs) \<longleftrightarrow> p = Some x \<and> chain nx (nx x) xs"

lemma chain_upd [simp]: "x \<notin> set xs \<Longrightarrow> chain (nx(x := y)) p xs = chain nx p xs"
  by (induction xs arbitrary: p) auto

lemma chain_None [simp]: "chain nx None xs \<longleftrightarrow> xs = []"
  by (cases xs) simp_all

lemma chain_head: "chain nx p xs \<Longrightarrow> p = head_or xs None"
  by (cases xs) simp_all

text \<open>Changing the link of a node replaces what is behind it.\<close>

lemma chain_replace:
  "distinct (us @ [z]) \<Longrightarrow> z \<notin> set ys \<Longrightarrow> chain nx p (us @ z # xs) \<Longrightarrow> chain nx q ys \<Longrightarrow>
     chain (nx(z := q)) p (us @ z # ys)"
  by (induction us arbitrary: p) auto

lemma chain_splice:
  "distinct (us @ [z]) \<Longrightarrow> set (us @ [z]) \<inter> set ys = {} \<Longrightarrow> chain nx p (us @ [z]) \<Longrightarrow> chain nx q ys \<Longrightarrow>
     chain (nx(z := q)) p (us @ z # ys)"
  by (rule chain_replace) auto

lemma chain_append:
  assumes "xs \<noteq> []" and "distinct xs" and "set xs \<inter> set ys = {}" and "chain nx p xs" and "chain nx q ys"
  shows "chain (nx(last xs := q)) p (xs @ ys)"
proof -
  obtain us z where xs: "xs = us @ [z]" using assms(1) by (meson rev_exhaust)
  show ?thesis using chain_splice [of us z ys nx p q] assms(2-) unfolding xs by simp
qed

lemma chain_last: "chain nx p xs \<Longrightarrow> xs \<noteq> [] \<Longrightarrow> nx (last xs) = None"
  by (induction xs arbitrary: p) (auto split: if_splits)

lemma chain_inner: "chain nx p xs \<Longrightarrow> x \<in> set xs \<Longrightarrow> x \<noteq> last xs \<Longrightarrow> nx x \<noteq> None"
proof (induction xs arbitrary: p)
  case (Cons y ys)
  then show ?case by (cases ys) auto
qed simp

lemma chain_behind: "chain nx p (us @ x # vs) \<Longrightarrow> chain nx (nx x) vs"
  by (induction us arbitrary: p) auto

lemma chain_suffix: "chain nx p (us @ vs) \<Longrightarrow> chain nx (head_or vs None) vs"
proof (induction us arbitrary: p)
  case Nil
  then show ?case using chain_head [of nx p vs] by simp
qed auto

section \<open>Doubly linked lists\<close>

text \<open>A stretch of the list: the node before it, its nodes, and the node after it.\<close>

primrec doubly :: "('a \<Rightarrow> 'a option) \<Rightarrow> ('a \<Rightarrow> 'a option) \<Rightarrow> 'a option \<Rightarrow> 'a list \<Rightarrow> 'a option \<Rightarrow> bool" where
  "doubly nx pv p [] e \<longleftrightarrow> True"
| "doubly nx pv p (x # xs) e \<longleftrightarrow> pv x = p \<and> nx x = head_or xs e \<and> doubly nx pv (Some x) xs e"

lemma doubly_append [simp]:
  "doubly nx pv p (us @ vs) e \<longleftrightarrow> doubly nx pv p us (head_or vs e) \<and> doubly nx pv (last_or us p) vs e"
  by (induction us arbitrary: p) auto

lemma doubly_cong:
  "(\<And>x. x \<in> set xs \<Longrightarrow> nx' x = nx x \<and> pv' x = pv x) \<Longrightarrow> doubly nx' pv' p xs e = doubly nx pv p xs e"
  by (induction xs arbitrary: p) auto

lemma doubly_later_prev: "doubly nx pv (Some p) xs e \<Longrightarrow> t \<in> set xs \<Longrightarrow> pv t \<noteq> None"
  by (induction xs arbitrary: p) auto

text \<open>Taking a node out: its neighbours are linked with each other.\<close>

lemma doubly_unlink:
  assumes dist: "distinct (us @ t # vs)" and l: "doubly nx pv None (us @ t # vs) None"
    and f: "\<And>u. u \<in> set (us @ vs) \<Longrightarrow> nx' u = (if pv t = Some u then nx t else nx u)"
      "\<And>u. u \<in> set (us @ vs) \<Longrightarrow> pv' u = (if nx t = Some u then pv t else pv u)"
  shows "doubly nx' pv' None (us @ vs) None"
proof -
  have t: "pv t = last_or us None" "nx t = head_or vs None" and lu: "doubly nx pv None us (Some t)"
    and lv: "doubly nx pv (Some t) vs None"
    using l by auto
  have lst: "us \<noteq> [] \<Longrightarrow> last us \<in> set us" "us \<noteq> [] \<Longrightarrow> last us \<notin> set vs"
    using dist by (auto dest: last_in_set simp: disjoint_iff)
  have "doubly nx' pv' None us (head_or vs None)"
  proof (cases us rule: rev_cases)
    case (snoc ws w)
    have "doubly nx' pv' None ws (Some w) = doubly nx pv None ws (Some w)"
      by (rule doubly_cong) (use dist in \<open>auto simp: f t snoc head_or_def split: list.splits\<close>)
    with lu dist show ?thesis by (auto simp: snoc f t head_or_def split: list.splits)
  qed simp
  moreover have "doubly nx' pv' (last_or us None) vs None"
  proof (cases vs)
    case (Cons w ws)
    have "doubly nx' pv' (Some w) ws None = doubly nx pv (Some w) ws None"
      by (rule doubly_cong) (use dist lst in \<open>auto simp: f t Cons last_or_def split: if_splits\<close>)
    with lv dist lst show ?thesis by (auto simp: Cons f t last_or_def split: if_splits)
  qed simp
  ultimately show ?thesis by simp
qed

text \<open>Putting a node in front.\<close>

lemma doubly_push:
  assumes "distinct (t # xs)" and "doubly nx pv None xs None" and "nx' t = head_or xs None" and "pv' t = None"
    and f: "\<And>u. u \<in> set xs \<Longrightarrow> nx' u = nx u"
      "\<And>u. u \<in> set xs \<Longrightarrow> pv' u = (if head_or xs None = Some u then Some t else pv u)"
  shows "doubly nx' pv' None (t # xs) None"
proof (cases xs)
  case (Cons y ys)
  have "doubly nx' pv' (Some y) ys None = doubly nx pv (Some y) ys None"
    by (rule doubly_cong) (use assms Cons in auto)
  then show ?thesis using assms Cons by simp
qed (use assms in simp)

end
