(* ===== verification/Asio_Op_Queue.thy ===== *)
theory Asio_Op_Queue
  imports Linked_List
begin

text \<open>
  \<open>detail/op_queue.hpp\<close>: the intrusive queue of operations with which asio passes handlers
  around. An operation is its address; \<open>next_\<close> of all operations is a function from addresses, so
  that queues share it as they do in memory. Shown here: the pointer operations implement lists.
\<close>

section \<open>The operations\<close>

type_synonym links = "nat \<Rightarrow> nat option"

record op_queue =
  front_ptr :: "nat option"
  back_ptr :: "nat option"

definition opq_new :: op_queue where
  "opq_new = \<lparr>front_ptr = None, back_ptr = None\<rparr>"

definition opq_front :: "op_queue \<Rightarrow> nat option" where
  "opq_front q = front_ptr q"

definition opq_pop :: "links \<Rightarrow> op_queue \<Rightarrow> links \<times> op_queue" where
  "opq_pop nx q =
     (case front_ptr q of
        None \<Rightarrow> (nx, q)
      | Some tmp \<Rightarrow>
          let q1 = q\<lparr>front_ptr := nx tmp\<rparr>;
              q2 = (if front_ptr q1 = None then q1\<lparr>back_ptr := None\<rparr> else q1)
          in (nx(tmp := None), q2))"

definition opq_push :: "nat \<Rightarrow> links \<Rightarrow> op_queue \<Rightarrow> links \<times> op_queue" where
  "opq_push h nx q =
     (let nx1 = nx(h := None)
      in case back_ptr q of
           Some b \<Rightarrow> (nx1(b := Some h), q\<lparr>back_ptr := Some h\<rparr>)
         | None \<Rightarrow> (nx1, q\<lparr>front_ptr := Some h, back_ptr := Some h\<rparr>))"

text \<open>Pushing all of another queue: the queue and the other one.\<close>

definition opq_push_all :: "op_queue \<Rightarrow> links \<Rightarrow> op_queue \<Rightarrow> links \<times> op_queue \<times> op_queue" where
  "opq_push_all other nx q =
     (case front_ptr other of
        None \<Rightarrow> (nx, q, other)
      | Some other_front \<Rightarrow>
          let (nx1, q1) =
                (case back_ptr q of
                   Some b \<Rightarrow> (nx(b := Some other_front), q)
                 | None \<Rightarrow> (nx, q\<lparr>front_ptr := Some other_front\<rparr>))
          in (nx1, q1\<lparr>back_ptr := back_ptr other\<rparr>, other\<lparr>front_ptr := None, back_ptr := None\<rparr>))"

definition opq_empty :: "op_queue \<Rightarrow> bool" where
  "opq_empty q \<longleftrightarrow> front_ptr q = None"

definition opq_is_enqueued :: "nat \<Rightarrow> links \<Rightarrow> op_queue \<Rightarrow> bool" where
  "opq_is_enqueued h nx q \<longleftrightarrow> nx h \<noteq> None \<or> back_ptr q = Some h"

text \<open>
  The destructor pops and destroys until the queue is empty: the operations destroyed, in order.
  On a cyclic chain it would not return (\<open>None\<close>).
\<close>

partial_function (option) opq_destroy :: "links \<Rightarrow> op_queue \<Rightarrow> nat list option" where
  "opq_destroy nx q =
     (case front_ptr q of
        None \<Rightarrow> Some []
      | Some h \<Rightarrow> Option.bind (opq_destroy (fst (opq_pop nx q)) (snd (opq_pop nx q))) (\<lambda>rest. Some (h # rest)))"

section \<open>Lists\<close>

definition op_list :: "links \<Rightarrow> op_queue \<Rightarrow> nat list \<Rightarrow> bool" where
  "op_list nx q xs \<longleftrightarrow> distinct xs \<and> chain nx (front_ptr q) xs
     \<and> back_ptr q = (if xs = [] then None else Some (last xs))"

lemma op_list_frame: "op_list nx q xs \<Longrightarrow> h \<notin> set xs \<Longrightarrow> op_list (nx(h := y)) q xs"
  by (simp add: op_list_def)

lemma op_list_front: "op_list nx q xs \<Longrightarrow> front_ptr q = (case xs of [] \<Rightarrow> None | x # _ \<Rightarrow> Some x)"
  by (cases xs) (auto simp: op_list_def)

lemma op_list_push:
  assumes "op_list nx q xs" and "h \<notin> set xs" and "opq_push h nx q = (nx', q')"
  shows "op_list nx' q' (xs @ [h])" and "h \<notin> set ys \<Longrightarrow> set xs \<inter> set ys = {} \<Longrightarrow> chain nx p ys \<Longrightarrow> chain nx' p ys"
proof -
  have base: "op_list (nx(h := None)) q xs" using op_list_frame assms(1,2) .
  show "op_list nx' q' (xs @ [h])"
  proof (cases "xs = []")
    case True
    with assms show ?thesis by (auto simp: op_list_def opq_push_def)
  next
    case False
    with assms(3) base have r: "nx' = (nx(h := None))(last xs := Some h)" "q' = q\<lparr>back_ptr := Some h\<rparr>"
      by (auto simp: opq_push_def op_list_def Let_def)
    have "chain (nx(h := None)) (Some h) [h]" by simp
    from chain_append [OF False _ _ _ this] base assms(2) show ?thesis
      unfolding r by (auto simp: op_list_def)
  qed
  assume "h \<notin> set ys" "set xs \<inter> set ys = {}" "chain nx p ys"
  moreover have "xs \<noteq> [] \<Longrightarrow> last xs \<notin> set ys" using \<open>set xs \<inter> set ys = {}\<close> last_in_set by blast
  ultimately show "chain nx' p ys"
    using assms(1,3) by (cases "xs = []") (auto simp: opq_push_def op_list_def Let_def)
qed

lemma op_list_pop:
  assumes "op_list nx q xs" and "opq_pop nx q = (nx', q')"
  shows "op_list nx' q' (tl xs)"
proof (cases xs)
  case Nil
  with assms show ?thesis by (auto simp: op_list_def opq_pop_def)
next
  case (Cons x ys)
  with assms show ?thesis by (cases ys) (auto simp: op_list_def opq_pop_def Let_def)
qed

lemma op_list_push_all:
  assumes "op_list nx q xs" and "op_list nx other ys" and "set xs \<inter> set ys = {}"
    and "opq_push_all other nx q = (nx', q', other')"
  shows "op_list nx' q' (xs @ ys)" and "op_list nx' other' []"
proof -
  show "op_list nx' other' []"
    using assms(2,4) by (cases "front_ptr other") (auto simp: opq_push_all_def op_list_def Let_def split: prod.splits)
  show "op_list nx' q' (xs @ ys)"
  proof (cases ys)
    case Nil
    with assms show ?thesis by (auto simp: opq_push_all_def op_list_def)
  next
    case (Cons y zs)
    show ?thesis
    proof (cases "xs = []")
      case True
      with assms Cons show ?thesis by (auto simp: opq_push_all_def op_list_def)
    next
      case False
      with assms Cons have r: "nx' = nx(last xs := Some y)" "q' = q\<lparr>back_ptr := Some (last ys)\<rparr>"
        by (auto simp: opq_push_all_def op_list_def)
      have "chain nx (Some y) ys" using assms(2) Cons by (simp add: op_list_def)
      from chain_append [OF False _ _ _ this] assms(1-3) show ?thesis
        unfolding r by (auto simp: op_list_def Cons)
    qed
  qed
qed

lemma op_list_destroy: "op_list nx q xs \<Longrightarrow> opq_destroy nx q = Some xs"
proof (induction xs arbitrary: nx q)
  case Nil
  then show ?case by (subst opq_destroy.simps) (simp add: op_list_def)
next
  case (Cons x xs)
  obtain nx' q' where p: "opq_pop nx q = (nx', q')" by (cases "opq_pop nx q")
  from op_list_pop [OF Cons.prems p] have "opq_destroy nx' q' = Some xs" using Cons.IH by simp
  moreover have "front_ptr q = Some x" using Cons.prems by (simp add: op_list_def)
  ultimately show ?case by (subst opq_destroy.simps) (simp add: p)
qed

text \<open>
  The intrusive queue implements a list: \<open>push\<close> appends, \<open>pop\<close> removes the first element (and
  does nothing on the empty queue), pushing another queue appends all of it and leaves that queue
  empty, \<open>front\<close>, \<open>empty\<close> and \<open>is_enqueued\<close> say what the list says, and the destructor
  returns, having destroyed each operation once, in order.
\<close>

theorem op_queue_refines_list:
  assumes "op_list nx q xs" and "op_list nx other ys" and "set xs \<inter> set ys = {}" and "h \<notin> set xs"
  shows "(case opq_push h nx q of (nx', q') \<Rightarrow> op_list nx' q' (xs @ [h]))
    \<and> (case opq_pop nx q of (nx', q') \<Rightarrow> op_list nx' q' (tl xs))
    \<and> (case opq_push_all other nx q of (nx', q', other') \<Rightarrow> op_list nx' q' (xs @ ys) \<and> op_list nx' other' [])
    \<and> opq_front q = (case xs of [] \<Rightarrow> None | x # _ \<Rightarrow> Some x) \<and> (opq_empty q \<longleftrightarrow> xs = [])
    \<and> (nx h = None \<longrightarrow> \<not> opq_is_enqueued h nx q) \<and> (\<forall>x \<in> set xs. opq_is_enqueued x nx q)
    \<and> opq_destroy nx q = Some xs"
proof (intro conjI)
  show "case opq_push h nx q of (nx', q') \<Rightarrow> op_list nx' q' (xs @ [h])"
    using op_list_push(1) [OF assms(1,4)] by (simp split: prod.split)
  show "case opq_pop nx q of (nx', q') \<Rightarrow> op_list nx' q' (tl xs)"
    using op_list_pop [OF assms(1)] by (simp split: prod.split)
  show "case opq_push_all other nx q of (nx', q', other') \<Rightarrow> op_list nx' q' (xs @ ys) \<and> op_list nx' other' []"
    using op_list_push_all [OF assms(1-3)] by (simp split: prod.split)
  show "opq_front q = (case xs of [] \<Rightarrow> None | x # _ \<Rightarrow> Some x)"
    using op_list_front [OF assms(1)] by (simp add: opq_front_def)
  then show "opq_empty q \<longleftrightarrow> xs = []"
    by (simp add: opq_front_def opq_empty_def split: list.splits)
  show "nx h = None \<longrightarrow> \<not> opq_is_enqueued h nx q"
    using assms(1,4) last_in_set [of xs] by (auto simp: opq_is_enqueued_def op_list_def)
  show "\<forall>x \<in> set xs. opq_is_enqueued x nx q"
    using assms(1) chain_inner [of nx "front_ptr q" xs] by (auto simp: opq_is_enqueued_def op_list_def)
  show "opq_destroy nx q = Some xs" by (rule op_list_destroy [OF assms(1)])
qed

theorem op_queue_refines_list_witness:
  "opq_destroy ((\<lambda>_. None)(4 := Some 9)) \<lparr>front_ptr = Some 4, back_ptr = Some 9\<rparr> = Some [4, 9]"
proof -
  have "op_list ((\<lambda>_. None)(4 := Some 9)) \<lparr>front_ptr = Some 4, back_ptr = Some 9\<rparr> [4, 9]"
    "op_list ((\<lambda>_. None)(4 := Some 9)) opq_new []"
    by (simp_all add: op_list_def opq_new_def)
  from op_queue_refines_list [OF this, of 7] show ?thesis by simp
qed

end
