(* ===== verification/Asio_Timer_Queue.thy ===== *)
theory Asio_Timer_Queue
  imports Asio_Op_Queue "HOL-Library.Multiset"
begin

text \<open>
  \<open>detail/timer_queue.hpp\<close>: the pending timers of asio, a binary heap ordered by time in which
  every timer knows its index, and a doubly linked list of the timers that have operations
  waiting. Timers are addresses; the fields of all timers are a function from addresses. The
  operations waiting on a timer are a list (what the queue of \<open>Asio_Op_Queue\<close> implements).
  Shown here: every operation keeps heap, indices and links consistent, and the timers that are
  ready come out, all of them, earliest first.
\<close>

section \<open>Data\<close>

record wait_op =
  op_id :: nat
  op_ec :: error_code

record per_timer_data =
  timer_ops :: "wait_op list"
  heap_index :: nat
  timer_next :: "nat option"
  timer_prev :: "nat option"

record 't timer_queue =
  timers :: "nat option"
  heap :: "('t \<times> nat) list"
  per_timer :: "nat \<Rightarrow> per_timer_data"

text \<open>The largest \<open>size_t\<close>, the index of a timer that is not in the heap.\<close>

definition no_index :: nat where
  "no_index = 2 ^ 64 - 1"

definition new_timer :: per_timer_data where
  "new_timer = \<lparr>timer_ops = [], heap_index = no_index, timer_next = None, timer_prev = None\<rparr>"

definition new_timer_queue :: "(nat \<Rightarrow> per_timer_data) \<Rightarrow> 't timer_queue" where
  "new_timer_queue d = \<lparr>timers = None, heap = [], per_timer = d\<rparr>"

definition set_timer :: "nat \<Rightarrow> (per_timer_data \<Rightarrow> per_timer_data) \<Rightarrow> 't timer_queue \<Rightarrow> 't timer_queue" where
  "set_timer t f s = s\<lparr>per_timer := (per_timer s)(t := f (per_timer s t))\<rparr>"

definition time_at :: "'t timer_queue \<Rightarrow> nat \<Rightarrow> 't" where
  "time_at s i = fst (heap s ! i)"

section \<open>The heap\<close>

definition swap_heap :: "nat \<Rightarrow> nat \<Rightarrow> 't timer_queue \<Rightarrow> 't timer_queue" where
  "swap_heap index1 index2 s =
     (let h = (heap s)[index1 := heap s ! index2, index2 := heap s ! index1];
          s1 = s\<lparr>heap := h\<rparr>;
          s2 = set_timer (snd (h ! index1)) (\<lambda>d. d\<lparr>heap_index := index1\<rparr>) s1
      in set_timer (snd (h ! index2)) (\<lambda>d. d\<lparr>heap_index := index2\<rparr>) s2)"

lemma set_timer_simps [simp]:
  "heap (set_timer t f s) = heap s" "timers (set_timer t f s) = timers s"
  "per_timer (set_timer t f s) = (per_timer s)(t := f (per_timer s t))"
  by (simp_all add: set_timer_def)

lemma heap_swap_heap:
  "heap (swap_heap i j s) = (heap s)[i := heap s ! j, j := heap s ! i]" "timers (swap_heap i j s) = timers s"
  by (simp_all add: swap_heap_def Let_def)

lemma length_swap_heap [simp]: "length (heap (swap_heap i j s)) = length (heap s)"
  by (simp add: heap_swap_heap)

function up_heap :: "nat \<Rightarrow> 't::linorder timer_queue \<Rightarrow> 't timer_queue" where
  "up_heap index s =
     (if index > 0 then
        let parent = (index - 1) div 2
        in if \<not> time_at s index < time_at s parent then s
           else up_heap parent (swap_heap index parent s)
      else s)"
  by pat_completeness auto
termination
  by (relation "measure fst") auto

function down_heap :: "nat \<Rightarrow> 't::linorder timer_queue \<Rightarrow> 't timer_queue" where
  "down_heap index s =
     (let child = index * 2 + 1
      in if child < length (heap s) then
           let min_child =
                 (if child + 1 = length (heap s) \<or> time_at s child < time_at s (child + 1)
                  then child else child + 1)
           in if time_at s index < time_at s min_child then s
              else down_heap min_child (swap_heap index min_child s)
         else s)"
  by pat_completeness auto
termination
  by (relation "measure (\<lambda>(index, s). length (heap s) - index)") (auto split: if_splits)

declare up_heap.simps [simp del] down_heap.simps [simp del]

section \<open>The operations\<close>

definition unlink_timer :: "nat \<Rightarrow> 't timer_queue \<Rightarrow> 't timer_queue" where
  "unlink_timer t s =
     (let s1 = (if timers s = Some t then s\<lparr>timers := timer_next (per_timer s t)\<rparr> else s);
          s2 = (case timer_prev (per_timer s1 t) of None \<Rightarrow> s1
                | Some p \<Rightarrow> set_timer p (\<lambda>d. d\<lparr>timer_next := timer_next (per_timer s1 t)\<rparr>) s1);
          s3 = (case timer_next (per_timer s2 t) of None \<Rightarrow> s2
                | Some n \<Rightarrow> set_timer n (\<lambda>d. d\<lparr>timer_prev := timer_prev (per_timer s2 t)\<rparr>) s2)
      in set_timer t (\<lambda>d. d\<lparr>timer_next := None, timer_prev := None\<rparr>) s3)"

definition remove_from_heap :: "nat \<Rightarrow> 't::linorder timer_queue \<Rightarrow> 't timer_queue" where
  "remove_from_heap t s =
     (let index = heap_index (per_timer s t)
      in if heap s \<noteq> [] \<and> index < length (heap s) then
           if index = length (heap s) - 1 then
             let s1 = set_timer t (\<lambda>d. d\<lparr>heap_index := no_index\<rparr>) s
             in s1\<lparr>heap := butlast (heap s1)\<rparr>
           else
             let s1 = set_timer t (\<lambda>d. d\<lparr>heap_index := no_index\<rparr>) (swap_heap index (length (heap s) - 1) s);
                 s2 = s1\<lparr>heap := butlast (heap s1)\<rparr>
             in if index > 0 \<and> time_at s2 index < time_at s2 ((index - 1) div 2)
                then up_heap index s2 else down_heap index s2
         else s)"

definition remove_timer :: "nat \<Rightarrow> 't::linorder timer_queue \<Rightarrow> 't timer_queue" where
  "remove_timer t s = unlink_timer t (remove_from_heap t s)"

text \<open>
  \<open>is_infinite\<close>: whether the time is positive infinity, which only the time type of boost has.
\<close>

definition enqueue_timer ::
  "('t \<Rightarrow> bool) \<Rightarrow> 't::linorder \<Rightarrow> nat \<Rightarrow> wait_op \<Rightarrow> 't timer_queue \<Rightarrow> 't timer_queue \<times> bool" where
  "enqueue_timer is_infinite time t op s =
     (let s1 =
            (if timer_prev (per_timer s t) = None \<and> timers s \<noteq> Some t then
               let s1 =
                     (if is_infinite time then set_timer t (\<lambda>d. d\<lparr>heap_index := no_index\<rparr>) s
                      else
                        let s1 = set_timer t (\<lambda>d. d\<lparr>heap_index := length (heap s)\<rparr>) s;
                            s2 = s1\<lparr>heap := heap s1 @ [(time, t)]\<rparr>
                        in up_heap (length (heap s2) - 1) s2);
                   s2 = set_timer t (\<lambda>d. d\<lparr>timer_next := timers s1, timer_prev := None\<rparr>) s1;
                   s3 = (case timers s2 of None \<Rightarrow> s2
                         | Some first \<Rightarrow> set_timer first (\<lambda>d. d\<lparr>timer_prev := Some t\<rparr>) s2)
               in s3\<lparr>timers := Some t\<rparr>
             else s);
          s2 = set_timer t (\<lambda>d. d\<lparr>timer_ops := timer_ops d @ [op]\<rparr>) s1
      in (s2, heap_index (per_timer s2 t) = 0 \<and> op_id (hd (timer_ops (per_timer s2 t))) = op_id op))"

definition queue_empty :: "'t timer_queue \<Rightarrow> bool" where
  "queue_empty s \<longleftrightarrow> timers s = None"

text \<open>The loop of \<open>get_ready_timers\<close>, which ends when the heap is empty or its first timer is late.\<close>

partial_function (option) ready_loop ::
  "'t::linorder \<Rightarrow> 't timer_queue \<Rightarrow> wait_op list \<Rightarrow> ('t timer_queue \<times> wait_op list) option" where
  "ready_loop now s ops =
     (if heap s \<noteq> [] \<and> \<not> now < time_at s 0
      then ready_loop now
             (remove_timer (snd (heap s ! 0)) (set_timer (snd (heap s ! 0)) (\<lambda>d. d\<lparr>timer_ops := []\<rparr>) s))
             (ops @ timer_ops (per_timer s (snd (heap s ! 0))))
      else Some (s, ops))"

definition get_ready_timers ::
  "'t::linorder \<Rightarrow> 't timer_queue \<Rightarrow> wait_op list \<Rightarrow> ('t timer_queue \<times> wait_op list) option" where
  "get_ready_timers now s ops = (if heap s \<noteq> [] then ready_loop now s ops else Some (s, ops))"

partial_function (option) all_loop ::
  "'t timer_queue \<Rightarrow> wait_op list \<Rightarrow> ('t timer_queue \<times> wait_op list) option" where
  "all_loop s ops =
     (case timers s of
        None \<Rightarrow> Some (s, ops)
      | Some t \<Rightarrow>
          all_loop
            (set_timer t (\<lambda>d. d\<lparr>timer_ops := [], timer_next := None, timer_prev := None\<rparr>)
              (s\<lparr>timers := timer_next (per_timer s t)\<rparr>))
            (ops @ timer_ops (per_timer s t)))"

definition get_all_timers ::
  "'t timer_queue \<Rightarrow> wait_op list \<Rightarrow> ('t timer_queue \<times> wait_op list) option" where
  "get_all_timers s ops = map_option (\<lambda>(s1, ops1). (s1\<lparr>heap := []\<rparr>, ops1)) (all_loop s ops)"

text \<open>The loop of \<open>cancel_timer\<close>: what stays on the timer, what is cancelled, and how many.\<close>

fun cancel_loop :: "nat \<Rightarrow> nat \<Rightarrow> wait_op list \<Rightarrow> wait_op list \<times> wait_op list \<times> nat" where
  "cancel_loop num_cancelled max_cancelled [] = ([], [], num_cancelled)"
| "cancel_loop num_cancelled max_cancelled (op # rest) =
     (if num_cancelled \<noteq> max_cancelled then
        let (stay, cancelled, n) = cancel_loop (Suc num_cancelled) max_cancelled rest
        in (stay, op\<lparr>op_ec := Operation_aborted\<rparr> # cancelled, n)
      else (op # rest, [], num_cancelled))"

definition cancel_timer ::
  "nat \<Rightarrow> nat \<Rightarrow> 't::linorder timer_queue \<Rightarrow> wait_op list \<Rightarrow> 't timer_queue \<times> wait_op list \<times> nat" where
  "cancel_timer t max_cancelled s ops =
     (if timer_prev (per_timer s t) \<noteq> None \<or> timers s = Some t then
        let (stay, cancelled, n) = cancel_loop 0 max_cancelled (timer_ops (per_timer s t));
            s1 = set_timer t (\<lambda>d. d\<lparr>timer_ops := stay\<rparr>) s
        in (if stay = [] then remove_timer t s1 else s1, ops @ cancelled, n)
      else (s, ops, 0))"

text \<open>
  \<open>move_timer\<close> in its three parts: the operations, the entry in the heap, the links.
\<close>

definition move_ops :: "nat \<Rightarrow> nat \<Rightarrow> 't timer_queue \<Rightarrow> 't timer_queue" where
  "move_ops target source s =
     (let moved = timer_ops (per_timer s source)
      in set_timer target (\<lambda>d. d\<lparr>timer_ops := timer_ops d @ moved\<rparr>)
           (set_timer source (\<lambda>d. d\<lparr>timer_ops := []\<rparr>) s))"

definition move_index :: "nat \<Rightarrow> nat \<Rightarrow> 't timer_queue \<Rightarrow> 't timer_queue" where
  "move_index target source s =
     (let index = heap_index (per_timer s source);
          s1 = set_timer source (\<lambda>d. d\<lparr>heap_index := no_index\<rparr>) (set_timer target (\<lambda>d. d\<lparr>heap_index := index\<rparr>) s)
      in if index < length (heap s1) then s1\<lparr>heap := (heap s1)[index := (time_at s1 index, target)]\<rparr> else s1)"

definition move_links :: "nat \<Rightarrow> nat \<Rightarrow> 't timer_queue \<Rightarrow> 't timer_queue" where
  "move_links target source s =
     (let s1 = (if timers s = Some source then s\<lparr>timers := Some target\<rparr> else s);
          s2 = (case timer_prev (per_timer s1 source) of None \<Rightarrow> s1
                | Some p \<Rightarrow> set_timer p (\<lambda>d. d\<lparr>timer_next := Some target\<rparr>) s1);
          s3 = (case timer_next (per_timer s2 source) of None \<Rightarrow> s2
                | Some n \<Rightarrow> set_timer n (\<lambda>d. d\<lparr>timer_prev := Some target\<rparr>) s2);
          source_data = per_timer s3 source
      in set_timer source (\<lambda>d. d\<lparr>timer_next := None, timer_prev := None\<rparr>)
           (set_timer target (\<lambda>d. d\<lparr>timer_next := timer_next source_data, timer_prev := timer_prev source_data\<rparr>) s3))"

definition move_timer :: "nat \<Rightarrow> nat \<Rightarrow> 't timer_queue \<Rightarrow> 't timer_queue" where
  "move_timer target source s = move_links target source (move_index target source (move_ops target source s))"

section \<open>Heap order\<close>

text \<open>
  The order of the times, and the order but for one position: the entry there may be too early for
  its parent (\<open>up_ok\<close>) or too late for its children (\<open>down_ok\<close>).
\<close>

definition parent :: "nat \<Rightarrow> nat" where
  "parent i = (i - 1) div 2"

definition heap_ordered :: "'t::linorder list \<Rightarrow> bool" where
  "heap_ordered ts \<longleftrightarrow> (\<forall>i < length ts. 0 < i \<longrightarrow> ts ! parent i \<le> ts ! i)"

definition up_ok :: "'t::linorder list \<Rightarrow> nat \<Rightarrow> bool" where
  "up_ok ts k \<longleftrightarrow> (\<forall>i < length ts. 0 < i \<longrightarrow> (i \<noteq> k \<longrightarrow> ts ! parent i \<le> ts ! i)
     \<and> (parent i = k \<longrightarrow> 0 < k \<longrightarrow> ts ! parent k \<le> ts ! i))"

definition down_ok :: "'t::linorder list \<Rightarrow> nat \<Rightarrow> bool" where
  "down_ok ts k \<longleftrightarrow> (\<forall>i < length ts. 0 < i \<longrightarrow> (parent i \<noteq> k \<longrightarrow> ts ! parent i \<le> ts ! i)
     \<and> (parent i = k \<longrightarrow> 0 < k \<longrightarrow> ts ! parent k \<le> ts ! i))"

abbreviation swapped :: "'t list \<Rightarrow> nat \<Rightarrow> nat \<Rightarrow> 't list" where
  "swapped ts i j \<equiv> ts[i := ts ! j, j := ts ! i]"

lemma parent_less [simp]: "0 < i \<Longrightarrow> parent i < i"
  by (auto simp: parent_def)

lemma parent_iff: "0 < i \<Longrightarrow> parent i = k \<longleftrightarrow> i = 2 * k + 1 \<or> i = 2 * k + 2"
  by (auto simp: parent_def)

lemma up_okD:
  assumes "up_ok ts k" and "i < length ts" and "0 < i"
  shows "i \<noteq> k \<Longrightarrow> ts ! parent i \<le> ts ! i" and "parent i = k \<Longrightarrow> 0 < k \<Longrightarrow> ts ! parent k \<le> ts ! i"
  using assms by (auto simp: up_ok_def)

lemma down_okD:
  assumes "down_ok ts k" and "i < length ts" and "0 < i"
  shows "parent i \<noteq> k \<Longrightarrow> ts ! parent i \<le> ts ! i" and "parent i = k \<Longrightarrow> 0 < k \<Longrightarrow> ts ! parent k \<le> ts ! i"
  using assms by (auto simp: down_ok_def)

lemma up_done: "up_ok ts k \<Longrightarrow> k = 0 \<or> ts ! parent k \<le> ts ! k \<Longrightarrow> heap_ordered ts"
  unfolding heap_ordered_def by (metis up_okD(1) less_irrefl)

lemma up_step:
  assumes up: "up_ok ts k" and k: "k < length ts" "0 < k" and less: "ts ! k < ts ! parent k"
  shows "up_ok (swapped ts k (parent k)) (parent k)"
proof -
  let ?p = "parent k"
  have p: "?p < length ts" "?p \<noteq> k" using k parent_less [OF k(2)] by linarith+
  have at: "swapped ts k ?p ! i = (if i = ?p then ts ! k else if i = k then ts ! ?p else ts ! i)" if "i < length ts" for i
    using that k p by (simp add: nth_list_update)
  show ?thesis
    unfolding up_ok_def
  proof (intro allI impI conjI)
    fix i assume "i < length (swapped ts k ?p)" "0 < i"
    then have i: "i < length ts" "0 < i" by simp_all
    have pi: "parent i < length ts" using i parent_less [OF i(2)] by linarith
    show "swapped ts k ?p ! parent i \<le> swapped ts k ?p ! i" if "i \<noteq> ?p"
    proof (cases "i = k")
      case True
      with less that p show ?thesis using at [OF i(1)] at [OF pi] by simp
    next
      case False
      note le = up_okD(1) [OF up i False]
      consider "parent i = k" | "parent i = ?p" "parent i \<noteq> k" | "parent i \<noteq> k" "parent i \<noteq> ?p" by blast
      then show ?thesis
      proof cases
        case 1
        from up_okD(2) [OF up i this k(2)] show ?thesis using at [OF i(1)] at [OF pi] False that 1 p by simp
      next
        case 2
        with le less show ?thesis using at [OF i(1)] at [OF pi] False that by simp
      next
        case 3
        with le show ?thesis using at [OF i(1)] at [OF pi] False that by simp
      qed
    qed
    show "swapped ts k ?p ! parent ?p \<le> swapped ts k ?p ! i" if "parent i = ?p" "0 < ?p"
    proof -
      have pp: "parent ?p < ?p" using that(2) by simp
      have "parent ?p < length ts" "parent ?p \<noteq> k" using pp p k parent_less [OF k(2)] by linarith+
      then have g: "swapped ts k ?p ! parent ?p = ts ! parent ?p" using at pp by simp
      have gp: "ts ! parent ?p \<le> ts ! ?p" by (rule up_okD(1) [OF up p(1) that(2) p(2)])
      show ?thesis
      proof (cases "i = k")
        case True
        then show ?thesis using g gp at [OF i(1)] p by simp
      next
        case False
        have "ts ! ?p \<le> ts ! i" using up_okD(1) [OF up i False] unfolding that(1) .
        moreover have "i \<noteq> ?p" using that(1) parent_less [OF i(2)] by (metis less_irrefl)
        ultimately show ?thesis using g gp at [OF i(1)] False by simp
      qed
    qed
  qed
qed

lemma down_done:
  "down_ok ts k \<Longrightarrow> (\<forall>i < length ts. 0 < i \<longrightarrow> parent i = k \<longrightarrow> ts ! k \<le> ts ! i) \<Longrightarrow> heap_ordered ts"
  unfolding heap_ordered_def by (metis down_okD(1))

lemma down_step:
  assumes down: "down_ok ts k" and m: "m < length ts" "0 < m" "parent m = k"
    and least: "\<forall>i < length ts. 0 < i \<longrightarrow> parent i = k \<longrightarrow> ts ! m \<le> ts ! i" and le: "ts ! m \<le> ts ! k"
  shows "down_ok (swapped ts k m) m"
proof -
  have k: "k < m" "k < length ts" using parent_less [OF m(2)] m by linarith+
  have at: "swapped ts k m ! i = (if i = m then ts ! k else if i = k then ts ! m else ts ! i)" if "i < length ts" for i
    using that k m by (simp add: nth_list_update)
  show ?thesis
    unfolding down_ok_def
  proof (intro allI impI conjI)
    fix i assume "i < length (swapped ts k m)" "0 < i"
    then have i: "i < length ts" "0 < i" by simp_all
    have pi: "parent i < length ts" using i parent_less [OF i(2)] by linarith
    show "swapped ts k m ! parent i \<le> swapped ts k m ! i" if "parent i \<noteq> m"
    proof -
      consider "i = m" | "i = k" | "i \<noteq> m" "i \<noteq> k" "parent i = k" | "i \<noteq> m" "i \<noteq> k" "parent i \<noteq> k" by blast
      then show ?thesis
      proof cases
        case 1
        with le show ?thesis using at [OF i(1)] at [OF pi] m k by simp
      next
        case 2
        have "ts ! parent k \<le> ts ! m" using down_okD(2) [OF down m] i 2 by simp
        moreover have "parent k \<noteq> k" using parent_less [of k] i(2) 2 by linarith
        ultimately show ?thesis using at [OF i(1)] at [OF pi] 2 that k by simp
      next
        case 3
        with least i show ?thesis using at [OF i(1)] at [OF pi] k by simp
      next
        case 4
        from down_okD(1) [OF down i 4(3)] show ?thesis using at [OF i(1)] at [OF pi] 4 that by simp
      qed
    qed
    show "swapped ts k m ! parent m \<le> swapped ts k m ! i" if "parent i = m" "0 < m"
    proof -
      have "i \<noteq> m" "i \<noteq> k" using that(1) parent_less [OF i(2)] k by linarith+
      moreover have "ts ! m \<le> ts ! i" using down_okD(1) [OF down i] that k by simp
      ultimately show ?thesis using at [OF i(1)] at [OF k(2)] m(3) k by simp
    qed
  qed
qed

lemma heap_first_least:
  assumes "heap_ordered ts" and "i < length ts"
  shows "ts ! 0 \<le> ts ! i"
  using assms(2)
proof (induction i rule: less_induct)
  case (less i)
  show ?case
  proof (cases "i = 0")
    case False
    then have p: "parent i < i" by simp
    with less.prems have "parent i < length ts" by linarith
    with p have "ts ! 0 \<le> ts ! parent i" by (rule less.IH)
    also have "\<dots> \<le> ts ! i" using assms(1) less.prems False by (simp add: heap_ordered_def)
    finally show ?thesis .
  qed simp
qed

section \<open>Moving entries\<close>

definition times :: "'t timer_queue \<Rightarrow> 't list" where
  "times s = map fst (heap s)"

definition indexed :: "'t timer_queue \<Rightarrow> bool" where
  "indexed s \<longleftrightarrow> (\<forall>i < length (heap s). heap_index (per_timer s (snd (heap s ! i))) = i)"

text \<open>The heap has the same entries, in another order, and nothing else has changed.\<close>

definition reordered :: "'t timer_queue \<Rightarrow> 't timer_queue \<Rightarrow> bool" where
  "reordered s s' \<longleftrightarrow> timers s' = timers s \<and> mset (heap s') = mset (heap s)
     \<and> (\<forall>t. timer_ops (per_timer s' t) = timer_ops (per_timer s t)
          \<and> timer_next (per_timer s' t) = timer_next (per_timer s t)
          \<and> timer_prev (per_timer s' t) = timer_prev (per_timer s t))
     \<and> (\<forall>t. t \<notin> snd ` set (heap s) \<longrightarrow> per_timer s' t = per_timer s t)
     \<and> (indexed s \<longrightarrow> indexed s')"

lemma reordered_refl: "reordered s s"
  by (simp add: reordered_def)

lemma reordered_trans: "reordered s s' \<Longrightarrow> reordered s' s'' \<Longrightarrow> reordered s s''"
  unfolding reordered_def by (metis set_mset_mset)

lemma length_times [simp]: "length (times s) = length (heap s)"
  by (simp add: times_def)

lemma time_at_times: "i < length (heap s) \<Longrightarrow> time_at s i = times s ! i"
  by (simp add: times_def time_at_def)

lemma times_swap_heap:
  "i < length (heap s) \<Longrightarrow> j < length (heap s) \<Longrightarrow> times (swap_heap i j s) = swapped (times s) i j"
  by (simp add: times_def heap_swap_heap map_update)

lemma indexed_inj:
  "indexed s \<Longrightarrow> i < length (heap s) \<Longrightarrow> j < length (heap s) \<Longrightarrow> snd (heap s ! i) = snd (heap s ! j) \<Longrightarrow> i = j"
  unfolding indexed_def by metis

lemma swap_heap_reordered:
  assumes i: "i < length (heap s)" and j: "j < length (heap s)"
  shows "reordered s (swap_heap i j s)"
proof -
  let ?h = "(heap s)[i := heap s ! j, j := heap s ! i]"
  have at: "?h ! k = (if k = j then heap s ! i else if k = i then heap s ! j else heap s ! k)"
    if "k < length (heap s)" for k
    using that i j by (simp add: nth_list_update)
  have hi: "?h ! i = heap s ! j" and hj: "?h ! j = heap s ! i" using at i j by simp_all
  have pt: "per_timer (swap_heap i j s) =
      (let d = (per_timer s)(snd (heap s ! j) := (per_timer s (snd (heap s ! j)))\<lparr>heap_index := i\<rparr>)
       in d(snd (heap s ! i) := (d (snd (heap s ! i)))\<lparr>heap_index := j\<rparr>))"
    unfolding swap_heap_def Let_def set_timer_simps hi hj by simp
  have "mset ?h = mset (heap s)" using i j by (simp add: mset_swap)
  moreover have "snd (heap s ! i) \<in> snd ` set (heap s)" "snd (heap s ! j) \<in> snd ` set (heap s)"
    using i j by simp_all
  moreover have "indexed (swap_heap i j s)" if ind: "indexed s"
    unfolding indexed_def length_swap_heap
  proof (intro allI impI)
    fix k assume k: "k < length (heap s)"
    have ne: "snd (heap s ! k) \<noteq> snd (heap s ! l)" if "k \<noteq> l" "l < length (heap s)" for l
      using indexed_inj [OF ind k that(2)] that(1) by blast
    have hk: "heap (swap_heap i j s) ! k = ?h ! k" by (simp add: heap_swap_heap)
    consider "k = j" | "k = i" "k \<noteq> j" | "k \<noteq> i" "k \<noteq> j" by blast
    then show "heap_index (per_timer (swap_heap i j s) (snd (heap (swap_heap i j s) ! k))) = k"
    proof cases
      case 1
      then show ?thesis unfolding hk pt at [OF k] by (simp add: Let_def)
    next
      case 2
      with ne [OF 2(2) j] show ?thesis unfolding hk pt at [OF k] by (simp add: Let_def)
    next
      case 3
      with ne [OF 3(1) i] ne [OF 3(2) j] ind k show ?thesis
        unfolding hk pt at [OF k] by (simp add: Let_def indexed_def)
    qed
  qed
  ultimately show ?thesis
    by (auto simp: reordered_def heap_swap_heap pt Let_def)
qed

lemma reordered_length: "reordered s s' \<Longrightarrow> length (heap s') = length (heap s)"
  unfolding reordered_def by (metis size_mset)

lemma up_heap_unfold:
  "k < length (heap s) \<Longrightarrow> up_heap k s =
     (if 0 < k \<and> times s ! k < times s ! parent k then up_heap (parent k) (swap_heap k (parent k) s) else s)"
proof -
  assume k: "k < length (heap s)"
  then have "0 < k \<Longrightarrow> parent k < length (heap s)" using parent_less [of k] by linarith
  with k show ?thesis
    unfolding up_heap.simps [of k s] Let_def parent_def [symmetric] by (simp add: time_at_times)
qed

lemma up_heap_result:
  "up_ok (times s) k \<Longrightarrow> k < length (heap s) \<Longrightarrow> reordered s (up_heap k s) \<and> heap_ordered (times (up_heap k s))"
proof (induction k arbitrary: s rule: less_induct)
  case (less k)
  show ?case
  proof (cases "0 < k \<and> times s ! k < times s ! parent k")
    case True
    then have p: "parent k < k" "parent k < length (heap s)" using less.prems(2) parent_less [of k] by linarith+
    have "up_ok (times (swap_heap k (parent k) s)) (parent k)"
      unfolding times_swap_heap [OF less.prems(2) p(2)] using less.prems True by (intro up_step) simp_all
    from less.IH [OF p(1) this] p(2) swap_heap_reordered [OF less.prems(2) p(2)] True show ?thesis
      by (auto simp: up_heap_unfold [OF less.prems(2)] intro: reordered_trans)
  next
    case False
    then have "heap_ordered (times s)" by (intro up_done [OF less.prems(1)]) auto
    with False show ?thesis by (simp add: up_heap_unfold [OF less.prems(2)] reordered_refl if_not_P del: not_less)
  qed
qed

definition min_child :: "'t::linorder timer_queue \<Rightarrow> nat \<Rightarrow> nat" where
  "min_child s k = (if k * 2 + 1 + 1 = length (heap s) \<or> time_at s (k * 2 + 1) < time_at s (k * 2 + 1 + 1)
     then k * 2 + 1 else k * 2 + 1 + 1)"

lemma min_child:
  assumes "k * 2 + 1 < length (heap s)"
  shows "min_child s k < length (heap s)" "0 < min_child s k" "parent (min_child s k) = k"
    "\<forall>i < length (times s). 0 < i \<longrightarrow> parent i = k \<longrightarrow> times s ! min_child s k \<le> times s ! i"
  using assms by (auto simp: min_child_def parent_iff time_at_times mult.commute [of k 2] split: if_splits)

lemma down_heap_unfold:
  "down_heap k s =
     (if k * 2 + 1 < length (heap s) then
        if times s ! k < times s ! min_child s k then s else down_heap (min_child s k) (swap_heap k (min_child s k) s)
      else s)"
proof -
  have "k * 2 + 1 < length (heap s) \<Longrightarrow> time_at s k < time_at s (min_child s k) \<longleftrightarrow> times s ! k < times s ! min_child s k"
    using min_child(1) [of k s] by (simp add: time_at_times)
  then show ?thesis
    unfolding down_heap.simps [of k s] Let_def min_child_def [symmetric] by simp
qed

lemma down_heap_result:
  "down_ok (times s) k \<Longrightarrow> reordered s (down_heap k s) \<and> heap_ordered (times (down_heap k s))"
proof (induction "length (heap s) - k" arbitrary: k s rule: less_induct)
  case less
  show ?case
  proof (cases "k * 2 + 1 < length (heap s)")
    case False
    then have "heap_ordered (times s)" by (intro down_done [OF less.prems]) (auto simp: parent_iff)
    with False show ?thesis by (subst (1 2) down_heap_unfold) (simp add: reordered_refl)
  next
    case True
    note m = min_child [OF True]
    have k: "k < length (heap s)" "k < min_child s k" using True m(2,3) parent_less [OF m(2)] by linarith+
    show ?thesis
    proof (cases "times s ! k < times s ! min_child s k")
      case stop: True
      then have "heap_ordered (times s)" using m(4) by (intro down_done [OF less.prems]) force
      with True stop show ?thesis by (subst (1 2) down_heap_unfold) (simp add: reordered_refl)
    next
      case go: False
      have "down_ok (times (swap_heap k (min_child s k) s)) (min_child s k)"
        unfolding times_swap_heap [OF k(1) m(1)] using m go
        by (intro down_step [OF less.prems]) simp_all
      from less.hyps [OF _ this] k m(1) swap_heap_reordered [OF k(1) m(1)] True go show ?thesis
        by (subst (1 2) down_heap_unfold) (auto intro: reordered_trans)
    qed
  qed
qed

section \<open>The heap of a consistent queue\<close>

abbreviation in_heap :: "'t timer_queue \<Rightarrow> nat set" where
  "in_heap s \<equiv> snd ` set (heap s)"

text \<open>The order, the indices of the timers in the heap, and \<open>no_index\<close> in every other timer.\<close>

definition heap_inv :: "'t::linorder timer_queue \<Rightarrow> bool" where
  "heap_inv s \<longleftrightarrow> heap_ordered (times s) \<and> indexed s \<and> length (heap s) < no_index
     \<and> (\<forall>t. t \<notin> in_heap s \<longrightarrow> heap_index (per_timer s t) = no_index)"

text \<open>Neither the list of active timers nor the operations change.\<close>

definition same_lists :: "'t timer_queue \<Rightarrow> 't timer_queue \<Rightarrow> bool" where
  "same_lists s s' \<longleftrightarrow> timers s' = timers s
     \<and> (\<forall>t. timer_ops (per_timer s' t) = timer_ops (per_timer s t)
          \<and> timer_next (per_timer s' t) = timer_next (per_timer s t)
          \<and> timer_prev (per_timer s' t) = timer_prev (per_timer s t))"

lemma reorderedD:
  assumes "reordered s s'"
  shows "same_lists s s'" "mset (heap s') = mset (heap s)" "in_heap s' = in_heap s" "indexed s \<Longrightarrow> indexed s'"
    "t \<notin> in_heap s \<Longrightarrow> per_timer s' t = per_timer s t"
  using assms unfolding reordered_def same_lists_def by (simp_all, metis set_mset_mset)

lemma reordered_heap_inv:
  assumes "reordered s s'" and "heap_ordered (times s')" and "indexed s" and "length (heap s) < no_index"
    and "\<forall>t. t \<notin> in_heap s \<longrightarrow> heap_index (per_timer s t) = no_index"
  shows "heap_inv s'"
  unfolding heap_inv_def using assms reorderedD [OF assms(1)] reordered_length [OF assms(1)] by metis

lemma up_ok_snoc: "heap_ordered ts \<Longrightarrow> up_ok (ts @ [x]) (length ts)"
  unfolding up_ok_def heap_ordered_def
proof (intro allI impI conjI)
  fix i assume ord: "\<forall>i<length ts. 0 < i \<longrightarrow> ts ! parent i \<le> ts ! i" and i: "i < length (ts @ [x])" "0 < i"
  have p: "parent i < i" using i(2) by simp
  show "(ts @ [x]) ! parent i \<le> (ts @ [x]) ! i" if "i \<noteq> length ts"
    using ord i p that by (simp add: nth_append)
  show "(ts @ [x]) ! parent (length ts) \<le> (ts @ [x]) ! i" if "parent i = length ts"
    using that i p by simp
qed

lemma heap_push:
  assumes inv: "heap_inv s" and t: "t \<notin> in_heap s" and room: "Suc (length (heap s)) < no_index"
    and s1: "s1 = (set_timer t (\<lambda>d. d\<lparr>heap_index := length (heap s)\<rparr>) s)\<lparr>heap := heap s @ [(time, t)]\<rparr>"
  shows "heap_inv (up_heap (length (heap s)) s1)" and "same_lists s (up_heap (length (heap s)) s1)"
    and "mset (heap (up_heap (length (heap s)) s1)) = mset (heap s) + {#(time, t)#}"
proof -
  have ts: "times s1 = times s @ [time]" by (simp add: times_def s1)
  have upok: "up_ok (times s1) (length (heap s))"
    using up_ok_snoc [of "times s" time] inv by (simp add: ts heap_inv_def)
  have res: "reordered s1 (up_heap (length (heap s)) s1)" "heap_ordered (times (up_heap (length (heap s)) s1))"
    using up_heap_result [OF upok] by (simp_all add: s1)
  have "indexed s1"
    using inv t by (auto simp: s1 indexed_def heap_inv_def nth_append less_Suc_eq)
  moreover have "length (heap s1) < no_index" using room by (simp add: s1)
  moreover have "\<forall>u. u \<notin> in_heap s1 \<longrightarrow> heap_index (per_timer s1 u) = no_index"
    using inv by (auto simp: s1 heap_inv_def)
  ultimately show "heap_inv (up_heap (length (heap s)) s1)" by (rule reordered_heap_inv [OF res])
  show "same_lists s (up_heap (length (heap s)) s1)"
    using reorderedD(1) [OF res(1)] by (simp add: same_lists_def s1)
  show "mset (heap (up_heap (length (heap s)) s1)) = mset (heap s) + {#(time, t)#}"
    using reorderedD(2) [OF res(1)] by (simp add: s1)
qed

text \<open>Taking the last entry off the heap.\<close>

definition drop_last :: "nat \<Rightarrow> 't timer_queue \<Rightarrow> 't timer_queue" where
  "drop_last t s = (set_timer t (\<lambda>d. d\<lparr>heap_index := no_index\<rparr>) s)\<lparr>heap := butlast (heap s)\<rparr>"

lemma drop_last_indexed:
  assumes "indexed s" and "heap s \<noteq> []" and "snd (last (heap s)) = t"
  shows "indexed (drop_last t s)"
  unfolding indexed_def
proof (intro allI impI)
  fix i assume i: "i < length (heap (drop_last t s))"
  then have "i < length (heap s)" "i \<noteq> length (heap s) - 1" by (simp_all add: drop_last_def)
  then have "snd (heap s ! i) \<noteq> t"
    using indexed_inj [OF assms(1), of i "length (heap s) - 1"] assms(2,3) by (auto simp: last_conv_nth)
  with assms(1) i show "heap_index (per_timer (drop_last t s) (snd (heap (drop_last t s) ! i))) = i"
    by (simp add: drop_last_def indexed_def nth_butlast)
qed

lemma drop_last_heap:
  assumes "heap s \<noteq> []" and "snd (last (heap s)) = t"
  shows "in_heap s \<subseteq> insert t (in_heap (drop_last t s))"
proof -
  have "in_heap s = snd ` set (butlast (heap s) @ [last (heap s)])" using assms(1) by simp
  with assms(2) show ?thesis by (simp add: drop_last_def del: append_butlast_last_id)
qed

text \<open>The times when the last entry has replaced the one at \<open>i\<close>.\<close>

lemma replaced_ok:
  assumes ord: "heap_ordered ts" and i: "i < length ts - 1" and ts2: "ts2 = (butlast ts)[i := last ts]"
  shows "0 < i \<Longrightarrow> ts2 ! i < ts2 ! parent i \<Longrightarrow> up_ok ts2 i"
    and "\<not> (0 < i \<and> ts2 ! i < ts2 ! parent i) \<Longrightarrow> down_ok ts2 i"
proof -
  have at: "ts2 ! j = (if j = i then last ts else ts ! j)" if "j < length ts - 1" for j
    using that i by (simp add: ts2 nth_list_update nth_butlast)
  have len: "length ts2 = length ts - 1" by (simp add: ts2)
  have le: "ts ! parent j \<le> ts ! j" if "j < length ts2" "0 < j" for j
    using ord that len by (simp add: heap_ordered_def)
  have two: "ts ! parent i \<le> ts ! j" if "j < length ts2" "0 < j" "parent j = i" "0 < i" for j
    using le [OF that(1,2)] le [of i] that i len by simp
  have pl: "parent j < length ts - 1" if "j < length ts2" "0 < j" for j
    using that len parent_less [OF that(2)] by linarith
  have pi: "0 < i \<Longrightarrow> ts2 ! parent i = ts ! parent i" using pl [of i] i len at parent_less [of i] by (simp add: less_imp_neq)
  show "up_ok ts2 i" if g: "0 < i" "ts2 ! i < ts2 ! parent i"
    unfolding up_ok_def
  proof (intro allI impI conjI)
    fix j assume j: "j < length ts2" "0 < j"
    have lt: "last ts < ts ! parent i" using g pi at [OF i] by simp
    show "ts2 ! parent j \<le> ts2 ! j" if "j \<noteq> i"
      using le [OF j] two [OF j] lt that at [of j] at [OF pl [OF j]] j len g(1) by (cases "parent j = i") auto
    show "ts2 ! parent i \<le> ts2 ! j" if "parent j = i" "0 < i"
      using two [OF j that] pi [OF that(2)] at [of j] j len that(1) parent_less [OF j(2)] by auto
  qed
  show "down_ok ts2 i" if g: "\<not> (0 < i \<and> ts2 ! i < ts2 ! parent i)"
    unfolding down_ok_def
  proof (intro allI impI conjI)
    fix j assume j: "j < length ts2" "0 < j"
    show "ts2 ! parent j \<le> ts2 ! j" if "parent j \<noteq> i"
      using le [OF j] that at [of j] at [OF pl [OF j]] j len g by (cases "j = i") (auto simp: not_less)
    show "ts2 ! parent i \<le> ts2 ! j" if "parent j = i" "0 < i"
      using two [OF j that] pi [OF that(2)] at [of j] j len that(1) parent_less [OF j(2)] by auto
  qed
qed

lemma distinct_heap: "indexed s \<Longrightarrow> distinct (map snd (heap s))"
  by (auto simp: distinct_conv_nth dest: indexed_inj)

lemma heap_at_index:
  assumes "heap_inv s" and "t \<in> in_heap s"
  shows "heap_index (per_timer s t) < length (heap s)" and "snd (heap s ! heap_index (per_timer s t)) = t"
proof -
  from assms(2) obtain i where "i < length (heap s)" "t = snd (heap s ! i)" by (auto simp: in_set_conv_nth)
  with assms(1) show "heap_index (per_timer s t) < length (heap s)" "snd (heap s ! heap_index (per_timer s t)) = t"
    by (simp_all add: heap_inv_def indexed_def)
qed

lemma times_drop_last: "times (drop_last t s) = butlast (times s)"
  by (simp add: times_def drop_last_def map_butlast)

lemma drop_last_facts:
  assumes "indexed s" and "heap s \<noteq> []" and "snd (last (heap s)) = t" and "length (heap s) < no_index"
    and "\<forall>u. u \<notin> in_heap s \<longrightarrow> heap_index (per_timer s u) = no_index"
  shows "indexed (drop_last t s)" "length (heap (drop_last t s)) < no_index"
    "\<forall>u. u \<notin> in_heap (drop_last t s) \<longrightarrow> heap_index (per_timer (drop_last t s) u) = no_index"
    "mset (heap s) = add_mset (last (heap s)) (mset (heap (drop_last t s)))" "same_lists s (drop_last t s)"
proof -
  show "indexed (drop_last t s)" using assms(1-3) by (rule drop_last_indexed)
  show "length (heap (drop_last t s)) < no_index" using assms(4) by (simp add: drop_last_def)
  show "\<forall>u. u \<notin> in_heap (drop_last t s) \<longrightarrow> heap_index (per_timer (drop_last t s) u) = no_index"
  proof (intro allI impI)
    fix u assume out: "u \<notin> in_heap (drop_last t s)"
    show "heap_index (per_timer (drop_last t s) u) = no_index"
    proof (cases "u = t")
      case False
      then have "u \<notin> in_heap s" using drop_last_heap [OF assms(2,3)] out by blast
      with assms(5) False show ?thesis by (simp add: drop_last_def)
    qed (simp add: drop_last_def)
  qed
  have "mset (heap s) = mset (butlast (heap s) @ [last (heap s)])" using assms(2) by simp
  then show "mset (heap s) = add_mset (last (heap s)) (mset (heap (drop_last t s)))" by (simp add: drop_last_def)
  show "same_lists s (drop_last t s)" by (simp add: drop_last_def same_lists_def)
qed

lemma heap_ordered_butlast: "heap_ordered ts \<Longrightarrow> heap_ordered (butlast ts)"
  unfolding heap_ordered_def
proof (intro allI impI)
  fix i assume ord: "\<forall>i<length ts. 0 < i \<longrightarrow> ts ! parent i \<le> ts ! i" and i: "i < length (butlast ts)" "0 < i"
  then have "parent i < length (butlast ts)" using parent_less [OF i(2)] by linarith
  with ord i show "butlast ts ! parent i \<le> butlast ts ! i" by (simp add: nth_butlast)
qed

lemma same_lists_trans: "same_lists s s' \<Longrightarrow> same_lists s' s'' \<Longrightarrow> same_lists s s''"
  by (simp add: same_lists_def)

lemma remove_from_heap_inner:
  assumes inv: "heap_inv s" and i: "i = heap_index (per_timer s t)" "i < length (heap s) - 1" and at: "snd (heap s ! i) = t"
    and s2: "s2 = drop_last t (swap_heap i (length (heap s) - 1) s)"
  shows "remove_from_heap t s =
      (if 0 < i \<and> times s2 ! i < times s2 ! parent i then up_heap i s2 else down_heap i s2)"
    and "heap_inv (remove_from_heap t s)" and "same_lists s (remove_from_heap t s)"
    and "mset (heap s) = add_mset (heap s ! i) (mset (heap (remove_from_heap t s)))"
proof -
  let ?l = "length (heap s) - 1"
  let ?sw = "swap_heap i ?l s"
  have len: "i < length (heap s)" "?l < length (heap s)" "heap s \<noteq> []" using i(2) by auto
  have r: "reordered s ?sw" by (rule swap_heap_reordered [OF len(1,2)])
  have hs: "heap ?sw = (heap s)[i := last (heap s), ?l := heap s ! i]"
    using len(3) by (simp add: heap_swap_heap last_conv_nth)
  have ne: "heap ?sw \<noteq> []" using length_swap_heap [of i ?l s] len(3) by (metis length_0_conv)
  have l: "last (heap ?sw) = heap s ! i" unfolding hs using len(3) by (simp add: last_list_update)
  have facts: "indexed s" "length (heap s) < no_index" "\<forall>u. u \<notin> in_heap s \<longrightarrow> heap_index (per_timer s u) = no_index"
    using inv by (simp_all add: heap_inv_def)
  have sw: "indexed ?sw" "length (heap ?sw) < no_index" "\<forall>u. u \<notin> in_heap ?sw \<longrightarrow> heap_index (per_timer ?sw u) = no_index"
    using facts reorderedD [OF r] by simp_all
  note d = drop_last_facts [OF sw(1) ne _ sw(2,3), of t, unfolded l, OF at, folded s2]
  have lt: "times s ! ?l = last (times s)" using len(3) by (simp add: times_def last_map last_conv_nth)
  have "times s2 = (butlast (times s))[i := last (times s)]"
    unfolding s2 times_drop_last times_swap_heap [OF len(1,2)] lt using i(2)
    by (simp add: butlast_list_update)
  note ok = replaced_ok [OF _ _ this]
  have ord: "heap_ordered (times s)" "i < length (times s) - 1" using inv i(2) by (simp_all add: heap_inv_def)
  have il: "i < length (heap s2)" using i(2) by (simp add: s2 drop_last_def)
  then have pl: "0 < i \<Longrightarrow> parent i < length (heap s2)" using parent_less [of i] by linarith
  show eq: "remove_from_heap t s =
      (if 0 < i \<and> times s2 ! i < times s2 ! parent i then up_heap i s2 else down_heap i s2)"
    unfolding remove_from_heap_def i(1) [symmetric] Let_def parent_def [symmetric] set_timer_simps
      drop_last_def [symmetric] s2 [symmetric]
    using i(2) len il pl by (cases "0 < i") (simp_all add: time_at_times)
  have res: "reordered s2 (remove_from_heap t s) \<and> heap_ordered (times (remove_from_heap t s))"
    using up_heap_result [OF ok(1) [OF ord] il] down_heap_result [OF ok(2) [OF ord]] by (simp add: eq)
  show "heap_inv (remove_from_heap t s)"
    by (rule reordered_heap_inv [OF conjunct1 [OF res] conjunct2 [OF res] d(1-3)])
  show "same_lists s (remove_from_heap t s)"
    using same_lists_trans [OF reorderedD(1) [OF r] same_lists_trans [OF d(5) reorderedD(1)]] res by blast
  show "mset (heap s) = add_mset (heap s ! i) (mset (heap (remove_from_heap t s)))"
    using d(4) reorderedD(2) [OF r] reorderedD(2) [of s2] res by simp
qed

lemma remove_from_heap_result:
  assumes inv: "heap_inv s"
  shows "heap_inv (remove_from_heap t s)" and "same_lists s (remove_from_heap t s)"
    and "t \<notin> in_heap s \<Longrightarrow> remove_from_heap t s = s"
    and "t \<in> in_heap s \<Longrightarrow>
      mset (heap s) = add_mset (heap s ! heap_index (per_timer s t)) (mset (heap (remove_from_heap t s)))"
proof -
  let ?i = "heap_index (per_timer s t)"
  show out: "remove_from_heap t s = s" if "t \<notin> in_heap s"
    using inv that by (simp add: remove_from_heap_def heap_inv_def Let_def)
  have main: "heap_inv (remove_from_heap t s) \<and> same_lists s (remove_from_heap t s)
      \<and> mset (heap s) = add_mset (heap s ! ?i) (mset (heap (remove_from_heap t s)))" if t: "t \<in> in_heap s"
  proof (cases "?i = length (heap s) - 1")
    case False
    with heap_at_index [OF inv t] have "?i < length (heap s) - 1" by linarith
    from remove_from_heap_inner(2-4) [OF inv refl this heap_at_index(2) [OF inv t] refl] show ?thesis by blast
  next
    case True
    have ne: "heap s \<noteq> []" using t by auto
    have eq: "remove_from_heap t s = drop_last t s"
      using True ne by (simp add: remove_from_heap_def drop_last_def Let_def)
    have l: "last (heap s) = heap s ! ?i" using True ne by (simp add: last_conv_nth)
    have facts: "indexed s" "length (heap s) < no_index" "\<forall>u. u \<notin> in_heap s \<longrightarrow> heap_index (per_timer s u) = no_index"
      using inv by (simp_all add: heap_inv_def)
    note d = drop_last_facts [OF facts(1) ne _ facts(2,3), of t, unfolded l, OF heap_at_index(2) [OF inv t]]
    have "heap_inv (drop_last t s)"
      using d(1-3) inv by (simp add: heap_inv_def times_drop_last heap_ordered_butlast)
    with d(4,5) show ?thesis by (simp add: eq)
  qed
  show "heap_inv (remove_from_heap t s)" using main inv out by (cases "t \<in> in_heap s") simp_all
  show "same_lists s (remove_from_heap t s)" using main out by (cases "t \<in> in_heap s") (simp_all add: same_lists_def)
  show "t \<in> in_heap s \<Longrightarrow> mset (heap s) = add_mset (heap s ! ?i) (mset (heap (remove_from_heap t s)))"
    using main by simp
qed

lemma remove_from_heap_in_heap:
  assumes inv: "heap_inv s"
  shows "in_heap (remove_from_heap t s) = in_heap s - {t}"
proof (cases "t \<in> in_heap s")
  case True
  let ?s = "remove_from_heap t s"
  note m = remove_from_heap_result(4) [OF inv True] and at = heap_at_index(2) [OF inv True]
  have "image_mset snd (mset (heap s)) = add_mset t (image_mset snd (mset (heap ?s)))" by (simp add: m at)
  then have ms: "mset (map snd (heap s)) = mset (t # map snd (heap ?s))" by simp
  then have "distinct (t # map snd (heap ?s))"
    using distinct_heap [of s] inv mset_eq_imp_distinct_iff [OF ms] by (simp add: heap_inv_def)
  moreover have "set (map snd (heap s)) = set (t # map snd (heap ?s))" using ms by (rule mset_eq_setD)
  ultimately show ?thesis by auto
next
  case False
  then show ?thesis using remove_from_heap_result(3) [OF inv] by simp
qed

section \<open>The list of active timers\<close>

text \<open>A stretch of the list: the timer before it, its timers, and the timer after it.\<close>

abbreviation linked :: "(nat \<Rightarrow> per_timer_data) \<Rightarrow> nat option \<Rightarrow> nat list \<Rightarrow> nat option \<Rightarrow> bool" where
  "linked d \<equiv> doubly (\<lambda>t. timer_next (d t)) (\<lambda>t. timer_prev (d t))"

lemma linked_cong:
  "(\<And>x. x \<in> set xs \<Longrightarrow> timer_next (d' x) = timer_next (d x) \<and> timer_prev (d' x) = timer_prev (d x)) \<Longrightarrow>
     linked d' p xs e = linked d p xs e"
  by (rule doubly_cong) simp

definition lists_inv :: "'t timer_queue \<Rightarrow> nat list \<Rightarrow> bool" where
  "lists_inv s xs \<longleftrightarrow> distinct xs \<and> timers s = head_or xs None \<and> linked (per_timer s) None xs None
     \<and> (\<forall>t. t \<notin> set xs \<longrightarrow> timer_next (per_timer s t) = None \<and> timer_prev (per_timer s t) = None)"

lemma same_lists_inv: "same_lists s s' \<Longrightarrow> lists_inv s' xs = lists_inv s xs"
  using linked_cong [of xs "per_timer s'" "per_timer s"] by (simp add: same_lists_def lists_inv_def)

lemma active_iff:
  assumes "lists_inv s xs"
  shows "timer_prev (per_timer s t) \<noteq> None \<or> timers s = Some t \<longleftrightarrow> t \<in> set xs"
proof (cases xs)
  case (Cons x ys)
  with assms doubly_later_prev [of _ "\<lambda>u. timer_prev (per_timer s u)" x ys None t] show ?thesis
    by (auto simp: lists_inv_def)
qed (use assms in \<open>auto simp: lists_inv_def\<close>)

lemma unlink_fields:
  assumes "timer_prev (per_timer s t) \<noteq> Some t" and "timer_next (per_timer s t) \<noteq> Some t"
  shows "timer_next (per_timer (unlink_timer t s) u) =
      (if u = t then None else if timer_prev (per_timer s t) = Some u then timer_next (per_timer s t)
       else timer_next (per_timer s u))"
    and "timer_prev (per_timer (unlink_timer t s) u) =
      (if u = t then None else if timer_next (per_timer s t) = Some u then timer_prev (per_timer s t)
       else timer_prev (per_timer s u))"
    and "timers (unlink_timer t s) = (if timers s = Some t then timer_next (per_timer s t) else timers s)"
  using assms by (auto simp: unlink_timer_def Let_def split: option.splits)

lemma unlink_other [simp]:
  "heap (unlink_timer t s) = heap s"
  "timer_ops (per_timer (unlink_timer t s) u) = timer_ops (per_timer s u)"
  "heap_index (per_timer (unlink_timer t s) u) = heap_index (per_timer s u)"
  by (auto simp: unlink_timer_def Let_def split: option.splits)

lemma unlink_heap_inv [simp]: "heap_inv (unlink_timer t s) = heap_inv s"
  by (simp add: heap_inv_def times_def indexed_def)

lemma unlink_lists:
  assumes inv: "lists_inv s (us @ t # vs)"
  shows "lists_inv (unlink_timer t s) (us @ vs)"
proof -
  let ?d = "per_timer s" and ?d' = "per_timer (unlink_timer t s)"
  from inv have dist: "distinct (us @ t # vs)" and l: "linked ?d None us (Some t)"
    "timer_prev (?d t) = last_or us None" "timer_next (?d t) = head_or vs None" "linked ?d (Some t) vs None"
    and first: "timers s = head_or us (Some t)"
    and out: "\<And>u. u \<notin> set (us @ t # vs) \<Longrightarrow> timer_next (?d u) = None \<and> timer_prev (?d u) = None"
    by (auto simp: lists_inv_def)
  have ne: "timer_prev (?d t) \<noteq> Some t" "timer_next (?d t) \<noteq> Some t"
    using dist last_in_set [of us] by (auto simp: l last_or_def head_or_def split: list.splits)
  note f = unlink_fields [OF ne]
  have "timers (unlink_timer t s) = head_or (us @ vs) None"
    using dist by (cases us) (auto simp: f first l)
  moreover have "linked ?d' None (us @ vs) None"
    by (rule doubly_unlink [OF dist]) (use inv dist in \<open>auto simp: f lists_inv_def\<close>)
  moreover have "timer_next (?d' u) = None \<and> timer_prev (?d' u) = None" if "u \<notin> set (us @ vs)" for u
    using out [of u] that last_in_set [of us] by (auto simp: f l last_or_def head_or_def split: list.splits if_splits)
  ultimately show ?thesis using dist by (simp add: lists_inv_def)
qed

section \<open>A consistent queue\<close>

text \<open>
  The active timers are those with operations, every timer in the heap is active, and the list and
  the heap are as they should be.
\<close>

definition tq_inv :: "'t::linorder timer_queue \<Rightarrow> nat list \<Rightarrow> bool" where
  "tq_inv s xs \<longleftrightarrow> heap_inv s \<and> lists_inv s xs \<and> in_heap s \<subseteq> set xs
     \<and> (\<forall>t. t \<in> set xs \<longleftrightarrow> timer_ops (per_timer s t) \<noteq> [])"

lemma tq_invD:
  assumes "tq_inv s xs"
  shows "heap_inv s" "lists_inv s xs" "in_heap s \<subseteq> set xs" "t \<in> set xs \<longleftrightarrow> timer_ops (per_timer s t) \<noteq> []"
  using assms by (simp_all add: tq_inv_def)

abbreviation set_ops :: "nat \<Rightarrow> wait_op list \<Rightarrow> 't timer_queue \<Rightarrow> 't timer_queue" where
  "set_ops t ops s \<equiv> set_timer t (\<lambda>d. d\<lparr>timer_ops := ops\<rparr>) s"

lemma set_ops_fields:
  "heap_index (per_timer (set_timer t (\<lambda>d. d\<lparr>timer_ops := f d\<rparr>) s) u) = heap_index (per_timer s u)"
  "timer_next (per_timer (set_timer t (\<lambda>d. d\<lparr>timer_ops := f d\<rparr>) s) u) = timer_next (per_timer s u)"
  "timer_prev (per_timer (set_timer t (\<lambda>d. d\<lparr>timer_ops := f d\<rparr>) s) u) = timer_prev (per_timer s u)"
  by simp_all

lemma set_ops_heap_inv [simp]: "heap_inv (set_timer t (\<lambda>d. d\<lparr>timer_ops := f d\<rparr>) s) = heap_inv s"
  by (simp add: heap_inv_def times_def indexed_def set_ops_fields del: set_timer_simps(3))

lemma set_ops_lists_inv [simp]: "lists_inv (set_timer t (\<lambda>d. d\<lparr>timer_ops := f d\<rparr>) s) xs = lists_inv s xs"
proof -
  have "linked (per_timer (set_timer t (\<lambda>d. d\<lparr>timer_ops := f d\<rparr>) s)) None xs None = linked (per_timer s) None xs None"
    by (rule linked_cong) (simp add: set_ops_fields del: set_timer_simps(3))
  then show ?thesis by (simp add: lists_inv_def set_ops_fields del: set_timer_simps(3))
qed

lemma tq_inv_new:
  assumes "\<forall>t. d t = new_timer"
  shows "tq_inv (new_timer_queue d) []"
  using assms
  by (auto simp: tq_inv_def heap_inv_def lists_inv_def new_timer_queue_def new_timer_def times_def heap_ordered_def
      indexed_def no_index_def)

lemma remove_timer_facts:
  assumes inv: "heap_inv s" and xs: "lists_inv s xs" and t: "t \<in> set xs"
  shows "heap_inv (remove_timer t s)" and "lists_inv (remove_timer t s) (remove1 t xs)"
    and "timer_ops (per_timer (remove_timer t s) u) = timer_ops (per_timer s u)"
    and "in_heap (remove_timer t s) = in_heap s - {t}"
    and "t \<in> in_heap s \<Longrightarrow>
      mset (heap s) = add_mset (heap s ! heap_index (per_timer s t)) (mset (heap (remove_timer t s)))"
    and "t \<notin> in_heap s \<Longrightarrow> heap (remove_timer t s) = heap s"
proof -
  note h = remove_from_heap_result [OF inv, of t]
  obtain us vs where split: "xs = us @ t # vs" using t by (meson split_list)
  have "distinct (us @ t # vs)" using xs by (simp add: lists_inv_def split)
  then have r1: "remove1 t (us @ t # vs) = us @ vs" by (simp add: remove1_append)
  show "heap_inv (remove_timer t s)" using h(1) by (simp add: remove_timer_def)
  show "lists_inv (remove_timer t s) (remove1 t xs)"
    using xs unlink_lists [of "remove_from_heap t s" us t vs] same_lists_inv [OF h(2), of xs]
    unfolding split by (simp only: remove_timer_def r1)
  show "timer_ops (per_timer (remove_timer t s) u) = timer_ops (per_timer s u)"
    using h(2) by (simp add: remove_timer_def same_lists_def)
  show "in_heap (remove_timer t s) = in_heap s - {t}"
    using remove_from_heap_in_heap [OF inv] by (simp add: remove_timer_def)
  show "t \<in> in_heap s \<Longrightarrow>
      mset (heap s) = add_mset (heap s ! heap_index (per_timer s t)) (mset (heap (remove_timer t s)))"
    using h(4) by (simp add: remove_timer_def)
  show "t \<notin> in_heap s \<Longrightarrow> heap (remove_timer t s) = heap s"
    using h(3) by (simp add: remove_timer_def)
qed

lemma remove_drained:
  assumes inv: "tq_inv s xs" and t: "t \<in> set xs"
  shows "tq_inv (remove_timer t (set_ops t [] s)) (remove1 t xs)"
proof -
  have "distinct xs" using inv by (simp add: tq_inv_def lists_inv_def)
  then have s: "set (remove1 t xs) = set xs - {t}" by (rule set_remove1_eq)
  have "heap_inv (set_ops t [] s)" "lists_inv (set_ops t [] s) xs" using inv by (simp_all add: tq_inv_def)
  note r = remove_timer_facts [OF this t]
  show ?thesis
    using r(1,2) tq_invD [OF inv] by (auto simp: tq_inv_def r(3,4) s)
qed

lemma cancel_loop:
  "n \<le> m \<Longrightarrow> cancel_loop n m ops =
     (drop (m - n) ops, map (\<lambda>op. op\<lparr>op_ec := Operation_aborted\<rparr>) (take (m - n) ops), n + min (m - n) (length ops))"
proof (induction n m ops rule: cancel_loop.induct)
  case (2 n m op rest)
  then show ?case by (cases "n = m") (auto simp: Suc_diff_le [symmetric] drop_Cons' take_Cons' min_def)
qed simp

lemma cancel_timer_result:
  assumes inv: "tq_inv s xs"
  shows "cancel_timer t m s ops =
      (if timer_ops (per_timer s t) = [] then s
       else if length (timer_ops (per_timer s t)) \<le> m then remove_timer t (set_ops t [] s)
       else set_ops t (drop m (timer_ops (per_timer s t))) s,
       ops @ map (\<lambda>op. op\<lparr>op_ec := Operation_aborted\<rparr>) (take m (timer_ops (per_timer s t))),
       min m (length (timer_ops (per_timer s t))))"
    and "tq_inv (fst (cancel_timer t m s ops))
      (if length (timer_ops (per_timer s t)) \<le> m then remove1 t xs else xs)"
proof -
  have act: "timer_prev (per_timer s t) \<noteq> None \<or> timers s = Some t \<longleftrightarrow> timer_ops (per_timer s t) \<noteq> []"
    using active_iff [OF tq_invD(2) [OF inv]] tq_invD(4) [OF inv] by blast
  show eq: "cancel_timer t m s ops =
      (if timer_ops (per_timer s t) = [] then s
       else if length (timer_ops (per_timer s t)) \<le> m then remove_timer t (set_ops t [] s)
       else set_ops t (drop m (timer_ops (per_timer s t))) s,
       ops @ map (\<lambda>op. op\<lparr>op_ec := Operation_aborted\<rparr>) (take m (timer_ops (per_timer s t))),
       min m (length (timer_ops (per_timer s t))))"
    unfolding cancel_timer_def act cancel_loop [OF le0] by simp
  show "tq_inv (fst (cancel_timer t m s ops)) (if length (timer_ops (per_timer s t)) \<le> m then remove1 t xs else xs)"
  proof (cases "timer_ops (per_timer s t) = []")
    case True
    then have "t \<notin> set xs" using tq_invD(4) [OF inv] by blast
    with True inv show ?thesis by (simp add: eq remove1_idem)
  next
    case False
    then have t: "t \<in> set xs" using tq_invD(4) [OF inv] by blast
    show ?thesis
    proof (cases "length (timer_ops (per_timer s t)) \<le> m")
      case True
      with False remove_drained [OF inv t] show ?thesis by (simp add: eq)
    next
      case more: False
      with False inv show ?thesis by (auto simp: eq tq_inv_def)
    qed
  qed
qed

text \<open>What \<open>enqueue_timer\<close> does for a timer that is not active: the heap, and the front of the list.\<close>

definition heap_add :: "('t \<Rightarrow> bool) \<Rightarrow> 't::linorder \<Rightarrow> nat \<Rightarrow> 't timer_queue \<Rightarrow> 't timer_queue" where
  "heap_add is_infinite time t s =
     (if is_infinite time then set_timer t (\<lambda>d. d\<lparr>heap_index := no_index\<rparr>) s
      else up_heap (length (heap s))
        ((set_timer t (\<lambda>d. d\<lparr>heap_index := length (heap s)\<rparr>) s)\<lparr>heap := heap s @ [(time, t)]\<rparr>))"

definition link_front :: "nat \<Rightarrow> 't timer_queue \<Rightarrow> 't timer_queue" where
  "link_front t s =
     (let s2 = set_timer t (\<lambda>d. d\<lparr>timer_next := timers s, timer_prev := None\<rparr>) s
      in (case timers s of None \<Rightarrow> s2
          | Some first \<Rightarrow> set_timer first (\<lambda>d. d\<lparr>timer_prev := Some t\<rparr>) s2)\<lparr>timers := Some t\<rparr>)"

lemma enqueue_timer_split:
  assumes "lists_inv s xs"
  shows "fst (enqueue_timer is_infinite time t op s) =
    set_timer t (\<lambda>d. d\<lparr>timer_ops := timer_ops d @ [op]\<rparr>)
      (if t \<in> set xs then s else link_front t (heap_add is_infinite time t s))"
proof -
  have "timer_prev (per_timer s t) = None \<and> timers s \<noteq> Some t \<longleftrightarrow> t \<notin> set xs"
    using active_iff [OF assms] by blast
  then show ?thesis
    by (simp add: enqueue_timer_def link_front_def heap_add_def Let_def cong: option.case_cong)
qed

lemma heap_add_facts:
  assumes inv: "heap_inv s" and t: "t \<notin> in_heap s" and room: "Suc (length (heap s)) < no_index"
  shows "heap_inv (heap_add is_infinite time t s)" and "same_lists s (heap_add is_infinite time t s)"
    and "mset (heap (heap_add is_infinite time t s)) =
      mset (heap s) + (if is_infinite time then {#} else {#(time, t)#})"
proof -
  have "per_timer s t = (per_timer s t)\<lparr>heap_index := no_index\<rparr>" using inv t by (simp add: heap_inv_def)
  then have "per_timer (set_timer t (\<lambda>d. d\<lparr>heap_index := no_index\<rparr>) s) = per_timer s" by (simp add: fun_upd_idem)
  then have inf: "heap_inv (set_timer t (\<lambda>d. d\<lparr>heap_index := no_index\<rparr>) s)" "same_lists s (set_timer t (\<lambda>d. d\<lparr>heap_index := no_index\<rparr>) s)"
    using inv by (simp_all add: heap_inv_def times_def indexed_def same_lists_def)
  note fin = heap_push [OF inv t room refl, of time]
  show "heap_inv (heap_add is_infinite time t s)" "same_lists s (heap_add is_infinite time t s)"
    "mset (heap (heap_add is_infinite time t s)) = mset (heap s) + (if is_infinite time then {#} else {#(time, t)#})"
    using inf fin by (simp_all add: heap_add_def)
qed

lemma link_front_lists:
  assumes inv: "lists_inv s xs" and t: "t \<notin> set xs"
  shows "lists_inv (link_front t s) (t # xs)"
proof (cases xs)
  case Nil
  with inv show ?thesis by (simp add: lists_inv_def link_front_def Let_def)
next
  case (Cons y ys)
  have "linked (per_timer (link_front t s)) (Some y) ys None = linked (per_timer s) (Some y) ys None"
    by (rule linked_cong) (use inv t in \<open>auto simp: link_front_def lists_inv_def Cons Let_def\<close>)
  with inv t show ?thesis by (auto simp: Cons lists_inv_def link_front_def Let_def)
qed

lemma link_front_other [simp]:
  "heap (link_front t s) = heap s"
  "timer_ops (per_timer (link_front t s) u) = timer_ops (per_timer s u)"
  "heap_index (per_timer (link_front t s) u) = heap_index (per_timer s u)"
  by (auto simp: link_front_def Let_def split: option.splits)

lemma link_front_heap_inv [simp]: "heap_inv (link_front t s) = heap_inv s"
  by (simp add: heap_inv_def times_def indexed_def)

lemma enqueue_timer_result:
  assumes inv: "tq_inv s xs" and room: "Suc (length (heap s)) < no_index"
    and eq: "enqueue_timer is_infinite time t op s = (s', first)"
  shows "tq_inv s' (if t \<in> set xs then xs else t # xs)"
    and "mset (heap s') = mset (heap s) + (if t \<in> set xs \<or> is_infinite time then {#} else {#(time, t)#})"
    and "timer_ops (per_timer s' u) = timer_ops (per_timer s u) @ (if u = t then [op] else [])"
    and "first \<longleftrightarrow> heap s' \<noteq> [] \<and> snd (heap s' ! 0) = t \<and> op_id (hd (timer_ops (per_timer s' t))) = op_id op"
proof -
  note I = tq_invD [OF inv]
  have s': "s' = set_timer t (\<lambda>d. d\<lparr>timer_ops := timer_ops d @ [op]\<rparr>)
      (if t \<in> set xs then s else link_front t (heap_add is_infinite time t s))"
    using enqueue_timer_split [OF I(2), of is_infinite time t op] eq by simp
  have "t \<notin> set xs \<Longrightarrow> t \<notin> in_heap s" using I(3) by blast
  note h = heap_add_facts [OF I(1) this room, of is_infinite time]
  have l: "t \<notin> set xs \<Longrightarrow> lists_inv (link_front t (heap_add is_infinite time t s)) (t # xs)"
    using link_front_lists same_lists_inv [OF h(2)] I(2) by blast
  have ih: "t \<notin> set xs \<Longrightarrow> in_heap (heap_add is_infinite time t s) \<subseteq> insert t (in_heap s)"
    using arg_cong [OF h(3), of set_mset] by auto
  show ops: "timer_ops (per_timer s' u) = timer_ops (per_timer s u) @ (if u = t then [op] else [])" for u
    using h(2) by (simp add: s' same_lists_def)
  show "mset (heap s') = mset (heap s) + (if t \<in> set xs \<or> is_infinite time then {#} else {#(time, t)#})"
    using h(3) by (simp add: s')
  have "heap_inv s'" using I(1) h(1) by (simp add: s')
  moreover have "lists_inv s' (if t \<in> set xs then xs else t # xs)" using I(2) l by (simp add: s')
  moreover have "in_heap s' \<subseteq> set (if t \<in> set xs then xs else t # xs)" using I(3) ih by (auto simp: s')
  ultimately show "tq_inv s' (if t \<in> set xs then xs else t # xs)"
    unfolding tq_inv_def ops using I(4) by auto
  have "first \<longleftrightarrow> heap_index (per_timer s' t) = 0 \<and> op_id (hd (timer_ops (per_timer s' t))) = op_id op"
    using eq by (auto simp: enqueue_timer_def Let_def)
  moreover have "heap_index (per_timer s' t) = 0 \<longleftrightarrow> heap s' \<noteq> [] \<and> snd (heap s' ! 0) = t"
    using \<open>heap_inv s'\<close> heap_at_index [OF \<open>heap_inv s'\<close>, of t]
    by (cases "t \<in> in_heap s'") (auto simp: heap_inv_def indexed_def no_index_def)
  ultimately show "first \<longleftrightarrow> heap s' \<noteq> [] \<and> snd (heap s' ! 0) = t \<and> op_id (hd (timer_ops (per_timer s' t))) = op_id op"
    by blast
qed

section \<open>Timers that are ready\<close>

lemma heap_first:
  assumes inv: "heap_inv s" and e: "e \<in> set (heap s)"
  shows "time_at s 0 \<le> fst e"
proof -
  obtain i where i: "i < length (heap s)" "e = heap s ! i" using e by (auto simp: in_set_conv_nth)
  then have "times s ! 0 \<le> times s ! i" using inv by (intro heap_first_least) (simp_all add: heap_inv_def)
  moreover have "0 < length (heap s)" using i(1) by linarith
  ultimately show ?thesis using i by (simp add: times_def time_at_def)
qed

lemma remove1_filter: "distinct xs \<Longrightarrow> filter P (remove1 t xs) = filter (\<lambda>x. P x \<and> x \<noteq> t) xs"
  by (auto simp: distinct_remove1_removeAll removeAll_filter_not_eq intro: filter_cong)

text \<open>What comes out: the entries \<open>es\<close>, which with those that stay are the entries of the heap.\<close>

definition timers_fired :: "'t::linorder \<Rightarrow> 't timer_queue \<Rightarrow> 't timer_queue \<Rightarrow> ('t \<times> nat) list \<Rightarrow> bool" where
  "timers_fired now s s' es \<longleftrightarrow>
     mset (heap s) = mset es + mset (heap s') \<and> sorted (map fst es)
     \<and> (\<forall>e \<in> set es. fst e \<le> now) \<and> (\<forall>e \<in> set (heap s'). now < fst e)
     \<and> (\<forall>u. timer_ops (per_timer s' u) = (if u \<in> snd ` set es then [] else timer_ops (per_timer s u)))"

lemma ready_loop_result:
  "tq_inv s xs \<Longrightarrow>
     \<exists>s' es. (\<forall>ops. ready_loop now s ops = Some (s', ops @ concat (map (\<lambda>e. timer_ops (per_timer s (snd e))) es)))
       \<and> timers_fired now s s' es \<and> tq_inv s' (filter (\<lambda>t. t \<notin> snd ` set es) xs)"
proof (induction "length (heap s)" arbitrary: s xs rule: less_induct)
  case less
  note inv = less.prems
  note I = tq_invD [OF inv]
  show ?case
  proof (cases "heap s \<noteq> [] \<and> \<not> now < time_at s 0")
    case False
    then have "ready_loop now s ops = Some (s, ops)" for ops by (subst ready_loop.simps) auto
    moreover have "\<forall>e \<in> set (heap s). now < fst e"
      using False heap_first [OF I(1)] by (cases "heap s = []") fastforce+
    ultimately show ?thesis using inv by (intro exI [of _ s] exI [of _ "[]"]) (simp add: timers_fired_def)
  next
    case True
    let ?t = "snd (heap s ! 0)"
    let ?s = "remove_timer ?t (set_ops ?t [] s)"
    have h0: "heap s ! 0 \<in> set (heap s)" using True by simp
    then have th: "?t \<in> in_heap s" by simp
    then have t: "?t \<in> set xs" using I(3) by blast
    have idx: "heap_index (per_timer s ?t) = 0" using I(1) True by (simp add: heap_inv_def indexed_def)
    have pre: "heap_inv (set_ops ?t [] s)" "lists_inv (set_ops ?t [] s) xs" using I by simp_all
    note r = remove_timer_facts [OF pre t]
    have ms: "mset (heap s) = add_mset (heap s ! 0) (mset (heap ?s))" using r(5) th idx by simp
    then have "size (mset (heap s)) = Suc (size (mset (heap ?s)))" by simp
    then have "length (heap ?s) < length (heap s)" by simp
    from less.hyps [OF this remove_drained [OF inv t]] obtain s' es where
      loop: "\<forall>ops. ready_loop now ?s ops = Some (s', ops @ concat (map (\<lambda>e. timer_ops (per_timer ?s (snd e))) es))"
      and f: "timers_fired now ?s s' es" and inv': "tq_inv s' (filter (\<lambda>t. t \<notin> snd ` set es) (remove1 ?t xs))" by blast
    from f have fm: "mset (heap ?s) = mset es + mset (heap s')" and fo: "sorted (map fst es)"
      "\<forall>e \<in> set es. fst e \<le> now" "\<forall>e \<in> set (heap s'). now < fst e"
      and fops: "\<And>u. timer_ops (per_timer s' u) = (if u \<in> snd ` set es then [] else timer_ops (per_timer ?s u))"
      by (simp_all add: timers_fired_def)
    have sub: "set es \<subseteq> set (heap ?s)" "set (heap ?s) \<subseteq> set (heap s)"
      using arg_cong [OF fm, of set_mset] arg_cong [OF ms, of set_mset] by auto
    have tes: "?t \<notin> snd ` set es" using sub(1) r(4) by auto
    have opss: "timer_ops (per_timer ?s u) = (if u = ?t then [] else timer_ops (per_timer s u))" for u
      by (simp add: r(3))
    have es: "map (\<lambda>e. timer_ops (per_timer ?s (snd e))) es = map (\<lambda>e. timer_ops (per_timer s (snd e))) es"
      using tes by (intro map_cong refl) (auto simp: opss image_iff)
    have "ready_loop now s ops =
        Some (s', ops @ concat (map (\<lambda>e. timer_ops (per_timer s (snd e))) (heap s ! 0 # es)))" for ops
      using True loop by (subst ready_loop.simps) (simp add: es)
    moreover have "timers_fired now s s' (heap s ! 0 # es)"
      unfolding timers_fired_def
    proof (intro conjI)
      show "mset (heap s) = mset (heap s ! 0 # es) + mset (heap s')" by (simp add: ms fm)
      show "sorted (map fst (heap s ! 0 # es))"
        using fo(1) heap_first [OF I(1)] sub by (auto simp: time_at_def)
      show "\<forall>e \<in> set (heap s ! 0 # es). fst e \<le> now" using fo(2) True by (simp add: time_at_def not_less)
      show "\<forall>u. timer_ops (per_timer s' u) =
          (if u \<in> snd ` set (heap s ! 0 # es) then [] else timer_ops (per_timer s u))"
        using tes by (simp add: fops opss image_iff)
    qed (rule fo(3))
    moreover have "filter (\<lambda>t. t \<notin> snd ` set es) (remove1 ?t xs) = filter (\<lambda>t. t \<notin> snd ` set (heap s ! 0 # es)) xs"
      using I(2) by (subst remove1_filter) (auto simp: lists_inv_def intro: filter_cong)
    ultimately show ?thesis using inv' by (intro exI [of _ s'] exI [of _ "heap s ! 0 # es"]) simp
  qed
qed

lemma get_ready_timers_loop: "get_ready_timers now s ops = ready_loop now s ops"
  by (cases "heap s = []") (simp_all add: get_ready_timers_def ready_loop.simps [of now s])

section \<open>All timers\<close>

text \<open>
  The loop does not touch the \<open>prev_\<close> of the timers still in the list, so the first of them keeps
  its link to a timer that has gone, \<open>p\<close>.
\<close>

lemma all_loop_result:
  "distinct xs \<Longrightarrow> timers s = head_or xs None \<Longrightarrow> linked (per_timer s) p xs None \<Longrightarrow>
     \<exists>s'. (\<forall>ops. all_loop s ops = Some (s', ops @ concat (map (\<lambda>t. timer_ops (per_timer s t)) xs))) \<and> timers s' = None
       \<and> (\<forall>t. per_timer s' t =
            (if t \<in> set xs then (per_timer s t)\<lparr>timer_ops := [], timer_next := None, timer_prev := None\<rparr>
             else per_timer s t))"
proof (induction xs arbitrary: s p)
  case Nil
  then show ?case by (subst all_loop.simps) simp
next
  case (Cons x xs)
  let ?clear = "\<lambda>d. d\<lparr>timer_ops := [], timer_next := None, timer_prev := None\<rparr>"
  let ?s = "set_timer x ?clear (s\<lparr>timers := timer_next (per_timer s x)\<rparr>)"
  have "linked (per_timer ?s) (Some x) xs None = linked (per_timer s) (Some x) xs None"
    by (rule linked_cong) (use Cons.prems(1) in auto)
  then have prem: "distinct xs" "timers ?s = head_or xs None" "linked (per_timer ?s) (Some x) xs None"
    using Cons.prems by simp_all
  from Cons.IH [OF this] obtain s' where
    loop: "\<forall>ops. all_loop ?s ops = Some (s', ops @ concat (map (\<lambda>t. timer_ops (per_timer ?s t)) xs))"
    and s': "timers s' = None" "\<forall>t. per_timer s' t = (if t \<in> set xs then ?clear (per_timer ?s t) else per_timer ?s t)"
    by blast
  have same: "map (\<lambda>t. timer_ops (per_timer ?s t)) xs = map (\<lambda>t. timer_ops (per_timer s t)) xs"
    using Cons.prems(1) by (intro map_cong refl) auto
  have "all_loop s ops = Some (s', ops @ concat (map (\<lambda>t. timer_ops (per_timer s t)) (x # xs)))" for ops
    using Cons.prems(2) loop by (subst all_loop.simps) (simp add: same [simplified map_eq_conv] cong: map_cong del: set_timer_simps)
  moreover have "\<forall>t. per_timer s' t = (if t \<in> set (x # xs) then ?clear (per_timer s t) else per_timer s t)"
    using s'(2) Cons.prems(1) by auto
  ultimately show ?case using s'(1) by blast
qed

lemma get_all_timers_result:
  assumes "tq_inv s xs"
  shows "\<exists>s'. (\<forall>ops. get_all_timers s ops = Some (s', ops @ concat (map (\<lambda>t. timer_ops (per_timer s t)) xs)))
    \<and> queue_empty s' \<and> heap s' = []
    \<and> (\<forall>t. timer_ops (per_timer s' t) = [] \<and> timer_next (per_timer s' t) = None \<and> timer_prev (per_timer s' t) = None)"
proof -
  have l: "distinct xs" "timers s = head_or xs None" "linked (per_timer s) None xs None"
    and out: "\<And>t. t \<notin> set xs \<Longrightarrow> timer_next (per_timer s t) = None \<and> timer_prev (per_timer s t) = None"
    using tq_invD(2) [OF assms] by (simp_all add: lists_inv_def)
  obtain s' where s': "\<forall>ops. all_loop s ops = Some (s', ops @ concat (map (\<lambda>t. timer_ops (per_timer s t)) xs))" "timers s' = None"
    "\<forall>t. per_timer s' t =
       (if t \<in> set xs then (per_timer s t)\<lparr>timer_ops := [], timer_next := None, timer_prev := None\<rparr> else per_timer s t)"
    using all_loop_result [OF l] by blast
  have "timer_ops (per_timer s' t) = [] \<and> timer_next (per_timer s' t) = None \<and> timer_prev (per_timer s' t) = None" for t
    using s'(3) out [of t] tq_invD(4) [OF assms, of t] by simp
  with s'(1,2) show ?thesis
    by (intro exI [of _ "s'\<lparr>heap := []\<rparr>"]) (simp add: get_all_timers_def queue_empty_def)
qed

section \<open>Moving a timer\<close>

lemma move_links_fields:
  assumes "target \<noteq> source"
    and "timer_prev (per_timer s source) \<noteq> Some target" "timer_next (per_timer s source) \<noteq> Some target"
    and "timer_prev (per_timer s source) \<noteq> Some source" "timer_next (per_timer s source) \<noteq> Some source"
  shows "timer_next (per_timer (move_links target source s) u) =
      (if u = source then None else if u = target then timer_next (per_timer s source)
       else if timer_prev (per_timer s source) = Some u then Some target else timer_next (per_timer s u))"
    and "timer_prev (per_timer (move_links target source s) u) =
      (if u = source then None else if u = target then timer_prev (per_timer s source)
       else if timer_next (per_timer s source) = Some u then Some target else timer_prev (per_timer s u))"
  using assms by (auto simp: move_links_def Let_def split: option.splits)

lemma move_links_other [simp]:
  "timer_ops (per_timer (move_links target source s) u) = timer_ops (per_timer s u)"
  "heap_index (per_timer (move_links target source s) u) = heap_index (per_timer s u)"
  "heap (move_links target source s) = heap s"
  by (auto simp: move_links_def Let_def split: option.splits)

lemma timers_move_links [simp]:
  "timers (move_links target source s) = (if timers s = Some source then Some target else timers s)"
  by (auto simp: move_links_def Let_def split: option.splits)

lemma move_ops_index:
  assumes "target \<noteq> source"
  shows "timer_ops (per_timer (move_index target source (move_ops target source s)) u) =
      (if u = source then [] else if u = target then timer_ops (per_timer s target) @ timer_ops (per_timer s source)
       else timer_ops (per_timer s u))"
    and "heap_index (per_timer (move_index target source (move_ops target source s)) u) =
      (if u = source then no_index else if u = target then heap_index (per_timer s source)
       else heap_index (per_timer s u))"
    and "timer_next (per_timer (move_index target source (move_ops target source s)) u) = timer_next (per_timer s u)"
    and "timer_prev (per_timer (move_index target source (move_ops target source s)) u) = timer_prev (per_timer s u)"
    and "heap (move_index target source (move_ops target source s)) =
      (if heap_index (per_timer s source) < length (heap s)
       then (heap s)[heap_index (per_timer s source) := (time_at s (heap_index (per_timer s source)), target)]
       else heap s)"
    and "timers (move_index target source (move_ops target source s)) = timers s"
  using assms by (simp_all add: move_ops_def move_index_def Let_def time_at_def)

lemma move_fields:
  assumes "target \<noteq> source"
    and "timer_prev (per_timer s source) \<noteq> Some target" "timer_next (per_timer s source) \<noteq> Some target"
    and "timer_prev (per_timer s source) \<noteq> Some source" "timer_next (per_timer s source) \<noteq> Some source"
  shows "timer_next (per_timer (move_timer target source s) u) =
      (if u = source then None else if u = target then timer_next (per_timer s source)
       else if timer_prev (per_timer s source) = Some u then Some target else timer_next (per_timer s u))"
    and "timer_prev (per_timer (move_timer target source s) u) =
      (if u = source then None else if u = target then timer_prev (per_timer s source)
       else if timer_next (per_timer s source) = Some u then Some target else timer_prev (per_timer s u))"
  unfolding move_timer_def
  by (subst move_links_fields; simp add: move_ops_index(3,4) [OF assms(1)] assms)+

lemma move_other:
  assumes "target \<noteq> source"
  shows "timer_ops (per_timer (move_timer target source s) u) =
      (if u = source then [] else if u = target then timer_ops (per_timer s target) @ timer_ops (per_timer s source)
       else timer_ops (per_timer s u))"
    and "heap_index (per_timer (move_timer target source s) u) =
      (if u = source then no_index else if u = target then heap_index (per_timer s source)
       else heap_index (per_timer s u))"
    and "heap (move_timer target source s) =
      (if heap_index (per_timer s source) < length (heap s)
       then (heap s)[heap_index (per_timer s source) := (time_at s (heap_index (per_timer s source)), target)]
       else heap s)"
    and "timers (move_timer target source s) = (if timers s = Some source then Some target else timers s)"
  by (simp_all add: move_timer_def move_ops_index [OF assms])

lemma move_lists:
  assumes inv: "lists_inv s (us @ source # vs)" and t: "target \<notin> set (us @ source # vs)"
  shows "lists_inv (move_timer target source s) (us @ target # vs)"
proof -
  let ?d = "per_timer s" and ?d' = "per_timer (move_timer target source s)"
  from inv have dist: "distinct (us @ source # vs)" and l: "linked ?d None us (Some source)"
    "timer_prev (?d source) = last_or us None" "timer_next (?d source) = head_or vs None"
    "linked ?d (Some source) vs None" and first: "timers s = head_or us (Some source)"
    and out: "\<And>u. u \<notin> set (us @ source # vs) \<Longrightarrow> timer_next (?d u) = None \<and> timer_prev (?d u) = None"
    by (auto simp: lists_inv_def)
  have lst: "us \<noteq> [] \<Longrightarrow> last us \<in> set us" "us \<noteq> [] \<Longrightarrow> last us \<notin> set vs"
    using dist by (auto dest: last_in_set simp: disjoint_iff)
  have ne: "target \<noteq> source" "timer_prev (?d source) \<noteq> Some target" "timer_next (?d source) \<noteq> Some target"
    "timer_prev (?d source) \<noteq> Some source" "timer_next (?d source) \<noteq> Some source"
    using dist t lst by (auto simp: l last_or_def head_or_def split: list.splits)
  note f = move_fields [OF ne]
  have "timers (move_timer target source s) = head_or (us @ target # vs) None"
    using dist by (cases us) (auto simp: move_other [OF ne(1)] first)
  moreover have "linked ?d' None us (Some target)"
  proof (cases us rule: rev_cases)
    case (snoc ws w)
    have "linked ?d' None ws (Some w) = linked ?d None ws (Some w)"
      by (rule linked_cong) (use dist t in \<open>auto simp: f l snoc head_or_def split: list.splits\<close>)
    with l(1) dist t show ?thesis by (auto simp: snoc f l head_or_def split: list.splits)
  qed simp
  moreover have "linked ?d' (last_or us None) (target # vs) None"
  proof (cases vs)
    case Nil
    then show ?thesis using ne(1) by (simp add: f l)
  next
    case (Cons w ws)
    have "linked ?d' (Some w) ws None = linked ?d (Some w) ws None"
      by (rule linked_cong) (use dist lst t in \<open>auto simp: f l Cons last_or_def split: if_splits\<close>)
    with l(4) dist lst t ne(1) show ?thesis by (auto simp: Cons f l last_or_def split: if_splits)
  qed
  moreover have "timer_next (?d' u) = None \<and> timer_prev (?d' u) = None" if "u \<notin> set (us @ target # vs)" for u
    using out [of u] that lst by (auto simp: f l last_or_def head_or_def split: list.splits if_splits)
  ultimately show ?thesis using dist t by (simp add: lists_inv_def)
qed

lemma nth_image_indices: "(\<lambda>j. xs ! j) ` {..<length xs} = set xs"
  by (auto simp: set_conv_nth)

lemma move_heap:
  assumes inv: "heap_inv s" and t: "target \<noteq> source" "target \<notin> in_heap s"
  shows "heap_inv (move_timer target source s)" and "times (move_timer target source s) = times s"
    and "in_heap (move_timer target source s) =
      (if source \<in> in_heap s then insert target (in_heap s - {source}) else in_heap s)"
proof -
  let ?i = "heap_index (per_timer s source)" and ?m = "move_timer target source s"
  note o = move_other [OF t(1), of s]
  have I: "heap_ordered (times s)" "indexed s" "length (heap s) < no_index"
    "\<And>u. u \<notin> in_heap s \<Longrightarrow> heap_index (per_timer s u) = no_index"
    using inv by (simp_all add: heap_inv_def)
  have mem: "?i < length (heap s) \<longleftrightarrow> source \<in> in_heap s"
    using heap_at_index(1) [OF inv] I(3) I(4) [of source] by (cases "source \<in> in_heap s") auto
  show tm: "times ?m = times s"
    by (auto simp: times_def o map_update time_at_def list_update_same_conv)
  have at: "snd (heap ?m ! j) = (if snd (heap s ! j) = source then target else snd (heap s ! j))"
    if "j < length (heap s)" for j
  proof (cases "source \<in> in_heap s")
    case True
    then have "snd (heap s ! j) = source \<longleftrightarrow> j = ?i"
      using heap_at_index [OF inv True] indexed_inj [OF I(2) that, of ?i] by auto
    with True that show ?thesis by (simp add: o mem)
  next
    case False
    then have "snd (heap s ! j) \<noteq> source" using that nth_mem by blast
    with False show ?thesis by (simp add: o mem)
  qed
  have len: "length (heap ?m) = length (heap s)" by (simp add: o)
  have "in_heap ?m = (\<lambda>j. snd (heap ?m ! j)) ` {..<length (heap s)}"
    unfolding nth_image_indices [of "heap ?m", unfolded len, symmetric] image_image ..
  moreover have "in_heap s = (\<lambda>j. snd (heap s ! j)) ` {..<length (heap s)}"
    unfolding nth_image_indices [of "heap s", symmetric] image_image ..
  ultimately show heap: "in_heap ?m = (if source \<in> in_heap s then insert target (in_heap s - {source}) else in_heap s)"
    using at by (auto simp: image_iff)
  have "indexed ?m"
    using I(2) t nth_mem at unfolding indexed_def len by (force simp: o(2))
  moreover have "heap_index (per_timer ?m u) = no_index" if "u \<notin> in_heap ?m" for u
    using that I(4) [of u] I(4) [of source] by (auto simp: o(2) heap split: if_splits)
  ultimately show "heap_inv ?m" using I by (simp add: heap_inv_def tm len)
qed

lemma move_timer_inv:
  assumes inv: "tq_inv s xs" and ne: "target \<noteq> source" and empty: "timer_ops (per_timer s target) = []"
  shows "tq_inv (move_timer target source s) (map (\<lambda>t. if t = source then target else t) xs)"
proof -
  note I = tq_invD [OF inv] and o = move_other [OF ne, of s]
  have t: "target \<notin> set xs" using I(4) empty by blast
  then have th: "target \<notin> in_heap s" using I(3) by blast
  note h = move_heap [OF I(1) ne th]
  show ?thesis
  proof (cases "source \<in> set xs")
    case True
    then obtain us vs where split: "xs = us @ source # vs" by (meson split_list)
    have "distinct xs" using I(2) by (simp add: lists_inv_def)
    then have "map (\<lambda>t. if t = source then target else t) us = us"
      "map (\<lambda>t. if t = source then target else t) vs = vs"
      by (auto simp: split intro: map_idI)
    then have m: "map (\<lambda>t. if t = source then target else t) xs = us @ target # vs"
      by (simp add: split)
    have "lists_inv (move_timer target source s) (us @ target # vs)"
      using I(2) t by (intro move_lists) (simp_all add: split)
    moreover have "u \<in> set (us @ target # vs) \<longleftrightarrow> timer_ops (per_timer (move_timer target source s) u) \<noteq> []" for u
      using I(4) [of u] I(4) [of source] \<open>distinct xs\<close> True empty t by (auto simp: o(1) split)
    moreover have "in_heap (move_timer target source s) \<subseteq> set (us @ target # vs)"
      using I(3) \<open>distinct xs\<close> by (auto simp: h(3) split split: if_splits)
    ultimately show ?thesis using h(1) unfolding m tq_inv_def by blast
  next
    case False
    then have m: "map (\<lambda>t. if t = source then target else t) xs = xs" by (intro map_idI) auto
    have src: "timer_next (per_timer s source) = None" "timer_prev (per_timer s source) = None"
      "timer_next (per_timer s target) = None" "timer_prev (per_timer s target) = None" "timers s \<noteq> Some source"
      using I(2) False t by (auto simp: lists_inv_def head_or_def split: list.splits)
    have "timer_next (per_timer (move_timer target source s) u) = timer_next (per_timer s u)"
      "timer_prev (per_timer (move_timer target source s) u) = timer_prev (per_timer s u)" for u
      using move_fields [OF ne, of s u] src by auto
    then have "linked (per_timer (move_timer target source s)) None xs None = linked (per_timer s) None xs None"
      "\<And>u. timer_next (per_timer (move_timer target source s) u) = timer_next (per_timer s u)"
      "\<And>u. timer_prev (per_timer (move_timer target source s) u) = timer_prev (per_timer s u)"
      by (simp_all add: linked_cong [of xs "per_timer (move_timer target source s)" "per_timer s"])
    then have "lists_inv (move_timer target source s) xs" using I(2) src(5) by (simp add: lists_inv_def o(4))
    moreover have "timer_ops (per_timer s source) = []" using I(4) False by blast
    then have "timer_ops (per_timer (move_timer target source s) u) = timer_ops (per_timer s u)" for u
      by (simp add: o(1) empty)
    moreover have "source \<notin> in_heap s" using I(3) False by blast
    ultimately show ?thesis using h(1,3) I(3,4) unfolding m tq_inv_def by simp
  qed
qed

section \<open>Every run\<close>

text \<open>
  The calls of a timer queue: \<open>move_timer\<close> is for moving into another, empty timer, and the heap
  has room for the entry of a timer that is enqueued. Left out is \<open>get_all_timers\<close>, which empties
  the queue when the io_context shuts down and leaves the indices in the timers as they were:
  nothing here says that a queue can be used after it.
\<close>

inductive tq_step :: "('t::linorder \<Rightarrow> bool) \<Rightarrow> 't timer_queue \<Rightarrow> 't timer_queue \<Rightarrow> bool"
  for is_infinite where
  enqueue: "Suc (length (heap s)) < no_index \<Longrightarrow> enqueue_timer is_infinite time t op s = (s', first) \<Longrightarrow>
     tq_step is_infinite s s'"
| cancel: "cancel_timer t max_cancelled s ops = (s', ops', n) \<Longrightarrow> tq_step is_infinite s s'"
| move: "target \<noteq> source \<Longrightarrow> timer_ops (per_timer s target) = [] \<Longrightarrow>
     tq_step is_infinite s (move_timer target source s)"
| ready: "get_ready_timers now s ops = Some (s', ops') \<Longrightarrow> tq_step is_infinite s s'"

lemma tq_step_inv: "tq_step is_infinite s s' \<Longrightarrow> tq_inv s xs \<Longrightarrow> \<exists>xs'. tq_inv s' xs'"
proof (induction rule: tq_step.induct)
  case (enqueue s time t op s' first)
  then show ?case using enqueue_timer_result(1) by blast
next
  case (cancel t m s ops s' ops' n)
  then show ?case using cancel_timer_result(2) [of s xs t m ops] by auto
next
  case (move target source s)
  then show ?case using move_timer_inv by blast
next
  case (ready now s ops s' ops')
  then show ?case using ready_loop_result [of s xs now] by (auto simp: get_ready_timers_loop)
qed

definition tq_run :: "('t::linorder \<Rightarrow> bool) \<Rightarrow> 't timer_queue \<Rightarrow> bool" where
  "tq_run is_infinite = (tq_step is_infinite)\<^sup>*\<^sup>* (new_timer_queue (\<lambda>_. new_timer))"

lemma tq_run_inv: "tq_run is_infinite s \<Longrightarrow> \<exists>xs. tq_inv s xs"
  unfolding tq_run_def
proof (induction rule: rtranclp_induct)
  case base
  show ?case using tq_inv_new [of "\<lambda>_. new_timer"] by auto
qed (use tq_step_inv in blast)

text \<open>
  C38. In every state the calls of a timer queue can lead to, the heap is ordered and every timer
  in it knows its index, the active timers form one doubly linked list without repetition, and
  they are exactly the timers with operations waiting.
\<close>

theorem timer_queue_consistent:
  assumes "tq_run is_infinite s"
  shows "\<exists>xs. heap_ordered (times s) \<and> indexed s \<and> in_heap s \<subseteq> set xs
    \<and> distinct xs \<and> timers s = head_or xs None \<and> linked (per_timer s) None xs None
    \<and> (\<forall>t. t \<in> set xs \<longleftrightarrow> timer_ops (per_timer s t) \<noteq> [])"
  using tq_run_inv [OF assms] unfolding tq_inv_def heap_inv_def lists_inv_def by blast

text \<open>
  C39. \<open>get_ready_timers\<close> returns in every reachable state, and hands over the operations of exactly
  the timers in the heap whose time is not after \<open>now\<close>, earliest timer first and each timer's in
  the order they were enqueued; the entries that stay are later than \<open>now\<close>. \<open>get_all_timers\<close>
  returns too, hands over the operations of every active timer and leaves the queue empty.
\<close>

theorem ready_timers_earliest_first:
  assumes "tq_run is_infinite s"
  shows "(\<exists>s' es. get_ready_timers now s ops =
        Some (s', ops @ concat (map (\<lambda>e. timer_ops (per_timer s (snd e))) es)) \<and> timers_fired now s s' es)
    \<and> (\<exists>s' xs. get_all_timers s ops = Some (s', ops @ concat (map (\<lambda>t. timer_ops (per_timer s t)) xs))
        \<and> distinct xs \<and> (\<forall>t. t \<in> set xs \<longleftrightarrow> timer_ops (per_timer s t) \<noteq> []) \<and> queue_empty s' \<and> heap s' = [])"
proof -
  obtain xs where inv: "tq_inv s xs" using tq_run_inv [OF assms] by blast
  then have "distinct xs" "\<forall>t. t \<in> set xs \<longleftrightarrow> timer_ops (per_timer s t) \<noteq> []"
    by (simp_all add: tq_inv_def lists_inv_def)
  with ready_loop_result [OF inv, of now] get_all_timers_result [OF inv] show ?thesis
    unfolding get_ready_timers_loop by blast
qed

text \<open>
  \<open>enqueue_timer\<close> answers true exactly when the timer is the first of the heap, no other
  being earlier, and the operation its first; \<open>cancel_timer\<close> hands over the oldest operations of the
  timer, as many as asked for, in order and with the error \<open>operation_aborted\<close>, answers how
  many, and leaves the other operations where they are.
\<close>

theorem enqueue_and_cancel:
  assumes "tq_run is_infinite s" and "Suc (length (heap s)) < no_index"
  shows "(case enqueue_timer is_infinite time t op s of (s', first) \<Rightarrow>
      (first \<longleftrightarrow> heap s' \<noteq> [] \<and> snd (heap s' ! 0) = t \<and> op_id (hd (timer_ops (per_timer s' t))) = op_id op)
      \<and> (\<forall>e \<in> set (heap s'). fst (heap s' ! 0) \<le> fst e)
      \<and> (\<forall>u. timer_ops (per_timer s' u) = timer_ops (per_timer s u) @ (if u = t then [op] else [])))
    \<and> (case cancel_timer t max_cancelled s ops of (s', ops', n) \<Rightarrow>
      ops' = ops @ map (\<lambda>op. op\<lparr>op_ec := Operation_aborted\<rparr>) (take max_cancelled (timer_ops (per_timer s t)))
      \<and> n = min max_cancelled (length (timer_ops (per_timer s t)))
      \<and> (\<forall>u. timer_ops (per_timer s' u) = (if u = t then drop max_cancelled else id) (timer_ops (per_timer s u))))"
proof -
  obtain xs where inv: "tq_inv s xs" using tq_run_inv [OF assms(1)] by blast
  obtain s' first where e: "enqueue_timer is_infinite time t op s = (s', first)" by force
  note r = enqueue_timer_result [OF inv assms(2) e]
  have "\<forall>e \<in> set (heap s'). fst (heap s' ! 0) \<le> fst e"
    using heap_first [OF tq_invD(1) [OF r(1)]] by (simp add: time_at_def)
  moreover have "\<forall>u. timer_ops (per_timer (fst (cancel_timer t max_cancelled s ops)) u) =
      (if u = t then drop max_cancelled else id) (timer_ops (per_timer s u))"
  proof (cases "timer_ops (per_timer s t) = []")
    case True
    then show ?thesis by (simp add: cancel_timer_result(1) [OF inv])
  next
    case False
    then have t: "t \<in> set xs" using tq_invD(4) [OF inv] by blast
    have pre: "heap_inv (set_ops t [] s)" "lists_inv (set_ops t [] s) xs" using tq_invD [OF inv] by simp_all
    from False show ?thesis by (simp add: cancel_timer_result(1) [OF inv] remove_timer_facts(3) [OF pre t])
  qed
  ultimately show ?thesis using r(3,4) by (simp add: e cancel_timer_result(1) [OF inv])
qed

text \<open>A queue with one timer, at address 2 and due at 3, with one operation.\<close>

definition one_timer :: "int timer_queue" where
  "one_timer = fst (enqueue_timer (\<lambda>_. False) 3 2 \<lparr>op_id = 1, op_ec = Success\<rparr> (new_timer_queue (\<lambda>_. new_timer)))"

lemma one_timer_run: "tq_run (\<lambda>_. False) one_timer"
proof -
  have "tq_step (\<lambda>_. False) (new_timer_queue (\<lambda>_. new_timer)) one_timer"
    unfolding one_timer_def by (rule tq_step.enqueue [OF _ surjective_pairing]) (simp add: new_timer_queue_def no_index_def)
  then show ?thesis unfolding tq_run_def by (rule r_into_rtranclp)
qed

lemma one_timer_heap: "heap one_timer = [(3, 2)]" "timer_ops (per_timer one_timer 2) = [\<lparr>op_id = 1, op_ec = Success\<rparr>]"
  by (simp_all add: one_timer_def enqueue_timer_def new_timer_queue_def new_timer_def up_heap.simps)

theorem timer_queue_consistent_witness:
  "\<exists>xs. in_heap one_timer \<subseteq> set xs \<and> timers one_timer = head_or xs None \<and> linked (per_timer one_timer) None xs None"
  using timer_queue_consistent [OF one_timer_run] by blast

theorem ready_timers_earliest_first_witness:
  "\<exists>s'. get_ready_timers 5 one_timer [] = Some (s', [\<lparr>op_id = 1, op_ec = Success\<rparr>]) \<and> heap s' = []"
proof -
  from ready_timers_earliest_first [OF one_timer_run, of 5 "[]"] obtain s' es where
    g: "get_ready_timers 5 one_timer [] = Some (s', concat (map (\<lambda>e. timer_ops (per_timer one_timer (snd e))) es))"
    and f: "timers_fired 5 one_timer s' es" by auto
  then have ms: "{#(3, 2)#} = mset es + mset (heap s')" and late: "\<forall>e \<in> set (heap s'). 5 < fst e"
    by (simp_all add: timers_fired_def one_timer_heap)
  have "heap s' = []"
  proof (rule ccontr)
    assume "heap s' \<noteq> []"
    then obtain e where e: "e \<in> set (heap s')" by (meson last_in_set)
    then have "e \<in># {#(3, 2)#}" unfolding ms by simp
    with late e show False by auto
  qed
  moreover from this ms have "es = [(3, 2)]" by simp
  ultimately show ?thesis using g by (simp add: one_timer_heap)
qed

theorem enqueue_and_cancel_witness:
  "case cancel_timer 2 4 one_timer [] of (s', ops', n) \<Rightarrow> ops' = [\<lparr>op_id = 1, op_ec = Operation_aborted\<rparr>] \<and> n = 1"
proof -
  have "Suc (length (heap one_timer)) < no_index" by (simp add: one_timer_heap no_index_def)
  from enqueue_and_cancel [OF one_timer_run this, where t = 2 and max_cancelled = 4 and ops = "[]" and time = 1 and op = "\<lparr>op_id = 7, op_ec = Success\<rparr>"] show ?thesis
    by (simp add: one_timer_heap split: prod.splits)
qed

end
