(* ===== verification/Asio_Chrono.thy ===== *)
theory Asio_Chrono
  imports Asio_Timer_Queue "HOL-Library.Signed_Division" "HOL-Library.Monad_Syntax"
begin

text \<open>
  \<open>detail/chrono_time_traits.hpp\<close>, and the waits of \<open>detail/timer_queue.hpp\<close>: arithmetic on the
  time points and durations of a clock that counts in 64 bits, and the time until the earliest
  timer in milliseconds and microseconds. A count is an \<open>int\<close>; an operation whose result does not
  fit 64 bits is undefined in C++ and \<open>None\<close> here. Shown here: adding and subtracting saturate
  without ever overflowing, and conversions are exact.
\<close>

section \<open>Counts of 64 bits\<close>

definition max64 :: int where
  "max64 = 2 ^ 63 - 1"

definition min64 :: int where
  "min64 = - (2 ^ 63)"

abbreviation fits :: "int \<Rightarrow> bool" where
  "fits x \<equiv> min64 \<le> x \<and> x \<le> max64"

definition checked :: "int \<Rightarrow> int option" where
  "checked x = (if fits x then Some x else None)"

lemma checked_Some [simp]: "fits x \<Longrightarrow> checked x = Some x"
  by (simp add: checked_def)

datatype time_point = Time_point (since_epoch: int)

instantiation time_point :: linorder
begin

definition less_eq_time_point :: "time_point \<Rightarrow> time_point \<Rightarrow> bool" where
  "t1 \<le> t2 \<longleftrightarrow> since_epoch t1 \<le> since_epoch t2"

definition less_time_point :: "time_point \<Rightarrow> time_point \<Rightarrow> bool" where
  "t1 < t2 \<longleftrightarrow> since_epoch t1 < since_epoch t2"

instance
  by standard (auto simp: less_eq_time_point_def less_time_point_def time_point.expand)

end

section \<open>The traits\<close>

definition add_time :: "time_point \<Rightarrow> int \<Rightarrow> time_point option" where
  "add_time t d =
     (if Time_point 0 \<le> t then do {
        room \<leftarrow> checked (max64 - since_epoch t);
        if room < d then Some (Time_point max64) else map_option Time_point (checked (since_epoch t + d))
      }
      else do {
        above \<leftarrow> checked (since_epoch t - min64);
        room \<leftarrow> checked (- above);
        if d < room then Some (Time_point min64) else map_option Time_point (checked (since_epoch t + d))
      })"

definition subtract_time :: "time_point \<Rightarrow> time_point \<Rightarrow> int option" where
  "subtract_time t1 t2 =
     (if Time_point 0 \<le> t1 then
        if Time_point 0 \<le> t2 then checked (since_epoch t1 - since_epoch t2)
        else if t2 = Time_point min64 then Some max64
        else do {
          room \<leftarrow> checked (max64 - since_epoch t1);
          back \<leftarrow> checked (0 - since_epoch t2);
          if room < back then Some max64 else checked (since_epoch t1 - since_epoch t2)
        }
      else
        if t2 < Time_point 0 then checked (since_epoch t1 - since_epoch t2)
        else if t1 = Time_point min64 then Some min64
        else do {
          room \<leftarrow> checked (max64 - since_epoch t2);
          back \<leftarrow> checked (0 - since_epoch t1);
          if room < back then Some min64
          else do { d \<leftarrow> checked (since_epoch t2 - since_epoch t1); checked (- d) }
        })"

text \<open>The greatest common divisor as the template computes it.\<close>

function gcd_value :: "int \<Rightarrow> int \<Rightarrow> int" where
  "gcd_value v1 v2 = (if v2 = 0 then v1 else gcd_value v2 (v1 smod v2))"
  by pat_completeness auto
termination
  by (relation "measure (\<lambda>(v1, v2). nat \<bar>v2\<bar>)") (auto simp: smod_int_alt_def abs_mult sgn_if)

declare gcd_value.simps [simp del]

text \<open>
  The period of the clock is \<open>pnum / pden\<close> seconds; the duration is converted to units of
  \<open>num / den\<close> seconds.
\<close>

definition duration_cast :: "int \<Rightarrow> int \<Rightarrow> int \<Rightarrow> int \<Rightarrow> int \<Rightarrow> int option" where
  "duration_cast pnum pden Num Den ticks =
     (let num1 = pnum sdiv gcd_value pnum Num;
          num2 = Num sdiv gcd_value pnum Num;
          den1 = pden sdiv gcd_value pden Den;
          den2 = Den sdiv gcd_value pden Den;
          num = num1 * den2;
          den = num2 * den1
      in if num = 1 \<and> den = 1 then Some ticks
         else if num \<noteq> 1 \<and> den = 1 then checked (ticks * num)
         else if num = 1 \<and> pden \<noteq> 1 then Some (ticks sdiv den)
         else map_option (\<lambda>x. x sdiv den) (checked (ticks * num)))"

definition total_seconds :: "int \<Rightarrow> int \<Rightarrow> int \<Rightarrow> int option" where
  "total_seconds pnum pden d = duration_cast pnum pden 1 1 d"

definition total_milliseconds :: "int \<Rightarrow> int \<Rightarrow> int \<Rightarrow> int option" where
  "total_milliseconds pnum pden d = duration_cast pnum pden 1 1000 d"

definition total_microseconds :: "int \<Rightarrow> int \<Rightarrow> int \<Rightarrow> int option" where
  "total_microseconds pnum pden d = duration_cast pnum pden 1 1000000 d"

section \<open>The time to wait\<close>

definition to_msec :: "int \<Rightarrow> int \<Rightarrow> int \<Rightarrow> int \<Rightarrow> int option" where
  "to_msec pnum pden d max_duration =
     (if d \<le> 0 then Some 0
      else do {
        msec \<leftarrow> total_milliseconds pnum pden d;
        Some (if msec = 0 then 1 else if msec > max_duration then max_duration else msec)
      })"

definition to_usec :: "int \<Rightarrow> int \<Rightarrow> int \<Rightarrow> int \<Rightarrow> int option" where
  "to_usec pnum pden d max_duration =
     (if d \<le> 0 then Some 0
      else do {
        usec \<leftarrow> total_microseconds pnum pden d;
        Some (if usec = 0 then 1 else if usec > max_duration then max_duration else usec)
      })"

text \<open>\<open>to_wait_duration\<close> of the wait traits gives the duration itself.\<close>

definition to_wait_duration :: "int \<Rightarrow> int" where
  "to_wait_duration d = d"

definition wait_duration_msec :: "int \<Rightarrow> int \<Rightarrow> time_point \<Rightarrow> int \<Rightarrow> time_point timer_queue \<Rightarrow> int option" where
  "wait_duration_msec pnum pden now max_duration s =
     (if heap s = [] then Some max_duration
      else do {
        d \<leftarrow> subtract_time (time_at s 0) now;
        to_msec pnum pden (to_wait_duration d) max_duration
      })"

definition wait_duration_usec :: "int \<Rightarrow> int \<Rightarrow> time_point \<Rightarrow> int \<Rightarrow> time_point timer_queue \<Rightarrow> int option" where
  "wait_duration_usec pnum pden now max_duration s =
     (if heap s = [] then Some max_duration
      else do {
        d \<leftarrow> subtract_time (time_at s 0) now;
        to_usec pnum pden (to_wait_duration d) max_duration
      })"

section \<open>Saturation\<close>

definition clamp :: "int \<Rightarrow> int" where
  "clamp x = max min64 (min max64 x)"

lemma add_time_clamp:
  assumes "fits (since_epoch t)" and "fits d"
  shows "add_time t d = Some (Time_point (clamp (since_epoch t + d)))"
proof -
  obtain x where t: "t = Time_point x" by (cases t)
  show ?thesis
    using assms by (auto simp: t add_time_def clamp_def checked_def less_eq_time_point_def max64_def min64_def)
qed

lemma subtract_time_clamp:
  assumes "fits (since_epoch t1)" and "fits (since_epoch t2)"
  shows "subtract_time t1 t2 = Some (clamp (since_epoch t1 - since_epoch t2))"
proof -
  obtain x y where t: "t1 = Time_point x" "t2 = Time_point y" by (cases t1, cases t2)
  show ?thesis
    using assms
    by (auto simp: t subtract_time_def clamp_def checked_def less_eq_time_point_def less_time_point_def max64_def min64_def)
qed

section \<open>Conversion\<close>

lemma gcd_value: "0 \<le> v1 \<Longrightarrow> 0 \<le> v2 \<Longrightarrow> gcd_value v1 v2 = gcd v1 v2"
proof (induction v1 v2 rule: gcd_value.induct)
  case (1 v1 v2)
  show ?case
  proof (cases "v2 = 0")
    case True
    then show ?thesis using "1.prems" by (simp add: gcd_value.simps [of v1 0])
  next
    case False
    then have "v1 smod v2 = v1 mod v2" "0 \<le> v1 mod v2"
      using "1.prems" by (simp_all add: smod_mod_positive)
    with 1 False show ?thesis by (simp add: gcd_value.simps [of v1 v2] gcd_red_int [of v1 v2])
  qed
qed

lemma sdiv_cancel: "0 < k \<Longrightarrow> (a * k) sdiv (b * k) = a sdiv (b :: int)"
  by (simp add: signed_divide_int_def sgn_mult abs_mult)

text \<open>The factor of the cast in lowest terms.\<close>

definition cast_num :: "int \<Rightarrow> int \<Rightarrow> int \<Rightarrow> int \<Rightarrow> int" where
  "cast_num pnum pden Num Den = (pnum div gcd pnum Num) * (Den div gcd pden Den)"

lemma duration_cast_exact:
  assumes pos: "0 < pnum" "0 < pden" "0 < Num" "0 < Den"
    and room: "fits (ticks * cast_num pnum pden Num Den)"
  shows "duration_cast pnum pden Num Den ticks = Some ((ticks * pnum * Den) sdiv (Num * pden))"
proof -
  let ?g = "gcd pnum Num" and ?h = "gcd pden Den"
  define num den where "num = cast_num pnum pden Num Den" and "den = (Num div ?g) * (pden div ?h)"
  have g: "0 < ?g" "0 < ?h" using pos by simp_all
  have "pnum * Den = (pnum div ?g * ?g) * (Den div ?h * ?h)" "Num * pden = (Num div ?g * ?g) * (pden div ?h * ?h)"
    by simp_all
  then have "pnum * Den = num * (?g * ?h)" "Num * pden = den * (?g * ?h)"
    unfolding num_def den_def cast_num_def by (simp_all only: ac_simps)
  then have goal: "(ticks * pnum * Den) sdiv (Num * pden) = (ticks * num) sdiv den"
    using sdiv_cancel [of "?g * ?h" "ticks * num" den] g by (simp add: mult.assoc)
  have cast: "duration_cast pnum pden Num Den ticks =
      (if num = 1 \<and> den = 1 then Some ticks
       else if num \<noteq> 1 \<and> den = 1 then checked (ticks * num)
       else if num = 1 \<and> pden \<noteq> 1 then Some (ticks sdiv den)
       else map_option (\<lambda>x. x sdiv den) (checked (ticks * num)))"
    using pos g by (simp add: duration_cast_def Let_def gcd_value num_def den_def cast_num_def
        signed_divide_int_eq_divide_int)
  show ?thesis
    using room unfolding goal cast num_def [symmetric] by auto
qed

text \<open>
  The arithmetic of the time traits never overflows: adding a duration to a time point and
  subtracting two time points give the exact result, cut off at the limits of 64 bits. A
  conversion of a duration to seconds, milliseconds or microseconds gives the exact quotient,
  rounded toward zero, for every period of the clock, if the product it computes fits 64 bits.
\<close>

theorem time_arithmetic_saturates:
  assumes "fits (since_epoch t)" and "fits (since_epoch t')" and "fits d"
    and "0 < pnum" and "0 < pden" and "0 < Num" and "0 < Den" and "fits (d * cast_num pnum pden Num Den)"
  shows "add_time t d = Some (Time_point (clamp (since_epoch t + d)))
    \<and> subtract_time t t' = Some (clamp (since_epoch t - since_epoch t'))
    \<and> duration_cast pnum pden Num Den d = Some ((d * pnum * Den) sdiv (Num * pden))"
  using add_time_clamp [OF assms(1,3)] subtract_time_clamp [OF assms(1,2)] duration_cast_exact [OF assms(4-8)] by blast

theorem time_arithmetic_saturates_witness:
  "add_time (Time_point max64) 5 = Some (Time_point max64) \<and> duration_cast 1 3 1 1000 5 = Some 1666"
proof -
  have "fits (5 * cast_num 1 3 1 1000)" by (simp add: cast_num_def max64_def min64_def gcd_non_0_int)
  with time_arithmetic_saturates [of "Time_point max64" "Time_point 0" 5 1 3 1 1000] show ?thesis
    by (simp add: clamp_def max64_def min64_def)
qed

section \<open>When to wake up\<close>

text \<open>
  For a clock of nanoseconds: a wait of \<open>w\<close> units, none of which is over before the first timer is
  due unless only one is waited for.
\<close>

definition sound_wait :: "int \<Rightarrow> time_point \<Rightarrow> time_point timer_queue \<Rightarrow> int \<Rightarrow> bool" where
  "sound_wait unit now s w \<longleftrightarrow>
     (\<forall>e \<in> set (heap s). w \<le> 1 \<or> since_epoch now + w * unit \<le> since_epoch (fst e))"

definition timer_due :: "time_point \<Rightarrow> time_point timer_queue \<Rightarrow> bool" where
  "timer_due now s \<longleftrightarrow> (\<exists>e \<in> set (heap s). fst e \<le> now)"

definition times_fit :: "time_point timer_queue \<Rightarrow> bool" where
  "times_fit s \<longleftrightarrow> (\<forall>e \<in> set (heap s). fits (since_epoch (fst e)))"

lemma sound_wait_mono: "sound_wait unit now s w \<Longrightarrow> w' \<le> max 1 w \<Longrightarrow> 0 \<le> unit \<Longrightarrow> sound_wait unit now s w'"
  unfolding sound_wait_def by (smt (verit) mult_right_mono)

lemma cast_num_nano: "cast_num 1 1000000000 1 1000 = 1" "cast_num 1 1000000000 1 1000000 = 1"
  by (simp_all add: cast_num_def gcd_proj2_if_dvd)

lemma total_nano:
  assumes "fits d"
  shows "total_milliseconds 1 1000000000 d = Some (d sdiv 1000000)"
    and "total_microseconds 1 1000000000 d = Some (d sdiv 1000)"
proof -
  have "total_milliseconds 1 1000000000 d = Some ((d * 1 * 1000) sdiv (1 * 1000000000))"
    "total_microseconds 1 1000000000 d = Some ((d * 1 * 1000000) sdiv (1 * 1000000000))"
    unfolding total_milliseconds_def total_microseconds_def
    using assms by (intro duration_cast_exact; simp add: cast_num_nano)+
  moreover have "(d * 1000) sdiv 1000000000 = d sdiv 1000000" "(d * 1000000) sdiv 1000000000 = d sdiv 1000"
    using sdiv_cancel [of 1000 d 1000000] sdiv_cancel [of 1000000 d 1000] by simp_all
  ultimately show "total_milliseconds 1 1000000000 d = Some (d sdiv 1000000)"
    "total_microseconds 1 1000000000 d = Some (d sdiv 1000)" by simp_all
qed

text \<open>Both waits, with the nanoseconds of their unit.\<close>

definition wait_units :: "int \<Rightarrow> time_point \<Rightarrow> int \<Rightarrow> time_point timer_queue \<Rightarrow> int" where
  "wait_units unit now max_duration s =
     (if heap s = [] then max_duration
      else let d = clamp (since_epoch (time_at s 0) - since_epoch now)
           in if d \<le> 0 then 0 else if d div unit = 0 then 1 else min max_duration (d div unit))"

lemma wait_duration_units:
  assumes "times_fit s" and "fits (since_epoch now)"
  shows "wait_duration_msec 1 1000000000 now m s = Some (wait_units 1000000 now m s)"
    and "wait_duration_usec 1 1000000000 now m s = Some (wait_units 1000 now m s)"
proof -
  have "wait_duration_msec 1 1000000000 now m s = Some (wait_units 1000000 now m s)
    \<and> wait_duration_usec 1 1000000000 now m s = Some (wait_units 1000 now m s)"
  proof (cases "heap s = []")
    case False
    then have "fits (since_epoch (time_at s 0))" using assms(1) by (simp add: times_fit_def time_at_def)
    note sub = subtract_time_clamp [OF this assms(2)]
    define d where "d = clamp (since_epoch (time_at s 0) - since_epoch now)"
    have "fits d" by (auto simp: d_def clamp_def max64_def min64_def)
    note tot = total_nano [OF this]
    have "0 < d \<Longrightarrow> d sdiv 1000000 = d div 1000000" "0 < d \<Longrightarrow> d sdiv 1000 = d div 1000"
      by (simp_all add: signed_divide_int_eq_divide_int)
    with False show ?thesis
      by (auto simp: wait_duration_msec_def wait_duration_usec_def to_msec_def to_usec_def to_wait_duration_def
          wait_units_def sub tot d_def [symmetric] Let_def)
  qed (simp add: wait_duration_msec_def wait_duration_usec_def wait_units_def)
  then show "wait_duration_msec 1 1000000000 now m s = Some (wait_units 1000000 now m s)"
    "wait_duration_usec 1 1000000000 now m s = Some (wait_units 1000 now m s)" by simp_all
qed

lemma wait_units:
  assumes inv: "heap_inv s" and unit: "0 < unit" and m: "0 \<le> m" and fit: "times_fit s" "fits (since_epoch now)"
  shows "0 \<le> wait_units unit now m s" and "wait_units unit now m s \<le> max 1 m"
    and "timer_due now s \<Longrightarrow> wait_units unit now m s = 0"
    and "wait_units unit now m s = 0 \<Longrightarrow> m = 0 \<or> timer_due now s"
    and "sound_wait unit now s (wait_units unit now m s)"
proof -
  let ?d = "since_epoch (time_at s 0) - since_epoch now"
  have least: "since_epoch (time_at s 0) \<le> since_epoch (fst e)" if "e \<in> set (heap s)" for e
    using heap_first [OF inv that] by (simp add: less_eq_time_point_def)
  have first: "heap s \<noteq> [] \<Longrightarrow> heap s ! 0 \<in> set (heap s)" by simp
  have neg: "clamp x \<le> 0 \<longleftrightarrow> x \<le> 0" and le: "0 < x \<Longrightarrow> clamp x \<le> x" for x
    by (auto simp: clamp_def max64_def min64_def)
  show "0 \<le> wait_units unit now m s" "wait_units unit now m s \<le> max 1 m"
    using m unit by (auto simp: wait_units_def Let_def pos_imp_zdiv_nonneg_iff)
  show "wait_units unit now m s = 0" if "timer_due now s"
  proof -
    from that obtain e where "e \<in> set (heap s)" "since_epoch (fst e) \<le> since_epoch now"
      by (auto simp: timer_due_def less_eq_time_point_def)
    with least [OF this(1)] show ?thesis by (auto simp: wait_units_def neg)
  qed
  show "m = 0 \<or> timer_due now s" if w: "wait_units unit now m s = 0"
  proof (cases "heap s = []")
    case False
    with w have "?d \<le> 0 \<or> m = 0" by (auto simp: wait_units_def Let_def neg min_def split: if_splits)
    with first [OF False] show ?thesis by (auto simp: timer_due_def less_eq_time_point_def time_at_def)
  qed (use w in \<open>simp add: wait_units_def\<close>)
  show "sound_wait unit now s (wait_units unit now m s)"
    unfolding sound_wait_def
  proof (intro ballI)
    fix e assume e: "e \<in> set (heap s)"
    then have ne: "heap s \<noteq> []" by auto
    have "min m (clamp ?d div unit) * unit \<le> ?d" if "0 < ?d"
    proof -
      have "min m (clamp ?d div unit) * unit \<le> clamp ?d div unit * unit"
        using unit by (intro mult_right_mono) simp_all
      also have "\<dots> \<le> clamp ?d"
        using unit pos_mod_sign [OF unit, of "clamp ?d"] div_mult_mod_eq [of "clamp ?d" unit] by linarith
      finally show ?thesis using le [OF that] by linarith
    qed
    with ne least [OF e] show "wait_units unit now m s \<le> 1 \<or>
        since_epoch now + wait_units unit now m s * unit \<le> since_epoch (fst e)"
      by (auto simp: wait_units_def Let_def neg not_le)
  qed
qed

end
