(* ===== verification/Asio_Timer_Set.thy ===== *)
theory Asio_Timer_Set
  imports Asio_Chrono
begin

text \<open>
  \<open>detail/impl/timer_queue_set.ipp\<close> and the timeouts of \<open>detail/impl/epoll_reactor.ipp\<close>: the timer
  queues of a reactor, linked through \<open>next_\<close>, and for how long the reactor may block. A queue is
  its address; a loop over the list that meets a cycle does not return (\<open>None\<close>, as an overflow).
  The clock is read once for every queue that is visited. Shown here: what the loops compute, that
  the reactor wakes up in time, and that it need not be woken at once.
\<close>

section \<open>The set of queues\<close>

type_synonym queues = "nat \<Rightarrow> time_point timer_queue"

text \<open>The set is the address of its first queue.\<close>

definition set_new :: "nat option" where
  "set_new = None"

definition set_insert :: "nat \<Rightarrow> links \<Rightarrow> nat option \<Rightarrow> links \<times> nat option" where
  "set_insert q nx first = (nx(q := first), Some q)"

partial_function (option) erase_loop :: "nat \<Rightarrow> links \<Rightarrow> nat \<Rightarrow> links option" where
  "erase_loop q nx p =
     (case nx p of
        None \<Rightarrow> Some nx
      | Some n \<Rightarrow> if n = q then Some (let nx1 = nx(p := nx q) in nx1(q := None)) else erase_loop q nx n)"

definition set_erase :: "nat \<Rightarrow> links \<Rightarrow> nat option \<Rightarrow> (links \<times> nat option) option" where
  "set_erase q nx first =
     (case first of
        None \<Rightarrow> Some (nx, first)
      | Some f \<Rightarrow>
          if q = f then Some (nx(q := None), nx q)
          else map_option (\<lambda>nx1. (nx1, first)) (erase_loop q nx f))"

partial_function (option) set_all_empty :: "links \<Rightarrow> queues \<Rightarrow> nat option \<Rightarrow> bool option" where
  "set_all_empty nx qs p =
     (case p of
        None \<Rightarrow> Some True
      | Some a \<Rightarrow> if \<not> queue_empty (qs a) then Some False else set_all_empty nx qs (nx a))"

text \<open>The waits, for a clock with a period of \<open>pnum / pden\<close> seconds.\<close>

partial_function (option) set_wait_msec ::
  "int \<Rightarrow> int \<Rightarrow> (nat \<Rightarrow> time_point) \<Rightarrow> links \<Rightarrow> queues \<Rightarrow> nat option \<Rightarrow> int \<Rightarrow> int option" where
  "set_wait_msec pnum pden now nx qs p min_duration =
     (case p of
        None \<Rightarrow> Some min_duration
      | Some a \<Rightarrow> do {
          m \<leftarrow> wait_duration_msec pnum pden (now a) min_duration (qs a);
          set_wait_msec pnum pden now nx qs (nx a) m
        })"

partial_function (option) set_wait_usec ::
  "int \<Rightarrow> int \<Rightarrow> (nat \<Rightarrow> time_point) \<Rightarrow> links \<Rightarrow> queues \<Rightarrow> nat option \<Rightarrow> int \<Rightarrow> int option" where
  "set_wait_usec pnum pden now nx qs p min_duration =
     (case p of
        None \<Rightarrow> Some min_duration
      | Some a \<Rightarrow> do {
          m \<leftarrow> wait_duration_usec pnum pden (now a) min_duration (qs a);
          set_wait_usec pnum pden now nx qs (nx a) m
        })"

partial_function (option) set_get_ready ::
  "(nat \<Rightarrow> time_point) \<Rightarrow> links \<Rightarrow> nat option \<Rightarrow> queues \<Rightarrow> wait_op list \<Rightarrow> (queues \<times> wait_op list) option" where
  "set_get_ready now nx p qs ops =
     (case p of
        None \<Rightarrow> Some (qs, ops)
      | Some a \<Rightarrow> do {
          r \<leftarrow> get_ready_timers (now a) (qs a) ops;
          set_get_ready now nx (nx a) (qs(a := fst r)) (snd r)
        })"

partial_function (option) set_get_all ::
  "links \<Rightarrow> nat option \<Rightarrow> queues \<Rightarrow> wait_op list \<Rightarrow> (queues \<times> wait_op list) option" where
  "set_get_all nx p qs ops =
     (case p of
        None \<Rightarrow> Some (qs, ops)
      | Some a \<Rightarrow> do {
          r \<leftarrow> get_all_timers (qs a) ops;
          set_get_all nx (nx a) (qs(a := fst r)) (snd r)
        })"

section \<open>The timeouts of the reactor\<close>

text \<open>How long \<open>epoll_wait\<close> may block, in milliseconds; never longer than five minutes.\<close>

definition get_timeout_msec ::
  "int \<Rightarrow> int \<Rightarrow> (nat \<Rightarrow> time_point) \<Rightarrow> links \<Rightarrow> queues \<Rightarrow> nat option \<Rightarrow> int \<Rightarrow> int option" where
  "get_timeout_msec pnum pden now nx qs first msec =
     (let max_msec = 5 * 60 * 1000
      in set_wait_msec pnum pden now nx qs first (if msec < 0 \<or> max_msec < msec then max_msec else msec))"

text \<open>The timer descriptor: whether the time is absolute, the seconds and the nanoseconds.\<close>

definition get_timeout_ts ::
  "int \<Rightarrow> int \<Rightarrow> (nat \<Rightarrow> time_point) \<Rightarrow> links \<Rightarrow> queues \<Rightarrow> nat option \<Rightarrow> (bool \<times> int \<times> int) option" where
  "get_timeout_ts pnum pden now nx qs first = do {
     usec \<leftarrow> set_wait_usec pnum pden now nx qs first (5 * 60 * 1000 * 1000);
     Some (usec = 0, usec sdiv 1000000, if usec \<noteq> 0 then (usec smod 1000000) * 1000 else 1)
   }"

text \<open>
  The timeout \<open>epoll_reactor::run\<close> computes; without a timer descriptor the queues bound it. The
  conversion to \<open>int\<close> keeps 32 bits.
\<close>

definition run_timeout ::
  "bool \<Rightarrow> int \<Rightarrow> int \<Rightarrow> (nat \<Rightarrow> time_point) \<Rightarrow> links \<Rightarrow> queues \<Rightarrow> nat option \<Rightarrow> int \<Rightarrow> int option" where
  "run_timeout has_timer_fd pnum pden now nx qs first usec =
     (if usec = 0 then Some 0
      else
        let timeout = (if usec < 0 then -1 else signed_take_bit 31 ((usec - 1) sdiv 1000 + 1))
        in if has_timer_fd then Some timeout else get_timeout_msec pnum pden now nx qs first timeout)"

section \<open>The list of queues\<close>

lemma set_insert_chain:
  "chain nx first ps \<Longrightarrow> q \<notin> set ps \<Longrightarrow> case set_insert q nx first of (nx', first') \<Rightarrow> chain nx' first' (q # ps)"
  by (simp add: set_insert_def)

lemma erase_loop_result:
  "chain nx (Some p) (p # ps) \<Longrightarrow> distinct (p # ps) \<Longrightarrow> q \<noteq> p \<Longrightarrow>
     \<exists>nx'. erase_loop q nx p = Some nx' \<and> chain nx' (Some p) (p # remove1 q ps)
       \<and> (\<forall>a. a \<notin> set (p # ps) \<longrightarrow> nx' a = nx a) \<and> (q \<in> set ps \<longrightarrow> nx' q = None)"
proof (induction ps arbitrary: p)
  case Nil
  then show ?case by (subst erase_loop.simps) simp
next
  case (Cons n ps)
  then have n: "nx p = Some n" by simp
  show ?case
  proof (cases "n = q")
    case True
    have "chain (nx(p := nx q, q := None)) (nx q) ps" using Cons.prems True by simp
    then have "chain (nx(p := nx q, q := None)) (Some p) (p # ps)" using Cons.prems(2) True by simp
    moreover have "erase_loop q nx p = Some (nx(p := nx q, q := None))"
      using n True by (subst erase_loop.simps) simp
    ultimately show ?thesis using True by auto
  next
    case False
    have "chain nx (Some n) (n # ps)" "distinct (n # ps)" "q \<noteq> n" using Cons.prems False by simp_all
    from Cons.IH [OF this] obtain nx' where
      IH: "erase_loop q nx n = Some nx'" "chain nx' (Some n) (n # remove1 q ps)"
      "\<forall>a. a \<notin> set (n # ps) \<longrightarrow> nx' a = nx a" "q \<in> set ps \<longrightarrow> nx' q = None" by blast
    have "erase_loop q nx p = Some nx'" using n False IH(1) by (subst erase_loop.simps) simp
    moreover have "nx' p = Some n" using IH(3) Cons.prems(2) n by simp
    ultimately show ?thesis using IH(2-4) False by simp
  qed
qed

lemma set_erase_result:
  assumes "chain nx first ps" and "distinct ps"
  shows "\<exists>nx' first'. set_erase q nx first = Some (nx', first') \<and> chain nx' first' (remove1 q ps)
    \<and> (\<forall>a. a \<notin> set ps \<longrightarrow> nx' a = nx a) \<and> (q \<in> set ps \<longrightarrow> nx' q = None)"
proof (cases ps)
  case Nil
  with assms show ?thesis by (simp add: set_erase_def)
next
  case (Cons p qs)
  show ?thesis
  proof (cases "q = p")
    case True
    with assms Cons show ?thesis by (simp add: set_erase_def)
  next
    case False
    with erase_loop_result [of nx p qs q] assms Cons show ?thesis by (auto simp: set_erase_def)
  qed
qed

lemma set_all_empty_result:
  "chain nx p ps \<Longrightarrow> set_all_empty nx qs p = Some (\<forall>a \<in> set ps. queue_empty (qs a))"
proof (induction ps arbitrary: p)
  case Nil
  then show ?case by (subst set_all_empty.simps) simp
next
  case (Cons a ps)
  then show ?case by (subst set_all_empty.simps) simp
qed

text \<open>The queues of a set: reachable states, with times and clock readings of 64 bits.\<close>

definition queues_ok :: "(nat \<Rightarrow> time_point) \<Rightarrow> queues \<Rightarrow> nat set \<Rightarrow> bool" where
  "queues_ok now qs A \<longleftrightarrow> (\<forall>a \<in> A. tq_run (\<lambda>_. False) (qs a) \<and> times_fit (qs a) \<and> fits (since_epoch (now a)))"

text \<open>
  \<open>get_ready_timers\<close> and \<open>get_all_timers\<close> both visit the queues in order, each visit leaving the
  queue in another state and adding operations to those handed over.
\<close>

locale visit_loop =
  fixes visit :: "(nat \<Rightarrow> time_point) \<Rightarrow> nat \<Rightarrow> time_point timer_queue \<Rightarrow> wait_op list
      \<Rightarrow> (time_point timer_queue \<times> wait_op list) option"
    and loop :: "(nat \<Rightarrow> time_point) \<Rightarrow> links \<Rightarrow> nat option \<Rightarrow> queues \<Rightarrow> wait_op list \<Rightarrow> (queues \<times> wait_op list) option"
  assumes visit_end: "loop now nx None qs ops = Some (qs, ops)"
    and visit_next: "loop now nx (Some a) qs ops =
      Option.bind (visit now a (qs a) ops) (\<lambda>r. loop now nx (nx a) (qs(a := fst r)) (snd r))"
begin

lemma visits:
  "chain nx p ps \<Longrightarrow> distinct ps \<Longrightarrow>
     \<forall>a \<in> set ps. \<forall>ops. visit now a (qs a) ops = Some (left a, ops @ out a) \<Longrightarrow>
     loop now nx p qs ops = Some (\<lambda>a. if a \<in> set ps then left a else qs a, ops @ concat (map out ps))"
proof (induction ps arbitrary: p qs ops)
  case Nil
  then show ?case by (simp add: visit_end)
next
  case (Cons a ps)
  have "chain nx (nx a) ps" "distinct ps"
    "\<forall>b \<in> set ps. \<forall>ops. visit now b ((qs(a := left a)) b) ops = Some (left b, ops @ out b)"
    using Cons.prems by auto
  note Cons.IH [OF this, of "ops @ out a"]
  moreover have "visit now a (qs a) ops = Some (left a, ops @ out a)" "p = Some a" using Cons.prems by simp_all
  moreover have "(\<lambda>b. if b \<in> set ps then left b else (qs(a := left a)) b) =
      (\<lambda>b. if b \<in> set (a # ps) then left b else qs b)" by auto
  ultimately show ?case by (simp only: visit_next bind.bind_lunit fst_conv snd_conv) simp
qed

end

interpretation ready_visits: visit_loop "\<lambda>now a. get_ready_timers (now a)" set_get_ready
  by unfold_locales (subst set_get_ready.simps, simp)+

interpretation all_visits: visit_loop "\<lambda>_ _. get_all_timers" "\<lambda>_. set_get_all"
  by unfold_locales (subst set_get_all.simps, simp)+

text \<open>What is ready in every queue, each with the entries that come out of it.\<close>

lemma set_get_ready_result:
  assumes "chain nx p ps" and "distinct ps" and ok: "\<forall>a \<in> set ps. tq_run (\<lambda>_. False) (qs a)"
  shows "\<exists>left es. set_get_ready now nx p qs ops =
      Some (\<lambda>a. if a \<in> set ps then left a else qs a,
        ops @ concat (map (\<lambda>a. concat (map (\<lambda>e. timer_ops (per_timer (qs a) (snd e))) (es a))) ps))
    \<and> (\<forall>a \<in> set ps. timers_fired (now a) (qs a) (left a) (es a))"
proof -
  have "\<forall>a \<in> set ps. \<exists>s' es. (\<forall>ops. get_ready_timers (now a) (qs a) ops =
      Some (s', ops @ concat (map (\<lambda>e. timer_ops (per_timer (qs a) (snd e))) es))) \<and> timers_fired (now a) (qs a) s' es"
    unfolding get_ready_timers_loop using ok tq_run_inv ready_loop_result by blast
  then obtain left es where *: "\<forall>a \<in> set ps. (\<forall>ops. get_ready_timers (now a) (qs a) ops =
      Some (left a, ops @ concat (map (\<lambda>e. timer_ops (per_timer (qs a) (snd e))) (es a))))
      \<and> timers_fired (now a) (qs a) (left a) (es a)" by metis
  with ready_visits.visits [OF assms(1,2), of now qs left "\<lambda>a. concat (map (\<lambda>e. timer_ops (per_timer (qs a) (snd e))) (es a))"]
  show ?thesis by blast
qed

lemma set_get_all_result:
  assumes "chain nx p ps" and "distinct ps" and ok: "\<forall>a \<in> set ps. tq_run (\<lambda>_. False) (qs a)"
  shows "\<exists>left out. set_get_all nx p qs ops = Some (\<lambda>a. if a \<in> set ps then left a else qs a, ops @ concat (map out ps))
    \<and> (\<forall>a \<in> set ps. queue_empty (left a) \<and> heap (left a) = [])"
proof -
  have "\<forall>a \<in> set ps. \<exists>s' out. (\<forall>ops. get_all_timers (qs a) ops = Some (s', ops @ out)) \<and> queue_empty s' \<and> heap s' = []"
    using ok tq_run_inv get_all_timers_result by metis
  then obtain left out where *: "\<forall>a \<in> set ps. (\<forall>ops. get_all_timers (qs a) ops = Some (left a, ops @ out a))
      \<and> queue_empty (left a) \<and> heap (left a) = []" by metis
  with all_visits.visits [OF assms(1,2), of qs left out] show ?thesis by blast
qed

section \<open>The waits\<close>

text \<open>
  Both waits go through the queues the same way: each visit gives the wait of the queue, bounded
  by what the visits before it have given.
\<close>

locale bounded_wait =
  fixes wait :: "time_point \<Rightarrow> int \<Rightarrow> time_point timer_queue \<Rightarrow> int option"
    and unit :: int
    and loop :: "(nat \<Rightarrow> time_point) \<Rightarrow> links \<Rightarrow> queues \<Rightarrow> nat option \<Rightarrow> int \<Rightarrow> int option"
  assumes unit_pos: "0 < unit"
    and wait_exact: "times_fit s \<Longrightarrow> fits (since_epoch t) \<Longrightarrow> wait t m s = Some (wait_units unit t m s)"
    and loop_end: "loop now nx qs None m = Some m"
    and loop_next: "loop now nx qs (Some a) m = Option.bind (wait (now a) m (qs a)) (loop now nx qs (nx a))"
begin

lemma loop_result:
  "chain nx p ps \<Longrightarrow> queues_ok now qs (set ps) \<Longrightarrow> 0 \<le> m \<Longrightarrow>
     \<exists>w. loop now nx qs p m = Some w \<and> 0 \<le> w \<and> w \<le> max 1 m
       \<and> (w = 0 \<longrightarrow> m = 0 \<or> (\<exists>a \<in> set ps. timer_due (now a) (qs a)))
       \<and> ((\<exists>a \<in> set ps. timer_due (now a) (qs a)) \<longrightarrow> w \<le> 1)
       \<and> (\<forall>a \<in> set ps. sound_wait unit (now a) (qs a) w)"
proof (induction ps arbitrary: p m)
  case Nil
  then show ?case by (simp add: loop_end)
next
  case (Cons a ps)
  let ?m = "wait_units unit (now a) m (qs a)"
  have a: "tq_run (\<lambda>_. False) (qs a)" "times_fit (qs a)" "fits (since_epoch (now a))"
    using Cons.prems(2) by (simp_all add: queues_ok_def)
  then have "heap_inv (qs a)" using tq_run_inv tq_invD(1) by blast
  note w = wait_units [OF this unit_pos Cons.prems(3) a(2,3)]
  have "chain nx (nx a) ps" "queues_ok now qs (set ps)" using Cons.prems by (simp_all add: queues_ok_def)
  from Cons.IH [OF this w(1)] obtain r where
    IH: "loop now nx qs (nx a) ?m = Some r" "0 \<le> r" "r \<le> max 1 ?m"
    "r = 0 \<longrightarrow> ?m = 0 \<or> (\<exists>b \<in> set ps. timer_due (now b) (qs b))"
    "(\<exists>b \<in> set ps. timer_due (now b) (qs b)) \<longrightarrow> r \<le> 1"
    "\<forall>b \<in> set ps. sound_wait unit (now b) (qs b) r" by blast
  have "loop now nx qs p m = Some r"
    using Cons.prems(1) IH(1) by (simp add: loop_next wait_exact [OF a(2,3)])
  moreover have "r \<le> max 1 m" using IH(3) w(2) by linarith
  moreover have "r = 0 \<longrightarrow> m = 0 \<or> (\<exists>b \<in> set (a # ps). timer_due (now b) (qs b))" using IH(4) w(4) by auto
  moreover have "(\<exists>b \<in> set (a # ps). timer_due (now b) (qs b)) \<longrightarrow> r \<le> 1" using IH(3,5) w(3) by auto
  moreover have "sound_wait unit (now a) (qs a) r"
    using sound_wait_mono [OF w(5) IH(3)] unit_pos by simp
  ultimately show ?case using IH(2,6) by auto
qed

end

interpretation msec_wait: bounded_wait "wait_duration_msec 1 1000000000" 1000000 "set_wait_msec 1 1000000000"
proof (unfold_locales, goal_cases)
  case 1
  show ?case by simp
next
  case (2 s t m)
  then show ?case by (rule wait_duration_units(1))
next
  case 3
  show ?case by (subst set_wait_msec.simps) simp
next
  case 4
  show ?case by (subst set_wait_msec.simps) simp
qed

interpretation usec_wait: bounded_wait "wait_duration_usec 1 1000000000" 1000 "set_wait_usec 1 1000000000"
proof (unfold_locales, goal_cases)
  case 1
  show ?case by simp
next
  case (2 s t m)
  then show ?case by (rule wait_duration_units(2))
next
  case 3
  show ?case by (subst set_wait_usec.simps) simp
next
  case 4
  show ?case by (subst set_wait_usec.simps) simp
qed

section \<open>Properties\<close>

text \<open>
  The set of timer queues is the list its links spell out: \<open>insert\<close> puts a queue in front,
  \<open>erase\<close> takes it out and clears its link, the loops return, \<open>all_empty\<close> asks every queue, and
  \<open>get_ready_timers\<close> hands over what is due in every queue, queue by queue.
\<close>

theorem timer_set_visits_every_queue:
  assumes "chain nx first ps" and "distinct ps" and "q \<notin> set ps" and "\<forall>a \<in> set ps. tq_run (\<lambda>_. False) (qs a)"
  shows "(case set_insert q nx first of (nx', first') \<Rightarrow> chain nx' first' (q # ps))
    \<and> (\<exists>nx' first'. set_erase p nx first = Some (nx', first') \<and> chain nx' first' (remove1 p ps)
        \<and> (p \<in> set ps \<longrightarrow> nx' p = None))
    \<and> set_all_empty nx qs first = Some (\<forall>a \<in> set ps. queue_empty (qs a))
    \<and> (\<exists>left es. set_get_ready now nx first qs ops =
        Some (\<lambda>a. if a \<in> set ps then left a else qs a,
          ops @ concat (map (\<lambda>a. concat (map (\<lambda>e. timer_ops (per_timer (qs a) (snd e))) (es a))) ps))
        \<and> (\<forall>a \<in> set ps. timers_fired (now a) (qs a) (left a) (es a)))"
  using set_insert_chain [OF assms(1,3)] set_erase_result [OF assms(1,2), of p] set_all_empty_result [OF assms(1), of qs]
    set_get_ready_result [OF assms(1,2,4), of now ops] by blast

theorem timer_set_visits_every_queue_witness:
  "set_all_empty ((\<lambda>_. None)(5 := Some 6)) (\<lambda>_. new_timer_queue (\<lambda>_. new_timer)) (Some 5) = Some True"
proof -
  have "tq_run (\<lambda>_. False) (new_timer_queue (\<lambda>_. new_timer) :: time_point timer_queue)" by (simp add: tq_run_def)
  with timer_set_visits_every_queue [of "(\<lambda>_. None)(5 := Some 6)" "Some 5" "[5, 6]" 7
      "\<lambda>_. new_timer_queue (\<lambda>_. new_timer)" 6 "\<lambda>_. Time_point 0" "[]"]
  show ?thesis by (simp add: queue_empty_def new_timer_queue_def)
qed

text \<open>
  C40. The reactor blocks for no longer than five minutes and never past a timer, unless for a
  single unit: with a clock of nanoseconds the timeouts of \<open>epoll_wait\<close> and of the timer
  descriptor are computed without overflow, end before the first timer of any queue is due or
  after one unit, are at most one unit when a timer is already due, and are zero only if one is due
  or no time to block was given.
\<close>

theorem reactor_wakes_in_time:
  assumes "chain nx first ps" and "queues_ok now qs (set ps)"
  shows "(\<exists>w. get_timeout_msec 1 1000000000 now nx qs first msec = Some w \<and> 0 \<le> w \<and> w \<le> 300000
      \<and> (w = 0 \<longrightarrow> msec = 0 \<or> (\<exists>a \<in> set ps. timer_due (now a) (qs a)))
      \<and> ((\<exists>a \<in> set ps. timer_due (now a) (qs a)) \<longrightarrow> w \<le> 1)
      \<and> (\<forall>a \<in> set ps. sound_wait 1000000 (now a) (qs a) w))
    \<and> (\<exists>absolute sec nsec. get_timeout_ts 1 1000000000 now nx qs first = Some (absolute, sec, nsec)
      \<and> (absolute \<longrightarrow> (\<exists>a \<in> set ps. timer_due (now a) (qs a)) \<and> sec = 0 \<and> nsec = 1)
      \<and> 0 \<le> sec \<and> sec \<le> 300 \<and> 0 < sec * 1000000000 + nsec \<and> 0 \<le> nsec \<and> nsec < 1000000000
      \<and> (\<forall>a \<in> set ps. \<forall>e \<in> set (heap (qs a)). absolute \<or> sec * 1000000000 + nsec \<le> 1000
          \<or> since_epoch (now a) + (sec * 1000000000 + nsec) \<le> since_epoch (fst e)))"
proof (intro conjI)
  have "0 \<le> (if msec < 0 \<or> 5 * 60 * 1000 < msec then 5 * 60 * 1000 else msec)" by simp
  from msec_wait.loop_result [OF assms this]
  show "\<exists>w. get_timeout_msec 1 1000000000 now nx qs first msec = Some w \<and> 0 \<le> w \<and> w \<le> 300000
      \<and> (w = 0 \<longrightarrow> msec = 0 \<or> (\<exists>a \<in> set ps. timer_due (now a) (qs a)))
      \<and> ((\<exists>a \<in> set ps. timer_due (now a) (qs a)) \<longrightarrow> w \<le> 1)
      \<and> (\<forall>a \<in> set ps. sound_wait 1000000 (now a) (qs a) w)"
    unfolding get_timeout_msec_def Let_def by (fastforce split: if_splits)
  have "(0 :: int) \<le> 5 * 60 * 1000 * 1000" by simp
  from usec_wait.loop_result [OF assms this] obtain u where
    u: "set_wait_usec 1 1000000000 now nx qs first (5 * 60 * 1000 * 1000) = Some u" "0 \<le> u" "u \<le> 300000000"
    "u = 0 \<longrightarrow> (\<exists>a \<in> set ps. timer_due (now a) (qs a))" "\<forall>a \<in> set ps. sound_wait 1000 (now a) (qs a) u"
    by auto
  have d: "u sdiv 1000000 = u div 1000000" "u smod 1000000 = u mod 1000000"
    using u(2) by (auto simp: signed_divide_int_eq_divide_int signed_modulo_int_eq_modulo_int sgn_if)
  have split: "u div 1000000 * 1000000000 + u mod 1000000 * 1000 = u * 1000"
    using div_mult_mod_eq [of u 1000000] by linarith
  have e: "get_timeout_ts 1 1000000000 now nx qs first =
      Some (u = 0, u div 1000000, if u \<noteq> 0 then u mod 1000000 * 1000 else 1)"
    unfolding get_timeout_ts_def u(1) d by (simp add: d)
  have sec: "0 \<le> u div 1000000" "u div 1000000 \<le> 300" "0 \<le> u mod 1000000" "u mod 1000000 < 1000000"
    using u(2,3) zdiv_mono1 [OF u(3), of 1000000] by (simp_all add: pos_imp_zdiv_nonneg_iff)
  show "\<exists>absolute sec nsec. get_timeout_ts 1 1000000000 now nx qs first = Some (absolute, sec, nsec)
      \<and> (absolute \<longrightarrow> (\<exists>a \<in> set ps. timer_due (now a) (qs a)) \<and> sec = 0 \<and> nsec = 1)
      \<and> 0 \<le> sec \<and> sec \<le> 300 \<and> 0 < sec * 1000000000 + nsec \<and> 0 \<le> nsec \<and> nsec < 1000000000
      \<and> (\<forall>a \<in> set ps. \<forall>e \<in> set (heap (qs a)). absolute \<or> sec * 1000000000 + nsec \<le> 1000
          \<or> since_epoch (now a) + (sec * 1000000000 + nsec) \<le> since_epoch (fst e))"
  proof (cases "u = 0")
    case True
    then show ?thesis
      using u(4) by (intro exI [of _ True] exI [of _ 0] exI [of _ 1]) (simp add: e)
  next
    case False
    then have "\<forall>a \<in> set ps. \<forall>e \<in> set (heap (qs a)). u * 1000 \<le> 1000
        \<or> since_epoch (now a) + u * 1000 \<le> since_epoch (fst e)"
      using u(5) by (fastforce simp: sound_wait_def)
    with False sec u(2) split show ?thesis
      by (intro exI [of _ False] exI [of _ "u div 1000000"] exI [of _ "u mod 1000000 * 1000"]) (simp add: e)
  qed
qed

text \<open>
  A queue whose only timer is due in half a millisecond lengthens the wait of a reactor that has
  another timer due now: the wait is one millisecond, not zero.
\<close>

definition pending :: "int \<Rightarrow> time_point timer_queue" where
  "pending t = fst (enqueue_timer (\<lambda>_. False) (Time_point t) 2 \<lparr>op_id = 1, op_ec = Success\<rparr> (new_timer_queue (\<lambda>_. new_timer)))"

lemma pending_heap: "heap (pending t) = [(Time_point t, 2)]"
  by (simp add: pending_def enqueue_timer_def new_timer_queue_def new_timer_def up_heap.simps)

lemma pending_run: "tq_run (\<lambda>_. False) (pending t)"
  unfolding pending_def tq_run_def
  by (intro r_into_rtranclp, rule tq_step.enqueue [OF _ surjective_pairing]) (simp add: new_timer_queue_def no_index_def)

lemma due_timer_waits:
  "get_timeout_msec 1 1000000000 (\<lambda>_. Time_point 0) ((\<lambda>_. None)(5 := Some 6))
     (\<lambda>a. if a = 5 then pending 0 else pending 500000) (Some 5) (-1) = Some 1"
proof -
  have "times_fit (pending 0)" "times_fit (pending 500000)" "fits (since_epoch (Time_point 0))"
    by (simp_all add: times_fit_def pending_heap max64_def min64_def)
  then show ?thesis
    by (simp add: get_timeout_msec_def msec_wait.loop_next msec_wait.loop_end wait_duration_units wait_units_def
        pending_heap time_at_def clamp_def max64_def min64_def)
qed

theorem reactor_wakes_in_time_witness:
  "\<exists>w. get_timeout_msec 1 1000000000 (\<lambda>_. Time_point 0) (\<lambda>_. None) (\<lambda>_. pending 7000000) (Some 5) (-1) = Some w
    \<and> 0 < w \<and> w * 1000000 \<le> 7000000"
proof -
  have "queues_ok (\<lambda>_. Time_point 0) (\<lambda>_. pending 7000000) (set [5])" "chain (\<lambda>_. None) (Some 5) [5]"
    by (simp_all add: queues_ok_def pending_run times_fit_def pending_heap max64_def min64_def)
  from reactor_wakes_in_time [OF this(2,1), of "-1"] show ?thesis
    by (auto simp: timer_due_def sound_wait_def pending_heap less_eq_time_point_def)
qed

end
