(* ===== verification/Asio_Scheduler.thy ===== *)
theory Asio_Scheduler
  imports Prelude "HOL-Library.Multiset" "HOL-Library.Sublist"
begin

unbundle bit_operations_syntax

text \<open>
  \<open>detail/scheduler.hpp\<close> and \<open>detail/impl/scheduler.ipp\<close> with the event of
  \<open>detail/posix_event.hpp\<close>: the loop behind \<open>io_context::run\<close>. What a thread does while it holds the
  mutex is a function of the scheduler; the threads, the posting of handlers from anywhere, the
  reactor with the states of its descriptors, and the condition variable are a step relation in
  which every locked region is one step. The queue of operations is a list (\<open>Asio_Op_Queue\<close>).
  Shown here: no handler is lost or run twice and the queue is served in order; the count of
  outstanding work is exact for handlers, while the states of descriptors do not count and may be
  left on the queue; \<open>stop\<close> reaches every thread; no wake-up is lost as long as no thread leaves
  after one handler or by an exception, and one is lost otherwise. A handler that itself calls
  \<open>poll\<close> or another of these functions of the same scheduler is not modelled: with one thread
  \<open>poll\<close> would move the handlers of the outer call to the queue without the count that belongs
  to them.
\<close>

section \<open>The event\<close>

text \<open>
  What is on the queue: the reactor as a task, a handler, or the state of a descriptor, which the
  reactor reports as ready. Only handlers count as work.
\<close>

datatype sched_op = Task_op | Handler nat | Descriptor nat

text \<open>
  The state of the event counts the waiting threads in its upper bits; the lowest bit says
  whether it is signalled. What is done to the threads is an effect.
\<close>

datatype sched_effect = Signal_one | Signal_all | Interrupt_task

record scheduler =
  one_thread :: bool
  has_task :: bool
  task_interrupted :: bool
  outstanding_work :: int
  sched_queue :: "sched_op list"
  stopped :: bool
  shut_down :: bool
  event_state :: nat

definition unlock_and_signal_one :: "scheduler \<Rightarrow> scheduler \<times> sched_effect list" where
  "unlock_and_signal_one s =
     (let s1 = s\<lparr>event_state := event_state s OR 1\<rparr>
      in (s1, if event_state s1 > 1 then [Signal_one] else []))"

definition maybe_unlock_and_signal_one :: "scheduler \<Rightarrow> scheduler \<times> sched_effect list \<times> bool" where
  "maybe_unlock_and_signal_one s =
     (let s1 = s\<lparr>event_state := event_state s OR 1\<rparr>
      in if event_state s1 > 1 then (s1, [Signal_one], True) else (s1, [], False))"

definition event_signal_all :: "scheduler \<Rightarrow> scheduler \<times> sched_effect list" where
  "event_signal_all s = (s\<lparr>event_state := event_state s OR 1\<rparr>, [Signal_all])"

definition event_clear :: "scheduler \<Rightarrow> scheduler" where
  "event_clear s = s\<lparr>event_state := event_state s - event_state s mod 2\<rparr>"

text \<open>Going to sleep in \<open>wait\<close> or \<open>wait_for_usec\<close>, and coming back.\<close>

definition event_sleep :: "scheduler \<Rightarrow> scheduler" where
  "event_sleep s = s\<lparr>event_state := event_state s + 2\<rparr>"

definition event_back :: "scheduler \<Rightarrow> scheduler" where
  "event_back s = s\<lparr>event_state := event_state s - 2\<rparr>"

section \<open>The locked regions\<close>

definition new_scheduler :: "bool \<Rightarrow> scheduler" where
  "new_scheduler one = \<lparr>one_thread = one, has_task = False, task_interrupted = True, outstanding_work = 0,
     sched_queue = [], stopped = False, shut_down = False, event_state = 0\<rparr>"

definition interrupt_task :: "scheduler \<Rightarrow> scheduler \<times> sched_effect list" where
  "interrupt_task s =
     (if \<not> task_interrupted s \<and> has_task s then (s\<lparr>task_interrupted := True\<rparr>, [Interrupt_task]) else (s, []))"

definition stop_all_threads :: "scheduler \<Rightarrow> scheduler \<times> sched_effect list" where
  "stop_all_threads s =
     (let (s1, es) = event_signal_all (s\<lparr>stopped := True\<rparr>);
          (s2, es') = interrupt_task s1
      in (s2, es @ es'))"

definition wake_one_thread :: "scheduler \<Rightarrow> scheduler \<times> sched_effect list" where
  "wake_one_thread s =
     (case maybe_unlock_and_signal_one s of (s1, es, woken) \<Rightarrow> if woken then (s1, es) else interrupt_task s1)"

definition push_op :: "sched_op list \<Rightarrow> scheduler \<Rightarrow> scheduler" where
  "push_op ops s = s\<lparr>sched_queue := sched_queue s @ ops\<rparr>"

definition init_task :: "scheduler \<Rightarrow> scheduler \<times> sched_effect list" where
  "init_task s =
     (if \<not> shut_down s \<and> \<not> has_task s then wake_one_thread (push_op [Task_op] (s\<lparr>has_task := True\<rparr>)) else (s, []))"

text \<open>
  The locked parts of \<open>post_immediate_completion\<close>, \<open>post_deferred_completion\<close> and \<open>do_dispatch\<close>
  for one operation, and of \<open>post_immediate_completions\<close> and \<open>post_deferred_completions\<close> for
  several under one lock.
\<close>

definition post_ops :: "nat list \<Rightarrow> scheduler \<Rightarrow> scheduler \<times> sched_effect list" where
  "post_ops hs s = wake_one_thread (push_op (map Handler hs) s)"

definition restart :: "scheduler \<Rightarrow> scheduler" where
  "restart s = s\<lparr>stopped := False\<rparr>"

text \<open>
  Where a thread is: outside; about to lock; asleep on the event, or awake again; in the task,
  blocking or not, or back from it; in a handler; in the state of a descriptor; about to call \<open>stop\<close> because no work is left, or
  to put its own operations on the queue, and then somewhere; or gone, though the scheduler was
  not stopped (by an exception or because it was asked for one handler only).
\<close>

datatype sched_pc =
    Outside
  | Locking
  | Asleep
  | Awake
  | In_task bool
  | Task_done
  | Handling nat
  | Performing nat
  | Stopping sched_pc
  | Flushing sched_pc
  | Gone

datatype run_mode = Run | Run_one | Wait_one int | Poll | Poll_one

definition take_handler :: "sched_pc \<Rightarrow> sched_op list \<Rightarrow> scheduler \<Rightarrow> scheduler \<times> sched_effect list \<times> sched_pc" where
  "take_handler p rest s =
     (let s1 = s\<lparr>sched_queue := rest\<rparr>;
          (s2, es) = (if rest \<noteq> [] \<and> \<not> one_thread s1 then wake_one_thread s1 else (s1, []))
      in (s2, es, p))"

definition take_task :: "bool \<Rightarrow> sched_op list \<Rightarrow> scheduler \<Rightarrow> scheduler \<times> sched_effect list \<times> sched_pc" where
  "take_task block rest s =
     (let more = (rest \<noteq> []);
          s1 = s\<lparr>sched_queue := rest, task_interrupted := more\<rparr>;
          (s2, es) = (if more \<and> \<not> one_thread s1 then unlock_and_signal_one s1 else (s1, []))
      in (s2, es, In_task (\<not> more \<and> block)))"

text \<open>\<open>do_run_one\<close>: once around its loop.\<close>

definition do_run_one :: "scheduler \<Rightarrow> scheduler \<times> sched_effect list \<times> sched_pc" where
  "do_run_one s =
     (if stopped s then (s, [], Outside)
      else case sched_queue s of
        [] \<Rightarrow> (event_sleep (event_clear s), [], Asleep)
      | Task_op # rest \<Rightarrow> take_task True rest s
      | Handler h # rest \<Rightarrow> take_handler (Handling h) rest s
      | Descriptor d # rest \<Rightarrow> take_handler (Performing d) rest s)"

text \<open>\<open>do_wait_one\<close>: with an operation in front, and from the beginning.\<close>

definition wait_front :: "int \<Rightarrow> scheduler \<Rightarrow> scheduler \<times> sched_effect list \<times> sched_pc" where
  "wait_front usec s =
     (case sched_queue s of
        [] \<Rightarrow> (s, [], Gone)
      | Task_op # rest \<Rightarrow> take_task (usec \<noteq> 0) rest s
      | Handler h # rest \<Rightarrow> take_handler (Handling h) rest s
      | Descriptor d # rest \<Rightarrow> take_handler (Performing d) rest s)"

definition do_wait_one :: "int \<Rightarrow> scheduler \<Rightarrow> scheduler \<times> sched_effect list \<times> sched_pc" where
  "do_wait_one usec s =
     (if stopped s then (s, [], Outside)
      else if sched_queue s = [] then (event_sleep (event_clear s), [], Asleep)
      else wait_front usec s)"

definition do_poll_one :: "scheduler \<Rightarrow> scheduler \<times> sched_effect list \<times> sched_pc" where
  "do_poll_one s =
     (if stopped s then (s, [], Outside)
      else case sched_queue s of
        [] \<Rightarrow> (s, [], Gone)
      | Task_op # rest \<Rightarrow> (s\<lparr>sched_queue := rest\<rparr>, [], In_task False)
      | Handler h # rest \<Rightarrow> take_handler (Handling h) rest s
      | Descriptor d # rest \<Rightarrow> take_handler (Performing d) rest s)"

fun attempt :: "run_mode \<Rightarrow> scheduler \<Rightarrow> scheduler \<times> sched_effect list \<times> sched_pc" where
  "attempt Run s = do_run_one s"
| "attempt Run_one s = do_run_one s"
| "attempt (Wait_one usec) s = do_wait_one usec s"
| "attempt Poll s = do_poll_one s"
| "attempt Poll_one s = do_poll_one s"

text \<open>Back from the event: \<open>wait\<close> looks at the state again, \<open>wait_for_usec\<close> does not.\<close>

fun after_wake :: "run_mode \<Rightarrow> scheduler \<Rightarrow> scheduler \<times> sched_effect list \<times> sched_pc" where
  "after_wake (Wait_one usec) s = wait_front 0 (event_back s)"
| "after_wake mode s =
     (if even (event_state (event_back s)) then (event_sleep (event_back s), [], Asleep)
      else do_run_one (event_back s))"

text \<open>
  Back from the task: \<open>task_cleanup\<close> adds the thread's own count of work, which it does before it
  takes the lock, and puts the thread's operations and the task on the queue; then
  \<open>do_run_one\<close> goes around again, and the others look at the front.
\<close>

definition second_look :: "bool \<Rightarrow> scheduler \<Rightarrow> scheduler \<times> sched_effect list \<times> sched_pc" where
  "second_look notify s =
     (case sched_queue s of
        [] \<Rightarrow> (s, [], Gone)
      | Task_op # rest \<Rightarrow>
          if notify then (case maybe_unlock_and_signal_one s of (s1, es, _) \<Rightarrow> (s1, es, Gone)) else (s, [], Gone)
      | Handler h # rest \<Rightarrow> take_handler (Handling h) rest s
      | Descriptor d # rest \<Rightarrow> take_handler (Performing d) rest s)"

definition task_work_cleanup :: "int \<Rightarrow> scheduler \<Rightarrow> scheduler" where
  "task_work_cleanup own_work s =
     (if own_work > 0 then s\<lparr>outstanding_work := outstanding_work s + own_work\<rparr> else s)"

definition task_cleanup :: "sched_op list \<Rightarrow> scheduler \<Rightarrow> scheduler" where
  "task_cleanup own s = push_op [Task_op] (push_op own (s\<lparr>task_interrupted := True\<rparr>))"

fun after_task :: "run_mode \<Rightarrow> scheduler \<Rightarrow> scheduler \<times> sched_effect list \<times> sched_pc" where
  "after_task (Wait_one usec) s = second_look (\<not> one_thread s) s"
| "after_task Poll s = second_look True s"
| "after_task Poll_one s = second_look True s"
| "after_task mode s = do_run_one s"

text \<open>
  \<open>work_cleanup\<close> before it takes the lock: the count, and whether it has come down to zero.
\<close>

definition work_cleanup :: "int \<Rightarrow> scheduler \<Rightarrow> scheduler \<times> bool" where
  "work_cleanup own_work s =
     (if own_work > 1 then (s\<lparr>outstanding_work := outstanding_work s + (own_work - 1)\<rparr>, False)
      else if own_work < 1 then
        let s1 = s\<lparr>outstanding_work := outstanding_work s - 1\<rparr> in (s1, outstanding_work s1 = 0)
      else (s, False))"

text \<open>
  The count before a thread may enter \<open>run\<close>, \<open>run_one\<close>, \<open>wait_one\<close>, \<open>poll\<close> or \<open>poll_one\<close>: without
  work it stops the scheduler and returns.
\<close>

definition run_entry :: "scheduler \<Rightarrow> sched_pc" where
  "run_entry s = (if outstanding_work s = 0 then Stopping Outside else Locking)"

text \<open>After a handler: \<open>run\<close> and \<open>poll\<close> go on, unless it threw; the others return.\<close>

definition after_handler :: "run_mode \<Rightarrow> bool \<Rightarrow> sched_pc" where
  "after_handler mode thrown = (if (mode = Run \<or> mode = Poll) \<and> \<not> thrown then Locking else Gone)"

section \<open>The threads\<close>

record worker =
  pc :: sched_pc
  mode :: run_mode
  own_work :: int
  own_ops :: "sched_op list"

text \<open>\<open>compensating_work_started\<close>\<close>

definition compensate :: "worker \<Rightarrow> worker" where
  "compensate w = w\<lparr>own_work := own_work w + 1\<rparr>"

text \<open>
  \<open>signals\<close>: calls of \<open>pthread_cond_signal\<close> that are still to come. \<open>task_woken\<close>: whether the task
  has been interrupted since it was last run. \<open>pending\<close>: the asynchronous operations the reactor
  holds; \<open>posting\<close>: counted, but not yet on a queue; \<open>guards\<close>: what else is counted as work.
  \<open>accepted\<close> records the handlers that were ever handed over, \<open>begun\<close> the operations taken from
  the queue, in order, and \<open>inlined\<close> the handlers that the state of a descriptor completed itself.
\<close>

record sched_sys =
  sched :: scheduler
  workers :: "nat \<Rightarrow> worker"
  signals :: nat
  task_woken :: bool
  pending :: "nat multiset"
  posting :: "nat multiset"
  guards :: nat
  accepted :: "nat multiset"
  begun :: "sched_op list"
  inlined :: "nat list"

fun wake :: "worker \<Rightarrow> worker" where
  "wake w = (if pc w = Asleep then w\<lparr>pc := Awake\<rparr> else w)"

fun apply_effect :: "sched_effect \<Rightarrow> sched_sys \<Rightarrow> sched_sys" where
  "apply_effect Signal_one y = y\<lparr>signals := signals y + 1\<rparr>"
| "apply_effect Signal_all y = y\<lparr>workers := wake \<circ> workers y\<rparr>"
| "apply_effect Interrupt_task y = y\<lparr>task_woken := True\<rparr>"

text \<open>A locked region that concerns no thread's position, and one that does.\<close>

definition region :: "scheduler \<times> sched_effect list \<Rightarrow> sched_sys \<Rightarrow> sched_sys" where
  "region r y = fold apply_effect (snd r) (y\<lparr>sched := fst r\<rparr>)"

definition go :: "nat \<Rightarrow> sched_pc \<Rightarrow> sched_sys \<Rightarrow> sched_sys" where
  "go i p y = y\<lparr>workers := (workers y)(i := (workers y i)\<lparr>pc := p\<rparr>)\<rparr>"

fun begins :: "sched_pc \<Rightarrow> sched_op list" where
  "begins (Handling h) = [Handler h]"
| "begins (Performing d) = [Descriptor d]"
| "begins _ = []"

definition region_to :: "nat \<Rightarrow> scheduler \<times> sched_effect list \<times> sched_pc \<Rightarrow> sched_sys \<Rightarrow> sched_sys" where
  "region_to i r y =
     (case r of (s, es, p) \<Rightarrow> region (s, es) (go i p (y\<lparr>begun := begun y @ begins p\<rparr>)))"

definition set_worker :: "nat \<Rightarrow> (worker \<Rightarrow> worker) \<Rightarrow> sched_sys \<Rightarrow> sched_sys" where
  "set_worker i f y = y\<lparr>workers := (workers y)(i := f (workers y i))\<rparr>"

text \<open>There are \<open>N\<close> threads that may run the scheduler.\<close>

inductive sched_step :: "nat \<Rightarrow> sched_sys \<Rightarrow> sched_sys \<Rightarrow> bool" for N where
  enter: "i < N \<Longrightarrow> pc (workers y i) = Outside \<or> pc (workers y i) = Gone \<Longrightarrow>
     sched_step N y (go i (run_entry (sched y)) (set_worker i (\<lambda>w. w\<lparr>mode := m, own_work := 0, own_ops := []\<rparr>) y))"
| lock: "i < N \<Longrightarrow> pc (workers y i) = Locking \<Longrightarrow>
     sched_step N y (region_to i (attempt (mode (workers y i)) (sched y)) y)"
| deliver: "i < N \<Longrightarrow> 0 < signals y \<Longrightarrow> pc (workers y i) = Asleep \<Longrightarrow>
     sched_step N y (go i Awake (y\<lparr>signals := signals y - 1\<rparr>))"
| deliver_nobody: "0 < signals y \<Longrightarrow> \<forall>i < N. pc (workers y i) \<noteq> Asleep \<Longrightarrow>
     sched_step N y (y\<lparr>signals := signals y - 1\<rparr>)"
| spurious: "i < N \<Longrightarrow> pc (workers y i) = Asleep \<Longrightarrow> sched_step N y (go i Awake y)"
| relock: "i < N \<Longrightarrow> pc (workers y i) = Awake \<Longrightarrow>
     sched_step N y (region_to i (after_wake (mode (workers y i)) (sched y)) y)"
| task_completes: "i < N \<Longrightarrow> pc (workers y i) = In_task block \<Longrightarrow> h \<in># pending y \<Longrightarrow>
     sched_step N y (set_worker i (\<lambda>w. w\<lparr>own_ops := own_ops w @ [Handler h]\<rparr>) (y\<lparr>pending := pending y - {#h#}\<rparr>))"
| task_reports: "i < N \<Longrightarrow> pc (workers y i) = In_task block \<Longrightarrow> Descriptor d \<notin> set (own_ops (workers y i)) \<Longrightarrow>
     sched_step N y (set_worker i (\<lambda>w. w\<lparr>own_ops := own_ops w @ [Descriptor d]\<rparr>) y)"
| task_returns: "i < N \<Longrightarrow> pc (workers y i) = In_task block \<Longrightarrow>
     sched_step N y (go i Task_done (set_worker i (\<lambda>w. w\<lparr>own_work := 0\<rparr>)
       (y\<lparr>sched := task_work_cleanup (own_work (workers y i)) (sched y), task_woken := False\<rparr>)))"
| task_relock: "i < N \<Longrightarrow> pc (workers y i) = Task_done \<Longrightarrow>
     sched_step N y (region_to i (after_task (mode (workers y i)) (task_cleanup (own_ops (workers y i)) (sched y)))
       (set_worker i (\<lambda>w. w\<lparr>own_ops := []\<rparr>) y))"
| post_own: "i < N \<Longrightarrow> pc (workers y i) = Handling h \<Longrightarrow> one_thread (sched y) \<or> is_continuation \<Longrightarrow>
     sched_step N y (set_worker i (\<lambda>w. w\<lparr>own_work := own_work w + int (length hs), own_ops := own_ops w @ map Handler hs\<rparr>)
       (y\<lparr>accepted := accepted y + mset hs\<rparr>))"
| deferred_own: "i < N \<Longrightarrow> pc (workers y i) = Handling h \<Longrightarrow> one_thread (sched y) \<Longrightarrow> mset hs \<subseteq># pending y \<Longrightarrow>
     sched_step N y (set_worker i (\<lambda>w. w\<lparr>own_ops := own_ops w @ map Handler hs\<rparr>) (y\<lparr>pending := pending y - mset hs\<rparr>))"
| performs: "i < N \<Longrightarrow> pc (workers y i) = Performing d \<Longrightarrow> mset (h # hs) \<subseteq># pending y \<Longrightarrow>
     sched_step N y (go i (Handling h)
       (if one_thread (sched y)
        then set_worker i (\<lambda>w. w\<lparr>own_ops := own_ops w @ map Handler hs\<rparr>)
          (y\<lparr>pending := pending y - mset (h # hs), inlined := inlined y @ [h]\<rparr>)
        else y\<lparr>pending := pending y - mset (h # hs), inlined := inlined y @ [h], posting := posting y + mset hs\<rparr>))"
| performs_nothing: "i < N \<Longrightarrow> pc (workers y i) = Performing d \<Longrightarrow>
     work_cleanup (own_work (compensate (workers y i))) (sched y) = (s', last_one) \<Longrightarrow>
     p = after_handler (mode (workers y i)) False \<Longrightarrow>
     p' = (if own_ops (workers y i) = [] then p else Flushing p) \<Longrightarrow>
     sched_step N y (go i (if last_one then Stopping p' else p') (set_worker i (\<lambda>w. w\<lparr>own_work := 0\<rparr>) (y\<lparr>sched := s'\<rparr>)))"
| handler_done: "i < N \<Longrightarrow> pc (workers y i) = Handling h \<Longrightarrow>
     work_cleanup (own_work (workers y i)) (sched y) = (s', last_one) \<Longrightarrow>
     p = after_handler (mode (workers y i)) thrown \<Longrightarrow>
     p' = (if own_ops (workers y i) = [] then p else Flushing p) \<Longrightarrow>
     sched_step N y (go i (if last_one then Stopping p' else p') (set_worker i (\<lambda>w. w\<lparr>own_work := 0\<rparr>) (y\<lparr>sched := s'\<rparr>)))"
| stop_no_work: "i < N \<Longrightarrow> pc (workers y i) = Stopping p \<Longrightarrow>
     sched_step N y (go i p (region (stop_all_threads (sched y)) y))"
| flush: "i < N \<Longrightarrow> pc (workers y i) = Flushing p \<Longrightarrow>
     sched_step N y (go i p (set_worker i (\<lambda>w. w\<lparr>own_ops := []\<rparr>)
       (y\<lparr>sched := push_op (own_ops (workers y i)) (sched y)\<rparr>)))"
| post_count: "sched_step N y
     (y\<lparr>sched := (sched y)\<lparr>outstanding_work := outstanding_work (sched y) + int (length hs)\<rparr>,
        posting := posting y + mset hs, accepted := accepted y + mset hs\<rparr>)"
| post_push: "mset hs \<subseteq># posting y \<Longrightarrow>
     sched_step N y (region (post_ops hs (sched y)) (y\<lparr>posting := posting y - mset hs\<rparr>))"
| start_async: "sched_step N y
     (y\<lparr>sched := (sched y)\<lparr>outstanding_work := outstanding_work (sched y) + 1\<rparr>,
        pending := add_mset h (pending y), accepted := add_mset h (accepted y)\<rparr>)"
| post_deferred: "hs \<noteq> [] \<Longrightarrow> mset hs \<subseteq># pending y \<Longrightarrow>
     sched_step N y (region (post_ops hs (sched y)) (y\<lparr>pending := pending y - mset hs\<rparr>))"
| guard: "sched_step N y
     (y\<lparr>sched := (sched y)\<lparr>outstanding_work := outstanding_work (sched y) + 1\<rparr>, guards := guards y + 1\<rparr>)"
| unguard: "0 < guards y \<Longrightarrow> sched_step N y
     (y\<lparr>sched := (sched y)\<lparr>outstanding_work := outstanding_work (sched y) - 1\<rparr>, guards := guards y - 1\<rparr>)"
| stop: "sched_step N y (region (stop_all_threads (sched y)) y)"
| again: "sched_step N y (y\<lparr>sched := restart (sched y)\<rparr>)"
| init: "sched_step N y (region (init_task (sched y)) y)"

definition sched_start :: "bool \<Rightarrow> sched_sys" where
  "sched_start one = \<lparr>sched = new_scheduler one,
     workers = (\<lambda>_. \<lparr>pc = Outside, mode = Run, own_work = 0, own_ops = []\<rparr>), signals = 0, task_woken = False,
     pending = {#}, posting = {#}, guards = 0, accepted = {#}, begun = [], inlined = []\<rparr>"

definition sched_run :: "nat \<Rightarrow> bool \<Rightarrow> sched_sys \<Rightarrow> bool" where
  "sched_run N one = (sched_step N)\<^sup>*\<^sup>* (sched_start one)"

section \<open>What a locked region does\<close>

fun handlers :: "sched_op list \<Rightarrow> nat list" where
  "handlers [] = []"
| "handlers (Task_op # ops) = handlers ops"
| "handlers (Handler h # ops) = h # handlers ops"
| "handlers (Descriptor d # ops) = handlers ops"

text \<open>The operations on a queue without the task.\<close>

definition queued :: "sched_op list \<Rightarrow> sched_op list" where
  "queued ops = filter (\<lambda>op. op \<noteq> Task_op) ops"

lemma queued_simps [simp]:
  "queued [] = []" "queued (Task_op # ops) = queued ops" "queued (Handler h # ops) = Handler h # queued ops"
  "queued (Descriptor d # ops) = Descriptor d # queued ops" "queued (xs @ ys) = queued xs @ queued ys"
  "queued (map Handler hs) = map Handler hs"
  by (simp_all add: queued_def)

lemma handlers_queued [simp]: "handlers (queued ops) = handlers ops"
  by (induction ops rule: handlers.induct) simp_all

lemma handlers_append [simp]: "handlers (xs @ ys) = handlers xs @ handlers ys"
  by (induction xs rule: handlers.induct) auto

lemma handlers_map [simp]: "handlers (map Handler hs) = hs"
  by (induction hs) auto

abbreviation tasks :: "sched_op list \<Rightarrow> nat" where
  "tasks ops \<equiv> count_list ops Task_op"

lemma tasks_map [simp]: "tasks (map Handler hs) = 0"
  by (induction hs) auto

fun in_task :: "sched_pc \<Rightarrow> bool" where
  "in_task (In_task b) = True"
| "in_task Task_done = True"
| "in_task _ = False"

definition waiting :: "sched_pc \<Rightarrow> bool" where
  "waiting p \<longleftrightarrow> p = Asleep \<or> p = Awake"

lemma or_one: "n OR Suc 0 = (if even n then Suc n else n)"
  by (simp add: or_Suc_0_eq)

lemma div_or_one [simp]: "(n OR Suc 0) div 2 = n div 2"
  by (simp add: or_one)

lemma odd_or_one [simp]: "odd (n OR Suc 0)"
  by (simp add: or_one)

text \<open>
  A region in which a thread decides what to do next: the fields it leaves alone, the waiting
  threads it counts, the operation it takes from the front of the queue, whom it wakes, and that
  it goes to sleep, on the event or in the task, only when it leaves the queue empty.
\<close>

definition region_ok :: "scheduler \<Rightarrow> scheduler \<times> sched_effect list \<times> sched_pc \<Rightarrow> bool" where
  "region_ok s r \<longleftrightarrow> (case r of (s', es, p) \<Rightarrow>
     outstanding_work s' = outstanding_work s \<and> one_thread s' = one_thread s \<and> has_task s' = has_task s
     \<and> stopped s' = stopped s
     \<and> event_state s' div 2 = event_state s div 2 + of_bool (p = Asleep)
     \<and> queued (sched_queue s) = begins p @ queued (sched_queue s')
     \<and> tasks (sched_queue s) = tasks (sched_queue s') + of_bool (in_task p)
     \<and> Signal_all \<notin> set es
     \<and> (task_interrupted s' \<longrightarrow> task_interrupted s \<or> Interrupt_task \<in> set es \<or> (in_task p \<and> p \<noteq> In_task True))
     \<and> (p = Asleep \<or> p = In_task True \<longrightarrow> sched_queue s' = [])
     \<and> (p = Outside \<longrightarrow> stopped s)
     \<and> (stopped s \<longrightarrow> odd (event_state s) \<longrightarrow> p \<noteq> Asleep \<and> p \<noteq> In_task True \<and> odd (event_state s'))
     \<and> (p = In_task True \<longrightarrow> \<not> task_interrupted s')
     \<and> (p \<in> {Outside, Asleep, Gone, In_task True, In_task False} \<or> (\<exists>h. p = Handling h) \<or> (\<exists>d. p = Performing d)))"

definition wakes :: "scheduler \<Rightarrow> scheduler \<times> sched_effect list \<Rightarrow> bool" where
  "wakes s r \<longleftrightarrow> (case r of (s', es) \<Rightarrow>
     outstanding_work s' = outstanding_work s \<and> one_thread s' = one_thread s \<and> has_task s' = has_task s
     \<and> stopped s' = stopped s \<and> sched_queue s' = sched_queue s \<and> event_state s' div 2 = event_state s div 2
     \<and> odd (event_state s') \<and> Signal_all \<notin> set es
     \<and> (task_interrupted s' \<longrightarrow> task_interrupted s \<or> Interrupt_task \<in> set es))"

lemma wake_one_wakes: "wakes s (wake_one_thread s)"
  unfolding wakes_def wake_one_thread_def maybe_unlock_and_signal_one_def Let_def
  by (auto simp: interrupt_task_def)

lemma wake_one_effect:
  "(0 < event_state s div 2 \<and> Signal_one \<in> set (snd (wake_one_thread s)))
   \<or> event_state s div 2 = 0 \<and> (Interrupt_task \<in> set (snd (wake_one_thread s)) \<or> task_interrupted s \<or> \<not> has_task s)"
proof -
  have "event_state s OR Suc 0 > Suc 0 \<longleftrightarrow> 0 < event_state s div 2"
    by (simp add: or_one) presburger
  then show ?thesis
    by (auto simp: wake_one_thread_def maybe_unlock_and_signal_one_def interrupt_task_def Let_def)
qed

lemma take_handler_ok:
  assumes "sched_queue s = Handler h # rest \<and> p = Handling h \<or> sched_queue s = Descriptor d # rest \<and> p = Performing d"
  shows "region_ok s (take_handler p rest s)"
proof (cases "rest \<noteq> [] \<and> \<not> one_thread s")
  case True
  obtain s' es where w: "wake_one_thread (s\<lparr>sched_queue := rest\<rparr>) = (s', es)" by force
  from wake_one_wakes [of "s\<lparr>sched_queue := rest\<rparr>"] True assms show ?thesis
    by (auto simp: w wakes_def take_handler_def region_ok_def Let_def)
next
  case False
  then have "take_handler p rest s = (s\<lparr>sched_queue := rest\<rparr>, [], p)"
    by (auto simp: take_handler_def Let_def)
  with assms show ?thesis by (auto simp: region_ok_def)
qed

lemma take_ok:
  "sched_queue s = Handler h # rest \<Longrightarrow> region_ok s (take_handler (Handling h) rest s)"
  "sched_queue s = Descriptor d # rest \<Longrightarrow> region_ok s (take_handler (Performing d) rest s)"
  by (rule take_handler_ok, simp)+

lemma take_task_ok:
  assumes "sched_queue s = Task_op # rest" and "stopped s \<Longrightarrow> \<not> block"
  shows "region_ok s (take_task block rest s)"
  using assms by (auto simp: take_task_def region_ok_def unlock_and_signal_one_def Let_def)

lemma to_sleep_ok:
  assumes "sched_queue s = []" and "\<not> stopped s"
  shows "region_ok s (event_sleep (event_clear s), [], Asleep)"
proof -
  have "(event_state s - event_state s mod 2 + 2) div 2 = event_state s div 2 + 1"
    by presburger
  with assms show ?thesis by (simp add: region_ok_def event_sleep_def event_clear_def)
qed

lemma return_ok: "stopped s \<or> p = Gone \<Longrightarrow> p \<in> {Outside, Gone} \<Longrightarrow> region_ok s (s, [], p)"
  by (auto simp: region_ok_def)

lemma queue_front_cases:
  obtains "sched_queue s = []" | rest where "sched_queue s = Task_op # rest"
  | h rest where "sched_queue s = Handler h # rest" | d rest where "sched_queue s = Descriptor d # rest"
proof (cases "sched_queue s")
  case (Cons a rest)
  then show ?thesis using that by (cases a) auto
qed (use that in auto)

lemma do_run_one_ok: "region_ok s (do_run_one s)"
proof (cases s rule: queue_front_cases)
  case 1
  then show ?thesis using to_sleep_ok return_ok by (simp add: do_run_one_def)
next
  case (2 rest)
  then show ?thesis using take_task_ok [OF 2, of True] return_ok by (cases "stopped s") (simp_all add: do_run_one_def)
next
  case (3 h rest)
  then show ?thesis using take_ok(1) [OF 3] return_ok by (simp add: do_run_one_def)
next
  case (4 d rest)
  then show ?thesis using take_ok(2) [OF 4] return_ok by (simp add: do_run_one_def)
qed

lemma wait_front_ok: "stopped s \<longrightarrow> usec = 0 \<Longrightarrow> region_ok s (wait_front usec s)"
proof (cases s rule: queue_front_cases)
  case (2 rest)
  assume "stopped s \<longrightarrow> usec = 0"
  then show ?thesis using take_task_ok [OF 2, of "usec \<noteq> 0"] by (simp add: wait_front_def 2)
qed (simp_all add: wait_front_def return_ok take_ok)

lemma do_poll_one_ok: "region_ok s (do_poll_one s)"
proof (cases s rule: queue_front_cases)
  case (2 rest)
  then show ?thesis using return_ok [of s Outside] by (auto simp: do_poll_one_def region_ok_def)
qed (auto simp: do_poll_one_def return_ok take_ok)

lemma attempt_ok: "region_ok s (attempt m s)"
proof (cases m)
  case (Wait_one usec)
  then show ?thesis
    using to_sleep_ok [of s] wait_front_ok [of s usec] return_ok [of s Outside] by (auto simp: do_wait_one_def)
qed (simp_all add: do_run_one_ok do_poll_one_ok)

text \<open>Awake, where the thread may have to go back to sleep, or back from the task.\<close>

lemma after_wake_cases:
  "region_ok (event_back s) (after_wake m s)
   \<or> after_wake m s = (event_sleep (event_back s), [], Asleep) \<and> even (event_state (event_back s))"
  by (cases m) (auto simp: do_run_one_ok wait_front_ok)

lemma second_look_ok: "region_ok s (second_look notify s)"
proof (cases s rule: queue_front_cases)
  case (2 rest)
  then show ?thesis
    by (auto simp: second_look_def region_ok_def maybe_unlock_and_signal_one_def Let_def)
qed (auto simp: second_look_def return_ok take_ok)

lemma after_task_ok: "region_ok s (after_task m s)"
  by (cases m) (simp_all add: do_run_one_ok second_look_ok)

section \<open>The invariant\<close>

text \<open>A thread with operations of its own is on its way to put them on the queue.\<close>

fun carries :: "sched_pc \<Rightarrow> bool" where
  "carries (Handling h) = True"
| "carries (In_task b) = True"
| "carries Task_done = True"
| "carries (Flushing p) = True"
| "carries (Stopping p) = carries p"
| "carries _ = False"

abbreviation settled :: "sched_pc \<Rightarrow> bool" where
  "settled p \<equiv> p \<in> {Locking, Gone}"

fun pc_ok :: "sched_pc \<Rightarrow> bool" where
  "pc_ok (Flushing p) = settled p"
| "pc_ok (Stopping p) = (p = Outside \<or> settled p \<or> (\<exists>q. p = Flushing q \<and> settled q))"
| "pc_ok _ = True"

definition worker_ok :: "worker \<Rightarrow> bool" where
  "worker_ok w \<longleftrightarrow> pc_ok (pc w) \<and> 0 \<le> own_work w \<and> own_work w \<le> int (length (handlers (own_ops w)))
     \<and> ((\<forall>h. pc w \<noteq> Handling h) \<longrightarrow> own_work w = 0) \<and> (\<not> carries (pc w) \<longrightarrow> own_ops w = [])
     \<and> tasks (own_ops w) = 0"

text \<open>What a thread adds to the work that is counted.\<close>

definition load :: "worker \<Rightarrow> int" where
  "load w = of_bool (\<exists>h. pc w = Handling h) + int (length (handlers (own_ops w))) - own_work w"

definition counts_ok :: "nat \<Rightarrow> sched_sys \<Rightarrow> bool" where
  "counts_ok N y \<longleftrightarrow>
     event_state (sched y) div 2 = (\<Sum>i<N. of_bool (waiting (pc (workers y i))))
     \<and> outstanding_work (sched y) = int (size (pending y)) + int (size (posting y)) + int (guards y)
         + int (length (handlers (sched_queue (sched y)))) + (\<Sum>i<N. load (workers y i))
     \<and> accepted y = pending y + posting y + mset (handlers (sched_queue (sched y)))
         + (\<Sum>i<N. mset (handlers (own_ops (workers y i)))) + mset (handlers (begun y)) + mset (inlined y)
     \<and> tasks (sched_queue (sched y)) + (\<Sum>i<N. of_bool (in_task (pc (workers y i)))) = of_bool (has_task (sched y))"

text \<open>
  A thread that blocks in the task is woken by what the flag says; once stopped, no thread sleeps
  or blocks.
\<close>

definition sleep_ok :: "nat \<Rightarrow> sched_sys \<Rightarrow> bool" where
  "sleep_ok N y \<longleftrightarrow>
     (\<forall>i<N. worker_ok (workers y i))
     \<and> (\<forall>i<N. pc (workers y i) = In_task True \<longrightarrow> task_interrupted (sched y) \<longrightarrow> task_woken y)
     \<and> (stopped (sched y) \<longrightarrow> odd (event_state (sched y))
         \<and> (\<forall>i<N. pc (workers y i) \<noteq> Asleep \<and> (pc (workers y i) = In_task True \<longrightarrow> task_woken y)))"

text \<open>A thread that will look at the queue without having to be woken.\<close>

definition busy :: "sched_sys \<Rightarrow> nat \<Rightarrow> bool" where
  "busy y i \<longleftrightarrow> pc (workers y i) \<notin> {Outside, Asleep, Awake, Gone} \<and> (pc (workers y i) = In_task True \<longrightarrow> task_woken y)"

definition woken_ok :: "nat \<Rightarrow> sched_sys \<Rightarrow> bool" where
  "woken_ok N y \<longleftrightarrow> (\<not> stopped (sched y) \<longrightarrow> sched_queue (sched y) \<noteq> [] \<longrightarrow>
     (\<forall>i<N. pc (workers y i) = Outside) \<or> (\<exists>i<N. pc (workers y i) = Gone) \<or> (\<exists>i<N. busy y i)
     \<or> odd (event_state (sched y)) \<and> ((\<exists>i<N. pc (workers y i) = Awake)
         \<or> 0 < signals y \<and> (\<exists>i<N. pc (workers y i) = Asleep)))"

definition sched_inv :: "nat \<Rightarrow> sched_sys \<Rightarrow> bool" where
  "sched_inv N y \<longleftrightarrow> counts_ok N y \<and> sleep_ok N y"

lemma sum_upd:
  fixes f :: "worker \<Rightarrow> 'a::comm_monoid_add" and N :: nat
  assumes "i < N"
  shows "(\<Sum>k<N. f ((ws(i := w)) k)) + f (ws i) = (\<Sum>k<N. f (ws k)) + f w"
proof -
  have "(\<Sum>k<N. f ((ws(i := w)) k)) = f w + (\<Sum>k \<in> {..<N} - {i}. f (ws k))"
    using assms by (subst sum.remove [of _ i]) (auto intro!: sum.cong)
  moreover have "(\<Sum>k<N. f (ws k)) = f (ws i) + (\<Sum>k \<in> {..<N} - {i}. f (ws k))"
    using assms by (subst sum.remove [of _ i]) auto
  ultimately show ?thesis by (simp add: ac_simps)
qed

lemma sum_same:
  fixes f :: "worker \<Rightarrow> 'a::comm_monoid_add" and N :: nat
  assumes "f w = f (ws i)"
  shows "(\<Sum>k<N. f ((ws(i := w)) k)) = (\<Sum>k<N. f (ws k))"
  using assms by (intro sum.cong) auto

lemma wake_fields:
  "own_work (wake w) = own_work w" "own_ops (wake w) = own_ops w" "mode (wake w) = mode w"
  "waiting (pc (wake w)) = waiting (pc w)" "in_task (pc (wake w)) = in_task (pc w)" "carries (pc (wake w)) = carries (pc w)"
  "pc (wake w) = Handling h \<longleftrightarrow> pc w = Handling h" "pc_ok (pc (wake w)) = pc_ok (pc w)" "pc (wake w) \<noteq> Asleep"
  "pc (wake w) = In_task b \<longleftrightarrow> pc w = In_task b" "pc (wake w) = Outside \<longleftrightarrow> pc w = Outside" "load (wake w) = load w"
  by (auto simp: load_def waiting_def)

lemma wake_worker_ok [simp]: "worker_ok (wake w) = worker_ok w"
  by (simp add: worker_ok_def wake_fields del: wake.simps)

lemma region_fields:
  "sched (region r y) = fst r" "pending (region r y) = pending y" "posting (region r y) = posting y"
  "guards (region r y) = guards y" "accepted (region r y) = accepted y" "begun (region r y) = begun y"
  "inlined (region r y) = inlined y" "workers (region r y) = (if Signal_all \<in> set (snd r) then wake \<circ> workers y else workers y)"
  "signals (region r y) = signals y + count_list (snd r) Signal_one"
  "task_woken (region r y) \<longleftrightarrow> task_woken y \<or> Interrupt_task \<in> set (snd r)"
proof -
  have *: "sched (fold apply_effect es y) = sched y \<and> pending (fold apply_effect es y) = pending y
      \<and> posting (fold apply_effect es y) = posting y \<and> guards (fold apply_effect es y) = guards y
      \<and> accepted (fold apply_effect es y) = accepted y \<and> begun (fold apply_effect es y) = begun y
      \<and> inlined (fold apply_effect es y) = inlined y
      \<and> workers (fold apply_effect es y) = (if Signal_all \<in> set es then wake \<circ> workers y else workers y)
      \<and> signals (fold apply_effect es y) = signals y + count_list es Signal_one
      \<and> (task_woken (fold apply_effect es y) \<longleftrightarrow> task_woken y \<or> Interrupt_task \<in> set es)" for es y
  proof (induction es arbitrary: y)
    case (Cons e es)
    then show ?case by (cases e) (auto simp: fun_eq_iff)
  qed simp
  show "sched (region r y) = fst r" "pending (region r y) = pending y" "posting (region r y) = posting y"
    "guards (region r y) = guards y" "accepted (region r y) = accepted y" "begun (region r y) = begun y"
    "inlined (region r y) = inlined y" "workers (region r y) = (if Signal_all \<in> set (snd r) then wake \<circ> workers y else workers y)"
    "signals (region r y) = signals y + count_list (snd r) Signal_one"
    "task_woken (region r y) \<longleftrightarrow> task_woken y \<or> Interrupt_task \<in> set (snd r)"
    by (simp_all add: region_def *)
qed

section \<open>Steps keep the counts\<close>

definition rest_work :: "sched_sys \<Rightarrow> int" where
  "rest_work y = outstanding_work (sched y) - int (size (pending y)) - int (size (posting y)) - int (guards y)
     - int (length (handlers (sched_queue (sched y))))"

definition placed :: "sched_sys \<Rightarrow> nat multiset" where
  "placed y = pending y + posting y + mset (handlers (sched_queue (sched y)))
     + mset (handlers (begun y)) + mset (inlined y)"

lemma counts_ok_alt:
  "counts_ok N y \<longleftrightarrow>
     event_state (sched y) div 2 = (\<Sum>i<N. of_bool (waiting (pc (workers y i))))
     \<and> rest_work y = (\<Sum>i<N. load (workers y i))
     \<and> accepted y = placed y + (\<Sum>i<N. mset (handlers (own_ops (workers y i))))
     \<and> tasks (sched_queue (sched y)) + (\<Sum>i<N. of_bool (in_task (pc (workers y i)))) = of_bool (has_task (sched y))"
  unfolding counts_ok_def rest_work_def placed_def by (auto simp: ac_simps)

lemma balance:
  fixes a :: "'a multiset"
  assumes "a' + p + q = a + p' + q'" and "a = p + m" and "m' + q = m + q'"
  shows "a' = p' + m'"
proof (rule multiset_eqI)
  fix x
  show "count a' x = count (p' + m') x"
    using assms [THEN arg_cong, of "\<lambda>m. count m x"] by simp
qed

lemma counts_upd:
  assumes inv: "counts_ok N y" and i: "i < N" and w: "workers y' = (workers y)(i := w')"
    and "event_state (sched y') div 2 + of_bool (waiting (pc (workers y i))) = event_state (sched y) div 2 + of_bool (waiting (pc w'))"
    and "rest_work y' + load (workers y i) = rest_work y + load w'"
    and "accepted y' + placed y + mset (handlers (own_ops (workers y i))) = accepted y + placed y' + mset (handlers (own_ops w'))"
    and "tasks (sched_queue (sched y')) + of_bool (in_task (pc w')) + of_bool (has_task (sched y)) =
      tasks (sched_queue (sched y)) + of_bool (in_task (pc (workers y i))) + of_bool (has_task (sched y'))"
  shows "counts_ok N y'"
proof -
  note sums = sum_upd [OF i, of _ "workers y" w', folded w]
  have I: "event_state (sched y) div 2 = (\<Sum>i<N. of_bool (waiting (pc (workers y i))))"
    "rest_work y = (\<Sum>i<N. load (workers y i))" "accepted y = placed y + (\<Sum>i<N. mset (handlers (own_ops (workers y i))))"
    "tasks (sched_queue (sched y)) + (\<Sum>i<N. of_bool (in_task (pc (workers y i)))) = of_bool (has_task (sched y))"
    using inv unfolding counts_ok_alt by blast+
  have "event_state (sched y') div 2 = (\<Sum>k<N. of_bool (waiting (pc (workers y' k))))"
    using I(1) assms(4) sums [of "\<lambda>w. of_bool (waiting (pc w)) :: nat"] by linarith
  moreover have "rest_work y' = (\<Sum>k<N. load (workers y' k))"
    using I(2) assms(5) sums [of load] by linarith
  moreover have "accepted y' = placed y' + (\<Sum>k<N. mset (handlers (own_ops (workers y' k))))"
    by (rule balance [OF assms(6) I(3) sums])
  moreover have "tasks (sched_queue (sched y')) + (\<Sum>k<N. of_bool (in_task (pc (workers y' k)))) = of_bool (has_task (sched y'))"
    using I(4) assms(7) sums [of "\<lambda>w. of_bool (in_task (pc w)) :: nat"] by linarith
  ultimately show ?thesis unfolding counts_ok_alt by blast
qed

lemma counts_same:
  assumes "counts_ok N y" and "workers y' = workers y \<or> workers y' = wake \<circ> workers y"
    and "event_state (sched y') div 2 = event_state (sched y) div 2" and "rest_work y' = rest_work y"
    and "accepted y' + placed y = accepted y + placed y'"
    and "tasks (sched_queue (sched y')) + of_bool (has_task (sched y)) =
      tasks (sched_queue (sched y)) + of_bool (has_task (sched y'))"
  shows "counts_ok N y'"
proof -
  have I: "event_state (sched y) div 2 = (\<Sum>i<N. of_bool (waiting (pc (workers y i))))"
    "rest_work y = (\<Sum>i<N. load (workers y i))" "accepted y = placed y + (\<Sum>i<N. mset (handlers (own_ops (workers y i))))"
    "tasks (sched_queue (sched y)) + (\<Sum>i<N. of_bool (in_task (pc (workers y i)))) = of_bool (has_task (sched y))"
    using assms(1) unfolding counts_ok_alt by blast+
  have sums: "(\<Sum>k<N. f (workers y' k)) = (\<Sum>k<N. f (workers y k))" if "\<And>w. f (wake w) = f w"
    for f :: "worker \<Rightarrow> 'a::comm_monoid_add"
    using assms(2) that by auto
  have "event_state (sched y') div 2 = (\<Sum>k<N. of_bool (waiting (pc (workers y' k))))"
    using I(1) assms(3) sums [of "\<lambda>w. of_bool (waiting (pc w)) :: nat"] by (simp only: wake_fields)
  moreover have "rest_work y' = (\<Sum>k<N. load (workers y' k))"
    using I(2) assms(4) sums [of load] by (simp only: wake_fields)
  moreover have "accepted y' = placed y' + (\<Sum>k<N. mset (handlers (own_ops (workers y' k))))"
    by (rule balance [of _ "placed y" "{#}" "accepted y" _ "{#}" "\<Sum>k<N. mset (handlers (own_ops (workers y k)))"])
      (use I(3) assms(5) sums [of "\<lambda>w. mset (handlers (own_ops w))"] in \<open>simp_all add: wake_fields del: wake.simps\<close>)
  moreover have "tasks (sched_queue (sched y')) + (\<Sum>k<N. of_bool (in_task (pc (workers y' k)))) = of_bool (has_task (sched y'))"
  proof -
    have "(\<Sum>k<N. of_bool (in_task (pc (workers y' k)))) = (\<Sum>k<N. of_bool (in_task (pc (workers y k))) :: nat)"
      by (rule sums) (simp only: wake_fields)
    with I(4) assms(6) show ?thesis by linarith
  qed
  ultimately show ?thesis unfolding counts_ok_alt by blast
qed

text \<open>A region taken by a thread that has the lock, from the position \<open>Locking\<close>.\<close>

lemma go_fields [simp]:
  "sched (go i p y) = sched y" "pending (go i p y) = pending y" "posting (go i p y) = posting y"
  "guards (go i p y) = guards y" "accepted (go i p y) = accepted y" "begun (go i p y) = begun y"
  "inlined (go i p y) = inlined y"
  "signals (go i p y) = signals y" "task_woken (go i p y) = task_woken y"
  "workers (go i p y) = (workers y)(i := (workers y i)\<lparr>pc := p\<rparr>)"
  by (simp_all add: go_def)

lemma set_worker_fields [simp]:
  "sched (set_worker i f y) = sched y" "pending (set_worker i f y) = pending y" "posting (set_worker i f y) = posting y"
  "guards (set_worker i f y) = guards y" "accepted (set_worker i f y) = accepted y" "begun (set_worker i f y) = begun y"
  "inlined (set_worker i f y) = inlined y"
  "signals (set_worker i f y) = signals y" "task_woken (set_worker i f y) = task_woken y"
  "workers (set_worker i f y) = (workers y)(i := f (workers y i))"
  by (simp_all add: set_worker_def)

lemma region_to_fields:
  assumes "region_ok s (s', es, p)"
  shows "sched (region_to i (s', es, p) y) = s'" "pending (region_to i (s', es, p) y) = pending y"
    "posting (region_to i (s', es, p) y) = posting y" "guards (region_to i (s', es, p) y) = guards y"
    "accepted (region_to i (s', es, p) y) = accepted y" "begun (region_to i (s', es, p) y) = begun y @ begins p"
    "inlined (region_to i (s', es, p) y) = inlined y"
    "workers (region_to i (s', es, p) y) = (workers y)(i := (workers y i)\<lparr>pc := p\<rparr>)"
    "signals (region_to i (s', es, p) y) = signals y + count_list es Signal_one"
    "task_woken (region_to i (s', es, p) y) \<longleftrightarrow> task_woken y \<or> Interrupt_task \<in> set es"
  using assms by (simp_all add: region_to_def region_fields region_ok_def)

lemma region_ok_pc:
  assumes "region_ok s (s', es, p)"
  shows "pc_ok p" "carries p \<Longrightarrow> (\<exists>h. p = Handling h) \<or> in_task p" "p \<noteq> Awake"
proof -
  have "p \<in> {Outside, Asleep, Gone, In_task True, In_task False} \<or> (\<exists>h. p = Handling h) \<or> (\<exists>d. p = Performing d)"
    using assms unfolding region_ok_def prod.case by blast
  then show "pc_ok p" "carries p \<Longrightarrow> (\<exists>h. p = Handling h) \<or> in_task p" "p \<noteq> Awake" by auto
qed

lemma in_task_counted:
  assumes "counts_ok N y" and "i < N" and "in_task (pc (workers y i))"
  shows "has_task (sched y)" and "tasks (sched_queue (sched y)) = 0"
    and "j < N \<Longrightarrow> in_task (pc (workers y j)) \<Longrightarrow> j = i"
proof -
  let ?n = "\<lambda>i. of_bool (in_task (pc (workers y i))) :: nat"
  have sum: "tasks (sched_queue (sched y)) + (\<Sum>i<N. ?n i) = of_bool (has_task (sched y))"
    using assms(1) by (simp only: counts_ok_def)
  have "(\<Sum>i<N. ?n i) = 1 + (\<Sum>k \<in> {..<N} - {i}. ?n k)"
    using assms(2,3) by (subst sum.remove [of _ i]) simp_all
  then have rest: "tasks (sched_queue (sched y)) + (\<Sum>k \<in> {..<N} - {i}. ?n k) + 1 = of_bool (has_task (sched y))"
    using sum by linarith
  then show "has_task (sched y)" "tasks (sched_queue (sched y)) = 0" by (cases "has_task (sched y)"; simp)+
  from rest have "(\<Sum>k \<in> {..<N} - {i}. ?n k) = 0" by (cases "has_task (sched y)"; simp)
  then have "\<forall>k \<in> {..<N} - {i}. ?n k = 0" by (simp only: sum_eq_0_iff finite_Diff finite_lessThan)
  then show "j < N \<Longrightarrow> in_task (pc (workers y j)) \<Longrightarrow> j = i" by auto
qed

lemma in_task_unique:
  assumes "counts_ok N y" and "tasks (sched_queue (sched y)) \<noteq> 0" and "i < N"
  shows "\<not> in_task (pc (workers y i))"
  using in_task_counted(2) [OF assms(1,3)] assms(2) by blast

lemmas task_present = in_task_counted(1)

lemma waiting_counted:
  assumes "counts_ok N y"
  shows "0 < event_state (sched y) div 2 \<longleftrightarrow> (\<exists>k<N. waiting (pc (workers y k)))"
proof -
  have "event_state (sched y) div 2 = (\<Sum>i<N. of_bool (waiting (pc (workers y i))))"
    using assms by (simp only: counts_ok_def)
  moreover have "(\<Sum>i<N. of_bool (waiting (pc (workers y i))) :: nat) = 0 \<longleftrightarrow> (\<forall>i<N. \<not> waiting (pc (workers y i)))"
    by (simp only: sum_eq_0_iff finite_lessThan) auto
  ultimately show ?thesis by (metis gr0I less_irrefl)
qed

lemma region_to_inv:
  assumes inv: "sched_inv N y" and i: "i < N" and pc: "pc (workers y i) = Locking" and ok: "region_ok (sched y) r"
  shows "sched_inv N (region_to i r y)" and "woken_ok N (region_to i r y)"
proof -
  obtain s' es p where r: "r = (s', es, p)" by (cases r)
  note ok' = ok [unfolded r]
  note f = region_to_fields [OF ok', of i y]
  note R = ok' [unfolded region_ok_def prod.case]
  have w: "worker_ok (workers y i)" using inv i by (simp add: sched_inv_def sleep_ok_def)
  then have own: "own_ops (workers y i) = []" "own_work (workers y i) = 0" by (simp_all add: worker_ok_def pc)
  have "counts_ok N (region_to i r y)"
  proof (rule counts_upd [OF _ i, where w' = "(workers y i)\<lparr>pc := p\<rparr>"])
    show "counts_ok N y" using inv by (simp add: sched_inv_def)
    show "workers (region_to i r y) = (workers y)(i := (workers y i)\<lparr>pc := p\<rparr>)" by (simp add: r f)
    show "event_state (sched (region_to i r y)) div 2 + of_bool (waiting (pc (workers y i))) =
        event_state (sched y) div 2 + of_bool (waiting (pc ((workers y i)\<lparr>pc := p\<rparr>)))"
      using R region_ok_pc(3) [OF ok'] by (simp add: r f pc waiting_def)
    have hs: "handlers (sched_queue (sched y)) = handlers (begins p) @ handlers (sched_queue s')"
      using R by (metis handlers_append handlers_queued)
    moreover have "length (handlers (begins p)) = of_bool (\<exists>h. p = Handling h)" by (cases p) auto
    ultimately show "rest_work (region_to i r y) + load (workers y i) = rest_work y + load ((workers y i)\<lparr>pc := p\<rparr>)"
      using R by (simp add: r f rest_work_def load_def pc own)
    show "accepted (region_to i r y) + placed y + mset (handlers (own_ops (workers y i))) =
        accepted y + placed (region_to i r y) + mset (handlers (own_ops ((workers y i)\<lparr>pc := p\<rparr>)))"
      by (simp add: r f placed_def own hs ac_simps)
    show "tasks (sched_queue (sched (region_to i r y))) + of_bool (in_task (pc ((workers y i)\<lparr>pc := p\<rparr>)))
        + of_bool (has_task (sched y)) = tasks (sched_queue (sched y)) + of_bool (in_task (pc (workers y i)))
        + of_bool (has_task (sched (region_to i r y)))"
      using R by (simp add: r f pc)
  qed
  moreover have "sleep_ok N (region_to i r y)"
  proof -
    have S: "sleep_ok N y" using inv by (simp add: sched_inv_def)
    have uniq: "in_task p \<Longrightarrow> k < N \<Longrightarrow> \<not> in_task (pc (workers y k))" for k
      using in_task_unique [of N y k] inv R by (auto simp: sched_inv_def)
    have "worker_ok ((workers y i)\<lparr>pc := p\<rparr>)"
      using own region_ok_pc [OF ok'] by (simp add: worker_ok_def)
    then have "\<forall>k<N. worker_ok (workers (region_to i r y) k)" using S by (simp add: r f sleep_ok_def)
    moreover have "task_woken (region_to i r y)"
      if "k < N" "pc (workers (region_to i r y) k) = In_task True" "task_interrupted s'" for k
    proof (cases "k = i")
      case True
      with that R show ?thesis by (simp add: r f)
    next
      case False
      with that have k: "pc (workers y k) = In_task True" by (simp add: r f)
      then have "\<not> in_task p" using uniq [OF _ that(1)] by auto
      with that(3) R have "task_interrupted (sched y) \<or> Interrupt_task \<in> set es" by simp
      with S k that(1) show ?thesis by (auto simp: r f sleep_ok_def)
    qed
    moreover have "odd (event_state s') \<and> (\<forall>k<N. pc (workers (region_to i r y) k) \<noteq> Asleep
        \<and> (pc (workers (region_to i r y) k) = In_task True \<longrightarrow> task_woken (region_to i r y)))" if "stopped s'"
      using S R that by (auto simp: r f sleep_ok_def)
    ultimately show ?thesis by (simp add: sleep_ok_def r f)
  qed
  ultimately show "sched_inv N (region_to i r y)" by (simp add: sched_inv_def)
  show "woken_ok N (region_to i r y)"
    unfolding woken_ok_def
  proof (intro impI)
    assume a: "\<not> stopped (sched (region_to i r y))" "sched_queue (sched (region_to i r y)) \<noteq> []"
    with R have "p \<noteq> Outside" "p \<noteq> Asleep" "p \<noteq> In_task True" by (auto simp: r f)
    then have "p = Gone \<or> busy (region_to i r y) i"
      using region_ok_pc(3) [OF ok'] by (auto simp: busy_def r f)
    with i show "(\<forall>k<N. pc (workers (region_to i r y) k) = Outside) \<or> (\<exists>k<N. pc (workers (region_to i r y) k) = Gone)
        \<or> (\<exists>k<N. busy (region_to i r y) k) \<or> odd (event_state (sched (region_to i r y)))
          \<and> ((\<exists>k<N. pc (workers (region_to i r y) k) = Awake)
            \<or> 0 < signals (region_to i r y) \<and> (\<exists>k<N. pc (workers (region_to i r y) k) = Asleep))"
      by (auto simp: r f)
  qed
qed

section \<open>Every step\<close>

lemma region_sched [simp]: "region r (y\<lparr>sched := s\<rparr>) = region r y"
  by (simp add: region_def)

lemma region_to_move: "region_to i r (go i p (y\<lparr>sched := s\<rparr>)) = region_to i r y"
  by (simp add: region_to_def region_def go_def fun_upd_upd split: prod.split)

lemma woken_busy: "i < N \<Longrightarrow> busy y i \<or> pc (workers y i) = Gone \<Longrightarrow> woken_ok N y"
  by (auto simp: woken_ok_def)

lemma sched_invD:
  assumes "sched_inv N y"
  shows "counts_ok N y" "sleep_ok N y" "i < N \<Longrightarrow> worker_ok (workers y i)"
    "i < N \<Longrightarrow> pc (workers y i) = In_task True \<Longrightarrow> task_interrupted (sched y) \<Longrightarrow> task_woken y"
    "stopped (sched y) \<Longrightarrow> odd (event_state (sched y))"
    "stopped (sched y) \<Longrightarrow> i < N \<Longrightarrow> pc (workers y i) \<noteq> Asleep"
    "stopped (sched y) \<Longrightarrow> i < N \<Longrightarrow> pc (workers y i) = In_task True \<Longrightarrow> task_woken y"
  using assms by (simp_all add: sched_inv_def sleep_ok_def)

lemma sleep_upd:
  assumes inv: "sleep_ok N y" and w: "workers y' = (workers y)(i := w')" "worker_ok w'"
    and "pc w' = Asleep \<Longrightarrow> pc (workers y i) = Asleep" and "pc w' = In_task True \<Longrightarrow> pc (workers y i) = In_task True"
    and "task_interrupted (sched y') \<Longrightarrow> task_interrupted (sched y)" and "stopped (sched y') = stopped (sched y)"
    and "odd (event_state (sched y)) \<Longrightarrow> odd (event_state (sched y'))" and "task_woken y' = task_woken y"
    and i: "i < N"
  shows "sleep_ok N y'"
  using assms unfolding sleep_ok_def by (simp add: w) metis

lemma wake_region:
  assumes inv: "sched_inv N y"
  shows "sched_inv N (region (wake_one_thread (sched y)) y)" and "woken_ok N (region (wake_one_thread (sched y)) y)"
proof -
  obtain s' es where r: "wake_one_thread (sched y) = (s', es)" by force
  have W: "outstanding_work s' = outstanding_work (sched y)" "has_task s' = has_task (sched y)"
    "stopped s' = stopped (sched y)" "sched_queue s' = sched_queue (sched y)"
    "event_state s' div 2 = event_state (sched y) div 2" "odd (event_state s')" "Signal_all \<notin> set es"
    "task_interrupted s' \<Longrightarrow> task_interrupted (sched y) \<or> Interrupt_task \<in> set es"
    using wake_one_wakes [of "sched y"] by (simp_all add: r wakes_def)
  let ?y = "region (s', es) y"
  note f = region_fields [of "(s', es)" y]
  have ws: "workers ?y = workers y" using W(7) by (simp add: f)
  note I = sched_invD [OF inv]
  have "counts_ok N ?y"
    by (rule counts_same [OF I(1)]) (simp_all add: f W ws rest_work_def placed_def)
  moreover have "sleep_ok N ?y"
    using I W unfolding sleep_ok_def ws by (auto simp: f)
  ultimately show "sched_inv N (region (wake_one_thread (sched y)) y)" by (simp add: r sched_inv_def)
  show "woken_ok N (region (wake_one_thread (sched y)) y)"
  proof (cases "0 < event_state (sched y) div 2")
    case True
    then have sig: "Signal_one \<in> set es" using wake_one_effect [of "sched y"] by (simp add: r)
    then have "0 < count_list es Signal_one" by (metis count_list_0_iff gr0I)
    then have "0 < signals ?y" by (simp add: f)
    moreover obtain k where "k < N" "waiting (pc (workers y k))" using True waiting_counted [OF I(1)] by blast
    ultimately show ?thesis using W(6) by (auto simp: woken_ok_def r ws waiting_def f)
  next
    case False
    have nowait: "\<not> waiting (pc (workers y k))" if "k < N" for k using False waiting_counted [OF I(1)] that by auto
    have woken: "task_woken ?y" if "k < N" "pc (workers y k) = In_task True" for k
    proof -
      have "has_task (sched y)" using task_present [OF I(1) that(1)] that(2) by simp
      then show ?thesis
        using wake_one_effect [of "sched y"] False I(4) [OF that] by (auto simp: r f)
    qed
    show ?thesis
    proof (cases "\<forall>k<N. pc (workers y k) = Outside")
      case True
      then show ?thesis by (simp add: woken_ok_def r ws)
    next
      case out: False
      then obtain k where k: "k < N" "pc (workers y k) \<noteq> Outside" by blast
      then have "busy ?y k \<or> pc (workers ?y k) = Gone"
        using nowait [OF k(1)] woken [OF k(1)] by (auto simp: busy_def ws waiting_def)
      then show ?thesis unfolding r using woken_busy [OF k(1)] by blast
    qed
  qed
qed

lemma stop_region:
  assumes inv: "sched_inv N y"
  shows "sched_inv N (region (stop_all_threads (sched y)) y)"
proof -
  obtain s' es where r: "stop_all_threads (sched y) = (s', es)" by force
  then have W: "outstanding_work s' = outstanding_work (sched y)" "has_task s' = has_task (sched y)" "stopped s'"
    "sched_queue s' = sched_queue (sched y)" "event_state s' div 2 = event_state (sched y) div 2" "odd (event_state s')"
    "Signal_all \<in> set es" "has_task s' \<Longrightarrow> task_interrupted s'"
    "task_interrupted s' \<Longrightarrow> task_interrupted (sched y) \<or> Interrupt_task \<in> set es"
    by (auto simp: stop_all_threads_def event_signal_all_def interrupt_task_def Let_def split: if_splits)
  let ?y = "region (s', es) y"
  note f = region_fields [of "(s', es)" y]
  have ws: "workers ?y = wake \<circ> workers y" using W(7) by (simp add: f)
  note I = sched_invD [OF inv]
  have task: "has_task (sched y)" if "k < N" "pc (workers y k) = In_task True" for k
    using task_present [OF I(1) that(1)] that(2) by simp
  have "counts_ok N ?y"
    by (rule counts_same [OF I(1)]) (simp_all add: f W ws rest_work_def placed_def)
  moreover have "sleep_ok N ?y"
    using I(3,4) W task unfolding sleep_ok_def ws by (auto simp: f wake_fields simp del: wake.simps)
  ultimately show ?thesis by (simp add: r sched_inv_def)
qed

text \<open>
  A step of one thread that needs no region: what happens to its record and, in balance, to the
  counts. It ends in a position from which the thread goes on by itself, or is gone.
\<close>

lemma worker_step:
  assumes inv: "sched_inv N y" and i: "i < N" and w: "workers y' = (workers y)(i := w')" and ok: "worker_ok w'"
    and s: "event_state (sched y') = event_state (sched y)" "stopped (sched y') = stopped (sched y)"
      "has_task (sched y') = has_task (sched y)" "task_interrupted (sched y') \<Longrightarrow> task_interrupted (sched y)"
    and quiet: "\<not> waiting (pc (workers y i))" "\<not> waiting (pc w')" "pc w' = In_task True \<longrightarrow> pc (workers y i) = In_task True"
    and woken: "task_woken y' = task_woken y"
    and work: "rest_work y' + load (workers y i) = rest_work y + load w'"
    and place: "accepted y' + placed y + mset (handlers (own_ops (workers y i))) = accepted y + placed y' + mset (handlers (own_ops w'))"
    and task: "tasks (sched_queue (sched y')) + of_bool (in_task (pc w')) =
      tasks (sched_queue (sched y)) + of_bool (in_task (pc (workers y i)))"
  shows "sched_inv N y'"
  unfolding sched_inv_def
proof
  show "counts_ok N y'"
    by (rule counts_upd [OF sched_invD(1) [OF inv] i w]) (use s quiet work place task in simp_all)
  show "sleep_ok N y'"
    by (rule sleep_upd [OF sched_invD(2) [OF inv] w ok _ _ _ _ _ _ i]) (use s quiet woken in \<open>auto simp: waiting_def\<close>)
qed

lemma rest_work_upd:
  "rest_work (go i p y) = rest_work y" "rest_work (set_worker i f y) = rest_work y"
  "placed (go i p y) = placed y" "placed (set_worker i f y) = placed y"
  by (simp_all add: rest_work_def placed_def)

lemma relock_inv:
  assumes inv: "sched_inv N y" "woken_ok N y" and i: "i < N" and pc: "pc (workers y i) = Awake"
  shows "sched_inv N (region_to i (after_wake m (sched y)) y) \<and> woken_ok N (region_to i (after_wake m (sched y)) y)"
proof -
  note I = sched_invD [OF inv(1)]
  have "waiting (pc (workers y i))" using pc by (simp add: waiting_def)
  then have two: "2 \<le> event_state (sched y)" using waiting_counted [OF I(1)] i by fastforce
  then have e: "(event_state (sched y) - 2) div 2 + 1 = event_state (sched y) div 2"
    "odd (event_state (sched y) - 2) = odd (event_state (sched y))" by presburger+
  have w: "own_ops (workers y i) = []" "own_work (workers y i) = 0"
    using I(3) [OF i] by (simp_all add: worker_ok_def pc)
  consider "region_ok (event_back (sched y)) (after_wake m (sched y))"
    | "after_wake m (sched y) = (event_sleep (event_back (sched y)), [], Asleep)" "even (event_state (event_back (sched y)))"
    using after_wake_cases by blast
  then show ?thesis
  proof cases
    case 1
    let ?y = "go i Locking (y\<lparr>sched := event_back (sched y)\<rparr>)"
    have "counts_ok N ?y"
      by (rule counts_upd [OF I(1) i, where w' = "(workers y i)\<lparr>pc := Locking\<rparr>"]) (use e pc w in \<open>simp_all add: event_back_def rest_work_def placed_def load_def waiting_def\<close>)
    moreover have "sleep_ok N ?y"
      by (rule sleep_upd [OF I(2) _ _ _ _ _ _ _ _ i, where w' = "(workers y i)\<lparr>pc := Locking\<rparr>"]) (use e w in \<open>simp_all add: event_back_def worker_ok_def\<close>)
    ultimately have "sched_inv N ?y" by (simp add: sched_inv_def)
    from region_to_inv [OF this i, of "after_wake m (sched y)"] 1 show ?thesis by (simp add: region_to_move)
  next
    case 2
    have resleep: "event_sleep (event_back (sched y)) = sched y" using two by (simp add: event_sleep_def event_back_def)
    have r: "region_to i (after_wake m (sched y)) y = go i Asleep y"
      by (simp add: 2(1) resleep region_to_def region_def go_def)
    have even: "even (event_state (sched y))" using 2(2) e(2) by (simp add: event_back_def)
    have "counts_ok N (go i Asleep y)"
      by (rule counts_upd [OF I(1) i, where w' = "(workers y i)\<lparr>pc := Asleep\<rparr>"]) (use pc w in \<open>simp_all add: rest_work_def placed_def load_def waiting_def\<close>)
    moreover have "sleep_ok N (go i Asleep y)"
      using I(2,5) even w by (auto simp: sleep_ok_def worker_ok_def)
    moreover have "woken_ok N (go i Asleep y)"
      unfolding woken_ok_def
    proof (intro impI)
      assume "\<not> stopped (sched (go i Asleep y))" "sched_queue (sched (go i Asleep y)) \<noteq> []"
      then have "(\<exists>k<N. pc (workers y k) = Gone) \<or> (\<exists>k<N. busy y k)"
        using inv(2) even i pc by (auto simp: woken_ok_def)
      then have "(\<exists>k<N. pc (workers (go i Asleep y) k) = Gone) \<or> (\<exists>k<N. busy (go i Asleep y) k)"
      proof
        assume "\<exists>k<N. pc (workers y k) = Gone"
        then obtain k where "k < N" "pc (workers y k) = Gone" by blast
        then show ?thesis using pc by (intro disjI1 exI [of _ k]) auto
      next
        assume "\<exists>k<N. busy y k"
        then obtain k where "k < N" "busy y k" by blast
        then show ?thesis using pc by (intro disjI2 exI [of _ k]) (auto simp: busy_def)
      qed
      then show "(\<forall>k<N. pc (workers (go i Asleep y) k) = Outside) \<or> (\<exists>k<N. pc (workers (go i Asleep y) k) = Gone)
          \<or> (\<exists>k<N. busy (go i Asleep y) k) \<or> odd (event_state (sched (go i Asleep y)))
            \<and> ((\<exists>k<N. pc (workers (go i Asleep y) k) = Awake)
              \<or> 0 < signals (go i Asleep y) \<and> (\<exists>k<N. pc (workers (go i Asleep y) k) = Asleep))"
        by blast
    qed
    ultimately show ?thesis by (simp add: r sched_inv_def)
  qed
qed

lemma task_relock_inv:
  assumes inv: "sched_inv N y" and i: "i < N" and pc: "pc (workers y i) = Task_done"
    and y': "y' = region_to i (after_task m (task_cleanup (own_ops (workers y i)) (sched y)))
      (set_worker i (\<lambda>w. w\<lparr>own_ops := []\<rparr>) y)"
  shows "sched_inv N y' \<and> woken_ok N y'"
proof -
  note I = sched_invD [OF inv]
  let ?s = "task_cleanup (own_ops (workers y i)) (sched y)"
  let ?y = "go i Locking (set_worker i (\<lambda>w. w\<lparr>own_ops := []\<rparr>) (y\<lparr>sched := ?s\<rparr>))"
  have w: "own_work (workers y i) = 0" "tasks (own_ops (workers y i)) = 0"
    using I(3) [OF i] by (simp_all add: worker_ok_def pc)
  have "counts_ok N ?y"
    by (rule counts_upd [OF I(1) i, where w' = "(workers y i)\<lparr>own_ops := [], pc := Locking\<rparr>"])
      (use pc w in \<open>simp_all add: task_cleanup_def push_op_def rest_work_def placed_def load_def waiting_def\<close>)
  moreover have "sleep_ok N ?y"
  proof -
    have "\<not> (k < N \<and> pc (workers y k) = In_task True)" for k
      using in_task_counted(3) [OF I(1) i, of k] pc by (cases "k = i") auto
    with I(2) w show ?thesis
      by (auto simp: sleep_ok_def task_cleanup_def push_op_def worker_ok_def)
  qed
  ultimately have "sched_inv N ?y" by (simp add: sched_inv_def)
  from region_to_inv [OF this i, of "after_task m ?s"] after_task_ok [of ?s m]
  have "sched_inv N (region_to i (after_task m ?s) ?y) \<and> woken_ok N (region_to i (after_task m ?s) ?y)" by simp
  moreover have "region_to i (after_task m ?s) ?y = y'"
    by (simp add: y' region_to_def region_def go_def set_worker_def fun_upd_upd split: prod.split)
  ultimately show ?thesis by simp
qed

lemma frame_woken:
  assumes "woken_ok N y" and "\<And>k. pc (workers y' k) = pc (workers y k)" and "sched_queue (sched y') = sched_queue (sched y)"
    and "event_state (sched y') = event_state (sched y)" and "stopped (sched y') = stopped (sched y)"
    and "task_woken y' = task_woken y"
    and "signals y' = signals y \<or> (\<forall>k<N. pc (workers y k) \<noteq> Asleep)"
  shows "woken_ok N y'"
  using assms unfolding woken_ok_def busy_def by auto

lemma frame_inv:
  assumes "sched_inv N y" and "workers y' = workers y" and "event_state (sched y') = event_state (sched y)"
    and "stopped (sched y') = stopped (sched y)" and "task_interrupted (sched y') = task_interrupted (sched y)"
    and "task_woken y' = task_woken y" and "rest_work y' = rest_work y" and "accepted y' + placed y = accepted y + placed y'"
    and "tasks (sched_queue (sched y')) + of_bool (has_task (sched y)) =
      tasks (sched_queue (sched y)) + of_bool (has_task (sched y'))"
  shows "sched_inv N y'"
proof -
  have "counts_ok N y'" by (rule counts_same [OF sched_invD(1) [OF assms(1)]]) (use assms in simp_all)
  moreover have "sleep_ok N y'" using sched_invD(2) [OF assms(1)] assms(2-6) by (simp add: sleep_ok_def)
  ultimately show ?thesis by (simp add: sched_inv_def)
qed

lemma awake_inv:
  assumes inv: "sched_inv N y" "woken_ok N y" and i: "i < N" and pc: "pc (workers y i) = Asleep"
    and y': "y' = go i Awake (y\<lparr>signals := n\<rparr>)"
  shows "sched_inv N y' \<and> woken_ok N y'"
proof -
  note I = sched_invD [OF inv(1)]
  have w: "own_ops (workers y i) = []" "own_work (workers y i) = 0"
    using I(3) [OF i] by (simp_all add: worker_ok_def pc)
  have "counts_ok N y'"
    by (rule counts_upd [OF I(1) i, where w' = "(workers y i)\<lparr>pc := Awake\<rparr>"])
      (use pc w in \<open>simp_all add: y' rest_work_def placed_def load_def waiting_def\<close>)
  moreover have "sleep_ok N y'"
    by (rule sleep_upd [OF I(2) _ _ _ _ _ _ _ _ i, where w' = "(workers y i)\<lparr>pc := Awake\<rparr>"])
      (use w in \<open>simp_all add: y' worker_ok_def\<close>)
  moreover have "woken_ok N y'"
    unfolding woken_ok_def
  proof (intro impI)
    assume "\<not> stopped (sched y')" "sched_queue (sched y') \<noteq> []"
    then consider "\<exists>k<N. pc (workers y k) = Gone" | "\<exists>k<N. busy y k" | "odd (event_state (sched y))"
      using inv(2) i pc by (auto simp: woken_ok_def y')
    then show "(\<forall>k<N. pc (workers y' k) = Outside) \<or> (\<exists>k<N. pc (workers y' k) = Gone) \<or> (\<exists>k<N. busy y' k)
        \<or> odd (event_state (sched y')) \<and> ((\<exists>k<N. pc (workers y' k) = Awake)
          \<or> 0 < signals y' \<and> (\<exists>k<N. pc (workers y' k) = Asleep))"
    proof cases
      case 1
      then obtain k where "k < N" "pc (workers y k) = Gone" by blast
      then have "pc (workers y' k) = Gone" using pc by (auto simp: y')
      with \<open>k < N\<close> show ?thesis by blast
    next
      case 2
      then obtain k where "k < N" "busy y k" by blast
      then have "busy y' k" using pc by (auto simp: y' busy_def)
      with \<open>k < N\<close> show ?thesis by blast
    next
      case 3
      with i show ?thesis by (auto simp: y')
    qed
  qed
  ultimately show ?thesis by (simp add: sched_inv_def)
qed

lemma handler_done_inv:
  assumes inv: "sched_inv N y" and i: "i < N"
    and pc: "pc (workers y i) = Handling h \<and> n = own_work (workers y i)
      \<or> pc (workers y i) = Performing d \<and> n = own_work (workers y i) + 1"
    and c: "work_cleanup n (sched y) = (s', last_one)"
    and p: "p = after_handler m thrown" and p': "p' = (if own_ops (workers y i) = [] then p else Flushing p)"
    and y': "y' = go i (if last_one then Stopping p' else p') (set_worker i (\<lambda>w. w\<lparr>own_work := 0\<rparr>) (y\<lparr>sched := s'\<rparr>))"
  shows "sched_inv N y' \<and> woken_ok N y'"
proof -
  note I = sched_invD [OF inv]
  have w: "0 \<le> n" "tasks (own_ops (workers y i)) = 0" using I(3) [OF i] pc by (auto simp: worker_ok_def)
  have set: "settled p" by (simp add: p after_handler_def)
  have s': "outstanding_work s' = outstanding_work (sched y) + n - 1" "event_state s' = event_state (sched y)"
    "stopped s' = stopped (sched y)" "has_task s' = has_task (sched y)" "task_interrupted s' = task_interrupted (sched y)"
    "sched_queue s' = sched_queue (sched y)"
    using c w(1) by (auto simp: work_cleanup_def Let_def split: if_splits)
  let ?w = "(workers y i)\<lparr>own_work := 0, pc := if last_one then Stopping p' else p'\<rparr>"
  have pc': "pc ?w \<noteq> Outside" "\<not> waiting (pc ?w)" "\<not> in_task (pc ?w)" "\<forall>h. pc ?w \<noteq> Handling h" "pc_ok (pc ?w)"
    "own_ops ?w \<noteq> [] \<Longrightarrow> carries (pc ?w)"
    using set by (auto simp: p' waiting_def)
  have y's: "workers y' = (workers y)(i := ?w)" "sched y' = s'" by (simp_all add: y')
  have "sched_inv N y'"
  proof (rule worker_step [OF inv i y's(1)])
    show "worker_ok ?w" using pc'(4-6) w(2) by (auto simp: worker_ok_def split: if_splits)
    show "\<not> waiting (pc (workers y i))" using pc by (auto simp: waiting_def)
    show "pc ?w = In_task True \<longrightarrow> pc (workers y i) = In_task True" using pc'(3) by auto
    show "rest_work y' + load (workers y i) = rest_work y + load ?w"
      using pc'(4) pc by (auto simp: y's rest_work_def s' load_def y')
    show "tasks (sched_queue (sched y')) + of_bool (in_task (pc ?w)) =
        tasks (sched_queue (sched y)) + of_bool (in_task (pc (workers y i)))"
      using pc'(3) pc by (auto simp: y's s')
    show "accepted y' + placed y + mset (handlers (own_ops (workers y i))) = accepted y + placed y' + mset (handlers (own_ops ?w))"
      by (simp add: y' placed_def s')
  qed (use pc'(2) s' in \<open>simp_all add: y'\<close>)
  moreover have "busy y' i \<or> pc (workers y' i) = Gone"
    using pc'(1-3) by (auto simp: busy_def y's waiting_def)
  ultimately show ?thesis using woken_busy [OF i] by blast
qed

lemma enter_inv:
  assumes inv: "sched_inv N y" and i: "i < N" and pc: "pc (workers y i) = Outside \<or> pc (workers y i) = Gone"
    and y': "y' = go i (run_entry (sched y)) (set_worker i (\<lambda>w. w\<lparr>mode := m, own_work := 0, own_ops := []\<rparr>) y)"
  shows "sched_inv N y' \<and> woken_ok N y'"
proof -
  have w: "own_ops (workers y i) = []" "own_work (workers y i) = 0"
    using sched_invD(3) [OF inv i] pc by (auto simp: worker_ok_def)
  let ?w = "(workers y i)\<lparr>mode := m, own_work := 0, own_ops := [], pc := run_entry (sched y)\<rparr>"
  have entry: "run_entry (sched y) = Stopping Outside \<or> run_entry (sched y) = Locking" by (simp add: run_entry_def)
  have "sched_inv N y'"
    by (rule worker_step [OF inv i, where w' = ?w])
      (use pc w entry in \<open>auto simp: y' worker_ok_def waiting_def rest_work_upd load_def\<close>)
  moreover have "busy y' i" using entry by (auto simp: busy_def y')
  ultimately show ?thesis using woken_busy [OF i] by blast
qed

lemma task_returns_inv:
  assumes inv: "sched_inv N y" and i: "i < N" and pc: "pc (workers y i) = In_task block"
    and y1: "y' = go i Task_done (set_worker i (\<lambda>w. w\<lparr>own_work := 0\<rparr>)
      (y\<lparr>sched := task_work_cleanup (own_work (workers y i)) (sched y), task_woken := False\<rparr>))"
  shows "sched_inv N y' \<and> woken_ok N y'"
proof -
  note I = sched_invD [OF inv]
  have only: "k < N \<Longrightarrow> pc (workers y k) = In_task True \<Longrightarrow> k = i" for k
    using in_task_counted(3) [OF I(1) i, of k] pc by simp
  have w: "own_work (workers y i) = 0" using I(3) [OF i] by (simp add: worker_ok_def pc)
  then have same: "(workers y i)\<lparr>own_work := 0\<rparr> = workers y i"
    by (cases "workers y i") simp
  have y': "y' = go i Task_done (y\<lparr>task_woken := False\<rparr>)"
    by (simp add: y1 w same task_work_cleanup_def go_def set_worker_def)
  have "counts_ok N y'"
    by (rule counts_upd [OF I(1) i, where w' = "(workers y i)\<lparr>pc := Task_done\<rparr>"])
      (use pc w in \<open>simp_all add: y' rest_work_def placed_def load_def waiting_def\<close>)
  moreover have "sleep_ok N y'"
  proof -
    have "\<forall>k<N. pc (workers y' k) \<noteq> In_task True" using only by (auto simp: y')
    moreover have "\<forall>k<N. worker_ok (workers y' k)" using I(2) w by (simp add: sleep_ok_def y' worker_ok_def)
    moreover have "stopped (sched y') \<Longrightarrow> odd (event_state (sched y')) \<and> (\<forall>k<N. pc (workers y' k) \<noteq> Asleep)"
      using I(5,6) by (simp add: y')
    ultimately show ?thesis by (simp add: sleep_ok_def)
  qed
  moreover have "busy y' i" by (simp add: busy_def y')
  ultimately show ?thesis using woken_busy [OF i] by (simp add: sched_inv_def)
qed

lemma stop_no_work_inv:
  assumes inv: "sched_inv N y" and i: "i < N" and pc: "pc (workers y i) = Stopping p"
    and y': "y' = go i p (region (stop_all_threads (sched y)) y)"
  shows "sched_inv N y' \<and> woken_ok N y'"
proof -
  let ?y = "region (stop_all_threads (sched y)) y"
  note inv1 = stop_region [OF inv]
  have st: "stopped (sched ?y)" "workers ?y i = workers y i"
    by (auto simp: region_fields stop_all_threads_def event_signal_all_def interrupt_task_def Let_def pc)
  have w: "worker_ok (workers ?y i)" by (rule sched_invD(3) [OF inv1 i])
  then have p: "pc_ok (Stopping p)" "own_work (workers y i) = 0" "\<not> carries p \<Longrightarrow> own_ops (workers y i) = []"
    "tasks (own_ops (workers y i)) = 0"
    by (simp_all add: worker_ok_def st pc)
  then have p': "pc_ok p" "\<not> waiting p" "\<not> in_task p" "\<forall>h. p \<noteq> Handling h" by (auto simp: waiting_def)
  have "sched_inv N y'"
  proof (rule worker_step [OF inv1 i, where w' = "(workers y i)\<lparr>pc := p\<rparr>"])
    show "worker_ok ((workers y i)\<lparr>pc := p\<rparr>)" using p p' by (auto simp: worker_ok_def)
    show "\<not> waiting (pc (workers ?y i))" by (simp add: st pc waiting_def)
    show "pc ((workers y i)\<lparr>pc := p\<rparr>) = In_task True \<longrightarrow> pc (workers ?y i) = In_task True" using p'(3) by auto
    show "rest_work y' + load (workers ?y i) = rest_work ?y + load ((workers y i)\<lparr>pc := p\<rparr>)"
      using p'(4) by (simp add: y' rest_work_upd st load_def pc)
    show "tasks (sched_queue (sched y')) + of_bool (in_task (pc ((workers y i)\<lparr>pc := p\<rparr>))) =
        tasks (sched_queue (sched ?y)) + of_bool (in_task (pc (workers ?y i)))"
      using p'(3) by (simp add: y' st pc)
  qed (use p'(2) in \<open>simp_all add: y' st rest_work_upd\<close>)
  moreover have "woken_ok N y'" using st(1) by (simp add: woken_ok_def y')
  ultimately show ?thesis by blast
qed

lemma flush_inv:
  assumes inv: "sched_inv N y" and i: "i < N" and pc: "pc (workers y i) = Flushing p"
    and y': "y' = go i p (set_worker i (\<lambda>w. w\<lparr>own_ops := []\<rparr>)
      (y\<lparr>sched := push_op (own_ops (workers y i)) (sched y)\<rparr>))"
  shows "sched_inv N y' \<and> woken_ok N y'"
proof -
  have w: "own_work (workers y i) = 0" "settled p" "tasks (own_ops (workers y i)) = 0"
    using sched_invD(3) [OF inv i] by (auto simp: worker_ok_def pc)
  have "sched_inv N y'"
    by (rule worker_step [OF inv i, where w' = "(workers y i)\<lparr>own_ops := [], pc := p\<rparr>"])
      (use w in \<open>auto simp: y' pc worker_ok_def waiting_def push_op_def rest_work_def placed_def load_def\<close>)
  moreover have "busy y' i \<or> pc (workers y' i) = Gone" using w(2) by (auto simp: busy_def y')
  ultimately show ?thesis using woken_busy [OF i] by blast
qed

lemma push_inv:
  assumes inv: "sched_inv N y" and z: "workers z = workers y" "task_woken z = task_woken y"
    "rest_work z = rest_work y" "accepted z + placed y = accepted y + placed z"
    "event_state (sched z) = event_state (sched y)" "stopped (sched z) = stopped (sched y)"
    "task_interrupted (sched z) = task_interrupted (sched y)"
    "tasks (sched_queue (sched z)) + of_bool (has_task (sched y)) =
      tasks (sched_queue (sched y)) + of_bool (has_task (sched z))"
    and y': "y' = region (wake_one_thread (sched z)) z"
  shows "sched_inv N y' \<and> woken_ok N y'"
proof -
  have "sched_inv N z" by (rule frame_inv [OF inv]) (simp_all add: z)
  from wake_region [OF this] show ?thesis by (simp add: y')
qed

lemma restart_inv:
  assumes inv: "sched_inv N y" "woken_ok N y" and y': "y' = y\<lparr>sched := restart (sched y)\<rparr>"
  shows "sched_inv N y' \<and> woken_ok N y'"
proof -
  note I = sched_invD [OF inv(1)]
  have "counts_ok N y'"
    by (rule counts_same [OF I(1)]) (simp_all add: y' restart_def rest_work_def placed_def)
  moreover have "sleep_ok N y'" using I(2) by (simp add: sleep_ok_def y' restart_def)
  moreover have "woken_ok N y'"
  proof (cases "stopped (sched y)")
    case False
    then have "restart (sched y) = sched y" by (simp add: restart_def)
    then show ?thesis using inv(2) by (simp add: y')
  next
    case True
    show ?thesis
    proof (cases "\<forall>k<N. pc (workers y k) = Outside")
      case True
      then show ?thesis by (simp add: woken_ok_def y')
    next
      case False
      then obtain k where k: "k < N" "pc (workers y k) \<noteq> Outside" by blast
      then have "busy y' k \<or> pc (workers y' k) = Gone \<or> pc (workers y' k) = Awake"
        using I(6,7) [OF True k(1)] by (auto simp: busy_def y')
      moreover have "odd (event_state (sched y'))" using I(5) [OF True] by (simp add: y' restart_def)
      ultimately show ?thesis unfolding woken_ok_def using k(1) by blast
    qed
  qed
  ultimately show ?thesis by (simp add: sched_inv_def)
qed

lemma own_ops_inv:
  assumes inv: "sched_inv N y" "woken_ok N y" and i: "i < N"
    and pc: "pc (workers y i) = Handling h \<or> pc (workers y i) = In_task block \<and> work = 0"
    and work: "work = 0 \<or> work = int (length (handlers ops))" and ops: "tasks ops = 0"
    and bal: "accepted y' + pending y = accepted y + pending y' + mset (handlers ops)"
      "int (size (pending y')) + int (length (handlers ops)) = int (size (pending y)) + work"
    and y': "y' = set_worker i (\<lambda>w. w\<lparr>own_work := own_work w + work, own_ops := own_ops w @ ops\<rparr>)
      (y\<lparr>pending := pending y', accepted := accepted y'\<rparr>)"
  shows "sched_inv N y' \<and> woken_ok N y'"
proof -
  have w: "worker_ok (workers y i)" by (rule sched_invD(3) [OF inv(1) i])
  let ?w = "(workers y i)\<lparr>own_work := own_work (workers y i) + work, own_ops := own_ops (workers y i) @ ops\<rparr>"
  have f: "workers y' = (workers y)(i := ?w)" "sched y' = sched y" "posting y' = posting y" "guards y' = guards y"
    "begun y' = begun y" "inlined y' = inlined y" "task_woken y' = task_woken y" "signals y' = signals y"
    by (subst y', simp)+
  have "sched_inv N y'"
  proof (rule worker_step [OF inv(1) i f(1)])
    show "worker_ok ?w" using w pc work ops by (auto simp: worker_ok_def)
    show "rest_work y' + load (workers y i) = rest_work y + load ?w"
      using bal(2) by (simp add: rest_work_def load_def f)
    show "accepted y' + placed y + mset (handlers (own_ops (workers y i))) = accepted y + placed y' + mset (handlers (own_ops ?w))"
    proof (rule multiset_eqI)
      fix x
      show "count (accepted y' + placed y + mset (handlers (own_ops (workers y i)))) x
          = count (accepted y + placed y' + mset (handlers (own_ops ?w))) x"
        using arg_cong [OF bal(1), of "\<lambda>m. count m x"] by (simp add: placed_def f)
    qed
  qed (use pc in \<open>auto simp: f waiting_def\<close>)
  moreover have "woken_ok N y'"
    by (rule frame_woken [OF inv(2)]) (simp_all add: f)
  ultimately show ?thesis by blast
qed

lemma submset_split:
  assumes "mset hs \<subseteq># M"
  obtains m where "M = mset hs + m" "M - mset hs = m"
  using assms by (metis add_diff_cancel_left' subset_mset.le_iff_add)

lemma performs_inv:
  assumes inv: "sched_inv N y" and i: "i < N" and pc: "pc (workers y i) = Performing d"
    and sub: "mset (h # hs) \<subseteq># pending y"
    and y': "y' = go i (Handling h)
       (if one_thread (sched y)
        then set_worker i (\<lambda>w. w\<lparr>own_ops := own_ops w @ map Handler hs\<rparr>)
          (y\<lparr>pending := pending y - mset (h # hs), inlined := inlined y @ [h]\<rparr>)
        else y\<lparr>pending := pending y - mset (h # hs), inlined := inlined y @ [h], posting := posting y + mset hs\<rparr>)"
  shows "sched_inv N y' \<and> woken_ok N y'"
proof -
  have w: "own_work (workers y i) = 0" "own_ops (workers y i) = []"
    using sched_invD(3) [OF inv i] by (simp_all add: worker_ok_def pc)
  obtain m where m: "pending y = mset (h # hs) + m" "pending y - mset (h # hs) = m"
    by (rule submset_split [OF sub])
  let ?w = "(workers y i)\<lparr>own_ops := (if one_thread (sched y) then map Handler hs else []), pc := Handling h\<rparr>"
  have same: "(workers y i)\<lparr>own_ops := [], pc := Handling h\<rparr> = (workers y i)\<lparr>pc := Handling h\<rparr>"
    using w(2) by (cases "workers y i") simp
  have ws: "workers y' = (workers y)(i := ?w)" by (simp add: y' w(2) same)
  have f: "sched y' = sched y" "task_woken y' = task_woken y" "accepted y' = accepted y" by (simp_all add: y')
  have "sched_inv N y'"
  proof (rule worker_step [OF inv i ws])
    show "worker_ok ?w" using w by (simp add: worker_ok_def)
    show "rest_work y' + load (workers y i) = rest_work y + load ?w"
      using w m by (simp add: rest_work_def load_def pc y')
    show "accepted y' + placed y + mset (handlers (own_ops (workers y i))) = accepted y + placed y' + mset (handlers (own_ops ?w))"
      using w m by (simp add: placed_def y' ac_simps)
  qed (simp_all add: f pc waiting_def)
  moreover have "busy y' i" by (simp add: busy_def ws)
  ultimately show ?thesis using woken_busy [OF i] by blast
qed

lemma post_ops_inv:
  assumes inv: "sched_inv N y" and z: "z = y\<lparr>sched := push_op (map Handler hs) (sched y), pending := p, posting := q\<rparr>"
    and eq: "pending y + posting y = p + q + mset hs"
  shows "sched_inv N (region (post_ops hs (sched y)) z) \<and> woken_ok N (region (post_ops hs (sched y)) z)"
proof -
  have size: "size (pending y) + size (posting y) = size p + size q + length hs"
    using arg_cong [OF eq, of size] by simp
  have "region (post_ops hs (sched y)) z = region (wake_one_thread (sched z)) z" by (simp add: post_ops_def z)
  then show ?thesis
    by (rule push_inv [OF inv, rotated -1])
      (use size in \<open>simp_all add: z push_op_def rest_work_def placed_def eq\<close>)
qed

lemma sched_step_inv: "sched_step N y y' \<Longrightarrow> sched_inv N y \<and> woken_ok N y \<Longrightarrow> sched_inv N y' \<and> woken_ok N y'"
proof (induction rule: sched_step.induct)
  case (enter i y m)
  then show ?case using enter_inv by blast
next
  case (lock i y)
  then show ?case using region_to_inv attempt_ok by blast
next
  case (deliver i y)
  then show ?case using awake_inv by blast
next
  case (deliver_nobody y)
  have "sched_inv N (y\<lparr>signals := signals y - 1\<rparr>)"
    by (rule frame_inv [OF conjunct1 [OF deliver_nobody.prems]]) (simp_all add: rest_work_def placed_def)
  moreover have "woken_ok N (y\<lparr>signals := signals y - 1\<rparr>)"
    by (rule frame_woken [OF conjunct2 [OF deliver_nobody.prems]]) (use deliver_nobody.hyps in simp_all)
  ultimately show ?case by blast
next
  case (spurious i y)
  then show ?case using awake_inv [of N y i _ "signals y"] by simp
next
  case (relock i y)
  then show ?case using relock_inv by blast
next
  case (task_completes i y block h)
  then obtain m where "pending y = add_mset h m" by (meson multi_member_split)
  with task_completes show ?case
    by (intro own_ops_inv [of N y i 0 block 0 "[Handler h]"]) simp_all
next
  case (task_reports i y block d)
  then show ?case by (intro own_ops_inv [of N y i 0 block 0 "[Descriptor d]"]) simp_all
next
  case (task_returns i y block)
  then show ?case using task_returns_inv by blast
next
  case (task_relock i y)
  then show ?case using task_relock_inv by blast
next
  case (post_own i y h is_continuation hs)
  then show ?case by (intro own_ops_inv [of N y i h True "int (length hs)" "map Handler hs"]) simp_all
next
  case (deferred_own i y h hs)
  then obtain m where "pending y = mset hs + m" "pending y - mset hs = m" by (metis submset_split)
  with deferred_own show ?case by (intro own_ops_inv [of N y i h True 0 "map Handler hs"]) simp_all
next
  case (performs i y d h hs)
  then show ?case using performs_inv by blast
next
  case (performs_nothing i y d s' last_one p p')
  then show ?case
    using handler_done_inv [of N y i 0 "own_work (compensate (workers y i))" d s' last_one p _ False p' _]
    by (simp add: compensate_def)
next
  case (handler_done i y h s' last_one p thrown p')
  then show ?case using handler_done_inv by blast
next
  case (stop_no_work i y p)
  then show ?case using stop_no_work_inv by blast
next
  case (flush i y p)
  then show ?case using flush_inv by blast
next
  case (post_count y hs)
  have "sched_inv N (y\<lparr>sched := (sched y)\<lparr>outstanding_work := outstanding_work (sched y) + int (length hs)\<rparr>,
      posting := posting y + mset hs, accepted := accepted y + mset hs\<rparr>)"
    by (rule frame_inv [OF conjunct1 [OF post_count.prems]]) (simp_all add: rest_work_def placed_def)
  moreover have "woken_ok N (y\<lparr>sched := (sched y)\<lparr>outstanding_work := outstanding_work (sched y) + int (length hs)\<rparr>,
      posting := posting y + mset hs, accepted := accepted y + mset hs\<rparr>)"
    by (rule frame_woken [OF conjunct2 [OF post_count.prems]]) simp_all
  ultimately show ?case by blast
next
  case (post_push hs y)
  then obtain m where m: "posting y = mset hs + m" "posting y - mset hs = m" by (metis submset_split)
  have "sched_inv N y" using post_push.prems by blast
  from post_ops_inv [OF this refl, of "pending y" m hs] m show ?case by (simp add: region_def ac_simps)
next
  case (start_async y h)
  have "sched_inv N (y\<lparr>sched := (sched y)\<lparr>outstanding_work := outstanding_work (sched y) + 1\<rparr>,
      pending := add_mset h (pending y), accepted := add_mset h (accepted y)\<rparr>)"
    by (rule frame_inv [OF conjunct1 [OF start_async.prems]]) (simp_all add: rest_work_def placed_def)
  moreover have "woken_ok N (y\<lparr>sched := (sched y)\<lparr>outstanding_work := outstanding_work (sched y) + 1\<rparr>,
      pending := add_mset h (pending y), accepted := add_mset h (accepted y)\<rparr>)"
    by (rule frame_woken [OF conjunct2 [OF start_async.prems]]) simp_all
  ultimately show ?case by blast
next
  case (post_deferred hs y)
  then obtain m where m: "pending y = mset hs + m" "pending y - mset hs = m" by (metis submset_split)
  have "sched_inv N y" using post_deferred.prems by blast
  from post_ops_inv [OF this refl, of m "posting y" hs] m show ?case by (simp add: region_def ac_simps)
next
  case (guard y)
  have "sched_inv N (y\<lparr>sched := (sched y)\<lparr>outstanding_work := outstanding_work (sched y) + 1\<rparr>, guards := guards y + 1\<rparr>)"
    by (rule frame_inv [OF conjunct1 [OF guard.prems]]) (simp_all add: rest_work_def placed_def)
  moreover have "woken_ok N (y\<lparr>sched := (sched y)\<lparr>outstanding_work := outstanding_work (sched y) + 1\<rparr>, guards := guards y + 1\<rparr>)"
    by (rule frame_woken [OF conjunct2 [OF guard.prems]]) simp_all
  ultimately show ?case by blast
next
  case (unguard y)
  have "sched_inv N (y\<lparr>sched := (sched y)\<lparr>outstanding_work := outstanding_work (sched y) - 1\<rparr>, guards := guards y - 1\<rparr>)"
    by (rule frame_inv [OF conjunct1 [OF unguard.prems]]) (use unguard.hyps in \<open>simp_all add: rest_work_def placed_def of_nat_diff\<close>)
  moreover have "woken_ok N (y\<lparr>sched := (sched y)\<lparr>outstanding_work := outstanding_work (sched y) - 1\<rparr>, guards := guards y - 1\<rparr>)"
    by (rule frame_woken [OF conjunct2 [OF unguard.prems]]) simp_all
  ultimately show ?case by blast
next
  case (stop y)
  have "stopped (sched (region (stop_all_threads (sched y)) y))"
    by (auto simp: region_fields stop_all_threads_def event_signal_all_def interrupt_task_def Let_def)
  then show ?case using stop_region stop by (simp add: woken_ok_def)
next
  case (again y)
  then show ?case using restart_inv by blast
next
  case (init y)
  show ?case
  proof (cases "\<not> shut_down (sched y) \<and> \<not> has_task (sched y)")
    case False
    then have "region (init_task (sched y)) y = y" by (auto simp: init_task_def region_def)
    with init show ?thesis by simp
  next
    case True
    let ?y = "y\<lparr>sched := push_op [Task_op] ((sched y)\<lparr>has_task := True\<rparr>)\<rparr>"
    have "region (init_task (sched y)) y = region (wake_one_thread (sched ?y)) ?y"
      using True by (simp add: init_task_def region_def)
    moreover have "sched_inv N (region (wake_one_thread (sched ?y)) ?y) \<and> woken_ok N (region (wake_one_thread (sched ?y)) ?y)"
      by (rule push_inv [OF conjunct1 [OF init.prems] _ _ _ _ _ _ _ _ refl])
        (use True in \<open>simp_all add: push_op_def rest_work_def placed_def\<close>)
    ultimately show ?thesis by simp
  qed
qed

lemma sched_start_inv: "sched_inv N (sched_start one) \<and> woken_ok N (sched_start one)"
  by (simp add: sched_inv_def counts_ok_def sleep_ok_def woken_ok_def sched_start_def new_scheduler_def worker_ok_def
      load_def waiting_def)

lemma sched_run_inv: "sched_run N one y \<Longrightarrow> sched_inv N y \<and> woken_ok N y"
  unfolding sched_run_def
proof (induction rule: rtranclp_induct)
  case base
  show ?case by (rule sched_start_inv)
qed (rule sched_step_inv)

section \<open>The order of the operations\<close>

definition line :: "sched_sys \<Rightarrow> sched_op list" where
  "line y = begun y @ queued (sched_queue (sched y))"

lemma line_region_to:
  assumes "region_ok s r"
  shows "line (region_to i r y) = begun y @ queued (sched_queue s)"
proof -
  obtain s' es p where r: "r = (s', es, p)" by (cases r)
  have "queued (sched_queue s) = begins p @ queued (sched_queue s')"
    using assms unfolding r region_ok_def prod.case by blast
  then show ?thesis unfolding r by (simp add: line_def region_to_fields [OF assms [unfolded r]])
qed

lemma line_region: "line (region r y) = begun y @ queued (sched_queue (fst r))"
  by (simp add: line_def region_fields)

lemma queue_wake [simp]: "sched_queue (fst (wake_one_thread s)) = sched_queue s"
  using wake_one_wakes [of s] by (simp add: wakes_def split: prod.splits)

lemma queue_stop [simp]: "sched_queue (fst (stop_all_threads s)) = sched_queue s"
  by (auto simp: stop_all_threads_def event_signal_all_def interrupt_task_def Let_def)

lemma queue_task_work [simp]: "sched_queue (task_work_cleanup n s) = sched_queue s"
  by (simp add: task_work_cleanup_def)

lemma after_wake_line: "line (region_to i (after_wake m (sched y)) y) = line y"
proof -
  consider "region_ok (event_back (sched y)) (after_wake m (sched y))"
    | "after_wake m (sched y) = (event_sleep (event_back (sched y)), [], Asleep)"
    using after_wake_cases by blast
  then show ?thesis
  proof cases
    case 1
    have "line y = begun y @ queued (sched_queue (event_back (sched y)))" by (simp add: line_def event_back_def)
    with line_region_to [OF 1] show ?thesis by simp
  next
    case 2
    then show ?thesis by (simp add: region_to_def line_def region_fields event_sleep_def event_back_def)
  qed
qed

lemma sched_step_line: "sched_step N y y' \<Longrightarrow> prefix (line y) (line y')"
proof (induction rule: sched_step.induct)
  case (lock i y)
  have "line (region_to i (attempt (mode (workers y i)) (sched y)) y) = line y"
    unfolding line_region_to [OF attempt_ok] by (simp add: line_def)
  then show ?case by simp
next
  case (relock i y)
  show ?case by (simp add: after_wake_line)
next
  case (task_relock i y)
  show ?case
    unfolding line_region_to [OF after_task_ok] by (simp add: line_def task_cleanup_def push_op_def)
next
  case (performs_nothing i y d s' last_one p p')
  have "sched_queue s' = sched_queue (sched y)"
    using performs_nothing.hyps(3) by (auto simp: work_cleanup_def Let_def split: if_splits)
  then show ?case by (simp add: line_def)
next
  case (handler_done i y h s' last_one p thrown p')
  have "sched_queue s' = sched_queue (sched y)"
    using handler_done.hyps(3) by (auto simp: work_cleanup_def Let_def split: if_splits)
  then show ?case by (simp add: line_def)
next
  case (post_push hs y)
  show ?case by (simp add: line_region post_ops_def push_op_def) (simp add: line_def)
next
  case (post_deferred hs y)
  show ?case by (simp add: line_region post_ops_def push_op_def) (simp add: line_def)
next
  case (init y)
  show ?case by (auto simp: line_region init_task_def push_op_def) (simp_all add: line_def)
qed (simp_all add: line_def region_fields push_op_def restart_def)

lemma sched_steps_line: "(sched_step N)\<^sup>*\<^sup>* y y' \<Longrightarrow> prefix (line y) (line y')"
  by (induction rule: rtranclp_induct) (auto intro: prefix_order.trans sched_step_line)

section \<open>The states of descriptors\<close>

text \<open>
  A queue of operations is linked through the operations themselves, so the state of a
  descriptor must not be put on a queue while it is on one. The reactor asks only whether it is
  on the list it is filling; the rest rests on where the task is in the queue.
\<close>

fun descs :: "sched_op list \<Rightarrow> nat list" where
  "descs [] = []"
| "descs (Descriptor d # ops) = d # descs ops"
| "descs (_ # ops) = descs ops"

lemma descs_append [simp]: "descs (xs @ ys) = descs xs @ descs ys"
  by (induction xs rule: descs.induct) auto

lemma descs_map [simp]: "descs (map Handler hs) = []"
  by (induction hs) auto

lemma descs_set: "d \<in> set (descs ops) \<longleftrightarrow> Descriptor d \<in> set ops"
  by (induction ops rule: descs.induct) auto

definition behind_task :: "sched_op list \<Rightarrow> sched_op list" where
  "behind_task q = (if Task_op \<in> set q then dropWhile (\<lambda>op. op \<noteq> Task_op) q else q)"

definition queue_descs_ok :: "sched_op list \<Rightarrow> bool" where
  "queue_descs_ok q \<longleftrightarrow> distinct (descs q) \<and> descs (behind_task q) = []"

definition worker_descs_ok :: "worker \<Rightarrow> bool" where
  "worker_descs_ok w \<longleftrightarrow> distinct (descs (own_ops w)) \<and> (\<not> in_task (pc w) \<longrightarrow> descs (own_ops w) = [])"

definition descs_ok :: "nat \<Rightarrow> sched_sys \<Rightarrow> bool" where
  "descs_ok N y \<longleftrightarrow> queue_descs_ok (sched_queue (sched y)) \<and> (\<forall>i<N. worker_descs_ok (workers y i))"

lemma tasks_0_iff: "tasks q = 0 \<longleftrightarrow> Task_op \<notin> set q"
  by (simp add: count_list_0_iff)

lemma queue_descs_push: "queue_descs_ok q \<Longrightarrow> descs ops = [] \<Longrightarrow> Task_op \<notin> set ops \<Longrightarrow> queue_descs_ok (q @ ops)"
  by (auto simp: queue_descs_ok_def behind_task_def dropWhile_append)

lemma queue_descs_task:
  "queue_descs_ok q \<Longrightarrow> Task_op \<notin> set q \<Longrightarrow> distinct (descs own) \<Longrightarrow> Task_op \<notin> set own \<Longrightarrow> queue_descs_ok (q @ own @ [Task_op])"
  by (auto simp: queue_descs_ok_def behind_task_def dropWhile_append)

lemma queue_descs_pop:
  assumes "queue_descs_ok (op # rest)" and "op = Task_op \<Longrightarrow> Task_op \<notin> set rest"
  shows "queue_descs_ok rest"
  using assms by (cases op) (auto simp: queue_descs_ok_def behind_task_def split: if_splits)

text \<open>A region leaves the queue or takes its front.\<close>

definition takes_front :: "scheduler \<Rightarrow> scheduler \<times> sched_effect list \<times> sched_pc \<Rightarrow> bool" where
  "takes_front s r \<longleftrightarrow> sched_queue (fst r) = sched_queue s \<or> (\<exists>op. sched_queue s = op # sched_queue (fst r))"

lemma queue_signal [simp]:
  "sched_queue (fst (unlock_and_signal_one s)) = sched_queue s"
  "sched_queue (fst (maybe_unlock_and_signal_one s)) = sched_queue s"
  "sched_queue (event_sleep s) = sched_queue s" "sched_queue (event_clear s) = sched_queue s"
  "sched_queue (event_back s) = sched_queue s"
  by (simp_all add: unlock_and_signal_one_def maybe_unlock_and_signal_one_def event_sleep_def event_clear_def
      event_back_def Let_def)

lemma take_queue [simp]:
  "sched_queue (fst (take_handler p rest s)) = rest" "sched_queue (fst (take_task b rest s)) = rest"
proof -
  obtain s' es where "wake_one_thread (s\<lparr>sched_queue := rest\<rparr>) = (s', es)" by force
  with queue_wake [of "s\<lparr>sched_queue := rest\<rparr>"] show "sched_queue (fst (take_handler p rest s)) = rest"
    by (simp add: take_handler_def Let_def)
  show "sched_queue (fst (take_task b rest s)) = rest"
    by (simp add: take_task_def unlock_and_signal_one_def Let_def)
qed

lemma takes_front_simps [simp]:
  "takes_front s (s, es, p)" "takes_front s (event_sleep (event_clear s), es, p)"
  "sched_queue s = op # rest \<Longrightarrow> takes_front s (take_handler p rest s)"
  "sched_queue s = op # rest \<Longrightarrow> takes_front s (take_task b rest s)"
  "sched_queue s = op # rest \<Longrightarrow> takes_front s (s\<lparr>sched_queue := rest\<rparr>, es, p)"
  by (simp_all add: takes_front_def)

lemma takes_front_attempt: "takes_front s (attempt m s)"
  by (cases s rule: queue_front_cases; cases m)
    (simp_all add: do_run_one_def do_wait_one_def wait_front_def do_poll_one_def)

lemma takes_front_second_look: "takes_front s (second_look b s)"
proof (cases s rule: queue_front_cases)
  case (2 rest)
  obtain s1 es w where "maybe_unlock_and_signal_one s = (s1, es, w)" by (cases "maybe_unlock_and_signal_one s")
  with queue_signal(2) [of s] 2 show ?thesis by (simp add: second_look_def takes_front_def)
qed (simp_all add: second_look_def)

lemma takes_front_after_task: "takes_front s (after_task m s)"
  using takes_front_attempt [of s Run] by (cases m) (simp_all add: takes_front_second_look)

lemma takes_front_after_wake: "takes_front s (after_wake m s)"
proof -
  have "takes_front (event_back s) r \<Longrightarrow> takes_front s r" for r by (simp add: takes_front_def)
  moreover have "takes_front (event_back s) (do_run_one (event_back s))"
    using takes_front_attempt [of "event_back s" Run] by simp
  moreover have "takes_front (event_back s) (wait_front 0 (event_back s))"
    by (cases "event_back s" rule: queue_front_cases) (simp_all add: wait_front_def)
  ultimately show ?thesis by (cases m) (auto simp: takes_front_def)
qed

text \<open>The steps keep it.\<close>

lemma descs_region_to:
  assumes inv: "descs_ok N y" and i: "i < N" and front: "takes_front s r" and q: "queue_descs_ok (sched_queue s)"
    and one: "tasks (sched_queue s) \<le> 1" and own: "own_ops (workers y i) = []" and quiet: "Signal_all \<notin> set (fst (snd r))"
  shows "descs_ok N (region_to i r y)"
proof -
  obtain s' es p where r: "r = (s', es, p)" by (cases r)
  consider "sched_queue s' = sched_queue s" | op where "sched_queue s = op # sched_queue s'"
    using front by (auto simp: takes_front_def r)
  then have "queue_descs_ok (sched_queue s')"
  proof cases
    case (2 op)
    then have "op = Task_op \<Longrightarrow> Task_op \<notin> set (sched_queue s')" using one by (simp flip: tasks_0_iff)
    then show ?thesis using q 2 queue_descs_pop by metis
  qed (use q in simp)
  then show ?thesis
    using inv i own quiet by (auto simp: descs_ok_def r region_to_def region_fields worker_descs_ok_def)
qed

lemma descs_frame:
  assumes "descs_ok N y" and "queue_descs_ok (sched_queue (sched y'))"
    and "\<And>i. i < N \<Longrightarrow> own_ops (workers y' i) = own_ops (workers y i)
      \<and> (in_task (pc (workers y i)) \<longrightarrow> in_task (pc (workers y' i)))"
  shows "descs_ok N y'"
  using assms unfolding descs_ok_def worker_descs_ok_def by metis

lemma descs_worker:
  assumes "descs_ok N y" and "sched_queue (sched y') = sched_queue (sched y)"
    and "workers y' = (workers y)(i := w')" and "worker_descs_ok w'"
  shows "descs_ok N y'"
  using assms unfolding descs_ok_def by auto

lemma quiet_regions: "Signal_all \<notin> set (fst (snd (attempt m s)))" "Signal_all \<notin> set (fst (snd (after_task m s)))"
  using attempt_ok [of s m] after_task_ok [of s m] by (auto simp: region_ok_def split: prod.splits)

lemma quiet_after_wake: "Signal_all \<notin> set (fst (snd (after_wake m s)))"
  using after_wake_cases [of s m] by (auto simp: region_ok_def split: prod.splits)

lemma one_task: "counts_ok N y \<Longrightarrow> tasks (sched_queue (sched y)) \<le> 1"
  unfolding counts_ok_def by (cases "has_task (sched y)") auto

lemma push_descs: "queue_descs_ok (sched_queue s) \<Longrightarrow> queue_descs_ok (sched_queue (fst (post_ops hs s)))"
  by (auto simp: post_ops_def push_op_def intro: queue_descs_push)

lemma workers_wake_ops [simp]: "own_ops (wake w) = own_ops w" "in_task (pc (wake w)) = in_task (pc w)"
  by simp_all

lemma quiet_wake: "Signal_all \<notin> set (snd (wake_one_thread s))"
  using wake_one_wakes [of s] by (auto simp: wakes_def split: prod.splits)

lemma sched_step_descs: "sched_step N y y' \<Longrightarrow> sched_inv N y \<Longrightarrow> descs_ok N y \<Longrightarrow> descs_ok N y'"
proof (induction rule: sched_step.induct)
  case (enter i y m)
  show ?case
    by (intro descs_worker [OF enter.prems(2)]) (auto simp: worker_descs_ok_def)
next
  case (lock i y)
  have "own_ops (workers y i) = []"
    using sched_invD(3) [OF lock.prems(1) lock.hyps(1)] lock.hyps(2) by (simp add: worker_ok_def)
  then show ?case
    using lock descs_region_to [OF lock.prems(2) lock.hyps(1) takes_front_attempt _ one_task [OF sched_invD(1)]]
    by (simp add: descs_ok_def quiet_regions)
next
  case (relock i y)
  have "own_ops (workers y i) = []"
    using sched_invD(3) [OF relock.prems(1) relock.hyps(1)] relock.hyps(2) by (simp add: worker_ok_def)
  then show ?case
    using relock descs_region_to [OF relock.prems(2) relock.hyps(1) takes_front_after_wake _ one_task [OF sched_invD(1)]]
    by (simp add: descs_ok_def quiet_after_wake)
next
  case (task_completes i y block h)
  then show ?case
    by (intro descs_worker [OF task_completes.prems(2)]) (auto simp: worker_descs_ok_def descs_ok_def)
next
  case (task_reports i y block d)
  then show ?case
    by (intro descs_worker [OF task_reports.prems(2)]) (auto simp: worker_descs_ok_def descs_ok_def descs_set)
next
  case (task_returns i y block)
  then show ?case
    by (intro descs_worker [OF task_returns.prems(2)]) (auto simp: worker_descs_ok_def descs_ok_def)
next
  case (task_relock i y)
  let ?y = "set_worker i (\<lambda>w. w\<lparr>own_ops := []\<rparr>) y"
  let ?s = "task_cleanup (own_ops (workers y i)) (sched y)"
  note I = sched_invD [OF task_relock.prems(1)]
  have t: "in_task (pc (workers y i))" using task_relock.hyps(2) by simp
  have no: "Task_op \<notin> set (sched_queue (sched y))"
    using in_task_counted(2) [OF I(1) task_relock.hyps(1) t] by (simp add: tasks_0_iff)
  have own: "distinct (descs (own_ops (workers y i)))" "Task_op \<notin> set (own_ops (workers y i))"
    using task_relock.prems(2) I(3) [OF task_relock.hyps(1)] task_relock.hyps(1)
    by (auto simp: descs_ok_def worker_descs_ok_def worker_ok_def tasks_0_iff)
  have "queue_descs_ok (sched_queue ?s)"
    using queue_descs_task [OF _ no own] task_relock.prems(2) by (simp add: descs_ok_def task_cleanup_def push_op_def)
  moreover have "tasks (sched_queue ?s) \<le> 1"
    using no own by (simp add: task_cleanup_def push_op_def tasks_0_iff [THEN iffD2])
  moreover have "descs_ok N ?y"
    by (intro descs_worker [OF task_relock.prems(2)]) (auto simp: worker_descs_ok_def)
  ultimately show ?case
    using descs_region_to [OF _ task_relock.hyps(1) takes_front_after_task] by (simp add: quiet_regions)
next
  case (post_own i y h is_continuation hs)
  then show ?case
    by (intro descs_worker [OF post_own.prems(2)]) (auto simp: worker_descs_ok_def descs_ok_def)
next
  case (deferred_own i y h hs)
  then show ?case
    by (intro descs_worker [OF deferred_own.prems(2)]) (auto simp: worker_descs_ok_def descs_ok_def)
next
  case (performs i y d h hs)
  then show ?case
    by (auto simp: worker_descs_ok_def descs_ok_def)
next
  case (performs_nothing i y d s' last_one p p')
  have "sched_queue s' = sched_queue (sched y)"
    using performs_nothing.hyps(3) by (auto simp: work_cleanup_def Let_def split: if_splits)
  then show ?case using performs_nothing
    by (intro descs_worker [OF performs_nothing.prems(2)]) (auto simp: worker_descs_ok_def descs_ok_def)
next
  case (handler_done i y h s' last_one p thrown p')
  have "sched_queue s' = sched_queue (sched y)"
    using handler_done.hyps(3) by (auto simp: work_cleanup_def Let_def split: if_splits)
  then show ?case using handler_done
    by (intro descs_worker [OF handler_done.prems(2)]) (auto simp: worker_descs_ok_def descs_ok_def)
next
  case (stop_no_work i y p)
  then show ?case
    by (auto simp: descs_ok_def region_fields worker_descs_ok_def)
next
  case (flush i y p)
  have "Task_op \<notin> set (own_ops (workers y i))"
    using sched_invD(3) [OF flush.prems(1) flush.hyps(1)] by (simp add: worker_ok_def tasks_0_iff)
  then show ?case using flush
    by (auto simp: descs_ok_def worker_descs_ok_def push_op_def intro!: queue_descs_push)
next
  case (init y)
  have "Task_op \<notin> set (sched_queue (sched y))" if "\<not> has_task (sched y)"
    using sched_invD(1) [OF init.prems(1)] that by (simp add: counts_ok_def tasks_0_iff)
  then show ?case using init queue_descs_task [of "sched_queue (sched y)" "[]"]
    by (auto simp: descs_ok_def region_fields init_task_def push_op_def quiet_wake)
qed (auto simp: descs_ok_def region_fields push_descs worker_descs_ok_def restart_def)

lemma sched_run_descs: "sched_run N one y \<Longrightarrow> descs_ok N y"
  unfolding sched_run_def
proof (induction rule: rtranclp_induct)
  case base
  show ?case by (simp add: descs_ok_def sched_start_def new_scheduler_def queue_descs_ok_def behind_task_def worker_descs_ok_def)
next
  case (step y y')
  then show ?case using sched_step_descs sched_run_inv [unfolded sched_run_def] by blast
qed

lemma in_task_descs:
  assumes inv: "sched_inv N y" and D: "queue_descs_ok (sched_queue (sched y))" "\<And>i. i < N \<Longrightarrow> worker_descs_ok (workers y i)"
    and i: "i < N" "descs (own_ops (workers y i)) \<noteq> []"
  shows "distinct (descs (own_ops (workers y i))) \<and> descs (sched_queue (sched y)) = []
    \<and> (\<forall>j<N. j \<noteq> i \<longrightarrow> descs (own_ops (workers y j)) = [])"
proof -
  have t: "in_task (pc (workers y i))" using D(2) [OF i(1)] i(2) by (auto simp: worker_descs_ok_def)
  note task = in_task_counted [OF sched_invD(1) [OF inv] i(1) t]
  have "Task_op \<notin> set (sched_queue (sched y))" using task(2) by (simp add: tasks_0_iff)
  then have "descs (sched_queue (sched y)) = []" using D(1) by (simp add: queue_descs_ok_def behind_task_def)
  moreover have "descs (own_ops (workers y j)) = []" if "j < N" "j \<noteq> i" for j
    using D(2) [OF that(1)] task(3) [OF that(1)] that(2) by (auto simp: worker_descs_ok_def)
  ultimately show ?thesis using D(2) [OF i(1)] by (simp add: worker_descs_ok_def)
qed

section \<open>Properties\<close>

text \<open>
  C15. Every operation that was handed over is in one place: still with the reactor, on its way to
  a queue, on the queue of the scheduler or of a thread, or begun, either taken from the queue or
  completed at once by the state of its descriptor; so no handler is lost and none runs twice. The
  queue is served in order: whatever is taken from it or still on it keeps its place in the line
  for good, and new operations join at the end. The state of a descriptor is on one queue at a
  time, the scheduler's or that of the thread in the task, and there once, as the links between
  the operations of a queue need.
\<close>

theorem handlers_run_once_in_order:
  assumes "sched_run N one y" and "(sched_step N)\<^sup>*\<^sup>* y y'"
  shows "accepted y = pending y + posting y + mset (handlers (sched_queue (sched y)))
      + (\<Sum>i<N. mset (handlers (own_ops (workers y i)))) + mset (handlers (begun y)) + mset (inlined y)
    \<and> prefix (begun y @ queued (sched_queue (sched y))) (begun y' @ queued (sched_queue (sched y')))
    \<and> distinct (descs (sched_queue (sched y)))
    \<and> (\<forall>i<N. descs (own_ops (workers y i)) \<noteq> [] \<longrightarrow>
        distinct (descs (own_ops (workers y i))) \<and> descs (sched_queue (sched y)) = []
        \<and> (\<forall>j<N. j \<noteq> i \<longrightarrow> descs (own_ops (workers y j)) = []))"
proof -
  have inv: "sched_inv N y" using sched_run_inv [OF assms(1)] by blast
  have D: "queue_descs_ok (sched_queue (sched y))" "\<And>i. i < N \<Longrightarrow> worker_descs_ok (workers y i)"
    using sched_run_descs [OF assms(1)] by (simp_all add: descs_ok_def)
  have "distinct (descs (own_ops (workers y i))) \<and> descs (sched_queue (sched y)) = []
        \<and> (\<forall>j<N. j \<noteq> i \<longrightarrow> descs (own_ops (workers y j)) = [])"
    if "i < N" "descs (own_ops (workers y i)) \<noteq> []" for i
    using in_task_descs [OF inv D that] .
  moreover have "accepted y = pending y + posting y + mset (handlers (sched_queue (sched y)))
      + (\<Sum>i<N. mset (handlers (own_ops (workers y i)))) + mset (handlers (begun y)) + mset (inlined y)"
    using sched_invD(1) [OF inv] unfolding counts_ok_def by blast
  moreover note sched_steps_line [OF assms(2), unfolded line_def]
  moreover have "distinct (descs (sched_queue (sched y)))" using D(1) by (simp add: queue_descs_ok_def)
  ultimately show ?thesis by blast
qed

text \<open>
  C17. The count of outstanding work is exact, and what it counts: it is never negative, and it is
  zero if and only if no handler is with the reactor, on its way, on a queue of the scheduler or
  of a thread, or running, and nothing else was counted. The states of descriptors that the
  reactor reports do not count, whether queued or being performed: the call of
  \<open>compensating_work_started\<close> makes up for one that completes no handler. So \<open>run\<close>, which gives up
  when it finds the count at zero, and \<open>work_finished\<close>, which stops the scheduler when it brings it
  to zero, never leave a handler behind, though they may leave the state of a descriptor
  (\<open>descriptor_left_behind\<close>). Handlers that call \<open>run\<close> or \<open>poll\<close> of the scheduler they run in are
  outside the model.
\<close>

theorem outstanding_work_exact:
  assumes "sched_run N one y"
  shows "0 \<le> outstanding_work (sched y) \<and> (outstanding_work (sched y) = 0 \<longleftrightarrow>
    pending y = {#} \<and> posting y = {#} \<and> guards y = 0 \<and> handlers (sched_queue (sched y)) = []
      \<and> (\<forall>i<N. handlers (own_ops (workers y i)) = [] \<and> (\<forall>h. pc (workers y i) \<noteq> Handling h)))"
proof -
  have inv: "sched_inv N y" using sched_run_inv [OF assms] by blast
  have w: "i < N \<Longrightarrow> worker_ok (workers y i)" for i by (rule sched_invD(3) [OF inv])
  have eq: "outstanding_work (sched y) = int (size (pending y)) + int (size (posting y)) + int (guards y)
      + int (length (handlers (sched_queue (sched y)))) + (\<Sum>i<N. load (workers y i))"
    using sched_invD(1) [OF inv] unfolding counts_ok_def by blast
  have nonneg: "i < N \<Longrightarrow> 0 \<le> load (workers y i)" for i using w [of i] by (simp add: load_def worker_ok_def)
  then have sum: "0 \<le> (\<Sum>i<N. load (workers y i))" by (intro sum_nonneg) simp
  then have "0 \<le> outstanding_work (sched y)" unfolding eq by simp
  have "load (workers y i) = 0 \<longleftrightarrow> handlers (own_ops (workers y i)) = [] \<and> (\<forall>h. pc (workers y i) \<noteq> Handling h)"
    if "i < N" for i
    using w [OF that] by (auto simp: load_def worker_ok_def)
  moreover have "(\<Sum>i<N. load (workers y i)) = 0 \<longleftrightarrow> (\<forall>i<N. load (workers y i) = 0)"
    using nonneg by (subst sum_nonneg_eq_0_iff) auto
  ultimately have loads: "(\<Sum>i<N. load (workers y i)) = 0 \<longleftrightarrow>
      (\<forall>i<N. handlers (own_ops (workers y i)) = [] \<and> (\<forall>h. pc (workers y i) \<noteq> Handling h))" by simp
  have "outstanding_work (sched y) = 0 \<longleftrightarrow> size (pending y) = 0 \<and> size (posting y) = 0 \<and> guards y = 0
      \<and> length (handlers (sched_queue (sched y))) = 0 \<and> (\<Sum>i<N. load (workers y i)) = 0"
    unfolding eq using sum by linarith
  then show ?thesis using \<open>0 \<le> outstanding_work (sched y)\<close> unfolding loads by simp
qed

text \<open>
  C16. No wake-up is lost as long as no thread has left \<open>run_one\<close>, \<open>wait_one\<close>, \<open>poll\<close> or \<open>poll_one\<close>,
  or \<open>run\<close> by an exception, while the scheduler was not stopped: then, if an operation is queued and
  threads are inside, some thread will look at the queue without any further call; it is not
  asleep, or it has been signalled, or the task in which it blocks has been interrupted. After
  \<open>stop\<close> no thread sleeps and a task that blocks has been interrupted, whoever has left. Without the
  proviso a wake-up can be lost (\<open>wakeup_lost\<close>).
\<close>

theorem scheduler_loses_no_wakeup:
  assumes "sched_run N one y"
  shows "(\<not> stopped (sched y) \<and> sched_queue (sched y) \<noteq> [] \<and> (\<exists>i<N. pc (workers y i) \<noteq> Outside)
      \<and> (\<forall>i<N. pc (workers y i) \<noteq> Gone) \<longrightarrow>
      (\<exists>i<N. busy y i \<or> pc (workers y i) = Awake \<or> pc (workers y i) = Asleep \<and> 0 < signals y))
    \<and> (stopped (sched y) \<longrightarrow> (\<forall>i<N. pc (workers y i) \<noteq> Asleep \<and> (pc (workers y i) = In_task True \<longrightarrow> task_woken y)))"
proof (intro conjI impI)
  note inv = sched_run_inv [OF assms]
  show "\<exists>i<N. busy y i \<or> pc (workers y i) = Awake \<or> pc (workers y i) = Asleep \<and> 0 < signals y"
    if "\<not> stopped (sched y) \<and> sched_queue (sched y) \<noteq> [] \<and> (\<exists>i<N. pc (workers y i) \<noteq> Outside)
      \<and> (\<forall>i<N. pc (workers y i) \<noteq> Gone)"
    using that conjunct2 [OF inv] unfolding woken_ok_def by blast
  show "stopped (sched y) \<Longrightarrow> \<forall>i<N. pc (workers y i) \<noteq> Asleep \<and> (pc (workers y i) = In_task True \<longrightarrow> task_woken y)"
    using sched_invD(6,7) [OF conjunct1 [OF inv]] by blast
qed

text \<open>
  A run of one thread: an operation starts with the reactor, the thread goes to sleep on the empty
  queue, and the operation completes.
\<close>

definition started :: sched_sys where
  "started = (sched_start False)\<lparr>sched := (new_scheduler False)\<lparr>outstanding_work := 1\<rparr>, pending := {#7#}, accepted := {#7#}\<rparr>"

definition entered :: sched_sys where
  "entered = go 0 Locking (set_worker 0 (\<lambda>w. w\<lparr>mode := Run, own_work := 0, own_ops := []\<rparr>) started)"

definition slept :: sched_sys where
  "slept = region_to 0 (attempt Run (sched entered)) entered"

definition completed :: sched_sys where
  "completed = region (post_ops [7] (sched slept)) (slept\<lparr>pending := {#}\<rparr>)"

lemmas demo_defs = started_def entered_def sched_start_def new_scheduler_def

lemma started_run: "sched_run 1 False started"
proof -
  have "sched_step 1 (sched_start False) started"
    using sched_step.start_async [of 1 "sched_start False" 7] by (simp add: demo_defs)
  then show ?thesis unfolding sched_run_def by (rule r_into_rtranclp)
qed

lemma started_slept: "(sched_step 1)\<^sup>*\<^sup>* started slept"
proof -
  have "sched_step 1 started entered"
    using sched_step.enter [of 0 1 started Run] by (simp add: demo_defs run_entry_def)
  moreover have "sched_step 1 entered slept"
    using sched_step.lock [of 0 1 entered] by (simp add: slept_def) (simp add: demo_defs)
  ultimately show ?thesis by (meson rtranclp.rtrancl_into_rtrancl r_into_rtranclp)
qed

lemma slept_fields:
  "sched_queue (sched slept) = []" "pc (workers slept 0) = Asleep" "pending slept = {#7#}" "begun slept = []"
  "event_state (sched slept) = 2" "\<not> stopped (sched slept)" "signals slept = 0"
  by (simp_all add: slept_def demo_defs do_run_one_def region_to_def region_fields event_sleep_def event_clear_def)

lemma completed_run: "(sched_step 1)\<^sup>*\<^sup>* started completed"
proof -
  have "sched_step 1 slept completed"
    using sched_step.post_deferred [of "[7]" slept 1] by (simp add: completed_def slept_fields)
  with started_slept show ?thesis by (rule rtranclp.rtrancl_into_rtrancl)
qed

lemma completed_fields:
  "handlers (sched_queue (sched completed)) = [7]" "workers completed = workers slept" "\<not> stopped (sched completed)"
  by (simp_all add: completed_def region_fields post_ops_def push_op_def wake_one_thread_def
      maybe_unlock_and_signal_one_def or_one slept_fields)

lemma completed_reachable: "sched_run 1 False completed"
  using started_run completed_run unfolding sched_run_def by (rule rtranclp_trans)

theorem handlers_run_once_in_order_witness:
  "accepted started = {#7#} \<and> prefix (begun started @ queued (sched_queue (sched started))) [Handler 7]
    \<and> accepted started = pending started"
  using handlers_run_once_in_order [OF started_run completed_run] by (simp add: demo_defs)

theorem outstanding_work_exact_witness: "outstanding_work (sched completed) \<noteq> 0"
  using outstanding_work_exact [OF completed_reachable] by (simp add: completed_fields)

theorem scheduler_loses_no_wakeup_witness: "0 < signals completed"
proof -
  have "sched_queue (sched completed) \<noteq> []" using completed_fields(1) by auto
  with scheduler_loses_no_wakeup [OF completed_reachable] show ?thesis
    by (auto simp: completed_fields slept_fields busy_def)
qed

section \<open>What the count and the wake-ups do not cover\<close>

text \<open>The states of the two runs below, of one and of two threads.\<close>

abbreviation at_rest :: worker where
  "at_rest \<equiv> \<lparr>pc = Outside, mode = Run, own_work = 0, own_ops = []\<rparr>"

definition demo :: "scheduler \<Rightarrow> worker \<Rightarrow> worker \<Rightarrow> nat \<Rightarrow> nat multiset \<Rightarrow> nat multiset \<Rightarrow> nat \<Rightarrow> nat multiset
    \<Rightarrow> sched_op list \<Rightarrow> sched_sys" where
  "demo s v w sig pend post gs acc ops = \<lparr>sched = s, workers = (\<lambda>_. at_rest)(0 := v, 1 := w), signals = sig,
     task_woken = False, pending = pend, posting = post, guards = gs, accepted = acc, begun = ops, inlined = []\<rparr>"

definition demo_sched :: "bool \<Rightarrow> bool \<Rightarrow> int \<Rightarrow> sched_op list \<Rightarrow> bool \<Rightarrow> nat \<Rightarrow> scheduler" where
  "demo_sched task intr n q st ev = \<lparr>one_thread = False, has_task = task, task_interrupted = intr, outstanding_work = n,
     sched_queue = q, stopped = st, shut_down = False, event_state = ev\<rparr>"

definition demo_worker :: "sched_pc \<Rightarrow> run_mode \<Rightarrow> int \<Rightarrow> sched_op list \<Rightarrow> worker" where
  "demo_worker p m n ops = \<lparr>pc = p, mode = m, own_work = n, own_ops = ops\<rparr>"

lemmas demo_run_defs = demo_def demo_sched_def demo_worker_def region_to_def region_def go_def set_worker_def
  do_run_one_def take_task_def take_handler_def wake_one_thread_def maybe_unlock_and_signal_one_def
  interrupt_task_def post_ops_def push_op_def or_one event_sleep_def event_clear_def event_back_def

lemma wake_demo:
  "wake \<circ> (\<lambda>_. at_rest)(0 := v, Suc 0 := w) = (\<lambda>_. at_rest)(0 := wake v, Suc 0 := wake w)"
  by (auto simp: fun_eq_iff)

text \<open>
  The state of a descriptor is left on the queue: the only operation completes before the reactor's
  report is performed, the count comes down to zero, and the scheduler stops, as the comment in
  \<open>epoll_reactor::run\<close> says it may.
\<close>

lemma descriptor_left_behind:
  "\<exists>y. sched_run 1 False y \<and> outstanding_work (sched y) = 0 \<and> stopped (sched y) \<and> Descriptor 5 \<in> set (sched_queue (sched y))"
proof -
  let ?step = "sched_step 1"
  let ?W = "\<lambda>p ops. demo_worker p Run 0 ops"
  let ?Y0 = "demo (demo_sched False True 1 [] False 0) at_rest at_rest 0 {#3#} {#} 0 {#3#} []"
  let ?Y1 = "demo (demo_sched True True 1 [Task_op] False 1) at_rest at_rest 0 {#3#} {#} 0 {#3#} []"
  let ?Y2 = "demo (demo_sched True True 1 [Task_op] False 1) (?W Locking []) at_rest 0 {#3#} {#} 0 {#3#} []"
  let ?Y3 = "demo (demo_sched True False 1 [] False 1) (?W (In_task True) []) at_rest 0 {#3#} {#} 0 {#3#} []"
  let ?Y4 = "demo (demo_sched True False 1 [] False 1) (?W (In_task True) [Descriptor 5]) at_rest 0 {#3#} {#} 0 {#3#} []"
  let ?Y5 = "(demo (demo_sched True True 1 [Handler 3] False 1) (?W (In_task True) [Descriptor 5]) at_rest 0 {#} {#} 0 {#3#} [])
    \<lparr>task_woken := True\<rparr>"
  let ?Y6 = "demo (demo_sched True True 1 [Handler 3] False 1) (?W Task_done [Descriptor 5]) at_rest 0 {#} {#} 0 {#3#} []"
  let ?Y7 = "demo (demo_sched True True 1 [Descriptor 5, Task_op] False 1) (?W (Handling 3) []) at_rest 0 {#} {#} 0 {#3#} [Handler 3]"
  let ?Y8 = "demo (demo_sched True True 0 [Descriptor 5, Task_op] False 1) (?W (Stopping Locking) []) at_rest 0 {#} {#} 0 {#3#} [Handler 3]"
  let ?Y9 = "demo (demo_sched True True 0 [Descriptor 5, Task_op] True 1) (?W Locking []) at_rest 0 {#} {#} 0 {#3#} [Handler 3]"
  note [trans] = rtranclp.rtrancl_into_rtrancl
  have "?step\<^sup>*\<^sup>* (sched_start False) (sched_start False)" by simp
  also have "?step (sched_start False) ?Y0"
    using sched_step.start_async [of 1 "sched_start False" 3]
    by (simp add: sched_start_def new_scheduler_def demo_def demo_sched_def fun_upd_idem)
  also have "?step ?Y0 ?Y1"
    using sched_step.init [of 1 ?Y0] by (simp add: demo_run_defs init_task_def)
  also have "?step ?Y1 ?Y2"
    using sched_step.enter [of 0 1 ?Y1 Run] by (simp add: demo_run_defs run_entry_def fun_upd_twist)
  also have "?step ?Y2 ?Y3"
    using sched_step.lock [of 0 1 ?Y2] by (simp add: demo_run_defs fun_upd_twist)
  also have "?step ?Y3 ?Y4"
    using sched_step.task_reports [of 0 1 ?Y3 True 5] by (simp add: demo_run_defs fun_upd_twist)
  also have "?step ?Y4 ?Y5"
    using sched_step.post_deferred [of "[3]" ?Y4 1] by (simp add: demo_run_defs)
  also have "?step ?Y5 ?Y6"
    using sched_step.task_returns [of 0 1 ?Y5 True] by (simp add: demo_run_defs task_work_cleanup_def fun_upd_twist)
  also have "?step ?Y6 ?Y7"
    using sched_step.task_relock [of 0 1 ?Y6] by (simp add: demo_run_defs task_cleanup_def fun_upd_twist)
  also have "?step ?Y7 ?Y8"
    using sched_step.handler_done [of 0 1 ?Y7 3 "demo_sched True True 0 [Descriptor 5, Task_op] False 1" True Locking False Locking]
    by (simp add: demo_run_defs work_cleanup_def after_handler_def fun_upd_twist)
  also have "?step ?Y8 ?Y9"
    using sched_step.stop_no_work [of 0 1 ?Y8 Locking]
    by (simp add: demo_run_defs stop_all_threads_def event_signal_all_def wake_demo fun_upd_twist)
  finally have "sched_run 1 False ?Y9" unfolding sched_run_def by simp
  then show ?thesis by (intro exI [of _ ?Y9]) (simp add: demo_def demo_sched_def)
qed

text \<open>
  A wake-up is lost: one thread sleeps in \<open>run\<close>, another runs a handler in \<open>run_one\<close>, and the
  handler posts a continuation, which goes to the thread's private queue. \<open>work_cleanup\<close> puts it
  on the scheduler's queue without a signal and \<open>run_one\<close> returns; nobody looks at the queue until
  something else is posted.
\<close>

lemma wakeup_lost:
  "\<exists>y. sched_run 2 False y \<and> \<not> stopped (sched y) \<and> sched_queue (sched y) = [Handler 8]
    \<and> pc (workers y 0) = Gone \<and> pc (workers y 1) = Asleep \<and> signals y = 0"
proof -
  let ?step = "sched_step 2"
  let ?S = "\<lambda>n q ev. demo_sched False True n q False ev"
  let ?V = "\<lambda>p. demo_worker p Run_one 0 []" and ?W = "\<lambda>p. demo_worker p Run 0 []"
  let ?Y0 = "demo (?S 1 [] 0) at_rest at_rest 0 {#} {#} 1 {#} []"
  let ?Y1 = "demo (?S 1 [] 0) at_rest (?W Locking) 0 {#} {#} 1 {#} []"
  let ?Y2 = "demo (?S 1 [] (Suc (Suc 0))) at_rest (?W Asleep) 0 {#} {#} 1 {#} []"
  let ?Y3 = "demo (?S 1 [] (Suc (Suc 0))) (?V Locking) (?W Asleep) 0 {#} {#} 1 {#} []"
  let ?Y4 = "demo (?S 2 [] (Suc (Suc 0))) (?V Locking) (?W Asleep) 0 {#} {#7#} 1 {#7#} []"
  let ?Y5 = "demo (?S 2 [Handler 7] (Suc (Suc (Suc 0)))) (?V Locking) (?W Asleep) 1 {#} {#} 1 {#7#} []"
  let ?Y6 = "demo (?S 2 [Handler 7] (Suc (Suc (Suc 0)))) (?V Locking) (?W Awake) 0 {#} {#} 1 {#7#} []"
  let ?Y7 = "demo (?S 2 [] (Suc (Suc (Suc 0)))) (?V (Handling 7)) (?W Awake) 0 {#} {#} 1 {#7#} [Handler 7]"
  let ?Y8 = "demo (?S 2 [] (Suc (Suc 0))) (?V (Handling 7)) (?W Asleep) 0 {#} {#} 1 {#7#} [Handler 7]"
  let ?Y9 = "demo (?S 2 [] (Suc (Suc 0))) (demo_worker (Handling 7) Run_one 1 [Handler 8]) (?W Asleep) 0 {#} {#} 1 {#7, 8#} [Handler 7]"
  let ?Y10 = "demo (?S 2 [] (Suc (Suc 0))) (demo_worker (Flushing Gone) Run_one 0 [Handler 8]) (?W Asleep) 0 {#} {#} 1 {#7, 8#} [Handler 7]"
  let ?Y11 = "demo (?S 2 [Handler 8] (Suc (Suc 0))) (?V Gone) (?W Asleep) 0 {#} {#} 1 {#7, 8#} [Handler 7]"
  note [trans] = rtranclp.rtrancl_into_rtrancl
  have "?step\<^sup>*\<^sup>* (sched_start False) (sched_start False)" by simp
  also have "?step (sched_start False) ?Y0"
    using sched_step.guard [of 2 "sched_start False"]
    by (simp add: sched_start_def new_scheduler_def demo_def demo_sched_def fun_upd_idem)
  also have "?step ?Y0 ?Y1"
    using sched_step.enter [of 1 2 ?Y0 Run] by (simp add: demo_run_defs run_entry_def)
  also have "?step ?Y1 ?Y2"
    using sched_step.lock [of 1 2 ?Y1] by (simp add: demo_run_defs)
  also have "?step ?Y2 ?Y3"
    using sched_step.enter [of 0 2 ?Y2 Run_one] by (simp add: demo_run_defs run_entry_def fun_upd_twist)
  also have "?step ?Y3 ?Y4"
    using sched_step.post_count [of 2 ?Y3 "[7]"] by (simp add: demo_run_defs)
  also have "?step ?Y4 ?Y5"
    using sched_step.post_push [of "[7]" ?Y4 2] by (simp add: demo_run_defs)
  also have "?step ?Y5 ?Y6"
    using sched_step.deliver [of 1 2 ?Y5] by (simp add: demo_run_defs)
  also have "?step ?Y6 ?Y7"
    using sched_step.lock [of 0 2 ?Y6] by (simp add: demo_run_defs fun_upd_twist)
  also have "?step ?Y7 ?Y8"
    using sched_step.relock [of 1 2 ?Y7] by (simp add: demo_run_defs)
  also have "?step ?Y8 ?Y9"
    using sched_step.post_own [of 0 2 ?Y8 7 True "[8]"] by (simp add: demo_run_defs fun_upd_twist add_mset_commute)
  also have "?step ?Y9 ?Y10"
    using sched_step.handler_done [of 0 2 ?Y9 7 "?S 2 [] (Suc (Suc 0))" False Gone False "Flushing Gone"]
    by (simp add: demo_run_defs work_cleanup_def after_handler_def fun_upd_twist)
  also have "?step ?Y10 ?Y11"
    using sched_step.flush [of 0 2 ?Y10 Gone] by (simp add: demo_run_defs fun_upd_twist)
  finally have "sched_run 2 False ?Y11" unfolding sched_run_def by simp
  then show ?thesis by (intro exI [of _ ?Y11]) (simp add: demo_def demo_sched_def demo_worker_def)
qed

end
