(* ===== verification/Asio_Strand.thy ===== *)
theory Asio_Strand
  imports Prelude "HOL-Library.Multiset" "HOL-Library.Sublist"
begin

text \<open>
  Strands: \<open>asio::strand\<close> over any executor (\<open>detail/strand_executor_service.hpp\<close> and its
  two implementation files) and \<open>io_context::strand\<close> (\<open>detail/strand_service.hpp\<close>). A strand
  runs the functions handed to it one at a time and in order, whatever threads the
  executor below it has. The critical sections under the mutex of one strand are functions on
  its record; what the threads do between them, in particular the window of the code in which
  the mutex is released and the first function is not yet in the ready queue, is the stack of
  frames of each thread, and the runs of the threads are the steps of \<open>strand_step\<close>.

  The executor below is a parameter: it keeps the invokers submitted to it (they are all alike,
  so a number counts them) and runs each of them once, on any thread and at any time that user
  code could call it. That a submission does not throw and that the executor does not drop the
  invoker are assumed; functions are told apart by a number.
\<close>

section \<open>The strand and its critical sections\<close>

record strand_impl =
  locked :: bool
  shut_down :: bool
  waiting_queue :: "nat list"
  ready_queue :: "nat list"

definition create_implementation :: strand_impl where
  "create_implementation = \<lparr>locked = False, shut_down = False, waiting_queue = [], ready_queue = []\<rparr>"

text \<open>
  What a submission finds: the strand is shut down and the function destroyed; another holds
  the lock and the function waits; the lock was free and the caller has to schedule the
  strand; or (only \<open>do_dispatch\<close>) the caller may run the function at once.
\<close>

datatype submitted = Refused | Waits | Acquired | Immediate

definition enqueue :: "nat \<Rightarrow> strand_impl \<Rightarrow> strand_impl \<times> submitted" where
  "enqueue h s =
    (if shut_down s then (s, Refused)
     else if locked s then (s\<lparr>waiting_queue := waiting_queue s @ [h]\<rparr>, Waits)
     else (s\<lparr>locked := True\<rparr>, Acquired))"

definition do_dispatch :: "bool \<Rightarrow> nat \<Rightarrow> strand_impl \<Rightarrow> strand_impl \<times> submitted" where
  "do_dispatch can_dispatch h s =
    (if can_dispatch \<and> \<not> locked s then (s\<lparr>locked := True\<rparr>, Immediate)
     else if locked s then (s\<lparr>waiting_queue := waiting_queue s @ [h]\<rparr>, Waits)
     else (s\<lparr>locked := True\<rparr>, Acquired))"

definition do_post :: "nat \<Rightarrow> strand_impl \<Rightarrow> strand_impl \<times> submitted" where
  "do_post h s =
    (if locked s then (s\<lparr>waiting_queue := waiting_queue s @ [h]\<rparr>, Waits)
     else (s\<lparr>locked := True\<rparr>, Acquired))"

text \<open>The caller that acquired the lock pushes its function after it has released the mutex.\<close>

definition push_ready :: "nat \<Rightarrow> strand_impl \<Rightarrow> strand_impl" where
  "push_ready h s = s\<lparr>ready_queue := ready_queue s @ [h]\<rparr>"

text \<open>
  The destructors that end an activation of the strand (\<open>on_invoker_exit\<close>,
  \<open>on_do_complete_exit\<close>, \<open>on_dispatch_exit\<close>): what waited becomes ready, and the lock is kept
  exactly when something is ready. The answer is \<open>more_handlers\<close>.
\<close>

definition exit_section :: "strand_impl \<Rightarrow> strand_impl \<times> bool" where
  "exit_section s =
    (let ready = ready_queue s @ waiting_queue s; more_handlers = (ready \<noteq> [])
     in (s\<lparr>ready_queue := ready, waiting_queue := [], locked := more_handlers\<rparr>, more_handlers))"

text \<open>
  \<open>shutdown\<close> on one strand: both queues are moved to a local queue, the waiting one first, whose
  destructor destroys the functions. Only the executor's service sets the flag.
\<close>

definition shutdown_executor_strand :: "strand_impl \<Rightarrow> strand_impl \<times> nat list" where
  "shutdown_executor_strand s =
    (s\<lparr>shut_down := True, waiting_queue := [], ready_queue := []\<rparr>, waiting_queue s @ ready_queue s)"

definition shutdown_context_strand :: "strand_impl \<Rightarrow> strand_impl \<times> nat list" where
  "shutdown_context_strand s =
    (s\<lparr>waiting_queue := [], ready_queue := []\<rparr>, waiting_queue s @ ready_queue s)"

section \<open>The threads\<close>

text \<open>
  A frame per activation of the code of the strand on the call stack of a thread, the innermost
  first. The flag of the first two tells whether the submission that follows may run the
  invoker at once (\<open>dispatch\<close> and \<open>execute\<close> on an executor that may block) or not
  (\<open>post\<close>, \<open>defer\<close>).
\<close>

datatype frame =
    Pushing bool nat    \<comment> \<open>lock acquired, mutex released, function not yet in \<open>ready_queue_\<close>\<close>
  | Scheduling bool     \<comment> \<open>about to submit the invoker to the executor\<close>
  | Looping             \<comment> \<open>in the loop of the invoker, about to read \<open>ready_queue_.front()\<close>\<close>
  | Running nat         \<comment> \<open>in \<open>o->complete\<close> of the loop\<close>
  | Dispatched nat      \<comment> \<open>in a function \<open>do_dispatch\<close> allowed to run at once\<close>
  | Leaving             \<comment> \<open>in the destructor that ends the activation, before its lock\<close>
  | Reposting           \<comment> \<open>there, about to submit the invoker again\<close>
  | Nested nat          \<comment> \<open>in a function dispatched from inside the strand\<close>

fun user_frame :: "frame \<Rightarrow> bool" where
  "user_frame (Running _) = True"
| "user_frame (Dispatched _) = True"
| "user_frame (Nested _) = True"
| "user_frame _ = False"

text \<open>A thread runs user code when no code of the strand is innermost on its stack.\<close>

fun user_code :: "frame list \<Rightarrow> bool" where
  "user_code [] = True"
| "user_code (f # _) = user_frame f"

text \<open>\<open>call_stack<strand_impl>::contains\<close>: the context object lives from the entry of the
  invoker, or of the immediate dispatch, to the end of its exit destructor.\<close>

fun context_frame :: "frame \<Rightarrow> bool" where
  "context_frame (Pushing _ _) = False"
| "context_frame (Scheduling _) = False"
| "context_frame _ = True"

definition running_in_this_thread :: "frame list \<Rightarrow> bool" where
  "running_in_this_thread st = list_ex context_frame st"

text \<open>
  The whole: the strand, the stacks, the invokers in the executor, and what has happened:
  the functions accepted (in the order of the lock), those begun, those
  refused and destroyed after a shutdown, and those a shutdown destroyed.
\<close>

record strand_sys =
  strand :: strand_impl
  stacks :: "frame list list"
  scheduled :: nat
  accepted :: "nat list"
  begun :: "nat list"
  refused :: "nat multiset"
  destroyed :: "nat multiset"

datatype strand_kind = Executor_strand | Context_strand

definition put :: "nat \<Rightarrow> frame list \<Rightarrow> strand_sys \<Rightarrow> strand_sys" where
  "put i st y = y\<lparr>stacks := (stacks y)[i := st]\<rparr>"

text \<open>What a caller does with the answer of its critical section.\<close>

fun after_submit :: "nat \<Rightarrow> bool \<Rightarrow> nat \<Rightarrow> strand_sys \<Rightarrow> strand_impl \<times> submitted \<Rightarrow> strand_sys" where
  "after_submit i inline h y (s, Refused) = y\<lparr>strand := s, refused := add_mset h (refused y)\<rparr>"
| "after_submit i inline h y (s, Waits) = y\<lparr>strand := s, accepted := accepted y @ [h]\<rparr>"
| "after_submit i inline h y (s, Acquired) =
    put i (Pushing inline h # stacks y ! i) (y\<lparr>strand := s, accepted := accepted y @ [h]\<rparr>)"
| "after_submit i inline h y (s, Immediate) =
    put i (Dispatched h # stacks y ! i)
      (y\<lparr>strand := s, accepted := accepted y @ [h], begun := begun y @ [h]\<rparr>)"

text \<open>
  \<open>do_execute\<close> and \<open>dispatch\<close> run the function in place when the caller is in the strand, the
  former only on an executor that is not never-blocking. \<open>post\<close> and \<open>defer\<close> always enqueue.
\<close>

definition do_execute :: "bool \<Rightarrow> nat \<Rightarrow> nat \<Rightarrow> strand_sys \<Rightarrow> strand_sys" where
  "do_execute never_blocking i h y =
    (if \<not> never_blocking \<and> running_in_this_thread (stacks y ! i)
     then put i (Nested h # stacks y ! i) y
     else after_submit i (\<not> never_blocking) h y (enqueue h (strand y)))"

definition strand_dispatch :: "nat \<Rightarrow> nat \<Rightarrow> strand_sys \<Rightarrow> strand_sys" where
  "strand_dispatch i h y =
    (if running_in_this_thread (stacks y ! i) then put i (Nested h # stacks y ! i) y
     else after_submit i True h y (enqueue h (strand y)))"

definition strand_post :: "nat \<Rightarrow> nat \<Rightarrow> strand_sys \<Rightarrow> strand_sys" where
  "strand_post i h y = after_submit i False h y (enqueue h (strand y))"

definition strand_defer :: "nat \<Rightarrow> nat \<Rightarrow> strand_sys \<Rightarrow> strand_sys" where
  "strand_defer i h y = after_submit i False h y (enqueue h (strand y))"

definition context_dispatch :: "bool \<Rightarrow> nat \<Rightarrow> nat \<Rightarrow> strand_sys \<Rightarrow> strand_sys" where
  "context_dispatch can_dispatch i h y =
    (if running_in_this_thread (stacks y ! i) then put i (Nested h # stacks y ! i) y
     else after_submit i False h y (do_dispatch can_dispatch h (strand y)))"

definition context_post :: "nat \<Rightarrow> nat \<Rightarrow> strand_sys \<Rightarrow> strand_sys" where
  "context_post i h y = after_submit i False h y (do_post h (strand y))"

text \<open>One turn of the loop \<open>while (o = ready_queue_.front())\<close> of the invoker.\<close>

definition loop_test :: "nat \<Rightarrow> frame list \<Rightarrow> strand_sys \<Rightarrow> strand_sys" where
  "loop_test i st y =
    (case ready_queue (strand y) of
       [] \<Rightarrow> put i (Leaving # st) y
     | h # hs \<Rightarrow> put i (Running h # st) (y\<lparr>strand := (strand y)\<lparr>ready_queue := hs\<rparr>, begun := begun y @ [h]\<rparr>))"

definition leave :: "nat \<Rightarrow> frame list \<Rightarrow> strand_sys \<Rightarrow> strand_sys" where
  "leave i st y =
    (case exit_section (strand y) of (s, more_handlers) \<Rightarrow>
       put i (if more_handlers then Reposting # st else st) (y\<lparr>strand := s\<rparr>))"

text \<open>
  The steps a thread takes inside the code of the strand, and the return of user code; then all
  steps. A function that throws out of the loop ends the activation (the destructor runs); for a
  function run at once the throw does what its return does, and a throw out of a nested function
  continues in the function around it, which may catch it or throw in turn.
\<close>

inductive strand_internal :: "strand_sys \<Rightarrow> strand_sys \<Rightarrow> bool" where
  push: "i < length (stacks y) \<Longrightarrow> stacks y ! i = Pushing inl h # st \<Longrightarrow>
    strand_internal y (put i (Scheduling inl # st) (y\<lparr>strand := push_ready h (strand y)\<rparr>))"
| submit: "i < length (stacks y) \<Longrightarrow> stacks y ! i = Scheduling inl # st \<Longrightarrow>
    strand_internal y (put i st (y\<lparr>scheduled := Suc (scheduled y)\<rparr>))"
| invoke: "i < length (stacks y) \<Longrightarrow> user_code (stacks y ! i) \<Longrightarrow> scheduled y = Suc n \<Longrightarrow>
    strand_internal y (put i (Looping # stacks y ! i) (y\<lparr>scheduled := n\<rparr>))"
| loop: "i < length (stacks y) \<Longrightarrow> stacks y ! i = Looping # st \<Longrightarrow> strand_internal y (loop_test i st y)"
| run_return: "i < length (stacks y) \<Longrightarrow> stacks y ! i = Running h # st \<Longrightarrow>
    strand_internal y (put i (Looping # st) y)"
| dispatched_return: "i < length (stacks y) \<Longrightarrow> stacks y ! i = Dispatched h # st \<Longrightarrow>
    strand_internal y (put i (Leaving # st) y)"
| nested_return: "i < length (stacks y) \<Longrightarrow> stacks y ! i = Nested h # st \<Longrightarrow> strand_internal y (put i st y)"
| leave: "i < length (stacks y) \<Longrightarrow> stacks y ! i = Leaving # st \<Longrightarrow> strand_internal y (leave i st y)"
| repost: "i < length (stacks y) \<Longrightarrow> stacks y ! i = Reposting # st \<Longrightarrow>
    strand_internal y (put i st (y\<lparr>scheduled := Suc (scheduled y)\<rparr>))"

inductive strand_step :: "strand_kind \<Rightarrow> strand_sys \<Rightarrow> strand_sys \<Rightarrow> bool" where
  internal: "strand_internal y y' \<Longrightarrow> strand_step k y y'"
| submit_inline: "i < length (stacks y) \<Longrightarrow> stacks y ! i = Scheduling True # st \<Longrightarrow>
    strand_step k y (put i (Looping # st) y)"
| run_throws: "i < length (stacks y) \<Longrightarrow> stacks y ! i = Running h # st \<Longrightarrow>
    strand_step k y (put i (Leaving # st) y)"
| execute: "i < length (stacks y) \<Longrightarrow> user_code (stacks y ! i) \<Longrightarrow>
    strand_step Executor_strand y (do_execute nb i h y)"
| dispatch: "i < length (stacks y) \<Longrightarrow> user_code (stacks y ! i) \<Longrightarrow>
    strand_step Executor_strand y (strand_dispatch i h y)"
| post: "i < length (stacks y) \<Longrightarrow> user_code (stacks y ! i) \<Longrightarrow>
    strand_step Executor_strand y (strand_post i h y)"
| deferred: "i < length (stacks y) \<Longrightarrow> user_code (stacks y ! i) \<Longrightarrow>
    strand_step Executor_strand y (strand_defer i h y)"
| shutdown: "shutdown_executor_strand (strand y) = (s, hs) \<Longrightarrow>
    strand_step Executor_strand y (y\<lparr>strand := s, destroyed := destroyed y + mset hs\<rparr>)"
| ctx_dispatch: "i < length (stacks y) \<Longrightarrow> user_code (stacks y ! i) \<Longrightarrow>
    strand_step Context_strand y (context_dispatch can i h y)"
| ctx_post: "i < length (stacks y) \<Longrightarrow> user_code (stacks y ! i) \<Longrightarrow>
    strand_step Context_strand y (context_post i h y)"
| ctx_shutdown: "shutdown_context_strand (strand y) = (s, hs) \<Longrightarrow>
    strand_step Context_strand y (y\<lparr>strand := s, destroyed := destroyed y + mset hs\<rparr>)"

definition strand_start :: "nat \<Rightarrow> strand_sys" where
  "strand_start n = \<lparr>strand = create_implementation, stacks = replicate n [], scheduled = 0,
     accepted = [], begun = [], refused = {#}, destroyed = {#}\<rparr>"

definition strand_run :: "strand_kind \<Rightarrow> nat \<Rightarrow> strand_sys \<Rightarrow> bool" where
  "strand_run k n y = (strand_step k)\<^sup>*\<^sup>* (strand_start n) y"

section \<open>One activation at a time\<close>

text \<open>
  The owners of the lock: the activation that holds it, from its acquisition to the exit
  destructor, or the invoker in the executor. There is one exactly when the strand is locked.
\<close>

fun is_owner :: "frame \<Rightarrow> bool" where
  "is_owner (Nested _) = False"
| "is_owner _ = True"

definition owners :: "frame list \<Rightarrow> nat" where
  "owners st = length (filter is_owner st)"

lemma owners_simps [simp]:
  "owners [] = 0" "owners (f # st) = (if is_owner f then Suc (owners st) else owners st)"
  by (simp_all add: owners_def)

definition all_owners :: "frame list list \<Rightarrow> nat" where
  "all_owners ss = (\<Sum>st\<leftarrow>ss. owners st)"

definition tokens :: "strand_sys \<Rightarrow> nat" where
  "tokens y = all_owners (stacks y) + scheduled y"

fun pushed_by :: "frame list \<Rightarrow> nat list" where
  "pushed_by (Pushing _ h # _) = [h]"
| "pushed_by _ = []"

definition pushing :: "frame list list \<Rightarrow> nat list" where
  "pushing ss = concat (map pushed_by ss)"

text \<open>The functions accepted and not begun, in the order in which they will begin.\<close>

definition strand_line :: "strand_sys \<Rightarrow> nat list" where
  "strand_line y = pushing (stacks y) @ ready_queue (strand y) @ waiting_queue (strand y)"

text \<open>An owner is outermost on its stack, and only functions it runs have functions nested in them.\<close>

fun stack_ok :: "frame list \<Rightarrow> bool" where
  "stack_ok [] = True"
| "stack_ok [f] = is_owner f"
| "stack_ok (Nested _ # f # st) = (user_frame f \<and> stack_ok (f # st))"
| "stack_ok _ = False"

definition strand_inv :: "strand_sys \<Rightarrow> bool" where
  "strand_inv y \<longleftrightarrow>
    tokens y = of_bool (locked (strand y)) \<and>
    list_all stack_ok (stacks y) \<and>
    (\<not> locked (strand y) \<longrightarrow> ready_queue (strand y) = [] \<and> waiting_queue (strand y) = []) \<and>
    (pushing (stacks y) \<noteq> [] \<longrightarrow> ready_queue (strand y) = [])"

definition strand_history :: "strand_sys \<Rightarrow> bool" where
  "strand_history y \<longleftrightarrow> subseq (begun y @ strand_line y) (accepted y) \<and>
    mset (accepted y) = mset (begun y @ strand_line y) + destroyed y"

lemma put_fields [simp]:
  "strand (put i st y) = strand y" "stacks (put i st y) = (stacks y)[i := st]"
  "scheduled (put i st y) = scheduled y" "accepted (put i st y) = accepted y"
  "begun (put i st y) = begun y" "destroyed (put i st y) = destroyed y"
  by (simp_all add: put_def)

lemma all_owners_upd:
  assumes "i < length ss"
  shows "all_owners (ss[i := st]) + owners (ss ! i) = all_owners ss + owners st"
  using assms elem_le_sum_list [of i "map owners ss"]
  by (simp add: all_owners_def map_update sum_list_update)

lemma stack_ok_owners: "stack_ok st \<Longrightarrow> st \<noteq> [] \<Longrightarrow> owners st = 1"
  by (induction st rule: stack_ok.induct) (auto split: if_splits)

lemma no_owners: "list_all stack_ok ss \<Longrightarrow> all_owners ss = 0 \<Longrightarrow> set ss \<subseteq> {[]}"
  by (induction ss) (auto simp: all_owners_def dest: stack_ok_owners)

lemma pushing_empty: "set ss \<subseteq> {[]} \<Longrightarrow> pushing ss = []"
  by (auto simp: pushing_def)

lemma pushing_upd:
  assumes "i < length ss" "\<And>j. j < length ss \<Longrightarrow> j \<noteq> i \<Longrightarrow> ss ! j = []"
  shows "pushing (ss[i := st]) = pushed_by st"
proof -
  have "set (take i ss) \<subseteq> {[]}" "set (drop (Suc i) ss) \<subseteq> {[]}"
    using assms by (auto simp: in_set_conv_nth)
  then have "pushing (take i ss) = []" "pushing (drop (Suc i) ss) = []"
    by (simp_all add: pushing_empty)
  with assms(1) show ?thesis by (simp add: upd_conv_take_nth_drop pushing_def del: concat_eq_Nil_conv)
qed

lemma pushing_same:
  assumes "i < length ss" "pushed_by st = pushed_by (ss ! i)"
  shows "pushing (ss[i := st]) = pushing ss"
proof -
  have "(map pushed_by ss)[i := pushed_by (ss ! i)] = map pushed_by ss"
    using assms(1) by (metis list_update_id nth_map)
  with assms(2) show ?thesis by (simp add: pushing_def map_update)
qed

lemma all_owners_same:
  "i < length ss \<Longrightarrow> owners st = owners (ss ! i) \<Longrightarrow> all_owners (ss[i := st]) = all_owners ss"
  using all_owners_upd [of i ss st] by simp

lemma stacks_ok_upd: "strand_inv y \<Longrightarrow> stack_ok st \<Longrightarrow> list_all stack_ok ((stacks y)[i := st])"
  using set_update_subset_insert [of "stacks y" i st] by (auto simp: strand_inv_def list_all_iff)

text \<open>With an owner on its stack, a thread has the strand for itself.\<close>

lemma owner_alone:
  assumes "strand_inv y" "i < length (stacks y)" "stacks y ! i = f # st" "is_owner f"
  shows "st = []" "locked (strand y)" "scheduled y = 0" "all_owners (stacks y) = 1"
    "pushing (stacks y) = pushed_by [f]" "\<And>st'. pushing ((stacks y)[i := st']) = pushed_by st'"
    "\<And>st'. all_owners ((stacks y)[i := st']) = owners st'" "set ((stacks y)[i := []]) \<subseteq> {[]}"
proof -
  have ok: "stack_ok (f # st)"
    using assms(1-3) by (metis list_all_length strand_inv_def)
  then show "st = []" using assms(4) by (cases "f # st" rule: stack_ok.cases) auto
  have upd: "all_owners ((stacks y)[i := []]) + 1 = all_owners (stacks y)"
    using all_owners_upd [OF assms(2), of "[]"] stack_ok_owners [OF ok] assms(3) by simp
  moreover have "tokens y \<le> 1"
    using assms(1) by (simp add: strand_inv_def)
  ultimately show one: "all_owners (stacks y) = 1" and "scheduled y = 0"
    by (simp_all add: tokens_def)
  then show "locked (strand y)"
    using assms(1) by (cases "locked (strand y)") (auto simp: strand_inv_def tokens_def)
  have "list_all stack_ok ((stacks y)[i := []])"
    using assms(1) by (simp add: stacks_ok_upd)
  then show "set ((stacks y)[i := []]) \<subseteq> {[]}"
    using upd one by (intro no_owners) simp_all
  then have others: "\<And>j. j < length (stacks y) \<Longrightarrow> j \<noteq> i \<Longrightarrow> stacks y ! j = []"
    by (auto simp: subset_iff in_set_conv_nth nth_list_update)
  show upd': "\<And>st'. pushing ((stacks y)[i := st']) = pushed_by st'"
    using pushing_upd [OF assms(2)] others by blast
  show "pushing (stacks y) = pushed_by [f]"
    using upd' [of "f # st"] assms(3) \<open>st = []\<close> by (metis list_update_id)
  show "\<And>st'. all_owners ((stacks y)[i := st']) = owners st'"
    using all_owners_upd [OF assms(2)] stack_ok_owners [OF ok] one assms(3) by simp
qed

text \<open>Without the lock, or with the invoker in the executor, no thread is in the strand.\<close>

lemma owner_none:
  assumes "strand_inv y" "\<not> locked (strand y) \<or> 0 < scheduled y" "i < length (stacks y)"
  shows "stacks y ! i = []" "pushing (stacks y) = []" "\<And>st'. pushing ((stacks y)[i := st']) = pushed_by st'"
    "\<And>st'. all_owners ((stacks y)[i := st']) = owners st'"
proof -
  have zero: "all_owners (stacks y) = 0"
    using assms(1,2) by (cases "locked (strand y)") (auto simp: strand_inv_def tokens_def)
  then have empty: "set (stacks y) \<subseteq> {[]}"
    using assms(1) by (intro no_owners) (simp_all add: strand_inv_def)
  with assms(3) show i: "stacks y ! i = []" by (auto dest: nth_mem)
  show "pushing (stacks y) = []" using empty by (rule pushing_empty)
  show "\<And>st'. pushing ((stacks y)[i := st']) = pushed_by st'"
    using empty assms(3) by (intro pushing_upd) (auto dest: nth_mem)
  show "\<And>st'. all_owners ((stacks y)[i := st']) = owners st'"
    using all_owners_upd [OF assms(3)] zero i by simp
qed

lemmas strand_simps = strand_inv_def strand_history_def strand_line_def tokens_def

lemma owner_step:
  assumes "strand_inv y" "i < length (stacks y)" "stacks y ! i = f # st" "is_owner f"
    and "y' = y\<lparr>strand := s', stacks := (stacks y)[i := st'], scheduled := n, begun := bs\<rparr>"
    and "stack_ok st'" "owners st' + n = of_bool (locked s')"
    and "\<not> locked s' \<longrightarrow> ready_queue s' = [] \<and> waiting_queue s' = []"
    and "pushed_by st' \<noteq> [] \<longrightarrow> ready_queue s' = []"
    and "bs @ pushed_by st' @ ready_queue s' @ waiting_queue s'
      = begun y @ pushed_by [f] @ ready_queue (strand y) @ waiting_queue (strand y)"
  shows "strand_inv y'" "begun y' @ strand_line y' = begun y @ strand_line y"
  using assms owner_alone [OF assms(1-4)] stacks_ok_upd [OF assms(1,6)]
  by (simp_all add: strand_simps)

lemma loop_test_conv:
  "loop_test i st y =
    (case ready_queue (strand y) of
       [] \<Rightarrow> y\<lparr>stacks := (stacks y)[i := Leaving # st]\<rparr>
     | h # hs \<Rightarrow> y\<lparr>strand := (strand y)\<lparr>ready_queue := hs\<rparr>, stacks := (stacks y)[i := Running h # st],
         begun := begun y @ [h]\<rparr>)"
  by (simp add: loop_test_def put_def split: list.split)

lemma leave_conv:
  "leave i st y = y\<lparr>strand := fst (exit_section (strand y)),
     stacks := (stacks y)[i := if snd (exit_section (strand y)) then Reposting # st else st]\<rparr>"
  by (simp add: leave_def put_def split: prod.split)

text \<open>Steps that only move a thread, with or without a change of the invokers in the executor.\<close>

lemma owner_move:
  assumes "strand_inv y" "i < length (stacks y)" "stacks y ! i = f # st" "is_owner f"
    and "pushed_by [f] = []" "pushed_by st' = []" "stack_ok st'" "owners st' + n = 1"
  shows "strand_inv (put i st' (y\<lparr>scheduled := n\<rparr>)) \<and>
    begun y @ strand_line (put i st' (y\<lparr>scheduled := n\<rparr>)) = begun y @ strand_line y"
  using owner_step [OF assms(1-4), where y' = "put i st' (y\<lparr>scheduled := n\<rparr>)" and s' = "strand y"
      and st' = st' and n = n and bs = "begun y"] owner_alone(2,5) [OF assms(1-4)] assms
  by (simp add: put_def)

lemma owner_stay:
  assumes "strand_inv y" "i < length (stacks y)" "stacks y ! i = f # st" "is_owner f"
    and "pushed_by [f] = []" "pushed_by st' = []" "stack_ok st'" "owners st' = 1"
  shows "strand_inv (put i st' y) \<and> begun y @ strand_line (put i st' y) = begun y @ strand_line y"
proof -
  have "y\<lparr>scheduled := 0\<rparr> = y" using owner_alone(3) [OF assms(1-4)] by (cases y) simp
  then show ?thesis using owner_move [OF assms(1-7), where n = 0] assms(8) by simp
qed

lemma nested_move:
  assumes "strand_inv y" "i < length (stacks y)" "stack_ok st"
    and "owners st = owners (stacks y ! i)" "pushed_by st = pushed_by (stacks y ! i)"
  shows "strand_inv (put i st y) \<and> begun y @ strand_line (put i st y) = begun y @ strand_line y"
  using assms by (simp add: strand_simps stacks_ok_upd pushing_same all_owners_same)

lemma stack_ok_nth: "strand_inv y \<Longrightarrow> i < length (stacks y) \<Longrightarrow> stack_ok (stacks y ! i)"
  by (simp add: strand_inv_def list_all_length)

lemma nested_ok: "stack_ok (Nested h # st) \<Longrightarrow> stack_ok st \<and> user_code st \<and> pushed_by st = []"
  by (cases st; cases "hd st") simp_all

lemma internal_frame:
  assumes "strand_internal y y'"
  shows "accepted y' = accepted y \<and> destroyed y' = destroyed y \<and> length (stacks y') = length (stacks y)"
  using assms by cases (simp_all add: loop_test_conv leave_conv split: list.split)

lemma internal_inv:
  assumes "strand_internal y y'" "strand_inv y"
  shows "strand_inv y' \<and> begun y' @ strand_line y' = begun y @ strand_line y"
  using assms(1)
proof cases
  case (push i inl h st)
  note al = owner_alone [OF assms(2) push(2,3), simplified]
  have "ready_queue (strand y) = []" using al assms(2) by (simp add: strand_inv_def)
  then show ?thesis
    using owner_step [OF assms(2) push(2,3), where y' = y' and s' = "push_ready h (strand y)"
        and st' = "[Scheduling inl]" and n = 0 and bs = "begun y"] push al
    by (simp add: push_ready_def put_def)
next
  case (submit i inl st)
  then show ?thesis
    using owner_move [OF assms(2) submit(2,3)] owner_alone [OF assms(2) submit(2,3)] by simp
next
  case (invoke i n)
  then show ?thesis
    using owner_none [OF assms(2) _ invoke(2)] assms(2)
    by (cases "locked (strand y)") (simp_all add: strand_simps stacks_ok_upd)
next
  case (loop i st)
  note al = owner_alone [OF assms(2) loop(2,3), simplified]
  show ?thesis
  proof (cases "ready_queue (strand y)")
    case Nil
    then show ?thesis
      using owner_stay [OF assms(2) loop(2,3), where st' = "[Leaving]"] loop al by (simp add: loop_test_def)
  next
    case (Cons h hs)
    then show ?thesis
      using owner_step [OF assms(2) loop(2,3), where y' = y' and s' = "(strand y)\<lparr>ready_queue := hs\<rparr>"
          and st' = "[Running h]" and n = 0 and bs = "begun y @ [h]"] loop al
      by (simp add: loop_test_conv)
  qed
next
  case (run_return i h st)
  then show ?thesis
    using owner_stay [OF assms(2) run_return(2,3)] owner_alone [OF assms(2) run_return(2,3)] by simp
next
  case (dispatched_return i h st)
  then show ?thesis
    using owner_stay [OF assms(2) dispatched_return(2,3)] owner_alone [OF assms(2) dispatched_return(2,3)] by simp
next
  case (nested_return i h st)
  have "stack_ok (Nested h # st)"
    using stack_ok_nth [OF assms(2) nested_return(2)] nested_return(3) by simp
  then have "stack_ok st" "pushed_by st = []" by (simp_all add: nested_ok)
  then show ?thesis
    using nested_move [OF assms(2) nested_return(2)] nested_return by simp
next
  case (leave i st)
  note al = owner_alone [OF assms(2) leave(2,3), simplified]
  show ?thesis
    using owner_step [OF assms(2) leave(2,3), where y' = y' and s' = "fst (exit_section (strand y))"
        and st' = "if snd (exit_section (strand y)) then [Reposting] else []" and n = 0 and bs = "begun y"] leave al
    by (simp add: leave_conv exit_section_def Let_def)
next
  case (repost i st)
  then show ?thesis
    using owner_move [OF assms(2) repost(2,3)] owner_alone [OF assms(2) repost(2,3)] by simp
qed

section \<open>All steps\<close>

definition strand_good :: "strand_sys \<Rightarrow> bool" where
  "strand_good y \<longleftrightarrow> strand_inv y \<and> strand_history y"

lemma good_by_line:
  assumes "strand_good y" "strand_inv y' \<and> begun y' @ strand_line y' = begun y @ strand_line y"
    and "accepted y' = accepted y" "destroyed y' = destroyed y"
  shows "strand_good y'"
  using assms unfolding strand_good_def strand_history_def by metis

text \<open>What the three submitting sections answer, and what their callers make of it.\<close>

definition submit_ok :: "nat \<Rightarrow> strand_impl \<Rightarrow> strand_impl \<times> submitted \<Rightarrow> bool" where
  "submit_ok h s r = (case snd r of
      Refused \<Rightarrow> fst r = s
    | Waits \<Rightarrow> locked s \<and> fst r = s\<lparr>waiting_queue := waiting_queue s @ [h]\<rparr>
    | _ \<Rightarrow> \<not> locked s \<and> fst r = s\<lparr>locked := True\<rparr>)"

lemma sections_ok:
  "submit_ok h s (enqueue h s)" "submit_ok h s (do_dispatch can h s)" "submit_ok h s (do_post h s)"
  by (simp_all add: submit_ok_def enqueue_def do_dispatch_def do_post_def)

lemma after_submit_good:
  assumes good: "strand_good y" and i: "i < length (stacks y)" and r: "submit_ok h (strand y) r"
  shows "strand_good (after_submit i inl h y r)"
proof -
  obtain s a where sa: "r = (s, a)" by (cases r)
  have inv: "strand_inv y" and hist: "subseq (begun y @ strand_line y) (accepted y)"
    "mset (accepted y) = mset (begun y @ strand_line y) + destroyed y"
    using good by (simp_all add: strand_good_def strand_history_def)
  have app: "subseq (begun y @ strand_line y @ [h]) (accepted y @ [h])"
    using list_emb_append_mono [OF hist(1), of "[h]" "[h]"] by simp
  show ?thesis
  proof (cases a)
    case Refused
    then show ?thesis
      using good r by (simp add: sa submit_ok_def strand_good_def strand_simps)
  next
    case Waits
    then show ?thesis
      using inv hist app r by (simp add: sa submit_ok_def strand_good_def strand_simps)
  next
    case Acquired
    with r have "\<not> locked (strand y)" by (simp add: sa submit_ok_def)
    with owner_none [OF inv _ i] Acquired show ?thesis
      using inv hist app r by (simp add: sa submit_ok_def strand_good_def strand_simps stacks_ok_upd)
  next
    case Immediate
    with r have "\<not> locked (strand y)" by (simp add: sa submit_ok_def)
    with owner_none [OF inv _ i] Immediate show ?thesis
      using inv hist app r by (simp add: sa submit_ok_def strand_good_def strand_simps stacks_ok_upd)
  qed
qed

text \<open>\<open>call_stack::contains\<close> holds for user code exactly on the thread that is in the strand.\<close>

lemma user_in_strand:
  assumes "stack_ok st" "user_code st"
  shows "running_in_this_thread st \<longleftrightarrow> st \<noteq> []"
proof (cases st)
  case (Cons f st')
  with assms(2) have "user_frame f" by simp
  then show ?thesis using Cons by (cases f) (simp_all add: running_in_this_thread_def)
qed (simp add: running_in_this_thread_def)

lemma nested_good:
  assumes "strand_good y" "i < length (stacks y)" "user_code (stacks y ! i)" "running_in_this_thread (stacks y ! i)"
  shows "strand_good (put i (Nested h # stacks y ! i) y)"
proof -
  have inv: "strand_inv y" using assms(1) by (simp add: strand_good_def)
  obtain f st where st: "stacks y ! i = f # st" "user_frame f"
    using user_in_strand [OF stack_ok_nth [OF inv assms(2)] assms(3)] assms(3,4)
    by (cases "stacks y ! i") auto
  then have "pushed_by (f # st) = []" by (cases f) simp_all
  with st have "strand_inv (put i (Nested h # stacks y ! i) y) \<and>
      begun y @ strand_line (put i (Nested h # stacks y ! i) y) = begun y @ strand_line y"
    using stack_ok_nth [OF inv assms(2)] by (intro nested_move [OF inv assms(2)]) simp_all
  then show ?thesis using assms(1) by (intro good_by_line [OF assms(1)]) simp_all
qed

lemma shutdown_good:
  assumes "strand_good y" "fst r = (strand y)\<lparr>shut_down := b, waiting_queue := [], ready_queue := []\<rparr>"
    and "snd r = waiting_queue (strand y) @ ready_queue (strand y)"
  shows "strand_good (y\<lparr>strand := fst r, destroyed := destroyed y + mset (snd r)\<rparr>)"
proof -
  have "subseq (begun y @ pushing (stacks y)) (begun y @ strand_line y)"
    by (rule prefix_imp_subseq) (simp add: strand_line_def)
  with assms show ?thesis
    by (auto simp: strand_good_def strand_simps intro: subseq_order.trans)
qed

lemma do_submit_good:
  assumes "strand_good y" "i < length (stacks y)" "user_code (stacks y ! i)"
  shows "strand_good (do_execute nb i h y)" "strand_good (strand_dispatch i h y)"
    "strand_good (strand_post i h y)" "strand_good (strand_defer i h y)"
    "strand_good (context_dispatch can i h y)" "strand_good (context_post i h y)"
  using assms
  by (simp_all add: do_execute_def strand_dispatch_def strand_post_def strand_defer_def context_dispatch_def
      context_post_def nested_good after_submit_good sections_ok)

lemma after_submit_length: "length (stacks (after_submit i inl h y r)) = length (stacks y)"
  by (cases "(i, inl, h, y, r)" rule: after_submit.cases) simp_all

lemma do_submit_length:
  "length (stacks (do_execute nb i h y)) = length (stacks y)"
  "length (stacks (strand_dispatch i h y)) = length (stacks y)"
  "length (stacks (strand_post i h y)) = length (stacks y)"
  "length (stacks (strand_defer i h y)) = length (stacks y)"
  "length (stacks (context_dispatch can i h y)) = length (stacks y)"
  "length (stacks (context_post i h y)) = length (stacks y)"
  by (simp_all add: do_execute_def strand_dispatch_def strand_post_def strand_defer_def context_dispatch_def
      context_post_def after_submit_length)

lemma strand_step_good:
  assumes "strand_step k y y'" "strand_good y"
  shows "strand_good y' \<and> length (stacks y') = length (stacks y)"
  using assms(1)
proof cases
  case internal
  then show ?thesis
    using internal_inv [OF internal] internal_frame [OF internal] assms(2) good_by_line [OF assms(2), of y']
    by (simp add: strand_good_def)
next
  case (submit_inline i st)
  have inv: "strand_inv y" using assms(2) by (simp add: strand_good_def)
  show ?thesis
    using good_by_line [OF assms(2), of y'] owner_stay [OF inv submit_inline(2,3), where st' = "[Looping]"]
      owner_alone(1) [OF inv submit_inline(2,3)] submit_inline
    by simp
next
  case (run_throws i h st)
  have inv: "strand_inv y" using assms(2) by (simp add: strand_good_def)
  show ?thesis
    using good_by_line [OF assms(2), of y'] owner_stay [OF inv run_throws(2,3), where st' = "[Leaving]"]
      owner_alone(1) [OF inv run_throws(2,3)] run_throws
    by simp
next
  case (shutdown s hs)
  then show ?thesis
    using shutdown_good [OF assms(2), of "(s, hs)" True] by (simp add: shutdown_executor_strand_def)
next
  case (ctx_shutdown s hs)
  then show ?thesis
    using shutdown_good [OF assms(2), of "(s, hs)" "shut_down (strand y)"] by (simp add: shutdown_context_strand_def)
qed (simp_all add: do_submit_good do_submit_length assms(2))

lemma strand_start_good: "strand_good (strand_start n)"
proof -
  have "pushing (replicate n []) = []" by (rule pushing_empty) auto
  moreover have "all_owners (replicate n []) = 0" by (simp add: all_owners_def sum_list_replicate)
  ultimately show ?thesis
    by (simp add: strand_good_def strand_simps strand_start_def create_implementation_def list_all_iff)
qed

lemma strand_run_good:
  assumes "strand_run k n y"
  shows "strand_good y \<and> length (stacks y) = n"
  using assms unfolding strand_run_def
proof (induction rule: rtranclp_induct)
  case base
  show ?case using strand_start_good by (simp add: strand_start_def)
next
  case (step y z)
  then show ?case using strand_step_good by metis
qed

section \<open>Every function accepted is run\<close>

text \<open>The work left inside the strand: every step that is not a submission takes some of it away.\<close>

fun frame_work :: "bool \<Rightarrow> frame \<Rightarrow> nat" where
  "frame_work ready (Pushing _ _) = 9"
| "frame_work ready (Scheduling _) = 4"
| "frame_work ready Looping = 2"
| "frame_work ready (Running _) = 3"
| "frame_work ready (Dispatched _) = 7"
| "frame_work ready Leaving = (if ready then 6 else 1)"
| "frame_work ready Reposting = 4"
| "frame_work ready (Nested _) = 1"

definition stacks_work :: "bool \<Rightarrow> frame list list \<Rightarrow> nat" where
  "stacks_work ready ss = (\<Sum>st\<leftarrow>ss. \<Sum>f\<leftarrow>st. frame_work ready f)"

definition strand_work :: "strand_sys \<Rightarrow> nat" where
  "strand_work y = 8 * length (waiting_queue (strand y)) + 4 * length (ready_queue (strand y))
     + stacks_work (ready_queue (strand y) \<noteq> []) (stacks y) + 3 * scheduled y"

lemma stacks_work_upd:
  assumes "i < length ss"
  shows "stacks_work b (ss[i := st]) + (\<Sum>f\<leftarrow>ss ! i. frame_work b f) = stacks_work b ss + (\<Sum>f\<leftarrow>st. frame_work b f)"
  using assms elem_le_sum_list [of i "map (\<lambda>st. \<Sum>f\<leftarrow>st. frame_work b f) ss"]
  by (simp add: stacks_work_def map_update sum_list_update)

lemma stacks_work_alone:
  assumes "i < length ss" "set (ss[i := []]) \<subseteq> {[]}"
  shows "stacks_work b (ss[i := st]) = (\<Sum>f\<leftarrow>st. frame_work b f)"
proof -
  have "stacks_work b (ss[i := []]) = 0"
    using assms(2) by (auto simp: stacks_work_def)
  then show ?thesis
    using stacks_work_upd [of i "ss[i := []]" b st] assms(1) by simp
qed

lemma owner_work:
  assumes "strand_inv y" "i < length (stacks y)" "stacks y ! i = f # st" "is_owner f"
  shows "stacks_work b (stacks y) = frame_work b f"
    "stacks_work b ((stacks y)[i := st']) = (\<Sum>f\<leftarrow>st'. frame_work b f)"
proof -
  note al = owner_alone [OF assms]
  show "stacks_work b ((stacks y)[i := st']) = (\<Sum>f\<leftarrow>st'. frame_work b f)"
    by (rule stacks_work_alone [OF assms(2) al(8)])
  show "stacks_work b (stacks y) = frame_work b f"
    using stacks_work_alone [OF assms(2) al(8), of b "[f]"] assms(3) al(1) by (metis list_update_id
        list.simps(8,9) sum_list.Cons sum_list.Nil add_0_right)
qed

lemma internal_work:
  assumes "strand_internal y y'" "strand_inv y"
  shows "strand_work y' < strand_work y"
  using assms(1)
proof cases
  case (push i inl h st)
  then show ?thesis
    using owner_work [OF assms(2) push(2,3)] owner_alone(1,5) [OF assms(2) push(2,3)] assms(2)
    by (simp add: strand_work_def push_ready_def strand_inv_def)
next
  case (submit i inl st)
  then show ?thesis
    using owner_work [OF assms(2) submit(2,3)] owner_alone(1) [OF assms(2) submit(2,3)]
    by (simp add: strand_work_def)
next
  case (invoke i n)
  then show ?thesis
    using stacks_work_upd [OF invoke(2), of _ "Looping # stacks y ! i"] by (simp add: strand_work_def)
next
  case (loop i st)
  then show ?thesis
    using owner_work [OF assms(2) loop(2,3)] owner_alone(1) [OF assms(2) loop(2,3)]
    by (simp add: strand_work_def loop_test_conv split: list.split)
next
  case (run_return i h st)
  then show ?thesis
    using owner_work [OF assms(2) run_return(2,3)] owner_alone(1) [OF assms(2) run_return(2,3)]
    by (simp add: strand_work_def)
next
  case (dispatched_return i h st)
  then show ?thesis
    using owner_work [OF assms(2) dispatched_return(2,3)] owner_alone(1) [OF assms(2) dispatched_return(2,3)]
    by (simp add: strand_work_def)
next
  case (nested_return i h st)
  then show ?thesis
    using stacks_work_upd [OF nested_return(2), of "ready_queue (strand y) \<noteq> []" st]
    by (simp add: strand_work_def)
next
  case (leave i st)
  then show ?thesis
    using owner_work [OF assms(2) leave(2,3)] owner_alone(1) [OF assms(2) leave(2,3)]
    by (cases "waiting_queue (strand y)"; cases "ready_queue (strand y)")
      (simp_all add: strand_work_def leave_conv exit_section_def)
next
  case (repost i st)
  then show ?thesis
    using owner_work [OF assms(2) repost(2,3)] owner_alone(1) [OF assms(2) repost(2,3)]
    by (simp add: strand_work_def)
qed

text \<open>When no such step is left the strand is free and its queues are empty.\<close>

lemma stack_moves:
  assumes "i < length (stacks y)" "stacks y ! i = f # st"
  shows "\<exists>y'. strand_internal y y'"
  using assms by (cases f) (blast intro: strand_internal.intros)+

lemma stuck_is_free:
  assumes "strand_inv y" "0 < length (stacks y)" "\<nexists>y'. strand_internal y y'"
  shows "strand_line y = [] \<and> \<not> locked (strand y) \<and> scheduled y = 0"
proof -
  have empty: "stacks y ! i = []" if "i < length (stacks y)" for i
    using stack_moves [OF that] assms(3) by (cases "stacks y ! i") auto
  then have set: "set (stacks y) \<subseteq> {[]}" by (auto simp: in_set_conv_nth)
  then have "all_owners (stacks y) = 0" by (auto simp: all_owners_def)
  moreover have sched: "scheduled y = 0"
  proof (rule ccontr)
    assume "scheduled y \<noteq> 0"
    then obtain n where "scheduled y = Suc n" using not0_implies_Suc by blast
    then show False
      using strand_internal.invoke [OF assms(2), of n] empty [OF assms(2)] assms(3) by simp
  qed
  ultimately have "\<not> locked (strand y)" using assms(1) by (auto simp: strand_inv_def tokens_def)
  with sched assms(1) pushing_empty [OF set] show ?thesis by (simp add: strand_inv_def strand_line_def)
qed

lemma internal_run:
  assumes "strand_inv y" "(strand_internal ^^ l) y y'"
  shows "strand_inv y' \<and> begun y' @ strand_line y' = begun y @ strand_line y \<and>
    length (stacks y') = length (stacks y) \<and> l + strand_work y' \<le> strand_work y"
  using assms(2)
proof (induction l arbitrary: y')
  case 0
  then show ?case using assms(1) by simp
next
  case (Suc l)
  then obtain z where z: "(strand_internal ^^ l) y z" "strand_internal z y'" by auto
  with Suc.IH have "strand_inv z" by blast
  with z Suc.IH [OF z(1)] show ?case
    using internal_inv [OF z(2)] internal_frame [OF z(2)] internal_work [OF z(2)] by fastforce
qed

lemma internal_runs_out:
  assumes "strand_inv y"
  shows "\<exists>l y'. (strand_internal ^^ l) y y' \<and> (\<nexists>z. strand_internal y' z)"
  using assms
proof (induction "strand_work y" arbitrary: y rule: less_induct)
  case less
  show ?case
  proof (cases "\<exists>z. strand_internal y z")
    case True
    then obtain z where z: "strand_internal y z" by blast
    then obtain l y' where "(strand_internal ^^ l) z y'" "\<nexists>x. strand_internal y' x"
      using less.hyps [OF internal_work] internal_inv less.prems by blast
    with z show ?thesis by (meson relpowp_Suc_I2)
  next
    case False
    then have "(strand_internal ^^ 0) y y \<and> (\<nexists>z. strand_internal y z)" by simp
    then show ?thesis by blast
  qed
qed

lemma owners_bound:
  "list_all stack_ok ss \<Longrightarrow> length (filter (\<lambda>st. st \<noteq> []) ss) \<le> all_owners ss"
  "length (filter (\<lambda>f. user_frame f \<and> is_owner f) (concat ss)) \<le> all_owners ss"
proof (induction ss)
  case (Cons st ss)
  {
    case 1
    with Cons show ?case using stack_ok_owners [of st] by (auto simp: all_owners_def)
  next
    case 2
    have "length (filter (\<lambda>f. user_frame f \<and> is_owner f) st) \<le> owners st"
      by (induction st) (auto simp: owners_def)
    with Cons show ?case by (simp add: all_owners_def)
  }
qed (simp_all add: all_owners_def)

section \<open>Properties\<close>

text \<open>
  C25. At most one activation of a strand exists, on one thread or as an invoker in the
  executor, under every interleaving of the threads: no two functions of a strand run at the
  same time, except that a function dispatched from inside the strand runs, on the same thread,
  within the one that dispatched it. \<open>running_in_this_thread\<close> is what the code asks, and it is
  true for user code exactly on that thread.\<close>

theorem strand_runs_one_at_a_time:
  assumes "strand_run k n y"
  shows "length (filter (\<lambda>st. st \<noteq> []) (stacks y)) + scheduled y \<le> 1 \<and>
    length (filter (\<lambda>f. user_frame f \<and> is_owner f) (concat (stacks y))) + scheduled y \<le> 1 \<and>
    (\<forall>st \<in> set (stacks y). user_code st \<longrightarrow> running_in_this_thread st = (st \<noteq> []))"
proof -
  have inv: "list_all stack_ok (stacks y)" "tokens y \<le> 1"
    using strand_run_good [OF assms] by (simp_all add: strand_good_def strand_inv_def)
  with owners_bound [of "stacks y"] show ?thesis
    by (auto simp: tokens_def list_all_iff user_in_strand)
qed

text \<open>
  C26. Functions begin in the order in which their submissions took the lock of the strand, each
  once: what has begun and what is still in line (on its way to the ready queue, ready, or
  waiting) is in the order of acceptance, and nothing accepted is missing but what a shutdown
  destroyed. Without a shutdown begun and line are together exactly what was accepted.\<close>

theorem strand_is_fifo:
  assumes "strand_run k n y"
  shows "subseq (begun y @ strand_line y) (accepted y) \<and>
    mset (accepted y) = mset (begun y @ strand_line y) + destroyed y \<and>
    (destroyed y = {#} \<longrightarrow> begun y @ strand_line y = accepted y)"
proof -
  have hist: "subseq (begun y @ strand_line y) (accepted y)"
    "mset (accepted y) = mset (begun y @ strand_line y) + destroyed y"
    using strand_run_good [OF assms] by (simp_all add: strand_good_def strand_history_def)
  moreover have "begun y @ strand_line y = accepted y" if "destroyed y = {#}"
    using hist that by (intro subseq_same_length) (metis add_0_right size_mset)+
  ultimately show ?thesis by blast
qed

text \<open>
  C27. A strand forgets nobody: from every reachable state with a thread to run on, the strand's
  own steps and the returns of the functions come to an end after at most \<open>strand_work\<close> steps,
  and wherever they end everything that was in line has begun, in order, and the lock is free.\<close>

theorem strand_serves_all:
  assumes "strand_run k n y" "0 < n"
  shows "(\<forall>l y'. (strand_internal ^^ l) y y' \<longrightarrow> l \<le> strand_work y \<and>
      ((\<nexists>z. strand_internal y' z) \<longrightarrow> begun y' = begun y @ strand_line y \<and> \<not> locked (strand y'))) \<and>
    (\<exists>l y'. (strand_internal ^^ l) y y' \<and> begun y' = begun y @ strand_line y \<and> \<not> locked (strand y'))"
proof -
  have inv: "strand_inv y" "length (stacks y) = n"
    using strand_run_good [OF assms(1)] by (simp_all add: strand_good_def)
  have all: "l \<le> strand_work y \<and>
      ((\<nexists>z. strand_internal y' z) \<longrightarrow> begun y' = begun y @ strand_line y \<and> \<not> locked (strand y'))"
    if "(strand_internal ^^ l) y y'" for l y'
    using internal_run [OF inv(1) that] stuck_is_free [of y'] inv(2) assms(2) by auto
  with internal_runs_out [OF inv(1)] show ?thesis by blast
qed

section \<open>Witnesses\<close>

text \<open>Two threads post to an idle strand; the first has taken the lock and not yet pushed.\<close>

definition two_posts :: strand_sys where
  "two_posts = strand_post 1 8 (strand_post 0 7 (strand_start 2))"

lemmas two_posts_defs = two_posts_def strand_post_def enqueue_def strand_start_def create_implementation_def

lemma two_posts_run: "strand_run Executor_strand 2 two_posts"
proof -
  have "strand_step Executor_strand (strand_start 2) (strand_post 0 7 (strand_start 2))"
    by (rule strand_step.post) (simp_all add: two_posts_defs)
  moreover have "strand_step Executor_strand (strand_post 0 7 (strand_start 2)) two_posts"
    unfolding two_posts_def by (rule strand_step.post) (simp_all add: two_posts_defs numeral_2_eq_2)
  ultimately show ?thesis unfolding strand_run_def by (meson rtranclp.intros)
qed

lemma two_posts_fields:
  "begun two_posts = []" "strand_line two_posts = [7, 8]" "destroyed two_posts = {#}"
  "stacks two_posts = [[Pushing False 7], []]" "accepted two_posts = [7, 8]"
  by (simp_all add: two_posts_defs strand_line_def pushing_def numeral_2_eq_2)

theorem strand_runs_one_at_a_time_witness: "scheduled two_posts = 0"
  using strand_runs_one_at_a_time [OF two_posts_run] by (simp add: two_posts_fields)

theorem strand_is_fifo_witness: "begun two_posts @ strand_line two_posts = [7, 8] \<and> accepted two_posts = [7, 8]"
  using strand_is_fifo [OF two_posts_run] by (simp add: two_posts_fields)

theorem strand_serves_all_witness:
  "\<exists>l y'. (strand_internal ^^ l) two_posts y' \<and> begun y' = [7, 8] \<and> \<not> locked (strand y')"
  using strand_serves_all [OF two_posts_run] by (simp add: two_posts_fields)

end
