(* ===== verification/Asio_Address.thy ===== *)
theory Asio_Address
  imports Prelude "HOL-Library.Product_Lexorder"
begin

text \<open>
  IP addresses: \<open>ip/address_v4.hpp\<close>, \<open>ip/address_v6.hpp\<close>, \<open>ip/address.hpp\<close> and their
  implementation files, the address iterators, and the byte order functions of
  \<open>detail/impl/socket_ops.ipp\<close>. An IPv4 address is the 32-bit member \<open>s_addr\<close> in network byte
  order, an IPv6 address its sixteen bytes and the scope identifier (an \<open>unsigned long\<close> of 64
  bits). Text is read and written by the operating system, whose functions are parameters.
\<close>

section \<open>Bytes and bits\<close>

text \<open>The integer whose big-endian bytes are given, and the bits of both.\<close>

definition be_value :: "byte list \<Rightarrow> nat" where
  "be_value bs = le_value (rev bs)"

lemma be_value_bound: "be_value bs < 256 ^ length bs"
  using le_value_bound [of "rev bs"] by (simp add: be_value_def)

lemma le_value_append: "le_value (xs @ ys) = le_value xs + 256 ^ length xs * le_value ys"
  by (induction xs) (simp_all add: algebra_simps)

lemma be_value_inject: "length as = length bs \<Longrightarrow> be_value as = be_value bs \<longleftrightarrow> as = bs"
  by (metis be_value_def le_bytes_le_value length_rev rev_rev_ident)

lemma bit_add_256: "bit (unat (b :: byte) + 256 * n) i = (if i < 8 then bit b i else bit n (i - 8))"
proof -
  have "unat b + 256 * n = or (unat b) (push_bit 8 n)"
  proof -
    have "and (unat b) (push_bit 8 n) = 0"
      by (rule bit_eqI) (auto simp: bit_and_iff bit_push_bit_iff bit_unsigned_iff dest: bit_imp_le_length)
    then show ?thesis by (simp add: disjunctive_add_eq_or [symmetric] push_bit_eq_mult)
  qed
  then show ?thesis
    by (auto simp: bit_or_iff bit_push_bit_iff bit_unsigned_iff dest: bit_imp_le_length)
qed

lemma bit_le_value:
  "bit (le_value bs) i \<longleftrightarrow> i div 8 < length bs \<and> bit (bs ! (i div 8)) (i mod 8)"
proof (induction bs arbitrary: i)
  case (Cons b bs)
  show ?case
  proof (cases "i < 8")
    case False
    then have "i div 8 = Suc ((i - 8) div 8)" "(i - 8) mod 8 = i mod 8"
      by (simp_all add: div_if mod_if)
    then show ?thesis using False by (simp add: bit_add_256 Cons.IH)
  qed (simp add: bit_add_256)
qed simp

lemma bit_be_value:
  "bit (be_value bs) i \<longleftrightarrow> i div 8 < length bs \<and> bit (bs ! (length bs - Suc (i div 8))) (i mod 8)"
  by (auto simp: be_value_def bit_le_value rev_nth)

section \<open>Byte order\<close>

text \<open>
  The functions of \<open>socket_ops\<close> as they are written out for the platform without \<open>htonl\<close>
  and \<open>ntohl\<close>; the others call those two, which are specified to do the same.
\<close>

definition network_to_host_long :: "u32 \<Rightarrow> u32" where
  "network_to_host_long value = (let value_p = u32_bytes value in
     (push_bit 24 (ucast (value_p ! 0)) OR push_bit 16 (ucast (value_p ! 1)))
       OR push_bit 8 (ucast (value_p ! 2)) OR ucast (value_p ! 3))"

definition host_to_network_long :: "u32 \<Rightarrow> u32" where
  "host_to_network_long value =
    bytes_u32 [ucast (drop_bit 24 value AND 0xFF), ucast (drop_bit 16 value AND 0xFF),
      ucast (drop_bit 8 value AND 0xFF), ucast (value AND 0xFF)]"

lemma list_of_4:
  assumes "length bs = 4"
  shows "bs = [bs ! 0, bs ! 1, bs ! 2, bs ! 3]"
proof -
  have "length bs = Suc (Suc (Suc (Suc 0)))" using assms by simp
  then obtain a b c d where "bs = [a, b, c, d]" by (auto simp: length_Suc_conv)
  then show ?thesis by simp
qed

lemma bit_byte: "8 \<le> n \<Longrightarrow> \<not> bit (x :: byte) n"
  by (auto dest: bit_imp_le_length)

lemma be_value_4:
  "be_value [a, b, c, d] = unat (((push_bit 24 (ucast a) OR push_bit 16 (ucast b))
     OR push_bit 8 (ucast c) OR ucast d) :: u32)"
proof (rule bit_eqI)
  fix i :: nat
  define q r :: nat where "q = i div 8" and "r = i mod 8"
  then have i: "i = 8 * q + r" "r < 8" by simp_all
  have be: "bit (be_value [a, b, c, d]) i \<longleftrightarrow>
      q < Suc (Suc (Suc (Suc 0))) \<and> bit ([a, b, c, d] ! (Suc (Suc (Suc 0)) - q)) r"
    by (simp add: bit_be_value q_def r_def)
  consider "4 \<le> q" | "q = 0" | "q = 1" | "q = 2" | "q = 3" by linarith
  then show "bit (be_value [a, b, c, d]) i \<longleftrightarrow>
    bit (unat (((push_bit 24 (ucast a) OR push_bit 16 (ucast b)) OR push_bit 8 (ucast c) OR ucast d) :: u32)) i"
    unfolding be by cases (use i(2) in \<open>simp_all add: i(1) bit_simps bit_byte\<close>)
qed

lemma network_to_host_long_value: "unat (network_to_host_long w) = be_value (u32_bytes w)"
proof -
  have "unat (network_to_host_long w) = be_value [u32_bytes w ! 0, u32_bytes w ! 1, u32_bytes w ! 2, u32_bytes w ! 3]"
    by (simp only: be_value_4 network_to_host_long_def Let_def)
  also have "[u32_bytes w ! 0, u32_bytes w ! 1, u32_bytes w ! 2, u32_bytes w ! 3] = u32_bytes w"
    by (rule list_of_4 [symmetric]) simp
  finally show ?thesis .
qed

lemma be_value_rev_u32: "be_value (rev (u32_bytes v)) = unat v"
  using unat_u32_bound [of v] by (simp add: be_value_def u32_bytes_def le_value_le_bytes)

lemma host_to_network_bytes: "u32_bytes (host_to_network_long v) = rev (u32_bytes v)"
proof -
  let ?bs = "[ucast (drop_bit 24 v AND 0xFF), ucast (drop_bit 16 v AND 0xFF),
    ucast (drop_bit 8 v AND 0xFF), ucast (v AND 0xFF)] :: byte list"
  have ff: "(0xFF :: u32) = mask 8" by (simp add: mask_eq_exp_minus_1)
  have "be_value ?bs = unat v"
    unfolding be_value_4 ff
  proof (rule arg_cong [of _ _ unat], rule bit_word_eqI)
    fix n assume "n < LENGTH(32)"
    then consider "n < 8" | "8 \<le> n" "n < 16" | "16 \<le> n" "n < 24" | "24 \<le> n" "n < 32" by fastforce
    then show "bit ((push_bit 24 (ucast (ucast (drop_bit 24 v AND mask 8) :: byte)) OR
          push_bit 16 (ucast (ucast (drop_bit 16 v AND mask 8) :: byte))) OR
        push_bit 8 (ucast (ucast (drop_bit 8 v AND mask 8) :: byte)) OR ucast (ucast (v AND mask 8) :: byte) :: u32) n
      = bit v n"
      by cases (auto simp: bit_simps)
  qed
  then have "rev (u32_bytes v) = ?bs"
    using be_value_inject [of "rev (u32_bytes v)" ?bs] by (simp add: be_value_rev_u32)
  then show ?thesis
    by (simp add: host_to_network_long_def u32_bytes_bytes_u32)
qed

lemma network_host_inverse [simp]:
  "network_to_host_long (host_to_network_long v) = v" "host_to_network_long (network_to_host_long w) = w"
proof -
  show one: "network_to_host_long (host_to_network_long v) = v" for v
    using network_to_host_long_value [of "host_to_network_long v"]
    by (intro unsigned_word_eqI [where ?'a = nat]) (simp add: host_to_network_bytes be_value_rev_u32)
  have "inj network_to_host_long"
    by (rule injI) (metis be_value_inject bytes_u32_u32_bytes length_u32_bytes network_to_host_long_value)
  then show "host_to_network_long (network_to_host_long w) = w"
    using one by (metis injD)
qed

section \<open>IPv4 addresses\<close>

datatype address_v4 = Address_v4 (s_addr: u32)

definition v4_any :: address_v4 where
  "v4_any = Address_v4 0"

definition v4_of_bytes :: "byte list \<Rightarrow> address_v4" where
  "v4_of_bytes bytes = Address_v4 (bytes_u32 bytes)"

definition v4_of_uint :: "u32 \<Rightarrow> address_v4" where
  "v4_of_uint addr = Address_v4 (host_to_network_long addr)"

definition v4_bytes :: "address_v4 \<Rightarrow> byte list" where
  "v4_bytes a = u32_bytes (s_addr a)"

definition v4_uint :: "address_v4 \<Rightarrow> u32" where
  "v4_uint a = network_to_host_long (s_addr a)"

definition v4_is_loopback :: "address_v4 \<Rightarrow> bool" where
  "v4_is_loopback a \<longleftrightarrow> v4_uint a AND 0xFF000000 = 0x7F000000"

definition v4_is_unspecified :: "address_v4 \<Rightarrow> bool" where
  "v4_is_unspecified a \<longleftrightarrow> v4_uint a = 0"

definition is_class_a :: "address_v4 \<Rightarrow> bool" where
  "is_class_a a \<longleftrightarrow> v4_uint a AND 0x80000000 = 0"

definition is_class_b :: "address_v4 \<Rightarrow> bool" where
  "is_class_b a \<longleftrightarrow> v4_uint a AND 0xC0000000 = 0x80000000"

definition is_class_c :: "address_v4 \<Rightarrow> bool" where
  "is_class_c a \<longleftrightarrow> v4_uint a AND 0xE0000000 = 0xC0000000"

definition v4_is_multicast :: "address_v4 \<Rightarrow> bool" where
  "v4_is_multicast a \<longleftrightarrow> v4_uint a AND 0xF0000000 = 0xE0000000"

definition v4_broadcast :: "address_v4 \<Rightarrow> address_v4 \<Rightarrow> address_v4" where
  "v4_broadcast addr m = v4_of_uint (v4_uint addr OR (v4_uint m XOR 0xFFFFFFFF))"

definition v4_class_netmask :: "address_v4 \<Rightarrow> address_v4" where
  "v4_class_netmask addr =
    (if is_class_a addr then v4_of_uint 0xFF000000
     else if is_class_b addr then v4_of_uint 0xFFFF0000
     else if is_class_c addr then v4_of_uint 0xFFFFFF00
     else v4_of_uint 0xFFFFFFFF)"

lemma v4_uint_of_uint [simp]: "v4_uint (v4_of_uint u) = u"
  by (simp add: v4_uint_def v4_of_uint_def)

lemma v4_of_uint_uint [simp]: "v4_of_uint (v4_uint a) = a"
  by (simp add: v4_uint_def v4_of_uint_def)

lemma v4_uint_inject: "v4_uint a = v4_uint b \<longleftrightarrow> a = b"
  by (metis v4_of_uint_uint)

text \<open>The comparison operators of the class are those of the integers; they make a linear order.\<close>

definition v4_less :: "address_v4 \<Rightarrow> address_v4 \<Rightarrow> bool" where
  "v4_less a b \<longleftrightarrow> v4_uint a < v4_uint b"

definition v4_less_equal :: "address_v4 \<Rightarrow> address_v4 \<Rightarrow> bool" where
  "v4_less_equal a b \<longleftrightarrow> v4_uint a \<le> v4_uint b"

instantiation address_v4 :: linorder
begin

definition less_address_v4 :: "address_v4 \<Rightarrow> address_v4 \<Rightarrow> bool" where
  "less_address_v4 a b \<longleftrightarrow> v4_less a b"

definition less_eq_address_v4 :: "address_v4 \<Rightarrow> address_v4 \<Rightarrow> bool" where
  "less_eq_address_v4 a b \<longleftrightarrow> v4_less_equal a b"

instance
  by standard (auto simp: less_address_v4_def less_eq_address_v4_def v4_less_def v4_less_equal_def v4_uint_inject less_le)

end

lemmas v4_order_defs = less_address_v4_def less_eq_address_v4_def v4_less_def v4_less_equal_def

text \<open>The iterator over IPv4 addresses.\<close>

definition v4_increment :: "address_v4 \<Rightarrow> address_v4" where
  "v4_increment a = v4_of_uint ((v4_uint a + 1) AND 0xFFFFFFFF)"

definition v4_decrement :: "address_v4 \<Rightarrow> address_v4" where
  "v4_decrement a = v4_of_uint ((v4_uint a - 1) AND 0xFFFFFFFF)"

lemma all_ones: "(0xFFFFFFFF :: u32) = - 1"
  by simp

lemma and_all_ones: "(w :: u32) AND 0xFFFFFFFF = w"
  by (simp only: all_ones and.right_neutral)

lemma v4_uint_step:
  "v4_uint (v4_increment a) = v4_uint a + 1" "v4_uint (v4_decrement a) = v4_uint a - 1"
  by (simp_all add: v4_increment_def v4_decrement_def and_all_ones)

lemma be_value_v4_bytes: "be_value (v4_bytes a) = unat (v4_uint a)"
  by (simp add: v4_bytes_def v4_uint_def network_to_host_long_value)

lemma v4_of_bytes_bytes [simp]: "v4_of_bytes (v4_bytes a) = a"
  by (simp add: v4_of_bytes_def v4_bytes_def)

lemma v4_bytes_of_bytes: "length bs = 4 \<Longrightarrow> v4_bytes (v4_of_bytes bs) = bs"
  by (simp add: v4_of_bytes_def v4_bytes_def u32_bytes_bytes_u32)

lemma length_v4_bytes [simp]: "length (v4_bytes a) = 4"
  by (simp add: v4_bytes_def)

section \<open>IPv6 addresses\<close>

datatype address_v6 = Address_v6 (s6_addr: "byte list") (scope_id: u64)

definition v6_any :: address_v6 where
  "v6_any = Address_v6 (replicate 16 0) 0"

definition v6_of_bytes :: "byte list \<Rightarrow> u64 \<Rightarrow> address_v6" where
  "v6_of_bytes bytes scope = Address_v6 bytes scope"

definition v6_loopback :: address_v6 where
  "v6_loopback = Address_v6 ((replicate 16 0)[15 := 1]) 0"

definition v6_is_loopback :: "address_v6 \<Rightarrow> bool" where
  "v6_is_loopback a \<longleftrightarrow> (\<forall>i<15. s6_addr a ! i = 0) \<and> s6_addr a ! 15 = 1"

definition v6_is_unspecified :: "address_v6 \<Rightarrow> bool" where
  "v6_is_unspecified a \<longleftrightarrow> (\<forall>i<16. s6_addr a ! i = 0)"

definition is_link_local :: "address_v6 \<Rightarrow> bool" where
  "is_link_local a \<longleftrightarrow> s6_addr a ! 0 = 0xfe \<and> s6_addr a ! 1 AND 0xc0 = 0x80"

definition is_site_local :: "address_v6 \<Rightarrow> bool" where
  "is_site_local a \<longleftrightarrow> s6_addr a ! 0 = 0xfe \<and> s6_addr a ! 1 AND 0xc0 = 0xc0"

definition is_v4_mapped :: "address_v6 \<Rightarrow> bool" where
  "is_v4_mapped a \<longleftrightarrow> (\<forall>i<10. s6_addr a ! i = 0) \<and> s6_addr a ! 10 = 0xff \<and> s6_addr a ! 11 = 0xff"

definition is_v4_compatible :: "address_v6 \<Rightarrow> bool" where
  "is_v4_compatible a \<longleftrightarrow> (\<forall>i<12. s6_addr a ! i = 0) \<and>
    \<not> (s6_addr a ! 12 = 0 \<and> s6_addr a ! 13 = 0 \<and> s6_addr a ! 14 = 0 \<and>
      (s6_addr a ! 15 = 0 \<or> s6_addr a ! 15 = 1))"

definition v6_is_multicast :: "address_v6 \<Rightarrow> bool" where
  "v6_is_multicast a \<longleftrightarrow> s6_addr a ! 0 = 0xff"

text \<open>The five multicast scopes are one test with the value of the scope nibble.\<close>

definition is_multicast_scope :: "byte \<Rightarrow> address_v6 \<Rightarrow> bool" where
  "is_multicast_scope k a \<longleftrightarrow> s6_addr a ! 0 = 0xff \<and> s6_addr a ! 1 AND 0x0f = k"

text \<open>\<open>memcmp\<close> on two objects of the same size: the sign of the first difference.\<close>

fun memcmp :: "byte list \<Rightarrow> byte list \<Rightarrow> int" where
  "memcmp (x # xs) (y # ys) = (if x < y then -1 else if x > y then 1 else memcmp xs ys)"
| "memcmp _ _ = 0"

definition v6_equal :: "address_v6 \<Rightarrow> address_v6 \<Rightarrow> bool" where
  "v6_equal a b \<longleftrightarrow> memcmp (s6_addr a) (s6_addr b) = 0 \<and> scope_id a = scope_id b"

definition v6_less :: "address_v6 \<Rightarrow> address_v6 \<Rightarrow> bool" where
  "v6_less a b =
    (let memcmp_result = memcmp (s6_addr a) (s6_addr b) in
     if memcmp_result < 0 then True
     else if memcmp_result > 0 then False
     else scope_id a < scope_id b)"

text \<open>The bytes of an address are sixteen; the integer they stand for.\<close>

definition v6_ok :: "address_v6 \<Rightarrow> bool" where
  "v6_ok a \<longleftrightarrow> length (s6_addr a) = 16"

definition v6_uint :: "address_v6 \<Rightarrow> 128 word" where
  "v6_uint a = of_nat (be_value (s6_addr a))"

lemma unat_v6_uint: "v6_ok a \<Longrightarrow> unat (v6_uint a) = be_value (s6_addr a)"
  using be_value_bound [of "s6_addr a"] by (simp add: v6_ok_def v6_uint_def unat_of_nat)

lemma v6_eqI: "v6_ok a \<Longrightarrow> v6_ok b \<Longrightarrow> v6_uint a = v6_uint b \<Longrightarrow> scope_id a = scope_id b \<Longrightarrow> a = b"
  by (metis address_v6.expand be_value_inject unat_v6_uint v6_ok_def)

lemma memcmp_sign:
  "length xs = length ys \<Longrightarrow> (memcmp xs ys < 0 \<longleftrightarrow> be_value xs < be_value ys) \<and>
    (memcmp xs ys = 0 \<longleftrightarrow> be_value xs = be_value ys)"
proof (induction xs ys rule: list_induct2)
  case (Cons x xs y ys)
  have be: "be_value (z # zs) = be_value zs + 256 ^ length zs * unat z" for z zs
    by (simp add: be_value_def le_value_append)
  have bound: "be_value xs < 256 ^ length ys" "be_value ys < 256 ^ length ys"
    using be_value_bound [of xs] be_value_bound [of ys] Cons.hyps by simp_all
  have lt: "be_value us + 256 ^ length ys * unat u < be_value vs + 256 ^ length ys * unat v"
    if "u < v" "be_value us < 256 ^ length ys" for u v :: byte and us vs
  proof -
    have "Suc (unat u) \<le> unat v" using that(1) by (simp add: word_less_nat_alt)
    then have "256 ^ length ys * Suc (unat u) \<le> 256 ^ length ys * unat v" by (rule mult_le_mono2)
    with that(2) show ?thesis by simp
  qed
  consider "x < y" | "y < x" | "x = y" by fastforce
  then show ?case
    using lt [of x y xs ys] lt [of y x ys xs] bound Cons by cases (simp_all add: be)
qed (simp add: be_value_def)

text \<open>Conversions between the two families; a failed one throws \<open>bad_address_cast\<close>.\<close>

definition v6_v4_mapped :: "address_v4 \<Rightarrow> address_v6" where
  "v6_v4_mapped addr = (let v4 = v4_bytes addr in
     v6_of_bytes [0, 0, 0, 0, 0, 0, 0, 0, 0, 0, 0xFF, 0xFF, v4 ! 0, v4 ! 1, v4 ! 2, v4 ! 3] 0)"

definition v6_v4_compatible :: "address_v4 \<Rightarrow> address_v6" where
  "v6_v4_compatible addr = (let v4 = v4_bytes addr in
     v6_of_bytes [0, 0, 0, 0, 0, 0, 0, 0, 0, 0, 0, 0, v4 ! 0, v4 ! 1, v4 ! 2, v4 ! 3] 0)"

definition v4_from_mapped :: "address_v6 \<Rightarrow> address_v4 option" where
  "v4_from_mapped a =
    (if \<not> is_v4_mapped a then None
     else Some (v4_of_bytes [s6_addr a ! 12, s6_addr a ! 13, s6_addr a ! 14, s6_addr a ! 15]))"

definition v6_to_v4 :: "address_v6 \<Rightarrow> address_v4 option" where
  "v6_to_v4 a =
    (if \<not> is_v4_mapped a \<and> \<not> is_v4_compatible a then None
     else Some (v4_of_bytes [s6_addr a ! 12, s6_addr a ! 13, s6_addr a ! 14, s6_addr a ! 15]))"

text \<open>The iterator over IPv6 addresses: the loops run \<open>i\<close> from 15 down to 0.\<close>

fun increment_loop :: "nat \<Rightarrow> byte list \<Rightarrow> byte list" where
  "increment_loop 0 bs = bs"
| "increment_loop (Suc i) bs =
    (if bs ! i < 0xFF then bs[i := bs ! i + 1] else increment_loop i (bs[i := 0]))"

fun decrement_loop :: "nat \<Rightarrow> byte list \<Rightarrow> byte list" where
  "decrement_loop 0 bs = bs"
| "decrement_loop (Suc i) bs =
    (if bs ! i > 0 then bs[i := bs ! i - 1] else decrement_loop i (bs[i := 0xFF]))"

definition v6_increment :: "address_v6 \<Rightarrow> address_v6" where
  "v6_increment a = Address_v6 (increment_loop 16 (s6_addr a)) (scope_id a)"

definition v6_decrement :: "address_v6 \<Rightarrow> address_v6" where
  "v6_decrement a = Address_v6 (decrement_loop 16 (s6_addr a)) (scope_id a)"

section \<open>Addresses of either family\<close>

text \<open>
  The class holds a tag and one address of each family, of which the one not tagged is always
  default-constructed and never read: a sum.
\<close>

datatype address = Ipv4 address_v4 | Ipv6 address_v6

definition address_default :: address where
  "address_default = Ipv4 v4_any"

fun address_to_v4 :: "address \<Rightarrow> address_v4 option" where
  "address_to_v4 (Ipv4 a) = Some a"
| "address_to_v4 (Ipv6 _) = None"

fun address_to_v6 :: "address \<Rightarrow> address_v6 option" where
  "address_to_v6 (Ipv6 a) = Some a"
| "address_to_v6 (Ipv4 _) = None"

fun address_is_loopback :: "address \<Rightarrow> bool" where
  "address_is_loopback (Ipv4 a) = v4_is_loopback a"
| "address_is_loopback (Ipv6 a) = v6_is_loopback a"

fun address_is_unspecified :: "address \<Rightarrow> bool" where
  "address_is_unspecified (Ipv4 a) = v4_is_unspecified a"
| "address_is_unspecified (Ipv6 a) = v6_is_unspecified a"

fun address_is_multicast :: "address \<Rightarrow> bool" where
  "address_is_multicast (Ipv4 a) = v4_is_multicast a"
| "address_is_multicast (Ipv6 a) = v6_is_multicast a"

fun address_equal :: "address \<Rightarrow> address \<Rightarrow> bool" where
  "address_equal (Ipv6 a) (Ipv6 b) = v6_equal a b"
| "address_equal (Ipv4 a) (Ipv4 b) = (s_addr a = s_addr b)"
| "address_equal _ _ = False"

fun address_less :: "address \<Rightarrow> address \<Rightarrow> bool" where
  "address_less (Ipv4 _) (Ipv6 _) = True"
| "address_less (Ipv6 _) (Ipv4 _) = False"
| "address_less (Ipv6 a) (Ipv6 b) = v6_less a b"
| "address_less (Ipv4 a) (Ipv4 b) = (a < b)"

section \<open>Lemmas\<close>

text \<open>The loops of the iterator add and subtract one on the little-endian bytes.\<close>

fun le_increment :: "byte list \<Rightarrow> byte list" where
  "le_increment [] = []"
| "le_increment (b # bs) = (if b < 0xFF then (b + 1) # bs else 0 # le_increment bs)"

fun le_decrement :: "byte list \<Rightarrow> byte list" where
  "le_decrement [] = []"
| "le_decrement (b # bs) = (if b > 0 then (b - 1) # bs else 0xFF # le_decrement bs)"

lemma length_le_step [simp]:
  "length (le_increment bs) = length bs" "length (le_decrement bs) = length bs"
  by (induction bs) simp_all

lemma loops_rev:
  "i \<le> length bs \<Longrightarrow> increment_loop i bs = rev (le_increment (rev (take i bs))) @ drop i bs"
  "i \<le> length bs \<Longrightarrow> decrement_loop i bs = rev (le_decrement (rev (take i bs))) @ drop i bs"
proof (induction i arbitrary: bs)
  case (Suc i)
  have split: "take (Suc i) bs = take i bs @ [bs ! i]" "drop i bs = bs ! i # drop (Suc i) bs"
    "bs[i := v] = take i bs @ v # drop (Suc i) bs" if "Suc i \<le> length bs" for v :: byte and bs
    using that by (simp_all add: take_Suc_conv_app_nth Cons_nth_drop_Suc upd_conv_take_nth_drop)
  {
    case 1
    then show ?case using Suc.IH(1) split [OF 1] by simp
  next
    case 2
    then show ?case using Suc.IH(2) split [OF 2] by simp
  }
qed simp_all

lemma byte_max: "(\<not> b < 0xFF) = (b = (0xFF :: byte))"
proof -
  have "unat b < 256" using unsigned_less [of b, where ?'a = nat] by simp
  then show ?thesis by (auto simp: word_less_nat_alt word_unat_eq_iff)
qed

lemma byte_up: "b < (0xFF :: byte) \<Longrightarrow> unat (b + 1) = unat b + 1"
  by (simp add: word_less_nat_alt unat_word_ariths)

lemma byte_down: "0 < (b :: byte) \<Longrightarrow> unat (b - 1) = unat b - 1 \<and> b - 1 < 0xFF"
proof -
  assume "0 < b"
  moreover from this have "unat (b - 1) = unat b - 1" by (intro unat_minus_one) auto
  moreover have "unat b < 256" using unsigned_less [of b, where ?'a = nat] by simp
  ultimately show ?thesis by (simp add: word_less_nat_alt)
qed

lemma le_increment_value: "le_value (le_increment bs) = (le_value bs + 1) mod 256 ^ length bs"
proof (induction bs)
  case (Cons b bs)
  show ?case
  proof (cases "b < 0xFF")
    case True
    then show ?thesis
      using le_value_bound [of "(b + 1) # bs"] by (simp add: byte_up)
  next
    case False
    then have "b = 0xFF" by (simp add: byte_max)
    then have "unat b = 255" by simp
    then have "le_value (b # bs) + 1 = 256 * (le_value bs + 1)" by simp
    then show ?thesis
      using False Cons by (simp only: le_increment.simps if_False le_value.simps(2) unsigned_0 add_0
          list.size(4) add_Suc_right add_0_right mult_mod_right power_Suc)
  qed
qed simp

lemma le_decrement_increment: "le_decrement (le_increment bs) = bs" "le_increment (le_decrement bs) = bs"
proof (induction bs)
  case (Cons b bs)
  have "b < 0xFF \<Longrightarrow> 0 < b + 1" using byte_up [of b] by (simp add: word_less_nat_alt)
  with Cons.IH show "le_decrement (le_increment (b # bs)) = b # bs"
    using byte_max [of b] by auto
  from Cons.IH show "le_increment (le_decrement (b # bs)) = b # bs"
    using byte_down [of b] by (cases "0 < b") (auto simp: word_gt_0)
qed simp_all

lemma v6_step:
  assumes "v6_ok a"
  shows "v6_ok (v6_increment a)" "v6_ok (v6_decrement a)"
    "v6_uint (v6_increment a) = v6_uint a + 1" "v6_decrement (v6_increment a) = a" "v6_increment (v6_decrement a) = a"
proof -
  have loops: "increment_loop 16 bs = rev (le_increment (rev bs))" "decrement_loop 16 bs = rev (le_decrement (rev bs))"
    if "length bs = 16" for bs
    using that by (simp_all add: loops_rev)
  have len: "length (s6_addr a) = 16" using assms by (simp add: v6_ok_def)
  then show "v6_ok (v6_increment a)" "v6_ok (v6_decrement a)"
    by (simp_all add: v6_ok_def v6_increment_def v6_decrement_def loops)
  have "be_value (s6_addr (v6_increment a)) = (be_value (s6_addr a) + 1) mod 2 ^ 128"
    using len le_increment_value [of "rev (s6_addr a)"] by (simp add: v6_increment_def loops be_value_def)
  moreover have "(of_nat (n mod 2 ^ 128) :: 128 word) = of_nat n" for n
    by (simp only: word_of_nat_eq_iff) (simp add: take_bit_eq_mod)
  ultimately show "v6_uint (v6_increment a) = v6_uint a + 1"
    by (simp only: v6_uint_def of_nat_add of_nat_1)
  show "v6_decrement (v6_increment a) = a" "v6_increment (v6_decrement a) = a"
    using len by (simp_all add: v6_increment_def v6_decrement_def loops le_decrement_increment)
qed

section \<open>Properties\<close>

text \<open>
  The iterators count: incrementing an IPv4 or IPv6 address adds one to the integer it stands
  for and decrementing undoes it, with the carry and borrow through all bytes and the wrap from
  the last address to the first, and the scope identifier of an IPv6 address stays.\<close>

theorem iterators_count:
  assumes "v6_ok a"
  shows "v6_ok (v6_increment a) \<and> v6_uint (v6_increment a) = v6_uint a + 1 \<and>
    v6_ok (v6_decrement a) \<and> v6_uint (v6_decrement a) = v6_uint a - 1 \<and>
    v6_decrement (v6_increment a) = a \<and> v6_increment (v6_decrement a) = a \<and>
    scope_id (v6_increment a) = scope_id a \<and> scope_id (v6_decrement a) = scope_id a \<and>
    v4_uint (v4_increment b) = v4_uint b + 1 \<and> v4_uint (v4_decrement b) = v4_uint b - 1"
proof -
  have "v6_uint (v6_decrement a) = v6_uint a - 1"
    using v6_step(3) [OF v6_step(2) [OF assms]] v6_step(5) [OF assms] by simp
  then show ?thesis
    using v6_step [OF assms] by (simp add: v4_uint_step) (simp add: v6_increment_def v6_decrement_def)
qed

text \<open>The largest IPv6 address and the carry through fifteen bytes.\<close>

theorem iterators_count_witness:
  "v6_increment (Address_v6 [0xFF, 0xFF, 0xFF, 0xFF, 0xFF, 0xFF, 0xFF, 0xFF, 0xFF, 0xFF, 0xFF, 0xFF, 0xFF, 0xFF, 0xFF, 0xFF] 7)
      = Address_v6 [0, 0, 0, 0, 0, 0, 0, 0, 0, 0, 0, 0, 0, 0, 0, 0] 7 \<and>
    v6_uint (v6_increment (Address_v6 [0, 0xFF, 0xFF, 0xFF, 0xFF, 0xFF, 0xFF, 0xFF, 0xFF, 0xFF, 0xFF, 0xFF, 0xFF, 0xFF, 0xFF, 0xFF] 0))
      = 0x01000000000000000000000000000000"
proof -
  have wrap: "v6_ok (Address_v6 [0xFF, 0xFF, 0xFF, 0xFF, 0xFF, 0xFF, 0xFF, 0xFF, 0xFF, 0xFF, 0xFF, 0xFF, 0xFF, 0xFF, 0xFF, 0xFF] 7)"
    and carry: "v6_ok (Address_v6 [0, 0xFF, 0xFF, 0xFF, 0xFF, 0xFF, 0xFF, 0xFF, 0xFF, 0xFF, 0xFF, 0xFF, 0xFF, 0xFF, 0xFF, 0xFF] 0)"
    and zero: "v6_ok (Address_v6 [0, 0, 0, 0, 0, 0, 0, 0, 0, 0, 0, 0, 0, 0, 0, 0] 7)"
    by (simp_all add: v6_ok_def)
  show ?thesis
    using iterators_count [OF wrap, of v4_any] iterators_count [OF carry, of v4_any] zero
    by (auto intro!: v6_eqI simp: v6_uint_def be_value_def)
qed

text \<open>
  The conversions are inverse to one another: the bytes of an IPv4 address in network order
  are the big-endian bytes of its integer, an address comes back from its bytes, its integer and
  its IPv4-mapped form, from an address that is not IPv4-mapped the conversion throws, and the
  deprecated IPv4-compatible form gives the address back unless it is 0.0.0.0 or 0.0.0.1.\<close>

theorem address_conversions:
  "v4_of_bytes (v4_bytes a) = a \<and> v4_of_uint (v4_uint a) = a \<and> v4_uint (v4_of_uint u) = u \<and>
    be_value (v4_bytes a) = unat (v4_uint a) \<and>
    v4_from_mapped (v6_v4_mapped a) = Some a \<and> v6_to_v4 (v6_v4_mapped a) = Some a \<and>
    (v4_from_mapped b = None) = (\<not> is_v4_mapped b) \<and>
    v6_to_v4 (v6_v4_compatible a) = (if v4_uint a \<le> 1 then None else Some a)"
proof -
  obtain p q r s where bytes: "v4_bytes a = [p, q, r, s]"
    using list_of_4 [of "v4_bytes a"] by (metis length_v4_bytes)
  then have again: "v4_of_bytes [p, q, r, s] = a" by (metis v4_of_bytes_bytes)
  have "unat (v4_uint a) = unat s + 256 * (unat r + 256 * (unat q + 256 * unat p))"
    using be_value_v4_bytes [of a] by (simp add: bytes be_value_def)
  then have "unat (v4_uint a) \<le> 1 \<longleftrightarrow> unat p = 0 \<and> unat q = 0 \<and> unat r = 0 \<and> unat s \<le> 1"
    by auto
  moreover have "unat s \<le> 1 \<longleftrightarrow> s = 0 \<or> s = 1"
    by (auto simp: le_Suc_eq word_unat_eq_iff)
  ultimately have low: "v4_uint a \<le> 1 \<longleftrightarrow> p = 0 \<and> q = 0 \<and> r = 0 \<and> (s = 0 \<or> s = 1)"
    by (simp add: word_le_nat_alt unat_eq_0)
  have "s6_addr (v6_v4_compatible a) ! 10 = 0" by (simp add: v6_v4_compatible_def v6_of_bytes_def Let_def)
  then have mapped: "is_v4_mapped (v6_v4_mapped a)" "\<not> is_v4_mapped (v6_v4_compatible a)"
    by (simp_all add: is_v4_mapped_def)
      (simp add: v6_v4_mapped_def v6_of_bytes_def Let_def eval_nat_numeral All_less_Suc)
  have compat: "is_v4_compatible (v6_v4_compatible a) \<longleftrightarrow> \<not> v4_uint a \<le> 1"
    by (simp add: low is_v4_compatible_def v6_v4_compatible_def v6_of_bytes_def Let_def bytes eval_nat_numeral All_less_Suc)
  show ?thesis
    using mapped compat
    by (simp add: be_value_v4_bytes v4_from_mapped_def v6_to_v4_def)
      (simp add: v6_v4_mapped_def v6_v4_compatible_def v6_of_bytes_def Let_def bytes again)
qed

text \<open>
  The order of addresses is the order of what they stand for: family first (IPv4 before IPv6),
  then the integer, then the scope identifier; it is a strict linear order, and addresses that
  are not less than one another are equal for \<open>operator==\<close> and identical.\<close>

fun address_ok :: "address \<Rightarrow> bool" where
  "address_ok (Ipv4 _) = True"
| "address_ok (Ipv6 a) = v6_ok a"

fun address_key :: "address \<Rightarrow> nat \<times> nat \<times> u64" where
  "address_key (Ipv4 a) = (0, unat (v4_uint a), 0)"
| "address_key (Ipv6 a) = (1, unat (v6_uint a), scope_id a)"

lemma v6_memcmp:
  assumes "v6_ok a" "v6_ok b"
  shows "memcmp (s6_addr a) (s6_addr b) < 0 \<longleftrightarrow> unat (v6_uint a) < unat (v6_uint b)"
    "memcmp (s6_addr a) (s6_addr b) = 0 \<longleftrightarrow> unat (v6_uint a) = unat (v6_uint b)"
    "memcmp (s6_addr a) (s6_addr b) > 0 \<longleftrightarrow> unat (v6_uint a) > unat (v6_uint b)"
proof -
  have sign: "(memcmp (s6_addr a) (s6_addr b) < 0 \<longleftrightarrow> unat (v6_uint a) < unat (v6_uint b)) \<and>
      (memcmp (s6_addr a) (s6_addr b) = 0 \<longleftrightarrow> unat (v6_uint a) = unat (v6_uint b))"
    using memcmp_sign [of "s6_addr a" "s6_addr b"] assms by (simp add: unat_v6_uint) (simp add: v6_ok_def)
  then show "memcmp (s6_addr a) (s6_addr b) < 0 \<longleftrightarrow> unat (v6_uint a) < unat (v6_uint b)"
    "memcmp (s6_addr a) (s6_addr b) = 0 \<longleftrightarrow> unat (v6_uint a) = unat (v6_uint b)"
    by blast+
  from sign show "memcmp (s6_addr a) (s6_addr b) > 0 \<longleftrightarrow> unat (v6_uint a) > unat (v6_uint b)"
    by linarith
qed

theorem address_order_numeric:
  assumes "address_ok x" "address_ok y" "address_ok z"
  shows "address_less x y = (address_key x < address_key y) \<and>
    address_equal x y = (x = y) \<and>
    (address_less x y \<or> address_equal x y \<or> address_less y x) \<and>
    \<not> address_less x x \<and>
    (address_less x y \<and> address_less y z \<longrightarrow> address_less x z)"
proof -
  have less: "address_less x y = (address_key x < address_key y)" if "address_ok x" "address_ok y" for x y
    using that v6_memcmp
    by (cases "(x, y)" rule: address_less.cases)
      (auto simp: less_prod_def v6_less_def Let_def v4_order_defs word_less_nat_alt
        word_unat_eq_iff)
  have key: "x = y \<longleftrightarrow> address_key x = address_key y"
    using assms v6_eqI by (cases "(x, y)" rule: address_less.cases) (auto simp: word_unat_eq_iff v4_uint_inject [symmetric])
  have "address_equal x y = (x = y)"
    using assms v6_memcmp v6_eqI
    by (cases "(x, y)" rule: address_less.cases) (auto simp: v6_equal_def word_unat_eq_iff address_v4.expand)
  then show ?thesis using less assms key by auto
qed

theorem address_order_numeric_witness:
  "address_less (Ipv4 (v4_of_uint 1)) (Ipv4 (v4_of_uint 256)) \<and> address_less (Ipv4 (v4_of_uint 256)) (Ipv6 v6_any)"
  using address_order_numeric [of "Ipv4 (v4_of_uint 1)" "Ipv4 (v4_of_uint 256)" "Ipv6 v6_any"]
    address_order_numeric [of "Ipv4 (v4_of_uint 256)" "Ipv6 v6_any" "Ipv6 v6_any"]
  by (simp add: v6_any_def v6_ok_def less_prod_def)

end
