(* ===== verification/Asio_Network.thy ===== *)
theory Asio_Network
  imports Asio_Address
begin

text \<open>
  Networks and ranges of addresses: \<open>ip/network_v4.hpp\<close>, \<open>ip/network_v6.hpp\<close>,
  \<open>ip/address_v4_range.hpp\<close>, \<open>ip/address_v6_range.hpp\<close> and the implementation files. A
  constructor that throws returns the exception on the left. A loop over a range is \<open>walk\<close>, for
  the iterators of both families through one locale.
\<close>

section \<open>Ranges\<close>

datatype 'a address_range = Range (range_begin: 'a) (range_end: 'a)

definition v4_range_size :: "address_v4 address_range \<Rightarrow> nat" where
  "v4_range_size r = unat (v4_uint (range_end r) - v4_uint (range_begin r))"

definition v4_range_empty :: "address_v4 address_range \<Rightarrow> bool" where
  "v4_range_empty r \<longleftrightarrow> v4_range_size r = 0"

definition v4_range_find :: "address_v4 \<Rightarrow> address_v4 address_range \<Rightarrow> address_v4" where
  "v4_range_find addr r = (if addr \<ge> range_begin r \<and> addr < range_end r then addr else range_end r)"

definition v6_range_empty :: "address_v6 address_range \<Rightarrow> bool" where
  "v6_range_empty r \<longleftrightarrow> v6_equal (range_begin r) (range_end r)"

definition v6_range_find :: "address_v6 \<Rightarrow> address_v6 address_range \<Rightarrow> address_v6" where
  "v6_range_find addr r =
    (if \<not> v6_less addr (range_begin r) \<and> v6_less addr (range_end r) then addr else range_end r)"

text \<open>
  \<open>for (it = r.begin(); it != r.end(); ++it)\<close>: the addresses seen, \<open>None\<close> when the fuel is
  not enough.
\<close>

fun walk :: "nat \<Rightarrow> ('a \<Rightarrow> 'a) \<Rightarrow> 'a \<Rightarrow> 'a \<Rightarrow> 'a list option" where
  "walk 0 advance it stop = (if it = stop then Some [] else None)"
| "walk (Suc n) advance it stop =
    (if it = stop then Some [] else map_option ((#) it) (walk n advance (advance it) stop))"

text \<open>
  What the iterators of the two families have in common: addresses with a value in a word and a
  part that the iterator does not touch, which together determine them.
\<close>

locale address_iterator =
  fixes ok :: "'a \<Rightarrow> bool"
    and val :: "'a \<Rightarrow> 'w::len word"
    and rest :: "'a \<Rightarrow> 'c"
    and step :: "'a \<Rightarrow> 'a"
  assumes ok_step: "ok a \<Longrightarrow> ok (step a)"
    and val_step: "ok a \<Longrightarrow> val (step a) = val a + 1"
    and rest_step: "rest (step a) = rest a"
    and ext: "ok a \<Longrightarrow> ok b \<Longrightarrow> val a = val b \<Longrightarrow> rest a = rest b \<Longrightarrow> a = b"
begin

lemma unat_distance:
  assumes "v \<noteq> (w :: 'w word)"
  shows "unat (w - v) = Suc (unat (w - (v + 1)))"
proof -
  have "w - v \<noteq> 0" using assms by simp
  then have "unat (w - v - 1) = unat (w - v) - 1" by (rule unat_minus_one)
  moreover have "0 < unat (w - v)" using \<open>w - v \<noteq> 0\<close> by (simp add: unat_gt_0)
  ultimately show ?thesis by (simp add: algebra_simps)
qed

text \<open>A walk returns after as many steps as the end is ahead, having seen exactly the addresses
  before it.\<close>

lemma walk_counts:
  assumes "ok a" "ok e" "rest a = rest e" "unat (val e - val a) \<le> n"
  shows "\<exists>xs. walk n step a e = Some xs \<and> length xs = unat (val e - val a) \<and> distinct xs \<and>
    (\<forall>x. x \<in> set xs \<longleftrightarrow> ok x \<and> rest x = rest a \<and> unat (val x - val a) < unat (val e - val a))"
  using assms
proof (induction n arbitrary: a)
  case 0
  then have "val e = val a" by (simp add: unat_eq_0)
  with 0 have "a = e" by (simp add: ext)
  then show ?case by simp
next
  case (Suc n)
  show ?case
  proof (cases "a = e")
    case True
    then show ?thesis by simp
  next
    case False
    with Suc.prems have ne: "val a \<noteq> val e" using ext by blast
    note dist = unat_distance [OF ne]
    have "unat (val e - val (step a)) \<le> n"
      using Suc.prems dist by (simp add: val_step)
    then obtain xs where xs: "walk n step (step a) e = Some xs" "length xs = unat (val e - val (step a))" "distinct xs"
      "\<And>x. x \<in> set xs \<longleftrightarrow> ok x \<and> rest x = rest a \<and> unat (val x - val (step a)) < unat (val e - val (step a))"
      using Suc.IH [of "step a"] Suc.prems by (auto simp: ok_step rest_step)
    have mem: "x \<in> set (a # xs) \<longleftrightarrow> ok x \<and> rest x = rest a \<and> unat (val x - val a) < unat (val e - val a)" for x
    proof (cases "val x = val a")
      case True
      then have "ok x \<and> rest x = rest a \<longleftrightarrow> x = a" using ext Suc.prems(1) by blast
      moreover have "x \<notin> set xs \<or> x = a" using xs(4) True calculation by blast
      ultimately show ?thesis using True dist by auto
    next
      case False
      then have "x \<noteq> a" by blast
      moreover have "unat (val x - val a) = Suc (unat (val x - val (step a)))"
        using unat_distance [of "val a" "val x"] False Suc.prems(1) by (simp add: val_step)
      ultimately show ?thesis using xs(4) dist Suc.prems(1) by (simp add: val_step)
    qed
    have "a \<notin> set xs"
    proof
      assume "a \<in> set xs"
      then have "unat (val a - val (step a)) < unat (val e - val (step a))" using xs(4) by blast
      moreover have "val a - val (step a) = - 1" using Suc.prems(1) by (simp add: val_step)
      moreover have "unat (val e - val (step a)) \<le> unat (- 1 :: 'w word)"
        by (metis word_le_nat_alt word_n1_ge)
      ultimately show False by simp
    qed
    then show ?thesis
      using xs dist False Suc.prems(1) mem by (simp add: val_step)
  qed
qed

end

interpretation v4: address_iterator "\<lambda>_. True" v4_uint "\<lambda>_. ()" v4_increment
  by unfold_locales (simp_all add: v4_uint_step v4_uint_inject)

lemma v6_increment_scope: "scope_id (v6_increment a) = scope_id a"
  by (simp add: v6_increment_def)

interpretation v6: address_iterator v6_ok v6_uint scope_id v6_increment
  by unfold_locales (simp_all add: v6_step v6_increment_scope v6_eqI)

section \<open>IPv4 networks\<close>

text \<open>The exceptions of the constructors.\<close>

datatype net_exception = Out_of_range | Invalid_netmask

datatype network_v4 = Network_v4 (v4_address: address_v4) (v4_prefix_length: nat)

definition v4_network_of_prefix :: "address_v4 \<Rightarrow> nat \<Rightarrow> net_exception + network_v4" where
  "v4_network_of_prefix addr prefix_len =
    (if prefix_len > 32 then Inl Out_of_range else Inr (Network_v4 addr prefix_len))"

text \<open>The switch over one byte of a netmask: the cases from 254 on fall through to the next.\<close>

fun mask_bits :: "byte \<Rightarrow> nat option" where
  "mask_bits b =
    (if b = 254 then Some 7 else if b = 252 then Some 6 else if b = 248 then Some 5 else if b = 240 then Some 4
     else if b = 224 then Some 3 else if b = 192 then Some 2 else if b = 128 then Some 1 else if b = 0 then Some 0
     else None)"

fun netmask_loop :: "byte list \<Rightarrow> bool \<Rightarrow> nat \<Rightarrow> net_exception + nat" where
  "netmask_loop [] finished len = Inr len"
| "netmask_loop (b # bs) finished len =
    (if finished then (if b \<noteq> 0 then Inl Invalid_netmask else netmask_loop bs finished len)
     else if b = 255 then netmask_loop bs finished (len + 8)
     else case mask_bits b of
         Some k \<Rightarrow> netmask_loop bs True (len + k)
       | None \<Rightarrow> Inl Out_of_range)"

definition v4_network_of_netmask :: "address_v4 \<Rightarrow> address_v4 \<Rightarrow> net_exception + network_v4" where
  "v4_network_of_netmask addr netmask =
    (case netmask_loop (v4_bytes netmask) False 0 of
       Inl e \<Rightarrow> Inl e
     | Inr len \<Rightarrow> Inr (Network_v4 addr len))"

definition v4_netmask :: "network_v4 \<Rightarrow> address_v4" where
  "v4_netmask n =
    (let nmbits = (if v4_prefix_length n = 0 then 0 else push_bit (32 - v4_prefix_length n) 0xffffffff)
     in v4_of_uint nmbits)"

definition v4_network :: "network_v4 \<Rightarrow> address_v4" where
  "v4_network n = v4_of_uint (v4_uint (v4_address n) AND v4_uint (v4_netmask n))"

definition v4_network_broadcast :: "network_v4 \<Rightarrow> address_v4" where
  "v4_network_broadcast n = v4_of_uint (v4_uint (v4_network n) OR (v4_uint (v4_netmask n) XOR 0xFFFFFFFF))"

definition v4_is_host :: "network_v4 \<Rightarrow> bool" where
  "v4_is_host n \<longleftrightarrow> v4_prefix_length n = 32"

definition v4_hosts :: "network_v4 \<Rightarrow> address_v4 address_range" where
  "v4_hosts n =
    (if v4_is_host n then Range (v4_address n) (v4_of_uint (v4_uint (v4_address n) + 1))
     else Range (v4_of_uint (v4_uint (v4_network n) + 1)) (v4_network_broadcast n))"

definition v4_canonical :: "network_v4 \<Rightarrow> net_exception + network_v4" where
  "v4_canonical n = v4_network_of_netmask (v4_network n) (v4_netmask n)"

definition v4_is_subnet_of :: "network_v4 \<Rightarrow> network_v4 \<Rightarrow> net_exception + bool" where
  "v4_is_subnet_of n other =
    (if v4_prefix_length other \<ge> v4_prefix_length n then Inr False
     else case v4_network_of_prefix (v4_address n) (v4_prefix_length other) of
         Inl e \<Rightarrow> Inl e
       | Inr me \<Rightarrow> (case (v4_canonical other, v4_canonical me) of
           (Inr a, Inr b) \<Rightarrow> Inr (a = b)
         | (Inl e, _) \<Rightarrow> Inl e
         | (_, Inl e) \<Rightarrow> Inl e))"

section \<open>IPv6 networks\<close>

datatype network_v6 = Network_v6 (v6_address: address_v6) (v6_prefix_length: nat)

definition v6_network_of_prefix :: "address_v6 \<Rightarrow> nat \<Rightarrow> net_exception + network_v6" where
  "v6_network_of_prefix addr prefix_len =
    (if prefix_len > 128 then Inl Out_of_range else Inr (Network_v6 addr prefix_len))"

text \<open>
  One turn of the loops over the sixteen bytes: byte \<open>i\<close> of the first and of the last address.
  The shifts are done in \<open>int\<close> and cut to a byte by the assignment.
\<close>

definition low_byte :: "nat \<Rightarrow> nat \<Rightarrow> byte \<Rightarrow> byte" where
  "low_byte p i b =
    (if p \<le> i * 8 then 0
     else if p < (i + 1) * 8 then b AND of_nat (drop_bit (p mod 8) 0xFF00)
     else b)"

definition high_byte :: "nat \<Rightarrow> nat \<Rightarrow> byte \<Rightarrow> byte" where
  "high_byte p i b =
    (if p \<le> i * 8 then 0xFF
     else if p < (i + 1) * 8 then b OR of_nat (drop_bit (p mod 8) 0xFF)
     else b)"

fun bytes_loop :: "(nat \<Rightarrow> byte \<Rightarrow> byte) \<Rightarrow> nat \<Rightarrow> byte list \<Rightarrow> byte list" where
  "bytes_loop f i [] = []"
| "bytes_loop f i (b # bs) = f i b # bytes_loop f (Suc i) bs"

definition v6_network :: "network_v6 \<Rightarrow> address_v6" where
  "v6_network n = v6_of_bytes
    (bytes_loop (low_byte (v6_prefix_length n)) 0 (s6_addr (v6_address n))) (scope_id (v6_address n))"

definition v6_hosts :: "network_v6 \<Rightarrow> address_v6 address_range" where
  "v6_hosts n =
    (let begin_bytes = bytes_loop (low_byte (v6_prefix_length n)) 0 (s6_addr (v6_address n));
         end_bytes = bytes_loop (high_byte (v6_prefix_length n)) 0 (s6_addr (v6_address n))
     in Range (v6_of_bytes begin_bytes (scope_id (v6_address n)))
          (v6_increment (v6_of_bytes end_bytes (scope_id (v6_address n)))))"

definition v6_canonical :: "network_v6 \<Rightarrow> net_exception + network_v6" where
  "v6_canonical n = v6_network_of_prefix (v6_network n) (v6_prefix_length n)"

definition v6_is_subnet_of :: "network_v6 \<Rightarrow> network_v6 \<Rightarrow> net_exception + bool" where
  "v6_is_subnet_of n other =
    (if v6_prefix_length other \<ge> v6_prefix_length n then Inr False
     else case v6_network_of_prefix (v6_address n) (v6_prefix_length other) of
         Inl e \<Rightarrow> Inl e
       | Inr me \<Rightarrow> (case (v6_canonical other, v6_canonical me) of
           (Inr a, Inr b) \<Rightarrow> Inr (v6_equal (v6_address a) (v6_address b) \<and> v6_prefix_length a = v6_prefix_length b)
         | (Inl e, _) \<Rightarrow> Inl e
         | (_, Inl e) \<Rightarrow> Inl e))"

section \<open>Prefixes of words\<close>

text \<open>Two words agree in their first \<open>p\<close> bits: the addresses of one network.\<close>

definition same_prefix :: "nat \<Rightarrow> 'w::len word \<Rightarrow> 'w word \<Rightarrow> bool" where
  "same_prefix p a b \<longleftrightarrow> drop_bit (LENGTH('w) - p) a = drop_bit (LENGTH('w) - p) b"

lemma drop_bit_eq_iff:
  "drop_bit k a = drop_bit k (b :: 'w::len word) \<longleftrightarrow> (\<forall>i. k \<le> i \<longrightarrow> bit a i = bit b i)"
proof
  assume eq: "drop_bit k a = drop_bit k b"
  have "bit a i = bit b i" if "k \<le> i" for i
    using arg_cong [OF eq, of "\<lambda>w. bit w (i - k)"] that by (simp add: bit_drop_bit_eq)
  then show "\<forall>i. k \<le> i \<longrightarrow> bit a i = bit b i" by blast
next
  assume "\<forall>i. k \<le> i \<longrightarrow> bit a i = bit b i"
  then show "drop_bit k a = drop_bit k b" by (intro bit_word_eqI) (simp add: bit_drop_bit_eq)
qed

lemma same_prefix_bits:
  "same_prefix p (a :: 'w::len word) b \<longleftrightarrow> (\<forall>i. LENGTH('w) - p \<le> i \<longrightarrow> bit a i = bit b i)"
  by (simp add: same_prefix_def drop_bit_eq_iff)

lemma prefix_subset:
  assumes "p \<le> LENGTH('w)" "q \<le> LENGTH('w)"
  shows "{x. same_prefix p (a :: 'w::len word) x} \<subset> {x. same_prefix q b x} \<longleftrightarrow> q < p \<and> same_prefix q a b"
proof
  assume sub: "{x. same_prefix p a x} \<subset> {x. same_prefix q b x}"
  then have ab: "same_prefix q a b" by (auto simp: same_prefix_def)
  moreover have "q < p"
  proof (rule ccontr)
    assume "\<not> q < p"
    then have "same_prefix q b x \<Longrightarrow> same_prefix p a x" for x
      using ab by (auto simp: same_prefix_bits)
    with sub show False by blast
  qed
  ultimately show "q < p \<and> same_prefix q a b" by blast
next
  assume qp: "q < p \<and> same_prefix q a b"
  then have "{x. same_prefix p a x} \<subseteq> {x. same_prefix q b x}"
    by (auto simp: same_prefix_bits)
  moreover have "same_prefix q b (flip_bit (LENGTH('w) - p) a)" "\<not> same_prefix p a (flip_bit (LENGTH('w) - p) a)"
    using qp assms by (auto simp: same_prefix_bits bit_simps dest: bit_imp_le_length)
  ultimately show "{x. same_prefix p a x} \<subset> {x. same_prefix q b x}" by blast
qed

lemma unat_split: "unat (w :: 'w::len word) = 2 ^ k * unat (drop_bit k w) + unat (take_bit k w)"
  unfolding unat_drop_bit_eq unsigned_take_bit_eq by (simp add: drop_bit_eq_div take_bit_eq_mod)

lemma same_prefix_interval:
  fixes a x :: "'w::len word"
  assumes "p \<le> LENGTH('w)"
  defines "k \<equiv> LENGTH('w) - p"
  shows "same_prefix p a x \<longleftrightarrow> a AND NOT (mask k) \<le> x \<and> x \<le> a OR mask k"
    and "unat (a OR mask k) + 1 = unat (a AND NOT (mask k)) + 2 ^ k"
proof -
  have take: "unat (take_bit k w) < 2 ^ k" for w :: "'w word"
    unfolding unsigned_take_bit_eq by (simp add: take_bit_eq_mod)
  have lo: "unat (a AND NOT (mask k)) = 2 ^ k * unat (drop_bit k a)"
  proof -
    have "take_bit k (a AND NOT (mask k)) = 0" "drop_bit k (a AND NOT (mask k)) = drop_bit k a"
      by (auto simp: bit_eq_iff bit_simps dest: bit_imp_le_length)
    then show ?thesis using unat_split [of "a AND NOT (mask k)" k] by simp
  qed
  have hi: "unat (a OR mask k) + 1 = 2 ^ k * unat (drop_bit k a) + 2 ^ k"
  proof -
    have "take_bit k (a OR mask k) = mask k" "drop_bit k (a OR mask k) = drop_bit k a"
      by (auto simp: bit_eq_iff bit_simps)
    moreover have "unat (mask k :: 'w word) = mask k"
      by (rule bit_eqI) (auto simp: bit_simps k_def)
    then have "unat (mask k :: 'w word) + 1 = 2 ^ k"
      by (simp add: mask_eq_exp_minus_1)
    ultimately show ?thesis using unat_split [of "a OR mask k" k] by simp
  qed
  show "unat (a OR mask k) + 1 = unat (a AND NOT (mask k)) + 2 ^ k"
    using lo hi by simp
  have "drop_bit k a = drop_bit k x \<longleftrightarrow> unat (drop_bit k x) = unat (drop_bit k a)"
    by (auto simp: word_unat_eq_iff)
  also have "\<dots> \<longleftrightarrow> unat (a AND NOT (mask k)) \<le> unat x \<and> unat x \<le> unat (a OR mask k)"
  proof -
    have "(m :: nat) = n \<longleftrightarrow> 2 ^ k * n \<le> 2 ^ k * m + r \<and> 2 ^ k * m + r < 2 ^ k * n + 2 ^ k" if "r < 2 ^ k" for m n r
    proof -
      have "n \<le> m" if "2 ^ k * n \<le> 2 ^ k * m + r"
      proof -
        have "2 ^ k * n < 2 ^ k * Suc m" using that \<open>r < 2 ^ k\<close> by simp
        then show ?thesis using mult_less_cancel1 [of "2 ^ k" n "Suc m"] by simp
      qed
      moreover have "m \<le> n" if "2 ^ k * m + r < 2 ^ k * n + 2 ^ k"
      proof -
        have "2 ^ k * m < 2 ^ k * Suc n" using that by simp
        then show ?thesis using mult_less_cancel1 [of "2 ^ k" m "Suc n"] by simp
      qed
      ultimately show ?thesis using that by auto
    qed
    then show ?thesis using take [of x] lo hi unat_split [of x k] by (metis Suc_eq_plus1 less_Suc_eq_le)
  qed
  finally show "same_prefix p a x \<longleftrightarrow> a AND NOT (mask k) \<le> x \<and> x \<le> a OR mask k"
    by (simp add: same_prefix_def k_def word_le_nat_alt)
qed

section \<open>Lemmas on networks\<close>

lemma v4_netmask_uint: "v4_prefix_length n \<le> 32 \<Longrightarrow> v4_uint (v4_netmask n) = NOT (mask (32 - v4_prefix_length n))"
proof -
  have "push_bit k (0xffffffff :: u32) = NOT (mask k)" for k
    by (rule bit_word_eqI) (auto simp: all_ones bit_simps)
  then show ?thesis
    by (simp add: v4_netmask_def Let_def) (auto simp: mask_eq_exp_minus_1)
qed

lemma v4_network_uint:
  assumes "v4_prefix_length n \<le> 32"
  shows "v4_uint (v4_network n) = v4_uint (v4_address n) AND NOT (mask (32 - v4_prefix_length n))"
    and "v4_uint (v4_network_broadcast n) = v4_uint (v4_address n) OR mask (32 - v4_prefix_length n)"
proof -
  have "w XOR 0xFFFFFFFF = NOT w" for w :: u32
    by (rule bit_word_eqI) (simp add: all_ones bit_simps)
  then show "v4_uint (v4_network n) = v4_uint (v4_address n) AND NOT (mask (32 - v4_prefix_length n))"
    "v4_uint (v4_network_broadcast n) = v4_uint (v4_address n) OR mask (32 - v4_prefix_length n)"
    using v4_netmask_uint [OF assms]
    by (simp_all add: v4_network_def v4_network_broadcast_def) (rule bit_word_eqI, auto simp: bit_simps)
qed

text \<open>The netmasks the constructor accepts are those of the 33 prefix lengths.\<close>

lemma netmask_loop_true:
  "netmask_loop bs True n = (if \<forall>b\<in>set bs. b = 0 then Inr n else Inl Invalid_netmask)"
  by (induction bs) simp_all

lemma mask_bits_value:
  "mask_bits b = Some k \<longleftrightarrow> k < 8 \<and> unat b + 2 ^ (8 - k) = 256"
proof
  assume "mask_bits b = Some k"
  then show "k < 8 \<and> unat b + 2 ^ (8 - k) = 256" by (auto split: if_splits)
next
  assume k: "k < 8 \<and> unat b + 2 ^ (8 - k) = 256"
  then have "unat b = 256 - 2 ^ (8 - k)" by linarith
  then have "b = of_nat (256 - 2 ^ (8 - k))" by (metis of_nat_unat ucast_id)
  moreover have "k \<in> {0, 1, 2, 3, 4, 5, 6, 7}" using k by auto
  ultimately show "mask_bits b = Some k" by auto
qed

lemma be_value_Cons: "be_value (b # bs) = unat b * 256 ^ length bs + be_value bs"
  by (simp add: be_value_def le_value_append)

lemma be_value_zero: "be_value bs = 0 \<longleftrightarrow> (\<forall>b\<in>set bs. b = 0)"
  by (induction bs) (simp_all add: be_value_Cons unat_eq_0, simp add: be_value_def)

lemma netmask_loop_value:
  "netmask_loop bs False n = Inr len \<longleftrightarrow>
    (\<exists>p. p \<le> 8 * length bs \<and> len = n + p \<and> be_value bs + 2 ^ (8 * length bs - p) = 256 ^ length bs)"
proof (induction bs arbitrary: n)
  case Nil
  then show ?case by (auto simp: be_value_def)
next
  case (Cons b bs)
  let ?k = "length bs"
  have pow: "(2 :: nat) ^ (8 * ?k) = 256 ^ ?k" by (simp add: power_mult)
  have bound: "be_value bs < 256 ^ ?k" "unat b < 256"
    using be_value_bound [of bs] unsigned_less [of b, where ?'a = nat] by simp_all
  have long: "be_value (b # bs) + 2 ^ (8 * length (b # bs) - (8 + p)) = 256 ^ length (b # bs) \<longleftrightarrow>
      b = 255 \<and> be_value bs + 2 ^ (8 * ?k - p) = 256 ^ ?k" if "p \<le> 8 * ?k" for p
  proof -
    define c v t u where "c = (256 :: nat) ^ ?k" and "v = be_value bs" and "t = (2 :: nat) ^ (8 * ?k - p)" and "u = unat b"
    have t: "t \<le> c" "0 < t" unfolding t_def c_def pow [symmetric] by (simp_all add: power_increasing)
    have u: "v < c" "u \<le> 255" using bound by (simp_all add: v_def c_def u_def)
    have "u * c + v + t = 256 * c \<longleftrightarrow> u = 255 \<and> v + t = c"
    proof (cases "u = 255")
      case False
      with u(2) have "u * c \<le> 254 * c" by (intro mult_le_mono1) simp
      with t u have "u * c + v + t < 256 * c" by linarith
      with False show ?thesis by simp
    qed auto
    moreover have "u = 255 \<longleftrightarrow> b = 255" by (simp add: u_def word_unat_eq_iff)
    ultimately show ?thesis by (simp add: be_value_Cons c_def v_def t_def u_def)
  qed
  have short: "be_value (b # bs) + 2 ^ (8 * length (b # bs) - p) = 256 ^ length (b # bs) \<longleftrightarrow>
      mask_bits b = Some p \<and> be_value bs = 0" if "p < 8" for p
  proof -
    define c v t u where "c = (256 :: nat) ^ ?k" and "v = be_value bs" and "t = (2 :: nat) ^ (8 - p)" and "u = unat b"
    have "8 * length (b # bs) - p = (8 - p) + 8 * ?k" using that by simp
    then have split: "2 ^ (8 * length (b # bs) - p) = t * c" by (simp only: power_add pow t_def c_def)
    have "v < c" using bound by (simp add: v_def c_def)
    have "u * c + v + t * c = 256 * c \<longleftrightarrow> u + t = 256 \<and> v = 0"
    proof
      assume eq: "u * c + v + t * c = 256 * c"
      then have "(v + (u + t) * c) mod c = 256 * c mod c" by (simp add: algebra_simps)
      then have "v = 0" using \<open>v < c\<close> by simp
      with eq have "(u + t) * c = 256 * c" by (simp add: algebra_simps)
      with \<open>v < c\<close> \<open>v = 0\<close> show "u + t = 256 \<and> v = 0" by simp
    next
      assume "u + t = 256 \<and> v = 0"
      then show "u * c + v + t * c = 256 * c" by (metis add.right_neutral add_mult_distrib)
    qed
    then show ?thesis
      using that split mask_bits_value [of b p] by (simp add: be_value_Cons c_def v_def t_def u_def)
  qed
  have all: "(\<exists>p \<le> 8 * length (b # bs). P p) \<longleftrightarrow> (\<exists>p < 8. P p) \<or> (\<exists>p \<le> 8 * ?k. P (8 + p))" for P
  proof
    assume "\<exists>p \<le> 8 * length (b # bs). P p"
    then obtain p where p: "p \<le> 8 * length (b # bs)" "P p" by blast
    show "(\<exists>p < 8. P p) \<or> (\<exists>p \<le> 8 * ?k. P (8 + p))"
    proof (cases "p < 8")
      case False
      with p have "p - 8 \<le> 8 * ?k" "P (8 + (p - 8))" by simp_all
      then show ?thesis by blast
    qed (use p in blast)
  next
    assume "(\<exists>p < 8. P p) \<or> (\<exists>p \<le> 8 * ?k. P (8 + p))"
    then show "\<exists>p \<le> 8 * length (b # bs). P p"
      by (auto intro: less_imp_le exI [of _ "8 + p" for p] elim: order_less_le_trans)
        (metis add_Suc add_le_mono1 le_add1 less_imp_le order_trans plus_1_eq_Suc)
  qed
  have "(\<exists>p. p \<le> 8 * length (b # bs) \<and> len = n + p \<and>
      be_value (b # bs) + 2 ^ (8 * length (b # bs) - p) = 256 ^ length (b # bs)) \<longleftrightarrow>
    (\<exists>p < 8. len = n + p \<and> mask_bits b = Some p \<and> be_value bs = 0) \<or>
    (\<exists>p \<le> 8 * ?k. len = n + (8 + p) \<and> b = 255 \<and> be_value bs + 2 ^ (8 * ?k - p) = 256 ^ ?k)" (is "?spec \<longleftrightarrow> _")
    unfolding all using long short by blast
  moreover have "mask_bits b = Some j \<Longrightarrow> j < 8 \<and> b \<noteq> 255" for j
    using mask_bits_value [of b j] by auto
  ultimately have "?spec \<longleftrightarrow> netmask_loop (b # bs) False n = Inr len"
    using Cons.IH [of "n + 8"]
    by (auto simp: netmask_loop_true be_value_zero simp del: mask_bits.simps split: option.split)
  then show ?case by simp
qed

lemma and_not_mask_eq:
  "a AND NOT (mask k) = b AND NOT (mask k) \<longleftrightarrow> drop_bit k a = drop_bit k (b :: 'w::len word)"
proof -
  have "bit w i \<longleftrightarrow> i < LENGTH('w) \<and> bit w i" for w :: "'w word" and i
    by (auto dest: bit_imp_le_length)
  then show ?thesis
    by (auto simp: drop_bit_eq_iff bit_eq_iff [of "_ AND _"] bit_and_iff bit_not_iff bit_mask_iff not_less)
qed

lemma not_mask_value: "k \<le> 32 \<Longrightarrow> unat (NOT (mask k) :: u32) + 2 ^ k = 2 ^ 32"
proof -
  have "unat (- 1 :: u32) + 1 = 2 ^ 32" by (simp add: unsigned_minus_1_eq_mask mask_eq_exp_minus_1)
  then show "k \<le> 32 \<Longrightarrow> ?thesis" using same_prefix_interval(2) [of "32 - k" "- 1 :: u32"] by simp
qed

lemma netmask_value_inject:
  "k \<le> 32 \<Longrightarrow> unat (w :: u32) + 2 ^ k = 2 ^ 32 \<longleftrightarrow> w = NOT (mask k)"
  using not_mask_value [of k] by (auto simp: word_unat_eq_iff)

lemma v4_network_of_netmask_iff:
  "v4_network_of_netmask a m = Inr n \<longleftrightarrow>
    (\<exists>p \<le> 32. m = v4_netmask (Network_v4 a p) \<and> n = Network_v4 a p)"
proof -
  have mask: "m = v4_netmask (Network_v4 a p) \<longleftrightarrow> unat (v4_uint m) + 2 ^ (32 - p) = 2 ^ 32" if "p \<le> 32" for p
    using that netmask_value_inject [of "32 - p" "v4_uint m"]
    by (metis v4_netmask_uint v4_uint_inject diff_le_self network_v4.sel(2))
  have loop: "netmask_loop (v4_bytes m) False 0 = Inr p \<longleftrightarrow> p \<le> 32 \<and> unat (v4_uint m) + 2 ^ (32 - p) = 2 ^ 32" for p
    by (auto simp: netmask_loop_value be_value_v4_bytes)
  have "v4_network_of_netmask a m = Inr n \<longleftrightarrow> (\<exists>p. netmask_loop (v4_bytes m) False 0 = Inr p \<and> n = Network_v4 a p)"
    by (auto simp: v4_network_of_netmask_def split: sum.splits)
  then show ?thesis using mask loop by blast
qed

lemma v4_canonical_value:
  "v4_prefix_length n \<le> 32 \<Longrightarrow> v4_canonical n = Inr (Network_v4 (v4_network n) (v4_prefix_length n))"
  unfolding v4_canonical_def v4_network_of_netmask_iff by (auto simp: v4_netmask_def)

lemma v4_subnet_value:
  assumes "v4_prefix_length n \<le> 32" "v4_prefix_length m \<le> 32"
  shows "v4_is_subnet_of n m = Inr (v4_prefix_length m < v4_prefix_length n \<and>
    same_prefix (v4_prefix_length m) (v4_uint (v4_address n)) (v4_uint (v4_address m)))"
proof (cases "v4_prefix_length m < v4_prefix_length n")
  case True
  let ?q = "v4_prefix_length m"
  have "v4_network (Network_v4 (v4_address n) ?q) = v4_network m \<longleftrightarrow>
    v4_uint (v4_address n) AND NOT (mask (32 - ?q)) = v4_uint (v4_address m) AND NOT (mask (32 - ?q))"
    using assms by (simp add: v4_network_uint flip: v4_uint_inject)
  also have "\<dots> \<longleftrightarrow> same_prefix ?q (v4_uint (v4_address n)) (v4_uint (v4_address m))"
    by (simp add: and_not_mask_eq same_prefix_def)
  finally show ?thesis
    using True assms by (auto simp: v4_is_subnet_of_def v4_network_of_prefix_def v4_canonical_value)
qed (simp add: v4_is_subnet_of_def)

lemma unat_between:
  "unat lo \<le> unat hi \<Longrightarrow> unat (x - lo) < unat (hi - lo) \<longleftrightarrow> lo \<le> x \<and> x < (hi :: 'w::len word)"
proof -
  assume le: "unat lo \<le> unat hi"
  have hi: "unat hi < 2 ^ LENGTH('w)" by (rule unsigned_less)
  show ?thesis
  proof (cases "unat lo \<le> unat x")
    case True
    then show ?thesis using le by (auto simp: unat_sub_if' word_le_nat_alt word_less_nat_alt)
  next
    case False
    then have "unat (x - lo) = unat x + 2 ^ LENGTH('w) - unat lo" by (simp add: unat_sub_if')
    moreover have "unat (hi - lo) = unat hi - unat lo" using le by (simp add: unat_sub_if')
    moreover have "unat hi - unat lo \<le> unat x + 2 ^ LENGTH('w) - unat lo" using hi by linarith
    ultimately show ?thesis using False by (simp add: word_le_nat_alt)
  qed
qed

text \<open>The bytes of the first and the last address of an IPv6 network.\<close>

lemma length_bytes_loop [simp]: "length (bytes_loop f i bs) = length bs"
  by (induction bs arbitrary: i) simp_all

lemma nth_bytes_loop: "j < length bs \<Longrightarrow> bytes_loop f i bs ! j = f (i + j) (bs ! j)"
  by (induction bs arbitrary: i j) (simp_all add: nth_Cons split: nat.split)

lemma shifted_masks:
  assumes "m < 8" "r < 8"
  shows "bit (of_nat (drop_bit m 0xFF00) :: byte) r \<longleftrightarrow> 8 - m \<le> r"
    and "bit (of_nat (drop_bit m 0xFF) :: byte) r \<longleftrightarrow> r < 8 - m"
proof -
  have word: "bit (of_nat n :: byte) r \<longleftrightarrow> bit n r" for n
    using assms(2) by (simp add: bit_of_nat_iff)
  have "(0xFF00 :: nat) = push_bit 8 (mask 8)" "(0xFF :: nat) = mask 8"
    by (simp_all add: mask_eq_exp_minus_1 push_bit_eq_mult)
  then have "bit (0xFF00 :: nat) n \<longleftrightarrow> 8 \<le> n \<and> n - 8 < 8" "bit (0xFF :: nat) n \<longleftrightarrow> n < 8" for n
    by (simp_all only: bit_push_bit_iff bit_mask_iff possible_bit_nat simp_thms)
  then show "bit (of_nat (drop_bit m 0xFF00) :: byte) r \<longleftrightarrow> 8 - m \<le> r"
    "bit (of_nat (drop_bit m 0xFF) :: byte) r \<longleftrightarrow> r < 8 - m"
    using assms by (auto simp: word bit_drop_bit_eq)
qed

lemma byte_bits:
  assumes "r < 8"
  shows "bit (low_byte p j b) r \<longleftrightarrow> bit b r \<and> 8 * Suc j \<le> p + r"
    and "bit (high_byte p j b) r \<longleftrightarrow> bit b r \<or> p + r < 8 * Suc j"
proof -
  have m: "p mod 8 = p - j * 8" if "\<not> p \<le> j * 8" "p < (j + 1) * 8"
  proof -
    have "p = (p - j * 8) + j * 8" "p - j * 8 < 8" using that by simp_all
    then show ?thesis by (metis mod_less mod_mult_self1)
  qed
  have ones: "(0xFF :: byte) = - 1" by simp
  then have f: "bit (0xFF :: byte) r" using assms by (simp only: ones bit_minus_1_iff) simp
  show "bit (low_byte p j b) r \<longleftrightarrow> bit b r \<and> 8 * Suc j \<le> p + r"
    using assms m shifted_masks(1) [of "p mod 8" r] by (auto simp: low_byte_def bit_and_iff)
  show "bit (high_byte p j b) r \<longleftrightarrow> bit b r \<or> p + r < 8 * Suc j"
    using assms m f shifted_masks(2) [of "p mod 8" r] by (auto simp: high_byte_def bit_or_iff)
qed

lemma v6_bytes_uint:
  assumes "length bs = 16" "p \<le> 128"
  shows "v6_uint (v6_of_bytes (bytes_loop (low_byte p) 0 bs) s) = v6_uint (v6_of_bytes bs s) AND NOT (mask (128 - p))"
    and "v6_uint (v6_of_bytes (bytes_loop (high_byte p) 0 bs) s) = v6_uint (v6_of_bytes bs s) OR mask (128 - p)"
proof -
  have bits: "bit (v6_uint (v6_of_bytes xs s)) i \<longleftrightarrow> bit (xs ! (15 - i div 8)) (i mod 8)"
    if "length xs = 16" "i < 128" for xs i
    using that by (simp add: v6_uint_def v6_of_bytes_def bit_of_nat_iff bit_be_value) (simp add: less_mult_imp_div_less)
  have pos: "8 * Suc (15 - i div 8) \<le> p + i mod 8 \<longleftrightarrow> 128 - p \<le> i" if "i < 128" for i
  proof -
    have "8 * Suc (15 - q) \<le> p + r \<longleftrightarrow> 128 - p \<le> 8 * q + r" if "q \<le> 15" "r < 8" for q r
      using that assms(2) by arith
    from this [of "i div 8" "i mod 8"] that show ?thesis by simp
  qed
  show "v6_uint (v6_of_bytes (bytes_loop (low_byte p) 0 bs) s) = v6_uint (v6_of_bytes bs s) AND NOT (mask (128 - p))"
    using assms by (intro bit_word_eqI)
      (auto simp: bits nth_bytes_loop byte_bits pos [simplified] bit_and_iff bit_not_iff bit_mask_iff not_less)
  show "v6_uint (v6_of_bytes (bytes_loop (high_byte p) 0 bs) s) = v6_uint (v6_of_bytes bs s) OR mask (128 - p)"
    using assms by (intro bit_word_eqI)
      (auto simp: bits nth_bytes_loop byte_bits bit_or_iff bit_mask_iff pos [simplified] simp flip: not_le)
qed

lemma v6_of_bytes_id: "v6_of_bytes (s6_addr a) (scope_id a) = a"
  by (simp add: v6_of_bytes_def)

lemma v6_network_uint:
  assumes "v6_ok (v6_address n)" "v6_prefix_length n \<le> 128"
  shows "v6_ok (v6_network n)" "scope_id (v6_network n) = scope_id (v6_address n)"
    "v6_uint (v6_network n) = v6_uint (v6_address n) AND NOT (mask (128 - v6_prefix_length n))"
  using assms v6_bytes_uint(1) [of "s6_addr (v6_address n)" "v6_prefix_length n" "scope_id (v6_address n)"]
  by (simp_all add: v6_network_def v6_of_bytes_id) (simp_all add: v6_ok_def v6_of_bytes_def)

lemma v6_equal_iff: "v6_ok a \<Longrightarrow> v6_ok b \<Longrightarrow> v6_equal a b \<longleftrightarrow> v6_uint a = v6_uint b \<and> scope_id a = scope_id b"
  by (auto simp: v6_equal_def v6_memcmp word_unat_eq_iff)

lemma v6_subnet_value:
  assumes "v6_ok (v6_address n)" "v6_ok (v6_address m)" "v6_prefix_length n \<le> 128" "v6_prefix_length m \<le> 128"
  shows "v6_is_subnet_of n m = Inr (v6_prefix_length m < v6_prefix_length n \<and>
    same_prefix (v6_prefix_length m) (v6_uint (v6_address n)) (v6_uint (v6_address m)) \<and>
    scope_id (v6_address n) = scope_id (v6_address m))"
proof (cases "v6_prefix_length m < v6_prefix_length n")
  case True
  let ?me = "Network_v6 (v6_address n) (v6_prefix_length m)"
  have "v6_equal (v6_network m) (v6_network ?me) \<longleftrightarrow>
    same_prefix (v6_prefix_length m) (v6_uint (v6_address n)) (v6_uint (v6_address m)) \<and>
    scope_id (v6_address n) = scope_id (v6_address m)"
    using assms v6_network_uint [of m] v6_network_uint [of ?me]
    by (auto simp: v6_equal_iff and_not_mask_eq same_prefix_def)
  then show ?thesis
    using True assms by (simp add: v6_is_subnet_of_def v6_network_of_prefix_def v6_canonical_def)
qed (simp add: v6_is_subnet_of_def)

text \<open>Every word is the value of an address.\<close>

lemma v6_of_word: "\<exists>a. v6_ok a \<and> v6_uint a = w \<and> scope_id a = s"
proof -
  let ?a = "Address_v6 (rev (le_bytes 16 (unat w))) s"
  have "unat w < 256 ^ 16" using unsigned_less [of w, where ?'a = nat] by simp
  then have "v6_uint ?a = w" by (simp add: v6_uint_def be_value_def le_value_le_bytes)
  then show ?thesis by (intro exI [of _ ?a]) (simp add: v6_ok_def)
qed

section \<open>Properties\<close>

text \<open>The addresses of a network: those that agree with its address in the prefix.\<close>

definition v4_network_ok :: "network_v4 \<Rightarrow> bool" where
  "v4_network_ok n \<longleftrightarrow> v4_prefix_length n \<le> 32"

definition v4_contains :: "network_v4 \<Rightarrow> address_v4 \<Rightarrow> bool" where
  "v4_contains n x \<longleftrightarrow> same_prefix (v4_prefix_length n) (v4_uint (v4_address n)) (v4_uint x)"

definition v6_network_ok :: "network_v6 \<Rightarrow> bool" where
  "v6_network_ok n \<longleftrightarrow> v6_ok (v6_address n) \<and> v6_prefix_length n \<le> 128"

definition v6_contains :: "network_v6 \<Rightarrow> address_v6 \<Rightarrow> bool" where
  "v6_contains n x \<longleftrightarrow> v6_ok x \<and> scope_id x = scope_id (v6_address n) \<and>
    same_prefix (v6_prefix_length n) (v6_uint (v6_address n)) (v6_uint x)"

lemma v4_contains_interval:
  assumes "v4_network_ok n"
  shows "v4_contains n x \<longleftrightarrow> v4_network n \<le> x \<and> x \<le> v4_network_broadcast n"
    and "unat (v4_uint (v4_network_broadcast n)) + 1 = unat (v4_uint (v4_network n)) + 2 ^ (32 - v4_prefix_length n)"
  using assms same_prefix_interval [of "v4_prefix_length n" "v4_uint (v4_address n)"]
  by (simp_all add: v4_network_ok_def v4_contains_def v4_order_defs v4_network_uint)

text \<open>
  The netmask constructor of an IPv4 network accepts exactly the netmasks of the 33 prefix
  lengths and recovers the length from the mask; every other mask, contiguous or not, makes it
  throw.\<close>

theorem netmask_determines_prefix:
  "(v4_network_of_netmask a m = Inr n) =
    (\<exists>p. p \<le> 32 \<and> v4_network_of_prefix a p = Inr n \<and> m = v4_netmask n)"
proof -
  have "v4_network_of_prefix a p = Inr n \<longleftrightarrow> n = Network_v4 a p" if "p \<le> 32" for p
    using that by (auto simp: v4_network_of_prefix_def)
  then show ?thesis unfolding v4_network_of_netmask_iff by blast
qed

text \<open>
  Network and broadcast address bound an IPv4 network, and its hosts, walked with the
  iterator, are its addresses without these two, each once; a network of one address has that
  host, and with 31 bits of prefix there is none. \<open>size\<close> is their number.\<close>

theorem v4_hosts_are_walked:
  assumes "v4_network_ok n"
  shows "v4_contains n x = (v4_network n \<le> x \<and> x \<le> v4_network_broadcast n) \<and>
    (\<exists>hs. walk (2 ^ 32) v4_increment (range_begin (v4_hosts n)) (range_end (v4_hosts n)) = Some hs \<and>
      distinct hs \<and> length hs = v4_range_size (v4_hosts n) \<and>
      set hs = (if v4_is_host n then {v4_address n}
        else {y. v4_contains n y} - {v4_network n, v4_network_broadcast n}))"
proof
  show "v4_contains n x = (v4_network n \<le> x \<and> x \<le> v4_network_broadcast n)"
    by (rule v4_contains_interval(1) [OF assms])
  let ?b = "v4_uint (range_begin (v4_hosts n))" and ?e = "v4_uint (range_end (v4_hosts n))"
  have "unat (?e - ?b) < 2 ^ 32"
    using unsigned_less [of "?e - ?b", where ?'a = nat] by simp
  then obtain hs where hs: "walk (2 ^ 32) v4_increment (range_begin (v4_hosts n)) (range_end (v4_hosts n)) = Some hs"
    "length hs = unat (?e - ?b)" "distinct hs" "\<And>y. y \<in> set hs \<longleftrightarrow> unat (v4_uint y - ?b) < unat (?e - ?b)"
    using v4.walk_counts [where a = "range_begin (v4_hosts n)" and e = "range_end (v4_hosts n)" and n = "2 ^ 32"]
    by auto
  have "set hs = (if v4_is_host n then {v4_address n} else {y. v4_contains n y} - {v4_network n, v4_network_broadcast n})"
  proof (cases "v4_is_host n")
    case True
    then show ?thesis
      using hs(4) by (auto simp: v4_hosts_def unat_eq_0 v4_uint_inject)
  next
    case False
    note bc = v4_contains_interval(2) [OF assms]
    have "v4_prefix_length n < 32" using False assms by (simp add: v4_is_host_def v4_network_ok_def)
    then have "(2 :: nat) ^ 1 \<le> 2 ^ (32 - v4_prefix_length n)" by (intro power_increasing) simp_all
    with bc have lt: "unat (v4_uint (v4_network n)) < unat (v4_uint (v4_network_broadcast n))" by simp
    then have "unat (v4_uint (v4_network n) + 1) = unat (v4_uint (v4_network n)) + 1"
      using unat_u32_bound [of "v4_uint (v4_network_broadcast n)"] by (simp add: unat_word_ariths)
    with lt show ?thesis
      using hs(4) False unat_between [of ?b ?e] v4_contains_interval(1) [OF assms]
      by (auto simp: v4_hosts_def v4_order_defs word_le_nat_alt word_less_nat_alt set_eq_iff
          word_unat_eq_iff simp flip: v4_uint_inject)
  qed
  with hs show "\<exists>hs. walk (2 ^ 32) v4_increment (range_begin (v4_hosts n)) (range_end (v4_hosts n)) = Some hs \<and>
      distinct hs \<and> length hs = v4_range_size (v4_hosts n) \<and>
      set hs = (if v4_is_host n then {v4_address n}
        else {y. v4_contains n y} - {v4_network n, v4_network_broadcast n})"
    by (auto simp: v4_range_size_def)
qed

lemma v6_hosts_bounds:
  assumes "v6_network_ok n"
  defines "k \<equiv> 128 - v6_prefix_length n"
  shows "range_begin (v6_hosts n) = v6_network n"
    and "v6_ok (range_end (v6_hosts n))" "scope_id (range_end (v6_hosts n)) = scope_id (v6_address n)"
    and "v6_uint (range_end (v6_hosts n)) = (v6_uint (v6_address n) OR mask k) + 1"
proof -
  let ?high = "v6_of_bytes (bytes_loop (high_byte (v6_prefix_length n)) 0 (s6_addr (v6_address n))) (scope_id (v6_address n))"
  show "range_begin (v6_hosts n) = v6_network n"
    by (simp add: v6_hosts_def Let_def v6_network_def)
  have fin: "range_end (v6_hosts n) = v6_increment ?high" by (simp add: v6_hosts_def Let_def)
  have ok: "v6_ok ?high" using assms(1) by (simp add: v6_ok_def v6_of_bytes_def v6_network_ok_def)
  have "v6_uint ?high = v6_uint (v6_address n) OR mask k"
    using assms v6_bytes_uint(2) [of "s6_addr (v6_address n)" "v6_prefix_length n" "scope_id (v6_address n)"]
    by (simp add: v6_network_ok_def v6_of_bytes_id) (simp add: v6_ok_def)
  with fin ok show "v6_ok (range_end (v6_hosts n))" "scope_id (range_end (v6_hosts n)) = scope_id (v6_address n)"
    "v6_uint (range_end (v6_hosts n)) = (v6_uint (v6_address n) OR mask k) + 1"
    by (simp_all add: v6_step v6_increment_scope) (simp add: v6_of_bytes_def)
qed

text \<open>
  C36. The hosts of an IPv6 network, walked with the iterator, are exactly its addresses, each
  once, \<open>2 ^ (128 - p)\<close> of them for prefix length \<open>p\<close>, also where the range ends by wrapping
  to zero; only for prefix length 0 the wrap makes the end equal to the beginning, and the range
  of all addresses is empty.\<close>

theorem v6_hosts_are_walked:
  assumes "v6_network_ok n"
  shows "v6_range_empty (v6_hosts n) = (v6_prefix_length n = 0) \<and>
    (\<exists>hs. walk (2 ^ 128) v6_increment (range_begin (v6_hosts n)) (range_end (v6_hosts n)) = Some hs \<and>
      distinct hs \<and>
      length hs = (if v6_prefix_length n = 0 then 0 else 2 ^ (128 - v6_prefix_length n)) \<and>
      set hs = (if v6_prefix_length n = 0 then {} else {y. v6_contains n y}))"
proof -
  define k where "k = 128 - v6_prefix_length n"
  let ?a = "v6_uint (v6_address n)"
  let ?lo = "?a AND NOT (mask k)" and ?hi = "?a OR mask k"
  note range = v6_hosts_bounds [OF assms, folded k_def]
  have n: "v6_ok (v6_address n)" "v6_prefix_length n \<le> 128" using assms by (simp_all add: v6_network_ok_def)
  note net = v6_network_uint [OF n, folded k_def]
  have width: "unat ?hi + 1 = unat ?lo + 2 ^ k"
    and interval: "\<And>x. same_prefix (v6_prefix_length n) ?a x \<longleftrightarrow> ?lo \<le> x \<and> x \<le> ?hi"
    using same_prefix_interval [of "v6_prefix_length n" ?a] n(2) by (simp_all add: k_def)
  have "(1 :: nat) \<le> 2 ^ k" by simp
  with width have le: "unat ?lo \<le> unat ?hi" by linarith
  with width have dist: "unat (?hi - ?lo) = 2 ^ k - 1" by (simp add: unat_sub_if')
  have size: "unat (?hi + 1 - ?lo) = (if v6_prefix_length n = 0 then 0 else 2 ^ k)"
  proof (cases "v6_prefix_length n = 0")
    case True
    then have "mask k = (- 1 :: 128 word)" by (simp add: k_def minus_1_eq_mask)
    then show ?thesis using True by simp
  next
    case False
    then have "(2 :: nat) ^ k \<le> 2 ^ 127" using n(2) by (intro power_increasing) (simp_all add: k_def)
    moreover have "unat (?hi + 1 - ?lo) = unat ((?hi - ?lo) + 1)" by (simp add: algebra_simps)
    moreover have "unat ((?hi - ?lo) + 1) = (unat (?hi - ?lo) + 1) mod 2 ^ 128"
      by (simp only: unat_word_ariths(1) unsigned_1) simp
    ultimately show ?thesis using False dist by simp
  qed
  have fuel: "unat (v6_uint (range_end (v6_hosts n)) - v6_uint (range_begin (v6_hosts n))) \<le> 2 ^ 128"
    by (rule less_imp_le) (use unsigned_less [where ?'a = nat and ?'b = 128] in simp)
  obtain hs where hs: "walk (2 ^ 128) v6_increment (range_begin (v6_hosts n)) (range_end (v6_hosts n)) = Some hs"
    "length hs = unat (?hi + 1 - ?lo)" "distinct hs"
    "\<And>y. y \<in> set hs \<longleftrightarrow> v6_ok y \<and> scope_id y = scope_id (v6_address n) \<and> unat (v6_uint y - ?lo) < unat (?hi + 1 - ?lo)"
    using v6.walk_counts [OF _ _ _ fuel] range net by auto
  have "unat (x - ?lo) < 2 ^ k \<longleftrightarrow> ?lo \<le> x \<and> x \<le> ?hi" for x
  proof -
    have "unat (x - ?lo) < 2 ^ k \<longleftrightarrow> unat (x - ?lo) < unat (?hi - ?lo) \<or> unat (x - ?lo) = unat (?hi - ?lo)"
      using dist by auto
    also have "\<dots> \<longleftrightarrow> ?lo \<le> x \<and> x < ?hi \<or> x = ?hi"
      using unat_between [of ?lo ?hi x] le by (simp flip: word_unat_eq_iff)
    also have "\<dots> \<longleftrightarrow> ?lo \<le> x \<and> x \<le> ?hi"
      using le by (auto simp: word_le_nat_alt word_less_nat_alt word_unat_eq_iff)
    finally show ?thesis .
  qed
  then have "set hs = (if v6_prefix_length n = 0 then {} else {y. v6_contains n y})"
    using hs(2,4) size interval by (cases "v6_prefix_length n = 0") (simp, auto simp: v6_contains_def)
  moreover have "v6_range_empty (v6_hosts n) \<longleftrightarrow> v6_prefix_length n = 0"
  proof -
    have "v6_range_empty (v6_hosts n) \<longleftrightarrow> ?lo = ?hi + 1"
      using range net by (simp add: v6_range_empty_def v6_equal_iff)
    also have "\<dots> \<longleftrightarrow> unat (?hi + 1 - ?lo) = 0" by (simp add: unat_eq_0) argo
    finally show ?thesis using size by simp
  qed
  ultimately show ?thesis using hs size by (auto simp: k_def)
qed

text \<open>
  \<open>is_subnet_of\<close> never throws and is strict inclusion: it answers whether the addresses of
  the first network are a strict subset of those of the second, for both families, the scope of
  IPv6 addresses included.\<close>

theorem subnet_is_strict_inclusion:
  assumes "v4_network_ok n" "v4_network_ok m" "v6_network_ok n'" "v6_network_ok m'"
  shows "v4_is_subnet_of n m = Inr ({x. v4_contains n x} \<subset> {x. v4_contains m x}) \<and>
    v6_is_subnet_of n' m' = Inr ({x. v6_contains n' x} \<subset> {x. v6_contains m' x})"
proof
  have lift4: "{x. P (v4_uint x)} \<subset> {x. Q (v4_uint x)} \<longleftrightarrow> {w. P w} \<subset> {w. Q w}" for P Q
  proof -
    have "{x. P (v4_uint x)} \<subseteq> {x. Q (v4_uint x)} \<longleftrightarrow> {w. P w} \<subseteq> {w. Q w}" for P Q
      by (auto simp: subset_eq) (metis v4_uint_of_uint)
    then show ?thesis unfolding less_le_not_le by simp
  qed
  show "v4_is_subnet_of n m = Inr ({x. v4_contains n x} \<subset> {x. v4_contains m x})"
    using assms(1,2) prefix_subset [where p = "v4_prefix_length n" and q = "v4_prefix_length m" and
        a = "v4_uint (v4_address n)" and b = "v4_uint (v4_address m)"]
    by (simp add: v4_network_ok_def v4_subnet_value v4_contains_def lift4)
  have "{x. v6_contains n' x} \<subset> {x. v6_contains m' x} \<longleftrightarrow> v6_prefix_length m' < v6_prefix_length n' \<and>
    same_prefix (v6_prefix_length m') (v6_uint (v6_address n')) (v6_uint (v6_address m')) \<and>
    scope_id (v6_address n') = scope_id (v6_address m')"
  proof (cases "scope_id (v6_address n') = scope_id (v6_address m')")
    case True
    have lift6: "{x. v6_ok x \<and> scope_id x = s \<and> P (v6_uint x)} \<subset> {x. v6_ok x \<and> scope_id x = s \<and> Q (v6_uint x)}
        \<longleftrightarrow> {w. P w} \<subset> {w. Q w}" for P Q s
    proof -
      have "{x. v6_ok x \<and> scope_id x = s \<and> P (v6_uint x)} \<subseteq> {x. v6_ok x \<and> scope_id x = s \<and> Q (v6_uint x)}
          \<longleftrightarrow> {w. P w} \<subseteq> {w. Q w}" for P Q
        by (auto simp: subset_eq) (metis v6_of_word)
      then show ?thesis unfolding less_le_not_le by simp
    qed
    show ?thesis
      using True assms(3,4) prefix_subset [where p = "v6_prefix_length n'" and q = "v6_prefix_length m'" and
          a = "v6_uint (v6_address n')" and b = "v6_uint (v6_address m')"]
      by (simp add: v6_network_ok_def v6_contains_def lift6)
  next
    case False
    have "v6_contains n' (v6_address n')"
      using assms(3) by (simp add: v6_contains_def v6_network_ok_def same_prefix_def)
    moreover have "\<not> v6_contains m' (v6_address n')"
      using False by (simp add: v6_contains_def)
    ultimately show ?thesis using False by blast
  qed
  then show "v6_is_subnet_of n' m' = Inr ({x. v6_contains n' x} \<subset> {x. v6_contains m' x})"
    using assms(3,4) by (simp add: v6_network_ok_def v6_subnet_value)
qed

section \<open>Witnesses\<close>

text \<open>192.168.1.77/30 inside 192.168.0.0/16, and a link-local /126.\<close>

definition office :: network_v4 where
  "office = Network_v4 (v4_of_uint 0xC0A8014D) 30"

definition campus :: network_v4 where
  "campus = Network_v4 (v4_of_uint 0xC0A80000) 16"

definition link :: network_v6 where
  "link = Network_v6 (Address_v6 [0xFE, 0x80, 0, 0, 0, 0, 0, 0, 0, 0, 0, 0, 0, 0, 0, 5] 3) 126"

definition links :: network_v6 where
  "links = Network_v6 (Address_v6 [0xFE, 0x80, 0, 0, 0, 0, 0, 0, 0, 0, 0, 0, 0, 0, 0, 0] 3) 10"

lemma example_networks: "v4_network_ok office" "v4_network_ok campus" "v6_network_ok link" "v6_network_ok links"
  by (simp_all add: v4_network_ok_def v6_network_ok_def v6_ok_def office_def campus_def link_def links_def)

theorem v4_hosts_are_walked_witness:
  "\<exists>hs. walk (2 ^ 32) v4_increment (range_begin (v4_hosts office)) (range_end (v4_hosts office)) = Some hs \<and>
    length hs = 2"
  using v4_hosts_are_walked [OF example_networks(1), of v4_any]
  by (simp add: v4_range_size_def v4_hosts_def v4_is_host_def office_def v4_network_uint v4_network_ok_def mask_numeral)
    blast

theorem v6_hosts_are_walked_witness:
  "\<exists>hs. walk (2 ^ 128) v6_increment (range_begin (v6_hosts link)) (range_end (v6_hosts link)) = Some hs \<and>
    length hs = 4"
  using v6_hosts_are_walked [OF example_networks(3)] by (auto simp: link_def)

theorem subnet_is_strict_inclusion_witness:
  "v4_is_subnet_of office campus = Inr True \<and> {x. v4_contains office x} \<subset> {x. v4_contains campus x}"
proof -
  have "v4_is_subnet_of office campus = Inr True"
    by (simp add: v4_subnet_value office_def campus_def same_prefix_def)
  then show ?thesis using subnet_is_strict_inclusion [OF example_networks] by simp
qed

end
