(* ===== verification/Asio_Network_Text.thy ===== *)
theory Asio_Network_Text
  imports Asio_Network
begin

text \<open>
  Addresses and networks as text: \<open>inet_ntop\<close> and \<open>inet_pton\<close> of \<open>detail/impl/socket_ops.ipp\<close>
  in their POSIX form, with the scope of an IPv6 address that they print and read themselves,
  \<open>to_string\<close> and \<open>make_address\<close> of the address classes, and \<open>to_string\<close> and \<open>make_network\<close> of
  the network classes. The functions of the operating system they call are parameters:
  \<open>::inet_ntop\<close> and \<open>::inet_pton\<close> of both families with the value of \<open>errno\<close> they leave,
  \<open>if_indextoname\<close> (no name for an unknown index) and \<open>if_nametoindex\<close> (0 for an unknown name).
\<close>

section \<open>The operating system and the C library\<close>

record os_inet =
  os_ntop4 :: "byte list \<Rightarrow> string option \<times> error_code"
  os_pton4 :: "string \<Rightarrow> byte list option \<times> error_code"
  os_ntop6 :: "byte list \<Rightarrow> string option \<times> error_code"
  os_pton6 :: "string \<Rightarrow> byte list option \<times> error_code"
  if_indextoname :: "nat \<Rightarrow> string option"
  if_nametoindex :: "string \<Rightarrow> nat"

definition is_digit :: "char \<Rightarrow> bool" where
  "is_digit c \<longleftrightarrow> 48 \<le> (of_char c :: nat) \<and> (of_char c :: nat) \<le> 57"

definition dec_value :: "string \<Rightarrow> nat" where
  "dec_value ds = foldl (\<lambda>v c. 10 * v + (of_char c - 48)) 0 ds"

text \<open>
  \<open>atoi\<close>: white space, a sign and decimal digits, the rest is ignored. The behaviour is
  undefined (\<open>None\<close>) when the value is not one of \<open>int\<close>.
\<close>

definition is_space :: "char \<Rightarrow> bool" where
  "is_space c \<longleftrightarrow> c = CHR '' '' \<or> 9 \<le> (of_char c :: nat) \<and> (of_char c :: nat) \<le> 13"

definition atoi :: "string \<Rightarrow> int option" where
  "atoi str =
    (let s = dropWhile is_space str;
         neg = (s \<noteq> [] \<and> hd s = CHR ''-'');
         t = (if s \<noteq> [] \<and> (hd s = CHR ''-'' \<or> hd s = CHR ''+'') then tl s else s);
         m = int (dec_value (takeWhile is_digit t));
         v = (if neg then - m else m)
     in if - 2147483648 \<le> v \<and> v \<le> 2147483647 then Some v else None)"

text \<open>\<open>get_last_error(ec, true)\<close> takes \<open>errno\<close>; a failure without one is \<open>invalid_argument\<close>.\<close>

definition call_error :: "'a option \<Rightarrow> error_code \<Rightarrow> error_code" where
  "call_error result errno = (if result = None \<and> errno = Success then Invalid_argument else errno)"

section \<open>Addresses\<close>

text \<open>\<open>INET6_ADDRSTRLEN + 1 + IF_NAMESIZE\<close> on the POSIX platforms.\<close>

definition max_addr_v6_str_len :: nat where
  "max_addr_v6_str_len = 46 + 1 + 16"

definition inet_ntop_v4 :: "os_inet \<Rightarrow> byte list \<Rightarrow> string option \<times> error_code" where
  "inet_ntop_v4 os src = (case os_ntop4 os src of (result, errno) \<Rightarrow> (result, call_error result errno))"

definition inet_ntop_v6 :: "os_inet \<Rightarrow> byte list \<Rightarrow> u64 \<Rightarrow> string option \<times> error_code" where
  "inet_ntop_v6 os src scope =
    (case os_ntop6 os src of (result, errno) \<Rightarrow>
      (case result of
         None \<Rightarrow> (None, call_error result errno)
       | Some dest \<Rightarrow>
           (if scope \<noteq> 0 then
              (let link_local = (src ! 0 = 0xfe \<and> src ! 1 AND 0xc0 = 0x80);
                   multicast_link_local = (src ! 0 = 0xff \<and> src ! 1 AND 0x0f = 0x02);
                   name = (if \<not> link_local \<and> \<not> multicast_link_local then None
                           else if_indextoname os (unat (ucast scope :: u32)))
               in (Some (dest @ CHR ''%'' #
                     (case name of None \<Rightarrow> show_nat (unat scope) | Some if_name \<Rightarrow> if_name)),
                   call_error result errno))
            else (Some dest, call_error result errno))))"

definition v4_to_string :: "os_inet \<Rightarrow> address_v4 \<Rightarrow> error_code + string" where
  "v4_to_string os a =
    (case inet_ntop_v4 os (v4_bytes a) of (None, ec) \<Rightarrow> Inl ec | (Some addr, ec) \<Rightarrow> Inr addr)"

definition v6_to_string :: "os_inet \<Rightarrow> address_v6 \<Rightarrow> error_code + string" where
  "v6_to_string os a =
    (case inet_ntop_v6 os (s6_addr a) (scope_id a) of (None, ec) \<Rightarrow> Inl ec | (Some addr, ec) \<Rightarrow> Inr addr)"

fun address_to_string :: "os_inet \<Rightarrow> address \<Rightarrow> error_code + string" where
  "address_to_string os (Ipv6 a) = v6_to_string os a"
| "address_to_string os (Ipv4 a) = v4_to_string os a"

definition inet_pton_v4 :: "os_inet \<Rightarrow> string \<Rightarrow> byte list option \<times> error_code" where
  "inet_pton_v4 os src = (case os_pton4 os src of (result, errno) \<Rightarrow> (result, call_error result errno))"

text \<open>
  The scope is what follows the first percent sign; it is cut off before the system reads the
  address. The result is \<open>None\<close> where \<open>atoi\<close> is undefined.
\<close>

definition read_scope :: "os_inet \<Rightarrow> byte list \<Rightarrow> string \<Rightarrow> u64 option" where
  "read_scope os dest if_name =
    (let link_local = (dest ! 0 = 0xfe \<and> dest ! 1 AND 0xc0 = 0x80);
         multicast_link_local = (dest ! 0 = 0xff \<and> dest ! 1 AND 0x0f = 0x02);
         scope = (if link_local \<or> multicast_link_local then if_nametoindex os if_name else 0)
     in if scope = 0 then map_option of_int (atoi if_name) else Some (of_nat scope))"

definition inet_pton_v6 :: "os_inet \<Rightarrow> string \<Rightarrow> ((byte list \<times> u64) option \<times> error_code) option" where
  "inet_pton_v6 os src =
    (let front = takeWhile (\<lambda>c. c \<noteq> CHR ''%'') src; scoped = CHR ''%'' \<in> set src in
     if scoped \<and> length front > max_addr_v6_str_len then Some (None, Invalid_argument)
     else case os_pton6 os front of (result, errno) \<Rightarrow>
       (case result of
          None \<Rightarrow> Some (None, call_error result errno)
        | Some dest \<Rightarrow>
            (if scoped then
               (case read_scope os dest (drop (length front + 1) src) of
                  None \<Rightarrow> None
                | Some scope \<Rightarrow> Some (Some (dest, scope), call_error result errno))
             else Some (Some (dest, 0), call_error result errno))))"

definition make_address_v4 :: "os_inet \<Rightarrow> string \<Rightarrow> address_v4 \<times> error_code" where
  "make_address_v4 os str =
    (case inet_pton_v4 os str of (None, ec) \<Rightarrow> (v4_any, ec) | (Some bytes, ec) \<Rightarrow> (v4_of_bytes bytes, ec))"

definition make_address_v6 :: "os_inet \<Rightarrow> string \<Rightarrow> (address_v6 \<times> error_code) option" where
  "make_address_v6 os str =
    (case inet_pton_v6 os str of
       None \<Rightarrow> None
     | Some (None, ec) \<Rightarrow> Some (v6_any, ec)
     | Some (Some (bytes, scope), ec) \<Rightarrow> Some (v6_of_bytes bytes scope, ec))"

definition make_address :: "os_inet \<Rightarrow> string \<Rightarrow> (address \<times> error_code) option" where
  "make_address os str =
    (case make_address_v6 os str of
       None \<Rightarrow> None
     | Some (ipv6_address, ec) \<Rightarrow>
         (if \<not> failed ec then Some (Ipv6 ipv6_address, ec)
          else case make_address_v4 os str of (ipv4_address, ec') \<Rightarrow>
            (if \<not> failed ec' then Some (Ipv4 ipv4_address, ec') else Some (address_default, ec'))))"

section \<open>Networks\<close>

definition v4_network_to_string :: "os_inet \<Rightarrow> network_v4 \<Rightarrow> error_code + string" where
  "v4_network_to_string os n =
    (case v4_to_string os (v4_address n) of
       Inl ec \<Rightarrow> Inl ec
     | Inr addr \<Rightarrow> Inr (addr @ CHR ''/'' # show_nat (v4_prefix_length n)))"

definition v6_network_to_string :: "os_inet \<Rightarrow> network_v6 \<Rightarrow> error_code + string" where
  "v6_network_to_string os n =
    (case v6_to_string os (v6_address n) of
       Inl ec \<Rightarrow> Inl ec
     | Inr addr \<Rightarrow> Inr (addr @ CHR ''/'' # show_nat (v6_prefix_length n)))"

definition default_network_v4 :: network_v4 where
  "default_network_v4 = Network_v4 v4_any 0"

definition default_network_v6 :: network_v6 where
  "default_network_v6 = Network_v6 v6_any 0"

text \<open>\<open>find_first_of("/")\<close>, \<open>find_first_not_of("0123456789", pos)\<close>: the length stands for \<open>npos\<close>.\<close>

definition find_slash :: "string \<Rightarrow> nat" where
  "find_slash str = length (takeWhile (\<lambda>c. c \<noteq> CHR ''/'') str)"

definition find_non_digit :: "string \<Rightarrow> nat \<Rightarrow> nat" where
  "find_non_digit str pos = pos + length (takeWhile is_digit (drop pos str))"

text \<open>The two parsers; \<open>None\<close> is again the undefined behaviour of \<open>atoi\<close>. An exception of the
  constructor would be \<open>Some (Inl _)\<close>.\<close>

definition make_network_v4 :: "os_inet \<Rightarrow> string \<Rightarrow> (net_exception + network_v4 \<times> error_code) option" where
  "make_network_v4 os str =
    (let pos = find_slash str in
     if pos = length str then Some (Inr (default_network_v4, Invalid_argument))
     else if pos = length str - 1 then Some (Inr (default_network_v4, Invalid_argument))
     else if find_non_digit str (pos + 1) \<noteq> length str then Some (Inr (default_network_v4, Invalid_argument))
     else case make_address_v4 os (take pos str) of (addr, ec) \<Rightarrow>
       (if failed ec then Some (Inr (default_network_v4, ec))
        else case atoi (drop (pos + 1) str) of
            None \<Rightarrow> None
          | Some prefix_len \<Rightarrow>
              (if prefix_len < 0 \<or> prefix_len > 32 then Some (Inr (default_network_v4, Invalid_argument))
               else case v4_network_of_prefix addr (nat prefix_len) of
                   Inl e \<Rightarrow> Some (Inl e)
                 | Inr n \<Rightarrow> Some (Inr (n, ec)))))"

definition make_network_v6 :: "os_inet \<Rightarrow> string \<Rightarrow> (net_exception + network_v6 \<times> error_code) option" where
  "make_network_v6 os str =
    (let pos = find_slash str in
     if pos = length str then Some (Inr (default_network_v6, Invalid_argument))
     else if pos = length str - 1 then Some (Inr (default_network_v6, Invalid_argument))
     else if find_non_digit str (pos + 1) \<noteq> length str then Some (Inr (default_network_v6, Invalid_argument))
     else case make_address_v6 os (take pos str) of
         None \<Rightarrow> None
       | Some (addr, ec) \<Rightarrow>
         (if failed ec then Some (Inr (default_network_v6, ec))
          else case atoi (drop (pos + 1) str) of
              None \<Rightarrow> None
            | Some prefix_len \<Rightarrow>
                (if prefix_len < 0 \<or> prefix_len > 128 then Some (Inr (default_network_v6, Invalid_argument))
                 else case v6_network_of_prefix addr (nat prefix_len) of
                     Inl e \<Rightarrow> Some (Inl e)
                   | Inr n \<Rightarrow> Some (Inr (n, ec)))))"

section \<open>Decimal numbers\<close>

lemma dec_value_snoc [simp]: "dec_value (xs @ [c]) = 10 * dec_value xs + (of_char c - 48)"
  by (simp add: dec_value_def)

lemma show_nat_dec: "(\<forall>c \<in> set (show_nat n). is_digit c) \<and> show_nat n \<noteq> [] \<and> dec_value (show_nat n) = n"
proof (induction n rule: show_nat.induct)
  case (1 n)
  have digit: "d < 10 \<Longrightarrow> is_digit (char_of (48 + d)) \<and> (of_char (char_of (48 + d) :: char) :: nat) - 48 = d" for d :: nat
    by (simp add: is_digit_def)
  show ?case
  proof (cases "n < 10")
    case True
    then show ?thesis using digit [of n] by (subst (1 2 3) show_nat.simps) (simp add: dec_value_def)
  next
    case False
    then have split: "show_nat n = show_nat (n div 10) @ [char_of (48 + n mod 10)]"
      by (subst show_nat.simps) simp
    show ?thesis
      unfolding split using 1 [OF False] digit [of "n mod 10"] by simp
  qed
qed

lemma atoi_digits:
  assumes "list_all is_digit ds" "ds \<noteq> []"
  shows "atoi ds = (if dec_value ds \<le> 2147483647 then Some (int (dec_value ds)) else None)"
proof -
  have "is_digit (hd ds)" using assms by (cases ds) simp_all
  then have "\<not> is_space (hd ds)" "hd ds \<noteq> CHR ''-''" "hd ds \<noteq> CHR ''+''"
    by (auto simp: is_digit_def is_space_def)
  then have "dropWhile is_space ds = ds" "hd ds \<noteq> CHR ''-''" "hd ds \<noteq> CHR ''+''"
    using assms(2) by (cases ds; simp)+
  moreover have tw: "takeWhile is_digit ds = ds"
    using assms(1) by (simp add: takeWhile_eq_all_conv list_all_iff)
  ultimately show ?thesis by (simp add: atoi_def Let_def tw)
qed

lemma show_nat_digits: "list_all is_digit (show_nat n)" "show_nat n \<noteq> []" "dec_value (show_nat n) = n"
  using show_nat_dec by (simp_all add: list_all_iff)

lemma atoi_show_nat: "n \<le> 2147483647 \<Longrightarrow> atoi (show_nat n) = Some (int n)"
  by (simp add: atoi_digits show_nat_digits)

lemma takeWhile_none: "x \<notin> set xs \<Longrightarrow> takeWhile (\<lambda>c. c \<noteq> x) xs = xs"
  by (induction xs) auto

lemma takeWhile_upto: "x \<notin> set xs \<Longrightarrow> takeWhile (\<lambda>c. c \<noteq> x) (xs @ x # ys) = xs"
  by (induction xs) auto

text \<open>The three tests on the text, and where it is cut.\<close>

definition network_text :: "string \<Rightarrow> string \<Rightarrow> string \<Rightarrow> bool" where
  "network_text str addr ds \<longleftrightarrow> str = addr @ CHR ''/'' # ds \<and> CHR ''/'' \<notin> set addr \<and> ds \<noteq> [] \<and> list_all is_digit ds"

lemma network_text_cut:
  assumes "network_text str addr ds"
  shows "find_slash str = length addr" "take (find_slash str) str = addr" "drop (Suc (find_slash str)) str = ds"
    "find_non_digit str (Suc (find_slash str)) = length str" "length addr < length str - 1"
proof -
  have str: "str = addr @ CHR ''/'' # ds" "CHR ''/'' \<notin> set addr" "ds \<noteq> []" and "list_all is_digit ds"
    using assms by (simp_all add: network_text_def)
  then have tw: "takeWhile is_digit ds = ds" by (simp add: takeWhile_eq_all_conv list_all_iff)
  show pos: "find_slash str = length addr" using str(2) by (simp add: str(1) find_slash_def takeWhile_upto)
  then show "take (find_slash str) str = addr" "drop (Suc (find_slash str)) str = ds" by (simp_all add: str(1))
  show "find_non_digit str (Suc (find_slash str)) = length str"
    unfolding pos by (simp add: find_non_digit_def str(1) tw)
  show "length addr < length str - 1" using str(3) by (simp add: str(1))
qed

lemma network_text_iff:
  "find_slash str \<noteq> length str \<and> find_slash str \<noteq> length str - 1 \<and>
      find_non_digit str (Suc (find_slash str)) = length str \<longleftrightarrow>
    network_text str (take (find_slash str) str) (drop (Suc (find_slash str)) str)"
proof
  assume tests: "find_slash str \<noteq> length str \<and> find_slash str \<noteq> length str - 1 \<and>
      find_non_digit str (Suc (find_slash str)) = length str"
  let ?pos = "find_slash str" and ?ds = "drop (Suc (find_slash str)) str"
  have "?pos \<le> length str" by (simp add: find_slash_def length_takeWhile_le)
  with tests have pos: "?pos < length str" "Suc ?pos < length str" by auto
  then have "str ! ?pos = CHR ''/''"
    using nth_length_takeWhile [of "\<lambda>c. c \<noteq> CHR ''/''" str] by (simp add: find_slash_def)
  with pos have "str = take ?pos str @ CHR ''/'' # ?ds" by (metis id_take_nth_drop)
  moreover have "take ?pos str = takeWhile (\<lambda>c. c \<noteq> CHR ''/'') str"
    unfolding find_slash_def by (rule takeWhile_eq_take [symmetric])
  then have "CHR ''/'' \<notin> set (take ?pos str)" using set_takeWhileD by fastforce
  moreover have "length (takeWhile is_digit ?ds) = length ?ds"
    using tests pos unfolding find_non_digit_def length_drop by linarith
  then have "takeWhile is_digit ?ds = ?ds" by (metis takeWhile_eq_take take_all order_refl)
  then have "list_all is_digit ?ds" by (metis list_all_iff set_takeWhileD)
  ultimately show "network_text str (take ?pos str) ?ds" using pos by (simp add: network_text_def)
next
  assume "network_text str (take (find_slash str) str) (drop (Suc (find_slash str)) str)"
  note cut = network_text_cut [OF this]
  then show "find_slash str \<noteq> length str \<and> find_slash str \<noteq> length str - 1 \<and>
      find_non_digit str (Suc (find_slash str)) = length str" by simp
qed

lemma network_text_unique:
  "network_text str addr ds \<Longrightarrow> addr = take (find_slash str) str \<and> ds = drop (Suc (find_slash str)) str"
  using network_text_cut by metis

text \<open>The parsers, once the text is cut.\<close>

lemma make_network_v4_cut:
  "make_network_v4 os str =
    (if network_text str (take (find_slash str) str) (drop (Suc (find_slash str)) str)
     then (case make_address_v4 os (take (find_slash str) str) of (addr, ec) \<Rightarrow>
       (if failed ec then Some (Inr (default_network_v4, ec))
        else if dec_value (drop (Suc (find_slash str)) str) > 2147483647 then None
        else if dec_value (drop (Suc (find_slash str)) str) > 32 then Some (Inr (default_network_v4, Invalid_argument))
        else Some (Inr (Network_v4 addr (dec_value (drop (Suc (find_slash str)) str)), ec))))
     else Some (Inr (default_network_v4, Invalid_argument)))"
proof (cases "network_text str (take (find_slash str) str) (drop (Suc (find_slash str)) str)")
  case True
  then have "atoi (drop (Suc (find_slash str)) str) =
      (if dec_value (drop (Suc (find_slash str)) str) \<le> 2147483647
       then Some (int (dec_value (drop (Suc (find_slash str)) str))) else None)"
    by (intro atoi_digits) (simp_all add: network_text_def)
  then show ?thesis
    using True True [folded network_text_iff]
    by (auto simp: make_network_v4_def Let_def v4_network_of_prefix_def split: prod.split)
next
  case False
  with network_text_iff [of str] show ?thesis by (auto simp: make_network_v4_def Let_def)
qed

lemma make_network_v6_cut:
  "make_network_v6 os str =
    (if network_text str (take (find_slash str) str) (drop (Suc (find_slash str)) str)
     then (case make_address_v6 os (take (find_slash str) str) of
         None \<Rightarrow> None
       | Some (addr, ec) \<Rightarrow>
         (if failed ec then Some (Inr (default_network_v6, ec))
          else if dec_value (drop (Suc (find_slash str)) str) > 2147483647 then None
          else if dec_value (drop (Suc (find_slash str)) str) > 128 then Some (Inr (default_network_v6, Invalid_argument))
          else Some (Inr (Network_v6 addr (dec_value (drop (Suc (find_slash str)) str)), ec))))
     else Some (Inr (default_network_v6, Invalid_argument)))"
proof (cases "network_text str (take (find_slash str) str) (drop (Suc (find_slash str)) str)")
  case True
  then have "atoi (drop (Suc (find_slash str)) str) =
      (if dec_value (drop (Suc (find_slash str)) str) \<le> 2147483647
       then Some (int (dec_value (drop (Suc (find_slash str)) str))) else None)"
    by (intro atoi_digits) (simp_all add: network_text_def)
  then show ?thesis
    using True True [folded network_text_iff]
    by (auto simp: make_network_v6_def Let_def v6_network_of_prefix_def split: prod.split option.split)
next
  case False
  with network_text_iff [of str] show ?thesis by (auto simp: make_network_v6_def Let_def)
qed

section \<open>Properties\<close>

text \<open>
  What a text needs of the system: printing the bytes of the address gives it and reading it
  gives the bytes; it has no percent sign and fits the buffer that cuts off the scope.
\<close>

definition prints_v6 :: "os_inet \<Rightarrow> byte list \<Rightarrow> string \<Rightarrow> bool" where
  "prints_v6 os bs txt \<longleftrightarrow> os_ntop6 os bs = (Some txt, Success) \<and> os_pton6 os txt = (Some bs, Success) \<and>
    CHR ''%'' \<notin> set txt \<and> length txt \<le> max_addr_v6_str_len"

definition prints_v4 :: "os_inet \<Rightarrow> byte list \<Rightarrow> string \<Rightarrow> bool" where
  "prints_v4 os bs txt \<longleftrightarrow> os_ntop4 os bs = (Some txt, Success) \<and> os_pton4 os txt = (Some bs, Success) \<and>
    CHR ''%'' \<notin> set txt \<and> fst (os_pton6 os txt) = None"

text \<open>The names of interfaces: the name of a scope is the name of that index, has no percent sign
  problem of its own, and no interface is called by a number other than its own index.\<close>

definition names_scope :: "os_inet \<Rightarrow> nat \<Rightarrow> bool" where
  "names_scope os s \<longleftrightarrow>
    (case if_indextoname os s of None \<Rightarrow> True | Some if_name \<Rightarrow> if_nametoindex os if_name = s) \<and>
    if_nametoindex os (show_nat s) \<in> {0, s}"

lemma inet_pton_print:
  assumes "prints_v6 os bs txt" "scope \<noteq> 0" "unat scope \<le> 2147483647" "names_scope os (unat scope)"
  defines "printed \<equiv> fst (inet_ntop_v6 os bs scope)"
  shows "\<exists>str. printed = Some str \<and> inet_pton_v6 os str = Some (Some (bs, scope), Success)"
proof -
  let ?local = "bs ! 0 = 0xfe \<and> bs ! 1 AND 0xc0 = 0x80 \<or> bs ! 0 = 0xff \<and> bs ! 1 AND 0x0f = 0x02"
  have scope: "unat (ucast scope :: u32) = unat scope" "(of_nat (unat scope) :: u64) = scope"
    "(of_int (int (unat scope)) :: u64) = scope"
    using assms(3) by (simp_all add: unsigned_ucast_eq take_bit_nat_eq_self)
  define name where "name = (if ?local then (case if_indextoname os (unat scope) of None \<Rightarrow> show_nat (unat scope) | Some nm \<Rightarrow> nm)
    else show_nat (unat scope))"
  have printed: "printed = Some (txt @ CHR ''%'' # name)"
    using assms(1,2) scope by (auto simp: printed_def inet_ntop_v6_def prints_v6_def name_def Let_def split: option.split)
  have "read_scope os bs name = Some scope"
    using assms(2-4) scope atoi_show_nat [OF assms(3)]
    by (auto simp: read_scope_def Let_def name_def names_scope_def unat_eq_0 split: option.splits if_splits)
  then have "inet_pton_v6 os (txt @ CHR ''%'' # name) = Some (Some (bs, scope), Success)"
    using assms(1) by (simp add: inet_pton_v6_def prints_v6_def takeWhile_upto Let_def call_error_def)
  with printed show ?thesis by blast
qed

text \<open>
  A larger scope that is printed as a number does not come back: \<open>atoi\<close> is undefined on it.
\<close>

lemma large_scope_lost:
  assumes "prints_v6 os bs txt" and "unat scope > 2147483647"
    and "bs ! 0 \<noteq> 0xfe" and "bs ! 0 \<noteq> 0xff"
  shows "\<exists>str. fst (inet_ntop_v6 os bs scope) = Some str \<and> inet_pton_v6 os str = None"
proof -
  have "scope \<noteq> 0" using assms(2) by auto
  then have "fst (inet_ntop_v6 os bs scope) = Some (txt @ CHR ''%'' # show_nat (unat scope))"
    using assms by (simp add: inet_ntop_v6_def prints_v6_def Let_def)
  moreover have "atoi (show_nat (unat scope)) = None"
    using assms(2) by (simp add: atoi_digits show_nat_digits)
  then have "inet_pton_v6 os (txt @ CHR ''%'' # show_nat (unat scope)) = None"
    using assms by (simp add: inet_pton_v6_def read_scope_def prints_v6_def takeWhile_upto Let_def)
  ultimately show ?thesis by blast
qed

fun address_prints :: "os_inet \<Rightarrow> address \<Rightarrow> string \<Rightarrow> bool" where
  "address_prints os (Ipv4 a) txt = prints_v4 os (v4_bytes a) txt"
| "address_prints os (Ipv6 a) txt =
    (prints_v6 os (s6_addr a) txt \<and> unat (scope_id a) \<le> 2147483647 \<and> names_scope os (unat (scope_id a)))"

text \<open>
  An address of either family comes back from its text, with its scope, whether the scope is
  printed as the name of an interface or as a number, as long as it is at most \<open>INT_MAX\<close> and the
  conversions of the system take the text of the address back, leaving \<open>errno\<close> alone.\<close>

theorem address_text_round_trip:
  assumes "address_prints os a txt"
  shows "\<exists>str. address_to_string os a = Inr str \<and> make_address os str = Some (a, Success)"
proof (cases a)
  case (Ipv4 b)
  then have pr: "prints_v4 os (v4_bytes b) txt" using assms by simp
  have tw: "takeWhile (\<lambda>c. c \<noteq> CHR ''%'') txt = txt"
    using pr by (intro takeWhile_none) (simp add: prints_v4_def)
  obtain errno where "os_pton6 os txt = (None, errno)"
    using pr by (cases "os_pton6 os txt") (simp add: prints_v4_def)
  then have "make_address_v6 os txt = Some (v6_any, call_error (None :: byte list option) errno)"
    using pr by (simp add: make_address_v6_def inet_pton_v6_def prints_v4_def Let_def tw)
  moreover have "failed (call_error (None :: byte list option) errno)"
    by (simp add: call_error_def failed_def)
  ultimately show ?thesis
    using pr Ipv4
    by (simp add: v4_to_string_def inet_ntop_v4_def prints_v4_def make_address_def make_address_v4_def
        inet_pton_v4_def call_error_def)
next
  case (Ipv6 b)
  then have pr: "prints_v6 os (s6_addr b) txt" "unat (scope_id b) \<le> 2147483647" "names_scope os (unat (scope_id b))"
    using assms by simp_all
  have tw: "takeWhile (\<lambda>c. c \<noteq> CHR ''%'') txt = txt"
    using pr(1) by (intro takeWhile_none) (simp add: prints_v6_def)
  have "\<exists>str. fst (inet_ntop_v6 os (s6_addr b) (scope_id b)) = Some str \<and>
      inet_pton_v6 os str = Some (Some (s6_addr b, scope_id b), Success)"
  proof (cases "scope_id b = 0")
    case True
    then show ?thesis
      using pr(1) by (simp add: inet_ntop_v6_def inet_pton_v6_def prints_v6_def call_error_def Let_def tw)
  next
    case False
    then show ?thesis using inet_pton_print [OF pr(1) False pr(2,3)] by simp
  qed
  then obtain str ec where "inet_ntop_v6 os (s6_addr b) (scope_id b) = (Some str, ec)"
    and "inet_pton_v6 os str = Some (Some (s6_addr b, scope_id b), Success)" by (metis prod.collapse)
  then have "v6_to_string os b = Inr str" "make_address os str = Some (Ipv6 b, Success)"
    by (simp_all add: v6_to_string_def make_address_def make_address_v6_def v6_of_bytes_id)
  then show ?thesis using Ipv6 by simp
qed

text \<open>
  \<open>make_network\<close> accepts exactly the texts of an address, a slash and a number of digits
  whose value is a prefix length of the family, and gives that network; it never throws. With
  more than \<open>INT_MAX\<close> after the slash of a valid address its \<open>atoi\<close> is undefined.\<close>

theorem make_network_accepts:
  "(make_network_v4 os str = Some (Inr (n, Success))) =
      (\<exists>addr ds. network_text str addr ds \<and> make_address_v4 os addr = (v4_address n, Success) \<and>
        v4_prefix_length n = dec_value ds \<and> dec_value ds \<le> 32) \<and>
    (make_network_v6 os str = Some (Inr (m, Success))) =
      (\<exists>addr ds. network_text str addr ds \<and> make_address_v6 os addr = Some (v6_address m, Success) \<and>
        v6_prefix_length m = dec_value ds \<and> dec_value ds \<le> 128) \<and>
    make_network_v4 os str \<noteq> Some (Inl e) \<and> make_network_v6 os str \<noteq> Some (Inl e) \<and>
    (make_network_v4 os str = None) =
      (\<exists>addr ds. network_text str addr ds \<and> snd (make_address_v4 os addr) = Success \<and> dec_value ds > 2147483647)"
proof -
  let ?addr = "take (find_slash str) str" and ?ds = "drop (Suc (find_slash str)) str"
  have cut: "(\<exists>addr ds. network_text str addr ds \<and> P addr ds) \<longleftrightarrow> network_text str ?addr ?ds \<and> P ?addr ?ds" for P
    using network_text_unique by blast
  have parts: "Network_v4 a p = n \<longleftrightarrow> a = v4_address n \<and> p = v4_prefix_length n"
    "Network_v6 b p = m \<longleftrightarrow> b = v6_address m \<and> p = v6_prefix_length m" for a b p
    by (cases n; cases m; auto)+
  show ?thesis
    unfolding cut make_network_v4_cut make_network_v6_cut
    by (auto simp: failed_def parts split: prod.splits option.splits)
qed

text \<open>
  The text of a network is read back as that network, given that its address is read back
  and its text has no slash.\<close>

theorem network_text_round_trip:
  assumes "v4_network_ok n" "v4_to_string os (v4_address n) = Inr s" "make_address_v4 os s = (v4_address n, Success)"
    and "CHR ''/'' \<notin> set s"
    and "v6_network_ok m" "v6_to_string os (v6_address m) = Inr t" "make_address_v6 os t = Some (v6_address m, Success)"
    and "CHR ''/'' \<notin> set t"
  shows "(\<exists>str. v4_network_to_string os n = Inr str \<and> make_network_v4 os str = Some (Inr (n, Success))) \<and>
    (\<exists>str. v6_network_to_string os m = Inr str \<and> make_network_v6 os str = Some (Inr (m, Success)))"
proof -
  have printed: "network_text (s @ CHR ''/'' # show_nat p) s (show_nat p)" if "CHR ''/'' \<notin> set s" for s p
    using that by (simp add: network_text_def show_nat_digits)
  let ?s = "s @ CHR ''/'' # show_nat (v4_prefix_length n)" and ?t = "t @ CHR ''/'' # show_nat (v6_prefix_length m)"
  note cut = network_text_cut(2,3) [OF printed]
  have "v4_network_to_string os n = Inr ?s" "v6_network_to_string os m = Inr ?t"
    using assms by (simp_all add: v4_network_to_string_def v6_network_to_string_def)
  moreover have "make_network_v4 os ?s = Some (Inr (n, Success))"
    using assms(1,3) printed [OF assms(4)] cut [OF assms(4)]
    by (simp add: make_network_v4_cut show_nat_digits v4_network_ok_def)
  moreover have "make_network_v6 os ?t = Some (Inr (m, Success))"
    using assms(5,7) printed [OF assms(8)] cut [OF assms(8)]
    by (simp add: make_network_v6_cut show_nat_digits v6_network_ok_def)
  ultimately show ?thesis by blast
qed

section \<open>Witnesses\<close>

text \<open>A system that knows one address of each family and one interface.\<close>

definition small_os :: os_inet where
  "small_os = \<lparr>os_ntop4 = (\<lambda>bs. if bs = v4_bytes (v4_of_uint 0xC0A8014D) then (Some ''192.168.1.77'', Success) else (None, Success)),
     os_pton4 = (\<lambda>str. if str = ''192.168.1.77'' then (Some (v4_bytes (v4_of_uint 0xC0A8014D)), Success) else (None, Success)),
     os_ntop6 = (\<lambda>bs. if bs = s6_addr (v6_address link) then (Some ''fe80::5'', Success) else (None, Success)),
     os_pton6 = (\<lambda>str. if str = ''fe80::5'' then (Some (s6_addr (v6_address link)), Success) else (None, Success)),
     if_indextoname = (\<lambda>i. if i = 3 then Some ''eth0'' else None),
     if_nametoindex = (\<lambda>nm. if nm = ''eth0'' then 3 else 0)\<rparr>"

theorem address_text_round_trip_witness:
  "address_to_string small_os (Ipv6 (v6_address link)) = Inr ''fe80::5%eth0'' \<and>
    make_address small_os ''fe80::5%eth0'' = Some (Ipv6 (v6_address link), Success)"
proof -
  have "address_prints small_os (Ipv6 (v6_address link)) ''fe80::5''"
    by (simp add: small_os_def prints_v6_def max_addr_v6_str_len_def names_scope_def link_def show_nat.simps)
  moreover have "address_to_string small_os (Ipv6 (v6_address link)) = Inr ''fe80::5%eth0''"
    by (simp add: v6_to_string_def inet_ntop_v6_def small_os_def link_def)
  ultimately show ?thesis using address_text_round_trip by fastforce
qed

theorem network_text_round_trip_witness:
  "make_network_v4 small_os ''192.168.1.77/30'' = Some (Inr (office, Success))"
proof -
  have four: "v4_to_string small_os (v4_address office) = Inr ''192.168.1.77''"
    "make_address_v4 small_os ''192.168.1.77'' = (v4_address office, Success)"
    by (simp_all add: v4_to_string_def inet_ntop_v4_def make_address_v4_def inet_pton_v4_def call_error_def
        small_os_def office_def)
  have six: "v6_to_string small_os (v6_address link) = Inr ''fe80::5%eth0''"
    "make_address_v6 small_os ''fe80::5%eth0'' = Some (v6_address link, Success)"
    by (simp_all add: v6_to_string_def inet_ntop_v6_def make_address_v6_def inet_pton_v6_def call_error_def
        read_scope_def max_addr_v6_str_len_def Let_def v6_of_bytes_def small_os_def link_def)
  have "show_nat 30 = ''30''" by code_simp
  then have "v4_network_to_string small_os office = Inr ''192.168.1.77/30''"
    using four(1) by (simp add: v4_network_to_string_def office_def)
  then show ?thesis
    using network_text_round_trip [OF example_networks(1) four _ example_networks(3) six] by auto
qed

end
