(* ===== verification/Asio_Buffered_Stream.thy ===== *)
theory Asio_Buffered_Stream
  imports Asio_Read_Write
begin

text \<open>
  \<open>detail/buffered_stream_storage.hpp\<close>, \<open>buffered_read_stream.hpp\<close>,
  \<open>buffered_write_stream.hpp\<close> and their implementations: a stream with a buffer of its own in
  front of the next layer. The buffer is a vector in memory with the offsets of the bytes that
  are still unread or unsent. The next layer answers as in \<open>Asio_Read_Write\<close>.
  Shown here: the buffer cannot be seen. What a caller reads and peeks, in any order of the
  synchronous and asynchronous calls, is what it would read from the next layer; what it writes
  reaches the next layer once and in order; and the asynchronous calls end as the synchronous
  ones do. Where the code leaves this contract, after a write that fails half-way, a property
  says how.
\<close>

section \<open>The storage\<close>

text \<open>
  \<open>storage_at\<close> is the address of \<open>buffer_[0]\<close>, which the vector keeps, and
  \<open>storage_len\<close> its size.
\<close>

record buffered_stream_storage =
  begin_offset :: nat
  end_offset :: nat
  storage_at :: nat
  storage_len :: nat

definition new_storage :: "nat \<Rightarrow> nat \<Rightarrow> buffered_stream_storage" where
  "new_storage at buffer_capacity =
     \<lparr>begin_offset = 0, end_offset = 0, storage_at = at, storage_len = buffer_capacity\<rparr>"

definition storage_clear :: "buffered_stream_storage \<Rightarrow> buffered_stream_storage" where
  "storage_clear s = s\<lparr>begin_offset := 0, end_offset := 0\<rparr>"

definition storage_data :: "buffered_stream_storage \<Rightarrow> buffer" where
  "storage_data s =
     buffer_advance \<lparr>buf_data = storage_at s, buf_size = storage_len s\<rparr> (begin_offset s)"

definition storage_empty :: "buffered_stream_storage \<Rightarrow> bool" where
  "storage_empty s \<longleftrightarrow> begin_offset s = end_offset s"

definition storage_size :: "buffered_stream_storage \<Rightarrow> nat" where
  "storage_size s = end_offset s - begin_offset s"

definition storage_capacity :: "buffered_stream_storage \<Rightarrow> nat" where
  "storage_capacity s = storage_len s"

text \<open>\<open>None\<close>: the assertion at the beginning fails.\<close>

definition storage_resize ::
  "memory \<Rightarrow> buffered_stream_storage \<Rightarrow> nat \<Rightarrow> (memory \<times> buffered_stream_storage) option" where
  "storage_resize m s len =
     (if len \<le> storage_capacity s then
        (if begin_offset s + len \<le> storage_capacity s
         then Some (m, s\<lparr>end_offset := begin_offset s + len\<rparr>)
         else Some (memcpy m (storage_at s) (storage_at s + begin_offset s) (storage_size s),
                    s\<lparr>end_offset := len, begin_offset := 0\<rparr>))
      else None)"

definition storage_consume :: "buffered_stream_storage \<Rightarrow> nat \<Rightarrow> buffered_stream_storage option" where
  "storage_consume s count =
     (if begin_offset s + count \<le> end_offset s then
        (let s1 = s\<lparr>begin_offset := begin_offset s + count\<rparr>
         in Some (if storage_empty s1 then storage_clear s1 else s1))
      else None)"

section \<open>Calls\<close>

text \<open>
  A call returns, is still waiting when the answers of the next layer have run out, or has failed
  an assertion. A call that may throw returns the exception's error code on the left.
\<close>

datatype 'a call = Ret 'a | Waits | Aborts

fun bind_call :: "'a call \<Rightarrow> ('a \<Rightarrow> 'b call) \<Rightarrow> 'b call" where
  "bind_call (Ret x) f = f x"
| "bind_call Waits f = Waits"
| "bind_call Aborts f = Aborts"

fun asserted :: "'a option \<Rightarrow> 'a call" where
  "asserted (Some x) = Ret x"
| "asserted None = Aborts"

fun awaited :: "'a option \<Rightarrow> 'a call" where
  "awaited (Some x) = Ret x"
| "awaited None = Waits"

lemma asserted_returns: "bind_call (asserted x) f = Ret r \<longleftrightarrow> (\<exists>y. x = Some y \<and> f y = Ret r)"
  by (cases x) simp_all

section \<open>The read stream\<close>

text \<open>
  The buffer that \<open>fill\<close> passes on: what is free behind the data once the storage has been
  resized to its capacity.
\<close>

definition fill_target :: "buffered_stream_storage \<Rightarrow> nat \<Rightarrow> buffer" where
  "fill_target s previous_size =
     buffer_limit (buffer_advance (storage_data s) previous_size) (storage_size s - previous_size)"

definition read_fill_ec ::
  "memory \<Rightarrow> buffered_stream_storage \<Rightarrow> answer \<Rightarrow> byte list
     \<Rightarrow> (memory \<times> buffered_stream_storage \<times> byte list \<times> nat \<times> error_code) call" where
  "read_fill_ec m s a inp =
     (let previous_size = storage_size s
      in bind_call (asserted (storage_resize m s (storage_capacity s))) (\<lambda>(m1, s1).
         let (m2, inp', n, ec) = read_some m1 [fill_target s1 previous_size] a inp
         in bind_call (asserted (storage_resize m2 s1 (previous_size + n))) (\<lambda>(m3, s3).
            Ret (m3, s3, inp', storage_size s3 - previous_size, ec))))"

text \<open>When the next layer throws, the guard \<open>buffer_resize_guard\<close> takes the resize back.\<close>

definition guard_rollback ::
  "memory \<Rightarrow> buffered_stream_storage \<Rightarrow> nat \<Rightarrow> (memory \<times> buffered_stream_storage) call" where
  "guard_rollback m s old_size =
     (if old_size \<noteq> size_max then asserted (storage_resize m s old_size) else Ret (m, s))"

definition read_fill ::
  "memory \<Rightarrow> buffered_stream_storage \<Rightarrow> answer \<Rightarrow> byte list
     \<Rightarrow> (memory \<times> buffered_stream_storage \<times> byte list \<times> (error_code + nat)) call" where
  "read_fill m s a inp =
     (let previous_size = storage_size s
      in bind_call (asserted (storage_resize m s (storage_capacity s))) (\<lambda>(m1, s1).
         let (m2, inp', n, ec) = read_some m1 [fill_target s1 previous_size] a inp
         in if failed ec
            then bind_call (guard_rollback m2 s1 previous_size) (\<lambda>(m3, s3). Ret (m3, s3, inp', Inl ec))
            else bind_call (asserted (storage_resize m2 s1 (previous_size + n))) (\<lambda>(m3, s3).
                 Ret (m3, s3, inp', Inr (storage_size s3 - previous_size)))))"

text \<open>\<open>copy\<close> and \<open>peek_copy\<close>\<close>

definition peek_copy ::
  "memory \<Rightarrow> buffered_stream_storage \<Rightarrow> buffers \<Rightarrow> memory \<times> nat" where
  "peek_copy m s bufs = buffer_copy_max m bufs (One_buffer (storage_data s)) (storage_size s)"

definition read_copy ::
  "memory \<Rightarrow> buffered_stream_storage \<Rightarrow> buffers
     \<Rightarrow> (memory \<times> buffered_stream_storage \<times> nat) call" where
  "read_copy m s bufs =
     (let (m', bytes_copied) = buffer_copy_max m bufs (One_buffer (storage_data s)) (storage_size s)
      in bind_call (asserted (storage_consume s bytes_copied)) (\<lambda>s'. Ret (m', s', bytes_copied)))"

definition buffered_read_some_ec ::
  "memory \<Rightarrow> buffered_stream_storage \<Rightarrow> buffers \<Rightarrow> answer \<Rightarrow> byte list
     \<Rightarrow> (memory \<times> buffered_stream_storage \<times> byte list \<times> nat \<times> error_code) call" where
  "buffered_read_some_ec m s bufs a inp =
     (if buffer_size (sequence bufs) = 0 then Ret (m, s, inp, 0, Success)
      else if storage_empty s then
        bind_call (read_fill_ec m s a inp) (\<lambda>(m1, s1, inp1, n, ec).
          if n = 0 then Ret (m1, s1, inp1, 0, ec)
          else bind_call (read_copy m1 s1 bufs) (\<lambda>(m2, s2, k). Ret (m2, s2, inp1, k, ec)))
      else bind_call (read_copy m s bufs) (\<lambda>(m2, s2, k). Ret (m2, s2, inp, k, Success)))"

definition buffered_read_some ::
  "memory \<Rightarrow> buffered_stream_storage \<Rightarrow> buffers \<Rightarrow> answer \<Rightarrow> byte list
     \<Rightarrow> (memory \<times> buffered_stream_storage \<times> byte list \<times> (error_code + nat)) call" where
  "buffered_read_some m s bufs a inp =
     (if buffer_size (sequence bufs) = 0 then Ret (m, s, inp, Inr 0)
      else bind_call (if storage_empty s then read_fill m s a inp else Ret (m, s, inp, Inr 0))
        (\<lambda>(m1, s1, inp1, r).
          case r of Inl ec \<Rightarrow> Ret (m1, s1, inp1, Inl ec)
          | Inr _ \<Rightarrow> bind_call (read_copy m1 s1 bufs) (\<lambda>(m2, s2, k). Ret (m2, s2, inp1, Inr k))))"

definition buffered_peek_ec ::
  "memory \<Rightarrow> buffered_stream_storage \<Rightarrow> buffers \<Rightarrow> answer \<Rightarrow> byte list
     \<Rightarrow> (memory \<times> buffered_stream_storage \<times> byte list \<times> nat \<times> error_code) call" where
  "buffered_peek_ec m s bufs a inp =
     (if storage_empty s then
        bind_call (read_fill_ec m s a inp) (\<lambda>(m1, s1, inp1, n, ec).
          if n = 0 then Ret (m1, s1, inp1, 0, ec)
          else let (m2, k) = peek_copy m1 s1 bufs in Ret (m2, s1, inp1, k, ec))
      else let (m2, k) = peek_copy m s bufs in Ret (m2, s, inp, k, Success))"

definition buffered_peek ::
  "memory \<Rightarrow> buffered_stream_storage \<Rightarrow> buffers \<Rightarrow> answer \<Rightarrow> byte list
     \<Rightarrow> (memory \<times> buffered_stream_storage \<times> byte list \<times> (error_code + nat)) call" where
  "buffered_peek m s bufs a inp =
     bind_call (if storage_empty s then read_fill m s a inp else Ret (m, s, inp, Inr 0))
       (\<lambda>(m1, s1, inp1, r).
         case r of Inl ec \<Rightarrow> Ret (m1, s1, inp1, Inl ec)
         | Inr _ \<Rightarrow> let (m2, k) = peek_copy m1 s1 bufs in Ret (m2, s1, inp1, Inr k))"

definition in_avail :: "buffered_stream_storage \<Rightarrow> nat" where
  "in_avail s = storage_size s"

text \<open>
  The asynchronous calls: the initiating function starts a read on the next layer, of the free
  part of the storage or, when nothing has to be fetched, of no bytes at all; the operation that
  completes then runs the handlers, the one of the fill first. The flag tells whether the fill
  handler is in between.
\<close>

definition initiate_async_fill ::
  "memory \<Rightarrow> buffered_stream_storage
     \<Rightarrow> (memory \<times> buffered_stream_storage \<times> buffer list \<times> nat) call" where
  "initiate_async_fill m s =
     (let previous_size = storage_size s
      in bind_call (asserted (storage_resize m s (storage_capacity s))) (\<lambda>(m1, s1).
         Ret (m1, s1, [fill_target s1 previous_size], previous_size)))"

definition on_fill ::
  "memory \<Rightarrow> buffered_stream_storage \<Rightarrow> nat \<Rightarrow> error_code \<Rightarrow> nat
     \<Rightarrow> (memory \<times> buffered_stream_storage \<times> error_code \<times> nat) call" where
  "on_fill m s previous_size ec bytes_transferred =
     bind_call (asserted (storage_resize m s (previous_size + bytes_transferred))) (\<lambda>(m1, s1).
       Ret (m1, s1, ec, bytes_transferred))"

definition on_buffered_read_some ::
  "memory \<Rightarrow> buffered_stream_storage \<Rightarrow> buffers \<Rightarrow> error_code
     \<Rightarrow> (memory \<times> buffered_stream_storage \<times> nat \<times> error_code) call" where
  "on_buffered_read_some m s bufs ec =
     (if failed ec \<or> storage_empty s then Ret (m, s, 0, ec)
      else let (m', bytes_copied) =
             buffer_copy_max m bufs (One_buffer (storage_data s)) (storage_size s)
           in bind_call (asserted (storage_consume s bytes_copied)) (\<lambda>s'. Ret (m', s', bytes_copied, ec)))"

definition buffered_async_fill ::
  "memory \<Rightarrow> buffered_stream_storage \<Rightarrow> answer \<Rightarrow> byte list
     \<Rightarrow> (memory \<times> buffered_stream_storage \<times> byte list \<times> nat \<times> error_code) call" where
  "buffered_async_fill m s a inp =
     bind_call (initiate_async_fill m s) (\<lambda>(m1, s1, bufs, previous_size).
       let (m2, inp', n, ec) = read_some m1 bufs a inp
       in bind_call (on_fill m2 s1 previous_size ec n) (\<lambda>(m3, s3, ec', n'). Ret (m3, s3, inp', n', ec')))"

definition buffered_async_read_some ::
  "memory \<Rightarrow> buffered_stream_storage \<Rightarrow> buffers \<Rightarrow> answer \<Rightarrow> byte list
     \<Rightarrow> (memory \<times> buffered_stream_storage \<times> byte list \<times> nat \<times> error_code) call" where
  "buffered_async_read_some m s bufs a inp =
     (if buffer_size (sequence bufs) = 0 \<or> \<not> storage_empty s then
        (let (m1, inp1, n, ec) = read_some m [empty_buffer] a inp
         in bind_call (on_buffered_read_some m1 s bufs ec) (\<lambda>(m2, s2, k, ec'). Ret (m2, s2, inp1, k, ec')))
      else
        bind_call (buffered_async_fill m s a inp) (\<lambda>(m1, s1, inp1, n, ec).
          bind_call (on_buffered_read_some m1 s1 bufs ec) (\<lambda>(m2, s2, k, ec'). Ret (m2, s2, inp1, k, ec'))))"


section \<open>The write stream\<close>

text \<open>\<open>buffer(storage_.data(), storage_.size())\<close>, which \<open>flush\<close> hands to \<open>write\<close>.\<close>

definition flush_source :: "buffered_stream_storage \<Rightarrow> buffer" where
  "flush_source s = buffer_limit (storage_data s) (storage_size s)"

definition write_flush_ec ::
  "memory \<Rightarrow> buffered_stream_storage \<Rightarrow> answer list \<Rightarrow> byte list
     \<Rightarrow> (buffered_stream_storage \<times> byte list \<times> nat \<times> error_code) call" where
  "write_flush_ec m s as outp =
     bind_call (awaited (asio_write transfer_all as (Single (flush_source s)) m outp))
       (\<lambda>(bytes_written, ec, outp').
         bind_call (asserted (storage_consume s bytes_written)) (\<lambda>s'. Ret (s', outp', bytes_written, ec)))"

text \<open>The \<open>write\<close> that throws does so after the transfer, before \<open>consume\<close>.\<close>

definition write_flush ::
  "memory \<Rightarrow> buffered_stream_storage \<Rightarrow> answer list \<Rightarrow> byte list
     \<Rightarrow> (buffered_stream_storage \<times> byte list \<times> (error_code + nat)) call" where
  "write_flush m s as outp =
     bind_call (awaited (asio_write transfer_all as (Single (flush_source s)) m outp))
       (\<lambda>(bytes_written, ec, outp').
         if failed ec then Ret (s, outp', Inl ec)
         else bind_call (asserted (storage_consume s bytes_written)) (\<lambda>s'. Ret (s', outp', Inr bytes_written)))"

definition write_copy ::
  "memory \<Rightarrow> buffered_stream_storage \<Rightarrow> buffers
     \<Rightarrow> (memory \<times> buffered_stream_storage \<times> nat) call" where
  "write_copy m s bufs =
     (let orig_size = storage_size s;
          space_avail = storage_capacity s - orig_size;
          bytes_avail = buffer_size (sequence bufs);
          len = (if bytes_avail < space_avail then bytes_avail else space_avail)
      in bind_call (asserted (storage_resize m s (orig_size + len))) (\<lambda>(m1, s1).
         let (m2, k) = buffer_copy_max m1 (One_buffer (buffer_advance (storage_data s1) orig_size)) bufs len
         in Ret (m2, s1, k)))"

definition buffered_write_some_ec ::
  "memory \<Rightarrow> buffered_stream_storage \<Rightarrow> buffers \<Rightarrow> answer list \<Rightarrow> byte list
     \<Rightarrow> (memory \<times> buffered_stream_storage \<times> byte list \<times> nat \<times> error_code) call" where
  "buffered_write_some_ec m s bufs as outp =
     (if buffer_size (sequence bufs) = 0 then Ret (m, s, outp, 0, Success)
      else if storage_size s = storage_capacity s then
        bind_call (write_flush_ec m s as outp) (\<lambda>(s1, outp1, n, ec).
          if n = 0 then Ret (m, s1, outp1, 0, ec)
          else bind_call (write_copy m s1 bufs) (\<lambda>(m2, s2, k). Ret (m2, s2, outp1, k, ec)))
      else bind_call (write_copy m s bufs) (\<lambda>(m2, s2, k). Ret (m2, s2, outp, k, Success)))"

definition buffered_write_some ::
  "memory \<Rightarrow> buffered_stream_storage \<Rightarrow> buffers \<Rightarrow> answer list \<Rightarrow> byte list
     \<Rightarrow> (memory \<times> buffered_stream_storage \<times> byte list \<times> (error_code + nat)) call" where
  "buffered_write_some m s bufs as outp =
     (if buffer_size (sequence bufs) = 0 then Ret (m, s, outp, Inr 0)
      else bind_call (if storage_size s = storage_capacity s then write_flush m s as outp
                      else Ret (s, outp, Inr 0))
        (\<lambda>(s1, outp1, r).
          case r of Inl ec \<Rightarrow> Ret (m, s1, outp1, Inl ec)
          | Inr _ \<Rightarrow> bind_call (write_copy m s1 bufs) (\<lambda>(m2, s2, k). Ret (m2, s2, outp1, Inr k))))"

definition on_flush ::
  "buffered_stream_storage \<Rightarrow> error_code \<Rightarrow> nat \<Rightarrow> (buffered_stream_storage \<times> error_code \<times> nat) call" where
  "on_flush s ec bytes_written =
     bind_call (asserted (storage_consume s bytes_written)) (\<lambda>s'. Ret (s', ec, bytes_written))"

definition buffered_async_flush ::
  "memory \<Rightarrow> buffered_stream_storage \<Rightarrow> answer list \<Rightarrow> byte list
     \<Rightarrow> (buffered_stream_storage \<times> byte list \<times> nat \<times> error_code) call" where
  "buffered_async_flush m s as outp =
     bind_call (awaited (asio_async_write transfer_all as (Single (flush_source s)) m outp))
       (\<lambda>(n, ec, outp'). bind_call (on_flush s ec n) (\<lambda>(s', ec', n'). Ret (s', outp', n', ec')))"

definition on_buffered_write_some ::
  "memory \<Rightarrow> buffered_stream_storage \<Rightarrow> buffers \<Rightarrow> error_code
     \<Rightarrow> (memory \<times> buffered_stream_storage \<times> nat \<times> error_code) call" where
  "on_buffered_write_some m s bufs ec =
     (if failed ec then Ret (m, s, 0, ec)
      else
        (let orig_size = storage_size s;
             space_avail = storage_capacity s - orig_size;
             bytes_avail = buffer_size (sequence bufs);
             len = (if bytes_avail < space_avail then bytes_avail else space_avail)
         in bind_call (asserted (storage_resize m s (orig_size + len))) (\<lambda>(m1, s1).
            let (m2, bytes_copied) =
              buffer_copy_max m1 (One_buffer (buffer_advance (storage_data s1) orig_size)) bufs len
            in Ret (m2, s1, bytes_copied, ec))))"

text \<open>
  With room in the storage the initiating function starts a write of no bytes, which the next
  layer answers with the first of its answers.
\<close>

definition buffered_async_write_some ::
  "memory \<Rightarrow> buffered_stream_storage \<Rightarrow> buffers \<Rightarrow> answer list \<Rightarrow> byte list
     \<Rightarrow> (memory \<times> buffered_stream_storage \<times> byte list \<times> nat \<times> error_code) call" where
  "buffered_async_write_some m s bufs as outp =
     (if buffer_size (sequence bufs) = 0 \<or> storage_size s < storage_capacity s then
        (case as of [] \<Rightarrow> Waits
         | a # _ \<Rightarrow>
           (let (outp1, n, ec) = write_some m [empty_buffer] a outp
            in bind_call (on_buffered_write_some m s bufs ec) (\<lambda>(m2, s2, k, ec'). Ret (m2, s2, outp1, k, ec'))))
      else
        bind_call (buffered_async_flush m s as outp) (\<lambda>(s1, outp1, n, ec).
          bind_call (on_buffered_write_some m s1 bufs ec) (\<lambda>(m2, s2, k, ec'). Ret (m2, s2, outp1, k, ec'))))"

section \<open>What the storage holds\<close>

definition storage_ok :: "buffered_stream_storage \<Rightarrow> bool" where
  "storage_ok s \<longleftrightarrow> begin_offset s \<le> end_offset s \<and> end_offset s \<le> storage_len s
     \<and> storage_len s < size_max"

definition storage_region :: "buffered_stream_storage \<Rightarrow> nat set" where
  "storage_region s = {storage_at s..<storage_at s + storage_len s}"

definition held :: "buffered_stream_storage \<Rightarrow> nat list" where
  "held s = [storage_at s + begin_offset s..<storage_at s + end_offset s]"

definition buffered :: "memory \<Rightarrow> buffered_stream_storage \<Rightarrow> byte list" where
  "buffered m s = map m (held s)"

text \<open>The two storages are one object at two times: the vector has not moved.\<close>

definition same_vector :: "buffered_stream_storage \<Rightarrow> buffered_stream_storage \<Rightarrow> bool" where
  "same_vector s s' \<longleftrightarrow> storage_at s' = storage_at s \<and> storage_len s' = storage_len s"

lemmas storage_defs = storage_clear_def storage_data_def storage_empty_def storage_size_def
  storage_capacity_def storage_resize_def storage_consume_def

lemma same_vector_trans: "same_vector s s1 \<Longrightarrow> same_vector s1 s2 \<Longrightarrow> same_vector s s2"
  by (simp add: same_vector_def)

lemma same_vector_refl [simp]: "same_vector s s"
  by (simp add: same_vector_def)

lemma same_vector_region: "same_vector s s' \<Longrightarrow> storage_region s' = storage_region s"
  by (simp add: same_vector_def storage_region_def)

lemma length_held [simp]: "storage_ok s \<Longrightarrow> length (held s) = storage_size s"
  by (simp add: held_def storage_size_def)

lemma length_buffered [simp]: "storage_ok s \<Longrightarrow> length (buffered m s) = storage_size s"
  by (simp add: buffered_def)

lemma held_region: "storage_ok s \<Longrightarrow> set (held s) \<subseteq> storage_region s"
  by (auto simp: held_def storage_region_def storage_ok_def)

lemma buffered_unchanged:
  "storage_ok s \<Longrightarrow> (\<And>a. a \<in> storage_region s \<Longrightarrow> m' a = m a) \<Longrightarrow> buffered m' s = buffered m s"
  unfolding buffered_def using held_region [of s] by auto

lemma storage_empty_iff: "storage_ok s \<Longrightarrow> storage_empty s \<longleftrightarrow> buffered m s = []"
  by (auto simp: storage_empty_def buffered_def held_def storage_ok_def)

lemma size_capacity: "storage_ok s \<Longrightarrow> storage_size s \<le> storage_len s"
  by (auto simp: storage_ok_def storage_size_def)

lemma resize_ok:
  assumes "storage_ok s" and "len \<le> storage_len s"
  obtains m' s' where "storage_resize m s len = Some (m', s')" and "storage_ok s'"
    and "same_vector s s'" and "storage_size s' = len"
    and "take len (buffered m' s') = buffered m' s'"
    and "take len (buffered m s) = take (storage_size s) (buffered m' s')"
    and "\<And>a. a \<notin> storage_region s \<Longrightarrow> m' a = m a"
proof (cases "begin_offset s + len \<le> storage_len s")
  case True
  let ?s' = "s\<lparr>end_offset := begin_offset s + len\<rparr>"
  show ?thesis
  proof (rule that [of m ?s'])
    show "storage_resize m s len = Some (m, ?s')" using True assms by (simp add: storage_defs)
    show "take len (buffered m s) = take (storage_size s) (buffered m ?s')"
      using assms(1)
      by (auto simp: buffered_def held_def storage_size_def storage_ok_def take_map intro!: nth_equalityI)
  qed (use True assms in \<open>auto simp: storage_ok_def same_vector_def storage_size_def buffered_def held_def\<close>)
next
  case False
  let ?s' = "s\<lparr>end_offset := len, begin_offset := 0\<rparr>"
  let ?m' = "memcpy m (storage_at s) (storage_at s + begin_offset s) (storage_size s)"
  show ?thesis
  proof (rule that [of ?m' ?s'])
    show "storage_resize m s len = Some (?m', ?s')" using False assms by (simp add: storage_defs)
    have le: "storage_size s \<le> len" using False assms by (auto simp: storage_size_def storage_ok_def)
    show "take len (buffered m s) = take (storage_size s) (buffered ?m' ?s')"
      using le assms(1)
      by (auto simp: buffered_def held_def memcpy_def take_map storage_ok_def storage_size_def min_def
          intro!: nth_equalityI)
    show "\<And>a. a \<notin> storage_region s \<Longrightarrow> ?m' a = m a"
      using assms by (auto simp: memcpy_def storage_region_def storage_size_def storage_ok_def)
  qed (use assms in \<open>auto simp: storage_ok_def same_vector_def storage_size_def buffered_def held_def\<close>)
qed

lemma consume_storage_ok:
  assumes "storage_ok s" and "count \<le> storage_size s"
  obtains s' where "storage_consume s count = Some s'" and "storage_ok s'" and "same_vector s s'"
    and "\<And>m. buffered m s' = drop count (buffered m s)"
proof -
  have le: "begin_offset s + count \<le> end_offset s"
    using assms by (auto simp: storage_ok_def storage_size_def)
  show thesis
  proof (cases "begin_offset s + count = end_offset s")
    case True
    show thesis
      by (rule that [of "s\<lparr>begin_offset := 0, end_offset := 0\<rparr>"])
        (use True assms in \<open>auto simp: storage_defs storage_ok_def same_vector_def buffered_def held_def
          Let_def\<close>)
  next
    case False
    show thesis
      by (rule that [of "s\<lparr>begin_offset := begin_offset s + count\<rparr>"])
        (use False le assms in \<open>auto simp: storage_defs storage_ok_def same_vector_def buffered_def
          held_def Let_def drop_map add.assoc\<close>)
  qed
qed


section \<open>Filling\<close>

lemma distinct_held [simp]: "distinct (held s)"
  by (simp add: held_def)

lemma full_storage:
  assumes "storage_ok s" and "storage_size s = storage_len s"
  shows "addresses (fill_target s p) = drop p (held s)"
proof -
  have "addresses (fill_target s p) = take (storage_len s - p) (drop p
      (drop (begin_offset s) [storage_at s..<storage_at s + storage_len s]))"
    by (simp add: fill_target_def addresses_limit addresses_advance storage_data_def assms(2))
      (simp add: addresses_def add.commute add.left_commute)
  moreover have "begin_offset s = 0" "end_offset s = storage_len s"
    using assms by (auto simp: storage_ok_def storage_size_def)
  ultimately show ?thesis by (simp add: held_def add.commute add.left_commute)
qed

lemma fill_steps:
  assumes "storage_ok s"
  obtains m1 s1 m2 n where "storage_resize m s (storage_capacity s) = Some (m1, s1)"
    and "read_some m1 [fill_target s1 (storage_size s)] a inp = (m2, drop n inp, n, snd a)"
    and "n = min (fst a) (min (storage_len s - storage_size s) (length inp))"
    and "\<forall>k \<le> n. \<exists>m3 s3. storage_resize m2 s1 (storage_size s + k) = Some (m3, s3)
      \<and> storage_ok s3 \<and> same_vector s s3 \<and> buffered m3 s3 = buffered m s @ take k inp
      \<and> (\<forall>a. a \<notin> storage_region s \<longrightarrow> m3 a = m a)"
proof -
  let ?p = "storage_size s"
  obtain m1 s1 where r1: "storage_resize m s (storage_len s) = Some (m1, s1)" and ok1: "storage_ok s1"
    and v1: "same_vector s s1" and size1: "storage_size s1 = storage_len s"
    and old: "take (storage_len s) (buffered m s) = take ?p (buffered m1 s1)"
    and out1: "\<And>a. a \<notin> storage_region s \<Longrightarrow> m1 a = m a"
    by (rule resize_ok [OF assms order_refl, of m]) blast
  have old': "take ?p (buffered m1 s1) = buffered m s"
    using old size_capacity [OF assms] assms by simp
  have full: "storage_size s1 = storage_len s1" using size1 v1 by (simp add: same_vector_def)
  obtain m2 inp' n ec where r: "read_some m1 [fill_target s1 ?p] a inp = (m2, inp', n, ec)"
    by (metis prod_cases4)
  have len: "buffer_size [fill_target s1 ?p] = storage_len s - ?p"
    using full_storage [OF ok1 full, of ?p] length_all_addresses [of "[fill_target s1 ?p]"] ok1 size1 by simp
  have n_is: "n = min (fst a) (min (storage_len s - ?p) (length inp))"
    and m2: "m2 = store m1 (take n (drop ?p (held s1))) (take n inp)"
    and rest: "inp' = drop n inp" "ec = snd a"
    using r full_storage [OF ok1 full, of ?p] len by (auto simp: read_some_def Let_def)
  then have n: "n \<le> storage_len s - ?p" "n \<le> length inp" by simp_all
  have into: "map m2 (take n (drop ?p (held s1))) = take n inp"
    unfolding m2 by (rule store_inside) (use n ok1 size1 in simp_all)
  have keep: "map m2 (take ?p (held s1)) = take ?p (buffered m1 s1)"
  proof -
    have "a \<notin> set (take n (drop ?p (held s1)))" if "a \<in> set (take ?p (held s1))" for a
      using that set_take_disj_set_drop_if_distinct [of "held s1" ?p ?p] by (auto dest: in_set_takeD)
    then show ?thesis by (auto simp: buffered_def take_map m2 store_outside)
  qed
  have front: "take (?p + k) (buffered m2 s1) = buffered m s @ take k inp" if "k \<le> n" for k
  proof -
    have "take (?p + n) (buffered m2 s1) = buffered m s @ take n inp"
      using keep into unfolding old' by (simp add: buffered_def [of m2] take_add take_map drop_map)
    then have "take (?p + k) (take (?p + n) (buffered m2 s1)) = take (?p + k) (buffered m s @ take n inp)"
      by (rule arg_cong)
    then show ?thesis using that assms by (simp add: min_absorb1)
  qed
  show thesis
  proof (rule that [of m1 s1 m2 n])
    show "storage_resize m s (storage_capacity s) = Some (m1, s1)"
      using r1 by (simp add: storage_capacity_def)
    show "read_some m1 [fill_target s1 ?p] a inp = (m2, drop n inp, n, snd a)" using r rest by simp
    show "\<forall>k \<le> n. \<exists>m3 s3. storage_resize m2 s1 (?p + k) = Some (m3, s3)
        \<and> storage_ok s3 \<and> same_vector s s3 \<and> buffered m3 s3 = buffered m s @ take k inp
        \<and> (\<forall>a. a \<notin> storage_region s \<longrightarrow> m3 a = m a)"
    proof (intro allI impI)
    fix k assume k: "k \<le> n"
    have "?p + k \<le> storage_len s1"
      using k n v1 size_capacity [OF assms] by (simp add: same_vector_def)
    then obtain m3 s3 where r3: "storage_resize m2 s1 (?p + k) = Some (m3, s3)" "storage_ok s3"
        "same_vector s1 s3" "storage_size s3 = ?p + k"
        "take (?p + k) (buffered m3 s3) = buffered m3 s3"
        "take (?p + k) (buffered m2 s1) = take (storage_size s1) (buffered m3 s3)"
        "\<And>a. a \<notin> storage_region s1 \<Longrightarrow> m3 a = m2 a"
      by (rule resize_ok [OF ok1, of "?p + k" m2]) blast
    have "?p + k \<le> storage_size s1" using full \<open>?p + k \<le> storage_len s1\<close> by simp
    then have "buffered m3 s3 = buffered m s @ take k inp"
      using r3(6) front [OF k] r3(2,4) by simp
    moreover have "m3 a = m a" if "a \<notin> storage_region s" for a
    proof -
      have "a \<notin> set (take n (drop ?p (held s1)))"
        using that held_region [OF ok1] same_vector_region [OF v1] by (auto dest: in_set_takeD in_set_dropD)
      then show ?thesis
        using that r3(7) out1 same_vector_region [OF v1] by (simp add: m2 store_outside)
    qed
    ultimately show "\<exists>m3 s3. storage_resize m2 s1 (?p + k) = Some (m3, s3) \<and> storage_ok s3
        \<and> same_vector s s3 \<and> buffered m3 s3 = buffered m s @ take k inp
        \<and> (\<forall>a. a \<notin> storage_region s \<longrightarrow> m3 a = m a)"
      using r3 same_vector_trans [OF v1] by blast
    qed
  qed (use n_is in simp_all)
qed

text \<open>\<open>fill\<close> moves input to the end of what is buffered.\<close>

definition filled ::
  "memory \<Rightarrow> buffered_stream_storage \<Rightarrow> byte list \<Rightarrow> memory \<Rightarrow> buffered_stream_storage \<Rightarrow> nat \<Rightarrow> bool" where
  "filled m s inp m' s' n \<longleftrightarrow> storage_ok s' \<and> same_vector s s' \<and> n \<le> length inp
     \<and> buffered m' s' = buffered m s @ take n inp \<and> (\<forall>a. a \<notin> storage_region s \<longrightarrow> m' a = m a)"

lemma filled_size: "filled m s inp m' s' n \<Longrightarrow> storage_ok s \<Longrightarrow> storage_size s' = storage_size s + n"
  using length_buffered [of s' m'] by (simp add: filled_def min_absorb2)

lemma read_fill_ec_result:
  assumes "storage_ok s"
  obtains m' s' n where "read_fill_ec m s a inp = Ret (m', s', drop n inp, n, snd a)"
    and "buffered_async_fill m s a inp = Ret (m', s', drop n inp, n, snd a)"
    and "filled m s inp m' s' n"
    and "n = min (fst a) (min (storage_len s - storage_size s) (length inp))"
proof -
  obtain m1 s1 m2 n where f: "storage_resize m s (storage_capacity s) = Some (m1, s1)"
    "read_some m1 [fill_target s1 (storage_size s)] a inp = (m2, drop n inp, n, snd a)"
    "n = min (fst a) (min (storage_len s - storage_size s) (length inp))"
    and "\<forall>k \<le> n. \<exists>m3 s3. storage_resize m2 s1 (storage_size s + k) = Some (m3, s3)
      \<and> storage_ok s3 \<and> same_vector s s3 \<and> buffered m3 s3 = buffered m s @ take k inp
      \<and> (\<forall>a. a \<notin> storage_region s \<longrightarrow> m3 a = m a)"
    by (rule fill_steps [OF assms, of m a inp])
  then obtain m3 s3 where g: "storage_resize m2 s1 (storage_size s + n) = Some (m3, s3)"
    "filled m s inp m3 s3 n" unfolding filled_def by (metis le_refl min.cobounded2 min.coboundedI2)
  have "storage_size s3 - storage_size s = n" using filled_size [OF g(2) assms(1)] by simp
  with f g show thesis
    by (intro that [of m3 s3 n])
      (simp_all add: read_fill_ec_def buffered_async_fill_def initiate_async_fill_def on_fill_def Let_def)
qed

lemma read_fill_result:
  assumes "storage_ok s" and "failed (snd a) \<longrightarrow> fst a = 0"
  obtains m' s' n where "read_fill m s a inp
      = Ret (m', s', drop n inp, if failed (snd a) then Inl (snd a) else Inr n)"
    and "filled m s inp m' s' n"
proof -
  obtain m1 s1 m2 n where f: "storage_resize m s (storage_capacity s) = Some (m1, s1)"
    "read_some m1 [fill_target s1 (storage_size s)] a inp = (m2, drop n inp, n, snd a)"
    "n = min (fst a) (min (storage_len s - storage_size s) (length inp))"
    and "\<forall>k \<le> n. \<exists>m3 s3. storage_resize m2 s1 (storage_size s + k) = Some (m3, s3)
      \<and> storage_ok s3 \<and> same_vector s s3 \<and> buffered m3 s3 = buffered m s @ take k inp
      \<and> (\<forall>a. a \<notin> storage_region s \<longrightarrow> m3 a = m a)"
    by (rule fill_steps [OF assms(1), of m a inp])
  then obtain m3 s3 where g: "storage_resize m2 s1 (storage_size s + n) = Some (m3, s3)"
    "filled m s inp m3 s3 n" unfolding filled_def by (metis le_refl min.cobounded2 min.coboundedI2)
  have "storage_size s3 - storage_size s = n" using filled_size [OF g(2) assms(1)] by simp
  moreover have "guard_rollback m2 s1 (storage_size s) = Ret (m3, s3)" if "failed (snd a)"
  proof -
    have "n = 0" using that assms(2) f(3) by simp
    with g(1) have "storage_resize m2 s1 (storage_size s) = Some (m3, s3)" by simp
    moreover have "storage_size s \<noteq> size_max"
      using size_capacity [OF assms(1)] assms(1) by (simp add: storage_ok_def)
    ultimately show ?thesis by (simp add: guard_rollback_def)
  qed
  ultimately show thesis using f g
    by (intro that [of m3 s3 n]) (simp_all add: read_fill_def Let_def)
qed


section \<open>Copying out of the storage\<close>

definition targets_ok :: "buffered_stream_storage \<Rightarrow> buffers \<Rightarrow> bool" where
  "targets_ok s bufs \<longleftrightarrow> distinct (all_addresses (sequence bufs))
     \<and> set (all_addresses (sequence bufs)) \<inter> storage_region s = {}"

definition contents :: "memory \<Rightarrow> buffers \<Rightarrow> nat \<Rightarrow> byte list" where
  "contents m bufs n = map m (take n (all_addresses (sequence bufs)))"

lemma addresses_data:
  "addresses (storage_data s) = [storage_at s + begin_offset s..<storage_at s + storage_len s]"
  by (simp only: storage_data_def addresses_advance) (simp add: addresses_def)

lemma data_held: "storage_ok s \<Longrightarrow> take (storage_size s) (addresses (storage_data s)) = held s"
  by (auto simp: addresses_data held_def storage_ok_def storage_size_def add.commute)

lemma targets_same_vector: "same_vector s s' \<Longrightarrow> targets_ok s' bufs = targets_ok s bufs"
  by (simp add: targets_ok_def same_vector_region)

lemma filled_ok: "filled m s inp m' s' n \<Longrightarrow> storage_ok s' \<and> targets_ok s' bufs = targets_ok s bufs"
  using targets_same_vector [of s s' bufs] by (simp add: filled_def)

lemma copy_out:
  assumes "storage_ok s" and "targets_ok s bufs"
  obtains m' n where
    "buffer_copy_max m bufs (One_buffer (storage_data s)) (storage_size s) = (m', n)"
    and "n = min (buffer_size (sequence bufs)) (storage_size s)"
    and "contents m' bufs n = take n (buffered m s)" and "buffered m' s = buffered m s"
proof -
  let ?ta = "all_addresses (sequence bufs)"
  have "set (addresses (storage_data s)) \<subseteq> storage_region s"
    by (auto simp: addresses_data storage_region_def)
  then have "set ?ta \<inter> set (all_addresses (sequence (One_buffer (storage_data s)))) = {}"
    using assms(2) by (auto simp: targets_ok_def)
  from buffer_copy_max_spec [OF this, of m "storage_size s"]
  have c: "buffer_copy_max m bufs (One_buffer (storage_data s)) (storage_size s) = copy_spec m ?ta (held s)"
    using data_held [OF assms(1)] by simp
  obtain m' n where r: "copy_spec m ?ta (held s) = (m', n)" by fastforce
  have disj: "set ?ta \<inter> set (held s) = {}"
    using assms held_region [OF assms(1)] by (auto simp: targets_ok_def)
  have mean: "n = min (length ?ta) (length (held s))" "map m' (take n ?ta) = map m (take n (held s))"
    "\<forall>a. a \<notin> set (take n ?ta) \<longrightarrow> m' a = m a"
    using copy_spec_meaning [OF _ disj r] assms(2) by (auto simp: targets_ok_def)
  have "buffered m' s = buffered m s"
    using mean(3) disj by (auto simp: buffered_def dest: in_set_takeD)
  then show thesis
    using that [of m' n] c r mean assms(1)
    by (simp add: contents_def buffered_def take_map length_all_addresses)
qed

lemma read_copy_result:
  assumes "storage_ok s" and "targets_ok s bufs"
  obtains m' s' n where "read_copy m s bufs = Ret (m', s', n)"
    and "n = min (buffer_size (sequence bufs)) (storage_size s)"
    and "contents m' bufs n = take n (buffered m s)" and "buffered m' s' = drop n (buffered m s)"
    and "storage_ok s'" and "same_vector s s'"
proof -
  obtain m' n where c:
    "buffer_copy_max m bufs (One_buffer (storage_data s)) (storage_size s) = (m', n)"
    "n = min (buffer_size (sequence bufs)) (storage_size s)"
    "contents m' bufs n = take n (buffered m s)" "buffered m' s = buffered m s"
    by (rule copy_out [OF assms, of m])
  have "n \<le> storage_size s" using c(2) by simp
  then obtain s' where "storage_consume s n = Some s'" "storage_ok s'" "same_vector s s'"
      "buffered m' s' = drop n (buffered m' s)"
    by (rule consume_storage_ok [OF assms(1)]) blast
  with c show thesis by (intro that [of m' s' n]) (simp_all add: read_copy_def)
qed

lemma on_read_some_copy:
  "on_buffered_read_some m s bufs ec =
    (if failed ec \<or> storage_empty s then Ret (m, s, 0, ec)
     else bind_call (read_copy m s bufs) (\<lambda>(m', s', n). Ret (m', s', n, ec)))"
  by (auto simp: on_buffered_read_some_def read_copy_def Let_def split: prod.splits)
    (cases "storage_consume s (snd (buffer_copy_max m bufs (One_buffer (storage_data s)) (storage_size s)))"; simp)+

section \<open>Runs of the read stream\<close>

text \<open>
  What a caller does with a read stream, with the answer that the next layer has ready for it,
  and what it gets to see: the bytes that a call has put into its buffers, read or only peeked.
\<close>

datatype read_call =
    Fill | Fill_throwing | Read_some buffers | Read_some_throwing buffers
  | Peek buffers | Peek_throwing buffers | Async_fill | Async_read_some buffers

datatype seen = Took "byte list" | Peeked "byte list"

fun count_of :: "error_code + nat \<Rightarrow> nat" where
  "count_of (Inl ec) = 0"
| "count_of (Inr n) = n"

fun read_call_step ::
  "memory \<Rightarrow> buffered_stream_storage \<Rightarrow> byte list \<Rightarrow> read_call \<times> answer
     \<Rightarrow> (memory \<times> buffered_stream_storage \<times> byte list \<times> seen) call" where
  "read_call_step m s inp (Fill, a) =
     bind_call (read_fill_ec m s a inp) (\<lambda>(m', s', inp', n, ec). Ret (m', s', inp', Took []))"
| "read_call_step m s inp (Fill_throwing, a) =
     bind_call (read_fill m s a inp) (\<lambda>(m', s', inp', r). Ret (m', s', inp', Took []))"
| "read_call_step m s inp (Read_some bufs, a) =
     bind_call (buffered_read_some_ec m s bufs a inp) (\<lambda>(m', s', inp', n, ec).
       Ret (m', s', inp', Took (contents m' bufs n)))"
| "read_call_step m s inp (Read_some_throwing bufs, a) =
     bind_call (buffered_read_some m s bufs a inp) (\<lambda>(m', s', inp', r).
       Ret (m', s', inp', Took (contents m' bufs (count_of r))))"
| "read_call_step m s inp (Peek bufs, a) =
     bind_call (buffered_peek_ec m s bufs a inp) (\<lambda>(m', s', inp', n, ec).
       Ret (m', s', inp', Peeked (contents m' bufs n)))"
| "read_call_step m s inp (Peek_throwing bufs, a) =
     bind_call (buffered_peek m s bufs a inp) (\<lambda>(m', s', inp', r).
       Ret (m', s', inp', Peeked (contents m' bufs (count_of r))))"
| "read_call_step m s inp (Async_fill, a) =
     bind_call (buffered_async_fill m s a inp) (\<lambda>(m', s', inp', n, ec). Ret (m', s', inp', Took []))"
| "read_call_step m s inp (Async_read_some bufs, a) =
     bind_call (buffered_async_read_some m s bufs a inp) (\<lambda>(m', s', inp', n, ec).
       Ret (m', s', inp', Took (contents m' bufs n)))"

fun read_calls ::
  "memory \<Rightarrow> buffered_stream_storage \<Rightarrow> byte list \<Rightarrow> (read_call \<times> answer) list
     \<Rightarrow> (memory \<times> buffered_stream_storage \<times> byte list \<times> seen list) call" where
  "read_calls m s inp [] = Ret (m, s, inp, [])"
| "read_calls m s inp (c # cs) =
     bind_call (read_call_step m s inp c) (\<lambda>(m1, s1, inp1, e).
       bind_call (read_calls m1 s1 inp1 cs) (\<lambda>(m2, s2, inp2, es). Ret (m2, s2, inp2, e # es)))"

text \<open>Without a buffer: what has been seen comes from a list of bytes, of which the rest is left.\<close>

fun unbuffered :: "byte list \<Rightarrow> seen list \<Rightarrow> byte list \<Rightarrow> bool" where
  "unbuffered source [] rest \<longleftrightarrow> rest = source"
| "unbuffered source (Took bs # es) rest \<longleftrightarrow>
     take (length bs) source = bs \<and> unbuffered (drop (length bs) source) es rest"
| "unbuffered source (Peeked bs # es) rest \<longleftrightarrow> take (length bs) source = bs \<and> unbuffered source es rest"

fun call_targets :: "read_call \<Rightarrow> buffers list" where
  "call_targets (Read_some bufs) = [bufs]"
| "call_targets (Read_some_throwing bufs) = [bufs]"
| "call_targets (Peek bufs) = [bufs]"
| "call_targets (Peek_throwing bufs) = [bufs]"
| "call_targets (Async_read_some bufs) = [bufs]"
| "call_targets _ = []"

text \<open>
  A call as the documentation allows it: its buffers do not overlap, and a next layer that
  reports an error has read nothing.
\<close>

fun read_call_ok :: "buffered_stream_storage \<Rightarrow> read_call \<times> answer \<Rightarrow> bool" where
  "read_call_ok s (c, a) \<longleftrightarrow>
     (failed (snd a) \<longrightarrow> fst a = 0) \<and> list_all (targets_ok s) (call_targets c)"

text \<open>The effect of one call.\<close>

definition read_effect ::
  "memory \<Rightarrow> buffered_stream_storage \<Rightarrow> byte list
     \<Rightarrow> memory \<times> buffered_stream_storage \<times> byte list \<times> seen \<Rightarrow> bool" where
  "read_effect m s inp r \<longleftrightarrow> (case r of (m', s', inp', e) \<Rightarrow>
     storage_ok s' \<and> same_vector s s' \<and> unbuffered (buffered m s @ inp) [e] (buffered m' s' @ inp'))"

lemma filled_effect:
  "filled m s inp m' s' n \<Longrightarrow> e = Took [] \<or> e = Peeked [] \<Longrightarrow> read_effect m s inp (m', s', drop n inp, e)"
  by (auto simp: filled_def read_effect_def)

lemma contents_0 [simp]: "contents m bufs 0 = []"
  by (simp add: contents_def)

lemma effect_trans:
  assumes "filled m s inp m1 s1 n" and "read_effect m1 s1 (drop n inp) r"
  shows "read_effect m s inp r"
  using assms by (cases "snd (snd (snd r))")
    (auto simp: filled_def read_effect_def intro: same_vector_trans)

lemma read_copy_effect:
  assumes "storage_ok s" and "targets_ok s bufs"
  obtains m' s' n where "read_copy m s bufs = Ret (m', s', n)"
    and "read_effect m s inp (m', s', inp, Took (contents m' bufs n))"
proof -
  obtain m' s' n where c: "read_copy m s bufs = Ret (m', s', n)"
    "n = min (buffer_size (sequence bufs)) (storage_size s)"
    "contents m' bufs n = take n (buffered m s)" "buffered m' s' = drop n (buffered m s)"
    "storage_ok s'" "same_vector s s'"
    by (rule read_copy_result [OF assms, of m])
  then show thesis using that [of m' s' n] assms(1) by (simp add: read_effect_def)
qed

lemma peek_copy_effect:
  assumes "storage_ok s" and "targets_ok s bufs"
  obtains m' n where "peek_copy m s bufs = (m', n)"
    and "read_effect m s inp (m', s, inp, Peeked (contents m' bufs n))"
proof -
  obtain m' n where c:
    "buffer_copy_max m bufs (One_buffer (storage_data s)) (storage_size s) = (m', n)"
    "n = min (buffer_size (sequence bufs)) (storage_size s)"
    "contents m' bufs n = take n (buffered m s)" "buffered m' s = buffered m s"
    by (rule copy_out [OF assms, of m])
  then show thesis using that [of m' n] assms(1) by (simp add: read_effect_def peek_copy_def)
qed


lemma read_some_ec_effect:
  assumes "storage_ok s" and "targets_ok s bufs"
  obtains m' s' inp' n ec where "buffered_read_some_ec m s bufs a inp = Ret (m', s', inp', n, ec)"
    and "read_effect m s inp (m', s', inp', Took (contents m' bufs n))"
proof (cases "buffer_size (sequence bufs) = 0")
  case True
  then show thesis using that [of m s inp 0 Success] assms by (simp add: buffered_read_some_ec_def read_effect_def)
next
  case False
  show thesis
  proof (cases "storage_empty s")
    case True
    obtain m1 s1 n where f: "read_fill_ec m s a inp = Ret (m1, s1, drop n inp, n, snd a)"
      "filled m s inp m1 s1 n"
      by (rule read_fill_ec_result [OF assms(1), of m a inp]) blast
    have ok1: "storage_ok s1" "targets_ok s1 bufs"
      using filled_ok [OF f(2)] assms(2) by simp_all
    obtain m2 s2 k where c: "read_copy m1 s1 bufs = Ret (m2, s2, k)"
      "read_effect m1 s1 (drop n inp) (m2, s2, drop n inp, Took (contents m2 bufs k))"
      by (rule read_copy_effect [OF ok1])
    show thesis
    proof (cases "n = 0")
      case zero: True
      show thesis
        by (rule that [of m1 s1 inp 0 "snd a"])
          (use False True f zero filled_effect [OF f(2)] in \<open>simp_all add: buffered_read_some_ec_def\<close>)
    next
      case pos: False
      show thesis
        by (rule that [of m2 s2 "drop n inp" k "snd a"])
          (use False True f pos c effect_trans [OF f(2) c(2)] in \<open>simp_all add: buffered_read_some_ec_def\<close>)
    qed
  next
    case nonempty: False
    obtain m2 s2 k where "read_copy m s bufs = Ret (m2, s2, k)"
      "read_effect m s inp (m2, s2, inp, Took (contents m2 bufs k))"
      by (rule read_copy_effect [OF assms])
    with False nonempty show thesis
      by (intro that [of m2 s2 inp k Success]) (simp_all add: buffered_read_some_ec_def)
  qed
qed

text \<open>The calls that throw fetch first, when the storage is empty; what is fetched is counted.\<close>

definition fetch_first ::
  "memory \<Rightarrow> buffered_stream_storage \<Rightarrow> answer \<Rightarrow> byte list
     \<Rightarrow> (memory \<times> buffered_stream_storage \<times> byte list \<times> (error_code + nat)) call" where
  "fetch_first m s a inp = (if storage_empty s then read_fill m s a inp else Ret (m, s, inp, Inr 0))"

lemma fetch_first_result:
  assumes "storage_ok s" and "failed (snd a) \<longrightarrow> fst a = 0"
  obtains m' s' n r where "fetch_first m s a inp = Ret (m', s', drop n inp, r)"
    and "filled m s inp m' s' n"
proof (cases "storage_empty s")
  case True
  then show thesis
    using that by (rule_tac read_fill_result [OF assms, of m inp]) (auto simp: fetch_first_def)
next
  case False
  then show thesis using that [of m s 0] assms(1) by (simp add: fetch_first_def filled_def)
qed

lemma read_some_throwing_effect:
  assumes "storage_ok s" and "targets_ok s bufs" and "failed (snd a) \<longrightarrow> fst a = 0"
  obtains m' s' inp' r where "buffered_read_some m s bufs a inp = Ret (m', s', inp', r)"
    and "read_effect m s inp (m', s', inp', Took (contents m' bufs (count_of r)))"
proof (cases "buffer_size (sequence bufs) = 0")
  case True
  then show thesis using that [of m s inp "Inr 0"] assms by (simp add: buffered_read_some_def read_effect_def)
next
  case False
  obtain m1 s1 n r where f: "fetch_first m s a inp = Ret (m1, s1, drop n inp, r)" "filled m s inp m1 s1 n"
    by (rule fetch_first_result [OF assms(1,3)])
  have ok1: "storage_ok s1" "targets_ok s1 bufs"
    using filled_ok [OF f(2)] assms(2) by simp_all
  obtain m2 s2 k where c: "read_copy m1 s1 bufs = Ret (m2, s2, k)"
    "read_effect m1 s1 (drop n inp) (m2, s2, drop n inp, Took (contents m2 bufs k))"
    by (rule read_copy_effect [OF ok1])
  show thesis
  proof (cases r)
    case (Inl ec)
    then show thesis using False f filled_effect [OF f(2)]
      by (intro that [of m1 s1 "drop n inp" r]) (simp_all add: buffered_read_some_def fetch_first_def)
  next
    case (Inr j)
    then show thesis using False f c effect_trans [OF f(2) c(2)]
      by (intro that [of m2 s2 "drop n inp" "Inr k"]) (simp_all add: buffered_read_some_def fetch_first_def)
  qed
qed

lemma peek_throwing_effect:
  assumes "storage_ok s" and "targets_ok s bufs" and "failed (snd a) \<longrightarrow> fst a = 0"
  obtains m' s' inp' r where "buffered_peek m s bufs a inp = Ret (m', s', inp', r)"
    and "read_effect m s inp (m', s', inp', Peeked (contents m' bufs (count_of r)))"
proof -
  obtain m1 s1 n r where f: "fetch_first m s a inp = Ret (m1, s1, drop n inp, r)" "filled m s inp m1 s1 n"
    by (rule fetch_first_result [OF assms(1,3)])
  have ok1: "storage_ok s1" "targets_ok s1 bufs"
    using filled_ok [OF f(2)] assms(2) by simp_all
  obtain m2 k where c: "peek_copy m1 s1 bufs = (m2, k)"
    "read_effect m1 s1 (drop n inp) (m2, s1, drop n inp, Peeked (contents m2 bufs k))"
    by (rule peek_copy_effect [OF ok1])
  show thesis
  proof (cases r)
    case (Inl ec)
    then show thesis using f filled_effect [OF f(2)]
      by (intro that [of m1 s1 "drop n inp" r]) (simp_all add: buffered_peek_def fetch_first_def)
  next
    case (Inr j)
    then show thesis using f c effect_trans [OF f(2) c(2)]
      by (intro that [of m2 s1 "drop n inp" "Inr k"]) (simp_all add: buffered_peek_def fetch_first_def)
  qed
qed

lemma peek_ec_effect:
  assumes "storage_ok s" and "targets_ok s bufs"
  obtains m' s' inp' n ec where "buffered_peek_ec m s bufs a inp = Ret (m', s', inp', n, ec)"
    and "read_effect m s inp (m', s', inp', Peeked (contents m' bufs n))"
proof (cases "storage_empty s")
  case True
  obtain m1 s1 n where f: "read_fill_ec m s a inp = Ret (m1, s1, drop n inp, n, snd a)"
    "filled m s inp m1 s1 n"
    by (rule read_fill_ec_result [OF assms(1), of m a inp]) blast
  have ok1: "storage_ok s1" "targets_ok s1 bufs"
    using filled_ok [OF f(2)] assms(2) by simp_all
  obtain m2 k where c: "peek_copy m1 s1 bufs = (m2, k)"
    "read_effect m1 s1 (drop n inp) (m2, s1, drop n inp, Peeked (contents m2 bufs k))"
    by (rule peek_copy_effect [OF ok1])
  show thesis
  proof (cases "n = 0")
    case zero: True
    show thesis
      by (rule that [of m1 s1 inp 0 "snd a"])
        (use True f zero filled_effect [OF f(2)] in \<open>simp_all add: buffered_peek_ec_def\<close>)
  next
    case pos: False
    show thesis
      by (rule that [of m2 s1 "drop n inp" k "snd a"])
        (use True f pos c effect_trans [OF f(2) c(2)] in \<open>simp_all add: buffered_peek_ec_def\<close>)
  qed
next
  case nonempty: False
  obtain m2 k where "peek_copy m s bufs = (m2, k)"
    "read_effect m s inp (m2, s, inp, Peeked (contents m2 bufs k))"
    by (rule peek_copy_effect [OF assms])
  with nonempty show thesis
    by (intro that [of m2 s inp k Success]) (simp_all add: buffered_peek_ec_def)
qed

lemma read_null [simp]: "read_some m [empty_buffer] a inp = (m, inp, 0, snd a)"
  by (simp add: read_some_def empty_buffer_def)

lemma on_read_some_effect:
  assumes "storage_ok s" and "targets_ok s bufs"
  obtains m' s' n where "on_buffered_read_some m s bufs ec = Ret (m', s', n, ec)"
    and "read_effect m s inp (m', s', inp, Took (contents m' bufs n))"
proof (cases "failed ec \<or> storage_empty s")
  case True
  then show thesis using that [of m s 0] assms(1) by (simp add: on_read_some_copy read_effect_def)
next
  case False
  obtain m' s' n where c: "read_copy m s bufs = Ret (m', s', n)"
    "read_effect m s inp (m', s', inp, Took (contents m' bufs n))"
    by (rule read_copy_effect [OF assms])
  with False show thesis by (intro that [of m' s' n]) (simp_all add: on_read_some_copy)
qed

lemma async_read_some_effect:
  assumes "storage_ok s" and "targets_ok s bufs"
  obtains m' s' inp' n ec where "buffered_async_read_some m s bufs a inp = Ret (m', s', inp', n, ec)"
    and "read_effect m s inp (m', s', inp', Took (contents m' bufs n))"
proof (cases "buffer_size (sequence bufs) = 0 \<or> \<not> storage_empty s")
  case True
  obtain m' s' n where "on_buffered_read_some m s bufs (snd a) = Ret (m', s', n, snd a)"
    "read_effect m s inp (m', s', inp, Took (contents m' bufs n))"
    by (rule on_read_some_effect [OF assms])
  with True show thesis by (intro that [of m' s' inp n "snd a"]) (auto simp: buffered_async_read_some_def)
next
  case False
  obtain m1 s1 n where f: "buffered_async_fill m s a inp = Ret (m1, s1, drop n inp, n, snd a)"
    "filled m s inp m1 s1 n"
    by (rule read_fill_ec_result [OF assms(1), of m a inp]) blast
  have ok1: "storage_ok s1" "targets_ok s1 bufs"
    using filled_ok [OF f(2)] assms(2) by simp_all
  obtain m2 s2 k where c: "on_buffered_read_some m1 s1 bufs (snd a) = Ret (m2, s2, k, snd a)"
    "read_effect m1 s1 (drop n inp) (m2, s2, drop n inp, Took (contents m2 bufs k))"
    by (rule on_read_some_effect [OF ok1])
  with False f effect_trans [OF f(2) c(2)] show thesis
    by (intro that [of m2 s2 "drop n inp" k "snd a"]) (simp_all add: buffered_async_read_some_def)
qed

lemma read_call_effect:
  assumes ok: "storage_ok s" and c: "read_call_ok s (c, a)"
  obtains r where "read_call_step m s inp (c, a) = Ret r" and "read_effect m s inp r"
proof (cases c)
  case Fill
  show thesis using that Fill filled_effect
    by (rule_tac read_fill_ec_result [OF ok, of m a inp]) auto
next
  case Fill_throwing
  have "failed (snd a) \<longrightarrow> fst a = 0" using c by simp
  from read_fill_result [OF ok this, of m inp] that Fill_throwing filled_effect show thesis by fastforce
next
  case (Read_some bufs)
  with that c show thesis by (rule_tac read_some_ec_effect [OF ok, of bufs m a inp]) auto
next
  case (Read_some_throwing bufs)
  with that c show thesis by (rule_tac read_some_throwing_effect [OF ok, of bufs a m inp]) auto
next
  case (Peek bufs)
  with that c show thesis by (rule_tac peek_ec_effect [OF ok, of bufs m a inp]) auto
next
  case (Peek_throwing bufs)
  with that c show thesis by (rule_tac peek_throwing_effect [OF ok, of bufs a m inp]) auto
next
  case Async_fill
  show thesis using that Async_fill filled_effect
    by (rule_tac read_fill_ec_result [OF ok, of m a inp]) auto
next
  case (Async_read_some bufs)
  with that c show thesis by (rule_tac async_read_some_effect [OF ok, of bufs m a inp]) auto
qed


lemma effect_unbuffered:
  assumes "read_effect m s inp (m1, s1, inp1, e)"
    and "unbuffered (buffered m1 s1 @ inp1) es rest"
  shows "unbuffered (buffered m s @ inp) (e # es) rest"
  using assms by (cases e) (auto simp: read_effect_def)

lemma read_call_ok_same: "same_vector s s' \<Longrightarrow> read_call_ok s' c = read_call_ok s c"
  by (cases c) (simp add: targets_same_vector cong: list_all_cong)

text \<open>
  C34. Nobody can tell that a read stream has a buffer. Whatever the order of \<open>fill\<close>,
  \<open>read_some\<close> and \<open>peek\<close>, with an error code or throwing, synchronous or asynchronous, however the
  next layer cuts the input and whenever it fails: no assertion of the storage fails, and what
  the calls have put into the caller's buffers is what one reads from the bytes that were
  buffered and waiting at first, in order; the rest of them is what is buffered and waiting at
  the end. A peek shows the next bytes and leaves them there.
\<close>

theorem buffered_read_transparent:
  assumes "storage_ok s" and "list_all (read_call_ok s) calls"
  shows "\<exists>m' s' inp' es. read_calls m s inp calls = Ret (m', s', inp', es)
    \<and> unbuffered (buffered m s @ inp) es (buffered m' s' @ inp')"
  using assms
proof (induction calls arbitrary: m s inp)
  case Nil
  then show ?case by simp
next
  case (Cons c cs)
  obtain r where "read_call_step m s inp c = Ret r" "read_effect m s inp r"
    by (rule read_call_effect [OF Cons.prems(1), of "fst c" "snd c" m inp]) (use Cons.prems(2) in simp_all)
  then obtain m1 s1 inp1 e where r: "read_call_step m s inp c = Ret (m1, s1, inp1, e)"
    "read_effect m s inp (m1, s1, inp1, e)" by (cases r) auto
  then have "storage_ok s1" "same_vector s s1" by (simp_all add: read_effect_def)
  then have "\<exists>m' s' inp' es. read_calls m1 s1 inp1 cs = Ret (m', s', inp', es)
      \<and> unbuffered (buffered m1 s1 @ inp1) es (buffered m' s' @ inp')"
    using Cons.IH [of s1 m1 inp1] Cons.prems(2) read_call_ok_same [of s s1]
    by (simp cong: list_all_cong)
  with r show ?case by (auto intro: effect_unbuffered [OF r(2)])
qed

definition storage_of_8 :: buffered_stream_storage where
  "storage_of_8 = new_storage 100 8"

lemma storage_of_8_ok [simp]: "storage_ok storage_of_8"
  by (simp add: storage_of_8_def new_storage_def storage_ok_def size_max_def)

theorem buffered_read_transparent_witness:
  "\<exists>m' s' inp' es. read_calls (\<lambda>_. 0) storage_of_8 [1, 2, 3, 4, 5]
      [(Peek (One_buffer \<lparr>buf_data = 10, buf_size = 2\<rparr>), (4, Success)),
       (Async_read_some (One_buffer \<lparr>buf_data = 20, buf_size = 3\<rparr>), (0, Success)),
       (Fill_throwing, (0, Eof))] = Ret (m', s', inp', es)
    \<and> unbuffered [1, 2, 3, 4, 5] es (buffered m' s' @ inp')"
  using buffered_read_transparent [of storage_of_8
      "[(Peek (One_buffer \<lparr>buf_data = 10, buf_size = 2\<rparr>), (4, Success)),
        (Async_read_some (One_buffer \<lparr>buf_data = 20, buf_size = 3\<rparr>), (0, Success)),
        (Fill_throwing, (0, Eof))]" "\<lambda>_. 0" "[1, 2, 3, 4, 5]"]
  by (simp add: targets_ok_def addresses_def storage_region_def storage_of_8_def new_storage_def
      storage_ok_def size_max_def buffered_def held_def)


section \<open>Flushing\<close>

lemma flush_addresses: "storage_ok s \<Longrightarrow> kind_addresses (Single (flush_source s)) = held s"
  by (simp add: flush_source_def addresses_limit data_held)

text \<open>What a flush does to the storage and the output, whatever it was asked with.\<close>

definition flushed ::
  "buffered_stream_storage \<Rightarrow> buffered_stream_storage \<Rightarrow> nat \<Rightarrow> error_code \<Rightarrow> bool" where
  "flushed s s' n ec \<longleftrightarrow> storage_ok s' \<and> same_vector s s' \<and> n \<le> storage_size s
     \<and> (\<forall>m. buffered m s' = drop n (buffered m s)) \<and> (\<not> failed ec \<longrightarrow> n = storage_size s)"

lemma flush_write:
  assumes "storage_ok s" and "moving as" and "storage_len s < length as"
  obtains s' n ec where
    "asio_write transfer_all as (Single (flush_source s)) m outp = Some (n, ec, outp @ take n (buffered m s))"
    and "storage_consume s n = Some s'" and "flushed s s' n ec"
proof -
  have len: "length (kind_addresses (Single (flush_source s))) = storage_size s"
    using flush_addresses [OF assms(1)] assms(1) by simp
  have "asio_write transfer_all as (Single (flush_source s)) m outp \<noteq> None"
    by (rule asio_write_returns) (use assms len size_capacity [OF assms(1)] in auto)
  then obtain n ec outp' where r: "asio_write transfer_all as (Single (flush_source s)) m outp = Some (n, ec, outp')"
    by auto
  note w = asio_write_result [OF r]
  have n: "n \<le> storage_size s" "\<not> failed ec \<longrightarrow> n = storage_size s" using w len by auto
  obtain s' where c: "storage_consume s n = Some s'" "storage_ok s'" "same_vector s s'"
    "\<And>m. buffered m s' = drop n (buffered m s)"
    by (rule consume_storage_ok [OF assms(1) n(1)]) blast
  show thesis
    by (rule that [of n ec s'])
      (use r w c n flush_addresses [OF assms(1)] in \<open>simp_all add: flushed_def buffered_def take_map\<close>)
qed


lemma flush_nothing:
  assumes "storage_ok s" and "storage_size s = 0"
  shows "asio_async_write transfer_all (a # as) (Single (flush_source s)) m outp = Some (0, snd a, outp)"
proof -
  have "buf_size (flush_source s) = 0"
    using flush_addresses [OF assms(1)] length_held [OF assms(1)] assms(2)
    by (metis kind_addresses.simps(1) length_addresses)
  moreover have "check_condition transfer_all Success 0 \<noteq> 0" by simp
  ultimately show ?thesis
    by (simp add: write_op_step_def single_ops_def consuming_single_buffer_def single_prepare_def
        single_consume_def single_empty_def write_some_def buffer_limit_def buffer_advance_def Let_def
        addresses_def)
qed

lemma flush_async:
  assumes "storage_ok s" and "moving as" and "0 < storage_size s"
  shows "asio_async_write transfer_all as (Single (flush_source s)) m outp
    = asio_write transfer_all as (Single (flush_source s)) m outp"
proof -
  have "kind_addresses (Single (flush_source s)) \<noteq> []"
    using flush_addresses [OF assms(1)] length_held [OF assms(1)] assms(3) by fastforce
  then show ?thesis
    using one_buffer.async_write_sequence [OF TrueI _ assms(2), of "consuming_single_buffer (flush_source s)"
        transfer_all m outp]
    by (simp add: fresh_remaining)
qed

lemma write_flush_ec_result:
  assumes "storage_ok s" and "moving as" and "storage_len s < length as"
  obtains s' n ec where "write_flush_ec m s as outp = Ret (s', outp @ take n (buffered m s), n, ec)"
    and "flushed s s' n ec"
proof -
  obtain s' n ec where "flushed s s' n ec" "storage_consume s n = Some s'"
    "asio_write transfer_all as (Single (flush_source s)) m outp = Some (n, ec, outp @ take n (buffered m s))"
    by (rule flush_write [OF assms, of m outp])
  then show thesis by (intro that [of s' n ec]) (simp_all add: write_flush_ec_def)
qed

lemma async_flush_result:
  assumes "storage_ok s" and "moving as" and "storage_len s < length as"
  obtains s' n ec where "buffered_async_flush m s as outp = Ret (s', outp @ take n (buffered m s), n, ec)"
    and "flushed s s' n ec"
proof (cases "storage_size s = 0")
  case True
  obtain a as' where as: "as = a # as'" using assms(3) by (cases as) auto
  obtain s' where "storage_consume s 0 = Some s'" "storage_ok s'" "same_vector s s'"
    "\<And>m. buffered m s' = drop 0 (buffered m s)"
    by (rule consume_storage_ok [OF assms(1), of 0]) auto
  then show thesis using flush_nothing [OF assms(1) True, of a as' m outp] True as
    by (intro that [of s' 0 "snd a"]) (simp_all add: buffered_async_flush_def on_flush_def flushed_def)
next
  case False
  obtain s' n ec where "flushed s s' n ec" "storage_consume s n = Some s'"
    "asio_write transfer_all as (Single (flush_source s)) m outp = Some (n, ec, outp @ take n (buffered m s))"
    by (rule flush_write [OF assms, of m outp])
  then show thesis using flush_async [OF assms(1,2)] False
    by (intro that [of s' n ec]) (simp_all add: buffered_async_flush_def on_flush_def)
qed

section \<open>Copying into the storage\<close>

definition sources_ok :: "buffered_stream_storage \<Rightarrow> buffers \<Rightarrow> bool" where
  "sources_ok s bufs \<longleftrightarrow> set (all_addresses (sequence bufs)) \<inter> storage_region s = {}"

lemma sources_same_vector: "same_vector s s' \<Longrightarrow> sources_ok s' bufs = sources_ok s bufs"
  by (simp add: sources_ok_def same_vector_region)

text \<open>\<open>n\<close> bytes of the caller's buffers have been accepted.\<close>

definition appended ::
  "memory \<Rightarrow> buffered_stream_storage \<Rightarrow> buffers \<Rightarrow> memory \<Rightarrow> buffered_stream_storage \<Rightarrow> nat \<Rightarrow> bool" where
  "appended m s bufs m' s' n \<longleftrightarrow> storage_ok s' \<and> same_vector s s'
     \<and> n \<le> buffer_size (sequence bufs)
     \<and> buffered m' s' = buffered m s @ contents m bufs n
     \<and> (\<forall>a. a \<notin> storage_region s \<longrightarrow> m' a = m a)"

lemma write_copy_result:
  assumes "storage_ok s" and "sources_ok s bufs"
  obtains m' s' n where "write_copy m s bufs = Ret (m', s', n)" and "appended m s bufs m' s' n"
    and "n = min (buffer_size (sequence bufs)) (storage_len s - storage_size s)"
proof -
  let ?p = "storage_size s"
  define len where "len = min (buffer_size (sequence bufs)) (storage_len s - ?p)"
  have le: "?p + len \<le> storage_len s" using size_capacity [OF assms(1)] by (simp add: len_def)
  obtain m1 s1 where r: "storage_resize m s (?p + len) = Some (m1, s1)" "storage_ok s1" "same_vector s s1"
    "storage_size s1 = ?p + len" "take (?p + len) (buffered m s) = take ?p (buffered m1 s1)"
    "\<forall>a. a \<notin> storage_region s \<longrightarrow> m1 a = m a"
    by (rule resize_ok [OF assms(1) le, of m]) blast
  let ?target = "buffer_advance (storage_data s1) ?p" and ?sa = "all_addresses (sequence bufs)"
  have end1: "end_offset s1 = begin_offset s1 + (?p + len)"
    using r(2,4) by (auto simp: storage_ok_def storage_size_def)
  have room: "len \<le> length (addresses ?target)"
    using r(2) end1 by (simp only: addresses_advance addresses_data length_drop) (auto simp: storage_ok_def)
  have target: "take len (addresses ?target) = drop ?p (held s1)"
    using r(2) end1 by (simp only: addresses_advance addresses_data)
      (auto simp: held_def storage_ok_def add.assoc)
  have "set (addresses ?target) \<subseteq> storage_region s"
    using r(3) by (simp only: addresses_advance addresses_data)
      (auto simp: storage_region_def same_vector_def dest: in_set_dropD)
  then have "set (all_addresses (sequence (One_buffer ?target))) \<inter> set ?sa = {}"
    using assms(2) by (auto simp: sources_ok_def)
  from buffer_copy_max_spec [OF this, of m1 len]
  have copy: "buffer_copy_max m1 (One_buffer ?target) bufs len
      = (store m1 (drop ?p (held s1)) (map m1 (take len ?sa)), len)"
    using room target length_all_addresses [of "sequence bufs"]
    by (simp add: copy_spec_def Let_def len_def min.absorb2 min.absorb1)
  let ?m2 = "store m1 (drop ?p (held s1)) (map m1 (take len ?sa))"
  have taken: "map m1 (take len ?sa) = contents m bufs len"
    unfolding contents_def
    by (rule map_cong [OF refl]) (use r(6) assms(2) in \<open>auto simp: sources_ok_def dest: in_set_takeD\<close>)
  have into: "map ?m2 (drop ?p (held s1)) = contents m bufs len"
    unfolding taken by (rule store_inside) (use r(2,4) in \<open>simp_all add: contents_def length_all_addresses len_def\<close>)
  have keep: "map ?m2 (take ?p (held s1)) = take ?p (buffered m1 s1)"
  proof -
    have "a \<notin> set (drop ?p (held s1))" if "a \<in> set (take ?p (held s1))" for a
      using that set_take_disj_set_drop_if_distinct [of "held s1" ?p ?p] by auto
    then show ?thesis by (auto simp: buffered_def take_map store_outside)
  qed
  have "take ?p (buffered m1 s1) = buffered m s"
    using r(5) assms(1) by simp
  then have "buffered ?m2 s1 = buffered m s @ contents m bufs len"
    using keep into append_take_drop_id [of ?p "held s1"] unfolding buffered_def by (metis map_append)
  moreover have "?m2 a = m a" if "a \<notin> storage_region s" for a
  proof -
    have "a \<notin> set (drop ?p (held s1))"
      using that held_region [OF r(2)] same_vector_region [OF r(3)] by (auto dest: in_set_dropD)
    then show ?thesis using that r(6) by (simp add: store_outside)
  qed
  moreover have "(if buffer_size (sequence bufs) < storage_len s - ?p then buffer_size (sequence bufs)
      else storage_len s - ?p) = len" by (simp add: len_def)
  then have "write_copy m s bufs = Ret (?m2, s1, len)"
    using r(1) copy by (simp add: write_copy_def storage_capacity_def Let_def)
  ultimately show thesis using that [of ?m2 s1 len] r by (simp add: appended_def len_def)
qed

lemma on_write_some_copy:
  "on_buffered_write_some m s bufs ec =
    (if failed ec then Ret (m, s, 0, ec)
     else bind_call (write_copy m s bufs) (\<lambda>(m', s', n). Ret (m', s', n, ec)))"
  by (cases "storage_resize m s (storage_size s + (if buffer_size (sequence bufs) < storage_capacity s - storage_size s
      then buffer_size (sequence bufs) else storage_capacity s - storage_size s))")
    (simp_all add: on_buffered_write_some_def write_copy_def Let_def split: prod.splits)


section \<open>Runs of the write stream\<close>

text \<open>
  What a caller does with a write stream, with the answers that the next layer has ready, and the
  bytes that a call has accepted. Between the calls the caller writes its own memory.
\<close>

datatype write_call =
    Flush | Flush_throwing | Write_some buffers | Write_some_throwing buffers
  | Async_flush | Async_write_some buffers | Set_byte nat byte

fun write_call_step ::
  "memory \<Rightarrow> buffered_stream_storage \<Rightarrow> byte list \<Rightarrow> write_call \<times> answer list
     \<Rightarrow> (memory \<times> buffered_stream_storage \<times> byte list \<times> byte list) call" where
  "write_call_step m s outp (Flush, as) =
     bind_call (write_flush_ec m s as outp) (\<lambda>(s', outp', n, ec). Ret (m, s', outp', []))"
| "write_call_step m s outp (Flush_throwing, as) =
     bind_call (write_flush m s as outp) (\<lambda>(s', outp', r). Ret (m, s', outp', []))"
| "write_call_step m s outp (Write_some bufs, as) =
     bind_call (buffered_write_some_ec m s bufs as outp) (\<lambda>(m', s', outp', n, ec).
       Ret (m', s', outp', contents m bufs n))"
| "write_call_step m s outp (Write_some_throwing bufs, as) =
     bind_call (buffered_write_some m s bufs as outp) (\<lambda>(m', s', outp', r).
       Ret (m', s', outp', contents m bufs (count_of r)))"
| "write_call_step m s outp (Async_flush, as) =
     bind_call (buffered_async_flush m s as outp) (\<lambda>(s', outp', n, ec). Ret (m, s', outp', []))"
| "write_call_step m s outp (Async_write_some bufs, as) =
     bind_call (buffered_async_write_some m s bufs as outp) (\<lambda>(m', s', outp', n, ec).
       Ret (m', s', outp', contents m bufs n))"
| "write_call_step m s outp (Set_byte a v, as) = Ret (m(a := v), s, outp, [])"

fun write_calls ::
  "memory \<Rightarrow> buffered_stream_storage \<Rightarrow> byte list \<Rightarrow> (write_call \<times> answer list) list
     \<Rightarrow> (memory \<times> buffered_stream_storage \<times> byte list \<times> byte list) call" where
  "write_calls m s outp [] = Ret (m, s, outp, [])"
| "write_calls m s outp (c # cs) =
     bind_call (write_call_step m s outp c) (\<lambda>(m1, s1, outp1, bs).
       bind_call (write_calls m1 s1 outp1 cs) (\<lambda>(m2, s2, outp2, bs'). Ret (m2, s2, outp2, bs @ bs')))"

text \<open>
  The next layer has enough answers to send what can be buffered; under a call that may throw
  it reports no error.
\<close>

definition enough_answers :: "buffered_stream_storage \<Rightarrow> answer list \<Rightarrow> bool" where
  "enough_answers s as \<longleftrightarrow> moving as \<and> storage_len s < length as"

definition no_errors :: "answer list \<Rightarrow> bool" where
  "no_errors as \<longleftrightarrow> list_all (\<lambda>a. snd a = Success) as"

fun write_call_ok :: "buffered_stream_storage \<Rightarrow> write_call \<times> answer list \<Rightarrow> bool" where
  "write_call_ok s (Flush, as) \<longleftrightarrow> enough_answers s as"
| "write_call_ok s (Flush_throwing, as) \<longleftrightarrow> enough_answers s as \<and> no_errors as"
| "write_call_ok s (Write_some bufs, as) \<longleftrightarrow> enough_answers s as \<and> sources_ok s bufs"
| "write_call_ok s (Write_some_throwing bufs, as) \<longleftrightarrow> enough_answers s as \<and> no_errors as \<and> sources_ok s bufs"
| "write_call_ok s (Async_flush, as) \<longleftrightarrow> enough_answers s as"
| "write_call_ok s (Async_write_some bufs, as) \<longleftrightarrow> enough_answers s as \<and> sources_ok s bufs"
| "write_call_ok s (Set_byte a v, as) \<longleftrightarrow> a \<notin> storage_region s"

definition write_effect ::
  "memory \<Rightarrow> buffered_stream_storage \<Rightarrow> byte list
     \<Rightarrow> memory \<times> buffered_stream_storage \<times> byte list \<times> byte list \<Rightarrow> bool" where
  "write_effect m s outp r \<longleftrightarrow> (case r of (m', s', outp', bs) \<Rightarrow>
     storage_ok s' \<and> same_vector s s' \<and> outp' @ buffered m' s' = outp @ buffered m s @ bs)"

lemma flushed_effect:
  "flushed s s' n ec \<Longrightarrow> write_effect m s outp (m, s', outp @ take n (buffered m s), [])"
  by (simp add: flushed_def write_effect_def)

lemma appended_effect:
  "appended m s bufs m' s' n \<Longrightarrow> write_effect m s outp (m', s', outp, contents m bufs n)"
  by (simp add: appended_def write_effect_def)

lemma write_effect_trans:
  "write_effect m s outp (m1, s1, outp1, []) \<Longrightarrow> write_effect m1 s1 outp1 (m2, s2, outp2, bs)
    \<Longrightarrow> write_effect m s outp (m2, s2, outp2, bs)"
  by (auto simp: write_effect_def intro: same_vector_trans)

lemma write_effect_refl: "storage_ok s \<Longrightarrow> write_effect m s outp (m, s, outp, [])"
  by (simp add: write_effect_def)

lemma write_loop_error:
  "write_loop ops cond as c ec m outp = Some (c', ec', outp') \<Longrightarrow> no_errors as \<Longrightarrow> ec = Success
    \<Longrightarrow> ec' = Success"
proof (induction as arbitrary: c ec outp)
  case Nil
  then show ?case by (simp split: if_splits)
next
  case (Cons a as)
  from Cons.prems Cons.IH [of _ "snd a"] show ?case
    by (auto simp: write_some_def no_errors_def Let_def split: if_splits prod.splits)
qed

lemma flush_no_error:
  assumes "no_errors as" and "asio_write cond as (Single b) m outp = Some (n, ec, outp')"
  shows "ec = Success"
  using assms write_loop_error [OF _ assms(1) refl] by (auto simp: write_buffer_sequence_def)

lemma write_flush_result:
  assumes "storage_ok s" and "enough_answers s as" and "no_errors as"
  obtains s' n where "write_flush m s as outp = Ret (s', outp @ take n (buffered m s), Inr n)"
    and "flushed s s' n Success"
proof -
  have en: "moving as" "storage_len s < length as" using assms(2) by (simp_all add: enough_answers_def)
  obtain s' n ec where f: "flushed s s' n ec" "storage_consume s n = Some s'"
    "asio_write transfer_all as (Single (flush_source s)) m outp = Some (n, ec, outp @ take n (buffered m s))"
    by (rule flush_write [OF assms(1) en, of m outp])
  have "ec = Success" by (rule flush_no_error [OF assms(3) f(3)])
  with f show thesis by (intro that [of s' n]) (simp_all add: write_flush_def)
qed

lemma flushed_ok: "flushed s s' n ec \<Longrightarrow> storage_ok s' \<and> sources_ok s' bufs = sources_ok s bufs"
  using sources_same_vector [of s s' bufs] by (simp add: flushed_def)

lemma write_copy_effect:
  assumes "storage_ok s" and "sources_ok s bufs"
  obtains m' s' n where "write_copy m s bufs = Ret (m', s', n)"
    and "write_effect m s outp (m', s', outp, contents m bufs n)"
  using write_copy_result [OF assms, of m] appended_effect [of m s bufs] by metis

lemma write_some_ec_effect:
  assumes "storage_ok s" and "sources_ok s bufs" and "enough_answers s as"
  obtains m' s' outp' n ec where "buffered_write_some_ec m s bufs as outp = Ret (m', s', outp', n, ec)"
    and "write_effect m s outp (m', s', outp', contents m bufs n)"
proof (cases "buffer_size (sequence bufs) = 0")
  case True
  then show thesis using that [of m s outp 0 Success] write_effect_refl [OF assms(1)]
    by (simp add: buffered_write_some_ec_def)
next
  case False
  show thesis
  proof (cases "storage_size s = storage_capacity s")
    case True
    have en: "moving as" "storage_len s < length as" using assms(3) by (simp_all add: enough_answers_def)
    obtain s1 n ec where f: "write_flush_ec m s as outp = Ret (s1, outp @ take n (buffered m s), n, ec)"
      "flushed s s1 n ec"
      by (rule write_flush_ec_result [OF assms(1) en])
    have ok1: "storage_ok s1" "sources_ok s1 bufs" using flushed_ok [OF f(2)] assms(2) by simp_all
    obtain m2 s2 k where c: "write_copy m s1 bufs = Ret (m2, s2, k)"
      "write_effect m s1 (outp @ take n (buffered m s)) (m2, s2, outp @ take n (buffered m s), contents m bufs k)"
      by (rule write_copy_effect [OF ok1])
    show thesis
    proof (cases "n = 0")
      case zero: True
      show thesis
        by (rule that [of m s1 outp 0 ec])
          (use False True f zero flushed_effect [OF f(2)] in \<open>simp_all add: buffered_write_some_ec_def\<close>)
    next
      case pos: False
      show thesis
        by (rule that [of m2 s2 "outp @ take n (buffered m s)" k ec])
          (use False True f pos c write_effect_trans [OF flushed_effect [OF f(2)] c(2)] in
            \<open>simp_all add: buffered_write_some_ec_def\<close>)
    qed
  next
    case room: False
    obtain m2 s2 k where "write_copy m s bufs = Ret (m2, s2, k)"
      "write_effect m s outp (m2, s2, outp, contents m bufs k)"
      by (rule write_copy_effect [OF assms(1,2)])
    with False room show thesis
      by (intro that [of m2 s2 outp k Success]) (simp_all add: buffered_write_some_ec_def)
  qed
qed

lemma write_some_throwing_effect:
  assumes "storage_ok s" and "sources_ok s bufs" and "enough_answers s as" and "no_errors as"
  obtains m' s' outp' r where "buffered_write_some m s bufs as outp = Ret (m', s', outp', r)"
    and "write_effect m s outp (m', s', outp', contents m bufs (count_of r))"
proof (cases "buffer_size (sequence bufs) = 0")
  case True
  then show thesis using that [of m s outp "Inr 0"] write_effect_refl [OF assms(1)]
    by (simp add: buffered_write_some_def)
next
  case False
  obtain s1 outp1 j where f: "(if storage_size s = storage_capacity s then write_flush m s as outp
      else Ret (s, outp, Inr 0)) = Ret (s1, outp1, Inr j)"
    "write_effect m s outp (m, s1, outp1, [])" "storage_ok s1" "sources_ok s1 bufs"
  proof (cases "storage_size s = storage_capacity s")
    case True
    obtain s1 n where "write_flush m s as outp = Ret (s1, outp @ take n (buffered m s), Inr n)"
      "flushed s s1 n Success"
      by (rule write_flush_result [OF assms(1,3,4)])
    with True flushed_effect flushed_ok assms(2) show ?thesis
      by (intro that [of s1 "outp @ take n (buffered m s)" n]) auto
  next
    case False
    then show ?thesis using write_effect_refl [OF assms(1)] assms that [of s outp 0] by simp
  qed
  obtain m2 s2 k where c: "write_copy m s1 bufs = Ret (m2, s2, k)"
    "write_effect m s1 outp1 (m2, s2, outp1, contents m bufs k)"
    by (rule write_copy_effect [OF f(3,4)])
  show thesis
    by (rule that [of m2 s2 outp1 "Inr k"])
      (use False f(1) c write_effect_trans [OF f(2) c(2)] in \<open>simp_all add: buffered_write_some_def\<close>)
qed

lemma on_write_some_effect:
  assumes "storage_ok s" and "sources_ok s bufs"
  obtains m' s' n where "on_buffered_write_some m s bufs ec = Ret (m', s', n, ec)"
    and "write_effect m s outp (m', s', outp, contents m bufs n)"
proof (cases "failed ec")
  case True
  then show thesis using that [of m s 0] write_effect_refl [OF assms(1)] by (simp add: on_write_some_copy)
next
  case False
  obtain m' s' n where c: "write_copy m s bufs = Ret (m', s', n)"
    "write_effect m s outp (m', s', outp, contents m bufs n)"
    by (rule write_copy_effect [OF assms])
  with False show thesis by (intro that [of m' s' n]) (simp_all add: on_write_some_copy)
qed

lemma write_null [simp]: "write_some m [empty_buffer] a outp = (outp, 0, snd a)"
  by (simp add: write_some_def empty_buffer_def addresses_def)

lemma async_write_some_effect:
  assumes "storage_ok s" and "sources_ok s bufs" and "enough_answers s as"
  obtains m' s' outp' n ec where "buffered_async_write_some m s bufs as outp = Ret (m', s', outp', n, ec)"
    and "write_effect m s outp (m', s', outp', contents m bufs n)"
proof (cases "buffer_size (sequence bufs) = 0 \<or> storage_size s < storage_capacity s")
  case True
  obtain a as' where as: "as = a # as'" using assms(3) by (cases as) (auto simp: enough_answers_def)
  obtain m' s' n where "on_buffered_write_some m s bufs (snd a) = Ret (m', s', n, snd a)"
    "write_effect m s outp (m', s', outp, contents m bufs n)"
    by (rule on_write_some_effect [OF assms(1,2)])
  with True as show thesis
    by (intro that [of m' s' outp n "snd a"]) (auto simp: buffered_async_write_some_def)
next
  case False
  have en: "moving as" "storage_len s < length as" using assms(3) by (simp_all add: enough_answers_def)
  obtain s1 n ec where f: "buffered_async_flush m s as outp = Ret (s1, outp @ take n (buffered m s), n, ec)"
    "flushed s s1 n ec"
    by (rule async_flush_result [OF assms(1) en])
  have ok1: "storage_ok s1" "sources_ok s1 bufs" using flushed_ok [OF f(2)] assms(2) by simp_all
  obtain m2 s2 k where c: "on_buffered_write_some m s1 bufs ec = Ret (m2, s2, k, ec)"
    "write_effect m s1 (outp @ take n (buffered m s)) (m2, s2, outp @ take n (buffered m s), contents m bufs k)"
    by (rule on_write_some_effect [OF ok1])
  show thesis
    by (rule that [of m2 s2 "outp @ take n (buffered m s)" k ec])
      (use False f c write_effect_trans [OF flushed_effect [OF f(2)] c(2)] in
        \<open>simp_all add: buffered_async_write_some_def\<close>)
qed


lemma write_call_effect:
  assumes ok: "storage_ok s" and c: "write_call_ok s (c, as)"
  obtains r where "write_call_step m s outp (c, as) = Ret r" and "write_effect m s outp r"
proof (cases c)
  case Flush
  have en: "moving as" "storage_len s < length as" using c Flush by (simp_all add: enough_answers_def)
  show thesis using that Flush flushed_effect
    by (rule_tac write_flush_ec_result [OF ok en, of m outp]) auto
next
  case Flush_throwing
  with c have en: "enough_answers s as" "no_errors as" by simp_all
  show thesis using that Flush_throwing flushed_effect
    by (rule_tac write_flush_result [OF ok en, of m outp]) auto
next
  case (Write_some bufs)
  with that c show thesis by (rule_tac write_some_ec_effect [OF ok, of bufs as m outp]) auto
next
  case (Write_some_throwing bufs)
  with that c show thesis by (rule_tac write_some_throwing_effect [OF ok, of bufs as m outp]) auto
next
  case Async_flush
  have en: "moving as" "storage_len s < length as" using c Async_flush by (simp_all add: enough_answers_def)
  show thesis using that Async_flush flushed_effect
    by (rule_tac async_flush_result [OF ok en, of m outp]) auto
next
  case (Async_write_some bufs)
  with that c show thesis by (rule_tac async_write_some_effect [OF ok, of bufs as m outp]) auto
next
  case (Set_byte a v)
  with c have "a \<notin> storage_region s" by simp
  then have "buffered (m(a := v)) s = buffered m s" by (intro buffered_unchanged [OF ok]) auto
  with that Set_byte ok show thesis by (auto simp: write_effect_def)
qed

lemma write_call_ok_same: "same_vector s s' \<Longrightarrow> write_call_ok s' c = write_call_ok s c"
  by (cases "(s, c)" rule: write_call_ok.cases)
    (simp_all add: enough_answers_def same_vector_region sources_same_vector, auto simp: same_vector_def)

lemma write_calls_effect:
  assumes "storage_ok s" and "list_all (write_call_ok s) calls"
  shows "\<exists>r. write_calls m s outp calls = Ret r \<and> write_effect m s outp r"
  using assms
proof (induction calls arbitrary: m s outp)
  case Nil
  then show ?case by (simp add: write_effect_refl)
next
  case (Cons c cs)
  obtain r where "write_call_step m s outp c = Ret r" "write_effect m s outp r"
    by (rule write_call_effect [OF Cons.prems(1), of "fst c" "snd c" m outp]) (use Cons.prems(2) in simp_all)
  then obtain m1 s1 outp1 bs where r: "write_call_step m s outp c = Ret (m1, s1, outp1, bs)"
    "write_effect m s outp (m1, s1, outp1, bs)" by (cases r) auto
  then have "storage_ok s1" "same_vector s s1" by (simp_all add: write_effect_def)
  then obtain m2 s2 outp2 bs2 where "write_calls m1 s1 outp1 cs = Ret (m2, s2, outp2, bs2)"
      "write_effect m1 s1 outp1 (m2, s2, outp2, bs2)"
    using Cons.IH [of s1 m1 outp1] Cons.prems(2) write_call_ok_same [of s s1]
    by (auto cong: list_all_cong)
  with r have "write_calls m s outp (c # cs) = Ret (m2, s2, outp2, bs @ bs2)"
    "write_effect m s outp (m2, s2, outp2, bs @ bs2)"
    by (auto simp: write_effect_def intro: same_vector_trans)
  then show ?case by blast
qed

text \<open>
  C35. When a write stream sends what it has accepted once and in order: whatever the order of
  \<open>flush\<close> and \<open>write_some\<close>, either with an error code or asynchronous, also when the next layer
  fails half-way, or throwing with a next layer that does not fail (a throwing call on a failing
  layer sends bytes twice, \<open>flush_throw_sends_again\<close>), and whatever the caller does with its own
  memory in between, as long as its buffers lie outside the stream's storage: no assertion fails, and what has been sent, followed by what is
  buffered, is what was sent and buffered at first followed by the bytes the calls have
  accepted. A \<open>flush\<close> after that sends the next bytes, and all of them unless it reports an error.
\<close>

theorem buffered_write_transparent:
  assumes "storage_ok s" and "list_all (write_call_ok s) calls" and "enough_answers s as"
  shows "\<exists>m' s' outp' bs s'' outp'' n ec. write_calls m s outp calls = Ret (m', s', outp', bs)
    \<and> outp' @ buffered m' s' = outp @ buffered m s @ bs
    \<and> write_flush_ec m' s' as outp' = Ret (s'', outp'', n, ec)
    \<and> outp'' @ buffered m' s'' = outp @ buffered m s @ bs
    \<and> (failed ec \<or> storage_empty s'' \<and> outp'' = outp @ buffered m s @ bs)"
proof -
  obtain m' s' outp' bs where w: "write_calls m s outp calls = Ret (m', s', outp', bs)"
    "write_effect m s outp (m', s', outp', bs)"
    using write_calls_effect [OF assms(1,2), of m outp] by (metis prod_cases4)
  then have ok: "storage_ok s'" "same_vector s s'" and
    all: "outp' @ buffered m' s' = outp @ buffered m s @ bs"
    by (simp_all add: write_effect_def)
  have en: "moving as" "storage_len s' < length as"
    using assms(3) ok(2) by (simp_all add: enough_answers_def same_vector_def)
  obtain s'' n ec where f: "write_flush_ec m' s' as outp' = Ret (s'', outp' @ take n (buffered m' s'), n, ec)"
    "flushed s' s'' n ec"
    by (rule write_flush_ec_result [OF ok(1) en])
  then have "buffered m' s'' = drop n (buffered m' s')" "storage_ok s''"
    and "\<not> failed ec \<longrightarrow> n = storage_size s'" by (simp_all add: flushed_def)
  moreover have "\<not> failed ec \<longrightarrow> storage_empty s''"
    using calculation ok(1) storage_empty_iff [of s'' m'] by simp
  ultimately show ?thesis using w(1) f(1) all ok(1) by auto
qed

theorem buffered_write_transparent_witness:
  "\<exists>m' s' outp' bs. write_calls (\<lambda>a. of_nat a) storage_of_8 []
      [(Write_some (One_buffer \<lparr>buf_data = 10, buf_size = 5\<rparr>), replicate 9 (1, Success)),
       (Set_byte 10 0, []),
       (Async_write_some (Multiple_buffers [\<lparr>buf_data = 10, buf_size = 5\<rparr>]), (1, Success) # replicate 8 (0, Eof)),
       (Flush, (2, Success) # replicate 8 (0, Eof))] = Ret (m', s', outp', bs)
    \<and> outp' @ buffered m' s' = bs"
  using buffered_write_transparent [of storage_of_8
      "[(Write_some (One_buffer \<lparr>buf_data = 10, buf_size = 5\<rparr>), replicate 9 (1, Success)),
        (Set_byte 10 0, []),
        (Async_write_some (Multiple_buffers [\<lparr>buf_data = 10, buf_size = 5\<rparr>]), (1, Success) # replicate 8 (0, Eof)),
        (Flush, (2, Success) # replicate 8 (0, Eof))]" "replicate 9 (1, Success)" "\<lambda>a. of_nat a" "[]"]
  by (auto simp: sources_ok_def addresses_def storage_region_def storage_of_8_def new_storage_def
      storage_ok_def size_max_def buffered_def held_def enough_answers_def moving_def)

text \<open>
  Where a write stream does send bytes twice: when \<open>flush()\<close> throws after a part of the
  buffer has gone out, the buffer keeps that part, and the next successful \<open>flush()\<close> sends the
  whole buffer again.
\<close>

theorem flush_throw_sends_again:
  assumes "storage_ok s" and "enough_answers s as" and "enough_answers s as'" and "no_errors as'"
    and "write_flush m s as outp = Ret (s1, outp1, Inl ec)"
  shows "\<exists>n s2. s1 = s \<and> outp1 = outp @ take n (buffered m s)
    \<and> write_flush m s1 as' outp1
        = Ret (s2, outp @ take n (buffered m s) @ buffered m s, Inr (storage_size s))"
proof -
  have en: "moving as" "storage_len s < length as" using assms(2) by (simp_all add: enough_answers_def)
  obtain s' n ec' where f: "flushed s s' n ec'" "storage_consume s n = Some s'"
    "asio_write transfer_all as (Single (flush_source s)) m outp = Some (n, ec', outp @ take n (buffered m s))"
    by (rule flush_write [OF assms(1) en, of m outp])
  then have "s1 = s" "outp1 = outp @ take n (buffered m s)"
    using assms(5) by (auto simp: write_flush_def simp del: asio_write.simps split: if_splits)
  moreover obtain s2 k where "write_flush m s as' outp1 = Ret (s2, outp1 @ take k (buffered m s), Inr k)"
    "flushed s s2 k Success"
    by (rule write_flush_result [OF assms(1,3,4)])
  ultimately show ?thesis using assms(1) by (auto simp: flushed_def)
qed


definition three_buffered :: buffered_stream_storage where
  "three_buffered = (new_storage 100 3)\<lparr>end_offset := 3\<rparr>"

definition failing_answers :: "answer list" where
  "failing_answers = [(2, Success), (0, Eof), (0, Eof), (0, Eof)]"

lemma half_a_flush:
  "write_flush (\<lambda>a. of_nat a) three_buffered failing_answers [] = Ret (three_buffered, [100, 101], Inl Eof)"
proof -
  have source: "flush_source three_buffered = \<lparr>buf_data = 100, buf_size = 3\<rparr>"
    by (simp add: three_buffered_def new_storage_def flush_source_def storage_data_def storage_size_def
        buffer_limit_def buffer_advance_def)
  have "asio_write transfer_all failing_answers (Single \<lparr>buf_data = 100, buf_size = 3\<rparr>) (\<lambda>a. of_nat a) []
      = Some (2, Eof, [100, 101])"
    by (simp add: write_buffer_sequence_def failing_answers_def single_ops_def consuming_single_buffer_def
        single_prepare_def single_consume_def single_empty_def write_some_def addresses_def Let_def
        buffer_limit_def buffer_advance_def check_condition_def transfer_all_def default_max_transfer_size_def)
  then show ?thesis by (simp add: write_flush_def source del: asio_write.simps)
qed

theorem flush_throw_sends_again_witness:
  "\<exists>n s2. write_flush (\<lambda>a. of_nat a) three_buffered (replicate 4 (3, Success)) [100, 101]
      = Ret (s2, take n [100, 101, 102] @ [100, 101, 102], Inr 3)"
proof -
  have b: "buffered (\<lambda>a. of_nat a) three_buffered = [100, 101, 102]" "storage_size three_buffered = 3"
    by (simp_all add: buffered_def held_def three_buffered_def new_storage_def storage_size_def)
  have ok: "storage_ok three_buffered"
    by (simp add: storage_ok_def three_buffered_def new_storage_def size_max_def)
  have en: "enough_answers three_buffered failing_answers"
    "enough_answers three_buffered (replicate 4 (3, Success))" "no_errors (replicate 4 (3, Success))"
    by (auto simp: enough_answers_def moving_def three_buffered_def new_storage_def failing_answers_def
        no_errors_def list_all_iff)
  show ?thesis
    using flush_throw_sends_again [OF ok en half_a_flush] unfolding b by auto
qed

section \<open>Asynchronous and synchronous\<close>

lemma consume_nothing: "storage_ok s \<Longrightarrow> \<not> storage_empty s \<Longrightarrow> storage_consume s 0 = Some s"
  by (simp add: storage_consume_def storage_ok_def Let_def)

lemma copy_nothing_out:
  assumes "storage_ok s" and "targets_ok s bufs" and "buffer_size (sequence bufs) = 0"
    and "\<not> storage_empty s"
  shows "read_copy m s bufs = Ret (m, s, 0)"
proof -
  have empty: "all_addresses (sequence bufs) = []"
    using assms(3) length_all_addresses [of "sequence bufs"] by simp
  then have "buffer_copy_max m bufs (One_buffer (storage_data s)) (storage_size s) = (m, 0)"
    using buffer_copy_max_spec [of bufs "One_buffer (storage_data s)" m "storage_size s"] by simp
  then show ?thesis using consume_nothing [OF assms(1,4)] by (simp add: read_copy_def)
qed

lemma copy_nothing_in:
  assumes "storage_ok s" and "sources_ok s bufs" and "buffer_size (sequence bufs) = 0"
  shows "write_copy m s bufs = Ret (m, s, 0)"
proof -
  have empty: "all_addresses (sequence bufs) = []"
    using assms(3) length_all_addresses [of "sequence bufs"] by simp
  have "storage_resize m s (storage_size s + 0) = Some (m, s)"
    using assms(1) by (auto simp: storage_resize_def storage_size_def storage_capacity_def storage_ok_def)
  moreover have "buffer_copy_max m (One_buffer b) bufs 0 = (m, 0)" for b
    using buffer_copy_max_spec [of "One_buffer b" bufs m 0] empty by simp
  ultimately show ?thesis using assms(3) by (simp add: write_copy_def Let_def)
qed

text \<open>
  \<open>async_read_some\<close> on a read stream ends as \<open>read_some\<close> does, with the same bytes, memory
  and stream, when a next layer that reports an error has read nothing and a read of no bytes
  succeeds. Both read as much as fits of what is buffered; when nothing is, of what one read of
  the next layer brings.
\<close>

theorem buffered_async_read_matches:
  assumes "storage_ok s" and "targets_ok s bufs" and "failed (snd a) \<longrightarrow> fst a = 0"
    and "buffer_size (sequence bufs) = 0 \<or> \<not> storage_empty s \<longrightarrow> snd a = Success"
  shows "buffered_async_read_some m s bufs a inp = buffered_read_some_ec m s bufs a inp
    \<and> (\<exists>m' s' inp' n ec. buffered_read_some_ec m s bufs a inp = Ret (m', s', inp', n, ec)
        \<and> n = min (buffer_size (sequence bufs))
            (if storage_empty s then min (fst a) (min (storage_len s) (length inp)) else storage_size s))"
proof (cases "buffer_size (sequence bufs) = 0 \<or> \<not> storage_empty s")
  case True
  obtain m' s' n where c: "read_copy m s bufs = Ret (m', s', n)"
    "n = min (buffer_size (sequence bufs)) (storage_size s)"
    by (rule read_copy_result [OF assms(1,2), of m])
  show ?thesis
    using True c assms(4) copy_nothing_out [OF assms(1,2), of m]
    by (cases "storage_empty s")
      (auto simp: buffered_async_read_some_def buffered_read_some_ec_def on_read_some_copy)
next
  case False
  obtain m1 s1 n where f: "read_fill_ec m s a inp = Ret (m1, s1, drop n inp, n, snd a)"
    "buffered_async_fill m s a inp = Ret (m1, s1, drop n inp, n, snd a)" "filled m s inp m1 s1 n"
    "n = min (fst a) (min (storage_len s - storage_size s) (length inp))"
    by (rule read_fill_ec_result [OF assms(1), of m a inp])
  have zero: "storage_size s = 0" using False by (simp add: storage_empty_def storage_size_def)
  then have n: "storage_size s1 = n" using filled_size [OF f(3) assms(1)] by simp
  have ok1: "storage_ok s1" "targets_ok s1 bufs" using filled_ok [OF f(3)] assms(2) by simp_all
  then have e1: "storage_empty s1 \<longleftrightarrow> n = 0" using n by (auto simp: storage_empty_def storage_size_def storage_ok_def)
  have err: "n \<noteq> 0 \<Longrightarrow> \<not> failed (snd a)" using assms(3) f(4) by auto
  obtain m2 s2 k where c: "read_copy m1 s1 bufs = Ret (m2, s2, k)"
    "k = min (buffer_size (sequence bufs)) (storage_size s1)"
    by (rule read_copy_result [OF ok1, of m1])
  have "buffered_read_some_ec m s bufs a inp
      = (if n = 0 then Ret (m1, s1, inp, 0, snd a) else Ret (m2, s2, drop n inp, k, snd a))"
    "buffered_async_read_some m s bufs a inp
      = (if n = 0 then Ret (m1, s1, inp, 0, snd a) else Ret (m2, s2, drop n inp, k, snd a))"
    using False f(1,2) e1 err c(1)
    by (cases "n = 0"; simp add: buffered_async_read_some_def buffered_read_some_ec_def on_read_some_copy)+
  moreover have "n = min (fst a) (min (storage_len s) (length inp))" using f(4) zero by simp
  ultimately show ?thesis using False c(2) n by auto
qed

theorem buffered_async_read_matches_witness:
  "buffered_async_read_some (\<lambda>_. 0) storage_of_8 (One_buffer \<lparr>buf_data = 10, buf_size = 2\<rparr>) (4, Success)
      [1, 2, 3, 4, 5]
    = buffered_read_some_ec (\<lambda>_. 0) storage_of_8 (One_buffer \<lparr>buf_data = 10, buf_size = 2\<rparr>) (4, Success)
      [1, 2, 3, 4, 5]"
  using buffered_async_read_matches [OF storage_of_8_ok, of "One_buffer \<lparr>buf_data = 10, buf_size = 2\<rparr>"
      "(4, Success)" "\<lambda>_. 0" "[1, 2, 3, 4, 5]"]
  by (simp add: targets_ok_def addresses_def storage_region_def storage_of_8_def new_storage_def)

lemma async_flush_same:
  assumes "storage_ok s" and "moving as" and "0 < storage_size s"
  shows "buffered_async_flush m s as outp = write_flush_ec m s as outp"
proof -
  have "bind_call (on_flush s ec n) (\<lambda>(s', ec', n'). Ret (s', outp', n', ec'))
      = bind_call (asserted (storage_consume s n)) (\<lambda>s'. Ret (s', outp', n, ec))" for n ec outp'
    by (cases "storage_consume s n") (simp_all add: on_flush_def)
  then show ?thesis
    by (cases "asio_write transfer_all as (Single (flush_source s)) m outp")
      (auto simp: buffered_async_flush_def write_flush_ec_def flush_async [OF assms]
        simp del: asio_write.simps asio_async_write.simps)
qed

text \<open>
  \<open>async_write_some\<close> on a write stream ends as \<open>write_some\<close> does, when a write of no bytes
  succeeds and a flush that fails has sent nothing. Both accept as much as there is room for,
  after a flush when there is none.
\<close>

theorem buffered_async_write_matches:
  assumes "storage_ok s" and "sources_ok s bufs" and "enough_answers s as" and "0 < storage_len s"
    and "buffer_size (sequence bufs) = 0 \<or> storage_size s < storage_len s \<longrightarrow> snd (hd as) = Success"
    and "\<And>s' outp' n ec. write_flush_ec m s as outp = Ret (s', outp', n, ec) \<Longrightarrow> failed ec \<Longrightarrow> n = 0"
  shows "buffered_async_write_some m s bufs as outp = buffered_write_some_ec m s bufs as outp
    \<and> (\<exists>m' s' outp' n ec. buffered_write_some_ec m s bufs as outp = Ret (m', s', outp', n, ec)
        \<and> n = (if failed ec then 0 else min (buffer_size (sequence bufs))
                 (if storage_size s = storage_len s then storage_len s else storage_len s - storage_size s)))"
proof (cases "buffer_size (sequence bufs) = 0 \<or> storage_size s < storage_len s")
  case True
  obtain m' s' n where c: "write_copy m s bufs = Ret (m', s', n)"
    "n = min (buffer_size (sequence bufs)) (storage_len s - storage_size s)"
    by (rule write_copy_result [OF assms(1,2), of m])
  obtain a as' where "as = a # as'" using assms(3) by (cases as) (auto simp: enough_answers_def)
  then show ?thesis
    using True c assms(5) copy_nothing_in [OF assms(1,2), of m]
    by (cases "buffer_size (sequence bufs) = 0")
      (auto simp: buffered_async_write_some_def buffered_write_some_ec_def on_write_some_copy
        storage_capacity_def)
next
  case False
  have full: "storage_size s = storage_len s" using False size_capacity [OF assms(1)] by simp
  have en: "moving as" "storage_len s < length as" using assms(3) by (simp_all add: enough_answers_def)
  obtain s1 n ec where f: "write_flush_ec m s as outp = Ret (s1, outp @ take n (buffered m s), n, ec)"
    "flushed s s1 n ec"
    by (rule write_flush_ec_result [OF assms(1) en])
  have same: "buffered_async_flush m s as outp = write_flush_ec m s as outp"
    by (rule async_flush_same [OF assms(1) en(1)]) (use full assms(4) in simp)
  have ok1: "storage_ok s1" "sources_ok s1 bufs" using flushed_ok [OF f(2)] assms(2) by simp_all
  obtain m2 s2 k where c: "write_copy m s1 bufs = Ret (m2, s2, k)"
    "k = min (buffer_size (sequence bufs)) (storage_len s1 - storage_size s1)"
    by (rule write_copy_result [OF ok1, of m])
  have err: "n = 0 \<longleftrightarrow> failed ec"
    using assms(6) [OF f(1)] f(2) full assms(4) by (auto simp: flushed_def)
  have "storage_size s1 = storage_size s - n" "storage_len s1 = storage_len s"
    using f(2) length_buffered [OF ok1(1), of m] length_buffered [OF assms(1), of m]
    by (simp_all add: flushed_def same_vector_def)
  then have k: "\<not> failed ec \<Longrightarrow> k = min (buffer_size (sequence bufs)) (storage_len s)"
    using c(2) f(2) full by (simp add: flushed_def)
  have "buffered_write_some_ec m s bufs as outp
      = (if failed ec then Ret (m, s1, outp, 0, ec) else Ret (m2, s2, outp @ take n (buffered m s), k, ec))"
    "buffered_async_write_some m s bufs as outp
      = (if failed ec then Ret (m, s1, outp, 0, ec) else Ret (m2, s2, outp @ take n (buffered m s), k, ec))"
    using False f(1) same err c(1) full
    by (cases "failed ec"; simp add: buffered_async_write_some_def buffered_write_some_ec_def
        on_write_some_copy storage_capacity_def)+
  then show ?thesis using k full by auto
qed


theorem buffered_async_write_matches_witness:
  "buffered_async_write_some (\<lambda>_. 0) storage_of_8 (One_buffer \<lparr>buf_data = 10, buf_size = 2\<rparr>)
      (replicate 9 (1, Success)) []
    = buffered_write_some_ec (\<lambda>_. 0) storage_of_8 (One_buffer \<lparr>buf_data = 10, buf_size = 2\<rparr>)
      (replicate 9 (1, Success)) []"
proof -
  have no: "ec = Success" if "write_flush_ec (\<lambda>_. 0) storage_of_8 (replicate 9 (1, Success)) [] = Ret (s', outp', n, ec)"
    for s' outp' n ec
    using that flush_no_error [of "replicate 9 (1, Success)" transfer_all "flush_source storage_of_8" "\<lambda>_. 0" "[]"]
    by (cases "asio_write transfer_all (replicate 9 (1, Success)) (Single (flush_source storage_of_8)) (\<lambda>_. 0) []")
      (auto simp: write_flush_ec_def no_errors_def list_all_iff simp del: asio_write.simps
        simp: asserted_returns)
  have ok: "sources_ok storage_of_8 (One_buffer \<lparr>buf_data = 10, buf_size = 2\<rparr>)"
    "enough_answers storage_of_8 (replicate 9 (1, Success))" "0 < storage_len storage_of_8"
    by (auto simp: sources_ok_def addresses_def storage_region_def storage_of_8_def new_storage_def
        enough_answers_def moving_def)
  show ?thesis
    using buffered_async_write_matches [OF storage_of_8_ok ok, of "\<lambda>_. 0" "[]"] no by fastforce
qed

end
