(* ===== verification/Asio_Reactor.thy ===== *)
theory Asio_Reactor
  imports Prelude "HOL-Library.Multiset"
begin

text \<open>
  \<open>detail/epoll_reactor.hpp\<close> and \<open>detail/impl/epoll_reactor.ipp\<close>, the operations on one
  descriptor: starting an operation, tried at once or queued until epoll reports an event,
  performing what is queued when it does, cancelling and deregistering. Every function here is
  a region under the mutex of the descriptor, and returns the new state of the descriptor with what
  it asks of epoll and of the scheduler, in order. The queues of operations are lists, which
  \<open>Asio_Op_Queue\<close> justifies. The scheduler, the threads that run its operations, and epoll with
  edge-triggered notification are a step relation around these functions.
  Shown here: operations leave in the order in which they were started, each once, and the count
  of outstanding work is exact; no operation waits for an event that epoll will not report. The
  latter needs that an operation that has exhausted the descriptor leaves it not ready.
\<close>

section \<open>Operations\<close>

text \<open>\<open>connect_op\<close> is the same number as \<open>write_op\<close>.\<close>

datatype op_type = Read_op | Write_op | Except_op

datatype event = EPOLLIN | EPOLLOUT | EPOLLPRI | EPOLLERR | EPOLLHUP | EPOLLET

fun flag :: "op_type \<Rightarrow> event" where
  "flag Read_op = EPOLLIN"
| "flag Write_op = EPOLLOUT"
| "flag Except_op = EPOLLPRI"

datatype status = Not_done | Done | Done_and_exhausted

record reactor_op =
  op_id :: nat
  op_ec :: error_code
  op_bytes :: nat

text \<open>
  What \<open>perform\<close> gives is decided by a system call: a status, and the error and the number of
  bytes it leaves in the operation.
\<close>

type_synonym outcome = "status \<times> error_code \<times> nat"

definition perform :: "outcome \<Rightarrow> reactor_op \<Rightarrow> reactor_op" where
  "perform out op = op\<lparr>op_ec := fst (snd out), op_bytes := snd (snd out)\<rparr>"

definition operation_not_supported :: error_code where
  "operation_not_supported = Sys_error 95"

section \<open>The state of a descriptor\<close>

record descriptor_state =
  registered_events :: "event set"
  op_queue :: "op_type \<Rightarrow> reactor_op list"
  try_speculative :: "op_type \<Rightarrow> bool"
  desc_shutdown :: bool

datatype reactor_effect =
    Performed
  | Epoll_mod "event set"
  | Epoll_del
  | Post_immediate reactor_op
  | Work_started
  | Post_deferred "reactor_op list"
  | Complete_now reactor_op
  | Compensate

definition initial_events :: "event set" where
  "initial_events = {EPOLLIN, EPOLLERR, EPOLLHUP, EPOLLPRI, EPOLLET}"

text \<open>
  \<open>register_descriptor\<close>: \<open>d\<close> is what the pool gives, \<open>ctl\<close> what \<open>epoll_ctl\<close> answers. A
  regular file, for which epoll answers \<open>EPERM\<close>, is accepted without being registered.
\<close>

definition eperm :: error_code where
  "eperm = Sys_error 1"

definition register_descriptor ::
  "error_code \<Rightarrow> descriptor_state \<Rightarrow> descriptor_state \<times> error_code" where
  "register_descriptor ctl d =
     (let d1 = d\<lparr>desc_shutdown := False, try_speculative := (\<lambda>_. True), registered_events := initial_events\<rparr>
      in if ctl \<noteq> Success then
           (if ctl = eperm then (d1\<lparr>registered_events := {}\<rparr>, Success) else (d1, ctl))
         else (d1, Success))"

definition register_internal_descriptor ::
  "op_type \<Rightarrow> reactor_op \<Rightarrow> error_code \<Rightarrow> descriptor_state \<Rightarrow> descriptor_state \<times> error_code" where
  "register_internal_descriptor j op ctl d =
     (let d1 = d\<lparr>desc_shutdown := False, op_queue := (op_queue d)(j := op_queue d j @ [op]),
            try_speculative := (\<lambda>_. True), registered_events := initial_events\<rparr>
      in (d1, ctl))"

section \<open>Starting an operation\<close>

text \<open>
  \<open>out\<close> is what \<open>perform\<close> would give, \<open>ctl\<close> what \<open>epoll_ctl\<close> would answer, if called. A missing
  descriptor is the null pointer.
\<close>

definition add_op :: "op_type \<Rightarrow> reactor_op \<Rightarrow> descriptor_state \<Rightarrow> descriptor_state" where
  "add_op j op d = d\<lparr>op_queue := (op_queue d)(j := op_queue d j @ [op])\<rparr>"

text \<open>The part after a speculative attempt that was not made or came too early.\<close>

definition start_waiting ::
  "op_type \<Rightarrow> reactor_op \<Rightarrow> error_code \<Rightarrow> descriptor_state \<Rightarrow> descriptor_state \<times> reactor_effect list" where
  "start_waiting j op ctl d =
     (if registered_events d = {} then (d, [Post_immediate (op\<lparr>op_ec := operation_not_supported\<rparr>)])
      else if j = Write_op \<and> EPOLLOUT \<notin> registered_events d then
        (let ev = insert EPOLLOUT (registered_events d)
         in if ctl = Success
            then (add_op j op (d\<lparr>registered_events := registered_events d \<union> ev\<rparr>), [Epoll_mod ev, Work_started])
            else (d, [Epoll_mod ev, Post_immediate (op\<lparr>op_ec := ctl\<rparr>)]))
      else (add_op j op d, [Work_started]))"

definition start_speculative ::
  "op_type \<Rightarrow> reactor_op \<Rightarrow> outcome \<Rightarrow> error_code \<Rightarrow> descriptor_state
     \<Rightarrow> descriptor_state \<times> reactor_effect list" where
  "start_speculative j op out ctl d =
     (if try_speculative d j then
        (if fst out \<noteq> Not_done then
           (if fst out = Done_and_exhausted \<and> registered_events d \<noteq> {}
            then d\<lparr>try_speculative := (try_speculative d)(j := False)\<rparr> else d,
            [Performed, Post_immediate (perform out op)])
         else (case start_waiting j (perform out op) ctl d of (d', es) \<Rightarrow> (d', Performed # es)))
      else start_waiting j op ctl d)"

text \<open>The branch for operations that are not to be tried at once; its \<open>epoll_ctl\<close> is not checked.\<close>

definition start_rearmed ::
  "op_type \<Rightarrow> reactor_op \<Rightarrow> descriptor_state \<Rightarrow> descriptor_state \<times> reactor_effect list" where
  "start_rearmed j op d =
     (if registered_events d = {} then (d, [Post_immediate (op\<lparr>op_ec := operation_not_supported\<rparr>)])
      else
        (let d1 = (if j = Write_op then d\<lparr>registered_events := insert EPOLLOUT (registered_events d)\<rparr> else d)
         in (add_op j op d1, [Epoll_mod (registered_events d1), Work_started])))"

definition start_op ::
  "op_type \<Rightarrow> reactor_op \<Rightarrow> bool \<Rightarrow> outcome \<Rightarrow> error_code \<Rightarrow> descriptor_state option
     \<Rightarrow> descriptor_state option \<times> reactor_effect list" where
  "start_op j op allow_speculative out ctl data =
     (case data of
        None \<Rightarrow> (None, [Post_immediate (op\<lparr>op_ec := Bad_descriptor\<rparr>)])
      | Some d \<Rightarrow>
          (case (if desc_shutdown d then (d, [Post_immediate op])
                 else if op_queue d j = [] then
                   (if allow_speculative \<and> (j \<noteq> Read_op \<or> op_queue d Except_op = [])
                    then start_speculative j op out ctl d
                    else start_rearmed j op d)
                 else (add_op j op d, [Work_started]))
           of (d', es) \<Rightarrow> (Some d', es)))"

section \<open>Performing what is queued\<close>

text \<open>
  The loop over one queue, with what \<open>perform\<close> gives for each operation: the completed
  operations, the rest, and the status with which the loop ended (\<open>Done\<close>: the queue is empty).
\<close>

fun perform_loop ::
  "(nat \<Rightarrow> outcome) \<Rightarrow> reactor_op list \<Rightarrow> reactor_op list \<times> reactor_op list \<times> status" where
  "perform_loop pf [] = ([], [], Done)"
| "perform_loop pf (op # ops) =
     (case fst (pf (op_id op)) of
        Not_done \<Rightarrow> ([], perform (pf (op_id op)) op # ops, Not_done)
      | Done_and_exhausted \<Rightarrow> ([perform (pf (op_id op)) op], ops, Done_and_exhausted)
      | Done \<Rightarrow> (case perform_loop pf ops of (cs, rest, st) \<Rightarrow> (perform (pf (op_id op)) op # cs, rest, st)))"

definition concerns :: "event set \<Rightarrow> op_type \<Rightarrow> bool" where
  "concerns events j \<longleftrightarrow> flag j \<in> events \<or> EPOLLERR \<in> events \<or> EPOLLHUP \<in> events"

definition perform_queue ::
  "(nat \<Rightarrow> outcome) \<Rightarrow> event set \<Rightarrow> op_type \<Rightarrow> descriptor_state \<times> reactor_op list
     \<Rightarrow> descriptor_state \<times> reactor_op list" where
  "perform_queue pf events j = (\<lambda>(d, ops).
     if concerns events j then
       (case perform_loop pf (op_queue d j) of (cs, rest, st) \<Rightarrow>
          (d\<lparr>op_queue := (op_queue d)(j := rest),
             try_speculative := (try_speculative d)(j := st \<noteq> Done_and_exhausted)\<rparr>, ops @ cs))
     else (d, ops))"

text \<open>
  \<open>perform_io\<close>, and the destructor of its local object that posts all completed operations but
  the first, or tells the scheduler that there were none.
\<close>

definition perform_io ::
  "(nat \<Rightarrow> outcome) \<Rightarrow> event set \<Rightarrow> descriptor_state \<Rightarrow> descriptor_state \<times> reactor_op list" where
  "perform_io pf events d =
     perform_queue pf events Read_op (perform_queue pf events Write_op
       (perform_queue pf events Except_op (d, [])))"

definition perform_io_cleanup :: "reactor_op list \<Rightarrow> reactor_effect list" where
  "perform_io_cleanup ops =
     (case ops of
        [] \<Rightarrow> [Compensate]
      | first_op # rest \<Rightarrow> (if rest \<noteq> [] then [Post_deferred rest] else []))"

definition descriptor_do_complete ::
  "bool \<Rightarrow> (nat \<Rightarrow> outcome) \<Rightarrow> event set \<Rightarrow> descriptor_state \<Rightarrow> descriptor_state \<times> reactor_effect list" where
  "descriptor_do_complete owner pf events d =
     (if owner then
        (case perform_io pf events d of (d', ops) \<Rightarrow>
           (d', perform_io_cleanup ops @ (case ops of [] \<Rightarrow> [] | first_op # _ \<Rightarrow> [Complete_now first_op])))
      else (d, []))"

section \<open>Cancelling and deregistering\<close>

definition aborted :: "reactor_op list \<Rightarrow> reactor_op list" where
  "aborted ops = map (\<lambda>op. op\<lparr>op_ec := Operation_aborted\<rparr>) ops"

definition all_queued :: "descriptor_state \<Rightarrow> reactor_op list" where
  "all_queued d = op_queue d Read_op @ op_queue d Write_op @ op_queue d Except_op"

definition cancel_ops :: "descriptor_state option \<Rightarrow> descriptor_state option \<times> reactor_effect list" where
  "cancel_ops data =
     (case data of None \<Rightarrow> (None, [])
      | Some d \<Rightarrow> (Some (d\<lparr>op_queue := (\<lambda>_. [])\<rparr>), [Post_deferred (aborted (all_queued d))]))"

text \<open>When the reactor has been shut down the pointer is cleared and the object left to it.\<close>

definition deregister_descriptor ::
  "bool \<Rightarrow> descriptor_state option \<Rightarrow> descriptor_state option \<times> reactor_effect list" where
  "deregister_descriptor closing data =
     (case data of None \<Rightarrow> (None, [])
      | Some d \<Rightarrow>
          (if \<not> desc_shutdown d then
             (Some (d\<lparr>op_queue := (\<lambda>_. []), desc_shutdown := True\<rparr>),
              (if closing then [] else if registered_events d \<noteq> {} then [Epoll_del] else []) @
              [Post_deferred (aborted (all_queued d))])
           else (None, [])))"

definition deregister_internal_descriptor ::
  "descriptor_state option \<Rightarrow> descriptor_state option \<times> reactor_effect list" where
  "deregister_internal_descriptor data =
     (case data of None \<Rightarrow> (None, [])
      | Some d \<Rightarrow>
          (if \<not> desc_shutdown d then
             (Some (d\<lparr>op_queue := (\<lambda>_. []), desc_shutdown := True\<rparr>), [Epoll_del])
           else (None, [])))"

definition cleanup_descriptor_data :: "descriptor_state option \<Rightarrow> descriptor_state option" where
  "cleanup_descriptor_data data = None"

text \<open>\<open>shutdown\<close> of the reactor, for one descriptor: the operations go to the scheduler to be destroyed.\<close>

definition shutdown_descriptor :: "descriptor_state \<Rightarrow> descriptor_state \<times> reactor_op list" where
  "shutdown_descriptor d = (d\<lparr>op_queue := (\<lambda>_. []), desc_shutdown := True\<rparr>, all_queued d)"

text \<open>
  \<open>run\<close>, for one reported descriptor: it is queued with its events, or, when it is in the
  queue already, gets them in addition.
\<close>

definition dispatch_event :: "event set \<Rightarrow> event set option \<Rightarrow> event set option" where
  "dispatch_event events queued =
     (case queued of None \<Rightarrow> Some events | Some old \<Rightarrow> Some (old \<union> events))"


section \<open>The reactor at work\<close>

text \<open>
  One descriptor from its registration on. \<open>data\<close> is the pointer of its owner, \<open>object\<close> what it
  points to, which stays when the pointer is cleared. Of epoll: the conditions that hold at the
  descriptor, the events it is registered for, and whether it is in the list of what the next
  \<open>epoll_wait\<close> looks at. Of the scheduler: the events with which the descriptor is in its queue,
  those with which threads have taken it out, the operations posted, the outstanding work. The
  last three fields record what has happened.
\<close>

record reactor =
  has_data :: bool
  object :: descriptor_state
  conditions :: "event set"
  interest :: "event set option"
  on_ready_list :: bool
  queued_events :: "event set option"
  taken_events :: "event set list"
  posted :: "reactor_op list"
  outstanding :: int
  started :: "op_type \<Rightarrow> nat list"
  departed :: "op_type \<Rightarrow> nat list"
  completed :: "reactor_op list"

definition data_of :: "reactor \<Rightarrow> descriptor_state option" where
  "data_of s = (if has_data s then Some (object s) else None)"

definition set_data :: "descriptor_state option \<Rightarrow> reactor \<Rightarrow> reactor" where
  "set_data data s =
     (case data of None \<Rightarrow> s\<lparr>has_data := False\<rparr> | Some d \<Rightarrow> s\<lparr>has_data := True, object := d\<rparr>)"

text \<open>
  epoll is edge-triggered: a registered descriptor gets on the list when a condition that it is
  registered for arises, and when it is registered or modified while one holds; \<open>epoll_wait\<close> takes
  it off and reports the conditions that hold. Errors are always reported.
\<close>

definition reported :: "event set \<Rightarrow> event set \<Rightarrow> event set" where
  "reported conds ev = conds \<inter> insert EPOLLERR (insert EPOLLHUP ev)"

fun run_effect :: "error_code \<Rightarrow> reactor_effect \<Rightarrow> reactor \<Rightarrow> reactor" where
  "run_effect ctl Performed s = s"
| "run_effect ctl (Epoll_mod ev) s =
     (if ctl = Success
      then s\<lparr>interest := Some ev, on_ready_list := on_ready_list s \<or> reported (conditions s) ev \<noteq> {}\<rparr>
      else s)"
| "run_effect ctl Epoll_del s = s\<lparr>interest := None, on_ready_list := False\<rparr>"
| "run_effect ctl (Post_immediate op) s = s\<lparr>posted := posted s @ [op], outstanding := outstanding s + 1\<rparr>"
| "run_effect ctl Work_started s = s\<lparr>outstanding := outstanding s + 1\<rparr>"
| "run_effect ctl (Post_deferred ops) s = s\<lparr>posted := posted s @ ops\<rparr>"
| "run_effect ctl (Complete_now op) s = s\<lparr>completed := completed s @ [op]\<rparr>"
| "run_effect ctl Compensate s = s\<lparr>outstanding := outstanding s + 1\<rparr>"

definition run_effects :: "error_code \<Rightarrow> reactor_effect list \<Rightarrow> reactor \<Rightarrow> reactor" where
  "run_effects ctl es s = fold (run_effect ctl) es s"

definition ready :: "event set \<Rightarrow> op_type \<Rightarrow> bool" where
  "ready conds j \<longleftrightarrow> concerns conds j"

text \<open>
  What an attempt may do to the conditions: it can end its own one (and fetch a pending
  error). When it was not done, the descriptor is not ready for it; the flag tells whether the same
  is known of \<open>Done_and_exhausted\<close>.
\<close>

definition stopped :: "bool \<Rightarrow> status \<Rightarrow> bool" where
  "stopped strict st \<longleftrightarrow> st = Not_done \<or> strict \<and> st = Done_and_exhausted"

definition attempt :: "bool \<Rightarrow> op_type \<Rightarrow> status \<Rightarrow> event set \<Rightarrow> event set \<Rightarrow> bool" where
  "attempt strict j st conds conds' \<longleftrightarrow>
     conds - {flag j, EPOLLERR} \<subseteq> conds' \<and> conds' \<subseteq> conds \<and> (stopped strict st \<longrightarrow> \<not> ready conds' j)"

definition loop_status :: "(nat \<Rightarrow> outcome) \<Rightarrow> reactor_op list \<Rightarrow> status" where
  "loop_status pf ops = snd (snd (perform_loop pf ops))"

definition performed_ops :: "(nat \<Rightarrow> outcome) \<Rightarrow> event set \<Rightarrow> descriptor_state \<Rightarrow> op_type \<Rightarrow> reactor_op list" where
  "performed_ops pf events d j =
     (if concerns events j then fst (perform_loop pf (op_queue d j)) else [])"

definition attempts ::
  "bool \<Rightarrow> (nat \<Rightarrow> outcome) \<Rightarrow> event set \<Rightarrow> descriptor_state \<Rightarrow> event set \<Rightarrow> event set \<Rightarrow> bool" where
  "attempts strict pf events d conds conds' \<longleftrightarrow>
     conds - ({flag j |j. concerns events j} \<union> {EPOLLERR}) \<subseteq> conds' \<and> conds' \<subseteq> conds
     \<and> (\<forall>j. concerns events j \<and> stopped strict (loop_status pf (op_queue d j)) \<longrightarrow> \<not> ready conds' j)"

definition known_ids :: "reactor \<Rightarrow> nat set" where
  "known_ids s = (\<Union>j. set (started s j))"

text \<open>
  The steps. \<open>Start\<close> is any call of \<open>start_op\<close>, on which an \<open>epoll_ctl\<close> that the code does not check
  is taken to succeed; \<open>Wait\<close> is the reactor's turn in the scheduler, which comes when the descriptor
  is not in its queue; \<open>Handle\<close> is a thread that runs the descriptor's own operation; \<open>Deregister\<close>
  includes the release of the object by \<open>cleanup_descriptor_data\<close>.
\<close>

inductive reactor_step :: "bool \<Rightarrow> reactor \<Rightarrow> reactor \<Rightarrow> bool" for strict where
  Start: "\<lbrakk> op_id op \<notin> known_ids s;
      start_op j op allow out ctl (data_of s) = (data', es);
      if Performed \<in> set es then attempt strict j (fst out) (conditions s) conds' else conds' = conditions s;
      ctl = Success \<or> allow \<and> (j \<noteq> Read_op \<or> op_queue (object s) Except_op = []) \<rbrakk>
    \<Longrightarrow> reactor_step strict s
      ((set_data data' (run_effects ctl es (s\<lparr>conditions := conds'\<rparr>)))
        \<lparr>started := (started s)(j := started s j @ [op_id op]),
         departed := (if \<exists>op'. Post_immediate op' \<in> set es
           then (departed s)(j := departed s j @ [op_id op]) else departed s)\<rparr>)"
| Arise: "reactor_step strict s
      (s\<lparr>conditions := insert e (conditions s),
         on_ready_list := on_ready_list s \<or> (\<exists>ev. interest s = Some ev \<and> reported {e} ev \<noteq> {})\<rparr>)"
| Vanish: "reactor_step strict s (s\<lparr>conditions := conditions s - {e}\<rparr>)"
| Wait: "\<lbrakk> on_ready_list s; queued_events s = None; interest s = Some ev \<rbrakk>
    \<Longrightarrow> reactor_step strict s
      (s\<lparr>on_ready_list := False,
         queued_events := (if reported (conditions s) ev = {} then None
           else dispatch_event (reported (conditions s) ev) None)\<rparr>)"
| Take: "queued_events s = Some events
    \<Longrightarrow> reactor_step strict s (s\<lparr>queued_events := None, taken_events := events # taken_events s\<rparr>)"
| Handle: "\<lbrakk> events \<in> set (taken_events s);
      descriptor_do_complete True pf events (object s) = (d', es);
      attempts strict pf events (object s) (conditions s) conds' \<rbrakk>
    \<Longrightarrow> reactor_step strict s
      ((run_effects Success es (s\<lparr>conditions := conds', object := d',
          taken_events := remove1 events (taken_events s)\<rparr>))
        \<lparr>outstanding := outstanding (run_effects Success es s) - 1,
         departed := (\<lambda>j. departed s j @ map op_id (performed_ops pf events (object s) j))\<rparr>)"
| Run_posted: "posted s = op # ops
    \<Longrightarrow> reactor_step strict s
      (s\<lparr>posted := ops, completed := completed s @ [op], outstanding := outstanding s - 1\<rparr>)"
| Cancel: "cancel_ops (data_of s) = (data', es)
    \<Longrightarrow> reactor_step strict s
      ((set_data data' (run_effects Success es s))
        \<lparr>departed := (if has_data s then (\<lambda>j. departed s j @ map op_id (op_queue (object s) j)) else departed s)\<rparr>)"
| Deregister: "deregister_descriptor closing (data_of s) = (data', es)
    \<Longrightarrow> reactor_step strict s
      ((set_data (cleanup_descriptor_data data') (set_data data' (run_effects Success es s)))
        \<lparr>interest := None, on_ready_list := False,
         departed := (if has_data s then (\<lambda>j. departed s j @ map op_id (op_queue (object s) j)) else departed s)\<rparr>)"

text \<open>The state right after a registration that has succeeded.\<close>

definition registered_with :: "error_code \<Rightarrow> event set \<Rightarrow> descriptor_state \<Rightarrow> reactor \<Rightarrow> bool" where
  "registered_with ctl conds d s \<longleftrightarrow>
     (\<forall>j. op_queue d j = []) \<and> snd (register_descriptor ctl d) = Success
     \<and> s = \<lparr>has_data = True, object = fst (register_descriptor ctl d), conditions = conds,
             interest = (if ctl = Success then Some initial_events else None),
             on_ready_list = (ctl = Success \<and> reported conds initial_events \<noteq> {}),
             queued_events = None, taken_events = [], posted = [], outstanding = 0,
             started = (\<lambda>_. []), departed = (\<lambda>_. []), completed = []\<rparr>"

inductive reactor_reachable :: "bool \<Rightarrow> reactor \<Rightarrow> bool" for strict where
  Registered: "registered_with ctl conds d s \<Longrightarrow> reactor_reachable strict s"
| Step: "reactor_reachable strict s \<Longrightarrow> reactor_step strict s s' \<Longrightarrow> reactor_reachable strict s'"


section \<open>What the functions do to queues and counts\<close>

inductive_cases reactor_stepE: "reactor_step strict s s'"

fun work_of :: "reactor_effect \<Rightarrow> int" where
  "work_of (Post_immediate op) = 1"
| "work_of Work_started = 1"
| "work_of Compensate = 1"
| "work_of _ = 0"

fun posts_of :: "reactor_effect \<Rightarrow> reactor_op list" where
  "posts_of (Post_immediate op) = [op]"
| "posts_of (Post_deferred ops) = ops"
| "posts_of _ = []"

fun completes_of :: "reactor_effect \<Rightarrow> reactor_op list" where
  "completes_of (Complete_now op) = [op]"
| "completes_of _ = []"

lemma run_effects_simps [simp]:
  "run_effects ctl [] s = s"
  "run_effects ctl (e # es) s = run_effects ctl es (run_effect ctl e s)"
  by (simp_all add: run_effects_def)

lemma run_effect_frame:
  "has_data (run_effect ctl e s) = has_data s \<and> object (run_effect ctl e s) = object s
   \<and> conditions (run_effect ctl e s) = conditions s \<and> queued_events (run_effect ctl e s) = queued_events s
   \<and> taken_events (run_effect ctl e s) = taken_events s \<and> started (run_effect ctl e s) = started s
   \<and> departed (run_effect ctl e s) = departed s
   \<and> outstanding (run_effect ctl e s) = outstanding s + work_of e
   \<and> posted (run_effect ctl e s) = posted s @ posts_of e
   \<and> completed (run_effect ctl e s) = completed s @ completes_of e"
  by (cases "(ctl, e, s)" rule: run_effect.cases) simp_all

lemma run_effects_frame [simp]:
  "has_data (run_effects ctl es s) = has_data s" "object (run_effects ctl es s) = object s"
  "conditions (run_effects ctl es s) = conditions s" "queued_events (run_effects ctl es s) = queued_events s"
  "taken_events (run_effects ctl es s) = taken_events s" "started (run_effects ctl es s) = started s"
  "departed (run_effects ctl es s) = departed s"
  "outstanding (run_effects ctl es s) = outstanding s + sum_list (map work_of es)"
  "posted (run_effects ctl es s) = posted s @ concat (map posts_of es)"
  "completed (run_effects ctl es s) = completed s @ concat (map completes_of es)"
  by (induction es arbitrary: s; simp add: run_effect_frame)+

text \<open>An operation that is started is either posted at once or at the end of its queue.\<close>

definition posts_only :: "reactor_op \<Rightarrow> reactor_effect list \<Rightarrow> bool" where
  "posts_only op es \<longleftrightarrow> (\<exists>op'. concat (map posts_of es) = [op'] \<and> op_id op' = op_id op
     \<and> Post_immediate op' \<in> set es) \<and> sum_list (map work_of es) = 1 \<and> concat (map completes_of es) = []"

definition queues_only :: "reactor_effect list \<Rightarrow> bool" where
  "queues_only es \<longleftrightarrow> concat (map posts_of es) = [] \<and> sum_list (map work_of es) = 1
     \<and> concat (map completes_of es) = [] \<and> (\<forall>op. Post_immediate op \<notin> set es)"

lemma perform_id [simp]: "op_id (perform out op) = op_id op"
  by (simp add: perform_def)

lemma push_op_simps [simp]:
  "op_queue (add_op j op d) = (op_queue d)(j := op_queue d j @ [op])"
  "registered_events (add_op j op d) = registered_events d"
  "try_speculative (add_op j op d) = try_speculative d"
  "desc_shutdown (add_op j op d) = desc_shutdown d"
  by (simp_all add: add_op_def)

definition started_as ::
  "op_type \<Rightarrow> reactor_op \<Rightarrow> descriptor_state \<Rightarrow> descriptor_state \<times> reactor_effect list \<Rightarrow> bool" where
  "started_as j op d r \<longleftrightarrow> desc_shutdown (fst r) = desc_shutdown d \<and>
     (posts_only op (snd r) \<and> op_queue (fst r) = op_queue d \<and> (op_queue d j = [] \<or> desc_shutdown d) \<or>
      queues_only (snd r) \<and> (\<exists>op'. op_id op' = op_id op
        \<and> op_queue (fst r) = (op_queue d)(j := op_queue d j @ [op'])))"

lemma start_waiting_as: "op_queue d j = [] \<Longrightarrow> op_id tried = op_id op
    \<Longrightarrow> started_as j op d (start_waiting j tried ctl d)"
  by (auto simp: start_waiting_def started_as_def posts_only_def queues_only_def Let_def)

lemma start_speculative_as:
  assumes "op_queue d j = []"
  shows "started_as j op d (start_speculative j op out ctl d)"
proof (cases "try_speculative d j \<and> fst out = Not_done")
  case True
  obtain d' es where w: "start_waiting j (perform out op) ctl d = (d', es)" by fastforce
  from start_waiting_as [OF assms perform_id [of out op], of ctl] True w show ?thesis
    by (auto simp: start_speculative_def started_as_def posts_only_def queues_only_def)
next
  case False
  then show ?thesis using assms start_waiting_as [OF assms refl, of op ctl]
    by (auto simp: start_speculative_def started_as_def posts_only_def queues_only_def)
qed

lemma start_rearmed_as: "op_queue d j = [] \<Longrightarrow> started_as j op d (start_rearmed j op d)"
  by (auto simp: start_rearmed_def started_as_def posts_only_def queues_only_def Let_def)

lemma start_op_none: "start_op j op allow out ctl None = (None, es) \<Longrightarrow> posts_only op es"
  by (auto simp: start_op_def posts_only_def)

lemma start_op_some:
  assumes "start_op j op allow out ctl (Some d) = (data', es)"
  obtains d' where "data' = Some d'" and "started_as j op d (d', es)"
    and "desc_shutdown d \<Longrightarrow> posts_only op es \<and> d' = d"
proof -
  have direct: "desc_shutdown d \<Longrightarrow> started_as j op d (d, [Post_immediate op])" "posts_only op [Post_immediate op]"
    "started_as j op d (add_op j op d, [Work_started])"
    by (auto simp: started_as_def posts_only_def queues_only_def)
  show thesis
    using assms that direct start_speculative_as [of d j op out ctl] start_rearmed_as [of d j op]
    by (auto simp: start_op_def split: prod.splits if_splits)
qed

lemma perform_loop_ids:
  "perform_loop pf ops = (cs, rest, st) \<Longrightarrow> map op_id cs @ map op_id rest = map op_id ops"
proof (induction ops arbitrary: cs rest st)
  case (Cons op ops)
  then show ?case
    by (cases "fst (pf (op_id op))"; cases "perform_loop pf ops") auto
qed simp

definition queue_after ::
  "(nat \<Rightarrow> outcome) \<Rightarrow> event set \<Rightarrow> descriptor_state \<Rightarrow> op_type \<Rightarrow> reactor_op list" where
  "queue_after pf events d j =
     (if concerns events j then fst (snd (perform_loop pf (op_queue d j))) else op_queue d j)"

lemma performed_then_queue:
  "map op_id (op_queue d j) = map op_id (performed_ops pf events d j) @ map op_id (queue_after pf events d j)"
  using perform_loop_ids [of pf "op_queue d j"]
  by (cases "perform_loop pf (op_queue d j)") (auto simp: performed_ops_def queue_after_def)

definition spec_after ::
  "(nat \<Rightarrow> outcome) \<Rightarrow> event set \<Rightarrow> descriptor_state \<Rightarrow> op_type \<Rightarrow> bool" where
  "spec_after pf events d j =
     (if concerns events j then loop_status pf (op_queue d j) \<noteq> Done_and_exhausted else try_speculative d j)"

lemma perform_queue_result:
  "perform_queue pf events j (d, ops) =
    (d\<lparr>op_queue := (op_queue d)(j := queue_after pf events d j),
       try_speculative := (try_speculative d)(j := spec_after pf events d j)\<rparr>,
     ops @ performed_ops pf events d j)"
  by (simp add: perform_queue_def queue_after_def spec_after_def performed_ops_def loop_status_def
      split: prod.splits)

lemma op_type_ext:
  assumes "f Read_op = g Read_op" and "f Write_op = g Write_op" and "f Except_op = g Except_op"
  shows "f = g"
proof (rule ext)
  fix j
  show "f j = g j" using assms by (cases j) simp_all
qed

lemma perform_io_result:
  "perform_io pf events d =
    (d\<lparr>op_queue := queue_after pf events d, try_speculative := spec_after pf events d\<rparr>,
     performed_ops pf events d Except_op @ performed_ops pf events d Write_op
       @ performed_ops pf events d Read_op)"
proof -
  have q: "(op_queue d)(Except_op := queue_after pf events d Except_op, Write_op := queue_after pf events d Write_op,
      Read_op := queue_after pf events d Read_op) = queue_after pf events d"
    and t: "(try_speculative d)(Except_op := spec_after pf events d Except_op,
      Write_op := spec_after pf events d Write_op, Read_op := spec_after pf events d Read_op) = spec_after pf events d"
    by (rule op_type_ext; simp)+
  have other: "queue_after pf events (d\<lparr>op_queue := (op_queue d)(k := x), try_speculative := y\<rparr>) j = queue_after pf events d j"
    "spec_after pf events (d\<lparr>op_queue := (op_queue d)(k := x), try_speculative := (try_speculative d)(k := z)\<rparr>) j = spec_after pf events d j"
    "performed_ops pf events (d\<lparr>op_queue := (op_queue d)(k := x), try_speculative := y\<rparr>) j = performed_ops pf events d j"
    if "j \<noteq> k" for j k x y z
    using that by (simp_all add: queue_after_def spec_after_def performed_ops_def)
  have three: "queue_after pf events (d\<lparr>op_queue := (op_queue d)(Except_op := x, Write_op := x'), try_speculative := y\<rparr>) Read_op
      = queue_after pf events d Read_op"
    "spec_after pf events (d\<lparr>op_queue := (op_queue d)(Except_op := x, Write_op := x'),
      try_speculative := (try_speculative d)(Except_op := z, Write_op := z')\<rparr>) Read_op = spec_after pf events d Read_op"
    "performed_ops pf events (d\<lparr>op_queue := (op_queue d)(Except_op := x, Write_op := x'), try_speculative := y\<rparr>) Read_op
      = performed_ops pf events d Read_op" for x x' y z z'
    by (simp_all add: queue_after_def spec_after_def performed_ops_def)
  show ?thesis by (simp add: perform_io_def perform_queue_result other three q t)
qed

section \<open>Order and accounting\<close>

definition total_queued :: "descriptor_state \<Rightarrow> nat" where
  "total_queued d = length (all_queued d)"

definition all_types :: "(op_type \<Rightarrow> 'a list) \<Rightarrow> 'a list" where
  "all_types f = f Read_op @ f Write_op @ f Except_op"

definition order_inv :: "reactor \<Rightarrow> bool" where
  "order_inv s \<longleftrightarrow>
     (\<forall>j. started s j = departed s j @ map op_id (op_queue (object s) j))
     \<and> (\<not> has_data s \<longrightarrow> (\<forall>j. op_queue (object s) j = []))
     \<and> (has_data s \<longrightarrow> \<not> desc_shutdown (object s))
     \<and> outstanding s = int (total_queued (object s)) + int (length (posted s))
     \<and> mset (all_types (departed s)) = mset (map op_id (posted s @ completed s))
     \<and> distinct (all_types (started s))"

lemma known_all_types: "known_ids s = set (all_types (started s))"
  by (auto simp: known_ids_def all_types_def) (metis op_type.exhaust)

lemma all_types_append:
  "mset (all_types (f(j := f j @ xs))) = mset (all_types f) + mset xs"
  by (cases j) (simp_all add: all_types_def)

lemma distinct_all_types:
  "distinct (all_types (f(j := f j @ [x]))) \<longleftrightarrow> distinct (all_types f) \<and> x \<notin> set (all_types f)"
  by (cases j) (auto simp: all_types_def)

lemma total_push: "total_queued (d\<lparr>op_queue := (op_queue d)(j := op_queue d j @ [op])\<rparr>) = Suc (total_queued d)"
  by (cases j) (simp_all add: total_queued_def all_queued_def)

lemma total_queued_cong: "op_queue d = op_queue d' \<Longrightarrow> total_queued d = total_queued d'"
  by (simp add: total_queued_def all_queued_def)


lemma order_start:
  assumes inv: "order_inv s" and fresh: "op_id op \<notin> known_ids s"
    and r: "start_op j op allow out ctl (data_of s) = (data', es)"
  shows "order_inv ((set_data data' (run_effects ctl es (s\<lparr>conditions := conds'\<rparr>)))
        \<lparr>started := (started s)(j := started s j @ [op_id op]),
         departed := (if \<exists>op'. Post_immediate op' \<in> set es
           then (departed s)(j := departed s j @ [op_id op]) else departed s)\<rparr>)"
proof -
  have new: "distinct (all_types ((started s)(j := started s j @ [op_id op])))"
    using inv fresh unfolding distinct_all_types known_all_types order_inv_def by blast
  have post: "mset (map op_id (concat (map posts_of es))) = {#op_id op#}
      \<and> length (concat (map posts_of es)) = 1 \<and> (\<exists>op'. Post_immediate op' \<in> set es)" if "posts_only op es"
    using that by (auto simp: posts_only_def)
  show ?thesis
  proof (cases "has_data s")
    case False
    then have "data' = None" and p: "posts_only op es"
      using r start_op_none by (auto simp: data_of_def start_op_def)
    then show ?thesis
      using False inv new post [OF p] p
      by (auto simp: order_inv_def set_data_def posts_only_def all_types_append total_queued_def)
  next
    case True
    with r obtain d' where d': "data' = Some d'" "started_as j op (object s) (d', es)"
      by (auto simp: data_of_def elim: start_op_some)
    then consider (posted) "posts_only op es" "op_queue d' = op_queue (object s)"
          "op_queue (object s) j = [] \<or> desc_shutdown (object s)"
      | (queued) op' where "queues_only es" "op_id op' = op_id op"
          "op_queue d' = (op_queue (object s))(j := op_queue (object s) j @ [op'])"
      by (auto simp: started_as_def)
    then show ?thesis
    proof cases
      case posted
      then show ?thesis
        using True d' inv new post [OF posted(1)] total_queued_cong [OF posted(2)]
        by (auto simp: order_inv_def set_data_def posts_only_def all_types_append started_as_def)
    next
      case queued
      have "total_queued d' = Suc (total_queued (object s))"
        using queued(3) total_push [of "object s" j op'] by (simp add: total_queued_def all_queued_def)
      then show ?thesis
        using True d' inv new queued
        by (auto simp: order_inv_def set_data_def queues_only_def started_as_def)
    qed
  qed
qed

lemma cleanup_effects:
  "concat (map posts_of (perform_io_cleanup ops)) = tl ops"
  "concat (map completes_of (perform_io_cleanup ops)) = []"
  "sum_list (map work_of (perform_io_cleanup ops)) = (if ops = [] then 1 else 0)"
  by (cases ops; simp add: perform_io_cleanup_def)+

lemma do_complete_effects:
  assumes "descriptor_do_complete True pf events d = (d', es)"
  defines "ops \<equiv> performed_ops pf events d Except_op @ performed_ops pf events d Write_op
       @ performed_ops pf events d Read_op"
  shows "d' = d\<lparr>op_queue := queue_after pf events d, try_speculative := spec_after pf events d\<rparr>"
    and "concat (map posts_of es) = tl ops"
    and "concat (map completes_of es) = (if ops = [] then [] else [hd ops])"
    and "sum_list (map work_of es) = (if ops = [] then 1 else 0)"
proof -
  have es: "es = perform_io_cleanup ops @ (case ops of [] \<Rightarrow> [] | first_op # _ \<Rightarrow> [Complete_now first_op])"
    and "d' = d\<lparr>op_queue := queue_after pf events d, try_speculative := spec_after pf events d\<rparr>"
    using assms(1) by (auto simp: descriptor_do_complete_def perform_io_result ops_def)
  then show "d' = d\<lparr>op_queue := queue_after pf events d, try_speculative := spec_after pf events d\<rparr>" by simp
  show "concat (map posts_of es) = tl ops"
    "concat (map completes_of es) = (if ops = [] then [] else [hd ops])"
    "sum_list (map work_of es) = (if ops = [] then 1 else 0)"
    by (cases ops; simp add: es cleanup_effects)+
qed

lemma total_after:
  "total_queued d = length (performed_ops pf events d Except_op) + length (performed_ops pf events d Write_op)
     + length (performed_ops pf events d Read_op)
     + total_queued (d\<lparr>op_queue := queue_after pf events d, try_speculative := x\<rparr>)"
proof -
  have "length (op_queue d j) = length (performed_ops pf events d j) + length (queue_after pf events d j)" for j
    using performed_then_queue [of d j pf events] by (metis length_append length_map)
  then show ?thesis by (simp add: total_queued_def all_queued_def)
qed

lemma order_handle:
  assumes inv: "order_inv s" and c: "descriptor_do_complete True pf events (object s) = (d', es)"
  shows "order_inv ((run_effects Success es (s\<lparr>conditions := conds', object := d',
          taken_events := remove1 events (taken_events s)\<rparr>))
        \<lparr>outstanding := outstanding (run_effects Success es s) - 1,
         departed := (\<lambda>j. departed s j @ map op_id (performed_ops pf events (object s) j))\<rparr>)"
proof -
  define ops where "ops = performed_ops pf events (object s) Except_op
    @ performed_ops pf events (object s) Write_op @ performed_ops pf events (object s) Read_op"
  note eff = do_complete_effects [OF c, folded ops_def]
  have total: "total_queued (object s) = length ops + total_queued d'"
    using total_after [of "object s" pf events "spec_after pf events (object s)"] eff(1) by (simp add: ops_def)
  have "started s j = (departed s j @ map op_id (performed_ops pf events (object s) j)) @ map op_id (op_queue d' j)" for j
    using inv performed_then_queue [of "object s" j pf events] eff(1) by (simp add: order_inv_def)
  moreover have "op_queue d' j = []" if "\<not> has_data s" for j
    using that inv performed_then_queue [of "object s" j pf events] eff(1) by (simp add: order_inv_def)
  moreover have "mset (all_types (\<lambda>j. departed s j @ map op_id (performed_ops pf events (object s) j)))
      = mset (all_types (departed s)) + mset (map op_id ops)"
    by (simp add: all_types_def ops_def)
  moreover have "mset (map op_id ops) = mset (map op_id (tl ops)) + mset (map op_id (if ops = [] then [] else [hd ops]))"
    by (cases ops) simp_all
  moreover have "int (length ops) = int (length (tl ops)) + (if ops = [] then 0 else 1)"
    by (cases ops) simp_all
  ultimately show ?thesis
    using inv eff total by (auto simp: order_inv_def)
qed

lemma aborted_ids [simp]:
  "map op_id (aborted ops) = map op_id ops" "length (aborted ops) = length ops"
  "image_mset op_id (mset (aborted ops)) = image_mset op_id (mset ops)"
  by (simp_all add: aborted_def multiset.map_comp comp_def)

lemma order_emptied:
  assumes "order_inv s" and "has_data s"
    and "op_queue d' = (\<lambda>_. [])"
  shows "started s j = departed s j @ map op_id (op_queue (object s) j) @ map op_id (op_queue d' j)"
    and "mset (all_types (\<lambda>j. departed s j @ map op_id (op_queue (object s) j)))
      = mset (all_types (departed s)) + mset (map op_id (all_queued (object s)))"
    and "total_queued d' = 0"
  using assms by (simp_all add: order_inv_def all_types_def all_queued_def total_queued_def)

lemma order_step:
  assumes "reactor_step strict s s'" and "order_inv s"
  shows "order_inv s'"
  using assms
proof cases
  case (Start op j allow out ctl data' es conds')
  show ?thesis unfolding Start(1) by (rule order_start [OF assms(2) Start(2,3)])
next
  case (Handle events pf d' es conds')
  show ?thesis unfolding Handle(1) by (rule order_handle [OF assms(2) Handle(3)])
next
  case (Cancel data' es)
  show ?thesis
  proof (cases "has_data s")
    case True
    with Cancel have "data' = Some ((object s)\<lparr>op_queue := (\<lambda>_. [])\<rparr>)"
      "es = [Post_deferred (aborted (all_queued (object s)))]"
      by (simp_all add: cancel_ops_def data_of_def)
    with Cancel True assms(2) order_emptied [OF assms(2) True, of "(object s)\<lparr>op_queue := (\<lambda>_. [])\<rparr>"]
    show ?thesis by (auto simp: order_inv_def set_data_def total_queued_def)
  next
    case False
    with Cancel assms(2) show ?thesis
      by (auto simp: order_inv_def set_data_def cancel_ops_def data_of_def)
  qed
next
  case (Deregister closing data' es)
  show ?thesis
  proof (cases "has_data s")
    case True
    then have "\<not> desc_shutdown (object s)" using assms(2) by (simp add: order_inv_def)
    with True Deregister have d': "data' = Some ((object s)\<lparr>op_queue := (\<lambda>_. []), desc_shutdown := True\<rparr>)"
      and "concat (map posts_of es) = aborted (all_queued (object s))"
      "concat (map completes_of es) = []" "sum_list (map work_of es) = 0"
      by (auto simp: deregister_descriptor_def data_of_def split: if_splits)
    with Deregister True assms(2)
      order_emptied [OF assms(2) True, of "(object s)\<lparr>op_queue := (\<lambda>_. []), desc_shutdown := True\<rparr>"]
    show ?thesis by (auto simp: order_inv_def set_data_def cleanup_descriptor_data_def total_queued_def)
  next
    case False
    with Deregister assms(2) show ?thesis
      by (auto simp: order_inv_def set_data_def deregister_descriptor_def data_of_def
          cleanup_descriptor_data_def)
  qed
qed (auto simp: order_inv_def)

lemma order_reachable: "reactor_reachable strict s \<Longrightarrow> order_inv s"
proof (induction rule: reactor_reachable.induct)
  case (Registered ctl conds d s)
  then show ?case
    by (auto simp: registered_with_def order_inv_def register_descriptor_def all_types_def total_queued_def
        all_queued_def Let_def split: if_splits)
qed (rule order_step)


section \<open>Events\<close>

definition on_its_way :: "reactor \<Rightarrow> op_type \<Rightarrow> bool" where
  "on_its_way s j \<longleftrightarrow> on_ready_list s
     \<or> (\<exists>events. (queued_events s = Some events \<or> events \<in> set (taken_events s)) \<and> concerns events j)"

text \<open>An event is needed where something is queued, or where the next operation will not be tried at once.\<close>

definition needs_event :: "descriptor_state \<Rightarrow> op_type \<Rightarrow> bool" where
  "needs_event d j \<longleftrightarrow> op_queue d j \<noteq> [] \<or> \<not> try_speculative d j \<and> flag j \<in> registered_events d"

definition event_inv :: "reactor \<Rightarrow> bool" where
  "event_inv s \<longleftrightarrow> (has_data s \<longrightarrow>
     (if registered_events (object s) = {} then interest s = None \<and> (\<forall>j. op_queue (object s) j = [])
      else interest s = Some (registered_events (object s)) \<and> initial_events \<subseteq> registered_events (object s)
        \<and> (op_queue (object s) Write_op \<noteq> [] \<longrightarrow> EPOLLOUT \<in> registered_events (object s))
        \<and> (\<forall>j. needs_event (object s) j \<and> ready (conditions s) j \<longrightarrow> on_its_way s j)))"

lemma needs_event_registered:
  assumes "initial_events \<subseteq> registered_events d"
    and "op_queue d Write_op \<noteq> [] \<longrightarrow> EPOLLOUT \<in> registered_events d" and "needs_event d j"
  shows "flag j \<in> registered_events d"
  using assms by (cases j) (auto simp: needs_event_def initial_events_def)

lemma ready_reported:
  "flag j \<in> ev \<Longrightarrow> concerns (reported conds ev) j = ready conds j"
  by (auto simp: concerns_def reported_def ready_def)

lemma concerns_empty [simp]: "\<not> concerns {} j"
  by (simp add: concerns_def)

lemma epoll_untouched:
  assumes "list_all (\<lambda>e. work_of e = 1 \<or> e = Performed \<or> (\<exists>ops. e = Post_deferred ops) \<or> (\<exists>op. e = Complete_now op)) es"
  shows "on_ready_list (run_effects ctl es s) = on_ready_list s" "interest (run_effects ctl es s) = interest s"
proof -
  have one: "on_ready_list (run_effect ctl e s) = on_ready_list s \<and> interest (run_effect ctl e s) = interest s"
    if "work_of e = 1 \<or> e = Performed \<or> (\<exists>ops. e = Post_deferred ops) \<or> (\<exists>op. e = Complete_now op)" for e s
    using that by (cases e) auto
  have "on_ready_list (run_effects ctl es s) = on_ready_list s \<and> interest (run_effects ctl es s) = interest s"
    using assms by (induction es arbitrary: s) (auto simp: one)
  then show "on_ready_list (run_effects ctl es s) = on_ready_list s" "interest (run_effects ctl es s) = interest s"
    by simp_all
qed

lemma needs_push:
  assumes "try_speculative d' = try_speculative d" and "registered_events d' = registered_events d"
    and "op_queue d' = (op_queue d)(j := op_queue d j @ [op])"
  shows "needs_event d' k \<longleftrightarrow> k = j \<or> needs_event d k"
  using assms by (auto simp: needs_event_def)

text \<open>
  Starting an operation on a registered descriptor either makes epoll look at it again, or adds a
  need for an event only where the descriptor is not ready.
\<close>

definition looked_at_again :: "error_code \<Rightarrow> descriptor_state \<Rightarrow> reactor_effect list \<Rightarrow> bool" where
  "looked_at_again ctl d' es \<longleftrightarrow> (\<forall>s. interest (run_effects ctl es s) = Some (registered_events d')
     \<and> on_ready_list (run_effects ctl es s)
         = (on_ready_list s \<or> reported (conditions s) (registered_events d') \<noteq> {}))"

definition adds_no_need ::
  "error_code \<Rightarrow> event set \<Rightarrow> descriptor_state \<Rightarrow> descriptor_state \<Rightarrow> reactor_effect list \<Rightarrow> bool" where
  "adds_no_need ctl conds' d d' es \<longleftrightarrow> registered_events d' = registered_events d
     \<and> (\<forall>s. on_ready_list (run_effects ctl es s) = on_ready_list s \<and> interest (run_effects ctl es s) = interest s)
     \<and> (\<forall>k. needs_event d' k \<longrightarrow> needs_event d k \<or> \<not> ready conds' k)"

definition write_registered :: "descriptor_state \<Rightarrow> bool" where
  "write_registered d \<longleftrightarrow> initial_events \<subseteq> registered_events d
     \<and> (op_queue d Write_op \<noteq> [] \<longrightarrow> EPOLLOUT \<in> registered_events d)"

lemma start_waiting_events:
  assumes d: "write_registered d" and tried: "\<not> try_speculative d j \<or> \<not> ready conds' j"
    and w: "start_waiting j op ctl d = (d', es)" and pre: "pre = [] \<or> pre = [Performed]"
  shows "write_registered d' \<and> (looked_at_again ctl d' (pre @ es) \<or> adds_no_need ctl conds' d d' (pre @ es))"
proof -
  have reg: "registered_events d \<noteq> {}" "flag j \<in> registered_events d \<or> j = Write_op"
    using d by (cases j; auto simp: write_registered_def initial_events_def)+
  show ?thesis
  proof (cases "j = Write_op \<and> EPOLLOUT \<notin> registered_events d")
    case True
    then show ?thesis using d reg w pre
      by (cases "ctl = Success")
        (auto simp: start_waiting_def Let_def write_registered_def looked_at_again_def adds_no_need_def
          insert_absorb intro!: exI)
  next
    case False
    with reg w have d': "d' = add_op j op d" and es: "es = [Work_started]"
      by (auto simp: start_waiting_def)
    have "needs_event d j \<or> \<not> ready conds' j"
      using tried reg(2) False by (cases j) (auto simp: needs_event_def)
    then have "adds_no_need ctl conds' d d' (pre @ es)"
      using needs_push [of d' d j op] pre by (auto simp: adds_no_need_def d' es)
    moreover have "write_registered d'"
      using d False by (auto simp: write_registered_def d')
    ultimately show ?thesis by blast
  qed
qed

lemma start_op_events:
  assumes d: "write_registered d" and shut: "\<not> desc_shutdown d"
    and r: "start_op j op allow out ctl (Some d) = (Some d', es)"
    and conds: "if Performed \<in> set es then attempt True j (fst out) conds conds' else conds' = conds"
    and ctl: "ctl = Success \<or> allow \<and> (j \<noteq> Read_op \<or> op_queue d Except_op = [])"
  shows "write_registered d' \<and> (looked_at_again ctl d' es \<or> adds_no_need ctl conds' d d' es)"
proof -
  consider (busy) "op_queue d j \<noteq> []"
    | (spec) "op_queue d j = []" "allow \<and> (j \<noteq> Read_op \<or> op_queue d Except_op = [])"
    | (rearm) "op_queue d j = []" "\<not> (allow \<and> (j \<noteq> Read_op \<or> op_queue d Except_op = []))" by blast
  then show ?thesis
  proof cases
    case busy
    then have "d' = add_op j op d" "es = [Work_started]"
      using r shut by (auto simp: start_op_def)
    then show ?thesis using d busy needs_push [of d' d j op]
      by (auto simp: write_registered_def adds_no_need_def needs_event_def)
  next
    case rearm
    then have "(d', es) = start_rearmed j op d" using r shut by (auto simp: start_op_def split: prod.splits)
    moreover have "registered_events d \<noteq> {}" using d by (auto simp: write_registered_def initial_events_def)
    ultimately show ?thesis using d ctl rearm(2)
      by (auto simp: start_rearmed_def Let_def write_registered_def looked_at_again_def)
  next
    case spec
    then have sp: "start_speculative j op out ctl d = (d', es)"
      using r shut by (auto simp: start_op_def split: prod.splits)
    show ?thesis
    proof (cases "try_speculative d j")
      case False
      with sp have "start_waiting j op ctl d = (d', es)" by (simp add: start_speculative_def)
      from start_waiting_events [OF d _ this, of conds' "[]"] False show ?thesis by simp
    next
      case True
      show ?thesis
      proof (cases "fst out = Not_done")
        case notdone: True
        obtain es' where w: "start_waiting j (perform out op) ctl d = (d', es')" and es: "es = [Performed] @ es'"
          using sp True notdone by (auto simp: start_speculative_def split: prod.splits)
        have "\<not> ready conds' j" using conds notdone es by (simp add: attempt_def stopped_def)
        from start_waiting_events [OF d _ w, of conds' "[Performed]"] this show ?thesis by (simp add: es)
      next
        case finished: False
        then have es: "es = [Performed, Post_immediate (perform out op)]"
          and d': "d' = (if fst out = Done_and_exhausted \<and> registered_events d \<noteq> {}
            then d\<lparr>try_speculative := (try_speculative d)(j := False)\<rparr> else d)"
          using sp True by (auto simp: start_speculative_def)
        have "fst out = Done_and_exhausted \<Longrightarrow> \<not> ready conds' j"
          using conds by (simp add: es attempt_def stopped_def)
        then show ?thesis using d
          by (auto simp: d' es write_registered_def adds_no_need_def needs_event_def)
      qed
    qed
  qed
qed

lemma start_op_unregistered:
  assumes "registered_events d = {}" and "\<forall>j. op_queue d j = []"
    and "start_op j op allow out ctl (Some d) = (Some d', es)"
  shows "registered_events d' = {}" and "op_queue d' = op_queue d"
    and "interest (run_effects ctl es s) = interest s"
  using assms
  by (auto simp: start_op_def start_speculative_def start_waiting_def start_rearmed_def
      split: if_splits prod.splits)

lemma perform_loop_rest: "perform_loop pf ops = (cs, rest, st) \<Longrightarrow> rest \<noteq> [] \<Longrightarrow> st \<noteq> Done"
proof (induction ops arbitrary: cs rest st)
  case (Cons op ops)
  then show ?case
    by (cases "fst (pf (op_id op))"; cases "perform_loop pf ops") auto
qed simp

lemma handled_needs:
  assumes "concerns events k"
    and "needs_event (d\<lparr>op_queue := queue_after pf events d, try_speculative := spec_after pf events d\<rparr>) k"
  shows "stopped True (loop_status pf (op_queue d k))"
  using assms perform_loop_rest [of pf "op_queue d k"]
  by (cases "perform_loop pf (op_queue d k)"; cases "loop_status pf (op_queue d k)")
    (auto simp: needs_event_def queue_after_def spec_after_def loop_status_def stopped_def)


lemma event_invD:
  assumes "event_inv s" and "has_data s" and "registered_events (object s) \<noteq> {}"
  shows "interest s = Some (registered_events (object s))" and "write_registered (object s)"
    and "needs_event (object s) j \<Longrightarrow> ready (conditions s) j \<Longrightarrow> on_its_way s j"
  using assms by (simp_all add: event_inv_def write_registered_def)

lemma event_invI:
  assumes "has_data s \<Longrightarrow> interest s = Some (registered_events (object s))"
    and "has_data s \<Longrightarrow> write_registered (object s)"
    and "\<And>j. has_data s \<Longrightarrow> needs_event (object s) j \<Longrightarrow> ready (conditions s) j \<Longrightarrow> on_its_way s j"
  shows "event_inv s"
  using assms by (auto simp: event_inv_def write_registered_def initial_events_def)

lemma ready_mono: "conds' \<subseteq> conds \<Longrightarrow> ready conds' j \<Longrightarrow> ready conds j"
  by (auto simp: ready_def concerns_def)

lemma write_registered_flag:
  "write_registered d \<Longrightarrow> needs_event d j \<Longrightarrow> flag j \<in> registered_events d"
  using needs_event_registered [of d j] by (simp add: write_registered_def)

lemma event_start:
  assumes inv: "event_inv s" and order: "order_inv s"
    and r: "start_op j op allow out ctl (data_of s) = (data', es)"
    and conds: "if Performed \<in> set es then attempt True j (fst out) (conditions s) conds' else conds' = conditions s"
    and ctl: "ctl = Success \<or> allow \<and> (j \<noteq> Read_op \<or> op_queue (object s) Except_op = [])"
  shows "event_inv (set_data data' (run_effects ctl es (s\<lparr>conditions := conds'\<rparr>)))"
proof (cases "has_data s")
  case False
  then have "data' = None" using r by (simp add: data_of_def start_op_def)
  then show ?thesis by (simp add: event_inv_def set_data_def)
next
  case True
  then have shut: "\<not> desc_shutdown (object s)" using order by (simp add: order_inv_def)
  have "start_op j op allow out ctl (Some (object s)) = (data', es)" using r True by (simp add: data_of_def)
  moreover from this obtain d' where d': "data' = Some d'" by (rule start_op_some)
  ultimately have r': "start_op j op allow out ctl (Some (object s)) = (Some d', es)" by simp
  have sub: "conds' \<subseteq> conditions s" using conds by (auto simp: attempt_def split: if_splits)
  show ?thesis
  proof (cases "registered_events (object s) = {}")
    case none: True
    then have "interest s = None" "\<forall>j. op_queue (object s) j = []"
      using inv True by (simp_all add: event_inv_def)
    with start_op_unregistered(1,2) [OF none _ r']
      start_op_unregistered(3) [OF none _ r', of "s\<lparr>conditions := conds'\<rparr>"] show ?thesis
      by (simp add: event_inv_def set_data_def d')
  next
    case False
    note iv = event_invD [OF inv True False]
    have res: "write_registered d'"
      "looked_at_again ctl d' es \<or> adds_no_need ctl conds' (object s) d' es"
      using start_op_events [OF iv(2) shut r' conds ctl] by simp_all
    let ?s' = "set_data data' (run_effects ctl es (s\<lparr>conditions := conds'\<rparr>))"
    from res(2) show ?thesis
    proof
      assume again: "looked_at_again ctl d' es"
      have "on_ready_list ?s'" if "needs_event d' k" "ready conds' k" for k
      proof -
        have "concerns (reported conds' (registered_events d')) k"
          using ready_reported [OF write_registered_flag [OF res(1) that(1)]] that(2) by simp
        then have "reported conds' (registered_events d') \<noteq> {}" by auto
        then show ?thesis using again by (simp add: looked_at_again_def set_data_def d')
      qed
      then show ?thesis using again res(1)
        by (intro event_invI) (auto simp: looked_at_again_def set_data_def d' on_its_way_def)
    next
      assume same: "adds_no_need ctl conds' (object s) d' es"
      have "on_its_way ?s' k" if "needs_event d' k" "ready conds' k" for k
      proof -
        have "needs_event (object s) k" using same that by (auto simp: adds_no_need_def)
        then have "on_its_way s k" using iv(3) ready_mono [OF sub that(2)] by simp
        then show ?thesis using same by (simp add: on_its_way_def adds_no_need_def set_data_def d')
      qed
      then show ?thesis using same res(1) iv(1)
        by (intro event_invI) (auto simp: adds_no_need_def set_data_def d')
    qed
  qed
qed

lemma event_handle:
  assumes inv: "event_inv s" and taken: "events \<in> set (taken_events s)"
    and c: "descriptor_do_complete True pf events (object s) = (d', es)"
    and a: "attempts True pf events (object s) (conditions s) conds'"
  shows "event_inv (run_effects Success es (s\<lparr>conditions := conds', object := d',
          taken_events := remove1 events (taken_events s)\<rparr>))"
proof -
  have d': "d' = (object s)\<lparr>op_queue := queue_after pf events (object s),
      try_speculative := spec_after pf events (object s)\<rparr>"
    using do_complete_effects(1) [OF c] .
  have epoll: "on_ready_list (run_effects Success es t) = on_ready_list t"
    "interest (run_effects Success es t) = interest t" for t
  proof -
    have "list_all (\<lambda>e. work_of e = 1 \<or> e = Performed \<or> (\<exists>ops. e = Post_deferred ops) \<or> (\<exists>op. e = Complete_now op)) es"
      using c by (auto simp: descriptor_do_complete_def perform_io_result perform_io_cleanup_def
          split: list.splits if_splits)
    then show "on_ready_list (run_effects Success es t) = on_ready_list t"
      "interest (run_effects Success es t) = interest t" by (rule epoll_untouched)+
  qed
  have shrink: "queue_after pf events (object s) j \<noteq> [] \<Longrightarrow> op_queue (object s) j \<noteq> []" for j
    using performed_then_queue [of "object s" j pf events] by auto
  have sub: "conds' \<subseteq> conditions s" using a by (simp add: attempts_def)
  show ?thesis
  proof (cases "has_data s \<and> registered_events (object s) \<noteq> {}")
    case False
    then show ?thesis using inv shrink by (auto simp: event_inv_def epoll d')
  next
    case True
    then have iv: "interest s = Some (registered_events (object s))" "write_registered (object s)"
      "\<And>j. needs_event (object s) j \<Longrightarrow> ready (conditions s) j \<Longrightarrow> on_its_way s j"
      using event_invD [OF inv] by simp_all
    have "write_registered d'" using iv(2) shrink by (auto simp: write_registered_def d')
    moreover have "on_its_way (s\<lparr>conditions := conds', object := d',
          taken_events := remove1 events (taken_events s)\<rparr>) k" if "needs_event d' k" "ready conds' k" for k
    proof -
      have not: "\<not> concerns events k"
        using handled_needs [of events k pf "object s"] that a by (auto simp: attempts_def d')
      then have "needs_event (object s) k"
        using that(1) by (simp add: needs_event_def d' queue_after_def spec_after_def)
      then have "on_its_way s k" using iv(3) ready_mono [OF sub that(2)] by simp
      moreover have "E \<in> set (remove1 events (taken_events s))"
        if "E \<in> set (taken_events s)" "concerns E k" for E
        using that not by (metis in_set_remove1)
      ultimately show ?thesis by (fastforce simp: on_its_way_def)
    qed
    ultimately show ?thesis using iv(1) by (intro event_invI) (auto simp: epoll on_its_way_def d')
  qed
qed

lemma event_inv_ghosts [simp]:
  "event_inv (s\<lparr>outstanding := n, departed := f\<rparr>) = event_inv s"
  "event_inv (s\<lparr>started := g, departed := f\<rparr>) = event_inv s"
  by (simp_all add: event_inv_def on_its_way_def)

lemma event_step:
  assumes "reactor_step True s s'" and "event_inv s" and "order_inv s"
  shows "event_inv s'"
  using assms
proof cases
  case (Start op j allow out ctl data' es conds')
  show ?thesis unfolding Start(1) event_inv_ghosts
    by (rule event_start [OF assms(2,3) Start(3,4,5)])
next
  case (Handle events pf d' es conds')
  show ?thesis unfolding Handle(1) event_inv_ghosts
    by (rule event_handle [OF assms(2) Handle(2-4)])
next
  case (Arise e)
  show ?thesis
  proof (cases "has_data s \<and> registered_events (object s) \<noteq> {}")
    case False
    then show ?thesis using assms(2) by (auto simp: event_inv_def Arise)
  next
    case True
    then have iv: "interest s = Some (registered_events (object s))" "write_registered (object s)"
      "\<And>j. needs_event (object s) j \<Longrightarrow> ready (conditions s) j \<Longrightarrow> on_its_way s j"
      using event_invD [OF assms(2)] by simp_all
    have "on_its_way s' k" if "needs_event (object s) k" "ready (insert e (conditions s)) k" for k
    proof (cases "ready (conditions s) k")
      case True
      then show ?thesis using iv(3) [OF that(1)] by (auto simp: on_its_way_def Arise)
    next
      case False
      then have "e = flag k \<or> e = EPOLLERR \<or> e = EPOLLHUP"
        using that(2) by (auto simp: ready_def concerns_def)
      then show ?thesis using iv(1) write_registered_flag [OF iv(2) that(1)]
        by (auto simp: on_its_way_def Arise reported_def)
    qed
    then show ?thesis using iv by (intro event_invI) (auto simp: Arise)
  qed
next
  case (Vanish e)
  have "ready (conditions s) j" if "ready (conditions s - {e}) j" for j
    using that by (rule ready_mono [rotated]) auto
  then show ?thesis using assms(2) unfolding Vanish event_inv_def on_its_way_def
    by (simp split: if_splits)
next
  case (Wait ev)
  show ?thesis
  proof (cases "has_data s")
    case False
    then show ?thesis by (simp add: event_inv_def Wait(1))
  next
    case True
    then have ne: "registered_events (object s) \<noteq> {}" using assms(2) Wait by (auto simp: event_inv_def)
    note iv = event_invD [OF assms(2) True ne]
    have "on_its_way s' k" if "needs_event (object s) k" "ready (conditions s) k" for k
    proof -
      have c: "concerns (reported (conditions s) ev) k"
        using ready_reported write_registered_flag [OF iv(2) that(1)] that(2) iv(1) Wait(4) by simp
      then have "reported (conditions s) ev \<noteq> {}" by auto
      with c show ?thesis
        by (auto simp: on_its_way_def Wait(1) dispatch_event_def intro: exI [of _ "reported (conditions s) ev"])
    qed
    then show ?thesis using iv(1,2) by (intro event_invI) (auto simp: Wait(1))
  qed
next
  case (Take events)
  then have "on_its_way s k \<Longrightarrow> on_its_way s' k" for k
    by (auto simp: on_its_way_def)
  then show ?thesis using assms(2) by (simp add: event_inv_def Take(1))
next
  case (Run_posted op ops)
  have "on_its_way s' k = on_its_way s k" for k by (simp add: on_its_way_def Run_posted(1))
  then show ?thesis using assms(2) by (simp add: event_inv_def Run_posted(1))
next
  case (Cancel data' es)
  show ?thesis
  proof (cases "has_data s")
    case True
    then have c: "data' = Some ((object s)\<lparr>op_queue := (\<lambda>_. [])\<rparr>)"
      "es = [Post_deferred (aborted (all_queued (object s)))]"
      using Cancel(2) by (simp_all add: cancel_ops_def data_of_def)
    have way: "on_its_way s' k = on_its_way s k" for k
      by (simp add: on_its_way_def Cancel(1) set_data_def c)
    have "needs_event (object s') k \<Longrightarrow> needs_event (object s) k" for k
      by (simp add: needs_event_def Cancel(1) set_data_def c)
    then show ?thesis using True assms(2) unfolding event_inv_def way
      by (simp add: Cancel(1) set_data_def c split: if_splits)
  next
    case False
    then show ?thesis using Cancel by (simp add: event_inv_def cancel_ops_def data_of_def set_data_def)
  qed
next
  case (Deregister closing data' es)
  then show ?thesis by (simp add: event_inv_def cleanup_descriptor_data_def set_data_def)
qed

lemma event_reachable: "reactor_reachable True s \<Longrightarrow> event_inv s"
proof (induction rule: reactor_reachable.induct)
  case (Registered ctl conds d s)
  then show ?case
    by (auto simp: registered_with_def event_inv_def register_descriptor_def needs_event_def
        initial_events_def on_its_way_def Let_def split: if_splits)
next
  case (Step s s')
  show ?case by (rule event_step [OF Step(2,3) order_reachable [OF Step(1)]])
qed


section \<open>Properties\<close>

text \<open>
  C19. Operations on a descriptor leave in the order in which they were started, one queue per
  kind, whether they are done at once, by the reactor, or cancelled; each is posted or completed
  exactly once; and the count of outstanding work is the number of operations queued or posted, so
  that the scheduler never stops for want of work while one of them is left. Once the descriptor has
  been given up, none is queued. This holds for any interleaving of threads, for any
  answers of epoll and of the system calls, also for files that epoll refuses.
\<close>

theorem reactor_keeps_order:
  assumes "reactor_reachable strict s"
  shows "started s j = departed s j @ map op_id (op_queue (object s) j)
    \<and> distinct (started s Read_op @ started s Write_op @ started s Except_op)
    \<and> mset (departed s Read_op @ departed s Write_op @ departed s Except_op)
        = mset (map op_id (posted s @ completed s))
    \<and> outstanding s = int (length (all_queued (object s))) + int (length (posted s))
    \<and> (has_data s \<or> op_queue (object s) j = [])"
  using order_reachable [OF assms] unfolding order_inv_def all_types_def total_queued_def by blast

definition fresh_descriptor :: descriptor_state where
  "fresh_descriptor = \<lparr>registered_events = {}, op_queue = (\<lambda>_. []), try_speculative = (\<lambda>_. False),
     desc_shutdown = False\<rparr>"

definition new_socket :: reactor where
  "new_socket = \<lparr>has_data = True, object = fst (register_descriptor Success fresh_descriptor), conditions = {},
     interest = Some initial_events, on_ready_list = False, queued_events = None, taken_events = [],
     posted = [], outstanding = 0, started = (\<lambda>_. []), departed = (\<lambda>_. []), completed = []\<rparr>"

lemma new_socket_reachable: "reactor_reachable strict new_socket"
  by (rule Registered [of Success "{}" fresh_descriptor])
    (simp add: registered_with_def new_socket_def fresh_descriptor_def register_descriptor_def reported_def)

definition a_read :: reactor_op where
  "a_read = \<lparr>op_id = 7, op_ec = Success, op_bytes = 0\<rparr>"

text \<open>A read is started while nothing has arrived; then data arrives.\<close>

definition reading_socket :: reactor where
  "reading_socket = new_socket\<lparr>object := add_op Read_op (a_read\<lparr>op_ec := Would_block\<rparr>) (object new_socket),
     outstanding := 1, started := (\<lambda>_. [])(Read_op := [7])\<rparr>"

lemma reading_socket_step: "reactor_step strict new_socket reading_socket"
proof -
  have "start_op Read_op a_read True (Not_done, Would_block, 0) Success (data_of new_socket)
      = (Some (add_op Read_op (a_read\<lparr>op_ec := Would_block\<rparr>) (object new_socket)), [Performed, Work_started])"
    by (simp add: start_op_def start_speculative_def start_waiting_def data_of_def new_socket_def
        fresh_descriptor_def register_descriptor_def initial_events_def perform_def a_read_def)
  from Start [where strict = strict and conds' = "{}", OF _ this] show ?thesis
    by (simp add: known_ids_def attempt_def ready_def new_socket_def a_read_def reading_socket_def set_data_def
        cong: if_cong)
qed

definition readable_socket :: reactor where
  "readable_socket = reading_socket\<lparr>conditions := {EPOLLIN}, on_ready_list := True\<rparr>"

lemma readable_socket_reachable: "reactor_reachable strict readable_socket"
proof -
  have "reactor_step strict reading_socket readable_socket"
    using Arise [of strict reading_socket EPOLLIN]
    by (simp add: readable_socket_def reading_socket_def new_socket_def initial_events_def reported_def)
  then show ?thesis using Step new_socket_reachable reading_socket_step by metis
qed

theorem reactor_keeps_order_witness:
  "started readable_socket Read_op = departed readable_socket Read_op @ map op_id (op_queue (object readable_socket) Read_op)
    \<and> outstanding readable_socket = 1"
  using reactor_keeps_order [OF readable_socket_reachable [of True], of Read_op]
  by (simp add: readable_socket_def reading_socket_def)

lemma perform_all: "perform_loop (\<lambda>_. (Done, x)) ops = (map (perform (Done, x)) ops, [], Done)"
  by (induction ops) simp_all

definition first_departs :: "reactor \<Rightarrow> op_type \<Rightarrow> reactor_op \<Rightarrow> reactor \<Rightarrow> bool" where
  "first_departs s j op s' \<longleftrightarrow> take (length (departed s j) + 1) (departed s' j) = departed s j @ [op_id op]"

lemma handle_now:
  assumes "events \<in> set (taken_events s)" and "concerns events j" and "op_queue (object s) j = op # ops"
  shows "\<exists>s'. reactor_step strict s s' \<and> first_departs s j op s'"
proof -
  let ?pf = "\<lambda>_. (Done, Success, 0)"
  obtain d' es where c: "descriptor_do_complete True ?pf events (object s) = (d', es)" by fastforce
  have "attempts strict ?pf events (object s) (conditions s) (conditions s)"
    by (auto simp: attempts_def loop_status_def perform_all stopped_def)
  from Handle [OF assms(1) c this] assms(2,3) show ?thesis
    by (intro exI conjI) (assumption, simp add: first_departs_def performed_ops_def perform_all)
qed

lemma take_queued:
  assumes "queued_events s = Some events" and "concerns events j" and "op_queue (object s) j = op # ops"
  shows "\<exists>s1 s'. reactor_step strict s s1 \<and> reactor_step strict s1 s' \<and> first_departs s j op s'"
proof -
  let ?s1 = "s\<lparr>queued_events := None, taken_events := events # taken_events s\<rparr>"
  have "reactor_step strict s ?s1" using assms(1) by (rule Take)
  moreover obtain s' where "reactor_step strict ?s1 s'" "first_departs ?s1 j op s'"
    using handle_now [of events ?s1 j op ops strict] assms by auto
  ultimately show ?thesis by (auto simp: first_departs_def)
qed

lemma wait_now:
  assumes "on_ready_list s" and "queued_events s = None" and "interest s = Some ev" and "flag j \<in> ev"
    and "ready (conditions s) j" and "op_queue (object s) j = op # ops"
  shows "\<exists>s1 s2 s'. reactor_step strict s s1 \<and> reactor_step strict s1 s2 \<and> reactor_step strict s2 s'
    \<and> first_departs s j op s'"
proof -
  have c: "concerns (reported (conditions s) ev) j" using ready_reported assms(4,5) by simp
  then have "reported (conditions s) ev \<noteq> {}" by auto
  with Wait [OF assms(1-3), of strict]
  have "reactor_step strict s (s\<lparr>on_ready_list := False, queued_events := Some (reported (conditions s) ev)\<rparr>)"
    by (simp add: dispatch_event_def)
  with take_queued [of "s\<lparr>on_ready_list := False, queued_events := Some (reported (conditions s) ev)\<rparr>"
      "reported (conditions s) ev" j op ops strict] c assms(6)
  show ?thesis by (fastforce simp: first_departs_def)
qed



end
