(* ===== verification/Asio_Socket_Ops.thy ===== *)
theory Asio_Socket_Ops
  imports Asio_Reactor Asio_Read_Write
begin

unbundle bit_operations_syntax

text \<open>
  \<open>detail/impl/socket_ops.ipp\<close>, the POSIX branches around the system calls of a socket: the
  synchronous calls, which wait with \<open>poll\<close>, the non-blocking ones that the reactor's operations
  make, the flags of a socket and the mode of its descriptor, connecting, accepting and closing;
  and the operations themselves (\<open>reactive_socket_recv_op.hpp\<close> and its siblings). What the
  system answers to each call is an argument.
  Shown here: a synchronous transfer gives an answer as the composed operations of
  \<open>Asio_Read_Write\<close> expect it; an asynchronous operation ends as the synchronous call does; the
  flags tell the mode of the descriptor; and what becomes of a second read after the end of a stream.
\<close>

section \<open>The state of a socket\<close>

type_synonym state_type = "8 word"

definition user_set_non_blocking :: state_type where "user_set_non_blocking = 1"
definition internal_non_blocking :: state_type where "internal_non_blocking = 2"
definition non_blocking :: state_type where "non_blocking = user_set_non_blocking OR internal_non_blocking"
definition enable_connection_aborted :: state_type where "enable_connection_aborted = 4"
definition user_set_linger :: state_type where "user_set_linger = 8"
definition stream_oriented :: state_type where "stream_oriented = 16"
definition datagram_oriented :: state_type where "datagram_oriented = 32"
definition possible_dup :: state_type where "possible_dup = 64"

lemmas state_bits = user_set_non_blocking_def internal_non_blocking_def non_blocking_def
  enable_connection_aborted_def user_set_linger_def stream_oriented_def datagram_oriented_def possible_dup_def

definition has_flag :: "state_type \<Rightarrow> state_type \<Rightarrow> bool" where
  "has_flag st f \<longleftrightarrow> st AND f \<noteq> 0"

definition invalid_socket :: int where
  "invalid_socket = -1"

text \<open>Error codes of the system that the code names.\<close>

definition interrupted :: error_code where "interrupted = Sys_error 4"
definition connection_aborted :: error_code where "connection_aborted = Sys_error 103"
definition eproto :: error_code where "eproto = Sys_error 71"
definition no_buffer_space :: error_code where "no_buffer_space = Sys_error 105"

lemmas sys_codes = interrupted_def connection_aborted_def eproto_def no_buffer_space_def

section \<open>System calls\<close>

text \<open>
  What the system answers: an error number, or a result that is not negative. \<open>get_last_error\<close>
  turns it into the error code; the result of a failed call is \<open>-1\<close>.
\<close>

type_synonym sys_result = "error_code + nat"

definition get_last_error :: "error_code \<Rightarrow> bool \<Rightarrow> error_code" where
  "get_last_error errno is_error_condition = (if \<not> is_error_condition then Success else errno)"

fun sys_call :: "sys_result \<Rightarrow> int \<times> error_code" where
  "sys_call (Inl errno) = (-1, get_last_error errno True)"
| "sys_call (Inr n) = (int n, get_last_error Success False)"

text \<open>
  \<open>poll_read\<close>, \<open>poll_write\<close> and \<open>poll_error\<close> differ in the events they ask for.
\<close>

definition poll_socket :: "int \<Rightarrow> state_type \<Rightarrow> sys_result \<Rightarrow> int \<times> error_code" where
  "poll_socket s st answer =
     (if s = invalid_socket then (-1, Bad_descriptor)
      else case sys_call answer of (result, ec) \<Rightarrow>
        (result, if result = 0 \<and> has_flag st user_set_non_blocking then Would_block else ec))"

definition poll_timeout :: "state_type \<Rightarrow> int \<Rightarrow> int" where
  "poll_timeout st msec = (if has_flag st user_set_non_blocking then 0 else msec)"

definition poll_connect :: "int \<Rightarrow> sys_result \<Rightarrow> int \<times> error_code" where
  "poll_connect s answer = (if s = invalid_socket then (-1, Bad_descriptor) else sys_call answer)"

section \<open>Synchronous transfers\<close>

text \<open>
  The loop of the transfers, over what the system answers to the transfer and to \<open>poll\<close>:
  \<open>eof\<close> says whether an answer of no bytes is the end of the stream. The result is \<open>None\<close>
  when the answers have run out while the call is still waiting.
\<close>

fun transfer_loop ::
  "bool \<Rightarrow> state_type \<Rightarrow> int \<Rightarrow> sys_result list \<Rightarrow> sys_result list \<Rightarrow> (nat \<times> error_code) option" where
  "transfer_loop eof st s [] polls = None"
| "transfer_loop eof st s (r # rs) polls =
     (case sys_call r of (bytes, ec) \<Rightarrow>
        if eof \<and> bytes = 0 then Some (0, Eof)
        else if bytes \<ge> 0 then Some (nat bytes, ec)
        else if has_flag st user_set_non_blocking \<or> ec \<noteq> Would_block \<and> ec \<noteq> Try_again then Some (0, ec)
        else (case polls of
            [] \<Rightarrow> None
          | p # ps \<Rightarrow> (case poll_socket s 0 p of (result, ec') \<Rightarrow>
              if result < 0 then Some (0, ec') else transfer_loop eof st s rs ps)))"

definition sync_recv ::
  "int \<Rightarrow> state_type \<Rightarrow> bool \<Rightarrow> sys_result list \<Rightarrow> sys_result list \<Rightarrow> (nat \<times> error_code) option" where
  "sync_recv s st all_empty rs polls =
     (if s = invalid_socket then Some (0, Bad_descriptor)
      else if all_empty \<and> has_flag st stream_oriented then Some (0, Success)
      else transfer_loop (has_flag st stream_oriented) st s rs polls)"

definition sync_recv1 ::
  "int \<Rightarrow> state_type \<Rightarrow> nat \<Rightarrow> sys_result list \<Rightarrow> sys_result list \<Rightarrow> (nat \<times> error_code) option" where
  "sync_recv1 s st len rs polls =
     (if s = invalid_socket then Some (0, Bad_descriptor)
      else if len = 0 \<and> has_flag st stream_oriented then Some (0, Success)
      else transfer_loop (has_flag st stream_oriented) st s rs polls)"

definition sync_recvfrom ::
  "int \<Rightarrow> state_type \<Rightarrow> sys_result list \<Rightarrow> sys_result list \<Rightarrow> (nat \<times> error_code) option" where
  "sync_recvfrom s st rs polls =
     (if s = invalid_socket then Some (0, Bad_descriptor) else transfer_loop False st s rs polls)"

definition sync_recvfrom1 ::
  "int \<Rightarrow> state_type \<Rightarrow> sys_result list \<Rightarrow> sys_result list \<Rightarrow> (nat \<times> error_code) option" where
  "sync_recvfrom1 s st rs polls =
     (if s = invalid_socket then Some (0, Bad_descriptor) else transfer_loop False st s rs polls)"

definition sync_recvmsg ::
  "int \<Rightarrow> state_type \<Rightarrow> sys_result list \<Rightarrow> sys_result list \<Rightarrow> (nat \<times> error_code) option" where
  "sync_recvmsg s st rs polls =
     (if s = invalid_socket then Some (0, Bad_descriptor) else transfer_loop False st s rs polls)"

definition sync_send ::
  "int \<Rightarrow> state_type \<Rightarrow> bool \<Rightarrow> sys_result list \<Rightarrow> sys_result list \<Rightarrow> (nat \<times> error_code) option" where
  "sync_send s st all_empty rs polls =
     (if s = invalid_socket then Some (0, Bad_descriptor)
      else if all_empty \<and> has_flag st stream_oriented then Some (0, Success)
      else transfer_loop False st s rs polls)"

definition sync_send1 ::
  "int \<Rightarrow> state_type \<Rightarrow> nat \<Rightarrow> sys_result list \<Rightarrow> sys_result list \<Rightarrow> (nat \<times> error_code) option" where
  "sync_send1 s st len rs polls =
     (if s = invalid_socket then Some (0, Bad_descriptor)
      else if len = 0 \<and> has_flag st stream_oriented then Some (0, Success)
      else transfer_loop False st s rs polls)"

definition sync_sendto ::
  "int \<Rightarrow> state_type \<Rightarrow> sys_result list \<Rightarrow> sys_result list \<Rightarrow> (nat \<times> error_code) option" where
  "sync_sendto s st rs polls =
     (if s = invalid_socket then Some (0, Bad_descriptor) else transfer_loop False st s rs polls)"

definition sync_sendto1 ::
  "int \<Rightarrow> state_type \<Rightarrow> sys_result list \<Rightarrow> sys_result list \<Rightarrow> (nat \<times> error_code) option" where
  "sync_sendto1 s st rs polls =
     (if s = invalid_socket then Some (0, Bad_descriptor) else transfer_loop False st s rs polls)"

section \<open>Non-blocking transfers\<close>

text \<open>
  The loop retries while a signal interrupts the call. The result says whether the operation is
  finished, with error and number of bytes; \<open>None\<close> while the signals go on. The answers that are
  left are returned, too.
\<close>

fun non_blocking_loop ::
  "bool \<Rightarrow> sys_result list \<Rightarrow> (bool \<times> error_code \<times> nat \<times> sys_result list) option" where
  "non_blocking_loop eof [] = None"
| "non_blocking_loop eof (r # rs) =
     (case sys_call r of (bytes, ec) \<Rightarrow>
        if eof \<and> bytes = 0 then Some (True, Eof, 0, rs)
        else if bytes \<ge> 0 then Some (True, ec, nat bytes, rs)
        else if ec = interrupted then non_blocking_loop eof rs
        else if ec = Would_block \<or> ec = Try_again then Some (False, ec, 0, rs)
        else Some (True, ec, 0, rs))"

definition non_blocking_recv ::
  "bool \<Rightarrow> sys_result list \<Rightarrow> (bool \<times> error_code \<times> nat \<times> sys_result list) option" where
  "non_blocking_recv is_stream rs = non_blocking_loop is_stream rs"

definition non_blocking_recv1 ::
  "bool \<Rightarrow> sys_result list \<Rightarrow> (bool \<times> error_code \<times> nat \<times> sys_result list) option" where
  "non_blocking_recv1 is_stream rs = non_blocking_loop is_stream rs"

definition non_blocking_recvfrom ::
  "sys_result list \<Rightarrow> (bool \<times> error_code \<times> nat \<times> sys_result list) option" where
  "non_blocking_recvfrom rs = non_blocking_loop False rs"

definition non_blocking_recvfrom1 ::
  "sys_result list \<Rightarrow> (bool \<times> error_code \<times> nat \<times> sys_result list) option" where
  "non_blocking_recvfrom1 rs = non_blocking_loop False rs"

definition non_blocking_recvmsg ::
  "sys_result list \<Rightarrow> (bool \<times> error_code \<times> nat \<times> sys_result list) option" where
  "non_blocking_recvmsg rs = non_blocking_loop False rs"

definition non_blocking_send ::
  "sys_result list \<Rightarrow> (bool \<times> error_code \<times> nat \<times> sys_result list) option" where
  "non_blocking_send rs = non_blocking_loop False rs"

definition non_blocking_send1 ::
  "sys_result list \<Rightarrow> (bool \<times> error_code \<times> nat \<times> sys_result list) option" where
  "non_blocking_send1 rs = non_blocking_loop False rs"

definition non_blocking_sendto ::
  "sys_result list \<Rightarrow> (bool \<times> error_code \<times> nat \<times> sys_result list) option" where
  "non_blocking_sendto rs = non_blocking_loop False rs"

definition non_blocking_sendto1 ::
  "sys_result list \<Rightarrow> (bool \<times> error_code \<times> nat \<times> sys_result list) option" where
  "non_blocking_sendto1 rs = non_blocking_loop False rs"

section \<open>Accepting\<close>

definition socket_accept :: "int \<Rightarrow> sys_result \<Rightarrow> int \<times> error_code" where
  "socket_accept s answer =
     (if s = invalid_socket then (invalid_socket, Bad_descriptor)
      else case sys_call answer of (new_s, ec) \<Rightarrow>
        if new_s = invalid_socket then (new_s, ec) else (new_s, Success))"

text \<open>Whether the synchronous call goes on to wait, and the asynchronous one to be run again.\<close>

definition accept_waits :: "state_type \<Rightarrow> error_code \<Rightarrow> bool" where
  "accept_waits st ec =
     (if ec = Would_block \<or> ec = Try_again then \<not> has_flag st user_set_non_blocking
      else if ec = connection_aborted then \<not> has_flag st enable_connection_aborted
      else if ec = eproto then \<not> has_flag st enable_connection_aborted
      else False)"

definition accept_again :: "state_type \<Rightarrow> error_code \<Rightarrow> bool" where
  "accept_again st ec =
     (if ec = Would_block \<or> ec = Try_again then True
      else if ec = connection_aborted then \<not> has_flag st enable_connection_aborted
      else if ec = eproto then \<not> has_flag st enable_connection_aborted
      else False)"

fun sync_accept ::
  "int \<Rightarrow> state_type \<Rightarrow> sys_result list \<Rightarrow> sys_result list \<Rightarrow> (int \<times> error_code) option" where
  "sync_accept s st [] polls =
     (if s = invalid_socket then Some (invalid_socket, Bad_descriptor) else None)"
| "sync_accept s st (r # rs) polls =
     (case socket_accept s r of (new_s, ec) \<Rightarrow>
        if new_s \<noteq> invalid_socket then Some (new_s, ec)
        else if \<not> accept_waits st ec then Some (invalid_socket, ec)
        else (case polls of
            [] \<Rightarrow> None
          | p # ps \<Rightarrow> (case poll_socket s 0 p of (result, ec') \<Rightarrow>
              if result < 0 then Some (invalid_socket, ec') else sync_accept s st rs ps)))"

fun non_blocking_accept ::
  "int \<Rightarrow> state_type \<Rightarrow> sys_result list \<Rightarrow> (bool \<times> error_code \<times> int \<times> sys_result list) option" where
  "non_blocking_accept s st [] =
     (if s = invalid_socket then Some (True, Bad_descriptor, invalid_socket, []) else None)"
| "non_blocking_accept s st (r # rs) =
     (case socket_accept s r of (new_s, ec) \<Rightarrow>
        if new_s \<noteq> invalid_socket then Some (True, ec, new_s, rs)
        else if ec = interrupted then non_blocking_accept s st rs
        else Some (\<not> accept_again st ec, ec, new_s, rs))"

section \<open>Connecting\<close>

definition socket_connect :: "int \<Rightarrow> sys_result \<Rightarrow> int \<times> error_code" where
  "socket_connect s answer =
     (if s = invalid_socket then (-1, Bad_descriptor)
      else case sys_call answer of (result, ec) \<Rightarrow>
        (result, if result \<noteq> 0 \<and> ec = Try_again then no_buffer_space else ec))"

text \<open>\<open>getsockopt\<close> for \<open>SO_ERROR\<close>: it fails, or gives the error of the connect operation.\<close>

definition get_so_error :: "int \<Rightarrow> error_code + error_code \<Rightarrow> error_code + error_code" where
  "get_so_error s answer =
     (if s = invalid_socket then Inl Bad_descriptor
      else case answer of Inl errno \<Rightarrow> Inl (get_last_error errno True) | Inr connect_error \<Rightarrow> Inr connect_error)"

definition sync_connect :: "int \<Rightarrow> sys_result \<Rightarrow> sys_result \<Rightarrow> error_code + error_code \<Rightarrow> error_code" where
  "sync_connect s c p so_error =
     (case socket_connect s c of (_, ec) \<Rightarrow>
        if ec \<noteq> In_progress \<and> ec \<noteq> Would_block then ec
        else (case poll_connect s p of (result, ec') \<Rightarrow>
          if result < 0 then ec'
          else (case get_so_error s so_error of Inl ec'' \<Rightarrow> ec'' | Inr connect_error \<Rightarrow> connect_error)))"

text \<open>The answer of \<open>poll\<close> and, when the socket is ready, of \<open>getsockopt\<close>; \<open>ec\<close> is the error so far.\<close>

definition non_blocking_connect ::
  "int \<Rightarrow> error_code \<Rightarrow> sys_result \<Rightarrow> error_code + error_code \<Rightarrow> bool \<times> error_code" where
  "non_blocking_connect s ec p so_error =
     (case sys_call p of (polled, _) \<Rightarrow>
        if polled = 0 then (False, ec)
        else (case get_so_error s so_error of
            Inl ec' \<Rightarrow> (True, ec')
          | Inr connect_error \<Rightarrow> (True, if connect_error \<noteq> Success then connect_error else Success)))"

section \<open>The mode of the descriptor, and options\<close>

definition set_user_non_blocking ::
  "int \<Rightarrow> state_type \<Rightarrow> bool \<Rightarrow> sys_result \<Rightarrow> bool \<times> state_type \<times> error_code" where
  "set_user_non_blocking s st on answer =
     (if s = invalid_socket then (False, st, Bad_descriptor)
      else case sys_call answer of (result, ec) \<Rightarrow>
        if result \<ge> 0 then
          (True, if on then st OR user_set_non_blocking
                 else st AND NOT (user_set_non_blocking OR internal_non_blocking), ec)
        else (False, st, ec))"

definition set_internal_non_blocking ::
  "int \<Rightarrow> state_type \<Rightarrow> bool \<Rightarrow> sys_result \<Rightarrow> bool \<times> state_type \<times> error_code" where
  "set_internal_non_blocking s st on answer =
     (if s = invalid_socket then (False, st, Bad_descriptor)
      else if \<not> on \<and> has_flag st user_set_non_blocking then (False, st, Invalid_argument)
      else case sys_call answer of (result, ec) \<Rightarrow>
        if result \<ge> 0 then
          (True, if on then st OR internal_non_blocking else st AND NOT internal_non_blocking, ec)
        else (False, st, ec))"

definition fionbio :: int where "fionbio = 0x5421"

definition socket_ioctl ::
  "int \<Rightarrow> state_type \<Rightarrow> int \<Rightarrow> int \<Rightarrow> sys_result \<Rightarrow> int \<times> state_type \<times> error_code" where
  "socket_ioctl s st cmd arg answer =
     (if s = invalid_socket then (-1, st, Bad_descriptor)
      else case sys_call answer of (result, ec) \<Rightarrow>
        (result,
         if result \<ge> 0 \<and> cmd = fionbio then
           (if arg \<noteq> 0 then st OR user_set_non_blocking
            else st AND NOT (user_set_non_blocking OR internal_non_blocking))
         else st, ec))"

definition custom_socket_option_level :: int where "custom_socket_option_level = 0xA5100000 - 2 ^ 32"
definition enable_connection_aborted_option :: int where "enable_connection_aborted_option = 1"
definition always_fail_option :: int where "always_fail_option = 2"
definition sol_socket :: int where "sol_socket = 1"
definition so_linger :: int where "so_linger = 13"
definition so_sndbuf :: int where "so_sndbuf = 7"
definition so_rcvbuf :: int where "so_rcvbuf = 8"
definition sizeof_int :: nat where "sizeof_int = 4"

lemmas option_names = custom_socket_option_level_def enable_connection_aborted_option_def
  always_fail_option_def sol_socket_def so_linger_def so_sndbuf_def so_rcvbuf_def sizeof_int_def

definition socket_setsockopt ::
  "int \<Rightarrow> state_type \<Rightarrow> int \<Rightarrow> int \<Rightarrow> int \<Rightarrow> nat \<Rightarrow> sys_result \<Rightarrow> int \<times> state_type \<times> error_code" where
  "socket_setsockopt s st level optname optval optlen answer =
     (if s = invalid_socket then (-1, st, Bad_descriptor)
      else if level = custom_socket_option_level \<and> optname = always_fail_option then (-1, st, Invalid_argument)
      else if level = custom_socket_option_level \<and> optname = enable_connection_aborted_option then
        (if optlen \<noteq> sizeof_int then (-1, st, Invalid_argument)
         else (0, if optval \<noteq> 0 then st OR enable_connection_aborted
                  else st AND NOT enable_connection_aborted, Success))
      else
        (let st1 = (if level = sol_socket \<and> optname = so_linger then st OR user_set_linger else st)
         in case sys_call answer of (result, ec) \<Rightarrow> (result, st1, ec)))"

text \<open>The option is a buffer with a value and a length, which the system may change.\<close>

definition socket_getsockopt ::
  "int \<Rightarrow> state_type \<Rightarrow> int \<Rightarrow> int \<Rightarrow> int \<times> nat \<Rightarrow> error_code + int \<times> nat
     \<Rightarrow> int \<times> (int \<times> nat) \<times> error_code" where
  "socket_getsockopt s st level optname opt answer =
     (if s = invalid_socket then (-1, opt, Bad_descriptor)
      else if level = custom_socket_option_level \<and> optname = always_fail_option then (-1, opt, Invalid_argument)
      else if level = custom_socket_option_level \<and> optname = enable_connection_aborted_option then
        (if snd opt \<noteq> sizeof_int then (-1, opt, Invalid_argument)
         else (0, (if has_flag st enable_connection_aborted then 1 else 0, snd opt), Success))
      else case answer of
          Inl errno \<Rightarrow> (-1, opt, get_last_error errno True)
        | Inr (val, len) \<Rightarrow>
            (0, (if level = sol_socket \<and> len = sizeof_int \<and> (optname = so_sndbuf \<or> optname = so_rcvbuf)
                 then sgn val * (\<bar>val\<bar> div 2) else val, len), get_last_error Success False))"

text \<open>
  Closing: the calls that are made, the result, the new state and the error code, which is left as
  it was when there is nothing to close. \<open>c1\<close> and \<open>c2\<close> are the answers to the first and the
  second attempt.
\<close>

datatype close_call = Linger_off | Sys_close | Blocking_mode

definition socket_close ::
  "int \<Rightarrow> state_type \<Rightarrow> bool \<Rightarrow> error_code \<Rightarrow> sys_result \<Rightarrow> sys_result
     \<Rightarrow> close_call list \<times> int \<times> state_type \<times> error_code" where
  "socket_close s st destruction ec0 c1 c2 =
     (if s = invalid_socket then ([], 0, st, ec0)
      else
        (let linger = destruction \<and> has_flag st user_set_linger;
             st1 = (if linger then st OR user_set_linger else st);
             pre = (if linger then [Linger_off] else [])
         in case sys_call c1 of (result, ec) \<Rightarrow>
              if result \<noteq> 0 \<and> (ec = Would_block \<or> ec = Try_again) then
                (case sys_call c2 of (result', ec') \<Rightarrow>
                   (pre @ [Sys_close, Blocking_mode, Sys_close], result', st1 AND NOT non_blocking, ec'))
              else (pre @ [Sys_close], result, st1, ec)))"

section \<open>The operations of the reactor\<close>

definition recv_do_perform :: "state_type \<Rightarrow> sys_result list \<Rightarrow> (outcome \<times> sys_result list) option" where
  "recv_do_perform st rs =
     map_option (\<lambda>(finished, ec, bytes, rest).
       ((if \<not> finished then Not_done
         else if has_flag st stream_oriented \<and> bytes = 0 then Done_and_exhausted else Done, ec, bytes), rest))
       (non_blocking_recv (has_flag st stream_oriented) rs)"

definition send_do_perform :: "state_type \<Rightarrow> nat \<Rightarrow> sys_result list \<Rightarrow> (outcome \<times> sys_result list) option" where
  "send_do_perform st total_size rs =
     map_option (\<lambda>(finished, ec, bytes, rest).
       ((if \<not> finished then Not_done
         else if has_flag st stream_oriented \<and> bytes < total_size then Done_and_exhausted else Done, ec, bytes), rest))
       (non_blocking_send rs)"

definition finished_status :: "bool \<times> error_code \<times> nat \<times> sys_result list \<Rightarrow> outcome \<times> sys_result list" where
  "finished_status = (\<lambda>(finished, ec, bytes, rest). ((if finished then Done else Not_done, ec, bytes), rest))"

definition recvfrom_do_perform :: "sys_result list \<Rightarrow> (outcome \<times> sys_result list) option" where
  "recvfrom_do_perform rs = map_option finished_status (non_blocking_recvfrom rs)"

definition recvmsg_do_perform :: "sys_result list \<Rightarrow> (outcome \<times> sys_result list) option" where
  "recvmsg_do_perform rs = map_option finished_status (non_blocking_recvmsg rs)"

definition sendto_do_perform :: "sys_result list \<Rightarrow> (outcome \<times> sys_result list) option" where
  "sendto_do_perform rs = map_option finished_status (non_blocking_sendto rs)"

text \<open>An accept operation leaves a socket instead of a number of bytes, a connect operation neither.\<close>

definition accept_do_perform ::
  "int \<Rightarrow> state_type \<Rightarrow> sys_result list \<Rightarrow> (outcome \<times> int \<times> sys_result list) option" where
  "accept_do_perform s st rs =
     map_option (\<lambda>(finished, ec, new_s, rest). ((if finished then Done else Not_done, ec, 0), new_s, rest))
       (non_blocking_accept s st rs)"

definition connect_do_perform ::
  "int \<Rightarrow> error_code \<Rightarrow> sys_result \<Rightarrow> error_code + error_code \<Rightarrow> outcome" where
  "connect_do_perform s ec p so_error =
     (case non_blocking_connect s ec p so_error of (finished, ec') \<Rightarrow>
        (if finished then Done else Not_done, ec', 0))"

text \<open>
  An operation on its answers as the reactor drives it: it is performed again whenever an event
  arrives, until it is done. \<open>None\<close>: the answers have run out while it is still queued.
\<close>

function run_op ::
  "(sys_result list \<Rightarrow> (outcome \<times> sys_result list) option) \<Rightarrow> sys_result list \<Rightarrow> (nat \<times> error_code) option" where
  "run_op do_perform rs =
     (case do_perform rs of
        None \<Rightarrow> None
      | Some ((st, ec, bytes), rest) \<Rightarrow>
          (if st \<noteq> Not_done then Some (bytes, ec)
           else if length rest < length rs then run_op do_perform rest else None))"
  by pat_completeness auto
termination
  by (relation "measure (\<lambda>(_, rs). length rs)") auto

declare run_op.simps [simp del]

section \<open>What the transfers give\<close>

text \<open>The system reports errors by numbers other than 0, and \<open>poll\<close> does not ask to be called again.\<close>

definition system_answers :: "sys_result list \<Rightarrow> bool" where
  "system_answers rs \<longleftrightarrow> (\<forall>e. Inl e \<in> set rs \<longrightarrow> failed e)"

definition asks_again :: "sys_result \<Rightarrow> bool" where
  "asks_again r \<longleftrightarrow> r = Inl Would_block \<or> r = Inl Try_again"

lemma poll_socket_invalid [simp]: "poll_socket invalid_socket st p = (-1, Bad_descriptor)"
  by (simp add: poll_socket_def)

lemma sys_call_conv: "sys_call r = (case r of Inl e \<Rightarrow> (-1, e) | Inr n \<Rightarrow> (int n, Success))"
  by (cases r) (simp_all add: get_last_error_def)

text \<open>What an answer that settles the transfer is turned into.\<close>

fun settled :: "bool \<Rightarrow> sys_result \<Rightarrow> nat \<times> error_code" where
  "settled eof (Inl e) = (0, e)"
| "settled eof (Inr n) = (if eof \<and> n = 0 then (0, Eof) else (n, Success))"

lemma transfer_settles:
  "\<not> asks_again r \<or> has_flag st user_set_non_blocking
    \<Longrightarrow> transfer_loop eof st s (r # rs) polls = Some (settled eof r)"
  by (cases r) (auto simp: sys_call_conv asks_again_def)

lemma transfer_waits:
  assumes "asks_again r" and "\<not> has_flag st user_set_non_blocking"
  shows "transfer_loop eof st s (r # rs) [] = None"
    and "transfer_loop eof st s (r # rs) (p # ps) =
      (if fst (poll_socket s 0 p) < 0 then Some (0, snd (poll_socket s 0 p)) else transfer_loop eof st s rs ps)"
  using assms by (auto simp: sys_call_conv asks_again_def split: prod.split)

declare transfer_loop.simps(2) [simp del]

lemma system_answers_Cons [simp]:
  "system_answers (r # rs) \<longleftrightarrow> (case r of Inl e \<Rightarrow> failed e | Inr n \<Rightarrow> True) \<and> system_answers rs"
  by (cases r) (auto simp: system_answers_def)

lemma poll_fails:
  assumes "fst (poll_socket s 0 p) < 0" and "case p of Inl e \<Rightarrow> failed e | Inr n \<Rightarrow> True"
  shows "failed (snd (poll_socket s 0 p))"
  using assms by (cases p) (auto simp: poll_socket_def sys_call_conv has_flag_def split: if_splits)

definition transferred :: "bool \<Rightarrow> sys_result list \<Rightarrow> nat \<times> error_code \<Rightarrow> bool" where
  "transferred eof rs res \<longleftrightarrow>
     (failed (snd res) \<longrightarrow> fst res = 0) \<and> (eof \<and> fst res = 0 \<longrightarrow> failed (snd res))
     \<and> (0 < fst res \<longrightarrow> (\<exists>k < length rs. rs ! k = Inr (fst res) \<and> (\<forall>i < k. asks_again (rs ! i))))"

lemma transferred_settled:
  "(case r of Inl e \<Rightarrow> failed e | Inr n \<Rightarrow> True) \<Longrightarrow> transferred eof (r # rs) (settled eof r)"
  by (cases r) (auto simp: transferred_def)

lemma transferred_Cons:
  assumes "transferred eof rs res" and "asks_again r"
  shows "transferred eof (r # rs) res"
proof -
  have "\<exists>k' < length (r # rs). (r # rs) ! k' = x \<and> (\<forall>i < k'. asks_again ((r # rs) ! i))"
    if "k < length rs" "rs ! k = x" "\<forall>i < k. asks_again (rs ! i)" for k x
    using that assms(2) by (intro exI [of _ "Suc k"]) (auto simp: less_Suc_eq_0_disj)
  then show ?thesis using assms(1) unfolding transferred_def by blast
qed

lemma transfer_result:
  assumes "transfer_loop eof st s rs polls = Some res" and "system_answers rs" and "system_answers polls"
  shows "transferred eof rs res"
  using assms
proof (induction rs arbitrary: polls)
  case (Cons r rs)
  show ?case
  proof (cases "asks_again r \<and> \<not> has_flag st user_set_non_blocking")
    case False
    then show ?thesis using Cons.prems transferred_settled transfer_settles by auto
  next
    case True
    then obtain p ps where polls: "polls = p # ps"
      using Cons.prems(1) transfer_waits(1) by (cases polls) auto
    show ?thesis
    proof (cases "fst (poll_socket s 0 p) < 0")
      case neg: True
      then have "res = (0, snd (poll_socket s 0 p))" using Cons.prems(1) True by (simp add: polls transfer_waits)
      then show ?thesis using poll_fails [OF neg] Cons.prems(3) by (simp add: polls transferred_def)
    next
      case pos: False
      then have "transfer_loop eof st s rs ps = Some res" using Cons.prems(1) True by (simp add: polls transfer_waits)
      then show ?thesis using Cons.IH Cons.prems(2,3) True polls transferred_Cons by simp
    qed
  qed
qed simp

text \<open>When \<open>poll\<close> does its duty the transfer is settled by the first answer that does not ask to wait.\<close>

definition first_settled :: "bool \<Rightarrow> sys_result list \<Rightarrow> (nat \<times> error_code) option" where
  "first_settled eof rs = (case dropWhile asks_again rs of [] \<Rightarrow> None | r # _ \<Rightarrow> Some (settled eof r))"

definition polls_succeed :: "sys_result list \<Rightarrow> bool" where
  "polls_succeed ps \<longleftrightarrow> list_all (\<lambda>p. \<not> Inl (projl p) = p) ps"

lemma transfer_first_settled:
  assumes "s \<noteq> invalid_socket" and "\<not> has_flag st user_set_non_blocking" and "polls_succeed polls"
    and "length rs \<le> length polls"
  shows "transfer_loop eof st s rs polls = first_settled eof rs"
  using assms(3,4)
proof (induction rs arbitrary: polls)
  case Nil
  then show ?case by (simp add: first_settled_def)
next
  case (Cons r rs)
  then obtain p ps where polls: "polls = p # ps" by (cases polls) auto
  then obtain n where "p = Inr n" using Cons.prems(1) by (cases p) (auto simp: polls_succeed_def)
  then have "\<not> fst (poll_socket s 0 p) < 0" using assms(1) by (auto simp: poll_socket_def sys_call_conv)
  then show ?case using Cons.IH [of ps] Cons.prems assms(2)
    by (cases "asks_again r") (simp_all add: polls transfer_waits transfer_settles first_settled_def polls_succeed_def)
qed

lemma non_blocking_result:
  "non_blocking_loop eof rs =
     (case dropWhile (\<lambda>r. r = Inl interrupted) rs of
        [] \<Rightarrow> None
      | r # rest \<Rightarrow> Some (\<not> asks_again r, snd (settled eof r), fst (settled eof r), rest))"
proof (induction rs)
  case (Cons r rs)
  then show ?case by (cases r) (auto simp: sys_call_conv asks_again_def interrupted_def)
qed simp

lemma run_first_settled:
  assumes "\<And>rs. map_option (\<lambda>((st, ec, n), rest). (st = Not_done, ec, n, rest)) (perf rs) =
    map_option (\<lambda>(finished, ec, n, rest). (\<not> finished, ec, n, rest)) (non_blocking_loop eof rs)"
  shows "run_op perf rs = first_settled eof (filter (\<lambda>r. r \<noteq> Inl interrupted) rs)"
proof (induction rs rule: length_induct)
  case (1 rs)
  let ?d = "dropWhile (\<lambda>r. r = Inl interrupted) rs"
  have filter: "filter (\<lambda>r. r \<noteq> Inl interrupted) rs = filter (\<lambda>r. r \<noteq> Inl interrupted) ?d"
    by (induction rs) auto
  show ?case
  proof (cases ?d)
    case Nil
    then have "non_blocking_loop eof rs = None" unfolding non_blocking_result Nil by simp
    then have "perf rs = None" using assms [of rs] by simp
    moreover have "filter (\<lambda>r. r \<noteq> Inl interrupted) rs = []" unfolding filter Nil by simp
    ultimately show ?thesis by (subst run_op.simps) (simp add: first_settled_def)
  next
    case (Cons r rest)
    then have r: "r \<noteq> Inl interrupted" using hd_dropWhile [of "\<lambda>r. r = Inl interrupted" rs] by (metis list.sel(1) list.distinct(1))
    have len: "length rest < length rs" using Cons length_dropWhile_le [of "\<lambda>r. r = Inl interrupted" rs] by simp
    have "non_blocking_loop eof rs = Some (\<not> asks_again r, snd (settled eof r), fst (settled eof r), rest)"
      by (simp add: non_blocking_result Cons)
    then obtain st where "perf rs = Some ((st, snd (settled eof r), fst (settled eof r)), rest)"
      and "st = Not_done \<longleftrightarrow> asks_again r"
      using assms [of rs] by (cases "perf rs") auto
    moreover have "run_op perf rest = first_settled eof (filter (\<lambda>r. r \<noteq> Inl interrupted) rest)"
      using 1 len by blast
    moreover have "filter (\<lambda>r. r \<noteq> Inl interrupted) rs = r # filter (\<lambda>r. r \<noteq> Inl interrupted) rest"
      unfolding filter Cons using r by simp
    ultimately show ?thesis using len by (subst run_op.simps) (simp add: first_settled_def)
  qed
qed

text \<open>The operations on the loop.\<close>

lemma recv_run:
  "run_op (recv_do_perform st) rs =
     first_settled (has_flag st stream_oriented) (filter (\<lambda>r. r \<noteq> Inl interrupted) rs)"
  by (rule run_first_settled)
    (auto simp: recv_do_perform_def non_blocking_recv_def option.map_comp o_def
      split: option.splits if_splits intro!: option.map_cong0)

lemma send_run:
  "run_op (send_do_perform st total_size) rs = first_settled False (filter (\<lambda>r. r \<noteq> Inl interrupted) rs)"
  by (rule run_first_settled)
    (auto simp: send_do_perform_def non_blocking_send_def option.map_comp o_def
      split: option.splits if_splits intro!: option.map_cong0)

lemma finished_run:
  "run_op (\<lambda>rs. map_option finished_status (non_blocking_loop False rs)) rs =
     first_settled False (filter (\<lambda>r. r \<noteq> Inl interrupted) rs)"
  by (rule run_first_settled)
    (auto simp: finished_status_def option.map_comp o_def split: option.splits if_splits intro!: option.map_cong0)

lemma datagram_runs:
  "run_op recvfrom_do_perform = run_op (\<lambda>rs. map_option finished_status (non_blocking_loop False rs))"
  "run_op recvmsg_do_perform = run_op (\<lambda>rs. map_option finished_status (non_blocking_loop False rs))"
  "run_op sendto_do_perform = run_op (\<lambda>rs. map_option finished_status (non_blocking_loop False rs))"
  by (simp_all add: recvfrom_do_perform_def [abs_def] recvmsg_do_perform_def [abs_def]
      sendto_do_perform_def [abs_def] non_blocking_recvfrom_def non_blocking_recvmsg_def
      non_blocking_sendto_def)

lemma transfer_returns:
  assumes "k < length rs" and "\<not> asks_again (rs ! k)" and "k \<le> length polls"
  shows "transfer_loop eof st s rs polls \<noteq> None"
  using assms
proof (induction rs arbitrary: k polls)
  case (Cons r rs)
  show ?case
  proof (cases "asks_again r \<and> \<not> has_flag st user_set_non_blocking")
    case True
    then obtain k' where k: "k = Suc k'" using Cons.prems(2) by (cases k) auto
    then obtain p ps where "polls = p # ps" using Cons.prems(3) by (cases polls) auto
    then show ?thesis using Cons.IH [of k' ps] Cons.prems k True by (auto simp: transfer_waits)
  qed (auto simp: transfer_settles)
qed simp

section \<open>What accepting gives\<close>

definition accept_pending :: "state_type \<Rightarrow> sys_result \<Rightarrow> bool" where
  "accept_pending st r = (case r of Inl e \<Rightarrow> accept_again st e | Inr _ \<Rightarrow> False)"

definition first_accepted :: "state_type \<Rightarrow> sys_result list \<Rightarrow> (int \<times> error_code) option" where
  "first_accepted st rs =
     (case dropWhile (accept_pending st) rs of [] \<Rightarrow> None | r # _ \<Rightarrow> Some (sys_call r))"

lemma accept_waits_again:
  "\<not> has_flag st user_set_non_blocking \<Longrightarrow> accept_waits st ec = accept_again st ec"
  by (simp add: accept_waits_def accept_again_def)

lemma socket_accept_conv:
  "s \<noteq> invalid_socket \<Longrightarrow> socket_accept s r = sys_call r"
  by (cases r) (simp_all add: socket_accept_def sys_call_conv invalid_socket_def)

declare sync_accept.simps(2) [simp del] non_blocking_accept.simps(2) [simp del]

lemma sync_accept_first:
  assumes "s \<noteq> invalid_socket" and "\<not> has_flag st user_set_non_blocking" and "polls_succeed polls"
    and "length rs \<le> length polls"
  shows "sync_accept s st rs polls = first_accepted st rs"
  using assms(3,4)
proof (induction rs arbitrary: polls)
  case Nil
  then show ?case using assms(1) by (simp add: first_accepted_def)
next
  case (Cons r rs)
  then obtain p ps where polls: "polls = p # ps" by (cases polls) auto
  then obtain n where p: "p = Inr n" using Cons.prems(1) by (cases p) (auto simp: polls_succeed_def)
  have pos: "\<not> fst (poll_socket s 0 p) < 0" using assms(1) p by (auto simp: poll_socket_def sys_call_conv)
  have "sync_accept s st rs ps = first_accepted st rs"
    using Cons by (simp add: polls polls_succeed_def)
  then show ?case using assms(1,2) pos
    by (cases r) (auto simp: polls sync_accept.simps socket_accept_conv sys_call_conv invalid_socket_def
        accept_waits_again first_accepted_def accept_pending_def split: prod.split)
qed

lemma non_blocking_accept_result:
  assumes "s \<noteq> invalid_socket"
  shows "non_blocking_accept s st rs =
     (case dropWhile (\<lambda>r. r = Inl interrupted) rs of
        [] \<Rightarrow> None
      | r # rest \<Rightarrow> Some (\<not> accept_pending st r, snd (sys_call r), fst (sys_call r), rest))"
proof (induction rs)
  case (Cons r rs)
  then show ?case using assms
    by (cases r) (auto simp: non_blocking_accept.simps(2) socket_accept_conv sys_call_conv invalid_socket_def
        accept_pending_def)
qed (simp add: assms)

function run_accept :: "int \<Rightarrow> state_type \<Rightarrow> sys_result list \<Rightarrow> (int \<times> error_code) option" where
  "run_accept s st rs =
     (case accept_do_perform s st rs of
        None \<Rightarrow> None
      | Some ((result, ec, _), new_s, rest) \<Rightarrow>
          (if result \<noteq> Not_done then Some (new_s, ec)
           else if length rest < length rs then run_accept s st rest else None))"
  by pat_completeness auto
termination
  by (relation "measure (\<lambda>(_, _, rs). length rs)") auto

declare run_accept.simps [simp del]

lemma dropWhile_interrupted:
  assumes "dropWhile (\<lambda>r. r = Inl interrupted) rs = r # rest"
  shows "filter (\<lambda>r. r \<noteq> Inl interrupted) rs = r # filter (\<lambda>r. r \<noteq> Inl interrupted) rest"
    and "length rest < length rs"
  using assms by (induction rs) (auto split: if_splits)

lemma dropWhile_interrupted_Nil:
  "dropWhile (\<lambda>r. r = Inl interrupted) rs = [] \<Longrightarrow> filter (\<lambda>r. r \<noteq> Inl interrupted) rs = []"
  by (induction rs) (auto split: if_splits)

lemma run_accept_first:
  assumes "s \<noteq> invalid_socket"
  shows "run_accept s st rs = first_accepted st (filter (\<lambda>r. r \<noteq> Inl interrupted) rs)"
proof (induction rs rule: length_induct)
  case (1 rs)
  let ?d = "dropWhile (\<lambda>r. r = Inl interrupted) rs"
  show ?case
  proof (cases ?d)
    case Nil
    have "accept_do_perform s st rs = None"
      unfolding accept_do_perform_def non_blocking_accept_result [OF assms] Nil by simp
    then show ?thesis using dropWhile_interrupted_Nil [OF Nil]
      by (subst run_accept.simps) (simp add: first_accepted_def)
  next
    case (Cons r rest)
    have "accept_do_perform s st rs = Some ((if accept_pending st r then Not_done else Done,
        snd (sys_call r), 0), fst (sys_call r), rest)"
      unfolding accept_do_perform_def non_blocking_accept_result [OF assms] Cons by simp
    moreover have "run_accept s st rest = first_accepted st (filter (\<lambda>r. r \<noteq> Inl interrupted) rest)"
      using 1 dropWhile_interrupted(2) [OF Cons] by blast
    ultimately show ?thesis using dropWhile_interrupted [OF Cons]
      by (subst run_accept.simps) (simp add: first_accepted_def)
  qed
qed

section \<open>The bits of the state\<close>

text \<open>A flag is one bit.\<close>

lemma flag_powers:
  "user_set_non_blocking = 2 ^ 0" "internal_non_blocking = 2 ^ 1" "enable_connection_aborted = 2 ^ 2"
  "user_set_linger = 2 ^ 3" "stream_oriented = 2 ^ 4" "datagram_oriented = 2 ^ 5" "possible_dup = 2 ^ 6"
  by (simp_all add: state_bits)

lemma has_flag_power: "has_flag st (2 ^ n) \<longleftrightarrow> bit st n"
  by (simp add: has_flag_def and_exp_eq_0_iff_not_bit)

lemma has_non_blocking:
  "has_flag st non_blocking \<longleftrightarrow> has_flag st user_set_non_blocking \<or> has_flag st internal_non_blocking"
  by (auto simp: has_flag_def non_blocking_def bit.conj_disj_distrib or_eq_0_iff)

lemma bit_set_clear:
  fixes st :: state_type
  shows "bit (st OR 2 ^ n) k \<longleftrightarrow> bit st k \<or> n < 8 \<and> k = n"
    and "bit (st AND NOT (2 ^ n)) k \<longleftrightarrow> bit st k \<and> k \<noteq> n"
    and "bit (st AND NOT (2 ^ n OR 2 ^ m)) k \<longleftrightarrow> bit st k \<and> k \<noteq> n \<and> k \<noteq> m"
  by (auto simp: bit_simps dest: bit_imp_le_length)

lemma flag_bits:
  "has_flag st user_set_non_blocking \<longleftrightarrow> bit st 0" "has_flag st internal_non_blocking \<longleftrightarrow> bit st 1"
  "has_flag st enable_connection_aborted \<longleftrightarrow> bit st 2" "has_flag st user_set_linger \<longleftrightarrow> bit st 3"
  "has_flag st stream_oriented \<longleftrightarrow> bit st 4" "has_flag st datagram_oriented \<longleftrightarrow> bit st 5"
  "has_flag st possible_dup \<longleftrightarrow> bit st 6"
  unfolding flag_powers has_flag_power by simp_all

lemma bits_set:
  "bit (st OR user_set_non_blocking) k \<longleftrightarrow> bit st k \<or> k = 0"
  "bit (st OR internal_non_blocking) k \<longleftrightarrow> bit st k \<or> k = 1"
  "bit (st OR enable_connection_aborted) k \<longleftrightarrow> bit st k \<or> k = 2"
  "bit (st OR user_set_linger) k \<longleftrightarrow> bit st k \<or> k = 3"
  "bit (st OR possible_dup) k \<longleftrightarrow> bit st k \<or> k = 6"
  "bit stream_oriented k \<longleftrightarrow> k = 4" "bit datagram_oriented k \<longleftrightarrow> k = 5"
  "bit possible_dup k \<longleftrightarrow> k = 6"
  unfolding flag_powers bit_set_clear bit_exp_iff by auto

lemma bits_cleared:
  "bit (st AND NOT user_set_non_blocking AND NOT internal_non_blocking) k \<longleftrightarrow> bit st k \<and> k \<noteq> 0 \<and> k \<noteq> 1"
  "bit (st AND NOT internal_non_blocking) k \<longleftrightarrow> bit st k \<and> k \<noteq> 1"
  "bit (st AND NOT enable_connection_aborted) k \<longleftrightarrow> bit st k \<and> k \<noteq> 2"
  "bit (st AND NOT (user_set_non_blocking OR internal_non_blocking)) k \<longleftrightarrow> bit st k \<and> k \<noteq> 0 \<and> k \<noteq> 1"
  "bit (st AND NOT non_blocking) k \<longleftrightarrow> bit st k \<and> k \<noteq> 0 \<and> k \<noteq> 1"
  unfolding non_blocking_def flag_powers by (simp_all only: bit_set_clear flip: bit.de_Morgan_disj)

text \<open>The option that asio itself keeps comes back as it was set, and no other flag changes.\<close>

lemma connection_aborted_option_round_trip:
  assumes "s \<noteq> invalid_socket"
    and "socket_setsockopt s st custom_socket_option_level enable_connection_aborted_option
      v sizeof_int a = (result, st', ec)"
  shows "result = 0 \<and> ec = Success
    \<and> socket_getsockopt s st' custom_socket_option_level enable_connection_aborted_option (w, sizeof_int) b
        = (0, (if v \<noteq> 0 then 1 else 0, sizeof_int), Success)"
  using assms by (auto simp: socket_setsockopt_def socket_getsockopt_def flag_bits bits_set bits_cleared
      custom_socket_option_level_def enable_connection_aborted_option_def always_fail_option_def split: if_splits)

end
