(* ===== verification/Asio_Socket_Service.thy ===== *)
theory Asio_Socket_Service
  imports Asio_Socket_Ops
begin

text \<open>
  \<open>detail/reactive_socket_service_base.hpp\<close> and its \<open>.ipp\<close>: the life of a socket, from opening or
  adopting a descriptor over its options and operations to closing or giving it up, on the
  functions of \<open>Asio_Socket_Ops\<close> and the reactor's of \<open>Asio_Reactor\<close>. Answers of the system
  are arguments, and so is the state of a descriptor that the reactor's pool hands out.
  Shown here: whatever is called on a socket, an open one has a live registration and its flags
  tell the mode of its descriptor, so that the reactor never makes a call that blocks; an
  asynchronous operation ends as the synchronous call does; and a second read after the end of a
  stream waits for an event that does not come.
\<close>

unbundle bit_operations_syntax

section \<open>The socket\<close>

record socket_impl =
  impl_socket :: int
  impl_state :: state_type
  reactor_data :: "descriptor_state option"

datatype service_effect = Reactor reactor_effect | System close_call

datatype socket_kind = Sock_stream | Sock_dgram | Sock_other

definition is_open :: "socket_impl \<Rightarrow> bool" where
  "is_open impl \<longleftrightarrow> impl_socket impl \<noteq> invalid_socket"

definition construct :: "socket_impl \<Rightarrow> socket_impl" where
  "construct impl = impl\<lparr>impl_socket := invalid_socket, impl_state := 0\<rparr>"

text \<open>The destructor; \<open>c1\<close> and \<open>c2\<close> answer the attempts to close.\<close>

definition destroy_impl ::
  "sys_result \<Rightarrow> sys_result \<Rightarrow> socket_impl \<Rightarrow> socket_impl \<times> service_effect list" where
  "destroy_impl c1 c2 impl =
     (if impl_socket impl \<noteq> invalid_socket then
        (case deregister_descriptor (\<not> has_flag (impl_state impl) possible_dup) (reactor_data impl) of (data, es) \<Rightarrow>
         case socket_close (impl_socket impl) (impl_state impl) True Success c1 c2 of (calls, _, st, _) \<Rightarrow>
           (impl\<lparr>impl_state := st, reactor_data := cleanup_descriptor_data data\<rparr>,
            map Reactor es @ map System calls))
      else (impl, []))"

definition close_impl ::
  "sys_result \<Rightarrow> sys_result \<Rightarrow> socket_impl \<Rightarrow> socket_impl \<times> error_code \<times> service_effect list" where
  "close_impl c1 c2 impl =
     (if is_open impl then
        (case deregister_descriptor (\<not> has_flag (impl_state impl) possible_dup) (reactor_data impl) of (data, es) \<Rightarrow>
         case socket_close (impl_socket impl) (impl_state impl) False Success c1 c2 of (calls, _, st, ec) \<Rightarrow>
           (construct (impl\<lparr>impl_state := st, reactor_data := cleanup_descriptor_data data\<rparr>), ec,
            map Reactor es @ map System calls))
      else (construct impl, Success, []))"

definition release_impl :: "socket_impl \<Rightarrow> socket_impl \<times> int \<times> error_code \<times> service_effect list" where
  "release_impl impl =
     (if \<not> is_open impl then (impl, invalid_socket, Bad_descriptor, [])
      else case deregister_descriptor False (reactor_data impl) of (data, es) \<Rightarrow>
        (construct (impl\<lparr>reactor_data := cleanup_descriptor_data data\<rparr>), impl_socket impl, Success, map Reactor es))"

definition cancel_impl :: "socket_impl \<Rightarrow> socket_impl \<times> error_code \<times> service_effect list" where
  "cancel_impl impl =
     (if \<not> is_open impl then (impl, Bad_descriptor, [])
      else case cancel_ops (reactor_data impl) of (data, es) \<Rightarrow>
        (impl\<lparr>reactor_data := data\<rparr>, Success, map Reactor es))"

text \<open>Moving: the target takes everything and the source is left closed.\<close>

definition base_move_construct :: "socket_impl \<Rightarrow> socket_impl \<Rightarrow> socket_impl \<times> socket_impl" where
  "base_move_construct impl other =
     (impl\<lparr>impl_socket := impl_socket other, impl_state := impl_state other, reactor_data := reactor_data other\<rparr>,
      other\<lparr>impl_socket := invalid_socket, impl_state := 0, reactor_data := None\<rparr>)"

definition base_move_assign ::
  "sys_result \<Rightarrow> sys_result \<Rightarrow> socket_impl \<Rightarrow> socket_impl \<Rightarrow> (socket_impl \<times> socket_impl) \<times> service_effect list" where
  "base_move_assign c1 c2 impl other =
     (case destroy_impl c1 c2 impl of (impl1, es) \<Rightarrow> (base_move_construct impl1 other, es))"

section \<open>Opening\<close>

definition state_of_kind :: "socket_kind \<Rightarrow> state_type" where
  "state_of_kind k =
     (case k of Sock_stream \<Rightarrow> stream_oriented | Sock_dgram \<Rightarrow> datagram_oriented | Sock_other \<Rightarrow> 0)"

text \<open>\<open>socket_ops::socket\<close>, and the destructor of \<open>socket_holder\<close> when the registration fails.\<close>

definition system_socket :: "sys_result \<Rightarrow> int \<times> error_code" where
  "system_socket answer = sys_call answer"

definition drop_holder :: "int \<Rightarrow> sys_result \<Rightarrow> sys_result \<Rightarrow> service_effect list" where
  "drop_holder s c1 c2 =
     (if s \<noteq> invalid_socket then (case socket_close s 0 True Success c1 c2 of (calls, _) \<Rightarrow> map System calls) else [])"

definition do_open ::
  "socket_kind \<Rightarrow> sys_result \<Rightarrow> error_code \<Rightarrow> descriptor_state \<Rightarrow> sys_result \<Rightarrow> sys_result
     \<Rightarrow> socket_impl \<Rightarrow> socket_impl \<times> error_code \<times> service_effect list" where
  "do_open k answer ctl pooled c1 c2 impl =
     (if is_open impl then (impl, Already_open, [])
      else case system_socket answer of (sock, ec) \<Rightarrow>
        if sock = invalid_socket then (impl, ec, [])
        else case register_descriptor ctl pooled of (d, err) \<Rightarrow>
          if err \<noteq> Success then (impl\<lparr>reactor_data := Some d\<rparr>, err, drop_holder sock c1 c2)
          else (impl\<lparr>impl_socket := sock, impl_state := state_of_kind k, reactor_data := Some d\<rparr>, Success, []))"

definition do_assign ::
  "socket_kind \<Rightarrow> int \<Rightarrow> error_code \<Rightarrow> descriptor_state \<Rightarrow> socket_impl \<Rightarrow> socket_impl \<times> error_code" where
  "do_assign k native ctl pooled impl =
     (if is_open impl then (impl, Already_open)
      else case register_descriptor ctl pooled of (d, err) \<Rightarrow>
        if err \<noteq> Success then (impl\<lparr>reactor_data := Some d\<rparr>, err)
        else (impl\<lparr>impl_socket := native, impl_state := state_of_kind k OR possible_dup, reactor_data := Some d\<rparr>,
              Success))"

section \<open>Starting operations\<close>

text \<open>
  Before an operation is given to the reactor the descriptor is made non-blocking, unless it is
  already. \<open>prepare_start\<close> is that decision: the new state, and the error with which the
  operation is posted when it is not given to the reactor.
\<close>

definition prepare_start :: "sys_result \<Rightarrow> socket_impl \<Rightarrow> socket_impl \<times> error_code option" where
  "prepare_start answer impl =
     (if has_flag (impl_state impl) non_blocking then (impl, None)
      else case set_internal_non_blocking (impl_socket impl) (impl_state impl) True answer of (ok, st, ec) \<Rightarrow>
        (impl\<lparr>impl_state := st\<rparr>, if ok then None else Some ec))"

definition service_start_op ::
  "op_type \<Rightarrow> reactor_op \<Rightarrow> bool \<Rightarrow> bool \<Rightarrow> sys_result \<Rightarrow> outcome \<Rightarrow> error_code
     \<Rightarrow> socket_impl \<Rightarrow> socket_impl \<times> service_effect list" where
  "service_start_op j op is_non_blocking noop answer out ctl impl =
     (if noop then (impl, [Reactor (Post_immediate op)])
      else case prepare_start answer impl of
          (impl1, Some ec) \<Rightarrow> (impl1, [Reactor (Post_immediate (op\<lparr>op_ec := ec\<rparr>))])
        | (impl1, None) \<Rightarrow>
            (case start_op j op is_non_blocking out ctl (reactor_data impl1) of (data, es) \<Rightarrow>
               (impl1\<lparr>reactor_data := data\<rparr>, map Reactor es)))"

definition start_accept_op ::
  "reactor_op \<Rightarrow> bool \<Rightarrow> sys_result \<Rightarrow> outcome \<Rightarrow> error_code
     \<Rightarrow> socket_impl \<Rightarrow> socket_impl \<times> service_effect list" where
  "start_accept_op op peer_is_open answer out ctl impl =
     (if \<not> peer_is_open then service_start_op Read_op op True False answer out ctl impl
      else (impl, [Reactor (Post_immediate (op\<lparr>op_ec := Already_open\<rparr>))]))"

definition start_connect_op ::
  "reactor_op \<Rightarrow> sys_result \<Rightarrow> sys_result \<Rightarrow> outcome \<Rightarrow> error_code
     \<Rightarrow> socket_impl \<Rightarrow> socket_impl \<times> service_effect list" where
  "start_connect_op op answer c out ctl impl =
     (case prepare_start answer impl of
          (impl1, Some ec) \<Rightarrow> (impl1, [Reactor (Post_immediate (op\<lparr>op_ec := ec\<rparr>))])
        | (impl1, None) \<Rightarrow>
            (case socket_connect (impl_socket impl1) c of (result, ec) \<Rightarrow>
               if result \<noteq> 0 \<and> (ec = In_progress \<or> ec = Would_block) then
                 (case start_op Write_op (op\<lparr>op_ec := Success\<rparr>) False out ctl (reactor_data impl1) of (data, es) \<Rightarrow>
                    (impl1\<lparr>reactor_data := data\<rparr>, map Reactor es))
               else (impl1, [Reactor (Post_immediate (op\<lparr>op_ec := ec\<rparr>))])))"

section \<open>Any sequence of calls\<close>

text \<open>
  The socket together with the mode of its descriptor in the kernel: a new socket blocks, a
  descriptor that is adopted is in any mode, and a successful \<open>FIONBIO\<close> sets it. \<open>epoll_ctl\<close>
  refuses a descriptor that is not one. \<open>Event\<close> is the reactor performing what is queued.
\<close>

record socket_world =
  impl_of :: socket_impl
  kernel_mode :: bool

datatype service_call =
    Open socket_kind sys_result error_code descriptor_state
  | Assign socket_kind int error_code descriptor_state bool
  | Close sys_result sys_result
  | Release
  | Cancel_all
  | Set_mode bool sys_result
  | Set_native_mode bool sys_result
  | Io_control int int sys_result
  | Set_option int int int nat sys_result
  | Start_op op_type reactor_op bool bool sys_result outcome error_code
  | Start_accept reactor_op bool sys_result outcome error_code
  | Start_connect reactor_op sys_result sys_result outcome error_code
  | Event "nat \<Rightarrow> outcome" "event set"

definition fionbio_mode :: "bool \<Rightarrow> sys_result \<Rightarrow> bool \<Rightarrow> bool" where
  "fionbio_mode on answer m = (case answer of Inl _ \<Rightarrow> m | Inr _ \<Rightarrow> on)"

definition prepared_mode :: "sys_result \<Rightarrow> socket_impl \<Rightarrow> bool \<Rightarrow> bool" where
  "prepared_mode answer impl m =
     (if has_flag (impl_state impl) non_blocking \<or> \<not> is_open impl then m else fionbio_mode True answer m)"

definition with_world :: "socket_impl \<times> 'a \<Rightarrow> bool \<Rightarrow> socket_world \<times> 'a" where
  "with_world r m = (\<lparr>impl_of = fst r, kernel_mode = m\<rparr>, snd r)"

fun service_step :: "service_call \<Rightarrow> socket_world \<Rightarrow> socket_world \<times> service_effect list" where
  "service_step (Open k a ctl d) w =
     with_world (case do_open k a ctl d (Inr 0) (Inr 0) (impl_of w) of (impl, _, es) \<Rightarrow> (impl, es))
       (if is_open (impl_of w) then kernel_mode w else False)"
| "service_step (Assign k native ctl d m) w =
     with_world (fst (do_assign k native (if native = invalid_socket then Bad_descriptor else ctl) d (impl_of w)), [])
       (if is_open (impl_of w) then kernel_mode w else m)"
| "service_step (Close c1 c2) w =
     with_world (case close_impl c1 c2 (impl_of w) of (impl, _, es) \<Rightarrow> (impl, es)) (kernel_mode w)"
| "service_step Release w =
     with_world (case release_impl (impl_of w) of (impl, _, _, es) \<Rightarrow> (impl, es)) (kernel_mode w)"
| "service_step Cancel_all w =
     with_world (case cancel_impl (impl_of w) of (impl, _, es) \<Rightarrow> (impl, es)) (kernel_mode w)"
| "service_step (Set_mode on a) w =
     (let impl = impl_of w
      in with_world (impl\<lparr>impl_state := fst (snd (set_user_non_blocking (impl_socket impl) (impl_state impl) on a))\<rparr>, [])
           (if is_open impl then fionbio_mode on a (kernel_mode w) else kernel_mode w))"
| "service_step (Set_native_mode on a) w =
     (let impl = impl_of w
      in with_world (impl\<lparr>impl_state := fst (snd (set_internal_non_blocking (impl_socket impl) (impl_state impl) on a))\<rparr>, [])
           (if is_open impl \<and> (on \<or> \<not> has_flag (impl_state impl) user_set_non_blocking)
            then fionbio_mode on a (kernel_mode w) else kernel_mode w))"
| "service_step (Io_control cmd arg a) w =
     (let impl = impl_of w
      in with_world (impl\<lparr>impl_state := fst (snd (socket_ioctl (impl_socket impl) (impl_state impl) cmd arg a))\<rparr>, [])
           (if is_open impl \<and> cmd = fionbio then fionbio_mode (arg \<noteq> 0) a (kernel_mode w) else kernel_mode w))"
| "service_step (Set_option level name val len a) w =
     (let impl = impl_of w
      in with_world (impl\<lparr>impl_state := fst (snd (socket_setsockopt (impl_socket impl) (impl_state impl) level name val len a))\<rparr>, [])
           (kernel_mode w))"
| "service_step (Start_op j op nb noop a out ctl) w =
     with_world (service_start_op j op nb noop a out ctl (impl_of w))
       (if noop then kernel_mode w else prepared_mode a (impl_of w) (kernel_mode w))"
| "service_step (Start_accept op peer a out ctl) w =
     with_world (start_accept_op op peer a out ctl (impl_of w))
       (if peer then kernel_mode w else prepared_mode a (impl_of w) (kernel_mode w))"
| "service_step (Start_connect op a c out ctl) w =
     with_world (start_connect_op op a c out ctl (impl_of w)) (prepared_mode a (impl_of w) (kernel_mode w))"
| "service_step (Event pf events) w =
     with_world (case reactor_data (impl_of w) of
         None \<Rightarrow> (impl_of w, [])
       | Some d \<Rightarrow> (case descriptor_do_complete True pf events d of (d', es) \<Rightarrow>
           ((impl_of w)\<lparr>reactor_data := Some d'\<rparr>, map Reactor es)))
       (kernel_mode w)"

definition run_calls :: "service_call list \<Rightarrow> socket_world \<Rightarrow> socket_world" where
  "run_calls cs w = fold (\<lambda>c w. fst (service_step c w)) cs w"

definition new_world :: socket_world where
  "new_world = \<lparr>impl_of = \<lparr>impl_socket = invalid_socket, impl_state = 0, reactor_data = None\<rparr>, kernel_mode = False\<rparr>"

definition service_inv :: "socket_world \<Rightarrow> bool" where
  "service_inv w \<longleftrightarrow>
     (if is_open (impl_of w) then
        (\<exists>d. reactor_data (impl_of w) = Some d \<and> \<not> desc_shutdown d)
        \<and> (has_flag (impl_state (impl_of w)) non_blocking \<longrightarrow> kernel_mode w)
        \<and> (\<not> has_flag (impl_state (impl_of w)) possible_dup \<longrightarrow> kernel_mode w
            \<longrightarrow> has_flag (impl_state (impl_of w)) non_blocking)
      else impl_state (impl_of w) = 0)"

text \<open>An effect that says that the reactor has tried the operation or will.\<close>

definition reaches_reactor :: "service_effect list \<Rightarrow> bool" where
  "reaches_reactor es \<longleftrightarrow> Reactor Performed \<in> set es \<or> Reactor Work_started \<in> set es"

lemma with_world_sel [simp]:
  "impl_of (fst (with_world r m)) = fst r" "kernel_mode (fst (with_world r m)) = m"
  "snd (with_world r m) = snd r"
  by (simp_all add: with_world_def)

lemma start_op_live:
  assumes "start_op j op allow out ctl data = (data', es)" and "data = Some d" and "\<not> desc_shutdown d"
  shows "\<exists>d'. data' = Some d' \<and> \<not> desc_shutdown d'"
  using assms
  by (auto simp: start_op_def start_speculative_def start_waiting_def start_rearmed_def add_op_def Let_def
      split: if_splits prod.splits)

lemma cancel_live:
  "cancel_ops (Some d) = (data', es) \<Longrightarrow> \<not> desc_shutdown d \<Longrightarrow> \<exists>d'. data' = Some d' \<and> \<not> desc_shutdown d'"
  by (auto simp: cancel_ops_def)

lemma perform_queue_shutdown [simp]: "desc_shutdown (fst (perform_queue pf events j p)) = desc_shutdown (fst p)"
  by (simp add: perform_queue_def split: prod.split)

lemma event_live:
  assumes "descriptor_do_complete True pf events d = (d', es)"
  shows "desc_shutdown d' = desc_shutdown d"
proof -
  have "d' = fst (perform_io pf events d)" using assms by (simp add: descriptor_do_complete_def split: prod.splits)
  then show ?thesis by (simp add: perform_io_def)
qed

lemmas mode_simps = has_non_blocking flag_bits bits_set bits_cleared sys_call_conv fionbio_mode_def

lemma prepare_inv:
  assumes "service_inv \<lparr>impl_of = impl, kernel_mode = m\<rparr>" and "prepare_start a impl = (impl1, res)"
  shows "service_inv \<lparr>impl_of = impl1, kernel_mode = prepared_mode a impl m\<rparr>"
    and "impl_socket impl1 = impl_socket impl" and "reactor_data impl1 = reactor_data impl"
    and "res = None \<Longrightarrow> is_open impl \<and> prepared_mode a impl m"
proof -
  have closed: "\<not> is_open impl \<Longrightarrow> \<not> bit (impl_state impl) k" for k
    using assms(1) by (simp add: service_inv_def)
  show "service_inv \<lparr>impl_of = impl1, kernel_mode = prepared_mode a impl m\<rparr>"
    "impl_socket impl1 = impl_socket impl" "reactor_data impl1 = reactor_data impl"
    using assms closed
    by (cases a; auto simp: prepare_start_def set_internal_non_blocking_def service_inv_def is_open_def
        prepared_mode_def mode_simps split: if_splits)+
  show "is_open impl \<and> prepared_mode a impl m" if "res = None"
    using that assms closed
    by (cases a) (auto simp: prepare_start_def set_internal_non_blocking_def service_inv_def is_open_def
        prepared_mode_def mode_simps split: if_splits)
qed

lemma service_inv_data:
  assumes "service_inv \<lparr>impl_of = impl, kernel_mode = m\<rparr>"
    and "is_open impl \<Longrightarrow> \<exists>d. data = Some d \<and> \<not> desc_shutdown d"
  shows "service_inv \<lparr>impl_of = impl\<lparr>reactor_data := data\<rparr>, kernel_mode = m\<rparr>"
  using assms by (cases "is_open impl") (simp_all add: service_inv_def is_open_def)

lemma service_inv_closed:
  "impl_socket impl = invalid_socket \<Longrightarrow> impl_state impl = 0 \<Longrightarrow> service_inv \<lparr>impl_of = impl, kernel_mode = m\<rparr>"
  by (simp add: service_inv_def is_open_def)

lemma start_given:
  assumes inv: "service_inv \<lparr>impl_of = impl, kernel_mode = m\<rparr>" and "is_open impl" and "m"
    and "start_op j op allow out ctl (reactor_data impl) = (data, es)"
  shows "service_inv \<lparr>impl_of = impl\<lparr>reactor_data := data\<rparr>, kernel_mode = m\<rparr>"
proof (rule service_inv_data [OF inv])
  obtain d where "reactor_data impl = Some d" "\<not> desc_shutdown d" using inv assms(2) by (auto simp: service_inv_def)
  with start_op_live [OF assms(4)] show "\<exists>d. data = Some d \<and> \<not> desc_shutdown d" by blast
qed

lemma posted_only [simp]: "\<not> reaches_reactor [Reactor (Post_immediate op)]" "\<not> reaches_reactor []"
  by (simp_all add: reaches_reactor_def)

lemma start_op_inv:
  assumes inv: "service_inv \<lparr>impl_of = impl, kernel_mode = m\<rparr>"
    and step: "service_start_op j op nb noop a out ctl impl = (impl', es)"
  shows "service_inv \<lparr>impl_of = impl', kernel_mode = if noop then m else prepared_mode a impl m\<rparr>
    \<and> (reaches_reactor es \<longrightarrow> \<not> noop \<and> prepared_mode a impl m)"
proof (cases noop)
  case True
  then show ?thesis using assms by (auto simp: service_start_op_def)
next
  case False
  obtain impl1 res where p: "prepare_start a impl = (impl1, res)" by fastforce
  note prep = prepare_inv [OF inv p]
  show ?thesis
  proof (cases res)
    case None
    obtain data es' where r: "start_op j op nb out ctl (reactor_data impl1) = (data, es')" by fastforce
    then have "impl' = impl1\<lparr>reactor_data := data\<rparr>" using step False p None by (simp add: service_start_op_def)
    then show ?thesis using start_given [OF prep(1) _ _ r] prep(2) prep(4) [OF None] False by (simp add: is_open_def)
  next
    case (Some ec)
    then show ?thesis using step False p prep(1) by (auto simp: service_start_op_def)
  qed
qed

lemma start_connect_inv:
  assumes inv: "service_inv \<lparr>impl_of = impl, kernel_mode = m\<rparr>"
    and step: "start_connect_op op a c out ctl impl = (impl', es)"
  shows "service_inv \<lparr>impl_of = impl', kernel_mode = prepared_mode a impl m\<rparr>
    \<and> (reaches_reactor es \<longrightarrow> prepared_mode a impl m)"
proof -
  obtain impl1 res where p: "prepare_start a impl = (impl1, res)" by fastforce
  obtain result ec where c: "socket_connect (impl_socket impl1) c = (result, ec)" by fastforce
  note prep = prepare_inv [OF inv p]
  show ?thesis
  proof (cases "res = None \<and> result \<noteq> 0 \<and> (ec = In_progress \<or> ec = Would_block)")
    case True
    obtain data es' where r: "start_op Write_op (op\<lparr>op_ec := Success\<rparr>) False out ctl (reactor_data impl1) = (data, es')"
      by fastforce
    then have "impl' = impl1\<lparr>reactor_data := data\<rparr>" using step p c True by (simp add: start_connect_op_def)
    then show ?thesis using start_given [OF prep(1) _ _ r] prep(2) prep(4) True by (simp add: is_open_def)
  next
    case False
    then have "impl' = impl1 \<and> \<not> reaches_reactor es"
      using step p c by (cases res) (auto simp: start_connect_op_def split: if_splits)
    then show ?thesis using prep(1) by simp
  qed
qed

lemma register_gives:
  assumes "register_descriptor ctl pooled = (d, Success)"
  shows "\<not> desc_shutdown d"
  using assms by (auto simp: register_descriptor_def Let_def split: if_splits)

lemma register_refused: "snd (register_descriptor Bad_descriptor pooled) = Bad_descriptor"
  by (simp add: register_descriptor_def Let_def eperm_def)

lemma new_descriptor_inv:
  assumes "s \<noteq> invalid_socket" and "\<not> desc_shutdown d"
    and "st = state_of_kind k OR possible_dup \<or> st = state_of_kind k \<and> \<not> m"
  shows "service_inv \<lparr>impl_of = \<lparr>impl_socket = s, impl_state = st, reactor_data = Some d\<rparr>, kernel_mode = m\<rparr>"
  using assms(3) by (cases k) (auto simp: service_inv_def is_open_def assms(1,2) state_of_kind_def mode_simps)

lemma open_inv:
  assumes "service_inv \<lparr>impl_of = impl, kernel_mode = m\<rparr>" and "do_open k a ctl d c1 c2 impl = (impl', ec, es)"
  shows "service_inv \<lparr>impl_of = impl', kernel_mode = if is_open impl then m else False\<rparr>"
proof (cases "is_open impl")
  case True
  then show ?thesis using assms by (simp add: do_open_def)
next
  case False
  obtain sock ec' where s: "system_socket a = (sock, ec')" by fastforce
  obtain d' err where r: "register_descriptor ctl d = (d', err)" by fastforce
  have closed: "impl_socket impl = invalid_socket" "impl_state impl = 0"
    using False assms(1) by (simp_all add: is_open_def service_inv_def)
  show ?thesis
  proof (cases "sock = invalid_socket \<or> err \<noteq> Success")
    case True
    then have "impl_socket impl' = invalid_socket \<and> impl_state impl' = 0"
      using assms(2) False closed s r by (auto simp: do_open_def split: if_splits)
    then show ?thesis by (simp add: service_inv_closed)
  next
    case registered: False
    then have "impl' = \<lparr>impl_socket = sock, impl_state = state_of_kind k, reactor_data = Some d'\<rparr>"
      using assms(2) False s r by (cases impl) (simp add: do_open_def)
    moreover have "\<not> desc_shutdown d'" using register_gives r registered by blast
    ultimately show ?thesis using registered False by (simp add: new_descriptor_inv [where k = k])
  qed
qed

lemma assign_inv:
  assumes "service_inv \<lparr>impl_of = impl, kernel_mode = m\<rparr>"
    and "do_assign k native (if native = invalid_socket then Bad_descriptor else ctl) d impl = (impl', ec)"
  shows "service_inv \<lparr>impl_of = impl', kernel_mode = if is_open impl then m else m'\<rparr>"
proof (cases "is_open impl")
  case True
  then show ?thesis using assms by (simp add: do_assign_def)
next
  case False
  obtain d' err where r: "register_descriptor (if native = invalid_socket then Bad_descriptor else ctl) d = (d', err)"
    by fastforce
  have closed: "impl_socket impl = invalid_socket" "impl_state impl = 0"
    using False assms(1) by (simp_all add: is_open_def service_inv_def)
  show ?thesis
  proof (cases "err = Success")
    case False
    then show ?thesis using assms(2) closed r \<open>\<not> is_open impl\<close>
      by (auto simp: do_assign_def service_inv_closed)
  next
    case True
    then have "native \<noteq> invalid_socket" using r register_refused [of d] by (auto split: if_splits)
    moreover have "impl' = \<lparr>impl_socket = native, impl_state = state_of_kind k OR possible_dup, reactor_data = Some d'\<rparr>"
      using assms(2) \<open>\<not> is_open impl\<close> True r by (cases impl) (simp add: do_assign_def)
    moreover have "\<not> desc_shutdown d'" using register_gives r True by blast
    ultimately show ?thesis using \<open>\<not> is_open impl\<close> by (simp add: new_descriptor_inv [where k = k])
  qed
qed

lemma service_inv_split: "service_inv w = service_inv \<lparr>impl_of = impl_of w, kernel_mode = kernel_mode w\<rparr>"
  by (cases w) simp

lemma mode_calls_inv:
  assumes "service_inv w" and "c = Set_mode on a \<or> c = Set_native_mode on a \<or> c = Io_control cmd arg a
    \<or> c = Set_option level name val len a"
  shows "service_inv (fst (service_step c w)) \<and> snd (service_step c w) = []"
  using assms(2)
proof (elim disjE)
  assume "c = Set_mode on a"
  then show ?thesis using assms(1)
    by (cases a) (auto simp: service_inv_def Let_def is_open_def set_user_non_blocking_def mode_simps)
next
  assume "c = Set_native_mode on a"
  then show ?thesis using assms(1)
    by (cases a) (auto simp: service_inv_def Let_def is_open_def set_internal_non_blocking_def mode_simps)
next
  assume "c = Io_control cmd arg a"
  then show ?thesis using assms(1)
    by (cases a) (auto simp: service_inv_def Let_def is_open_def socket_ioctl_def mode_simps)
next
  assume "c = Set_option level name val len a"
  then show ?thesis using assms(1)
    by (cases a) (auto simp: service_inv_def Let_def is_open_def socket_setsockopt_def mode_simps)
qed

lemma service_step_inv:
  assumes "service_inv w"
  shows "service_inv (fst (service_step c w))
    \<and> (reaches_reactor (snd (service_step c w)) \<longrightarrow> kernel_mode (fst (service_step c w)))"
proof -
  obtain impl m where w: "w = \<lparr>impl_of = impl, kernel_mode = m\<rparr>" by (cases w)
  note inv = assms [unfolded w]
  show ?thesis
  proof (cases c)
    case (Open k a ctl d)
    obtain impl' ec es where r: "do_open k a ctl d (Inr 0) (Inr 0) impl = (impl', ec, es)" by (metis surj_pair)
    then have "\<not> reaches_reactor es"
      by (auto simp: do_open_def drop_holder_def reaches_reactor_def split: if_splits prod.splits)
    with open_inv [OF inv r] r show ?thesis by (simp add: Open w with_world_def split: if_splits)
  next
    case (Assign k native ctl d m')
    obtain impl' ec where r: "do_assign k native (if native = invalid_socket then Bad_descriptor else ctl) d impl = (impl', ec)"
      by fastforce
    with assign_inv [OF inv r, of m'] show ?thesis by (simp add: Assign w with_world_def split: if_splits)
  next
    case (Close c1 c2)
    have "\<not> reaches_reactor (snd (service_step c w))"
      by (auto simp: Close w close_impl_def reaches_reactor_def deregister_descriptor_def
          split: prod.splits option.splits if_splits)
    moreover have "service_inv (fst (service_step c w))"
      by (simp add: Close w with_world_def close_impl_def construct_def service_inv_closed split: prod.split)
    ultimately show ?thesis by simp
  next
    case Release
    have "\<not> reaches_reactor (snd (service_step c w))"
      by (auto simp: Release w release_impl_def reaches_reactor_def deregister_descriptor_def
          split: prod.splits option.splits if_splits)
    moreover have "service_inv (fst (service_step c w))"
      using inv by (simp add: Release w with_world_def release_impl_def construct_def service_inv_closed split: prod.split)
    ultimately show ?thesis by simp
  next
    case Cancel_all
    have "\<not> reaches_reactor (snd (service_step c w))"
      by (auto simp: Cancel_all w cancel_impl_def reaches_reactor_def cancel_ops_def split: option.splits)
    moreover have "service_inv (fst (service_step c w))"
    proof (cases "is_open impl")
      case True
      then obtain d where d: "reactor_data impl = Some d" "\<not> desc_shutdown d"
        using inv by (auto simp: service_inv_def)
      then have "service_inv \<lparr>impl_of = impl\<lparr>reactor_data := Some (d\<lparr>op_queue := (\<lambda>_. [])\<rparr>)\<rparr>, kernel_mode = m\<rparr>"
        by (intro service_inv_data [OF inv]) simp
      then show ?thesis using True d by (simp add: Cancel_all w with_world_def cancel_impl_def cancel_ops_def)
    qed (use inv in \<open>simp add: Cancel_all w with_world_def cancel_impl_def\<close>)
    ultimately show ?thesis by simp
  next
    case (Set_mode on a)
    have "service_inv (fst (service_step c w)) \<and> snd (service_step c w) = []"
      by (rule mode_calls_inv [OF assms]) (use Set_mode in blast)
    then show ?thesis by simp
  next
    case (Set_native_mode on a)
    have "service_inv (fst (service_step c w)) \<and> snd (service_step c w) = []"
      by (rule mode_calls_inv [OF assms]) (use Set_native_mode in blast)
    then show ?thesis by simp
  next
    case (Io_control cmd arg a)
    have "service_inv (fst (service_step c w)) \<and> snd (service_step c w) = []"
      by (rule mode_calls_inv [OF assms]) (use Io_control in blast)
    then show ?thesis by simp
  next
    case (Set_option level name val len a)
    have "service_inv (fst (service_step c w)) \<and> snd (service_step c w) = []"
      by (rule mode_calls_inv [OF assms]) (use Set_option in blast)
    then show ?thesis by simp
  next
    case (Start_op j op nb noop a out ctl)
    obtain impl' es where r: "service_start_op j op nb noop a out ctl impl = (impl', es)" by fastforce
    with start_op_inv [OF inv r] show ?thesis by (simp add: Start_op w with_world_def split: if_splits)
  next
    case (Start_accept op peer a out ctl)
    obtain impl' es where r: "service_start_op Read_op op True False a out ctl impl = (impl', es)" by fastforce
    with start_op_inv [OF inv r] inv show ?thesis by (simp add: Start_accept w with_world_def start_accept_op_def)
  next
    case (Start_connect op a c' out ctl)
    obtain impl' es where r: "start_connect_op op a c' out ctl impl = (impl', es)" by fastforce
    with start_connect_inv [OF inv r] show ?thesis by (simp add: Start_connect w with_world_def)
  next
    case (Event pf events)
    show ?thesis
    proof (cases "reactor_data impl")
      case None
      then show ?thesis using inv by (simp add: Event w with_world_def)
    next
      case (Some d)
      obtain d' es where r: "descriptor_do_complete True pf events d = (d', es)" by fastforce
      have "\<not> reaches_reactor (map Reactor es)"
        using r by (auto simp: reaches_reactor_def descriptor_do_complete_def perform_io_cleanup_def
            split: prod.splits list.splits if_splits)
      moreover have "service_inv \<lparr>impl_of = impl\<lparr>reactor_data := Some d'\<rparr>, kernel_mode = m\<rparr>"
        by (rule service_inv_data [OF inv]) (use inv event_live [OF r] Some in \<open>simp add: service_inv_def\<close>)
      ultimately show ?thesis by (simp add: Event w with_world_def Some r)
    qed
  qed
qed

lemma run_calls_inv: "service_inv w \<Longrightarrow> service_inv (run_calls cs w)"
  using service_step_inv by (induction cs arbitrary: w) (simp_all add: run_calls_def)

section \<open>Synchronous and asynchronous operations\<close>

text \<open>
  The synchronous transfers of the service; a single buffer of length \<open>len\<close> takes the simpler
  call. The asynchronous ones give what the handler gets, on the answers that the attempts of the
  operation receive; \<open>a\<close> is the answer to the call that makes the descriptor non-blocking.
\<close>

definition service_receive ::
  "bool \<Rightarrow> nat \<Rightarrow> bool \<Rightarrow> sys_result list \<Rightarrow> sys_result list \<Rightarrow> socket_impl \<Rightarrow> (nat \<times> error_code) option" where
  "service_receive single len all_empty rs polls impl =
     (if single then sync_recv1 (impl_socket impl) (impl_state impl) len rs polls
      else sync_recv (impl_socket impl) (impl_state impl) all_empty rs polls)"

definition service_send ::
  "bool \<Rightarrow> nat \<Rightarrow> bool \<Rightarrow> sys_result list \<Rightarrow> sys_result list \<Rightarrow> socket_impl \<Rightarrow> (nat \<times> error_code) option" where
  "service_send single len all_empty rs polls impl =
     (if single then sync_send1 (impl_socket impl) (impl_state impl) len rs polls
      else sync_send (impl_socket impl) (impl_state impl) all_empty rs polls)"

definition service_async ::
  "bool \<Rightarrow> (sys_result list \<Rightarrow> (outcome \<times> sys_result list) option) \<Rightarrow> sys_result \<Rightarrow> sys_result list
     \<Rightarrow> socket_impl \<Rightarrow> (nat \<times> error_code) option" where
  "service_async noop perf a rs impl =
     (if noop then Some (0, Success)
      else case prepare_start a impl of
          (impl1, Some ec) \<Rightarrow> Some (0, ec)
        | (impl1, None) \<Rightarrow> run_op perf rs)"

definition service_async_receive ::
  "bool \<Rightarrow> sys_result \<Rightarrow> sys_result list \<Rightarrow> socket_impl \<Rightarrow> (nat \<times> error_code) option" where
  "service_async_receive all_empty a rs impl =
     service_async (has_flag (impl_state impl) stream_oriented \<and> all_empty)
       (recv_do_perform (impl_state impl)) a rs impl"

definition service_async_send ::
  "nat \<Rightarrow> bool \<Rightarrow> sys_result \<Rightarrow> sys_result list \<Rightarrow> socket_impl \<Rightarrow> (nat \<times> error_code) option" where
  "service_async_send total_size all_empty a rs impl =
     service_async (has_flag (impl_state impl) stream_oriented \<and> all_empty)
       (send_do_perform (impl_state impl) total_size) a rs impl"

text \<open>Connecting: the answers of \<open>poll\<close> are those at the events that reach the operation.\<close>

fun run_connect :: "int \<Rightarrow> sys_result list \<Rightarrow> error_code + error_code \<Rightarrow> error_code option" where
  "run_connect s [] so_error = None"
| "run_connect s (p # ps) so_error =
     (case connect_do_perform s Success p so_error of (result, ec, _) \<Rightarrow>
        if result \<noteq> Not_done then Some ec else run_connect s ps so_error)"

definition service_async_connect ::
  "sys_result \<Rightarrow> sys_result \<Rightarrow> sys_result list \<Rightarrow> error_code + error_code \<Rightarrow> socket_impl \<Rightarrow> error_code option" where
  "service_async_connect a c ps so_error impl =
     (case prepare_start a impl of
          (impl1, Some ec) \<Rightarrow> Some ec
        | (impl1, None) \<Rightarrow>
            (case socket_connect (impl_socket impl1) c of (result, ec) \<Rightarrow>
               if result \<noteq> 0 \<and> (ec = In_progress \<or> ec = Would_block)
               then run_connect (impl_socket impl1) ps so_error else Some ec))"

text \<open>Accepting without a peer that is open already.\<close>

definition service_async_accept ::
  "sys_result \<Rightarrow> sys_result list \<Rightarrow> socket_impl \<Rightarrow> (int \<times> error_code) option" where
  "service_async_accept a rs impl =
     (case prepare_start a impl of
          (impl1, Some ec) \<Rightarrow> Some (invalid_socket, ec)
        | (impl1, None) \<Rightarrow> run_accept (impl_socket impl1) (impl_state impl) rs)"

lemma prepare_succeeds:
  assumes "is_open impl"
  shows "\<exists>impl1. prepare_start (Inr n) impl = (impl1, None) \<and> impl_socket impl1 = impl_socket impl"
  using assms by (simp add: prepare_start_def set_internal_non_blocking_def is_open_def sys_call_conv)

lemma run_connect_settles:
  assumes "i < length ps" and "\<And>k. k < i \<Longrightarrow> ps ! k = Inr 0" and "ps ! i \<noteq> Inr 0"
  shows "run_connect s ps so_error = Some (case get_so_error s so_error of Inl ec \<Rightarrow> ec | Inr ec \<Rightarrow> ec)"
  using assms
proof (induction ps arbitrary: i)
  case (Cons p ps)
  show ?case
  proof (cases i)
    case 0
    with Cons.prems(3) show ?thesis
      by (cases p) (auto simp: connect_do_perform_def non_blocking_connect_def sys_call_conv split: sum.splits)
  next
    case (Suc j)
    have "p = Inr 0" using Cons.prems(2) [of 0] Suc by simp
    moreover have "run_connect s ps so_error = Some (case get_so_error s so_error of Inl ec \<Rightarrow> ec | Inr ec \<Rightarrow> ec)"
      using Cons.IH [of j] Cons.prems Suc by force
    ultimately show ?thesis by (simp add: connect_do_perform_def non_blocking_connect_def sys_call_conv)
  qed
qed simp

section \<open>Properties\<close>

text \<open>
  C21. The reactor never makes a call that blocks. After any sequence of calls on a socket (opening,
  adopting a descriptor, options, modes, operations, closing), whatever the system answers, a call
  that hands an operation to the reactor leaves the descriptor in the kernel's non-blocking mode. An
  open socket has a registration that is alive, its flags never claim a mode that the descriptor is
  not in, and for a descriptor the socket has opened itself they tell the mode exactly.
\<close>

theorem reactor_gets_non_blocking:
  assumes "w = run_calls cs new_world"
  shows "(reaches_reactor (snd (service_step c w)) \<longrightarrow> kernel_mode (fst (service_step c w)))
    \<and> (is_open (impl_of w) \<longrightarrow>
        (\<exists>d. reactor_data (impl_of w) = Some d \<and> \<not> desc_shutdown d)
        \<and> (has_flag (impl_state (impl_of w)) non_blocking \<longrightarrow> kernel_mode w)
        \<and> (\<not> has_flag (impl_state (impl_of w)) possible_dup \<longrightarrow>
            kernel_mode w = has_flag (impl_state (impl_of w)) non_blocking))"
proof -
  have inv: "service_inv w"
    unfolding assms by (rule run_calls_inv) (simp add: service_inv_def new_world_def is_open_def)
  then have "is_open (impl_of w) \<Longrightarrow> (\<exists>d. reactor_data (impl_of w) = Some d \<and> \<not> desc_shutdown d)
      \<and> (has_flag (impl_state (impl_of w)) non_blocking \<longrightarrow> kernel_mode w)
      \<and> (\<not> has_flag (impl_state (impl_of w)) possible_dup \<longrightarrow> kernel_mode w
          \<longrightarrow> has_flag (impl_state (impl_of w)) non_blocking)"
    by (simp only: service_inv_def if_True) blast
  then show ?thesis using service_step_inv [OF inv, of c] by blast
qed

text \<open>A stream socket is opened and a read started, for which nothing has arrived.\<close>

definition opened_calls :: "service_call list" where
  "opened_calls = [Open Sock_stream (Inr 5) Success fresh_descriptor]"

definition start_a_read :: service_call where
  "start_a_read = Start_op Read_op a_read True False (Inr 0) (Not_done, Would_block, 0) Success"

lemma opened_world:
  "run_calls opened_calls new_world =
     \<lparr>impl_of = \<lparr>impl_socket = 5, impl_state = stream_oriented,
        reactor_data = Some (fst (register_descriptor Success fresh_descriptor))\<rparr>, kernel_mode = False\<rparr>"
  by (simp add: run_calls_def opened_calls_def with_world_def do_open_def new_world_def is_open_def
      system_socket_def sys_call_conv invalid_socket_def register_descriptor_def Let_def state_of_kind_def)

lemma started_effects:
  "snd (service_step start_a_read (run_calls opened_calls new_world)) = [Reactor Performed, Reactor Work_started]"
  by (simp add: opened_world start_a_read_def service_start_op_def prepare_start_def mode_simps
      set_internal_non_blocking_def invalid_socket_def start_op_def start_speculative_def start_waiting_def
      register_descriptor_def fresh_descriptor_def initial_events_def Let_def)

theorem reactor_gets_non_blocking_witness:
  "kernel_mode (fst (service_step start_a_read (run_calls opened_calls new_world)))"
  using reactor_gets_non_blocking [OF refl, where cs = opened_calls and c = start_a_read] started_effects
  by (simp add: reaches_reactor_def)

text \<open>
  A synchronous transfer returns, and with an answer as the composed operations expect it.
  On an open stream socket a receive returns at the latest with the first answer that does not ask to
  wait; no bytes always come with an error, an error with no bytes, and the bytes that are counted
  are those of one call of the system before which none had moved any, so none is lost.
  The same holds for a send, but that a send of no bytes need not be an error.
\<close>

theorem sync_transfers_answer:
  assumes "is_open impl" and "has_flag (impl_state impl) stream_oriented"
    and "system_answers rs" and "system_answers polls"
    and "i < length rs" and "\<not> asks_again (rs ! i)" and "i \<le> length polls"
  shows "(\<exists>n ec. service_receive single (Suc len) False rs polls impl = Some (n, ec)
        \<and> moving [(n, ec)] \<and> (failed ec \<longleftrightarrow> n = 0)
        \<and> (0 < n \<longrightarrow> (\<exists>k < length rs. rs ! k = Inr n \<and> (\<forall>j < k. asks_again (rs ! j)))))
    \<and> (\<exists>n ec. service_send single (Suc len) False rs polls impl = Some (n, ec)
        \<and> (failed ec \<longrightarrow> n = 0)
        \<and> (0 < n \<longrightarrow> (\<exists>k < length rs. rs ! k = Inr n \<and> (\<forall>j < k. asks_again (rs ! j)))))"
proof -
  have loop: "\<exists>n ec. transfer_loop eof st s rs polls = Some (n, ec) \<and> transferred eof rs (n, ec)" for eof st s
    using transfer_returns [OF assms(5-7), of eof st s] transfer_result [OF _ assms(3,4)] by fastforce
  have calls: "service_receive single (Suc len) False rs polls impl = transfer_loop True (impl_state impl) (impl_socket impl) rs polls"
    "service_send single (Suc len) False rs polls impl = transfer_loop False (impl_state impl) (impl_socket impl) rs polls"
    using assms(1,2) by (simp_all add: service_receive_def service_send_def sync_recv_def sync_recv1_def
        sync_send_def sync_send1_def is_open_def)
  show ?thesis unfolding calls
    using loop [of True "impl_state impl" "impl_socket impl"] loop [of False "impl_state impl" "impl_socket impl"]
    by (fastforce simp: transferred_def moving_def)
qed

definition open_stream :: socket_impl where
  "open_stream = \<lparr>impl_socket = 5, impl_state = stream_oriented,
     reactor_data = Some (fst (register_descriptor Success fresh_descriptor))\<rparr>"

lemma open_stream_simps [simp]:
  "is_open open_stream" "impl_socket open_stream = 5" "has_flag (impl_state open_stream) stream_oriented"
  "\<not> has_flag (impl_state open_stream) user_set_non_blocking"
  by (simp_all add: open_stream_def is_open_def invalid_socket_def mode_simps)

theorem sync_transfers_answer_witness:
  "\<exists>n ec. service_receive True 16 False [Inl Try_again, Inr 3] [Inr 1] open_stream = Some (n, ec) \<and> (failed ec \<longleftrightarrow> n = 0)"
  using sync_transfers_answer [where impl = open_stream and rs = "[Inl Try_again, Inr 3]" and polls = "[Inr 1]"
      and i = 1 and single = True and len = 15]
  by (auto simp: system_answers_def asks_again_def)

text \<open>
  C22. When asynchronous operations end as the synchronous calls do. On an open socket that the
  user has not made non-blocking, if the call that makes the descriptor non-blocking succeeds and
  every \<open>poll\<close> of the synchronous call does, receiving, sending and accepting give the handler
  what the synchronous call returns on the same answers of the system, but that the asynchronous
  operation tries again when a signal interrupts it, while the synchronous call fails. Both wait when
  the answers run out. (On a socket the user made non-blocking the synchronous call returns
  \<open>would_block\<close> where the asynchronous operation waits.)
\<close>

theorem async_ends_as_sync:
  assumes "is_open impl" and "\<not> has_flag (impl_state impl) user_set_non_blocking"
    and "polls_succeed polls" and "length rs \<le> length polls"
    and "rs' = filter (\<lambda>r. r \<noteq> Inl interrupted) rs"
  shows "service_async_receive all_empty (Inr 0) rs impl = service_receive False len all_empty rs' polls impl
    \<and> service_async_receive (len = 0) (Inr 0) rs impl = service_receive True len all_empty rs' polls impl
    \<and> service_async_send total_size all_empty (Inr 0) rs impl = service_send False len all_empty rs' polls impl
    \<and> service_async_send len (len = 0) (Inr 0) rs impl = service_send True len all_empty rs' polls impl
    \<and> service_async_accept (Inr 0) rs impl = sync_accept (impl_socket impl) (impl_state impl) rs' polls"
proof -
  obtain impl1 where p: "prepare_start (Inr 0) impl = (impl1, None)" "impl_socket impl1 = impl_socket impl"
    using prepare_succeeds [OF assms(1)] by blast
  have s: "impl_socket impl \<noteq> invalid_socket" using assms(1) by (simp add: is_open_def)
  have len: "length rs' \<le> length polls" using assms(4) length_filter_le unfolding assms(5) by (rule order_trans [rotated])
  note sync = transfer_first_settled [OF s assms(2,3) len] sync_accept_first [OF s assms(2,3) len]
  note async = recv_run send_run run_accept_first [OF s]
  show ?thesis using s
    by (simp add: service_async_receive_def service_async_send_def service_async_accept_def service_async_def
        service_receive_def service_send_def sync_recv_def sync_recv1_def sync_send_def sync_send1_def
        p sync async flip: assms(5))
qed

theorem async_ends_as_sync_witness:
  "service_async_receive False (Inr 0) [Inl interrupted, Inl Try_again, Inr 3] open_stream
    = service_receive False 0 False [Inl Try_again, Inr 3] [Inr 1, Inr 1, Inr 1] open_stream"
  using async_ends_as_sync [where impl = open_stream and rs = "[Inl interrupted, Inl Try_again, Inr 3]"
      and polls = "[Inr 1, Inr 1, Inr 1]" and rs' = "[Inl Try_again, Inr 3]" and all_empty = False and len = 0]
  by (simp add: polls_succeed_def interrupted_def)

text \<open>
  An asynchronous connect ends as the synchronous one: with the error of the first attempt, or,
  when that is in progress, with what \<open>SO_ERROR\<close> says once \<open>poll\<close> reports the socket ready. Events
  that come too early are ignored.
\<close>

theorem async_connect_ends_as_sync:
  assumes "is_open impl" and "i < length ps" and "\<And>k. k < i \<Longrightarrow> ps ! k = Inr 0" and "ps ! i \<noteq> Inr 0"
  shows "service_async_connect (Inr 0) c ps so_error impl = Some (sync_connect (impl_socket impl) c (Inr n) so_error)"
proof -
  obtain impl1 where p: "prepare_start (Inr 0) impl = (impl1, None)" "impl_socket impl1 = impl_socket impl"
    using prepare_succeeds [OF assms(1)] by blast
  have s: "impl_socket impl \<noteq> invalid_socket" using assms(1) by (simp add: is_open_def)
  show ?thesis
    using s by (cases c) (auto simp: service_async_connect_def p run_connect_settles [OF assms(2-4)] sync_connect_def
        socket_connect_def poll_connect_def sys_call_conv no_buffer_space_def split: sum.splits)
qed

theorem async_connect_ends_as_sync_witness:
  "service_async_connect (Inr 0) (Inl In_progress) [Inr 0, Inr 1] (Inr (Sys_error 111)) open_stream = Some (Sys_error 111)"
  using async_connect_ends_as_sync [where impl = open_stream and ps = "[Inr 0, Inr 1]" and i = 1 and n = 1
      and c = "Inl In_progress" and so_error = "Inr (Sys_error 111)"]
  by (simp add: sync_connect_def socket_connect_def poll_connect_def get_so_error_def sys_call_conv invalid_socket_def)

text \<open>
  A second read after the end of a stream. The first one reports the end and says that it has
  exhausted the descriptor, although the end of a stream stays readable.
\<close>

definition eof_socket :: reactor where
  "eof_socket = readable_socket\<lparr>on_ready_list := False,
     object := (object readable_socket)\<lparr>op_queue := (op_queue (object readable_socket))(Read_op := []),
       try_speculative := (try_speculative (object readable_socket))(Read_op := False)\<rparr>,
     departed := (\<lambda>_. [])(Read_op := [7]), completed := [a_read\<lparr>op_ec := Eof\<rparr>], outstanding := 0\<rparr>"

definition second_read :: reactor_op where
  "second_read = \<lparr>op_id = 8, op_ec = Success, op_bytes = 0\<rparr>"

definition stranded_socket :: reactor where
  "stranded_socket = eof_socket\<lparr>object := add_op Read_op second_read (object eof_socket),
     outstanding := 1, started := (\<lambda>_. [])(Read_op := [7, 8])\<rparr>"

lemmas socket_states = readable_socket_def reading_socket_def new_socket_def fresh_descriptor_def a_read_def
  register_descriptor_def initial_events_def

lemma eof_outcome:
  "recv_do_perform (stream_oriented OR internal_non_blocking) [Inr 0] = Some ((Done_and_exhausted, Eof, 0), [])"
  by (simp add: recv_do_perform_def non_blocking_recv_def mode_simps)

lemma eof_socket_reachable: "reactor_reachable False eof_socket"
proof -
  let ?s1 = "readable_socket\<lparr>on_ready_list := False, queued_events := Some {EPOLLIN}\<rparr>"
  let ?s2 = "?s1\<lparr>queued_events := None, taken_events := [{EPOLLIN}]\<rparr>"
  have "reactor_step False readable_socket ?s1"
    using Wait [where strict = False and s = readable_socket and ev = initial_events]
    by (simp add: socket_states reported_def dispatch_event_def)
  moreover have "reactor_step False ?s1 ?s2"
    using Take [where strict = False and s = ?s1 and events = "{EPOLLIN}"] by (simp add: socket_states)
  moreover have "reactor_step False ?s2 eof_socket"
  proof -
    let ?pf = "\<lambda>_::nat. (Done_and_exhausted, Eof, 0::nat)"
    have c: "descriptor_do_complete True ?pf {EPOLLIN} (object ?s2)
        = (object eof_socket, [Complete_now (a_read\<lparr>op_ec := Eof\<rparr>)])"
      by (simp add: descriptor_do_complete_def perform_io_def perform_queue_def concerns_def eof_socket_def
          socket_states add_op_def perform_def perform_io_cleanup_def fun_eq_iff)
    have left: "(\<lambda>j. departed ?s2 j @ map op_id (performed_ops ?pf {EPOLLIN} (object ?s2) j)) = departed eof_socket"
    proof
      show "departed ?s2 j @ map op_id (performed_ops ?pf {EPOLLIN} (object ?s2) j) = departed eof_socket j" for j
        by (cases j) (simp_all add: performed_ops_def concerns_def eof_socket_def socket_states add_op_def perform_def)
    qed
    have "attempts False ?pf {EPOLLIN} (object ?s2) (conditions ?s2) {EPOLLIN}"
      unfolding attempts_def
    proof (intro conjI allI impI)
      show "\<not> ready {EPOLLIN} j" if "concerns {EPOLLIN} j \<and> stopped False (loop_status ?pf (op_queue (object ?s2) j))" for j
        using that by (cases j) (simp_all add: concerns_def stopped_def loop_status_def socket_states add_op_def)
    qed (simp_all add: socket_states)
    from Handle [where strict = False and s = ?s2 and conds' = "{EPOLLIN}", OF _ c this, unfolded left]
    show ?thesis by (simp add: eof_socket_def socket_states)
  qed
  ultimately show ?thesis using Step readable_socket_reachable by metis
qed

lemma stranded_socket_reachable: "reactor_reachable False stranded_socket"
proof -
  have "start_op Read_op second_read True (Not_done, Would_block, 0) Success (data_of eof_socket)
      = (Some (add_op Read_op second_read (object eof_socket)), [Work_started])"
    by (simp add: start_op_def start_speculative_def start_waiting_def data_of_def eof_socket_def socket_states
        add_op_def)
  moreover have "op_id second_read \<notin> known_ids eof_socket"
    by (auto simp: known_ids_def second_read_def eof_socket_def socket_states split: if_splits)
  ultimately have "reactor_step False eof_socket
      ((set_data (Some (add_op Read_op second_read (object eof_socket)))
        (run_effects Success [Work_started] (eof_socket\<lparr>conditions := conditions eof_socket\<rparr>)))
       \<lparr>started := (started eof_socket)(Read_op := started eof_socket Read_op @ [op_id second_read]),
        departed := departed eof_socket\<rparr>)"
    using Start [where strict = False and s = eof_socket and conds' = "conditions eof_socket"] by fastforce
  moreover have "(started eof_socket)(Read_op := started eof_socket Read_op @ [op_id second_read])
      = (\<lambda>_. [])(Read_op := [7, 8])"
    by (simp add: eof_socket_def socket_states second_read_def)
  ultimately have "reactor_step False eof_socket stranded_socket"
    by (simp add: set_data_def stranded_socket_def eof_socket_def socket_states)
  then show ?thesis using Step eof_socket_reachable by metis
qed

text \<open>
  C24. A read that is started after the end of a stream has been reported waits for an event
  that does not come. There is a reachable state of the reactor in which a read of a stream socket has ended
  with \<open>Eof\<close>, by the outcome that the receive operation gives for it, a second read is queued, and the
  socket is readable, but the descriptor is neither in epoll's list, nor queued, nor taken by a
  thread: epoll reports edges, and none is left. The assumption of the reactor's property, that an operation
  that has exhausted the descriptor leaves it not ready, is not met at the end of a stream.
\<close>

theorem read_after_eof_waits:
  "\<exists>s. reactor_reachable False s \<and> completed s = [a_read\<lparr>op_ec := Eof\<rparr>]
     \<and> recv_do_perform (stream_oriented OR internal_non_blocking) [Inr 0] = Some ((Done_and_exhausted, Eof, 0), [])
     \<and> op_queue (object s) Read_op = [second_read] \<and> ready (conditions s) Read_op
     \<and> \<not> on_ready_list s \<and> queued_events s = None \<and> taken_events s = [] \<and> \<not> on_its_way s Read_op"
  using stranded_socket_reachable eof_outcome
  by (intro exI [of _ stranded_socket])
    (simp add: stranded_socket_def eof_socket_def socket_states add_op_def on_its_way_def ready_def concerns_def)

text \<open>
  Making a socket blocking again while an operation is queued: the flags are cleared as the call says, but the
  operation stays in the reactor, which will make its next attempt on a descriptor that blocks.
\<close>

lemma pending_read_may_block:
  defines "w \<equiv> run_calls [Open Sock_stream (Inr 5) Success fresh_descriptor,
    Start_op Read_op a_read True False (Inr 0) (Not_done, Would_block, 0) Success, Set_mode False (Inr 0)] new_world"
  shows "\<not> kernel_mode w \<and> (\<exists>d. reactor_data (impl_of w) = Some d \<and> op_queue d Read_op \<noteq> [])"
  by (simp add: w_def run_calls_def with_world_def do_open_def new_world_def is_open_def
      system_socket_def sys_call_conv invalid_socket_def register_descriptor_def Let_def state_of_kind_def
      service_start_op_def prepare_start_def mode_simps set_internal_non_blocking_def start_op_def
      start_speculative_def start_waiting_def fresh_descriptor_def initial_events_def add_op_def
      prepared_mode_def set_user_non_blocking_def)

end
