(* ===== verification/Asio_Hash_Map.thy ===== *)
theory Asio_Hash_Map
  imports Prelude "HOL-Library.Sublist"
begin

text \<open>
  \<open>detail/hash_map.hpp\<close>: the hash map in which the reactors that use \<open>select\<close> or \<open>/dev/poll\<close> keep what waits for a
  descriptor. All entries are in
  one doubly linked list, in which those of a bucket are neighbours, and a bucket is the first and
  the last of them. A node is a number and an iterator a node or the end (\<open>None\<close>); the order
  of the list is a list of nodes, so that an iterator stays valid when the list changes, as in
  \<open>std::list\<close>. Walking off the end of the list or dereferencing the end is \<open>None\<close>.
  Shown here: the map is a finite map whatever is called on it, rehashing keeps it, and no iterator
  leaves the list.
\<close>

section \<open>The map\<close>

record ('k, 'v) hash_map =
  hm_size :: nat
  hm_values :: "nat list"
  hm_spares :: "nat list"
  hm_entry :: "nat \<Rightarrow> 'k \<times> 'v"
  hm_fresh :: nat
  hm_buckets :: "(nat option \<times> nat option) list"

definition hash_int :: "int \<Rightarrow> nat" where
  "hash_int i = nat (i mod 2 ^ 64)"

definition hash_ptr :: "nat \<Rightarrow> nat" where
  "hash_ptr p = (p + p div 8) mod 2 ^ 64"

definition hm_new :: "'k \<times> 'v \<Rightarrow> ('k, 'v) hash_map" where
  "hm_new dflt = \<lparr>hm_size = 0, hm_values = [], hm_spares = [], hm_entry = (\<lambda>_. dflt), hm_fresh = 0, hm_buckets = []\<rparr>"

definition hm_empty :: "('k, 'v) hash_map \<Rightarrow> bool" where
  "hm_empty h \<longleftrightarrow> hm_values h = []"

section \<open>Iterators\<close>

definition from_node :: "nat \<Rightarrow> nat list \<Rightarrow> nat list" where
  "from_node i xs = dropWhile (\<lambda>x. x \<noteq> i) xs"

definition next_node :: "nat list \<Rightarrow> nat \<Rightarrow> nat option" where
  "next_node xs i = (case from_node i xs of _ # j # _ \<Rightarrow> Some j | _ \<Rightarrow> None)"

definition prev_node :: "nat list \<Rightarrow> nat option \<Rightarrow> nat option" where
  "prev_node xs pos =
     (let before = (case pos of None \<Rightarrow> xs | Some i \<Rightarrow> takeWhile (\<lambda>x. x \<noteq> i) xs)
      in if before = [] then None else Some (last before))"

definition insert_before :: "nat option \<Rightarrow> nat \<Rightarrow> nat list \<Rightarrow> nat list" where
  "insert_before pos i xs =
     (case pos of None \<Rightarrow> xs @ [i] | Some p \<Rightarrow> takeWhile (\<lambda>x. x \<noteq> p) xs @ i # from_node p xs)"

text \<open>The loop that looks for a key between two iterators.\<close>

fun hm_scan :: "(nat \<Rightarrow> 'k \<times> 'v) \<Rightarrow> 'k \<Rightarrow> nat option \<Rightarrow> nat list \<Rightarrow> nat option option" where
  "hm_scan e k end_it [] = (if end_it = None then Some None else None)"
| "hm_scan e k end_it (i # is) =
     (if end_it = Some i then Some None else if fst (e i) = k then Some (Some i) else hm_scan e k end_it is)"

definition hm_bucket :: "('k \<Rightarrow> nat) \<Rightarrow> 'k \<Rightarrow> ('k, 'v) hash_map \<Rightarrow> nat" where
  "hm_bucket hash k h = hash k mod length (hm_buckets h)"

definition hm_find :: "('k \<Rightarrow> nat) \<Rightarrow> 'k \<Rightarrow> ('k, 'v) hash_map \<Rightarrow> nat option option" where
  "hm_find hash k h =
     (if hm_buckets h \<noteq> [] then
        (case hm_buckets h ! hm_bucket hash k h of
           (None, _) \<Rightarrow> Some None
         | (Some it, None) \<Rightarrow> None
         | (Some it, Some l) \<Rightarrow>
             hm_scan (hm_entry h) k (next_node (hm_values h) l) (from_node it (hm_values h)))
      else Some None)"

section \<open>Changing the list of values\<close>

text \<open>
  A node that is recycled is assigned to. \<open>asg\<close> is the assignment of the values: the old and
  the given value, giving the new one; for values that are plain data it is \<open>plain\<close>.
\<close>

definition plain :: "'v \<Rightarrow> 'v \<Rightarrow> 'v" where
  "plain old new = new"

definition values_insert ::
  "('v \<Rightarrow> 'v \<Rightarrow> 'v) \<Rightarrow> nat option \<Rightarrow> 'k \<times> 'v \<Rightarrow> ('k, 'v) hash_map \<Rightarrow> nat \<times> ('k, 'v) hash_map" where
  "values_insert asg it v h =
     (case hm_spares h of
        [] \<Rightarrow> (hm_fresh h, h\<lparr>hm_entry := (hm_entry h)(hm_fresh h := v), hm_fresh := hm_fresh h + 1,
                  hm_values := insert_before it (hm_fresh h) (hm_values h)\<rparr>)
      | i # is \<Rightarrow> (i, h\<lparr>hm_entry := (hm_entry h)(i := (fst v, asg (snd (hm_entry h i)) (snd v))), hm_spares := is,
                        hm_values := insert_before it i (hm_values h)\<rparr>))"

definition values_erase ::
  "('v \<Rightarrow> 'v \<Rightarrow> 'v) \<Rightarrow> 'k \<times> 'v \<Rightarrow> nat \<Rightarrow> ('k, 'v) hash_map \<Rightarrow> ('k, 'v) hash_map" where
  "values_erase asg dflt i h =
     h\<lparr>hm_entry := (hm_entry h)(i := (fst dflt, asg (snd (hm_entry h i)) (snd dflt))),
       hm_values := remove1 i (hm_values h), hm_spares := i # hm_spares h\<rparr>"

section \<open>Rehashing\<close>

definition hash_sizes :: "nat list" where
  "hash_sizes = [3, 13, 23, 53, 97, 193, 389, 769, 1543, 3079, 6151, 12289, 24593,
      49157, 98317, 196613, 393241, 786433, 1572869, 3145739, 6291469, 12582917, 25165843]"

definition hash_size :: "nat \<Rightarrow> nat" where
  "hash_size num_elems =
     (case dropWhile (\<lambda>s. \<not> num_elems < s) (butlast hash_sizes) of [] \<Rightarrow> last hash_sizes | s # _ \<Rightarrow> s)"

text \<open>
  The nodes that are still to be put back are those after the iterator, in their old order;
  each is put behind the last of its bucket.
\<close>

definition put_back ::
  "(nat \<Rightarrow> nat) \<Rightarrow> nat \<Rightarrow> nat \<Rightarrow> nat list \<times> (nat option \<times> nat option) list
     \<Rightarrow> nat list \<times> (nat option \<times> nat option) list" where
  "put_back bucket_of n iter = (\<lambda>(values, buckets).
     let bucket = bucket_of iter mod n
     in case snd (buckets ! bucket) of
          None \<Rightarrow> (values, buckets[bucket := (Some iter, Some iter)])
        | Some l \<Rightarrow>
            (if next_node values l = Some iter
             then (values, buckets[bucket := (fst (buckets ! bucket), Some iter)])
             else
               (let values' = insert_before (next_node values l) iter (remove1 iter values)
                in (values', buckets[bucket := (fst (buckets ! bucket), prev_node values' (next_node values l))]))))"

definition rehash :: "('k \<Rightarrow> nat) \<Rightarrow> nat \<Rightarrow> ('k, 'v) hash_map \<Rightarrow> ('k, 'v) hash_map" where
  "rehash hash num_buckets h =
     (if num_buckets = length (hm_buckets h) then h
      else case fold (put_back (\<lambda>i. hash (fst (hm_entry h i))) num_buckets) (hm_values h)
          (hm_values h, replicate num_buckets (None, None)) of
        (values, buckets) \<Rightarrow> h\<lparr>hm_values := values, hm_buckets := buckets\<rparr>)"

section \<open>Inserting and erasing\<close>

definition hm_insert ::
  "('v \<Rightarrow> 'v \<Rightarrow> 'v) \<Rightarrow> ('k \<Rightarrow> nat) \<Rightarrow> 'k \<times> 'v \<Rightarrow> ('k, 'v) hash_map \<Rightarrow> ((nat \<times> bool) \<times> ('k, 'v) hash_map) option" where
  "hm_insert asg hash v h0 =
     (let h = (if hm_size h0 + 1 \<ge> length (hm_buckets h0) then rehash hash (hash_size (hm_size h0 + 1)) h0 else h0);
          bucket = hm_bucket hash (fst v) h
      in case hm_buckets h ! bucket of
           (None, _) \<Rightarrow>
             (case values_insert asg None v h of (i, h1) \<Rightarrow>
                Some ((i, True), h1\<lparr>hm_buckets := (hm_buckets h)[bucket := (Some i, Some i)], hm_size := hm_size h + 1\<rparr>))
         | (Some it, None) \<Rightarrow> None
         | (Some it, Some l) \<Rightarrow>
             (let end_it = next_node (hm_values h) l
              in case hm_scan (hm_entry h) (fst v) end_it (from_node it (hm_values h)) of
                   None \<Rightarrow> None
                 | Some (Some i) \<Rightarrow> Some ((i, False), h)
                 | Some None \<Rightarrow>
                     (case values_insert asg end_it v h of (i, h1) \<Rightarrow>
                        Some ((i, True), h1\<lparr>hm_buckets := (hm_buckets h)[bucket := (Some it, Some i)],
                          hm_size := hm_size h + 1\<rparr>))))"

definition hm_erase_at ::
  "('v \<Rightarrow> 'v \<Rightarrow> 'v) \<Rightarrow> ('k \<Rightarrow> nat) \<Rightarrow> 'k \<times> 'v \<Rightarrow> nat \<Rightarrow> ('k, 'v) hash_map \<Rightarrow> ('k, 'v) hash_map" where
  "hm_erase_at asg hash dflt it h =
     (let bucket = hm_bucket hash (fst (hm_entry h it)) h;
          (f, l) = hm_buckets h ! bucket;
          is_first = (f = Some it); is_last = (l = Some it);
          new = (if is_first \<and> is_last then (None, None)
                 else if is_first then (next_node (hm_values h) it, l)
                 else if is_last then (f, prev_node (hm_values h) (Some it))
                 else (f, l))
      in (values_erase asg dflt it h)\<lparr>hm_buckets := (hm_buckets h)[bucket := new], hm_size := hm_size h - 1\<rparr>)"

definition hm_erase ::
  "('v \<Rightarrow> 'v \<Rightarrow> 'v) \<Rightarrow> ('k \<Rightarrow> nat) \<Rightarrow> 'k \<times> 'v \<Rightarrow> 'k \<Rightarrow> ('k, 'v) hash_map \<Rightarrow> ('k, 'v) hash_map option" where
  "hm_erase asg hash dflt k h =
     (case hm_find hash k h of
        None \<Rightarrow> None
      | Some None \<Rightarrow> Some h
      | Some (Some it) \<Rightarrow> Some (hm_erase_at asg hash dflt it h))"

definition hm_clear :: "('k, 'v) hash_map \<Rightarrow> ('k, 'v) hash_map" where
  "hm_clear h = h\<lparr>hm_values := [], hm_size := 0, hm_buckets := map (\<lambda>_. (None, None)) (hm_buckets h)\<rparr>"

text \<open>Writing to the value an iterator points to.\<close>

definition hm_write :: "nat \<Rightarrow> 'v \<Rightarrow> ('k, 'v) hash_map \<Rightarrow> ('k, 'v) hash_map" where
  "hm_write i v h = h\<lparr>hm_entry := (hm_entry h)(i := (fst (hm_entry h i), v))\<rparr>"

section \<open>Lists and iterators\<close>

lemma from_node_split: "i \<notin> set us \<Longrightarrow> from_node i (us @ i # ws) = i # ws"
  by (induction us) (auto simp: from_node_def)

lemma take_node_split: "i \<notin> set us \<Longrightarrow> takeWhile (\<lambda>x. x \<noteq> i) (us @ i # ws) = us"
  by (induction us) auto

lemma next_node_split:
  "i \<notin> set us \<Longrightarrow> next_node (us @ i # ws) i = (case ws of [] \<Rightarrow> None | j # _ \<Rightarrow> Some j)"
  by (simp add: next_node_def from_node_split split: list.split)

lemma prev_node_split:
  "i \<notin> set us \<Longrightarrow> prev_node (us @ i # ws) (Some i) = (if us = [] then None else Some (last us))"
  by (simp add: prev_node_def take_node_split)

text \<open>Inserting behind a node: before the next one, or at the end.\<close>

lemma insert_behind:
  assumes "distinct (us @ l # ws)"
  shows "insert_before (next_node (us @ l # ws) l) i (us @ l # ws) = us @ l # i # ws"
proof (cases ws)
  case Nil
  then show ?thesis using assms by (simp add: next_node_split insert_before_def)
next
  case (Cons j js)
  then have "insert_before (Some j) i ((us @ [l]) @ j # js) = (us @ [l]) @ i # j # js"
    using assms take_node_split [of j "us @ [l]" js] from_node_split [of j "us @ [l]" js]
    by (simp add: insert_before_def)
  then show ?thesis using assms Cons by (simp add: next_node_split)
qed

text \<open>Two neighbourhoods without common elements.\<close>

lemma sublist_beside:
  assumes "sublist g' (xs @ g @ ys)" and "g \<noteq> []" and "set g \<inter> set g' = {}"
  shows "sublist g' xs \<or> sublist g' ys"
proof -
  consider (left) "sublist g' xs" | (right) "sublist g' (g @ ys)"
    | (across) a b where "g' = a @ b" "suffix a xs" "prefix b (g @ ys)"
    using assms(1) by (auto simp: sublist_append)
  then show ?thesis
  proof cases
    case right
    then consider "sublist g' g" | "sublist g' ys" | a b where "g' = a @ b" "suffix a g" "prefix b ys"
      by (auto simp: sublist_append)
    then show ?thesis
    proof cases
      case 1
      then have "set g' \<subseteq> set g" by (rule set_mono_sublist)
      then have "g' = []" using assms(3) by (cases g') auto
      then show ?thesis by simp
    next
      case 3
      then have "set a \<subseteq> set g" by (simp add: set_mono_suffix)
      then have "a = []" using 3 assms(3) by (cases a) auto
      then show ?thesis using 3 by auto
    qed simp
  next
    case across
    have "b = []"
    proof (rule ccontr)
      assume "b \<noteq> []"
      then have "hd b = hd g" using across(3) assms(2) by (metis hd_append2 prefix_def)
      then show False using assms(2,3) across(1) \<open>b \<noteq> []\<close> by (cases g; cases b) auto
    qed
    then show ?thesis using across by auto
  qed simp
qed

section \<open>Buckets\<close>

definition bucket_group :: "(nat \<Rightarrow> nat) \<Rightarrow> nat list \<Rightarrow> nat \<Rightarrow> nat list" where
  "bucket_group f vs b = filter (\<lambda>i. f i = b) vs"

definition ends :: "nat list \<Rightarrow> nat option \<times> nat option" where
  "ends g = (if g = [] then (None, None) else (Some (hd g), Some (last g)))"

definition grouped :: "(nat \<Rightarrow> nat) \<Rightarrow> nat list \<Rightarrow> (nat option \<times> nat option) list \<Rightarrow> bool" where
  "grouped f vs bk \<longleftrightarrow> (\<forall>b < length bk. sublist (bucket_group f vs b) vs \<and> bk ! b = ends (bucket_group f vs b))"

lemma groupedD:
  "grouped f vs bk \<Longrightarrow> b < length bk \<Longrightarrow> sublist (bucket_group f vs b) vs"
  "grouped f vs bk \<Longrightarrow> b < length bk \<Longrightarrow> bk ! b = ends (bucket_group f vs b)"
  by (simp_all add: grouped_def)

lemma set_group [simp]: "set (bucket_group f vs b) = {i \<in> set vs. f i = b}"
  by (simp add: bucket_group_def)

lemma group_split:
  assumes "sublist (bucket_group f vs b) vs"
  obtains xs ys where "vs = xs @ bucket_group f vs b @ ys" "bucket_group f xs b = []" "bucket_group f ys b = []"
proof -
  obtain xs ys where v: "vs = xs @ bucket_group f vs b @ ys" using assms by (auto simp: sublist_def)
  have "bucket_group f vs b = bucket_group f xs b @ bucket_group f vs b @ bucket_group f ys b"
    by (subst v) (simp add: bucket_group_def)
  then have "length (bucket_group f vs b) = length (bucket_group f xs b) + length (bucket_group f vs b) + length (bucket_group f ys b)"
    by (metis length_append add.assoc)
  then show thesis using that v by simp
qed

text \<open>A change inside one group leaves the others where they are.\<close>

lemma grouped_change:
  assumes "grouped f vs bk" and "vs = xs @ g @ ys" and "bucket_group f vs b = g" and "g \<noteq> []"
    and "\<And>i. i \<in> set g' \<Longrightarrow> f i = b" and "bucket_group f xs b = []" and "bucket_group f ys b = []"
    and "length bk' = length bk" and "\<And>c. c < length bk \<Longrightarrow> c \<noteq> b \<Longrightarrow> bk' ! c = bk ! c"
    and "b < length bk \<Longrightarrow> bk' ! b = ends g'"
  shows "grouped f (xs @ g' @ ys) bk'"
  unfolding grouped_def
proof (intro allI impI)
  fix c assume c: "c < length bk'"
  show "sublist (bucket_group f (xs @ g' @ ys) c) (xs @ g' @ ys) \<and> bk' ! c = ends (bucket_group f (xs @ g' @ ys) c)"
  proof (cases "c = b")
    case True
    have "filter (\<lambda>i. f i = b) g' = g'" using assms(5) by simp
    then have "bucket_group f (xs @ g' @ ys) c = g'" using assms(6,7) True by (simp add: bucket_group_def)
    then show ?thesis using assms(8,10) c True by (simp add: sublist_appendI)
  next
    case False
    have "filter (\<lambda>i. f i = c) g' = []" using assms(5) False by (auto simp: filter_empty_conv)
    moreover have "filter (\<lambda>i. f i = c) g = []" using assms(3) False by (auto simp: bucket_group_def filter_empty_conv)
    ultimately have same: "bucket_group f (xs @ g' @ ys) c = bucket_group f vs c" by (simp add: bucket_group_def assms(2))
    have "set g \<inter> set (bucket_group f vs c) = {}" using assms(3) False by auto
    then have "sublist (bucket_group f vs c) xs \<or> sublist (bucket_group f vs c) ys"
      using sublist_beside [OF _ assms(4)] groupedD(1) [OF assms(1)] assms(2,8) c by metis
    then have "sublist (bucket_group f vs c) (xs @ g' @ ys)"
      by (metis sublist_append_leftI sublist_append_rightI sublist_order.order_trans append.assoc)
    then show ?thesis using same groupedD(2) [OF assms(1)] assms(8,9) c False by simp
  qed
qed

lemma grouped_snoc:
  assumes "grouped f vs bk" and "bucket_group f vs b = []" and "f i = b" and "b < length bk"
  shows "grouped f (vs @ [i]) (bk[b := (Some i, Some i)])"
  unfolding grouped_def
proof (intro allI impI)
  fix c assume c: "c < length (bk[b := (Some i, Some i)])"
  show "sublist (bucket_group f (vs @ [i]) c) (vs @ [i]) \<and> bk[b := (Some i, Some i)] ! c = ends (bucket_group f (vs @ [i]) c)"
  proof (cases "c = b")
    case True
    then have "bucket_group f (vs @ [i]) c = [i]" using assms(2,3) by (simp add: bucket_group_def)
    then show ?thesis using True assms(4) by (simp add: ends_def sublist_append)
  next
    case False
    then have "bucket_group f (vs @ [i]) c = bucket_group f vs c" using assms(3) by (simp add: bucket_group_def)
    then show ?thesis using groupedD [OF assms(1), of c] c False
      by (simp add: sublist_order.order_trans [OF _ sublist_append_rightI])
  qed
qed

lemma grouped_behind:
  assumes "grouped f vs bk" and "distinct vs" and "bucket_group f vs b \<noteq> []" and "f i = b" and "b < length bk"
  shows "grouped f (insert_before (next_node vs (last (bucket_group f vs b))) i vs) (bk[b := (fst (bk ! b), Some i)])"
proof -
  let ?g = "bucket_group f vs b"
  obtain xs ys where v: "vs = xs @ ?g @ ys" "bucket_group f xs b = []" "bucket_group f ys b = []"
    using group_split groupedD(1) [OF assms(1,5)] by metis
  obtain g0 l where g: "?g = g0 @ [l]" using assms(3) by (metis append_butlast_last_id)
  have vs: "vs = (xs @ g0) @ l # ys" using v(1) g by simp
  then have "insert_before (next_node vs l) i vs = (xs @ g0) @ l # i # ys"
    using insert_behind [of "xs @ g0" l ys i] assms(2) by simp
  then have "insert_before (next_node vs (last ?g)) i vs = xs @ (?g @ [i]) @ ys" using g by simp
  moreover have "grouped f (xs @ (?g @ [i]) @ ys) (bk[b := (fst (bk ! b), Some i)])"
    by (rule grouped_change [OF assms(1) v(1) refl assms(3)])
      (use v assms(3,4) groupedD(2) [OF assms(1,5)] in \<open>auto simp: ends_def\<close>)
  ultimately show ?thesis by simp
qed

lemma hm_scan_group:
  "distinct (g @ ys) \<Longrightarrow> hm_scan e k (case ys of [] \<Rightarrow> None | j # _ \<Rightarrow> Some j) (g @ ys)
    = Some (List.find (\<lambda>i. fst (e i) = k) g)"
  by (induction g) (auto split: list.split)

text \<open>Looking in a bucket is looking in its group.\<close>

lemma scan_bucket:
  assumes "grouped f vs bk" and "distinct vs" and "b < length bk" and "bk ! b = (Some it, l)"
  shows "\<exists>l'. l = Some l' \<and> l' = last (bucket_group f vs b) \<and> bucket_group f vs b \<noteq> []
    \<and> hm_scan e k (next_node vs l') (from_node it vs) = Some (List.find (\<lambda>i. fst (e i) = k) (bucket_group f vs b))"
proof -
  let ?g = "bucket_group f vs b"
  have b: "?g \<noteq> []" "it = hd ?g" "l = Some (last ?g)"
    using assms(4) groupedD(2) [OF assms(1,3)] by (auto simp: ends_def split: if_splits)
  obtain xs ys where v: "vs = xs @ ?g @ ys" using group_split groupedD(1) [OF assms(1,3)] by metis
  obtain g1 where g1: "?g = hd ?g # g1" using b(1) by (metis list.exhaust_sel)
  obtain g0 where g0: "?g = g0 @ [last ?g]" using b(1) by (metis append_butlast_last_id)
  have "vs = xs @ hd ?g # (g1 @ ys)" using v g1 by (metis append_Cons)
  then have "from_node (hd ?g) vs = ?g @ ys"
    using assms(2) from_node_split [of "hd ?g" xs "g1 @ ys"] g1 by (metis append_Cons distinct_append not_distinct_conv_prefix)
  moreover have "vs = (xs @ g0) @ last ?g # ys" using v g0 by (metis append.assoc append_Cons append_Nil)
  then have "next_node vs (last ?g) = (case ys of [] \<Rightarrow> None | j # _ \<Rightarrow> Some j)"
    using assms(2) next_node_split [of "last ?g" "xs @ g0" ys] by (metis distinct_append not_distinct_conv_prefix)
  moreover have "distinct (?g @ ys)" using assms(2) v by (metis distinct_append)
  note hm_scan_group [OF this, of e k]
  ultimately show ?thesis using b by simp
qed

section \<open>Rehashing keeps the buckets\<close>

lemma next_node_append:
  assumes "distinct (P @ R)" and "l \<in> set P" and "next_node P l = Some j"
  shows "next_node (P @ R) l = Some j" and "j \<in> set P"
proof -
  obtain us ws where P: "P = us @ l # ws" using assms(2) by (metis split_list)
  then obtain js where "ws = j # js" using assms(1,3) by (auto simp: next_node_split split: list.splits)
  then show "next_node (P @ R) l = Some j" "j \<in> set P"
    using assms(1) P next_node_split [of l us "ws @ R"] by auto
qed

lemma next_node_last:
  assumes "distinct (P @ R)" and "l \<in> set P" and "next_node P l = None"
  shows "next_node (P @ R) l = (case R of [] \<Rightarrow> None | x # _ \<Rightarrow> Some x)"
proof -
  obtain us ws where P: "P = us @ l # ws" using assms(2) by (metis split_list)
  then have "ws = []" using assms(1,3) by (auto simp: next_node_split split: list.splits)
  then show ?thesis using assms(1) P next_node_split [of l us R] by simp
qed

lemma insert_before_append:
  assumes "j \<in> set P"
  shows "insert_before (Some j) x (P @ R) = insert_before (Some j) x P @ R"
    and "insert_before (Some j) x P \<noteq> []" and "x \<noteq> j \<Longrightarrow> x \<notin> set P \<Longrightarrow> prev_node (insert_before (Some j) x P @ R) (Some j) = Some x"
proof -
  obtain us ws where P: "P = us @ j # ws" "j \<notin> set us" using assms by (metis split_list_first)
  then have i: "insert_before (Some j) x P = us @ x # j # ws"
    using take_node_split [of j us ws] from_node_split [of j us ws] by (simp add: insert_before_def)
  have "insert_before (Some j) x (P @ R) = us @ x # j # ws @ R"
    using P take_node_split [of j us "ws @ R"] from_node_split [of j us "ws @ R"] by (simp add: insert_before_def)
  with i show "insert_before (Some j) x (P @ R) = insert_before (Some j) x P @ R"
    and "insert_before (Some j) x P \<noteq> []" by simp_all
  show "prev_node (insert_before (Some j) x P @ R) (Some j) = Some x" if "x \<noteq> j" "x \<notin> set P"
    using i P that prev_node_split [of j "us @ [x]" "ws @ R"] by simp
qed

lemma set_insert_before [simp]: "set (insert_before pos i xs) = insert i (set xs)"
proof (cases pos)
  case (Some p)
  have "set xs = set (takeWhile (\<lambda>x. x \<noteq> p) xs) \<union> set (dropWhile (\<lambda>x. x \<noteq> p) xs)"
    by (metis set_append takeWhile_dropWhile_id)
  then show ?thesis using Some by (auto simp: insert_before_def from_node_def)
qed (simp add: insert_before_def)

lemma distinct_insert_before:
  assumes "distinct xs" and "i \<notin> set xs"
  shows "distinct (insert_before pos i xs)"
proof (cases pos)
  case (Some p)
  have "distinct (takeWhile (\<lambda>x. x \<noteq> p) xs @ dropWhile (\<lambda>x. x \<noteq> p) xs)" using assms(1) by simp
  then show ?thesis using Some assms(2)
    by (auto simp: insert_before_def from_node_def simp del: takeWhile_dropWhile_id
        dest: set_takeWhileD set_dropWhileD)
qed (use assms in \<open>simp add: insert_before_def\<close>)

lemma length_insert_before [simp]: "length (insert_before pos i xs) = Suc (length xs)"
proof (cases pos)
  case (Some p)
  have "length (takeWhile (\<lambda>x. x \<noteq> p) xs @ dropWhile (\<lambda>x. x \<noteq> p) xs) = length xs" by simp
  then show ?thesis using Some by (simp add: insert_before_def from_node_def del: takeWhile_dropWhile_id)
qed (simp add: insert_before_def)

lemma put_back_step:
  assumes "grouped f P bk" and "distinct (P @ x # R)" and "0 < length bk" and "\<And>i. f i = h i mod length bk"
  shows "\<exists>P' bk'. put_back h (length bk) x (P @ x # R, bk) = (P' @ R, bk') \<and> grouped f P' bk'
    \<and> distinct (P' @ R) \<and> set P' = insert x (set P) \<and> length bk' = length bk"
proof -
  let ?b = "h x mod length bk"
  have b: "f x = ?b" "?b < length bk" using assms(3,4) by simp_all
  have bk: "bk ! ?b = ends (bucket_group f P ?b)" by (rule groupedD(2) [OF assms(1) b(2)])
  show ?thesis
  proof (cases "bucket_group f P ?b = []")
    case True
    then have "put_back h (length bk) x (P @ x # R, bk) = ((P @ [x]) @ R, bk[?b := (Some x, Some x)])"
      using bk by (simp add: put_back_def ends_def Let_def)
    moreover have "grouped f (P @ [x]) (bk[?b := (Some x, Some x)])" by (rule grouped_snoc [OF assms(1) True b])
    ultimately show ?thesis using assms(2)
      by (intro exI [of _ "P @ [x]"] exI [of _ "bk[?b := (Some x, Some x)]"] conjI) auto
  next
    case False
    let ?l = "last (bucket_group f P ?b)"
    have l: "?l \<in> set P" using last_in_set [OF False] by simp
    have behind: "grouped f (insert_before (next_node P ?l) x P) (bk[?b := (fst (bk ! ?b), Some x)])"
      using grouped_behind [OF assms(1) _ False b] assms(2) by simp
    have snd: "snd (bk ! ?b) = Some ?l" using bk False by (simp add: ends_def)
    show ?thesis
    proof (cases "next_node P ?l")
      case None
      then have "next_node (P @ x # R) ?l = Some x" using next_node_last [OF assms(2) l] by simp
      then have "put_back h (length bk) x (P @ x # R, bk) = ((P @ [x]) @ R, bk[?b := (fst (bk ! ?b), Some x)])"
        using snd by (simp add: put_back_def Let_def)
      then show ?thesis using behind None assms(2)
        by (intro exI [of _ "P @ [x]"] exI [of _ "bk[?b := (fst (bk ! ?b), Some x)]"] conjI)
          (auto simp: insert_before_def)
    next
      case (Some j)
      have j: "next_node (P @ x # R) ?l = Some j" "j \<in> set P" using next_node_append [OF assms(2) l Some] by simp_all
      then have "j \<noteq> x" "x \<notin> set P" using assms(2) by auto
      have rem: "remove1 x (P @ x # R) = P @ R" using \<open>x \<notin> set P\<close> by (simp add: remove1_append)
      have "put_back h (length bk) x (P @ x # R, bk)
          = (insert_before (Some j) x P @ R, bk[?b := (fst (bk ! ?b), Some x)])"
        using snd j \<open>j \<noteq> x\<close> \<open>x \<notin> set P\<close> insert_before_append [OF j(2)] rem
        by (simp add: put_back_def Let_def del: remove1_append)
      moreover have "distinct (insert_before (Some j) x P @ R)"
        using assms(2) distinct_insert_before [of P x "Some j"] by auto
      ultimately show ?thesis using behind Some
        by (intro exI [of _ "insert_before (Some j) x P"] exI [of _ "bk[?b := (fst (bk ! ?b), Some x)]"] conjI) auto
    qed
  qed
qed

lemma put_back_all:
  assumes "grouped f P bk" and "distinct (P @ R)" and "0 < length bk" and "\<And>i. f i = h i mod length bk"
  shows "\<exists>vs bk'. fold (put_back h (length bk)) R (P @ R, bk) = (vs, bk') \<and> grouped f vs bk'
    \<and> distinct vs \<and> set vs = set (P @ R) \<and> length bk' = length bk"
  using assms
proof (induction R arbitrary: P bk)
  case (Cons x R)
  obtain P' bk' where s: "put_back h (length bk) x (P @ x # R, bk) = (P' @ R, bk')" "grouped f P' bk'"
      "distinct (P' @ R)" "set P' = insert x (set P)" "length bk' = length bk"
    using put_back_step [OF Cons.prems] by blast
  have "\<exists>vs bk''. fold (put_back h (length bk')) R (P' @ R, bk') = (vs, bk'') \<and> grouped f vs bk''
      \<and> distinct vs \<and> set vs = set (P' @ R) \<and> length bk'' = length bk'"
    by (rule Cons.IH [OF s(2,3)]) (use Cons.prems(3,4) s(5) in simp_all)
  with s(1,4,5) show ?case by simp
qed simp

lemma grouped_empty: "grouped f [] (replicate n (None, None))"
  by (simp add: grouped_def bucket_group_def ends_def)

section \<open>The invariant\<close>

definition bucket_of :: "('k \<Rightarrow> nat) \<Rightarrow> ('k, 'v) hash_map \<Rightarrow> nat \<Rightarrow> nat" where
  "bucket_of hash h i = hash (fst (hm_entry h i)) mod length (hm_buckets h)"

definition hm_inv :: "('k \<Rightarrow> nat) \<Rightarrow> ('k, 'v) hash_map \<Rightarrow> bool" where
  "hm_inv hash h \<longleftrightarrow> distinct (hm_values h @ hm_spares h) \<and> (\<forall>i \<in> set (hm_values h @ hm_spares h). i < hm_fresh h)
     \<and> inj_on (\<lambda>i. fst (hm_entry h i)) (set (hm_values h)) \<and> hm_size h = length (hm_values h)
     \<and> (hm_buckets h = [] \<longrightarrow> hm_values h = []) \<and> grouped (bucket_of hash h) (hm_values h) (hm_buckets h)"

definition hm_abs :: "('k, 'v) hash_map \<Rightarrow> 'k \<Rightarrow> 'v option" where
  "hm_abs h = map_of (map (hm_entry h) (hm_values h))"

lemma hm_invD:
  assumes "hm_inv hash h"
  shows "distinct (hm_values h)" "inj_on (\<lambda>i. fst (hm_entry h i)) (set (hm_values h))"
    "grouped (bucket_of hash h) (hm_values h) (hm_buckets h)" "hm_buckets h = [] \<Longrightarrow> hm_values h = []"
  using assms by (simp_all add: hm_inv_def)

lemma hm_abs_Some:
  assumes "hm_inv hash h"
  shows "hm_abs h k = Some v \<longleftrightarrow> (\<exists>i \<in> set (hm_values h). hm_entry h i = (k, v))"
proof -
  have "distinct (map fst (map (hm_entry h) (hm_values h)))"
    using hm_invD [OF assms] by (simp add: distinct_map comp_def)
  from map_of_eq_Some_iff [OF this, of k v] show ?thesis by (force simp: hm_abs_def)
qed

lemma hm_abs_None: "hm_abs h k = None \<longleftrightarrow> (\<forall>i \<in> set (hm_values h). fst (hm_entry h i) \<noteq> k)"
  by (force simp: hm_abs_def map_of_eq_None_iff)

lemma hm_abs_eqI:
  assumes "hm_inv hash h" and "hm_inv hash' h'"
    and "\<And>k v. (\<exists>i \<in> set (hm_values h). hm_entry h i = (k, v)) \<longleftrightarrow> (\<exists>i \<in> set (hm_values h'). hm_entry h' i = (k, v))"
  shows "hm_abs h = hm_abs h'"
proof
  show "hm_abs h k = hm_abs h' k" for k
    using hm_abs_Some [OF assms(1), of k] hm_abs_Some [OF assms(2), of k] assms(3) [of k]
    by (metis not_Some_eq)
qed

lemma hm_new_inv: "hm_inv hash (hm_new d)"
  by (simp add: hm_inv_def hm_new_def grouped_def)

lemma hash_size_pos: "0 < hash_size n"
proof -
  have "\<forall>s \<in> set hash_sizes. 0 < s" by (simp add: hash_sizes_def)
  moreover have "hash_size n \<in> set hash_sizes"
    using set_dropWhileD [of _ "\<lambda>s. \<not> n < s" "butlast hash_sizes"] in_set_butlastD
    unfolding hash_size_def by (auto simp: hash_sizes_def split: list.split)
  ultimately show ?thesis by blast
qed

lemma rehash_correct:
  assumes "hm_inv hash h" and "0 < n"
  shows "hm_inv hash (rehash hash n h)" and "length (hm_buckets (rehash hash n h)) = n"
    and "hm_abs (rehash hash n h) = hm_abs h"
proof -
  have "hm_inv hash (rehash hash n h) \<and> length (hm_buckets (rehash hash n h)) = n
    \<and> set (hm_values (rehash hash n h)) = set (hm_values h) \<and> hm_entry (rehash hash n h) = hm_entry h"
  proof (cases "n = length (hm_buckets h)")
    case True
    then show ?thesis using assms by (simp add: rehash_def)
  next
    case False
    let ?h = "\<lambda>i. hash (fst (hm_entry h i))"
    let ?bk = "replicate n (None, None) :: (nat option \<times> nat option) list"
    obtain vs bk where r: "fold (put_back ?h (length ?bk)) (hm_values h) ([] @ hm_values h, ?bk) = (vs, bk)"
        "grouped (\<lambda>i. ?h i mod length ?bk) vs bk" "distinct vs" "set vs = set ([] @ hm_values h)" "length bk = length ?bk"
      using put_back_all [OF grouped_empty [of _ n], of "hm_values h"] hm_invD(1) [OF assms(1)] assms(2) by fastforce
    then have "rehash hash n h = h\<lparr>hm_values := vs, hm_buckets := bk\<rparr>" using False by (simp add: rehash_def)
    moreover have "length vs = length (hm_values h)"
      using r(3,4) hm_invD(1) [OF assms(1)] by (metis append_Nil distinct_card)
    ultimately show ?thesis using assms r by (auto simp: hm_inv_def bucket_of_def [abs_def])
  qed
  then show "hm_inv hash (rehash hash n h)" "length (hm_buckets (rehash hash n h)) = n"
    "hm_abs (rehash hash n h) = hm_abs h"
    using hm_abs_eqI [OF _ assms(1)] by auto
qed

lemma find_group:
  fixes k
  assumes "hm_inv hash h" and "hm_buckets h \<noteq> []"
  defines "g \<equiv> bucket_group (bucket_of hash h) (hm_values h) (hm_bucket hash k h)"
  shows "(\<exists>i \<in> set (hm_values h). fst (hm_entry h i) = k \<and> List.find (\<lambda>i. fst (hm_entry h i) = k) g = Some i)
    \<or> hm_abs h k = None \<and> List.find (\<lambda>i. fst (hm_entry h i) = k) g = None"
proof (cases "List.find (\<lambda>i. fst (hm_entry h i) = k) g")
  case None
  then have "fst (hm_entry h i) \<noteq> k" if "i \<in> set (hm_values h)" for i
    using that by (auto simp: find_None_iff g_def bucket_of_def hm_bucket_def)
  then show ?thesis using None by (simp add: hm_abs_None)
next
  case (Some i)
  then have "i \<in> set g \<and> fst (hm_entry h i) = k" by (auto simp: find_Some_iff)
  then show ?thesis using Some by (auto simp: g_def)
qed

lemma hm_bucket_less: "hm_buckets h \<noteq> [] \<Longrightarrow> hm_bucket hash k h < length (hm_buckets h)"
  by (simp add: hm_bucket_def)

lemma hm_find_correct:
  assumes "hm_inv hash h"
  shows "(\<exists>i \<in> set (hm_values h). fst (hm_entry h i) = k \<and> hm_find hash k h = Some (Some i))
    \<or> hm_abs h k = None \<and> hm_find hash k h = Some None"
proof (cases "hm_buckets h = []")
  case True
  then show ?thesis using hm_invD(4) [OF assms True] by (simp add: hm_find_def hm_abs_def)
next
  case False
  let ?b = "hm_bucket hash k h"
  note inv = hm_invD [OF assms] and b = hm_bucket_less [OF False, of hash k]
  obtain it l where bk: "hm_buckets h ! ?b = (it, l)" by fastforce
  show ?thesis
  proof (cases it)
    case None
    then have "bucket_group (bucket_of hash h) (hm_values h) ?b = []"
      using groupedD(2) [OF inv(3) b] bk by (simp add: ends_def split: if_splits)
    then show ?thesis using find_group [OF assms False, of k] None bk False by (simp add: hm_find_def)
  next
    case (Some i)
    from scan_bucket [OF inv(3,1) b bk [unfolded Some], of "hm_entry h" k]
    show ?thesis using find_group [OF assms False, of k] Some bk False by (auto simp: hm_find_def)
  qed
qed

text \<open>A new node takes the place the caller chooses.\<close>

lemma grouped_cong:
  assumes "grouped f vs bk" and "\<And>i. i \<in> set vs \<Longrightarrow> f' i = f i"
  shows "grouped f' vs bk"
proof -
  have "bucket_group f' vs b = bucket_group f vs b" for b
    using assms(2) by (auto simp: bucket_group_def intro: filter_cong)
  then show ?thesis using assms(1) by (simp add: grouped_def)
qed

text \<open>An assignment that gives a recycled node the value.\<close>

definition takes :: "('v \<Rightarrow> 'v \<Rightarrow> 'v) \<Rightarrow> ('k, 'v) hash_map \<Rightarrow> 'v \<Rightarrow> bool" where
  "takes asg h v \<longleftrightarrow> (\<forall>i \<in> set (hm_spares h). asg (snd (hm_entry h i)) v = v)"

lemma takes_plain: "takes plain h v"
  by (simp add: takes_def plain_def)

lemma values_insert_correct:
  assumes "hm_inv hash h" and "values_insert asg pos (k, v) h = (i, h1)" and "hm_abs h k = None"
    and "length bk = length (hm_buckets h)" and "bk \<noteq> []"
    and "\<And>f. grouped f (hm_values h) (hm_buckets h) \<Longrightarrow> f i = hm_bucket hash k h
      \<Longrightarrow> grouped f (insert_before pos i (hm_values h)) bk"
    and "takes asg h v"
  defines "h' \<equiv> h1\<lparr>hm_buckets := bk, hm_size := hm_size h + 1\<rparr>"
  shows "hm_inv hash h' \<and> i \<in> set (hm_values h') \<and> fst (hm_entry h' i) = k \<and> hm_abs h' = (hm_abs h)(k \<mapsto> v)"
proof -
  let ?vs = "insert_before pos i (hm_values h)"
  note inv = assms(1) [unfolded hm_inv_def]
  have new: "i \<notin> set (hm_values h)" "i < hm_fresh h1" "hm_fresh h \<le> hm_fresh h1" "hm_values h' = ?vs"
      "hm_entry h' = (hm_entry h)(i := (k, v))" "hm_buckets h' = bk" "hm_size h' = length ?vs"
      "distinct (hm_spares h')" "i \<notin> set (hm_spares h')" "set (hm_spares h') \<subseteq> set (hm_spares h)" "hm_fresh h' = hm_fresh h1"
    using inv assms(2,7) by (auto simp: values_insert_def takes_def h'_def split: list.splits)
  have old: "fst (hm_entry h j) \<noteq> k" if "j \<in> set (hm_values h)" for j
    using assms(3) that by (simp add: hm_abs_None)
  have "grouped (bucket_of hash h') (hm_values h) (hm_buckets h)"
    by (rule grouped_cong [of "bucket_of hash h"]) (use inv new assms(4) in \<open>auto simp: bucket_of_def\<close>)
  then have "grouped (bucket_of hash h') ?vs bk"
    by (rule assms(6)) (simp add: bucket_of_def hm_bucket_def new assms(4))
  moreover have "inj_on (\<lambda>j. fst (hm_entry h' j)) (set ?vs)"
    using hm_invD(2) [OF assms(1)] new(1,5) old by (auto simp: inj_on_def)
  moreover have "distinct (?vs @ hm_spares h')"
    using inv new distinct_insert_before [of "hm_values h" i pos] by auto
  moreover have "\<forall>j \<in> set (?vs @ hm_spares h'). j < hm_fresh h'"
  proof
    fix j assume "j \<in> set (?vs @ hm_spares h')"
    then have "j = i \<or> j \<in> set (hm_values h @ hm_spares h)" using new(10) by auto
    then have "j = i \<or> j < hm_fresh h" using inv by blast
    then show "j < hm_fresh h'" using new(2,3,11) by auto
  qed
  ultimately have i': "hm_inv hash h'" using assms(5) new by (simp add: hm_inv_def)
  have "hm_abs h' = (hm_abs h)(k \<mapsto> v)"
  proof
    fix c
    have old': "c \<noteq> k \<and> j \<noteq> i" if "j \<in> set (hm_values h)" "hm_entry h j = (c, w)" for j w
      using old [OF that(1)] that new(1) by auto
    have "(\<exists>j \<in> set ?vs. ((hm_entry h)(i := (k, v))) j = (c, w)) \<longleftrightarrow>
        (if c = k then w = v else \<exists>j \<in> set (hm_values h). hm_entry h j = (c, w))" for w
      using old' by (cases "c = k") (simp_all, blast+)
    then have at: "hm_abs h' c = Some w \<longleftrightarrow> ((hm_abs h)(k \<mapsto> v)) c = Some w" for w
      unfolding hm_abs_Some [OF i'] new(4,5) by (auto simp: hm_abs_Some [OF assms(1)])
    show "hm_abs h' c = ((hm_abs h)(k \<mapsto> v)) c" using at by (metis not_Some_eq)
  qed
  then show ?thesis using i' new by simp
qed

lemma hm_insert_correct:
  assumes "hm_inv hash h0" and takes: "takes asg h0 v"
  shows "\<exists>i b h'. hm_insert asg hash (k, v) h0 = Some ((i, b), h') \<and> hm_inv hash h' \<and> i \<in> set (hm_values h')
    \<and> fst (hm_entry h' i) = k \<and> b = (hm_abs h0 k = None) \<and> hm_abs h' = (if b then (hm_abs h0)(k \<mapsto> v) else hm_abs h0)"
proof -
  define h where "h = (if hm_size h0 + 1 \<ge> length (hm_buckets h0) then rehash hash (hash_size (hm_size h0 + 1)) h0 else h0)"
  have h: "hm_inv hash h" "hm_buckets h \<noteq> []" "hm_abs h = hm_abs h0"
    using rehash_correct [OF assms(1) hash_size_pos, of "hm_size h0 + 1"] assms(1) hash_size_pos [of "hm_size h0 + 1"]
    unfolding h_def by (auto simp flip: length_greater_0_conv)
  have tk: "takes asg h v" using takes by (simp add: h_def takes_def rehash_def split: prod.split)
  note inv = hm_invD [OF h(1)]
  let ?b = "hm_bucket hash k h" and ?g = "bucket_group (bucket_of hash h) (hm_values h) (hm_bucket hash k h)"
  have b: "?b < length (hm_buckets h)" by (rule hm_bucket_less [OF h(2)])
  obtain it l where bk: "hm_buckets h ! ?b = (it, l)" by fastforce
  have ins: "hm_insert asg hash (k, v) h0 = (case hm_buckets h ! ?b of
       (None, _) \<Rightarrow>
         (case values_insert asg None (k, v) h of (i, h1) \<Rightarrow>
            Some ((i, True), h1\<lparr>hm_buckets := (hm_buckets h)[?b := (Some i, Some i)], hm_size := hm_size h + 1\<rparr>))
     | (Some it, None) \<Rightarrow> None
     | (Some it, Some l) \<Rightarrow>
         (let end_it = next_node (hm_values h) l
          in case hm_scan (hm_entry h) k end_it (from_node it (hm_values h)) of
               None \<Rightarrow> None
             | Some (Some i) \<Rightarrow> Some ((i, False), h)
             | Some None \<Rightarrow>
                 (case values_insert asg end_it (k, v) h of (i, h1) \<Rightarrow>
                    Some ((i, True), h1\<lparr>hm_buckets := (hm_buckets h)[?b := (Some it, Some i)],
                      hm_size := hm_size h + 1\<rparr>))))"
    unfolding hm_insert_def h_def [symmetric] Let_def fst_conv by (rule refl)
  show ?thesis
  proof (cases it)
    case None
    then have g: "?g = []" using groupedD(2) [OF inv(3) b] bk by (simp add: ends_def split: if_splits)
    then have none: "hm_abs h k = None" using find_group [OF h(1,2), of k] by auto
    obtain i h1 where vi: "values_insert asg None (k, v) h = (i, h1)" by fastforce
    let ?h' = "h1\<lparr>hm_buckets := (hm_buckets h)[?b := (Some i, Some i)], hm_size := hm_size h + 1\<rparr>"
    have grp: "grouped f (insert_before None i (hm_values h)) ((hm_buckets h)[?b := (Some i, Some i)])"
      if "grouped f (hm_values h) (hm_buckets h)" "f i = ?b" for f
      using grouped_snoc [OF that(1) _ that(2) b] groupedD(2) [OF that(1) b] bk None
      by (simp add: insert_before_def ends_def split: if_splits)
    have "hm_inv hash ?h' \<and> i \<in> set (hm_values ?h') \<and> fst (hm_entry ?h' i) = k \<and> hm_abs ?h' = (hm_abs h)(k \<mapsto> v)"
      by (rule values_insert_correct [OF h(1) vi none _ _ grp]) (simp_all add: h(2) tk)
    moreover have "hm_insert asg hash (k, v) h0 = Some ((i, True), ?h')"
      by (simp only: ins bk None vi prod.case option.case)
    ultimately show ?thesis using none h(3) by auto
  next
    case (Some j)
    from scan_bucket [OF inv(3,1) b bk [unfolded Some], of "hm_entry h" k]
    obtain l' where l: "l = Some l'" "l' = last ?g" "?g \<noteq> []"
      and scan: "hm_scan (hm_entry h) k (next_node (hm_values h) l') (from_node j (hm_values h))
        = Some (List.find (\<lambda>i. fst (hm_entry h i) = k) ?g)" by blast
    from find_group [OF h(1,2), of k] show ?thesis
    proof (elim disjE bexE conjE)
      fix i assume i: "i \<in> set (hm_values h)" "fst (hm_entry h i) = k"
        and f: "List.find (\<lambda>i. fst (hm_entry h i) = k) ?g = Some i"
      have "hm_abs h k \<noteq> None" using i by (auto simp: hm_abs_None)
      moreover have "hm_insert asg hash (k, v) h0 = Some ((i, False), h)"
        by (simp only: ins bk Some l(1) prod.case option.case Let_def scan f)
      ultimately show ?thesis using h i by auto
    next
      assume none: "hm_abs h k = None" and f: "List.find (\<lambda>i. fst (hm_entry h i) = k) ?g = None"
      obtain i h1 where vi: "values_insert asg (next_node (hm_values h) l') (k, v) h = (i, h1)" by fastforce
      let ?h' = "h1\<lparr>hm_buckets := (hm_buckets h)[?b := (Some j, Some i)], hm_size := hm_size h + 1\<rparr>"
      have grp: "grouped f (insert_before (next_node (hm_values h) l') i (hm_values h)) ((hm_buckets h)[?b := (Some j, Some i)])"
        if fg: "grouped f (hm_values h) (hm_buckets h)" "f i = ?b" for f
      proof -
        have e: "ends (bucket_group f (hm_values h) ?b) = (Some j, Some l')"
          using groupedD(2) [OF fg(1) b] bk Some l by simp
        then have "bucket_group f (hm_values h) ?b \<noteq> []" "last (bucket_group f (hm_values h) ?b) = l'"
          by (auto simp: ends_def split: if_splits)
        then show ?thesis using grouped_behind [OF fg(1) inv(1) _ fg(2) b] bk Some by simp
      qed
      have "hm_inv hash ?h' \<and> i \<in> set (hm_values ?h') \<and> fst (hm_entry ?h' i) = k \<and> hm_abs ?h' = (hm_abs h)(k \<mapsto> v)"
        by (rule values_insert_correct [OF h(1) vi none _ _ grp]) (simp_all add: h(2) tk)
      moreover have "hm_insert asg hash (k, v) h0 = Some ((i, True), ?h')"
        by (simp only: ins bk Some l(1) vi prod.case option.case Let_def scan f)
      ultimately show ?thesis using none h(3) by auto
    qed
  qed
qed

lemma hm_insert_spares:
  assumes "hm_inv hash h" and "hm_insert asg hash v h = Some (r, h')" and "j \<in> set (hm_spares h')"
  shows "j \<in> set (hm_spares h) \<and> hm_entry h' j = hm_entry h j"
proof -
  define h1 where "h1 = (if hm_size h + 1 \<ge> length (hm_buckets h) then rehash hash (hash_size (hm_size h + 1)) h else h)"
  have h1: "hm_spares h1 = hm_spares h" "hm_entry h1 = hm_entry h" "hm_fresh h1 = hm_fresh h"
    by (simp_all add: h1_def rehash_def split: prod.split)
  have sp: "distinct (hm_spares h)" "\<And>j. j \<in> set (hm_spares h) \<Longrightarrow> j < hm_fresh h"
    using assms(1) by (auto simp: hm_inv_def)
  have one: "j \<in> set (hm_spares h) \<and> hm_entry h2 j = hm_entry h j"
    if "values_insert asg pos v h1 = (i, h2)" "j \<in> set (hm_spares h2)" for pos i h2
    using that sp by (fastforce simp: values_insert_def h1 split: list.splits)
  have same: "hm_spares h' = hm_spares h \<and> hm_entry h' = hm_entry h" if "h1 = h'" using h1 that by simp
  from assms(2,3) show ?thesis
    unfolding hm_insert_def h1_def [symmetric] Let_def
    by (auto simp: h1 dest: one same split: prod.splits option.splits)
qed

lemma hm_abs_node:
  assumes "hm_inv hash h" and "i \<in> set (hm_values h)"
  shows "hm_abs h (fst (hm_entry h i)) = Some (snd (hm_entry h i))"
  unfolding hm_abs_Some [OF assms(1)] using assms(2) by auto

lemma hm_empty_abs: "hm_empty h \<longleftrightarrow> dom (hm_abs h) = {}"
  by (simp add: hm_empty_def hm_abs_def dom_map_of_conv_image_fst)

lemma hm_erase_at_correct:
  fixes d asg
  assumes inv: "hm_inv hash h" and it: "it \<in> set (hm_values h)" and k: "fst (hm_entry h it) = k"
  defines "h' \<equiv> hm_erase_at asg hash d it h"
  shows "hm_inv hash h' \<and> hm_abs h' = (hm_abs h)(k := None)"
proof -
  note I = hm_invD [OF inv] and all = inv [unfolded hm_inv_def]
  let ?f = "bucket_of hash h" and ?b = "hm_bucket hash k h"
  let ?g = "bucket_group ?f (hm_values h) ?b" and ?d = "(fst d, asg (snd (hm_entry h it)) (snd d))"
  have ne: "hm_buckets h \<noteq> []" using I(4) it by auto
  note b = hm_bucket_less [OF ne, of hash k]
  have "it \<in> set ?g" using it k by (simp add: bucket_of_def hm_bucket_def)
  then obtain g0 g1 where g: "?g = g0 @ it # g1" by (metis split_list)
  obtain xs ys where v: "hm_values h = xs @ ?g @ ys" "bucket_group ?f xs ?b = []" "bucket_group ?f ys ?b = []"
    using group_split groupedD(1) [OF I(3) b] by metis
  have vs: "hm_values h = (xs @ g0) @ it # g1 @ ys" using v(1) g by simp
  then have out: "it \<notin> set (xs @ g0)" "it \<notin> set (g1 @ ys)" "distinct (g0 @ it # g1)"
    using I(1) by auto
  have rem: "remove1 it (hm_values h) = xs @ (g0 @ g1) @ ys"
    using out by (simp add: vs remove1_append)
  have bk: "hm_buckets h ! ?b = (Some (hd ?g), Some (last ?g))"
    using groupedD(2) [OF I(3) b] g by (simp add: ends_def)
  have first: "hd ?g = it \<longleftrightarrow> g0 = []" and lst: "last ?g = it \<longleftrightarrow> g1 = []"
    using g out by (auto simp: hd_append split: if_splits)
  have nx: "next_node (hm_values h) it = Some (hd g1)" if "g1 \<noteq> []"
    unfolding vs using that next_node_split [OF out(1), of "g1 @ ys"] by (cases g1) simp_all
  have pv: "prev_node (hm_values h) (Some it) = (if xs @ g0 = [] then None else Some (last (xs @ g0)))"
    unfolding vs using out by (intro prev_node_split) simp
  let ?new = "if hd ?g = it \<and> last ?g = it then (None, None)
     else if hd ?g = it then (next_node (hm_values h) it, Some (last ?g))
     else if last ?g = it then (Some (hd ?g), prev_node (hm_values h) (Some it))
     else (Some (hd ?g), Some (last ?g))"
  have new: "?new = ends (g0 @ g1)"
    unfolding first lst pv using g nx by (cases g0; cases g1 rule: rev_cases) (auto simp: ends_def hd_append)
  have h': "hm_values h' = xs @ (g0 @ g1) @ ys" "hm_entry h' = (hm_entry h)(it := ?d)"
    "hm_buckets h' = (hm_buckets h)[?b := ?new]" "hm_size h' = hm_size h - 1" "hm_spares h' = it # hm_spares h"
    "hm_fresh h' = hm_fresh h"
    using bk k rem by (simp_all add: h'_def hm_erase_at_def values_erase_def Let_def)
  have sub: "set (hm_values h') = set (hm_values h) - {it}" using vs out by (auto simp: h'(1))
  have bk': "hm_buckets h' = (hm_buckets h)[?b := ends (g0 @ g1)]" using h'(3) unfolding new .
  have mem: "?f i = ?b" if "i \<in> set (g0 @ g1)" for i
  proof -
    have "i \<in> set ?g" using that by (auto simp only: g set_append list.set)
    then show ?thesis by simp
  qed
  have "?g \<noteq> []" using g by simp
  have "grouped ?f (xs @ (g0 @ g1) @ ys) ((hm_buckets h)[?b := ends (g0 @ g1)])"
    by (rule grouped_change [OF I(3) v(1) refl \<open>?g \<noteq> []\<close> mem v(2,3)]) (use b in simp_all)
  then have "grouped (bucket_of hash h') (hm_values h') (hm_buckets h')"
    unfolding h'(1) bk' by (rule grouped_cong) (use vs out in \<open>auto simp: bucket_of_def h'(2) bk'\<close>)
  moreover have "inj_on (\<lambda>j. fst (hm_entry h' j)) (set (hm_values h'))"
    using I(2) by (auto simp: sub h'(2) inj_on_def)
  moreover have "distinct (hm_values h' @ hm_spares h')" using all vs by (auto simp: h'(1,5))
  moreover have "\<forall>j \<in> set (hm_values h' @ hm_spares h'). j < hm_fresh h'" using all it by (auto simp: sub h'(5,6))
  moreover have "hm_size h' = length (hm_values h')" using all vs by (simp add: h'(1,4))
  ultimately have inv': "hm_inv hash h'" using ne by (simp add: hm_inv_def bk')
  have "hm_abs h' = (hm_abs h)(k := None)"
  proof
    fix c
    have same: "j = it" if "j \<in> set (hm_values h)" "fst (hm_entry h j) = k" for j
      using I(2) it k that by (auto simp: inj_on_def)
    have own: "c = k \<longleftrightarrow> j = it" if "j \<in> set (hm_values h)" "hm_entry h j = (c, w)" for j w
      using same [OF that(1)] that k by auto
    have "(\<exists>j \<in> set (hm_values h) - {it}. ((hm_entry h)(it := ?d)) j = (c, w)) \<longleftrightarrow>
        c \<noteq> k \<and> (\<exists>j \<in> set (hm_values h). hm_entry h j = (c, w))" for w
      using own by (cases "c = k") (simp_all, blast+)
    then have "hm_abs h' c = Some w \<longleftrightarrow> ((hm_abs h)(k := None)) c = Some w" for w
      unfolding hm_abs_Some [OF inv'] sub h'(2) by (auto simp: hm_abs_Some [OF inv])
    then show "hm_abs h' c = ((hm_abs h)(k := None)) c" by (metis not_Some_eq)
  qed
  with inv' show ?thesis by simp
qed

lemma hm_erase_correct:
  assumes "hm_inv hash h"
  shows "\<exists>h'. hm_erase asg hash d k h = Some h' \<and> hm_inv hash h' \<and> hm_abs h' = (hm_abs h)(k := None)"
  using hm_find_correct [OF assms, of k]
proof (elim disjE bexE conjE)
  fix i assume "i \<in> set (hm_values h)" "fst (hm_entry h i) = k" "hm_find hash k h = Some (Some i)"
  then show ?thesis using hm_erase_at_correct [OF assms, of i k asg d] by (simp add: hm_erase_def)
next
  assume "hm_abs h k = None" "hm_find hash k h = Some None"
  then show ?thesis using assms by (simp add: hm_erase_def fun_upd_idem)
qed

lemma hm_clear_correct: "hm_inv hash h \<Longrightarrow> hm_inv hash (hm_clear h) \<and> hm_abs (hm_clear h) = Map.empty"
  by (auto simp: hm_inv_def hm_clear_def hm_abs_def grouped_def bucket_group_def ends_def)

lemma hm_write_correct:
  assumes "hm_inv hash h" and "i \<in> set (hm_values h)" and "fst (hm_entry h i) = k"
  shows "hm_inv hash (hm_write i v h) \<and> hm_abs (hm_write i v h) = (hm_abs h)(k \<mapsto> v)"
proof -
  have key: "fst (hm_entry (hm_write i v h) j) = fst (hm_entry h j)" for j by (simp add: hm_write_def)
  have b: "bucket_of hash (hm_write i v h) = bucket_of hash h"
    by (rule ext) (simp add: bucket_of_def key, simp add: hm_write_def)
  have inv': "hm_inv hash (hm_write i v h)"
    using assms(1) unfolding hm_inv_def b key by (simp add: hm_write_def)
  have "hm_abs (hm_write i v h) = (hm_abs h)(k \<mapsto> v)"
  proof
    fix c
    have same: "j = i" if "j \<in> set (hm_values h)" "fst (hm_entry h j) = k" for j
      using hm_invD(2) [OF assms(1)] assms(2,3) that by (auto simp: inj_on_def)
    have own: "c = k \<longleftrightarrow> j = i" if "j \<in> set (hm_values h)" "hm_entry h j = (c, w)" for j w
      using same [OF that(1)] that assms(3) by auto
    have "(\<exists>j \<in> set (hm_values h). ((hm_entry h)(i := (k, v))) j = (c, w)) \<longleftrightarrow>
        (if c = k then w = v else \<exists>j \<in> set (hm_values h). hm_entry h j = (c, w))" for w
      using own assms(2) by (cases "c = k") (simp_all, blast+)
    then have "hm_abs (hm_write i v h) c = Some w \<longleftrightarrow> ((hm_abs h)(k \<mapsto> v)) c = Some w" for w
      unfolding hm_abs_Some [OF inv'] using assms(3) by (auto simp: hm_write_def hm_abs_Some [OF assms(1)])
    then show "hm_abs (hm_write i v h) c = ((hm_abs h)(k \<mapsto> v)) c" by (metis not_Some_eq)
  qed
  with inv' show ?thesis by simp
qed

section \<open>A finite map\<close>

text \<open>
  The contract of a map whose operations may fail: on a good state every call succeeds, gives the
  answer of the abstract map, and leads to the state that represents the new one.
\<close>

datatype ('k, 'v) map_call = Find 'k | Insert 'k 'v | Erase 'k | Clear | Is_empty

datatype 'v map_answer = Found "'v option" | Inserted bool | Done_call | Empty_is bool

fun map_step :: "('k, 'v) map_call \<Rightarrow> ('k \<Rightarrow> 'v option) \<Rightarrow> 'v map_answer \<times> ('k \<Rightarrow> 'v option)" where
  "map_step (Find k) m = (Found (m k), m)"
| "map_step (Insert k v) m = (if m k = None then (Inserted True, m(k \<mapsto> v)) else (Inserted False, m))"
| "map_step (Erase k) m = (Done_call, m(k := None))"
| "map_step Clear m = (Done_call, Map.empty)"
| "map_step Is_empty m = (Empty_is (\<forall>k \<in> dom m. False), m)"

fun map_run :: "('k, 'v) map_call list \<Rightarrow> ('k \<Rightarrow> 'v option) \<Rightarrow> 'v map_answer list" where
  "map_run [] m = []"
| "map_run (c # cs) m = (case map_step c m of (a, m') \<Rightarrow> a # map_run cs m')"

fun calls_run ::
  "(('k, 'v) map_call \<Rightarrow> 'h \<Rightarrow> ('v map_answer \<times> 'h) option) \<Rightarrow> ('k, 'v) map_call list \<Rightarrow> 'h
     \<Rightarrow> 'v map_answer list option" where
  "calls_run step [] h = Some []"
| "calls_run step (c # cs) h =
     (case step c h of
        None \<Rightarrow> None
      | Some (a, h') \<Rightarrow> map_option (\<lambda>as. a # as) (calls_run step cs h'))"

locale finite_map =
  fixes step :: "('k, 'v) map_call \<Rightarrow> 'h \<Rightarrow> ('v map_answer \<times> 'h) option"
    and good :: "'h \<Rightarrow> bool"
    and rep :: "'h \<Rightarrow> 'k \<Rightarrow> 'v option"
  assumes step: "good h \<Longrightarrow> \<exists>a h'. step c h = Some (a, h') \<and> good h' \<and> map_step c (rep h) = (a, rep h')"
begin

lemma run: "good h \<Longrightarrow> calls_run step cs h = Some (map_run cs (rep h))"
proof (induction cs arbitrary: h)
  case (Cons c cs)
  obtain a h' where "step c h = Some (a, h')" "good h'" "map_step c (rep h) = (a, rep h')"
    using step [OF Cons.prems, of c] by blast
  then show ?case using Cons.IH [of h'] by simp
qed simp

end

text \<open>The calls on the hash map.\<close>

fun hm_call ::
  "('k \<Rightarrow> nat) \<Rightarrow> 'k \<times> 'v \<Rightarrow> ('k, 'v) map_call \<Rightarrow> ('k, 'v) hash_map \<Rightarrow> ('v map_answer \<times> ('k, 'v) hash_map) option" where
  "hm_call hash d (Find k) h =
     map_option (\<lambda>it. (Found (map_option (\<lambda>i. snd (hm_entry h i)) it), h)) (hm_find hash k h)"
| "hm_call hash d (Insert k v) h = map_option (\<lambda>((it, b), h'). (Inserted b, h')) (hm_insert plain hash (k, v) h)"
| "hm_call hash d (Erase k) h = map_option (\<lambda>h'. (Done_call, h')) (hm_erase plain hash d k h)"
| "hm_call hash d Clear h = Some (Done_call, hm_clear h)"
| "hm_call hash d Is_empty h = Some (Empty_is (hm_empty h), h)"

lemma hm_find_value:
  assumes "hm_inv hash h"
  shows "\<exists>it. hm_find hash k h = Some it \<and> hm_abs h k = map_option (\<lambda>i. snd (hm_entry h i)) it"
  using hm_find_correct [OF assms, of k]
proof (elim disjE bexE conjE)
  fix i assume i: "i \<in> set (hm_values h)" "fst (hm_entry h i) = k" "hm_find hash k h = Some (Some i)"
  then have "hm_entry h i = (k, snd (hm_entry h i))" by (metis prod.collapse)
  then have "hm_abs h k = Some (snd (hm_entry h i))" unfolding hm_abs_Some [OF assms] using i(1) by blast
  then show ?thesis using i by simp
qed simp

interpretation hm: finite_map "hm_call hash d" "hm_inv hash" hm_abs
proof
  fix h :: "('a, 'b) hash_map" and c
  assume inv: "hm_inv hash h"
  show "\<exists>a h'. hm_call hash d c h = Some (a, h') \<and> hm_inv hash h' \<and> map_step c (hm_abs h) = (a, hm_abs h')"
  proof (cases c)
    case (Find k)
    then show ?thesis using hm_find_value [OF inv, of k] inv by auto
  next
    case (Insert k v)
    then show ?thesis using hm_insert_correct [OF inv takes_plain, of k v] by fastforce
  next
    case (Erase k)
    then show ?thesis using hm_erase_correct [OF inv, of plain d k] by auto
  next
    case Clear
    then show ?thesis using hm_clear_correct [OF inv] by simp
  next
    case Is_empty
    then show ?thesis using hm_empty_abs [of h] inv by auto
  qed
qed

text \<open>
  C37. The hash map is a finite map. Any sequence of finding, inserting, erasing and clearing on a
  new map gives the answers that a finite map gives, with any hash function; no iterator is moved past the end of the
  list and none that is not in the list is followed, although inserting may rehash, which
  reorders the list, and nodes are taken from those that were erased.
\<close>

theorem hash_map_is_a_map:
  "calls_run (hm_call hash d) cs (hm_new d) = Some (map_run cs Map.empty)"
proof -
  have "hm_abs (hm_new d) = Map.empty" by (simp add: hm_abs_def hm_new_def)
  then show ?thesis using hm.run [OF hm_new_inv [of hash d], of d cs] by simp
qed

end
