(* ===== verification/Asio_Reactor_Op_Queue.thy ===== *)
theory Asio_Reactor_Op_Queue
  imports Asio_Hash_Map Asio_Reactor
begin

text \<open>
  \<open>detail/reactor_op_queue.hpp\<close>: the operations that wait for descriptors, a hash map from the
  descriptor to the queue of its operations. The queues are lists, which \<open>Asio_Op_Queue\<close> justifies.
  The value type of the map cannot be copied: its copy constructor makes an empty queue and its
  assignment does nothing, so that a recycled node keeps the queue it had. Shown here: this is
  harmless, as only nodes with empty queues are recycled, and the map is a queue per descriptor,
  from which operations leave in the order in which they came.
\<close>

section \<open>The queues\<close>

type_synonym op_map = "(int, reactor_op list) hash_map"

definition keep_queue :: "reactor_op list \<Rightarrow> reactor_op list \<Rightarrow> reactor_op list" where
  "keep_queue old new = old"

definition no_entry :: "int \<times> reactor_op list" where
  "no_entry = (0, [])"

definition roq_new :: op_map where
  "roq_new = hm_new no_entry"

text \<open>What \<open>i->second\<close> is for an iterator.\<close>

definition queue_at :: "op_map \<Rightarrow> nat \<Rightarrow> reactor_op list" where
  "queue_at m i = snd (hm_entry m i)"

definition erase_node :: "nat \<Rightarrow> op_map \<Rightarrow> op_map" where
  "erase_node i m = hm_erase_at keep_queue hash_int no_entry i m"

definition enqueue_operation :: "int \<Rightarrow> reactor_op \<Rightarrow> op_map \<Rightarrow> (bool \<times> op_map) option" where
  "enqueue_operation descriptor op m =
     (case hm_insert keep_queue hash_int (descriptor, []) m of
        None \<Rightarrow> None
      | Some ((i, b), m') \<Rightarrow> Some (b, hm_write i (queue_at m' i @ [op]) m'))"

text \<open>
  The loops take the queue and the operations collected so far and return both; the second also
  whether it ended at an operation that was not done.
\<close>

fun roq_cancel_loop ::
  "error_code \<Rightarrow> reactor_op list \<Rightarrow> reactor_op list \<Rightarrow> reactor_op list \<times> reactor_op list" where
  "roq_cancel_loop ec [] ops = ([], ops)"
| "roq_cancel_loop ec (op # q) ops = roq_cancel_loop ec q (ops @ [op\<lparr>op_ec := ec\<rparr>])"

fun roq_perform_loop ::
  "(nat \<Rightarrow> outcome) \<Rightarrow> reactor_op list \<Rightarrow> reactor_op list \<Rightarrow> bool \<times> reactor_op list \<times> reactor_op list" where
  "roq_perform_loop pf [] ops = (False, [], ops)"
| "roq_perform_loop pf (op # q) ops =
     (if fst (pf (op_id op)) \<noteq> Not_done
      then roq_perform_loop pf q (ops @ [perform (pf (op_id op)) op])
      else (True, perform (pf (op_id op)) op # q, ops))"

definition cancel_at ::
  "nat option \<Rightarrow> error_code \<Rightarrow> reactor_op list \<Rightarrow> op_map \<Rightarrow> bool \<times> reactor_op list \<times> op_map" where
  "cancel_at it ec ops m =
     (case it of
        Some i \<Rightarrow>
          (case roq_cancel_loop ec (queue_at m i) ops of (q, ops') \<Rightarrow> (True, ops', erase_node i (hm_write i q m)))
      | None \<Rightarrow> (False, ops, m))"

definition cancel_operations ::
  "int \<Rightarrow> error_code \<Rightarrow> reactor_op list \<Rightarrow> op_map \<Rightarrow> (bool \<times> reactor_op list \<times> op_map) option" where
  "cancel_operations descriptor ec ops m =
     map_option (\<lambda>it. cancel_at it ec ops m) (hm_find hash_int descriptor m)"

definition roq_empty :: "op_map \<Rightarrow> bool" where
  "roq_empty m = hm_empty m"

definition has_operation :: "int \<Rightarrow> op_map \<Rightarrow> bool option" where
  "has_operation descriptor m = map_option (\<lambda>it. it \<noteq> None) (hm_find hash_int descriptor m)"

definition perform_at ::
  "nat option \<Rightarrow> (nat \<Rightarrow> outcome) \<Rightarrow> reactor_op list \<Rightarrow> op_map \<Rightarrow> bool \<times> reactor_op list \<times> op_map" where
  "perform_at it pf ops m =
     (case it of
        Some i \<Rightarrow>
          (case roq_perform_loop pf (queue_at m i) ops of (unfinished, q, ops') \<Rightarrow>
             (if unfinished then (True, ops', hm_write i q m) else (False, ops', erase_node i (hm_write i q m))))
      | None \<Rightarrow> (False, ops, m))"

definition perform_operations ::
  "int \<Rightarrow> (nat \<Rightarrow> outcome) \<Rightarrow> reactor_op list \<Rightarrow> op_map \<Rightarrow> (bool \<times> reactor_op list \<times> op_map) option" where
  "perform_operations descriptor pf ops m =
     map_option (\<lambda>it. perform_at it pf ops m) (hm_find hash_int descriptor m)"

text \<open>The iterator is stepped on before its node is erased; pushing a queue leaves it empty.\<close>

partial_function (option) get_all_from ::
  "nat option \<Rightarrow> reactor_op list \<Rightarrow> op_map \<Rightarrow> (reactor_op list \<times> op_map) option" where
  "get_all_from it ops m =
     (case it of
        None \<Rightarrow> Some (ops, m)
      | Some op_iter \<Rightarrow>
          get_all_from (next_node (hm_values m) op_iter) (ops @ queue_at m op_iter)
            (erase_node op_iter (hm_write op_iter [] m)))"

definition first_node :: "op_map \<Rightarrow> nat option" where
  "first_node m = (case hm_values m of [] \<Rightarrow> None | i # _ \<Rightarrow> Some i)"

definition get_all_operations :: "reactor_op list \<Rightarrow> op_map \<Rightarrow> (reactor_op list \<times> op_map) option" where
  "get_all_operations ops m = get_all_from (first_node m) ops m"

section \<open>A queue for each descriptor\<close>

definition roq_abs :: "op_map \<Rightarrow> int \<Rightarrow> reactor_op list" where
  "roq_abs m k = (case hm_abs m k of None \<Rightarrow> [] | Some q \<Rightarrow> q)"

definition roq_inv :: "op_map \<Rightarrow> bool" where
  "roq_inv m \<longleftrightarrow> hm_inv hash_int m \<and> (\<forall>k. hm_abs m k \<noteq> Some []) \<and> (\<forall>i \<in> set (hm_spares m). queue_at m i = [])"

lemma roq_takes: "roq_inv m \<Longrightarrow> takes keep_queue m []"
  by (simp add: roq_inv_def takes_def keep_queue_def queue_at_def)

lemma roq_new_inv: "roq_inv roq_new" and roq_new_abs: "roq_abs roq_new = (\<lambda>_. [])"
  using hm_new_inv [of hash_int no_entry]
  by (auto simp: roq_inv_def roq_new_def roq_abs_def hm_abs_def hm_new_def)

text \<open>What a found iterator points to.\<close>

lemma roq_find:
  assumes "roq_inv m"
  obtains (found) i where "hm_find hash_int k m = Some (Some i)" "i \<in> set (hm_values m)" "fst (hm_entry m i) = k"
      "queue_at m i = roq_abs m k" "roq_abs m k \<noteq> []"
    | (absent) "hm_find hash_int k m = Some None" "roq_abs m k = []"
proof -
  have I: "hm_inv hash_int m" "hm_abs m k \<noteq> Some []" using assms by (simp_all add: roq_inv_def)
  from hm_find_correct [OF I(1), of k] show thesis
  proof (elim disjE bexE conjE)
    fix i assume i: "i \<in> set (hm_values m)" "fst (hm_entry m i) = k" "hm_find hash_int k m = Some (Some i)"
    then have "hm_abs m k = Some (queue_at m i)" using hm_abs_node [OF I(1) i(1)] by (simp add: queue_at_def)
    then show thesis using found [of i] i I(2) by (simp add: roq_abs_def)
  qed (use absent in \<open>simp add: roq_abs_def\<close>)
qed

lemma roq_write:
  assumes "roq_inv m" and "i \<in> set (hm_values m)" and "fst (hm_entry m i) = k" and "q \<noteq> []"
  shows "roq_inv (hm_write i q m)" and "roq_abs (hm_write i q m) = (roq_abs m)(k := q)"
proof -
  note I = assms(1) [unfolded roq_inv_def]
  have w: "hm_inv hash_int (hm_write i q m)" "hm_abs (hm_write i q m) = (hm_abs m)(k \<mapsto> q)"
    using hm_write_correct [OF _ assms(2,3)] I by auto
  have "i \<notin> set (hm_spares m)" using I assms(2) by (auto simp: hm_inv_def)
  then have "\<forall>j \<in> set (hm_spares (hm_write i q m)). queue_at (hm_write i q m) j = []"
    using I by (auto simp: hm_write_def queue_at_def)
  then show "roq_inv (hm_write i q m)" using w I assms(4) by (simp add: roq_inv_def)
  show "roq_abs (hm_write i q m) = (roq_abs m)(k := q)" by (rule ext) (simp add: roq_abs_def w(2))
qed

lemma roq_erase:
  assumes "roq_inv m" and "i \<in> set (hm_values m)" and "fst (hm_entry m i) = k"
  defines "m' \<equiv> erase_node i (hm_write i [] m)"
  shows "roq_inv m'" and "roq_abs m' = (roq_abs m)(k := [])"
    and "hm_values m' = remove1 i (hm_values m)" and "j \<noteq> i \<Longrightarrow> queue_at m' j = queue_at m j"
proof -
  note I = assms(1) [unfolded roq_inv_def]
  let ?w = "hm_write i [] m"
  have w: "hm_inv hash_int ?w" "hm_abs ?w = (hm_abs m)(k \<mapsto> [])"
    "hm_values ?w = hm_values m" "hm_spares ?w = hm_spares m" "hm_entry ?w = (hm_entry m)(i := (k, []))"
    using hm_write_correct [OF _ assms(2,3)] I assms(3) by (auto simp: hm_write_def)
  have e: "hm_inv hash_int m'" "hm_abs m' = (hm_abs ?w)(k := None)"
    using hm_erase_at_correct [OF w(1), of i k keep_queue no_entry] w assms(2) by (auto simp: m'_def erase_node_def)
  have f: "hm_values m' = remove1 i (hm_values m)" "hm_spares m' = i # hm_spares m"
    "hm_entry m' = (hm_entry m)(i := (0, []))"
    using w by (simp_all add: m'_def erase_node_def hm_erase_at_def values_erase_def Let_def keep_queue_def no_entry_def
        split: prod.split)
  show "hm_values m' = remove1 i (hm_values m)" "j \<noteq> i \<Longrightarrow> queue_at m' j = queue_at m j"
    by (simp_all add: f queue_at_def)
  have a: "hm_abs m' = (hm_abs m)(k := None)" using e(2) w(2) by simp
  have "\<forall>j \<in> set (hm_spares m'). queue_at m' j = []"
    using I unfolding f(2) by (auto simp: queue_at_def f(3))
  then show "roq_inv m'" using e(1) I by (auto simp: roq_inv_def a)
  show "roq_abs m' = (roq_abs m)(k := [])" by (rule ext) (simp add: roq_abs_def a)
qed

section \<open>The operations on the queues\<close>

lemma roq_cancel_loop_eq: "roq_cancel_loop ec q ops = ([], ops @ map (\<lambda>op. op\<lparr>op_ec := ec\<rparr>) q)"
  by (induction q arbitrary: ops) simp_all

definition finished :: "(nat \<Rightarrow> outcome) \<Rightarrow> reactor_op \<Rightarrow> bool" where
  "finished pf op \<longleftrightarrow> fst (pf (op_id op)) \<noteq> Not_done"

definition tried :: "(nat \<Rightarrow> outcome) \<Rightarrow> reactor_op list \<Rightarrow> reactor_op list" where
  "tried pf q = (case q of [] \<Rightarrow> [] | op # rest \<Rightarrow> perform (pf (op_id op)) op # rest)"

lemma roq_perform_loop_eq:
  "roq_perform_loop pf q ops =
     (\<not> list_all (finished pf) q, tried pf (dropWhile (finished pf) q),
      ops @ map (\<lambda>op. perform (pf (op_id op)) op) (takeWhile (finished pf) q))"
  by (induction q arbitrary: ops) (simp_all add: finished_def tried_def)

lemma enqueue_correct:
  assumes "roq_inv m"
  shows "\<exists>m'. enqueue_operation k op m = Some (roq_abs m k = [], m') \<and> roq_inv m'
    \<and> roq_abs m' = (roq_abs m)(k := roq_abs m k @ [op])"
proof -
  note I = assms [unfolded roq_inv_def]
  obtain i b m1 where ins: "hm_insert keep_queue hash_int (k, []) m = Some ((i, b), m1)" "hm_inv hash_int m1"
      "i \<in> set (hm_values m1)" "fst (hm_entry m1 i) = k" "b = (hm_abs m k = None)"
      "hm_abs m1 = (if b then (hm_abs m)(k \<mapsto> []) else hm_abs m)"
    using hm_insert_correct [OF _ roq_takes [OF assms], of hash_int k] I by blast
  have sp: "\<forall>j \<in> set (hm_spares m1). queue_at m1 j = []"
    using hm_insert_spares [OF _ ins(1)] I by (fastforce simp: queue_at_def)
  have q: "queue_at m1 i = roq_abs m k"
    using hm_abs_node [OF ins(2,3)] ins(4-6) by (auto simp: roq_abs_def queue_at_def split: if_splits option.splits)
  let ?m = "hm_write i (queue_at m1 i @ [op]) m1"
  have w: "hm_inv hash_int ?m" "hm_abs ?m = (hm_abs m1)(k \<mapsto> roq_abs m k @ [op])"
    using hm_write_correct [OF ins(2-4)] by (simp_all add: q)
  have "i \<notin> set (hm_spares m1)" using ins(2,3) by (auto simp: hm_inv_def)
  then have "roq_inv ?m" using w sp I ins(6) by (auto simp: roq_inv_def hm_write_def queue_at_def)
  moreover have "roq_abs ?m = (roq_abs m)(k := roq_abs m k @ [op])"
    by (rule ext) (simp add: roq_abs_def w(2) ins(6))
  moreover have "b = (roq_abs m k = [])" using I ins(5) by (auto simp: roq_abs_def split: option.splits)
  ultimately show ?thesis using ins(1) by (simp add: enqueue_operation_def)
qed

lemma cancel_correct:
  assumes "roq_inv m"
  shows "\<exists>m'. cancel_operations k ec ops m
      = Some (roq_abs m k \<noteq> [], ops @ map (\<lambda>op. op\<lparr>op_ec := ec\<rparr>) (roq_abs m k), m')
    \<and> roq_inv m' \<and> roq_abs m' = (roq_abs m)(k := [])"
  using assms
proof (cases rule: roq_find [where k = k])
  case (found i)
  then show ?thesis using roq_erase [OF assms found(2,3)]
    by (simp add: cancel_operations_def cancel_at_def roq_cancel_loop_eq)
next
  case absent
  then show ?thesis using assms by (simp add: cancel_operations_def cancel_at_def fun_upd_idem)
qed

lemma has_operation_correct: "roq_inv m \<Longrightarrow> has_operation k m = Some (roq_abs m k \<noteq> [])"
  by (cases rule: roq_find [where k = k and m = m]) (simp_all add: has_operation_def)

lemma perform_correct:
  fixes k pf
  assumes "roq_inv m"
  defines "left \<equiv> tried pf (dropWhile (finished pf) (roq_abs m k))"
  shows "\<exists>m'. perform_operations k pf ops m
      = Some (left \<noteq> [], ops @ map (\<lambda>op. perform (pf (op_id op)) op) (takeWhile (finished pf) (roq_abs m k)), m')
    \<and> roq_inv m' \<and> roq_abs m' = (roq_abs m)(k := left)"
  using assms(1)
proof (cases rule: roq_find [where k = k])
  case (found i)
  have more: "\<not> list_all (finished pf) (roq_abs m k) \<longleftrightarrow> left \<noteq> []"
    by (cases "dropWhile (finished pf) (roq_abs m k)")
      (simp_all add: left_def tried_def list_all_iff flip: dropWhile_eq_Nil_conv)
  show ?thesis
  proof (cases "left = []")
    case True
    then show ?thesis using roq_erase [OF assms(1) found(2,3)] found more
      by (simp add: perform_operations_def perform_at_def roq_perform_loop_eq left_def)
  next
    case False
    then show ?thesis using roq_write [OF assms(1) found(2,3) False] found more
      by (simp add: perform_operations_def perform_at_def roq_perform_loop_eq left_def)
  qed
next
  case absent
  then show ?thesis using assms
    by (simp add: perform_operations_def perform_at_def fun_upd_idem tried_def)
qed

lemma roq_empty_correct:
  assumes "roq_inv m"
  shows "roq_empty m \<longleftrightarrow> (\<forall>k. roq_abs m k = [])"
proof -
  have "hm_empty m \<longleftrightarrow> dom (hm_abs m) = {}" by (rule hm_empty_abs)
  also have "\<dots> \<longleftrightarrow> (\<forall>k. roq_abs m k = [])"
  proof
    assume e: "\<forall>k. roq_abs m k = []"
    have "hm_abs m k = None" for k
      using e [rule_format, of k] assms by (cases "hm_abs m k") (auto simp: roq_inv_def roq_abs_def)
    then show "dom (hm_abs m) = {}" by (auto simp: dom_def)
  qed (simp add: roq_abs_def dom_def)
  finally show ?thesis by (simp add: roq_empty_def)
qed

text \<open>Taking everything goes through the list, which is not the order of the descriptors.\<close>

lemma get_all_correct:
  assumes "roq_inv m"
  shows "\<exists>m'. get_all_from (first_node m) ops m = Some (ops @ concat (map (queue_at m) (hm_values m)), m')
    \<and> roq_inv m' \<and> hm_values m' = []"
  using assms
proof (induction "hm_values m" arbitrary: m ops)
  case Nil
  then show ?case by (subst get_all_from.simps) (simp add: first_node_def)
next
  case (Cons i rest)
  let ?m = "erase_node i (hm_write i [] m)"
  have i: "i \<in> set (hm_values m)" using Cons.hyps(2) by (metis list.set_intros(1))
  note e = roq_erase [OF Cons.prems i refl]
  have d: "distinct (i # rest)" using Cons.prems Cons.hyps(2) by (auto simp: roq_inv_def hm_inv_def)
  have v: "hm_values ?m = rest" using e(3) Cons.hyps(2) [symmetric] by simp
  have q: "map (queue_at ?m) rest = map (queue_at m) rest" using d by (auto intro: e(4))
  have n: "next_node (hm_values m) i = first_node ?m"
    using next_node_split [of i "[]" rest] by (simp add: first_node_def v Cons.hyps(2) [symmetric])
  obtain m' where "get_all_from (first_node ?m) (ops @ queue_at m i) ?m
      = Some ((ops @ queue_at m i) @ concat (map (queue_at m) rest), m')" "roq_inv m'" "hm_values m' = []"
    using Cons.hyps(1) [OF v [symmetric] e(1)] unfolding v q by blast
  moreover have "first_node m = Some i" by (simp add: first_node_def Cons.hyps(2) [symmetric])
  ultimately show ?case unfolding Cons.hyps(2) [symmetric]
    by (subst get_all_from.simps) (simp add: n)
qed

lemma values_keys:
  assumes "roq_inv m"
  defines "ks \<equiv> map (\<lambda>i. fst (hm_entry m i)) (hm_values m)"
  shows "distinct ks" and "set ks = {k. roq_abs m k \<noteq> []}" and "map (queue_at m) (hm_values m) = map (roq_abs m) ks"
proof -
  have I: "hm_inv hash_int m" "\<And>k. hm_abs m k \<noteq> Some []" using assms(1) by (simp_all add: roq_inv_def)
  show "distinct ks" using hm_invD(1,2) [OF I(1)] by (simp add: ks_def distinct_map)
  have node: "roq_abs m (fst (hm_entry m i)) = queue_at m i \<and> queue_at m i \<noteq> []" if "i \<in> set (hm_values m)" for i
    using hm_abs_node [OF I(1) that] I(2) by (metis option.simps(5) queue_at_def roq_abs_def)
  then show "map (queue_at m) (hm_values m) = map (roq_abs m) ks" by (simp add: ks_def)
  show "set ks = {k. roq_abs m k \<noteq> []}"
  proof (intro set_eqI iffI)
    fix k assume k: "k \<in> {k. roq_abs m k \<noteq> []}"
    from assms(1) show "k \<in> set ks"
      by (cases rule: roq_find [where k = k]) (use k in \<open>auto simp: ks_def\<close>)
  qed (use node in \<open>auto simp: ks_def\<close>)
qed

section \<open>Sequences of calls\<close>

datatype roq_call =
    Enqueue int reactor_op
  | Cancel int error_code
  | Has int
  | Perform int "nat \<Rightarrow> outcome"
  | Empty_call
  | Get_all

text \<open>Every call answers with a boolean (of no meaning for the last) and hands out operations.\<close>

fun roq_step :: "roq_call \<Rightarrow> op_map \<Rightarrow> ((bool \<times> reactor_op list) \<times> op_map) option" where
  "roq_step (Enqueue k op) m = map_option (\<lambda>(b, m'). ((b, []), m')) (enqueue_operation k op m)"
| "roq_step (Cancel k ec) m = map_option (\<lambda>(b, ops, m'). ((b, ops), m')) (cancel_operations k ec [] m)"
| "roq_step (Has k) m = map_option (\<lambda>b. ((b, []), m)) (has_operation k m)"
| "roq_step (Perform k pf) m = map_option (\<lambda>(b, ops, m'). ((b, ops), m')) (perform_operations k pf [] m)"
| "roq_step Empty_call m = Some ((roq_empty m, []), m)"
| "roq_step Get_all m = map_option (\<lambda>(ops, m'). ((True, ops), m')) (get_all_operations [] m)"

fun roq_run :: "roq_call list \<Rightarrow> op_map \<Rightarrow> ((bool \<times> reactor_op list) list \<times> op_map) option" where
  "roq_run [] m = Some ([], m)"
| "roq_run (c # cs) m =
     (case roq_step c m of
        None \<Rightarrow> None
      | Some (a, m') \<Rightarrow> map_option (\<lambda>(as, m''). (a # as, m'')) (roq_run cs m'))"

text \<open>The same calls on a queue for each descriptor.\<close>

type_synonym descriptor_queues = "int \<Rightarrow> reactor_op list"

fun queues_step :: "roq_call \<Rightarrow> descriptor_queues \<Rightarrow> bool \<times> reactor_op list \<Rightarrow> descriptor_queues \<Rightarrow> bool" where
  "queues_step (Enqueue k op) qs a qs' \<longleftrightarrow> a = (qs k = [], []) \<and> qs' = qs(k := qs k @ [op])"
| "queues_step (Cancel k ec) qs a qs' \<longleftrightarrow>
     a = (qs k \<noteq> [], map (\<lambda>op. op\<lparr>op_ec := ec\<rparr>) (qs k)) \<and> qs' = qs(k := [])"
| "queues_step (Has k) qs a qs' \<longleftrightarrow> a = (qs k \<noteq> [], []) \<and> qs' = qs"
| "queues_step (Perform k pf) qs a qs' \<longleftrightarrow>
     (let left = tried pf (dropWhile (finished pf) (qs k))
      in a = (left \<noteq> [], map (\<lambda>op. perform (pf (op_id op)) op) (takeWhile (finished pf) (qs k))) \<and> qs' = qs(k := left))"
| "queues_step Empty_call qs a qs' \<longleftrightarrow> a = ((\<forall>k. qs k = []), []) \<and> qs' = qs"
| "queues_step Get_all qs a qs' \<longleftrightarrow>
     (\<exists>ks. distinct ks \<and> set ks = {k. qs k \<noteq> []} \<and> a = (True, concat (map qs ks))) \<and> qs' = (\<lambda>_. [])"

fun queues_run :: "roq_call list \<Rightarrow> descriptor_queues \<Rightarrow> (bool \<times> reactor_op list) list \<Rightarrow> descriptor_queues \<Rightarrow> bool" where
  "queues_run [] qs as qs' \<longleftrightarrow> as = [] \<and> qs' = qs"
| "queues_run (c # cs) qs as qs' \<longleftrightarrow>
     (case as of [] \<Rightarrow> False | a # as' \<Rightarrow> \<exists>qs1. queues_step c qs a qs1 \<and> queues_run cs qs1 as' qs')"

lemma roq_step_correct:
  assumes "roq_inv m"
  shows "\<exists>a m'. roq_step c m = Some (a, m') \<and> roq_inv m' \<and> queues_step c (roq_abs m) a (roq_abs m')"
proof (cases c)
  case (Enqueue k op)
  then show ?thesis using enqueue_correct [OF assms, of k op] by auto
next
  case (Cancel k ec)
  then show ?thesis using cancel_correct [OF assms, of k ec "[]"] by auto
next
  case (Has k)
  then show ?thesis using has_operation_correct [OF assms] assms by simp
next
  case (Perform k pf)
  then show ?thesis using perform_correct [OF assms, of k pf "[]"] by (auto simp: Let_def)
next
  case Empty_call
  then show ?thesis using roq_empty_correct [OF assms] assms by simp
next
  case Get_all
  obtain m' where g: "get_all_from (first_node m) [] m = Some (concat (map (queue_at m) (hm_values m)), m')"
      "roq_inv m'" "hm_values m' = []"
    using get_all_correct [OF assms, of "[]"] by auto
  have "roq_abs m' = (\<lambda>_. [])" using g(3) by (auto simp: roq_abs_def hm_abs_def)
  then show ?thesis using Get_all g values_keys [OF assms] by (auto simp: get_all_operations_def)
qed

lemma roq_run_correct:
  "roq_inv m \<Longrightarrow> \<exists>as m'. roq_run cs m = Some (as, m') \<and> roq_inv m' \<and> queues_run cs (roq_abs m) as (roq_abs m')"
proof (induction cs arbitrary: m)
  case (Cons c cs)
  obtain a m1 where s: "roq_step c m = Some (a, m1)" "roq_inv m1" "queues_step c (roq_abs m) a (roq_abs m1)"
    using roq_step_correct [OF Cons.prems] by blast
  obtain as m' where "roq_run cs m1 = Some (as, m')" "roq_inv m'" "queues_run cs (roq_abs m1) as (roq_abs m')"
    using Cons.IH [OF s(2)] by blast
  then show ?case using s by auto
qed auto

text \<open>
  C20. Whatever is called on a new queue of operations for descriptors, no call fails, and all answers and
  operations handed out are those of a separate first-in first-out queue for each descriptor: an operation that
  is the first of its descriptor is reported as such, cancelling gives all of the descriptor in
  order with the error, performing gives those up to the first that is not done, which
  stays, and taking everything gives every queue once. That the queues in the map are not
  assigned when a node is recycled changes nothing.
\<close>

theorem operations_wait_per_descriptor:
  "\<exists>answers m'. roq_run cs roq_new = Some (answers, m') \<and> queues_run cs (\<lambda>_. []) answers (roq_abs m')"
  using roq_run_correct [OF roq_new_inv, of cs] unfolding roq_new_abs by blast

end
