(* ===== verification/Asio_Signal_Set.thy ===== *)
theory Asio_Signal_Set
  imports Linked_List
begin

text \<open>
  \<open>detail/signal_set_service.hpp\<close> and \<open>detail/impl/signal_set_service.ipp\<close>: sets of signals to
  wait for. A registration of a signal in a set is in two linked lists, that of its set, in the
  order of the signals, and the doubly linked one of all registrations of the signal with the
  same service; its fields are functions from its address, as those of the operations are in
  \<open>Asio_Op_Queue\<close>. The state is global to the process and every function here is a region under
  its mutex, but one: the reactor's read of the pipe takes the mutex once for each signal it
  delivers, and is one step here, so a call of another thread between two signals of one read is
  not among the runs. Services that come and go, and forks, are left out.
  Shown here: any calls on any sets, with signals arriving in between, behave as a table that says
  for each set which signals it holds and how often each came with nobody waiting; no list is left
  inconsistent, no loop runs forever, and the process handles exactly the signals that are in a set.
\<close>

section \<open>The state\<close>

definition max_signal_number :: int where
  "max_signal_number = 65"

record signal_op =
  so_id :: nat
  so_ec :: error_code
  so_number :: int

text \<open>
  \<open>set_signals\<close> and \<open>set_queue\<close> are the two members of \<open>implementation_type\<close>, by the address of the
  set; \<open>reg_queue\<close> points to the queue of the set a registration is for. \<open>handled\<close> are the signals
  whose handler is that of asio, \<open>pipe\<close> what has been written to the pipe and not read.
\<close>

record signal_world =
  signal_number :: "nat \<Rightarrow> int"
  reg_queue :: "nat \<Rightarrow> nat"
  undelivered :: "nat \<Rightarrow> nat"
  next_in_table :: "nat \<Rightarrow> nat option"
  prev_in_table :: "nat \<Rightarrow> nat option"
  next_in_set :: "nat \<Rightarrow> nat option"
  next_address :: nat
  set_signals :: "nat \<Rightarrow> nat option"
  set_queue :: "nat \<Rightarrow> signal_op list"
  registrations :: "nat \<Rightarrow> int \<Rightarrow> nat option"
  registration_count :: "int \<Rightarrow> nat"
  service_list :: "nat list"
  handled :: "int set"
  pipe :: "int list"

text \<open>An operation given to the scheduler of a service.\<close>

type_synonym signal_post = "nat \<times> signal_op"

section \<open>Adding and removing signals\<close>

text \<open>
  The search for a signal in a set: the registration whose \<open>next_in_set_\<close> points to the place
  (\<open>None\<close> for the head of the list), and what is there.
\<close>

partial_function (option) find_place ::
  "signal_world \<Rightarrow> int \<Rightarrow> nat option \<Rightarrow> nat option \<Rightarrow> (nat option \<times> nat option) option" where
  "find_place w n point next =
     (case next of
        None \<Rightarrow> Some (point, next)
      | Some r \<Rightarrow> if signal_number w r < n then find_place w n (Some r) (next_in_set w r) else Some (point, next))"

text \<open>Writing through the pointer to a pointer.\<close>

definition write_place :: "nat \<Rightarrow> nat option \<Rightarrow> nat option \<Rightarrow> signal_world \<Rightarrow> signal_world" where
  "write_place impl point p w =
     (case point of
        None \<Rightarrow> w\<lparr>set_signals := (set_signals w)(impl := p)\<rparr>
      | Some r \<Rightarrow> w\<lparr>next_in_set := (next_in_set w)(r := p)\<rparr>)"

definition new_registration :: "signal_world \<Rightarrow> nat \<times> signal_world" where
  "new_registration w =
     (let r = next_address w
      in (r, w\<lparr>next_address := r + 1, signal_number := (signal_number w)(r := 0), undelivered := (undelivered w)(r := 0),
            next_in_table := (next_in_table w)(r := None), prev_in_table := (prev_in_table w)(r := None),
            next_in_set := (next_in_set w)(r := None)\<rparr>))"

text \<open>Into the table: in front of the registrations of the signal.\<close>

definition link_in_table :: "nat \<Rightarrow> int \<Rightarrow> nat \<Rightarrow> signal_world \<Rightarrow> signal_world" where
  "link_in_table srv n r w =
     (let w1 = w\<lparr>next_in_table := (next_in_table w)(r := registrations w srv n)\<rparr>;
          w2 = (case registrations w1 srv n of
                  None \<Rightarrow> w1
                | Some x \<Rightarrow> w1\<lparr>prev_in_table := (prev_in_table w1)(x := Some r)\<rparr>)
      in w2\<lparr>registrations := (registrations w2)(srv := (registrations w2 srv)(n := Some r))\<rparr>)"

text \<open>\<open>os\<close> is what \<open>sigaction\<close> would answer, if called; \<open>srv\<close> is the service of the set.\<close>

definition add_signal ::
  "nat \<Rightarrow> nat \<Rightarrow> int \<Rightarrow> error_code \<Rightarrow> signal_world \<Rightarrow> (error_code \<times> signal_world) option" where
  "add_signal srv impl n os w =
     (if n < 0 \<or> n \<ge> max_signal_number then Some (Invalid_argument, w)
      else
        (case find_place w n None (set_signals w impl) of
           None \<Rightarrow> None
         | Some (insertion_point, next) \<Rightarrow>
             Some
              (if next = None \<or> signal_number w (the next) \<noteq> n then
                 (if registration_count w n = 0 \<and> os \<noteq> Success then (os, w)
                  else
                    (case new_registration (if registration_count w n = 0 then w\<lparr>handled := insert n (handled w)\<rparr> else w) of
                       (r, w1) \<Rightarrow>
                         (let w2 = w1\<lparr>signal_number := (signal_number w1)(r := n), reg_queue := (reg_queue w1)(r := impl),
                                next_in_set := (next_in_set w1)(r := next)\<rparr>;
                              w3 = link_in_table srv n r (write_place impl insertion_point (Some r) w2)
                          in (Success, w3\<lparr>registration_count := (registration_count w3)(n := registration_count w3 n + 1)\<rparr>))))
               else (Success, w))))"

text \<open>Out of the table, as \<open>remove\<close> and \<open>clear\<close> do it.\<close>

definition unlink_from_table :: "nat \<Rightarrow> int \<Rightarrow> nat \<Rightarrow> signal_world \<Rightarrow> signal_world" where
  "unlink_from_table srv n r w =
     (let w1 = (if registrations w srv n = Some r
                then w\<lparr>registrations := (registrations w)(srv := (registrations w srv)(n := next_in_table w r))\<rparr> else w);
          w2 = (case prev_in_table w1 r of
                  None \<Rightarrow> w1
                | Some p \<Rightarrow> w1\<lparr>next_in_table := (next_in_table w1)(p := next_in_table w1 r)\<rparr>);
          w3 = (case next_in_table w2 r of
                  None \<Rightarrow> w2
                | Some x \<Rightarrow> w2\<lparr>prev_in_table := (prev_in_table w2)(x := prev_in_table w2 r)\<rparr>)
      in w3\<lparr>registration_count := (registration_count w3)(n := registration_count w3 n - 1)\<rparr>)"

text \<open>Back to the default when the last registration of the signal goes.\<close>

definition restore_default :: "int \<Rightarrow> signal_world \<Rightarrow> signal_world" where
  "restore_default n w = (if registration_count w n = 1 then w\<lparr>handled := handled w - {n}\<rparr> else w)"

definition remove_signal ::
  "nat \<Rightarrow> nat \<Rightarrow> int \<Rightarrow> error_code \<Rightarrow> signal_world \<Rightarrow> (error_code \<times> signal_world) option" where
  "remove_signal srv impl n os w =
     (if n < 0 \<or> n \<ge> max_signal_number then Some (Invalid_argument, w)
      else
        (case find_place w n None (set_signals w impl) of
           None \<Rightarrow> None
         | Some (deletion_point, reg) \<Rightarrow>
             Some
              (case reg of
                 None \<Rightarrow> (Success, w)
               | Some r \<Rightarrow>
                   (if signal_number w r = n then
                      (if registration_count w n = 1 \<and> os \<noteq> Success then (os, w)
                       else
                         (Success, unlink_from_table srv n r
                           (write_place impl deletion_point (next_in_set w r) (restore_default n w))))
                    else (Success, w)))))"

partial_function (option) clear_signals ::
  "nat \<Rightarrow> nat \<Rightarrow> (int \<Rightarrow> error_code) \<Rightarrow> signal_world \<Rightarrow> (error_code \<times> signal_world) option" where
  "clear_signals srv impl os w =
     (case set_signals w impl of
        None \<Rightarrow> Some (Success, w)
      | Some r \<Rightarrow>
          (let n = signal_number w r
           in if registration_count w n = 1 \<and> os n \<noteq> Success then Some (os n, w)
              else
                (let w1 = unlink_from_table srv n r (restore_default n w)
                 in clear_signals srv impl os (w1\<lparr>set_signals := (set_signals w1)(impl := next_in_set w1 r)\<rparr>))))"

section \<open>Waiting and delivering\<close>

definition cancel_waits :: "nat \<Rightarrow> nat \<Rightarrow> signal_world \<Rightarrow> signal_post list \<times> signal_world" where
  "cancel_waits srv impl w =
     (map (\<lambda>op. (srv, op\<lparr>so_ec := Operation_aborted\<rparr>)) (set_queue w impl), w\<lparr>set_queue := (set_queue w)(impl := [])\<rparr>)"

text \<open>The first registration with a signal that nobody waited for.\<close>

partial_function (option) find_undelivered :: "signal_world \<Rightarrow> nat option \<Rightarrow> nat option option" where
  "find_undelivered w reg =
     (case reg of
        None \<Rightarrow> Some None
      | Some r \<Rightarrow> if undelivered w r > 0 then Some (Some r) else find_undelivered w (next_in_set w r))"

definition start_wait_op ::
  "nat \<Rightarrow> nat \<Rightarrow> signal_op \<Rightarrow> signal_world \<Rightarrow> (signal_post list \<times> signal_world) option" where
  "start_wait_op srv impl op w =
     (case find_undelivered w (set_signals w impl) of
        None \<Rightarrow> None
      | Some (Some r) \<Rightarrow>
          Some ([(srv, op\<lparr>so_number := signal_number w r\<rparr>)], w\<lparr>undelivered := (undelivered w)(r := undelivered w r - 1)\<rparr>)
      | Some None \<Rightarrow> Some ([], w\<lparr>set_queue := (set_queue w)(impl := set_queue w impl @ [op])\<rparr>))"

definition deliver_to :: "int \<Rightarrow> nat \<Rightarrow> nat \<Rightarrow> signal_world \<Rightarrow> signal_post list \<times> signal_world" where
  "deliver_to n srv r w =
     (let q = reg_queue w r
      in if set_queue w q = [] then ([], w\<lparr>undelivered := (undelivered w)(r := undelivered w r + 1)\<rparr>)
         else (map (\<lambda>op. (srv, op\<lparr>so_number := n\<rparr>)) (set_queue w q), w\<lparr>set_queue := (set_queue w)(q := [])\<rparr>))"

partial_function (option) deliver_loop ::
  "int \<Rightarrow> nat \<Rightarrow> nat option \<Rightarrow> signal_post list \<Rightarrow> signal_world \<Rightarrow> (signal_post list \<times> signal_world) option" where
  "deliver_loop n srv reg ops w =
     (case reg of
        None \<Rightarrow> Some (ops, w)
      | Some r \<Rightarrow>
          (case deliver_to n srv r w of
             (ops', w1) \<Rightarrow> deliver_loop n srv (next_in_table w1 r) (ops @ ops') w1))"

fun deliver_services ::
  "int \<Rightarrow> nat list \<Rightarrow> signal_world \<Rightarrow> (signal_post list \<times> signal_world) option" where
  "deliver_services n [] w = Some ([], w)"
| "deliver_services n (srv # srvs) w =
     (case deliver_loop n srv (registrations w srv n) [] w of
        None \<Rightarrow> None
      | Some (ops, w1) \<Rightarrow> map_option (\<lambda>(ops', w2). (ops @ ops', w2)) (deliver_services n srvs w1))"

definition deliver_signal :: "int \<Rightarrow> signal_world \<Rightarrow> (signal_post list \<times> signal_world) option" where
  "deliver_signal n w = deliver_services n (service_list w) w"

text \<open>
  The handler writes the number to the pipe, unless the pipe is full; the reactor of any
  service, when the pipe is readable, reads numbers until there is none.
\<close>

definition asio_signal_handler :: "bool \<Rightarrow> int \<Rightarrow> signal_world \<Rightarrow> signal_world" where
  "asio_signal_handler full n w = (if full then w else w\<lparr>pipe := pipe w @ [n]\<rparr>)"

fun pipe_read_loop :: "int list \<Rightarrow> signal_world \<Rightarrow> (signal_post list \<times> signal_world) option" where
  "pipe_read_loop [] w = Some ([], w)"
| "pipe_read_loop (n # ns) w =
     (case (if n \<ge> 0 \<and> n < max_signal_number then deliver_signal n w else Some ([], w)) of
        None \<Rightarrow> None
      | Some (ops, w1) \<Rightarrow> map_option (\<lambda>(ops', w2). (ops @ ops', w2)) (pipe_read_loop ns w1))"

text \<open>The reactor's read of the pipe, all of it in one step; the code locks for each signal.\<close>

definition pipe_do_perform :: "signal_world \<Rightarrow> (signal_post list \<times> signal_world) option" where
  "pipe_do_perform w = pipe_read_loop (pipe w) (w\<lparr>pipe := []\<rparr>)"

definition destroy_set ::
  "nat \<Rightarrow> nat \<Rightarrow> (int \<Rightarrow> error_code) \<Rightarrow> signal_world \<Rightarrow> (signal_post list \<times> signal_world) option" where
  "destroy_set srv impl os w =
     (case clear_signals srv impl os w of None \<Rightarrow> None | Some (_, w1) \<Rightarrow> Some (cancel_waits srv impl w1))"

section \<open>The contract\<close>

text \<open>
  What a set of signals promises: a table with the signals of each set and how often each has
  come with nobody waiting, and who waits for each set.
\<close>

record signal_table =
  counts :: "nat \<Rightarrow> int \<Rightarrow> nat option"
  waits :: "nat \<Rightarrow> signal_op list"
  arrived :: "int list"

definition holds :: "signal_table \<Rightarrow> nat \<Rightarrow> int \<Rightarrow> bool" where
  "holds a s n \<longleftrightarrow> counts a s n \<noteq> None"

definition set_count :: "nat \<Rightarrow> int \<Rightarrow> nat option \<Rightarrow> signal_table \<Rightarrow> signal_table" where
  "set_count s n c a = a\<lparr>counts := (counts a)(s := (counts a s)(n := c))\<rparr>"

definition valid_number :: "int \<Rightarrow> bool" where
  "valid_number n \<longleftrightarrow> 0 \<le> n \<and> n < max_signal_number"

datatype signal_call =
    Add nat int error_code
  | Remove nat int error_code
  | Clear_set nat "int \<Rightarrow> error_code"
  | Cancel_set nat
  | Wait nat signal_op
  | Arrive int bool
  | Read_pipe

type_synonym signal_answer = "error_code \<times> signal_post list"

text \<open>Only removing the last registration asks the system, and can fail.\<close>

definition may_remove :: "nat \<Rightarrow> int \<Rightarrow> error_code \<Rightarrow> signal_table \<Rightarrow> bool" where
  "may_remove s n os a \<longleftrightarrow> os = Success \<or> (\<exists>s'. s' \<noteq> s \<and> holds a s' n)"

fun clear_table :: "nat \<Rightarrow> (int \<Rightarrow> error_code) \<Rightarrow> int list \<Rightarrow> signal_table \<Rightarrow> error_code \<times> signal_table" where
  "clear_table s os [] a = (Success, a)"
| "clear_table s os (n # ns) a =
     (if may_remove s n (os n) a then clear_table s os ns (set_count s n None a) else (os n, a))"

text \<open>
  A signal that has arrived is for all sets of the services that hold it: whoever waits gets it, and where
  nobody waits it is counted.
\<close>

definition delivered :: "int \<Rightarrow> nat set \<Rightarrow> signal_table \<Rightarrow> signal_table" where
  "delivered n S a = a\<lparr>
     counts := (\<lambda>s. if s \<in> S \<and> waits a s = [] then (counts a s)(n := map_option Suc (counts a s n)) else counts a s),
     waits := (\<lambda>s. if s \<in> S then [] else waits a s)\<rparr>"

definition delivery :: "(nat \<Rightarrow> nat) \<Rightarrow> nat list \<Rightarrow> int \<Rightarrow> signal_table \<Rightarrow> signal_post list \<Rightarrow> signal_table \<Rightarrow> bool" where
  "delivery srv_of srvs n a ops a' \<longleftrightarrow>
     (\<exists>ss. distinct ss \<and> set ss = {s. holds a s n \<and> srv_of s \<in> set srvs} \<and>
        ops = concat (map (\<lambda>s. map (\<lambda>op. (srv_of s, op\<lparr>so_number := n\<rparr>)) (waits a s)) ss) \<and>
        a' = delivered n (set ss) a)"

fun deliveries ::
  "(nat \<Rightarrow> nat) \<Rightarrow> nat list \<Rightarrow> int list \<Rightarrow> signal_table \<Rightarrow> signal_post list \<Rightarrow> signal_table \<Rightarrow> bool" where
  "deliveries srv_of srvs [] a ops a' \<longleftrightarrow> ops = [] \<and> a' = a"
| "deliveries srv_of srvs (n # ns) a ops a' \<longleftrightarrow>
     (\<exists>ops1 ops2 a1. ops = ops1 @ ops2 \<and>
        (if valid_number n then delivery srv_of srvs n a ops1 a1 else ops1 = [] \<and> a1 = a) \<and>
        deliveries srv_of srvs ns a1 ops2 a')"

fun table_step ::
  "(nat \<Rightarrow> nat) \<Rightarrow> nat list \<Rightarrow> signal_call \<Rightarrow> signal_table \<Rightarrow> signal_answer \<Rightarrow> signal_table \<Rightarrow> bool" where
  "table_step srv_of srvs (Add s n os) a ans a' \<longleftrightarrow>
     (if \<not> valid_number n then ans = (Invalid_argument, []) \<and> a' = a
      else if holds a s n then ans = (Success, []) \<and> a' = a
      else if os = Success \<or> (\<exists>s'. holds a s' n) then ans = (Success, []) \<and> a' = set_count s n (Some 0) a
      else ans = (os, []) \<and> a' = a)"
| "table_step srv_of srvs (Remove s n os) a ans a' \<longleftrightarrow>
     (if \<not> valid_number n then ans = (Invalid_argument, []) \<and> a' = a
      else if \<not> holds a s n then ans = (Success, []) \<and> a' = a
      else if may_remove s n os a then ans = (Success, []) \<and> a' = set_count s n None a
      else ans = (os, []) \<and> a' = a)"
| "table_step srv_of srvs (Clear_set s os) a ans a' \<longleftrightarrow>
     (\<exists>ec. clear_table s os (sorted_list_of_set {n. holds a s n}) a = (ec, a') \<and> ans = (ec, []))"
| "table_step srv_of srvs (Cancel_set s) a ans a' \<longleftrightarrow>
     ans = (Success, map (\<lambda>op. (srv_of s, op\<lparr>so_ec := Operation_aborted\<rparr>)) (waits a s)) \<and>
     a' = a\<lparr>waits := (waits a)(s := [])\<rparr>"
| "table_step srv_of srvs (Wait s op) a ans a' \<longleftrightarrow>
     (if \<exists>n c. counts a s n = Some (Suc c) then
        (\<exists>n c. counts a s n = Some (Suc c) \<and> (\<forall>n' < n. \<forall>c. counts a s n' \<noteq> Some (Suc c)) \<and>
           ans = (Success, [(srv_of s, op\<lparr>so_number := n\<rparr>)]) \<and> a' = set_count s n (Some c) a)
      else ans = (Success, []) \<and> a' = a\<lparr>waits := (waits a)(s := waits a s @ [op])\<rparr>)"
| "table_step srv_of srvs (Arrive n full) a ans a' \<longleftrightarrow>
     ans = (Success, []) \<and> a' = (if (\<exists>s. holds a s n) \<and> \<not> full then a\<lparr>arrived := arrived a @ [n]\<rparr> else a)"
| "table_step srv_of srvs Read_pipe a ans a' \<longleftrightarrow>
     (\<exists>ops. deliveries srv_of srvs (arrived a) (a\<lparr>arrived := []\<rparr>) ops a' \<and> ans = (Success, ops))"

fun table_run ::
  "(nat \<Rightarrow> nat) \<Rightarrow> nat list \<Rightarrow> signal_call list \<Rightarrow> signal_table \<Rightarrow> signal_answer list \<Rightarrow> signal_table \<Rightarrow> bool" where
  "table_run srv_of srvs [] a as a' \<longleftrightarrow> as = [] \<and> a' = a"
| "table_run srv_of srvs (c # cs) a as a' \<longleftrightarrow>
     (case as of [] \<Rightarrow> False
      | ans # as' \<Rightarrow> \<exists>a1. table_step srv_of srvs c a ans a1 \<and> table_run srv_of srvs cs a1 as' a')"

text \<open>The calls on the service. A signal that is not handled by asio does not reach it.\<close>

fun signal_step ::
  "(nat \<Rightarrow> nat) \<Rightarrow> signal_call \<Rightarrow> signal_world \<Rightarrow> (signal_answer \<times> signal_world) option" where
  "signal_step srv_of (Add s n os) w = map_option (\<lambda>(ec, w'). ((ec, []), w')) (add_signal (srv_of s) s n os w)"
| "signal_step srv_of (Remove s n os) w = map_option (\<lambda>(ec, w'). ((ec, []), w')) (remove_signal (srv_of s) s n os w)"
| "signal_step srv_of (Clear_set s os) w = map_option (\<lambda>(ec, w'). ((ec, []), w')) (clear_signals (srv_of s) s os w)"
| "signal_step srv_of (Cancel_set s) w = (case cancel_waits (srv_of s) s w of (ops, w') \<Rightarrow> Some ((Success, ops), w'))"
| "signal_step srv_of (Wait s op) w = map_option (\<lambda>(ops, w'). ((Success, ops), w')) (start_wait_op (srv_of s) s op w)"
| "signal_step srv_of (Arrive n full) w =
     Some ((Success, []), if n \<in> handled w then asio_signal_handler full n w else w)"
| "signal_step srv_of Read_pipe w = map_option (\<lambda>(ops, w'). ((Success, ops), w')) (pipe_do_perform w)"

fun signal_run ::
  "(nat \<Rightarrow> nat) \<Rightarrow> signal_call list \<Rightarrow> signal_world \<Rightarrow> (signal_answer list \<times> signal_world) option" where
  "signal_run srv_of [] w = Some ([], w)"
| "signal_run srv_of (c # cs) w =
     (case signal_step srv_of c w of
        None \<Rightarrow> None
      | Some (a, w1) \<Rightarrow> map_option (\<lambda>(as, w2). (a # as, w2)) (signal_run srv_of cs w1))"

definition no_signals :: "nat list \<Rightarrow> signal_world" where
  "no_signals srvs = \<lparr>signal_number = (\<lambda>_. 0), reg_queue = (\<lambda>_. 0), undelivered = (\<lambda>_. 0),
     next_in_table = (\<lambda>_. None), prev_in_table = (\<lambda>_. None), next_in_set = (\<lambda>_. None), next_address = 0,
     set_signals = (\<lambda>_. None), set_queue = (\<lambda>_. []), registrations = (\<lambda>_ _. None), registration_count = (\<lambda>_. 0),
     service_list = srvs, handled = {}, pipe = []\<rparr>"

definition empty_table :: signal_table where
  "empty_table = \<lparr>counts = (\<lambda>_ _. None), waits = (\<lambda>_. []), arrived = []\<rparr>"

section \<open>Lists of registrations\<close>

text \<open>
  \<open>L s\<close> are the registrations of a set, \<open>T k n\<close> those of a signal in the table of a service.
\<close>

type_synonym set_lists = "nat \<Rightarrow> nat list"
type_synonym table_lists = "nat \<Rightarrow> int \<Rightarrow> nat list"

definition sets_ok :: "set_lists \<Rightarrow> signal_world \<Rightarrow> bool" where
  "sets_ok L w \<longleftrightarrow> (\<forall>s. chain (next_in_set w) (set_signals w s) (L s) \<and> sorted_wrt (<) (map (signal_number w) (L s))
     \<and> (\<forall>r \<in> set (L s). reg_queue w r = s \<and> r < next_address w \<and> valid_number (signal_number w r)))"

definition tables_ok :: "(nat \<Rightarrow> nat) \<Rightarrow> set_lists \<Rightarrow> table_lists \<Rightarrow> signal_world \<Rightarrow> bool" where
  "tables_ok srv_of L T w \<longleftrightarrow> (\<forall>k n. distinct (T k n) \<and> registrations w k n = head_or (T k n) None
     \<and> doubly (next_in_table w) (prev_in_table w) None (T k n) None
     \<and> (\<forall>r. r \<in> set (T k n) \<longleftrightarrow> (\<exists>s. r \<in> set (L s) \<and> srv_of s = k \<and> signal_number w r = n)))"

definition regs_of :: "set_lists \<Rightarrow> signal_world \<Rightarrow> nat \<Rightarrow> int \<Rightarrow> nat option" where
  "regs_of L w s = map_of (map (\<lambda>r. (signal_number w r, undelivered w r)) (L s))"

definition holders :: "signal_table \<Rightarrow> int \<Rightarrow> nat set" where
  "holders a n = {s. holds a s n}"

definition counts_ok :: "signal_table \<Rightarrow> signal_world \<Rightarrow> bool" where
  "counts_ok a w \<longleftrightarrow> (\<forall>n. finite (holders a n) \<and> registration_count w n = card (holders a n)
     \<and> (n \<in> handled w \<longleftrightarrow> holders a n \<noteq> {}))"

definition sim_at ::
  "(nat \<Rightarrow> nat) \<Rightarrow> nat list \<Rightarrow> set_lists \<Rightarrow> table_lists \<Rightarrow> signal_world \<Rightarrow> signal_table \<Rightarrow> bool" where
  "sim_at srv_of srvs L T w a \<longleftrightarrow> sets_ok L w \<and> tables_ok srv_of L T w \<and> counts_ok a w \<and> counts a = regs_of L w
     \<and> waits a = set_queue w \<and> arrived a = pipe w \<and> service_list w = srvs"

definition signal_sim :: "(nat \<Rightarrow> nat) \<Rightarrow> nat list \<Rightarrow> signal_world \<Rightarrow> signal_table \<Rightarrow> bool" where
  "signal_sim srv_of srvs w a \<longleftrightarrow> (\<exists>L T. sim_at srv_of srvs L T w a)"

lemma sim_atD:
  assumes "sim_at srv_of srvs L T w a"
  shows "sets_ok L w" and "tables_ok srv_of L T w" and "counts_ok a w" and "counts a = regs_of L w"
    and "waits a = set_queue w" and "arrived a = pipe w" and "service_list w = srvs"
  using assms by (simp_all add: sim_at_def)

lemma sets_okD:
  assumes "sets_ok L w"
  shows "chain (next_in_set w) (set_signals w s) (L s)" and "sorted_wrt (<) (map (signal_number w) (L s))"
    and "r \<in> set (L s) \<Longrightarrow> reg_queue w r = s" and "r \<in> set (L s) \<Longrightarrow> r < next_address w"
    and "r \<in> set (L s) \<Longrightarrow> valid_number (signal_number w r)"
  using assms by (simp_all add: sets_ok_def)

lemma sets_ok_distinct: "sets_ok L w \<Longrightarrow> distinct (L s)"
  using sets_okD(2) [of L w s] strict_sorted_iff [of "map (signal_number w) (L s)"] distinct_map by auto

lemma holds_iff: "counts a = regs_of L w \<Longrightarrow> holds a s n \<longleftrightarrow> (\<exists>r \<in> set (L s). signal_number w r = n)"
  by (auto simp: holds_def regs_of_def map_of_eq_None_iff image_image)

text \<open>The search in an ordered set.\<close>

lemma find_place_result:
  "chain (next_in_set w) p xs \<Longrightarrow> find_place w n pt p =
     Some (last_or (takeWhile (\<lambda>r. signal_number w r < n) xs) pt, head_or (dropWhile (\<lambda>r. signal_number w r < n) xs) None)"
proof (induction xs arbitrary: p pt)
  case (Cons r xs)
  then show ?case by (subst find_place.simps) simp
qed (subst find_place.simps, simp)

lemma ordered_split:
  fixes f :: "'a \<Rightarrow> int" and n :: int
  assumes "sorted_wrt (<) (map f xs)"
  defines "us \<equiv> takeWhile (\<lambda>r. f r < n) xs"
  obtains (found) r vs where "xs = us @ r # vs" "dropWhile (\<lambda>r. f r < n) xs = r # vs" "f r = n"
      "\<forall>u \<in> set us. f u < n" "\<forall>v \<in> set vs. n < f v"
    | (absent) vs where "xs = us @ vs" "dropWhile (\<lambda>r. f r < n) xs = vs" "\<forall>u \<in> set us. f u < n" "\<forall>v \<in> set vs. n < f v"
proof -
  have us: "\<forall>u \<in> set us. f u < n" by (auto simp: us_def dest: set_takeWhileD)
  show thesis
  proof (cases "dropWhile (\<lambda>r. f r < n) xs")
    case Nil
    then have "us = xs" using takeWhile_dropWhile_id [of "\<lambda>r. f r < n" xs] by (simp add: us_def)
    then show thesis using absent [of "[]"] us Nil by simp
  next
    case (Cons r vs)
    then have xs: "us @ r # vs = xs" using takeWhile_dropWhile_id [of "\<lambda>r. f r < n" xs] by (simp add: us_def)
    have r: "\<not> f r < n" using hd_dropWhile [of "\<lambda>r. f r < n" xs] Cons by simp
    have "sorted_wrt (<) (map f (us @ r # vs))" using assms(1) by (simp only: xs)
    then have vs: "\<forall>v \<in> set vs. f r < f v" by (auto simp: sorted_wrt_append)
    show thesis
    proof (cases "f r = n")
      case True
      then show thesis using found [OF xs [symmetric] Cons] us vs by blast
    next
      case False
      then have "\<forall>v \<in> set (r # vs). n < f v" using r vs by fastforce
      then show thesis using absent [OF xs [symmetric] Cons] us by blast
    qed
  qed
qed

text \<open>Maps and ordered lists.\<close>

lemma map_of_middle: "k \<notin> fst ` set us \<Longrightarrow> map_of (us @ (k, v) # vs) = (map_of (us @ vs))(k \<mapsto> v)"
  by (induction us) (auto simp: fun_upd_twist)

lemma map_of_without:
  "k \<notin> fst ` set us \<Longrightarrow> k \<notin> fst ` set vs \<Longrightarrow> map_of (us @ vs) = (map_of (us @ (k, v) # vs))(k := None)"
  by (rule ext) (auto simp: map_of_middle map_of_eq_None_iff simp del: map_of_append)

section \<open>Changing the lists\<close>

lemma write_place_fields [simp]:
  "signal_number (write_place s pt p w) = signal_number w" "reg_queue (write_place s pt p w) = reg_queue w"
  "undelivered (write_place s pt p w) = undelivered w" "next_in_table (write_place s pt p w) = next_in_table w"
  "prev_in_table (write_place s pt p w) = prev_in_table w" "next_address (write_place s pt p w) = next_address w"
  "set_queue (write_place s pt p w) = set_queue w" "registrations (write_place s pt p w) = registrations w"
  "registration_count (write_place s pt p w) = registration_count w" "service_list (write_place s pt p w) = service_list w"
  "handled (write_place s pt p w) = handled w" "pipe (write_place s pt p w) = pipe w"
  by (simp_all add: write_place_def split: option.split)

text \<open>Writing behind the first registrations of a set replaces the rest of the set, and nothing else.\<close>

lemma write_place_chain:
  assumes "chain (next_in_set w) (set_signals w s) (us @ xs)" and "distinct us" and "set us \<inter> set ys = {}"
    and "chain (next_in_set w) q ys"
  defines "w' \<equiv> write_place s (last_or us None) q w"
  shows "chain (next_in_set w') (set_signals w' s) (us @ ys)"
    and "s' \<noteq> s \<Longrightarrow> set us \<inter> set zs = {} \<Longrightarrow> chain (next_in_set w) (set_signals w s') zs \<Longrightarrow>
      chain (next_in_set w') (set_signals w' s') zs"
proof -
  show "chain (next_in_set w') (set_signals w' s) (us @ ys)"
  proof (cases us rule: rev_cases)
    case (snoc us0 z)
    then show ?thesis using chain_replace [of us0 z ys "next_in_set w" _ xs q] assms
      by (simp add: w'_def write_place_def)
  qed (use assms in \<open>simp add: w'_def write_place_def\<close>)
  assume "s' \<noteq> s" "set us \<inter> set zs = {}" "chain (next_in_set w) (set_signals w s') zs"
  then show "chain (next_in_set w') (set_signals w' s') zs"
    by (cases us rule: rev_cases) (auto simp: w'_def write_place_def)
qed

lemma link_in_table_fields [simp]:
  "signal_number (link_in_table k n r w) = signal_number w" "reg_queue (link_in_table k n r w) = reg_queue w"
  "undelivered (link_in_table k n r w) = undelivered w" "next_address (link_in_table k n r w) = next_address w"
  "set_queue (link_in_table k n r w) = set_queue w" "registration_count (link_in_table k n r w) = registration_count w"
  "service_list (link_in_table k n r w) = service_list w" "handled (link_in_table k n r w) = handled w"
  "pipe (link_in_table k n r w) = pipe w" "next_in_set (link_in_table k n r w) = next_in_set w"
  "set_signals (link_in_table k n r w) = set_signals w"
  "next_in_table (link_in_table k n r w) = (next_in_table w)(r := registrations w k n)"
  "prev_in_table (link_in_table k n r w) u = (if registrations w k n = Some u then Some r else prev_in_table w u)"
  "registrations (link_in_table k n r w) = (registrations w)(k := (registrations w k)(n := Some r))"
  by (auto simp: link_in_table_def Let_def split: option.split)

lemma unlink_from_table_fields [simp]:
  "signal_number (unlink_from_table k n r w) = signal_number w" "reg_queue (unlink_from_table k n r w) = reg_queue w"
  "undelivered (unlink_from_table k n r w) = undelivered w" "next_address (unlink_from_table k n r w) = next_address w"
  "set_queue (unlink_from_table k n r w) = set_queue w"
  "registration_count (unlink_from_table k n r w) = (registration_count w)(n := registration_count w n - 1)"
  "service_list (unlink_from_table k n r w) = service_list w" "handled (unlink_from_table k n r w) = handled w"
  "pipe (unlink_from_table k n r w) = pipe w" "next_in_set (unlink_from_table k n r w) = next_in_set w"
  "set_signals (unlink_from_table k n r w) = set_signals w"
  "registrations (unlink_from_table k n r w) = (if registrations w k n = Some r
     then (registrations w)(k := (registrations w k)(n := next_in_table w r)) else registrations w)"
  by (auto simp: unlink_from_table_def Let_def split: option.split)

lemma unlink_from_table_links:
  assumes "prev_in_table w r \<noteq> Some r" and "next_in_table w r \<noteq> Some r"
  shows "next_in_table (unlink_from_table k n r w) u = (if prev_in_table w r = Some u then next_in_table w r else next_in_table w u)"
    and "prev_in_table (unlink_from_table k n r w) u = (if next_in_table w r = Some u then prev_in_table w r else prev_in_table w u)"
  using assms by (auto simp: unlink_from_table_def Let_def split: option.split)

section \<open>Adding\<close>

lemma table_unique:
  assumes "sets_ok L w" and "tables_ok srv_of L T w" and "r \<in> set (T k n)" and "r \<in> set (T k' n')"
  shows "k = k' \<and> n = n'"
  using assms(2-4) sets_okD(3) [OF assms(1)] unfolding tables_ok_def by metis

lemma table_sets: "tables_ok srv_of L T w \<Longrightarrow> r \<in> set (T k n) \<Longrightarrow> \<exists>s. r \<in> set (L s) \<and> srv_of s = k \<and> signal_number w r = n"
  by (simp add: tables_ok_def)

lemma holds_set_count [simp]: "holds (set_count s n c a) s' n' \<longleftrightarrow> (if s' = s \<and> n' = n then c \<noteq> None else holds a s' n')"
  by (auto simp: holds_def set_count_def)

lemma holders_set_count:
  "holders (set_count s n c a) n' =
     (if n' \<noteq> n then holders a n' else if c = None then holders a n - {s} else insert s (holders a n))"
  by (auto simp: holders_def)

lemma counts_ok_add:
  assumes "counts_ok a w" and "\<not> holds a s n" and "c \<noteq> None"
    and "registration_count w' = (registration_count w)(n := registration_count w n + 1)" and "handled w' = insert n (handled w)"
  shows "counts_ok (set_count s n c a) w'"
proof -
  have "s \<notin> holders a n" using assms(2) by (simp add: holders_def)
  then show ?thesis using assms by (simp add: counts_ok_def holders_set_count)
qed

lemma only_holder:
  assumes "counts_ok a w" and "holds a s n"
  shows "registration_count w n = 1 \<longleftrightarrow> holders a n - {s} = {}"
proof -
  have f: "finite (holders a n)" "registration_count w n = card (holders a n)" using assms(1) by (simp_all add: counts_ok_def)
  have "s \<in> holders a n" using assms(2) by (simp add: holders_def)
  from card.remove [OF f(1) this] show ?thesis using f by (metis One_nat_def Suc_inject card_0_eq finite_Diff)
qed

lemma counts_ok_remove:
  assumes "counts_ok a w" and "holds a s n"
    and "registration_count w' = (registration_count w)(n := registration_count w n - 1)"
    and "handled w' = (if registration_count w n = 1 then handled w - {n} else handled w)"
  shows "counts_ok (set_count s n None a) w'"
proof -
  have f: "finite (holders a n')" "registration_count w n' = card (holders a n')" "n' \<in> handled w \<longleftrightarrow> holders a n' \<noteq> {}" for n'
    using assms(1) by (simp_all add: counts_ok_def)
  have s: "s \<in> holders a n" using assms(2) by (simp add: holders_def)
  have "card (holders a n) = 1 \<longleftrightarrow> holders a n - {s} = {}" using only_holder [OF assms(1,2)] f(2) [of n] by simp
  then show ?thesis unfolding counts_ok_def holders_set_count using f s
    by (simp add: assms(3,4)) blast
qed

lemma sets_ok_change:
  assumes "sets_ok L w"
    and "chain (next_in_set w') (set_signals w' s) xs"
    and "\<And>s'. s' \<noteq> s \<Longrightarrow> chain (next_in_set w') (set_signals w' s') (L s')"
    and "sorted_wrt (<) (map (signal_number w') xs)"
    and "\<And>r. r \<in> set xs \<Longrightarrow> reg_queue w' r = s \<and> r < next_address w' \<and> valid_number (signal_number w' r)"
    and "\<And>s' r. s' \<noteq> s \<Longrightarrow> r \<in> set (L s') \<Longrightarrow> signal_number w' r = signal_number w r \<and> reg_queue w' r = reg_queue w r"
    and "next_address w \<le> next_address w'"
  shows "sets_ok (L(s := xs)) w'"
proof -
  have sm: "map (signal_number w') (L s') = map (signal_number w) (L s')" if "s' \<noteq> s" for s' using assms(6) that by simp
  have "sorted_wrt (<) (map (signal_number w') (L s'))" if "s' \<noteq> s" for s'
    using assms(1) unfolding sm [OF that] by (simp add: sets_ok_def)
  then show ?thesis using assms unfolding sets_ok_def by (auto simp: less_le_trans [OF _ assms(7)])
qed

lemma add_new:
  fixes w a n s srv_of
  assumes sim: "sim_at srv_of srvs L T w a"
    and n: "valid_number n" and split: "L s = us @ vs" "\<forall>u \<in> set us. signal_number w u < n" "\<forall>v \<in> set vs. n < signal_number w v"
  defines "r \<equiv> next_address w" and "k \<equiv> srv_of s"
  defines "w2 \<equiv> w\<lparr>handled := insert n (handled w), next_address := r + 1,
      undelivered := (undelivered w)(r := 0), next_in_table := (next_in_table w)(r := None),
      prev_in_table := (prev_in_table w)(r := None), signal_number := (signal_number w)(r := n), reg_queue := (reg_queue w)(r := s),
      next_in_set := (next_in_set w)(r := head_or vs None)\<rparr>"
  defines "w' \<equiv> (link_in_table k n r (write_place s (last_or us None) (Some r) w2))
      \<lparr>registration_count := (registration_count w)(n := registration_count w n + 1)\<rparr>"
  shows "signal_sim srv_of srvs w' (set_count s n (Some 0) a)"
proof -
  note sets = sim_atD(1) [OF sim] and tables = sim_atD(2) [OF sim] and cnt = sim_atD(3) [OF sim] and regs = sim_atD(4) [OF sim]
    and rest = sim_atD(5-7) [OF sim]
  let ?L = "L(s := us @ r # vs)" and ?T = "\<lambda>k' n'. if k' = k \<and> n' = n then r # T k n else T k' n'"
  note D = sets_okD [OF sets]
  have fresh: "r \<notin> set (L s')" for s' using D(4) by (force simp: r_def)
  then have fresh': "r \<notin> set us" "r \<notin> set vs" using fresh [of s] split(1) by simp_all
  have fresh_T: "r \<notin> set (T k' n')" for k' n' using table_sets [OF tables] fresh by blast
  have dist: "distinct (us @ vs)" using sets_ok_distinct [OF sets, of s] split(1) by simp
  have disj: "set us \<inter> set (L s') = {}" if "s' \<noteq> s" for s' using D(3) [of _ s] D(3) [of _ s'] split(1) that by auto
  have c2: "chain (next_in_set w2) (set_signals w2 s') (L s')" for s' using D(1) [of s'] fresh by (simp add: w2_def)
  have behind: "chain (next_in_set w2) (Some r) (r # vs)"
  proof -
    have "chain (next_in_set w) (head_or vs None) vs" using chain_suffix D(1) [of s] unfolding split(1) .
    then show ?thesis using fresh' by (simp add: w2_def)
  qed
  have ch: "chain (next_in_set w') (set_signals w' s) (us @ r # vs)"
    "\<And>s'. s' \<noteq> s \<Longrightarrow> chain (next_in_set w') (set_signals w' s') (L s')"
    using write_place_chain [OF c2 [of s, unfolded split(1)] _ _ behind] c2 dist fresh' disj by (simp_all add: w'_def)
  have w': "signal_number w' = (signal_number w)(r := n)" "reg_queue w' = (reg_queue w)(r := s)"
    "undelivered w' = (undelivered w)(r := 0)" "next_address w' = r + 1" "set_queue w' = set_queue w" "pipe w' = pipe w"
    "service_list w' = service_list w" "handled w' = insert n (handled w)"
    "registration_count w' = (registration_count w)(n := registration_count w n + 1)"
    "registrations w' = (registrations w)(k := (registrations w k)(n := Some r))"
    "next_in_table w' = (next_in_table w)(r := registrations w k n)"
    "\<And>u. prev_in_table w' u = (if registrations w k n = Some u then Some r else if u = r then None else prev_in_table w u)"
    by (simp_all add: w'_def w2_def)
  have sn: "signal_number w' u = signal_number w u" if "u \<in> set (L s')" for u s' using fresh [of s'] that by (auto simp: w')
  have "sorted_wrt (<) (map (signal_number w) (us @ vs))" using D(2) [of s] by (simp only: split(1))
  then have srt: "sorted_wrt (<) (map (signal_number w') (us @ r # vs))"
    using split(2,3) fresh' by (auto simp: sorted_wrt_append w' map_fun_upd)
  have sets': "sets_ok ?L w'"
  proof (rule sets_ok_change [OF sets ch srt])
    fix u assume "u \<in> set (us @ r # vs)"
    then have "u = r \<or> u \<in> set (L s)" using split(1) by auto
    then show "reg_queue w' u = s \<and> u < next_address w' \<and> valid_number (signal_number w' u)"
      using D(3-5) [of u s] n by (auto simp: w' r_def)
  qed (use fresh in \<open>auto simp: w' r_def\<close>)
  have T: "distinct (T k' n')" "registrations w k' n' = head_or (T k' n') None"
    "doubly (next_in_table w) (prev_in_table w) None (T k' n') None" for k' n'
    using tables by (simp_all add: tables_ok_def)
  have "tables_ok srv_of ?L ?T w'"
    unfolding tables_ok_def
  proof (intro allI conjI)
    fix k' n'
    show "distinct (?T k' n')" using T(1) fresh_T by auto
    show "registrations w' k' n' = head_or (?T k' n') None" using T(2) by (auto simp: w')
    show "doubly (next_in_table w') (prev_in_table w') None (?T k' n') None"
    proof (cases "k' = k \<and> n' = n")
      case True
      have "doubly (next_in_table w') (prev_in_table w') None (r # T k n) None"
      proof (rule doubly_push [OF _ T(3)])
        show "prev_in_table w' r = None" using fresh_T [of k n] T(2) [of k n] head_or_Some [of "T k n" r] by (auto simp: w')
      qed (use T(1,2) fresh_T [of k n] in \<open>auto simp: w'\<close>)
      then show ?thesis using True by simp
    next
      case False
      have "registrations w k n \<noteq> Some u" if "u \<in> set (T k' n')" for u
        using table_unique [OF sets tables that, of k n] head_or_Some [of "T k n" u] T(2) [of k n] False by auto
      then have "doubly (next_in_table w') (prev_in_table w') None (T k' n') None = doubly (next_in_table w) (prev_in_table w) None (T k' n') None"
        by (intro doubly_cong) (use fresh_T [of k' n'] in \<open>auto simp: w'\<close>)
      then show ?thesis using False T(3) by auto
    qed
    fix u
    have "u \<in> set (T k' n') \<longleftrightarrow> (\<exists>s'. u \<in> set (L s') \<and> srv_of s' = k' \<and> signal_number w u = n')"
      using tables by (simp add: tables_ok_def)
    moreover have "u \<in> set (?L s') \<longleftrightarrow> u \<in> set (L s') \<or> u = r \<and> s' = s" for s' using split(1) by auto
    ultimately show "u \<in> set (?T k' n') \<longleftrightarrow> (\<exists>s'. u \<in> set (?L s') \<and> srv_of s' = k' \<and> signal_number w' u = n')"
      using fresh fresh_T by (auto simp: w' k_def)
  qed
  moreover have "\<not> holds a s n" using split by (auto simp: holds_iff [OF regs])
  then have "counts_ok (set_count s n (Some 0) a) w'" using counts_ok_add [OF cnt] w' by simp
  moreover have "counts (set_count s n (Some 0) a) = regs_of ?L w'"
  proof
    fix s'
    have "map (\<lambda>u. (signal_number w' u, undelivered w' u)) zs = map (\<lambda>u. (signal_number w u, undelivered w u)) zs"
      if "r \<notin> set zs" for zs using that by (auto simp: w')
    note same = this [OF fresh'(1)] this [OF fresh'(2)] this [OF fresh]
    have "n \<notin> fst ` set (map (\<lambda>u. (signal_number w u, undelivered w u)) us)" using split(2) by force
    note mid = map_of_middle [OF this]
    have "(signal_number w' r, undelivered w' r) = (n, 0)" by (simp add: w')
    then have "regs_of ?L w' s = (regs_of L w s)(n \<mapsto> 0)"
      by (simp only: regs_of_def fun_upd_same split(1) map_append list.map same mid)
    moreover have "regs_of ?L w' s' = regs_of L w s'" if "s' \<noteq> s" using that by (simp add: regs_of_def same(3))
    ultimately show "counts (set_count s n (Some 0) a) s' = regs_of ?L w' s'" by (simp add: set_count_def regs)
  qed
  ultimately show ?thesis
    unfolding signal_sim_def sim_at_def using sets' rest by (auto simp: w' set_count_def intro!: exI [of _ ?L] exI [of _ ?T])
qed

section \<open>Removing\<close>

lemma restore_default_fields [simp]:
  "signal_number (restore_default n w) = signal_number w" "reg_queue (restore_default n w) = reg_queue w"
  "undelivered (restore_default n w) = undelivered w" "next_in_table (restore_default n w) = next_in_table w"
  "prev_in_table (restore_default n w) = prev_in_table w" "next_address (restore_default n w) = next_address w"
  "set_queue (restore_default n w) = set_queue w" "registrations (restore_default n w) = registrations w"
  "registration_count (restore_default n w) = registration_count w" "service_list (restore_default n w) = service_list w"
  "pipe (restore_default n w) = pipe w" "next_in_set (restore_default n w) = next_in_set w"
  "set_signals (restore_default n w) = set_signals w"
  "handled (restore_default n w) = (if registration_count w n = 1 then handled w - {n} else handled w)"
  by (simp_all add: restore_default_def)

lemma remove_old:
  fixes w a n s r srv_of
  assumes sim: "sim_at srv_of srvs L T w a"
    and split: "L s = us @ r # vs" "signal_number w r = n"
  defines "k \<equiv> srv_of s"
  defines "w' \<equiv> unlink_from_table k n r (write_place s (last_or us None) (next_in_set w r) (restore_default n w))"
  shows "signal_sim srv_of srvs w' (set_count s n None a)"
proof -
  note sets = sim_atD(1) [OF sim] and tables = sim_atD(2) [OF sim] and cnt = sim_atD(3) [OF sim] and regs = sim_atD(4) [OF sim]
    and rest = sim_atD(5-7) [OF sim]
  note D = sets_okD [OF sets]
  have mem: "r \<in> set (L s)" using split(1) by simp
  have T: "distinct (T k' n')" "registrations w k' n' = head_or (T k' n') None"
    "doubly (next_in_table w) (prev_in_table w) None (T k' n') None" for k' n'
    using tables by (simp_all add: tables_ok_def)
  have "r \<in> set (T k n)" using tables mem split(2) by (auto simp: tables_ok_def k_def)
  then obtain xs ys where xy: "T k n = xs @ r # ys" by (metis split_list)
  have dxy: "distinct (xs @ r # ys)" using T(1) [of k n] xy by simp
  let ?L = "L(s := us @ vs)" and ?T = "\<lambda>k' n'. if k' = k \<and> n' = n then xs @ ys else T k' n'"
  have dist: "distinct (us @ r # vs)" using sets_ok_distinct [OF sets, of s] split(1) by simp
  have disj: "set us \<inter> set (L s') = {}" if "s' \<noteq> s" for s'
    using D(3) [of _ s] D(3) [of _ s'] split(1) that by auto
  have cs: "chain (next_in_set (restore_default n w)) (set_signals (restore_default n w) s) (us @ r # vs)"
    using D(1) [of s] by (simp add: split(1))
  have behind: "chain (next_in_set (restore_default n w)) (next_in_set w r) vs" using chain_behind [OF cs] by simp
  have ch: "chain (next_in_set w') (set_signals w' s) (us @ vs)"
    "\<And>s'. s' \<noteq> s \<Longrightarrow> chain (next_in_set w') (set_signals w' s') (L s')"
    using write_place_chain [OF cs _ _ behind] D(1) dist disj by (simp_all add: w'_def)
  have link: "prev_in_table w r = last_or xs None" "next_in_table w r = head_or ys None"
    using T(3) [of k n] unfolding xy by simp_all
  have self: "prev_in_table w r \<noteq> Some r" "next_in_table w r \<noteq> Some r"
    using dxy last_or_Some [of xs r] head_or_Some [of ys r] unfolding link by auto
  have w': "signal_number w' = signal_number w" "reg_queue w' = reg_queue w" "undelivered w' = undelivered w"
    "next_address w' = next_address w" "set_queue w' = set_queue w" "pipe w' = pipe w" "service_list w' = service_list w"
    "registration_count w' = (registration_count w)(n := registration_count w n - 1)"
    "handled w' = (if registration_count w n = 1 then handled w - {n} else handled w)"
    "registrations w' = (if registrations w k n = Some r then (registrations w)(k := (registrations w k)(n := next_in_table w r))
       else registrations w)"
    "\<And>u. next_in_table w' u = (if prev_in_table w r = Some u then next_in_table w r else next_in_table w u)"
    "\<And>u. prev_in_table w' u = (if next_in_table w r = Some u then prev_in_table w r else prev_in_table w u)"
    using self by (simp_all add: w'_def unlink_from_table_links)
  have "sorted_wrt (<) (map (signal_number w) (us @ r # vs))" using D(2) [of s] by (simp only: split(1))
  then have ne: "n \<notin> signal_number w ` set us" "n \<notin> signal_number w ` set vs"
    and srt: "sorted_wrt (<) (map (signal_number w') (us @ vs))"
    using split(2) by (force simp: sorted_wrt_append w')+
  have sets': "sets_ok ?L w'"
    by (rule sets_ok_change [OF sets ch srt]) (use D(3-5) [of _ s] split(1) in \<open>auto simp: w'\<close>)
  have "tables_ok srv_of ?L ?T w'"
    unfolding tables_ok_def
  proof (intro allI conjI)
    fix k' n'
    show "distinct (?T k' n')" using T(1) dxy by auto
    show "registrations w' k' n' = head_or (?T k' n') None"
      using T(2) [of k' n'] T(2) [of k n] dxy unfolding w' link xy by (cases xs) auto
    show "doubly (next_in_table w') (prev_in_table w') None (?T k' n') None"
    proof (cases "k' = k \<and> n' = n")
      case True
      have "doubly (next_in_table w') (prev_in_table w') None (xs @ ys) None"
        by (rule doubly_unlink [OF dxy T(3) [of k n, unfolded xy]]) (auto simp: w')
      then show ?thesis using True by simp
    next
      case False
      have "u \<notin> set (T k n)" if "u \<in> set (T k' n')" for u using table_unique [OF sets tables that] False by auto
      then have "last_or xs None \<noteq> Some u \<and> head_or ys None \<noteq> Some u" if "u \<in> set (T k' n')" for u
        using that last_or_Some [of xs u] head_or_Some [of ys u] xy by auto
      then have "doubly (next_in_table w') (prev_in_table w') None (T k' n') None = doubly (next_in_table w) (prev_in_table w) None (T k' n') None"
        by (intro doubly_cong) (simp add: w' link)
      then show ?thesis using False T(3) by auto
    qed
    fix u
    have "u \<in> set (T k' n') \<longleftrightarrow> (\<exists>s'. u \<in> set (L s') \<and> srv_of s' = k' \<and> signal_number w u = n')"
      using tables by (simp add: tables_ok_def)
    moreover have "u \<in> set (?L s') \<longleftrightarrow> u \<in> set (L s') \<and> u \<noteq> r" for s'
    proof (cases "s' = s")
      case True
      then show ?thesis using dist split(1) by auto
    next
      case False
      then have "r \<notin> set (L s')" using D(3) [OF mem] D(3) [of r s'] by blast
      then show ?thesis using False by auto
    qed
    moreover have "u \<in> set (?T k' n') \<longleftrightarrow> u \<in> set (T k' n') \<and> u \<noteq> r"
    proof (cases "k' = k \<and> n' = n")
      case True
      then show ?thesis using dxy xy by auto
    next
      case False
      then have "r \<notin> set (T k' n')" using table_unique [OF sets tables \<open>r \<in> set (T k n)\<close>] by blast
      then show ?thesis using False by auto
    qed
    ultimately show "u \<in> set (?T k' n') \<longleftrightarrow> (\<exists>s'. u \<in> set (?L s') \<and> srv_of s' = k' \<and> signal_number w' u = n')"
      by (simp only: w'(1)) blast
  qed
  moreover have "holds a s n" using mem split(2) by (auto simp: holds_iff [OF regs])
  then have "counts_ok (set_count s n None a) w'" by (rule counts_ok_remove [OF cnt]) (simp_all add: w')
  moreover have "counts (set_count s n None a) = regs_of ?L w'"
  proof
    fix s'
    have "n \<notin> fst ` set (map (\<lambda>u. (signal_number w u, undelivered w u)) us)"
      "n \<notin> fst ` set (map (\<lambda>u. (signal_number w u, undelivered w u)) vs)" using ne by auto
    from map_of_without [OF this] show "counts (set_count s n None a) s' = regs_of ?L w' s'"
      by (simp add: set_count_def regs regs_of_def split w' del: map_of_append)
  qed
  ultimately show ?thesis
    unfolding signal_sim_def sim_at_def using sets' rest by (auto simp: w' set_count_def intro!: exI [of _ ?L] exI [of _ ?T])
qed

section \<open>The calls that change sets\<close>

lemma may_remove_iff:
  assumes "counts_ok a w" and "holds a s n"
  shows "may_remove s n os a \<longleftrightarrow> \<not> (registration_count w n = 1 \<and> os \<noteq> Success)"
  using only_holder [OF assms] by (auto simp: may_remove_def holders_def)

lemma add_correct:
  assumes "signal_sim srv_of srvs w a"
  shows "\<exists>ans w' a'. signal_step srv_of (Add s n os) w = Some (ans, w') \<and> table_step srv_of srvs (Add s n os) a ans a'
    \<and> signal_sim srv_of srvs w' a'"
proof (cases "valid_number n")
  case False
  then show ?thesis using assms by (auto simp: add_signal_def valid_number_def)
next
  case valid: True
  from assms obtain L T where sim: "sim_at srv_of srvs L T w a" by (auto simp: signal_sim_def)
  note D = sim_atD [OF sim] and ch = sets_okD(1) [OF sim_atD(1) [OF sim], of s]
  note place = find_place_result [OF ch, of n None]
  from sets_okD(2) [OF D(1), of s] show ?thesis
  proof (cases rule: ordered_split [where n = n])
    case (found r vs)
    then have "holds a s n" unfolding holds_iff [OF D(4)] by (metis in_set_conv_decomp)
    then show ?thesis using found place valid assms by (auto simp: add_signal_def valid_number_def)
  next
    case (absent vs)
    let ?us = "takeWhile (\<lambda>r. signal_number w r < n) (L s)"
    have new: "\<not> holds a s n" unfolding holds_iff [OF D(4)] by (subst absent(1)) (use absent(3,4) in fastforce)
    have nx: "head_or vs None = None \<or> signal_number w (the (head_or vs None)) \<noteq> n" using absent(4) by (cases vs) auto
    have cnt: "registration_count w n = 0 \<longleftrightarrow> \<not> (\<exists>s'. holds a s' n)" "n \<in> handled w \<longleftrightarrow> (\<exists>s'. holds a s' n)"
      using D(3) by (auto simp: counts_ok_def holders_def)
    show ?thesis
    proof (cases "registration_count w n = 0 \<and> os \<noteq> Success")
      case True
      then have "add_signal (srv_of s) s n os w = Some (os, w)"
        using valid nx by (simp add: add_signal_def valid_number_def place absent(2))
      then show ?thesis using True new cnt valid assms by auto
    next
      case False
      have base: "(if registration_count w n = 0 then w\<lparr>handled := insert n (handled w)\<rparr> else w) = w\<lparr>handled := insert n (handled w)\<rparr>"
        using cnt by (auto simp: insert_absorb)
      obtain w' where "add_signal (srv_of s) s n os w = Some (Success, w')" "signal_sim srv_of srvs w' (set_count s n (Some 0) a)"
        using add_new [OF sim valid absent(1,3,4)] valid nx False
        by (simp add: add_signal_def valid_number_def place absent(2) base new_registration_def Let_def cong: if_cong)
      moreover have "os = Success \<or> (\<exists>s'. holds a s' n)" using False cnt by blast
      ultimately show ?thesis using new valid by auto
    qed
  qed
qed

lemma remove_correct:
  assumes "signal_sim srv_of srvs w a"
  shows "\<exists>ans w' a'. signal_step srv_of (Remove s n os) w = Some (ans, w') \<and> table_step srv_of srvs (Remove s n os) a ans a'
    \<and> signal_sim srv_of srvs w' a'"
proof (cases "valid_number n")
  case False
  then show ?thesis using assms by (auto simp: remove_signal_def valid_number_def)
next
  case valid: True
  from assms obtain L T where sim: "sim_at srv_of srvs L T w a" by (auto simp: signal_sim_def)
  note D = sim_atD [OF sim] and ch = sets_okD(1) [OF sim_atD(1) [OF sim], of s]
  note place = find_place_result [OF ch, of n None]
  from sets_okD(2) [OF D(1), of s] show ?thesis
  proof (cases rule: ordered_split [where n = n])
    case (found r vs)
    then have old: "holds a s n" unfolding holds_iff [OF D(4)] by (metis in_set_conv_decomp)
    note may = may_remove_iff [OF D(3) old, of os]
    show ?thesis
    proof (cases "may_remove s n os a")
      case True
      then show ?thesis using found place valid old may remove_old [OF sim found(1,3)]
        by (auto simp: remove_signal_def valid_number_def)
    next
      case False
      then show ?thesis using found place valid old may assms by (auto simp: remove_signal_def valid_number_def)
    qed
  next
    case (absent vs)
    have new: "\<not> holds a s n" unfolding holds_iff [OF D(4)] by (subst absent(1)) (use absent(3,4) in fastforce)
    then have "remove_signal (srv_of s) s n os w = Some (Success, w)"
      using valid absent(4) place by (cases vs) (simp_all add: remove_signal_def valid_number_def absent(2))
    then show ?thesis using new valid assms by auto
  qed
qed

lemma held_signals:
  assumes "sim_at srv_of srvs L T w a"
  shows "sorted_list_of_set {n. holds a s n} = map (signal_number w) (L s)"
proof -
  note D = sim_atD [OF assms] and srt = sets_okD(2) [OF sim_atD(1) [OF assms], of s]
  have "{n. holds a s n} = set (map (signal_number w) (L s))" using holds_iff [OF D(4)] by auto
  then show ?thesis using srt by (metis sorted_list_of_set.idem_if_sorted_distinct strict_sorted_iff)
qed

lemma write_head_unlink:
  "unlink_from_table k n r (write_place s None p w) =
     (unlink_from_table k n r w)\<lparr>set_signals := (set_signals (unlink_from_table k n r w))(s := p)\<rparr>"
  by (cases "prev_in_table w r"; cases "next_in_table w r"; cases "registrations w k n = Some r")
    (simp_all add: unlink_from_table_def write_place_def)

lemma clear_correct:
  assumes "signal_sim srv_of srvs w a"
  shows "\<exists>ec w' a'. clear_signals (srv_of s) s os w = Some (ec, w')
    \<and> clear_table s os (sorted_list_of_set {n. holds a s n}) a = (ec, a') \<and> signal_sim srv_of srvs w' a'"
  using assms
proof (induction "sorted_list_of_set {n. holds a s n}" arbitrary: w a)
  case Nil
  from Nil.prems obtain L T where sim: "sim_at srv_of srvs L T w a" by (auto simp: signal_sim_def)
  have "L s = []" using held_signals [OF sim, of s] Nil.hyps by simp
  then have "set_signals w s = None" using sets_okD(1) [OF sim_atD(1) [OF sim], of s] by simp
  then have "clear_signals (srv_of s) s os w = Some (Success, w)" by (subst clear_signals.simps) simp
  then show ?case using Nil.prems by (simp flip: Nil.hyps)
next
  case (Cons n ns)
  from Cons.prems obtain L T where sim: "sim_at srv_of srvs L T w a" by (auto simp: signal_sim_def)
  obtain r vs where Ls: "L s = r # vs" "signal_number w r = n"
    using held_signals [OF sim, of s] Cons.hyps(2) by (cases "L s") auto
  have head: "set_signals w s = Some r" using sets_okD(1) [OF sim_atD(1) [OF sim], of s] Ls by simp
  have held: "holds a s n" using Ls by (auto simp: holds_iff [OF sim_atD(4) [OF sim]])
  note may = may_remove_iff [OF sim_atD(3) [OF sim] held, of "os n"]
  show ?case
  proof (cases "may_remove s n (os n) a")
    case False
    then have "clear_signals (srv_of s) s os w = Some (os n, w)"
      using head Ls may by (subst clear_signals.simps) simp
    then show ?thesis using False Cons.prems by (simp flip: Cons.hyps(2))
  next
    case True
    let ?w = "unlink_from_table (srv_of s) n r (write_place s None (next_in_set w r) (restore_default n w))"
    let ?a = "set_count s n None a"
    have sim': "signal_sim srv_of srvs ?w ?a" using remove_old [OF sim, of s "[]" r vs n] Ls by simp
    have fin: "finite {n. holds a s n}" using Cons.hyps(2) by (metis list.distinct(1) sorted_list_of_set.fold_insort_key.infinite)
    have "{n'. holds ?a s n'} = {n'. holds a s n'} - {n}" by auto
    then have "sorted_list_of_set {n'. holds ?a s n'} = ns"
      using sorted_list_of_set_remove [OF fin, of n] by (simp flip: Cons.hyps(2))
    note ns = this [symmetric]
    obtain ec w' a' where IH: "clear_signals (srv_of s) s os ?w = Some (ec, w')" "clear_table s os ns ?a = (ec, a')"
        "signal_sim srv_of srvs w' a'"
      using Cons.hyps(1) [OF ns sim'] by (auto simp flip: ns)
    have "clear_signals (srv_of s) s os w = clear_signals (srv_of s) s os ?w"
      using head Ls may True by (subst clear_signals.simps) (auto simp: write_head_unlink Let_def)
    then show ?thesis using IH True by (simp flip: Cons.hyps(2))
  qed
qed

section \<open>Waiting and delivering\<close>

lemma regs_of_Some:
  assumes "sets_ok L w"
  shows "regs_of L w s n = Some c \<longleftrightarrow> (\<exists>r \<in> set (L s). signal_number w r = n \<and> undelivered w r = c)"
proof -
  have "distinct (map (signal_number w) (L s))" using sets_okD(2) [OF assms, of s] by (simp add: strict_sorted_iff)
  then have "distinct (map fst (map (\<lambda>r. (signal_number w r, undelivered w r)) (L s)))" by (simp add: comp_def)
  from map_of_eq_Some_iff [OF this, of n c] show ?thesis by (auto simp: regs_of_def)
qed

lemma one_number:
  assumes "sets_ok L w" and "r \<in> set (L s)" and "r' \<in> set (L s)" and "signal_number w r = signal_number w r'"
  shows "r = r'"
proof -
  have "inj_on (signal_number w) (set (L s))"
    using sets_okD(2) [OF assms(1), of s] by (simp add: strict_sorted_iff distinct_map)
  then show ?thesis using assms(2-4) by (simp add: inj_on_def)
qed

text \<open>Neither the counters of the registrations nor the queues are part of the lists.\<close>

lemma sim_at_frame:
  assumes "sim_at srv_of srvs L T w a"
  shows "sim_at srv_of srvs L T (w\<lparr>set_queue := f\<rparr>) (a\<lparr>waits := f\<rparr>)"
    and "sim_at srv_of srvs L T (w\<lparr>pipe := ns\<rparr>) (a\<lparr>arrived := ns\<rparr>)"
  using assms by (auto simp: sim_at_def sets_ok_def tables_ok_def counts_ok_def holders_def holds_def regs_of_def)

lemma sim_at_count:
  assumes sim: "sim_at srv_of srvs L T w a" and r: "r \<in> set (L s)" "signal_number w r = n"
  shows "sim_at srv_of srvs L T (w\<lparr>undelivered := (undelivered w)(r := c)\<rparr>) (set_count s n (Some c) a)"
proof -
  note D = sim_atD [OF sim]
  let ?w = "w\<lparr>undelivered := (undelivered w)(r := c)\<rparr>"
  have ok: "sets_ok L ?w" "tables_ok srv_of L T ?w" using D(1,2) by (simp_all add: sets_ok_def tables_ok_def)
  have other: "r' = r \<longleftrightarrow> s' = s \<and> signal_number w r' = n" if "r' \<in> set (L s')" for r' s'
    using one_number [OF D(1) r(1), of r'] sets_okD(3) [OF D(1)] r that by metis
  have new: "regs_of L ?w s' n' = Some c' \<longleftrightarrow>
      (\<exists>r' \<in> set (L s'). signal_number w r' = n' \<and> (if r' = r then c else undelivered w r') = c')" for s' n' c'
    by (simp add: regs_of_Some [OF ok(1)])
  have "regs_of L ?w s' n' = Some c' \<longleftrightarrow> counts (set_count s n (Some c) a) s' n' = Some c'" for s' n' c'
  proof (cases "s' = s \<and> n' = n")
    case True
    have "regs_of L ?w s n = Some c' \<longleftrightarrow> c' = c" unfolding new using r other by metis
    then show ?thesis using True by (auto simp: set_count_def)
  next
    case False
    then have "r' \<noteq> r" if "r' \<in> set (L s')" "signal_number w r' = n'" for r' using other [OF that(1)] that(2) by blast
    then have "regs_of L ?w s' n' = Some c' \<longleftrightarrow> regs_of L w s' n' = Some c'" unfolding new regs_of_Some [OF D(1)] by auto
    then show ?thesis using False by (auto simp: set_count_def D(4))
  qed
  then have "counts (set_count s n (Some c) a) = regs_of L ?w" by (intro ext) (metis not_Some_eq)
  moreover have "holders (set_count s n (Some c) a) n' = holders a n'" for n'
    using r by (auto simp: holders_set_count holders_def holds_iff [OF D(4)])
  then have "counts_ok (set_count s n (Some c) a) ?w" using D(3) by (simp add: counts_ok_def)
  ultimately show ?thesis using ok D(5-7) by (simp add: sim_at_def set_count_def)
qed

lemma find_undelivered_result:
  "chain (next_in_set w) p xs \<Longrightarrow> find_undelivered w p = Some (List.find (\<lambda>r. undelivered w r > 0) xs)"
proof (induction xs arbitrary: p)
  case (Cons r xs)
  then show ?case by (subst find_undelivered.simps) simp
qed (subst find_undelivered.simps, simp)

lemma wait_correct:
  assumes "signal_sim srv_of srvs w a"
  shows "\<exists>ans w' a'. signal_step srv_of (Wait s op) w = Some (ans, w') \<and> table_step srv_of srvs (Wait s op) a ans a'
    \<and> signal_sim srv_of srvs w' a'"
proof -
  from assms obtain L T where sim: "sim_at srv_of srvs L T w a" by (auto simp: signal_sim_def)
  note D = sim_atD [OF sim] and ch = sets_okD(1) [OF sim_atD(1) [OF sim], of s]
  note found = find_undelivered_result [OF ch]
  have pending: "counts a s n = Some (Suc c) \<longleftrightarrow> (\<exists>r \<in> set (L s). signal_number w r = n \<and> undelivered w r = Suc c)" for n c
    by (simp add: D(4) regs_of_Some [OF D(1)])
  show ?thesis
  proof (cases "List.find (\<lambda>r. undelivered w r > 0) (L s)")
    case None
    then have "\<forall>r \<in> set (L s). undelivered w r = 0" by (auto simp: find_None_iff)
    then have "\<not> (\<exists>n c. counts a s n = Some (Suc c))" by (auto simp: pending)
    moreover have "signal_sim srv_of srvs (w\<lparr>set_queue := (set_queue w)(s := set_queue w s @ [op])\<rparr>)
        (a\<lparr>waits := (waits a)(s := waits a s @ [op])\<rparr>)"
      using sim_at_frame(1) [OF sim, of "(set_queue w)(s := set_queue w s @ [op])"] D(5) by (auto simp: signal_sim_def)
    ultimately show ?thesis using found None by (simp add: start_wait_op_def)
  next
    case (Some r)
    then obtain i where i: "i < length (L s)" "L s ! i = r" "undelivered w r > 0" "\<forall>j < i. undelivered w (L s ! j) = 0"
      by (auto simp: find_Some_iff)
    let ?n = "signal_number w r" and ?c = "undelivered w r - 1"
    have r: "r \<in> set (L s)" using i(1,2) by (metis nth_mem)
    have first: "counts a s n' \<noteq> Some (Suc c)" if "n' < ?n" for n' c
    proof
      assume "counts a s n' = Some (Suc c)"
      then obtain j where j: "j < length (L s)" "signal_number w (L s ! j) = n'" "undelivered w (L s ! j) = Suc c"
        unfolding pending by (metis in_set_conv_nth)
      have "\<not> i \<le> j"
      proof
        assume "i \<le> j"
        then have "?n \<le> n'"
          using sorted_wrt_nth_less [OF sets_okD(2) [OF D(1), of s], of i j] i(1,2) j(1,2) by (cases "i = j") auto
        with that show False by simp
      qed
      then show False using i(4) j(3) by simp
    qed
    have now: "counts a s ?n = Some (Suc ?c)" unfolding pending using r i(3) by (intro bexI [of _ r]) simp_all
    have "signal_sim srv_of srvs (w\<lparr>undelivered := (undelivered w)(r := ?c)\<rparr>) (set_count s ?n (Some ?c) a)"
      using sim_at_count [OF sim r refl] by (auto simp: signal_sim_def)
    moreover have "table_step srv_of srvs (Wait s op) a (Success, [(srv_of s, op\<lparr>so_number := ?n\<rparr>)]) (set_count s ?n (Some ?c) a)"
      using now first by auto
    moreover have "signal_step srv_of (Wait s op) w =
        Some ((Success, [(srv_of s, op\<lparr>so_number := ?n\<rparr>)]), w\<lparr>undelivered := (undelivered w)(r := ?c)\<rparr>)"
      using found Some by (simp add: start_wait_op_def)
    ultimately show ?thesis by blast
  qed
qed

text \<open>Delivering to the registrations in a list.\<close>

fun deliver_list :: "int \<Rightarrow> nat \<Rightarrow> nat list \<Rightarrow> signal_post list \<Rightarrow> signal_world \<Rightarrow> signal_post list \<times> signal_world" where
  "deliver_list n srv [] ops w = (ops, w)"
| "deliver_list n srv (r # rs) ops w = (case deliver_to n srv r w of (ops', w1) \<Rightarrow> deliver_list n srv rs (ops @ ops') w1)"

lemma deliver_to_links [simp]:
  "next_in_table (snd (deliver_to n srv r w)) = next_in_table w" "reg_queue (snd (deliver_to n srv r w)) = reg_queue w"
  "signal_number (snd (deliver_to n srv r w)) = signal_number w" "registrations (snd (deliver_to n srv r w)) = registrations w"
  by (simp_all add: deliver_to_def Let_def)

lemma deliver_loop_list:
  "chain (next_in_table w) p rs \<Longrightarrow> deliver_loop n srv p ops w = Some (deliver_list n srv rs ops w)"
proof (induction rs arbitrary: p ops w)
  case (Cons r rs)
  then have "chain (next_in_table (snd (deliver_to n srv r w))) (next_in_table w r) rs" "p = Some r" by simp_all
  then show ?case using Cons.IH by (subst deliver_loop.simps) (simp split: prod.split, metis deliver_to_links(1) snd_conv)
qed (subst deliver_loop.simps, simp)

definition posts :: "(nat \<Rightarrow> nat) \<Rightarrow> int \<Rightarrow> signal_table \<Rightarrow> nat \<Rightarrow> signal_post list" where
  "posts srv_of n a s = map (\<lambda>op. (srv_of s, op\<lparr>so_number := n\<rparr>)) (waits a s)"

lemma table_eqI: "counts a = counts b \<Longrightarrow> waits a = waits b \<Longrightarrow> arrived a = arrived b \<Longrightarrow> a = (b :: signal_table)"
  by simp

lemma delivered_simps [simp]:
  "counts (delivered n S a) s = (if s \<in> S \<and> waits a s = [] then (counts a s)(n := map_option Suc (counts a s n)) else counts a s)"
  "waits (delivered n S a) s = (if s \<in> S then [] else waits a s)" "arrived (delivered n S a) = arrived a"
  by (simp_all add: delivered_def)

lemma delivered_none [simp]: "delivered n {} a = a"
  by (simp add: delivered_def)

lemma delivered_union: "S \<inter> S' = {} \<Longrightarrow> delivered n S' (delivered n S a) = delivered n (S \<union> S') a"
  by (intro table_eqI ext) auto

lemma delivered_compose: "s \<notin> S \<Longrightarrow> delivered n S (delivered n {s} a) = delivered n (insert s S) a"
  using delivered_union [of "{s}" S] by simp

lemma deliver_to_correct:
  assumes sim: "sim_at srv_of srvs L T w a" and r: "r \<in> set (L s)" "signal_number w r = n"
  shows "\<exists>w'. deliver_to n (srv_of s) r w = (posts srv_of n a s, w') \<and> sim_at srv_of srvs L T w' (delivered n {s} a)"
proof -
  note D = sim_atD [OF sim] and q = sets_okD(3) [OF sim_atD(1) [OF sim] r(1)]
  have c: "counts a s n = Some (undelivered w r)" using r by (auto simp: D(4) regs_of_Some [OF D(1)])
  show ?thesis
  proof (cases "set_queue w s = []")
    case True
    have "(waits a)(s := []) = waits a" using True D(5) by auto
    then have "delivered n {s} a = set_count s n (Some (undelivered w r + 1)) a"
      using True c D(5) by (intro table_eqI ext) (auto simp: set_count_def)
    then show ?thesis using sim_at_count [OF sim r, of "undelivered w r + 1"] True D(5)
      by (simp add: deliver_to_def q posts_def)
  next
    case False
    have "delivered n {s} a = a\<lparr>waits := (set_queue w)(s := [])\<rparr>"
      using False D(5) by (intro table_eqI ext) auto
    then show ?thesis using sim_at_frame(1) [OF sim, of "(set_queue w)(s := [])"] False D(5)
      by (simp add: deliver_to_def q posts_def)
  qed
qed

lemma deliver_list_correct:
  assumes "sim_at srv_of srvs L T w a" and "\<And>r. r \<in> set rs \<Longrightarrow> \<exists>s. r \<in> set (L s) \<and> srv_of s = k \<and> signal_number w r = n"
    and "distinct (map (reg_queue w) rs)"
  shows "\<exists>w'. deliver_list n k rs ops w = (ops @ concat (map (posts srv_of n a) (map (reg_queue w) rs)), w')
    \<and> sim_at srv_of srvs L T w' (delivered n (reg_queue w ` set rs) a)"
  using assms
proof (induction rs arbitrary: ops w a)
  case (Cons r rs)
  obtain s where s: "r \<in> set (L s)" "srv_of s = k" "signal_number w r = n" using Cons.prems(2) [of r] by auto
  have q: "reg_queue w r = s" using sets_okD(3) [OF sim_atD(1) [OF Cons.prems(1)] s(1)] .
  obtain w1 where d: "deliver_to n k r w = (posts srv_of n a s, w1)" and sim1: "sim_at srv_of srvs L T w1 (delivered n {s} a)"
    using deliver_to_correct [OF Cons.prems(1) s(1,3)] s(2) by auto
  have w1: "reg_queue w1 = reg_queue w" "signal_number w1 = signal_number w" using deliver_to_links(2,3) [of n k r w] d by simp_all
  have new: "s \<notin> reg_queue w ` set rs" using Cons.prems(3) q by auto
  then have same: "map (posts srv_of n (delivered n {s} a)) (map (reg_queue w) rs) = map (posts srv_of n a) (map (reg_queue w) rs)"
    by (auto simp: posts_def)
  have "\<exists>s. r' \<in> set (L s) \<and> srv_of s = k \<and> signal_number w r' = n" if "r' \<in> set rs" for r' using Cons.prems(2) that by simp
  then obtain w2 where "deliver_list n k rs (ops @ posts srv_of n a s) w1
      = ((ops @ posts srv_of n a s) @ concat (map (posts srv_of n a) (map (reg_queue w) rs)), w2)"
      "sim_at srv_of srvs L T w2 (delivered n (reg_queue w ` set rs) (delivered n {s} a))"
    using Cons.IH [OF sim1, of "ops @ posts srv_of n a s"] Cons.prems(3) unfolding w1 same by auto
  then show ?case using new by (auto simp: d q delivered_compose)
qed auto

lemma doubly_chain: "doubly nx pv p xs None \<Longrightarrow> chain nx (head_or xs None) xs"
  by (induction xs arbitrary: p) auto

lemma table_list_correct:
  assumes sim: "sim_at srv_of srvs L T w a"
  shows "\<exists>ss w'. deliver_loop n k (registrations w k n) [] w = Some (concat (map (posts srv_of n a) ss), w')
    \<and> distinct ss \<and> set ss = {s. holds a s n \<and> srv_of s = k} \<and> sim_at srv_of srvs L T w' (delivered n (set ss) a)"
proof -
  note D = sim_atD [OF sim]
  have t: "distinct (T k n)" "registrations w k n = head_or (T k n) None" "chain (next_in_table w) (head_or (T k n) None) (T k n)"
    "\<And>r. r \<in> set (T k n) \<longleftrightarrow> (\<exists>s. r \<in> set (L s) \<and> srv_of s = k \<and> signal_number w r = n)"
    using D(2) doubly_chain unfolding tables_ok_def by blast+
  have q: "\<exists>s. r \<in> set (L s) \<and> reg_queue w r = s \<and> signal_number w r = n" if "r \<in> set (T k n)" for r
    using that t(4) sets_okD(3) [OF D(1)] by blast
  have "inj_on (reg_queue w) (set (T k n))"
    using q one_number [OF D(1)] by (metis inj_onI)
  then have dist: "distinct (map (reg_queue w) (T k n))" using t(1) by (simp add: distinct_map)
  have "reg_queue w ` set (T k n) = {s. holds a s n \<and> srv_of s = k}"
  proof (intro set_eqI iffI)
    fix s assume "s \<in> reg_queue w ` set (T k n)"
    then obtain r where "r \<in> set (T k n)" "s = reg_queue w r" by blast
    then obtain s' where "r \<in> set (L s')" "srv_of s' = k" "signal_number w r = n" "s = s'"
      using t(4) [of r] sets_okD(3) [OF D(1)] by blast
    then show "s \<in> {s. holds a s n \<and> srv_of s = k}" by (auto simp: holds_iff [OF D(4)])
  next
    fix s assume "s \<in> {s. holds a s n \<and> srv_of s = k}"
    then obtain r where r: "r \<in> set (L s)" "signal_number w r = n" "srv_of s = k" by (auto simp: holds_iff [OF D(4)])
    then have "r \<in> set (T k n)" using t(4) by blast
    moreover have "s = reg_queue w r" using sets_okD(3) [OF D(1) r(1)] by simp
    ultimately show "s \<in> reg_queue w ` set (T k n)" by blast
  qed
  moreover have "\<exists>w'. deliver_list n k (T k n) [] w = ([] @ concat (map (posts srv_of n a) (map (reg_queue w) (T k n))), w')
      \<and> sim_at srv_of srvs L T w' (delivered n (reg_queue w ` set (T k n)) a)"
    by (rule deliver_list_correct [OF sim _ dist]) (simp add: t(4))
  ultimately show ?thesis using dist deliver_loop_list [OF t(3), of n k "[]"]
    by (intro exI [of _ "map (reg_queue w) (T k n)"]) (auto simp: t(2))
qed

lemma holds_delivered [simp]: "holds (delivered n S a) s n' \<longleftrightarrow> holds a s n'"
  by (auto simp: holds_def)

lemma services_correct:
  assumes "sim_at srv_of srvs L T w a" and "distinct ks"
  shows "\<exists>ss w'. deliver_services n ks w = Some (concat (map (posts srv_of n a) ss), w')
    \<and> distinct ss \<and> set ss = {s. holds a s n \<and> srv_of s \<in> set ks} \<and> sim_at srv_of srvs L T w' (delivered n (set ss) a)"
  using assms
proof (induction ks arbitrary: w a)
  case (Cons k ks)
  obtain ss1 w1 where 1: "deliver_loop n k (registrations w k n) [] w = Some (concat (map (posts srv_of n a) ss1), w1)"
      "distinct ss1" "set ss1 = {s. holds a s n \<and> srv_of s = k}" "sim_at srv_of srvs L T w1 (delivered n (set ss1) a)"
    using table_list_correct [OF Cons.prems(1)] by blast
  let ?a = "delivered n (set ss1) a"
  obtain ss2 w2 where 2: "deliver_services n ks w1 = Some (concat (map (posts srv_of n ?a) ss2), w2)"
      "distinct ss2" "set ss2 = {s. holds ?a s n \<and> srv_of s \<in> set ks}" "sim_at srv_of srvs L T w2 (delivered n (set ss2) ?a)"
    using Cons.IH [OF 1(4)] Cons.prems(2) by auto
  have disj: "set ss1 \<inter> set ss2 = {}" using Cons.prems(2) 1(3) 2(3) by auto
  then have same: "map (posts srv_of n ?a) ss2 = map (posts srv_of n a) ss2"
    by (auto simp: posts_def disjoint_iff)
  have "deliver_services n (k # ks) w = Some (concat (map (posts srv_of n a) (ss1 @ ss2)), w2)"
    using 1(1) 2(1) unfolding same by simp
  moreover have "sim_at srv_of srvs L T w2 (delivered n (set (ss1 @ ss2)) a)" using 2(4) delivered_union [OF disj] by simp
  moreover have "distinct (ss1 @ ss2)" using 1(2) 2(2) disj by simp
  moreover have "set (ss1 @ ss2) = {s. holds a s n \<and> srv_of s \<in> set (k # ks)}" using 1(3) 2(3) by auto
  ultimately show ?case by blast
qed simp

lemma deliver_signal_correct:
  assumes "signal_sim srv_of srvs w a" and "distinct srvs"
  shows "\<exists>ops w' a'. deliver_signal n w = Some (ops, w') \<and> delivery srv_of srvs n a ops a' \<and> signal_sim srv_of srvs w' a'"
proof -
  from assms(1) obtain L T where sim: "sim_at srv_of srvs L T w a" by (auto simp: signal_sim_def)
  obtain ss w' where d: "deliver_services n srvs w = Some (concat (map (posts srv_of n a) ss), w')"
      "distinct ss" "set ss = {s. holds a s n \<and> srv_of s \<in> set srvs}" "sim_at srv_of srvs L T w' (delivered n (set ss) a)"
    using services_correct [OF sim assms(2)] by blast
  have "delivery srv_of srvs n a (concat (map (posts srv_of n a) ss)) (delivered n (set ss) a)"
    unfolding delivery_def posts_def [abs_def] using d(2,3) by blast
  then show ?thesis using d sim_atD(7) [OF sim] by (auto simp: deliver_signal_def signal_sim_def)
qed

lemma pipe_loop_correct:
  assumes "signal_sim srv_of srvs w a" and "distinct srvs"
  shows "\<exists>ops w' a'. pipe_read_loop ns w = Some (ops, w') \<and> deliveries srv_of srvs ns a ops a' \<and> signal_sim srv_of srvs w' a'"
  using assms(1)
proof (induction ns arbitrary: w a)
  case (Cons n ns)
  obtain ops1 w1 a1 where 1: "(if n \<ge> 0 \<and> n < max_signal_number then deliver_signal n w else Some ([], w)) = Some (ops1, w1)"
      "if valid_number n then delivery srv_of srvs n a ops1 a1 else ops1 = [] \<and> a1 = a" "signal_sim srv_of srvs w1 a1"
  proof (cases "valid_number n")
    case True
    then show ?thesis using that deliver_signal_correct [OF Cons.prems assms(2), of n] by (auto simp: valid_number_def)
  next
    case False
    then show ?thesis using that [of "[]" w a] Cons.prems by (auto simp: valid_number_def)
  qed
  obtain ops2 w2 a2 where "pipe_read_loop ns w1 = Some (ops2, w2)" "deliveries srv_of srvs ns a1 ops2 a2"
      "signal_sim srv_of srvs w2 a2"
    using Cons.IH [OF 1(3)] by blast
  then show ?case using 1 by fastforce
qed simp

section \<open>Any sequence of calls\<close>

lemma signal_step_correct:
  assumes "signal_sim srv_of srvs w a" and "distinct srvs"
  shows "\<exists>ans w' a'. signal_step srv_of c w = Some (ans, w') \<and> table_step srv_of srvs c a ans a' \<and> signal_sim srv_of srvs w' a'"
proof -
  from assms(1) obtain L T where sim: "sim_at srv_of srvs L T w a" by (auto simp: signal_sim_def)
  note D = sim_atD [OF sim]
  show ?thesis
  proof (cases c)
    case (Add s n os)
    then show ?thesis using add_correct [OF assms(1)] by blast
  next
    case (Remove s n os)
    then show ?thesis using remove_correct [OF assms(1)] by blast
  next
    case (Clear_set s os)
    then show ?thesis using clear_correct [OF assms(1), of s os] by auto
  next
    case (Cancel_set s)
    then show ?thesis using sim_at_frame(1) [OF sim, of "(set_queue w)(s := [])"] D(5)
      by (auto simp: cancel_waits_def signal_sim_def)
  next
    case (Wait s op)
    then show ?thesis using wait_correct [OF assms(1)] by blast
  next
    case (Arrive n full)
    have "n \<in> handled w \<longleftrightarrow> (\<exists>s. holds a s n)" using D(3) by (auto simp: counts_ok_def holders_def)
    then show ?thesis using Arrive assms(1) sim_at_frame(2) [OF sim, of "pipe w @ [n]"] D(6)
      by (auto simp: asio_signal_handler_def signal_sim_def)
  next
    case Read_pipe
    have "signal_sim srv_of srvs (w\<lparr>pipe := []\<rparr>) (a\<lparr>arrived := []\<rparr>)"
      using sim_at_frame(2) [OF sim] by (auto simp: signal_sim_def)
    from pipe_loop_correct [OF this assms(2), of "pipe w"] show ?thesis
      using Read_pipe D(6) by (fastforce simp: pipe_do_perform_def)
  qed
qed

lemma signal_run_correct:
  assumes "distinct srvs"
  shows "signal_sim srv_of srvs w a \<Longrightarrow>
    \<exists>as w' a'. signal_run srv_of cs w = Some (as, w') \<and> table_run srv_of srvs cs a as a' \<and> signal_sim srv_of srvs w' a'"
proof (induction cs arbitrary: w a)
  case (Cons c cs)
  obtain ans w1 a1 where s: "signal_step srv_of c w = Some (ans, w1)" "table_step srv_of srvs c a ans a1" "signal_sim srv_of srvs w1 a1"
    using signal_step_correct [OF Cons.prems assms] by blast
  obtain as w' a' where "signal_run srv_of cs w1 = Some (as, w')" "table_run srv_of srvs cs a1 as a'" "signal_sim srv_of srvs w' a'"
    using Cons.IH [OF s(3)] by blast
  then show ?case using s(1,2) by (intro exI [of _ "ans # as"] exI [of _ w'] exI [of _ a']) auto
qed auto

lemma no_signals_sim: "signal_sim srv_of srvs (no_signals srvs) empty_table"
  unfolding signal_sim_def
  by (intro exI [of _ "\<lambda>_. []"] exI [of _ "\<lambda>_ _. []"])
    (auto simp: sim_at_def sets_ok_def tables_ok_def counts_ok_def regs_of_def holders_def holds_def no_signals_def empty_table_def)

text \<open>
  C23. Whatever is called on sets of signals, in one service or several, and whatever signals arrive in
  between, every call returns, and its answer and the operations it completes are those of a table that has for
  every set its signals and how often each came with nobody waiting: a signal that arrives while some set
  holds it reaches, when the pipe is read, all sets that hold it then, completes everyone who waits
  for one of them and is counted where nobody waits; waiting takes the smallest signal that was
  counted; the system is asked for the first and the last registration of a signal only, and when it refuses
  nothing changes.
\<close>

theorem signal_sets_deliver:
  assumes "distinct srvs"
  shows "\<exists>answers w' a'. signal_run srv_of cs (no_signals srvs) = Some (answers, w') \<and>
    table_run srv_of srvs cs empty_table answers a'"
  using signal_run_correct [OF assms no_signals_sim, of srv_of cs] by blast

theorem signal_sets_deliver_witness:
  "\<exists>answers w' a'.
     signal_run (\<lambda>s. s) [Add 0 2 Success, Add 1 2 Success, Wait 1 \<lparr>so_id = 7, so_ec = Success, so_number = 0\<rparr>,
       Arrive 2 False, Read_pipe, Wait 0 \<lparr>so_id = 8, so_ec = Success, so_number = 0\<rparr>] (no_signals [0, 1]) = Some (answers, w') \<and>
     table_run (\<lambda>s. s) [0, 1] [Add 0 2 Success, Add 1 2 Success, Wait 1 \<lparr>so_id = 7, so_ec = Success, so_number = 0\<rparr>,
       Arrive 2 False, Read_pipe, Wait 0 \<lparr>so_id = 8, so_ec = Success, so_number = 0\<rparr>] empty_table answers a'"
  by (rule signal_sets_deliver) simp

end
