(* ===== verification/Spec2Isabelle.thy ===== *)
theory Spec2Isabelle
  imports Net_Link Simple_Client Server_Threads Asio_App Asio_Read_Until_V2 Asio_Timer_Set Asio_Scheduler
    Asio_Strand Asio_Network_Text Asio_Buffered_Stream Asio_Socket_Service
    Asio_Reactor_Op_Queue Asio_Signal_Set
begin

text \<open>
  A verification library of the networking programs of this repository.

  The repository holds a small client/server framework, \<open>src/Networking/NetCommon\<close>, with a
  server program (\<open>NetServer/SimpleServer.cpp\<close>) and a client program
  (\<open>NetClient/SimpleClient.cpp\<close>) on top of it, an earlier experiment
  (\<open>CentOS_Proyect-Asio-App/main.cpp\<close>), and a copy of the header-only library asio 1.18.0, on
  which all of them rest. Of the framework and the programs, every class and every operation is
  modelled, at the granularity given below; of asio, the operations that the
  framework's message framing rests on, the operations built on the same buffers, the queues of
  operations and of timers from which its reactor takes its work, the scheduler behind
  \<open>io_context::run\<close>, the epoll reactor and the sockets on it, the strands, the buffered streams, and the arithmetic and the
  text of IP addresses and networks.

  How the parts interact. A message (\<open>net_message.h\<close>) is a header with an identifier and the
  size of the body, and a body of bytes. A connection (\<open>net_connection.h\<close>) owns a socket and a
  queue of outgoing messages, writes header and body with two asynchronous writes, reads them with
  two asynchronous reads, and pushes what it has read, tagged with itself, to the queue of its
  owner (\<open>net_tsqueue.h\<close>), which the io_context's thread shares with the program's own thread.
  The server (\<open>net_server.h\<close>) accepts connections, validates each by a scrambled challenge and
  hands the messages in its queue to virtual functions; the client (\<open>net_client.h\<close>) resolves,
  connects and runs the io_context in a thread. The composed reads and writes of asio loop over
  \<open>read_some\<close> and \<open>write_some\<close> of a socket.

  Theories.
  \<^item> \<open>Prelude\<close>: words, bytes of trivially copyable values, error codes, handlers that emit
    effects, the queue and copying contracts.
  \<^item> \<open>Net_Message\<close>: \<open>net_message.h\<close>; \<open>Net_Tsqueue\<close>: \<open>net_tsqueue.h\<close>, as operations on
    the deque and as threads that interleave at the level of mutex and condition variable.
  \<^item> \<open>Net_Connection\<close>: \<open>net_connection.h\<close>, each method and each completion handler a function
    from the object to the new object and the list of effects it starts, in program order;
    \<open>Net_Link\<close>: two connections and the wire between them, an inductive step relation.
  \<^item> \<open>Net_Server\<close>, \<open>Simple_Server\<close>: \<open>net_server.h\<close> and its subclass in \<open>SimpleServer.cpp\<close>;
    \<open>Server_Run\<close>: the runs of that program in which a turn of the main loop and a completion
    handler do not overlap, for what only one of the threads touches or a mutex protects;
    \<open>Server_Threads\<close>: its two threads side by side. They share the list of connections without a
    lock, so there every access of the list is a step of its
    own, iterators can be invalidated and the objects go with their last \<open>shared_ptr\<close>; a
    completion handler is one step.
  \<^item> \<open>Net_Client\<close>, \<open>Simple_Client\<close>: \<open>net_client.h\<close> and \<open>SimpleClient.cpp\<close>, whose main loop is
    taken turn by turn: the keys are read, one message is handled, then the io_context moves on.
  \<^item> \<open>Asio_Connect\<close>, \<open>Asio_App\<close>: connecting a socket, and the first program.
  \<^item> \<open>Asio_Buffer\<close>, \<open>Asio_Dynamic_Buffer\<close>, \<open>Asio_Streambuf\<close>: \<open>buffer.hpp\<close> and
    \<open>basic_streambuf.hpp\<close>; \<open>Asio_Consuming\<close>: \<open>detail/consuming_buffers.hpp\<close> and
    \<open>completion_condition.hpp\<close>.
  \<^item> \<open>Asio_Read_Write\<close>, \<open>Asio_Dynamic_Read\<close>: \<open>impl/read.hpp\<close> and \<open>impl/write.hpp\<close>, for
    buffer sequences and for dynamic buffers; \<open>Asio_Read_Until\<close>, \<open>Asio_Read_Until_V2\<close>:
    \<open>impl/read_until.hpp\<close>.
  \<^item> \<open>Linked_List\<close>: singly and doubly linked lists in memory, for the theories on pointers.
  \<^item> \<open>Asio_Op_Queue\<close>: \<open>detail/op_queue.hpp\<close>, on its pointers; \<open>Asio_Timer_Queue\<close>:
    \<open>detail/timer_queue.hpp\<close>, the heap and the linked list of timers; \<open>Asio_Chrono\<close>:
    \<open>detail/chrono_time_traits.hpp\<close> and the time until the next timer; \<open>Asio_Timer_Set\<close>:
    \<open>detail/impl/timer_queue_set.ipp\<close> and the timeouts of \<open>detail/impl/epoll_reactor.ipp\<close>.
  \<^item> \<open>Asio_Scheduler\<close>: \<open>detail/impl/scheduler.ipp\<close> and the event of \<open>detail/posix_event.hpp\<close>, each
    region under the mutex a function, the threads a step relation, with the handlers and the
    uncounted states of descriptors on the queue. It justifies how the
    models of the programs use the io_context: as a queue of handlers that run once, in order.
  \<^item> \<open>Asio_Strand\<close>: \<open>detail/strand_executor_service.hpp\<close> and \<open>detail/strand_service.hpp\<close>: the
    regions under the mutex of a strand are functions, the activations of its code on the call
    stacks of the threads frames, and the threads a step relation.
  \<^item> \<open>Asio_Reactor\<close>: \<open>detail/impl/epoll_reactor.ipp\<close>, the operations on one descriptor, with epoll's
    edge-triggered notification, the scheduler and the threads as a step relation around them.
  \<^item> \<open>Asio_Socket_Ops\<close>: the POSIX branches of \<open>detail/impl/socket_ops.ipp\<close> around the system calls of
    a socket, and what the reactor's operations do when they are performed
    (\<open>detail/reactive_socket_recv_op.hpp\<close> and its siblings); \<open>Asio_Socket_Service\<close>:
    \<open>detail/impl/reactive_socket_service_base.ipp\<close>, the life of a socket, any sequence of calls on it.
  \<^item> \<open>Asio_Hash_Map\<close>: \<open>detail/hash_map.hpp\<close>, on the nodes of its list, and
    \<open>Asio_Reactor_Op_Queue\<close>: \<open>detail/reactor_op_queue.hpp\<close>, the operations that the reactors on
    \<open>select\<close> and \<open>/dev/poll\<close> keep for each descriptor.
  \<^item> \<open>Asio_Signal_Set\<close>: \<open>detail/impl/signal_set_service.ipp\<close>, on the registrations in memory and the
    two lists each is in, and the table of signals that they implement.
  \<^item> \<open>Asio_Buffered_Stream\<close>: \<open>detail/buffered_stream_storage.hpp\<close>, \<open>buffered_read_stream.hpp\<close> and
    \<open>buffered_write_stream.hpp\<close>, on the memory of \<open>Asio_Buffer\<close>.
  \<^item> \<open>Asio_Address\<close>, \<open>Asio_Network\<close>: the classes in \<open>ip/\<close> for addresses of both families, their
    iterators, ranges and networks; \<open>Asio_Network_Text\<close>: their text, with the part of
    \<open>detail/impl/socket_ops.ipp\<close> that reads and prints it.

  Conventions. A class is a record and an operation takes and returns the record; an exception or
  an access outside a container is \<open>None\<close> or a constructor of its own. 32-bit and 64-bit fields
  of the protocol are words; sizes and positions in memory, which the container's limit keeps
  below \<open>2 ^ 63\<close>, are natural numbers, with \<open>size_max\<close> where the code uses the largest
  \<open>size_t\<close> as a mark. Asynchronous operations are effects, and their handlers functions of the
  error code and of what arrived; which of the started operations completes next is a choice of
  the step relation, so a property of the runs holds for every schedule.

  What is outside is an argument: the virtual functions of a derived class, the resolver, the
  clock, keyboard and window, the capacity of a container, a caller's match condition, and the
  answers of the operating system, a list with how many bytes each transfer moves at most and
  with which error. A call that runs out of answers is waiting, and the outcome says so; a
  theorem that an operation returns names the answers that are enough (one more than there are
  bytes to move, or one error). Loops recurse over these lists or over the data, so there is no
  fuel beyond them.

  Contracts between components are locales: \<open>fifo\<close> and \<open>pod\<close> (\<open>Prelude\<close>), the
  handlers the server base class calls (\<open>disconnect_handler\<close>, \<open>reporting_handler\<close>,
  \<open>message_handler\<close>), dynamic buffers (\<open>dynamic_buffer_v1\<close>, \<open>dynamic_buffer_v2\<close>,
  \<open>dynamic_reader\<close>), the rest of a buffer sequence (\<open>consumer\<close>), delimiters
  (\<open>delimiter\<close>, \<open>until_reader\<close>), the loops over a set of timer queues (\<open>visit_loop\<close>,
  \<open>bounded_wait\<close>), finite maps (\<open>finite_map\<close>), and the iterators of addresses (\<open>address_iterator\<close>). Each is interpreted on the model's own definitions; version 2
  of the dynamic buffers gives version 1 by a \<open>sublocale\<close>.

  What the properties show: the framing delivers what is sent, in order, whatever the schedule;
  the shared queue is linearizable and free of deadlock but can lose a wake-up; the handshake
  accepts exactly the right answer; the server reaches the clients it should and numbers its
  clients consecutively; its two threads follow no null pointer, no invalid iterator and no pointer
  to a destroyed object as long as no client is appended while the list is walked and no handler
  of a connection runs after its destruction, and both do happen; the client sends and stops as the
  key presses say, once for each, and prints round-trip times; the composed operations of asio move exactly the bytes they count, in order,
  stop when they should and return, and under named conditions the asynchronous ones end as the
  synchronous ones do (not on empty sequences of buffers, and not where no socket can be opened); a
  timer queue stays a heap whatever is called, what is due comes out earliest first, the
  reactor never sleeps past a timer; the scheduler loses no handler, loses no wake-up as long as no
  thread leaves after one handler or by an exception, and stops for want of work only when no
  handler is left, though states of descriptors may be; the operations on a descriptor leave the reactor in order, and
  none waits for an event that will not come, but a second read after the end of a stream; a socket
  hands the reactor non-blocking descriptors only, and its asynchronous operations end as the
  synchronous calls do while the user has not made it non-blocking and its polls succeed; the operations that wait for a descriptor are a queue of their own, although all
  share a hash map that rehashes and recycles its nodes, and that map is a map; every signal read from the pipe reaches
  each set that holds it, once, and no list of registrations is left inconsistent; a strand runs one function at a time, in order, and forgets
  none; a buffered read stream cannot be told from the stream behind it, and a buffered write stream
  hands on every byte once and in order while no call on a failing layer throws; the ranges of a
  network hold exactly its hosts, and the addresses whose scope fits come back from their text.
  Properties and lemmas that name a defect of the code (a lost wake-up, a stale body, a stranded
  read, a handler on a destroyed object) state what the code does.

  Pointers are addresses and the fields behind them functions from addresses, so that a heap
  entry, a link and an object can disagree in the model as they can in memory; that they never do is
  what \<open>timer_queue_consistent\<close> states. The counts of a clock are integers whose range the model
  checks in every operation that could overflow.

  Not modelled, and why: of the scheduler, its own thread, its shutdown, and handlers that call
  \<open>run\<close> or \<open>poll\<close> of the scheduler they run in; the timer queue at shutdown; signal services that
  come and go, forks, and calls that fall between two signals of one read of the pipe; data races
  inside a single access of the server's list of connections; the pools in which asio keeps strands, their mutexes and the states of descriptors; the other
  reactors, resolvers, coroutines and SSL of asio and the endpoints of its sockets, which wrap operating-system interfaces or are not used by the programs beyond
  running completion handlers in a thread, which is how the models above use them; the searches
  for regular expressions in \<open>read_until.hpp\<close>, whose library is not in the repository; traits,
  allocators, forwarding overloads and overloads that turn an error code into an exception.
\<close>

end
